(* ===== verification/Prelude.thy ===== *)
theory Prelude
  imports Main "HOL-Library.List_Lexorder" "HOL-Library.Char_ord" "HOL-Library.Multiset"
begin

text \<open>
  The vocabulary shared by the component theories.

  Go strings are byte strings and compare byte by byte, so they are modelled as
  \<^typ>\<open>string\<close> (a list of 8-bit characters) under the lexicographic order of
  \<^theory_text>\<open>List_Lexorder\<close>. A Go call that returns a value and an error is a function into
  \<^typ>\<open>'e + 'a\<close>: \<^term>\<open>Inl e\<close> is the error, \<^term>\<open>Inr v\<close> the value with a nil error.

  The theorem collections are: \<open>lex_intros\<close>, the ways a byte string can precede another;
  \<open>frame_simps\<close>, the fields an operation leaves alone.
\<close>

named_theorems lex_intros \<open>introduction rules for the byte-wise order on strings\<close>
named_theorems frame_simps \<open>what an operation leaves unchanged\<close>

section \<open>Results with an error\<close>

text \<open>Running one fallible call after another: the first error is returned.\<close>

fun and_then :: "'e + 'a \<Rightarrow> ('a \<Rightarrow> 'e + 'b) \<Rightarrow> 'e + 'b" where
  "and_then (Inl e) f = Inl e"
| "and_then (Inr x) f = f x"

lemma and_then_Inr: "and_then r f = Inr y \<longleftrightarrow> (\<exists>x. r = Inr x \<and> f x = Inr y)"
  by (cases r) auto

lemma and_then_Inl: "and_then r f = Inl e \<longleftrightarrow> r = Inl e \<or> (\<exists>x. r = Inr x \<and> f x = Inl e)"
  by (cases r) auto

section \<open>Byte strings in lexicographic order\<close>

text \<open>
  \<open>diverges u v\<close>: the strings differ at a position both have, and \<open>u\<close>'s byte there is the
  smaller. Unlike \<open>u < v\<close>, this stays true when either string is extended.
\<close>

definition diverges :: "string \<Rightarrow> string \<Rightarrow> bool" where
  "diverges u v \<longleftrightarrow> (\<exists>p x y s t. u = p @ x # s \<and> v = p @ y # t \<and> x < y)"

lemma lex_append_cancel [simp]: "(p @ u < p @ v) \<longleftrightarrow> (u < (v :: string))"
  by (induction p) auto

lemma diverges_less [lex_intros]: "diverges u v \<Longrightarrow> u @ f < v @ g"
  by (auto simp: diverges_def)

lemma diverges_less' [lex_intros]: "diverges u v \<Longrightarrow> u < v"
  using diverges_less [of u v "[]" "[]"] by simp

lemma diverges_append: "diverges u v \<Longrightarrow> diverges (p @ u) (p @ v)"
  unfolding diverges_def by (metis append.assoc)

lemma diverges_Cons: "x < y \<Longrightarrow> diverges (x # s) (y # t)"
  unfolding diverges_def by (metis append_Nil)

lemma prefix_less [lex_intros]: "f \<noteq> [] \<Longrightarrow> u < u @ (f :: string)"
  using lex_append_cancel [of u "[]" f] by (cases f) auto

lemma less_append_right: "u < (v :: string) \<Longrightarrow> u < v @ f"
  by (cases "f = []") (auto dest: prefix_less [of f v])

lemma same_length_diverges:
  "length u = length v \<Longrightarrow> u < v \<Longrightarrow> diverges u v"
proof (induction u v rule: list_induct2)
  case Nil
  then show ?case by simp
next
  case (Cons x xs y ys)
  show ?case
  proof (cases "x = y")
    case True
    with Cons have "diverges xs ys" by simp
    with True show ?thesis using diverges_append [of xs ys "[x]"] by simp
  next
    case False
    with Cons.prems have "x < y" by auto
    then show ?thesis by (rule diverges_Cons)
  qed
qed

section \<open>Lists\<close>

lemma sorted_wrt_less_distinct: "sorted_wrt (<) (xs :: 'a :: linorder list) \<Longrightarrow> distinct xs"
  by (induction xs) auto

lemma sorted_wrt_less_nth_iff:
  assumes "sorted_wrt (<) (xs :: 'a :: linorder list)" and "i < length xs" and "j < length xs"
  shows "xs ! i < xs ! j \<longleftrightarrow> i < j"
  using assms
  by (metis linorder_neqE_nat order_less_asym order_less_irrefl sorted_wrt_nth_less)


text \<open>A number in decimal, as \<open>strconv\<close> and SQLite write it.\<close>

fun dec_nat :: "nat \<Rightarrow> string" where
  "dec_nat n = (if n < 10 then [char_of (48 + n)] else dec_nat (n div 10) @ [char_of (48 + n mod 10)])"

declare dec_nat.simps [simp del]

definition dec_int :: "int \<Rightarrow> string" where
  "dec_int i = (if i < 0 then CHR ''-'' # dec_nat (nat (- i)) else dec_nat (nat i))"

lemma dec_digit_inj: "m < 10 \<Longrightarrow> n < 10 \<Longrightarrow> (char_of (48 + m) :: char) = char_of (48 + n) \<longleftrightarrow> m = (n :: nat)"
proof -
  assume "m < 10" "n < 10"
  then have "48 + m < 256" "48 + n < 256" by auto
  then have "(of_char (char_of (48 + m) :: char) :: nat) = 48 + m" "(of_char (char_of (48 + n) :: char) :: nat) = 48 + n"
    by (simp_all add: take_bit_eq_mod)
  then show ?thesis by (metis add_left_cancel)
qed

lemma dec_digit_code: "d < 10 \<Longrightarrow> (of_char (char_of (48 + d) :: char) :: nat) = 48 + d"
  by (simp add: take_bit_eq_mod)

lemma dec_nat_neq_Nil [simp]: "dec_nat n \<noteq> []"
  by (subst dec_nat.simps) simp

lemma dec_nat_inj: "dec_nat m = dec_nat n \<longleftrightarrow> m = n"
proof
  show "dec_nat m = dec_nat n \<Longrightarrow> m = n"
  proof (induction m arbitrary: n rule: dec_nat.induct)
    case (1 m)
    note prems = "1.prems" and IH = "1.IH"
    consider "m < 10" "n < 10" | "m < 10" "\<not> n < 10" | "\<not> m < 10" "n < 10" | "\<not> m < 10" "\<not> n < 10" by blast
    then show ?case
    proof cases
      case 4
      have "dec_nat (m div 10) = dec_nat (n div 10)" "m mod 10 = n mod 10"
        using prems 4 dec_nat.simps [of m] dec_nat.simps [of n] dec_digit_inj [of "m mod 10" "n mod 10"]
        by simp_all
      with IH [OF 4(1)] show ?thesis by (metis div_mult_mod_eq)
    next
      case 1
      then show ?thesis
        using prems dec_nat.simps [of m] dec_nat.simps [of n] dec_digit_inj [of m n] by simp
    next
      case 2
      then have "dec_nat n \<noteq> [c]" for c using dec_nat.simps [of n] by simp
      with 2 prems show ?thesis using dec_nat.simps [of m] by metis
    next
      case 3
      then have "dec_nat m \<noteq> [c]" for c using dec_nat.simps [of m] by simp
      with 3 prems show ?thesis using dec_nat.simps [of n] by metis
    qed
  qed
qed simp

lemma hd_dec_nat: "hd (dec_nat n) \<in> (\<lambda>d. char_of (48 + d)) ` {..<10::nat}"
proof (induction n rule: dec_nat.induct)
  case (1 n)
  show ?case using 1 by (subst dec_nat.simps) auto
qed

lemma dec_int_inj: "dec_int i = dec_int j \<longleftrightarrow> i = j"
proof -
  have "hd (dec_nat n) \<noteq> CHR ''-''" for n
  proof
    assume "hd (dec_nat n) = CHR ''-''"
    with hd_dec_nat [of n] obtain d :: nat where "d < 10" "char_of (48 + d) = CHR ''-''" by auto
    then show False using dec_digit_code [of d] by simp
  qed
  then have "dec_nat n \<noteq> CHR ''-'' # s" for n s by (metis list.sel(1))
  then show ?thesis using dec_nat_inj by (auto simp: dec_int_def) (metis list.sel(1))+
qed

section \<open>Integers\<close>

text \<open>Go's division rounds to zero.\<close>

definition go_div :: "int \<Rightarrow> int \<Rightarrow> int" where
  "go_div a b = sgn a * sgn b * (\<bar>a\<bar> div \<bar>b\<bar>)"

definition go_mod :: "int \<Rightarrow> int \<Rightarrow> int" where
  "go_mod a b = a - go_div a b * b"

lemma go_div_floor:
  assumes "0 < b"
  shows "(if n < 0 \<and> go_mod n b \<noteq> 0 then go_div n b - 1 else go_div n b) = n div b"
proof (cases "n < 0")
  case True
  have g: "go_div n b = - ((- n) div b)" using True assms by (simp add: go_div_def)
  have m: "go_mod n b = - ((- n) mod b)" by (simp add: go_mod_def g minus_mult_div_eq_mod [symmetric] algebra_simps)
  have "(- n) mod b = 0 \<longleftrightarrow> n mod b = 0" by (simp add: mod_eq_0_iff_dvd)
  moreover have "- n div b = (if n mod b = 0 then - (n div b) else - (n div b) - 1)"
    using assms by (intro zdiv_zminus1_eq_if) simp
  ultimately show ?thesis using g m True by simp
next
  case False
  then show ?thesis using assms by (cases "n = 0") (simp_all add: go_div_def)
qed

section \<open>Loops over indices\<close>

text \<open>\<open>for i < n && p(i) { i++ }\<close>: the first index from \<open>i\<close> on where \<open>p\<close> fails, at most \<open>n\<close>.\<close>

function scan_to :: "(nat \<Rightarrow> bool) \<Rightarrow> nat \<Rightarrow> nat \<Rightarrow> nat" where
  "scan_to p i n = (if i < n \<and> p i then scan_to p (i + 1) n else i)"
  by pat_completeness auto
termination by (relation "measure (\<lambda>(p, i, n). n - i)") auto

declare scan_to.simps [simp del]

lemma scan_to_bounds: "i \<le> scan_to p i n \<and> (i \<le> n \<longrightarrow> scan_to p i n \<le> n)"
  by (induction p i n rule: scan_to.induct) (subst (1 2) scan_to.simps, auto)

lemma scan_to_all: "i \<le> j \<Longrightarrow> j < scan_to p i n \<Longrightarrow> p j"
proof (induction p i n rule: scan_to.induct)
  case (1 p i n)
  show ?case
  proof (cases "i < n \<and> p i")
    case True
    then have "scan_to p i n = scan_to p (i + 1) n" by (simp add: scan_to.simps [of p i n])
    then show ?thesis using 1 True by (cases "i = j") auto
  next
    case False
    then have "scan_to p i n = i" by (auto simp: scan_to.simps [of p i n])
    then show ?thesis using "1.prems" by simp
  qed
qed

lemma scan_to_stops: "i \<le> n \<Longrightarrow> scan_to p i n = n \<or> \<not> p (scan_to p i n)"
proof (induction p i n rule: scan_to.induct)
  case (1 p i n)
  show ?case by (subst (1 2) scan_to.simps) (use 1 in \<open>auto simp: scan_to.simps [of p i n]\<close>)
qed

end
