(* ===== verification/Sortkey.thy ===== *)
theory Sortkey
  imports Prelude
begin

text \<open>
  Fractional sort keys (\<^verbatim>\<open>internal/shared/sortkey/sortkey.go\<close>): strings that sort in byte order
  such that a key can always be made between two others. Every function of the file is
  translated. A run-time panic of the Go code (an index out of range) is the error
  \<open>SkPanic\<close>, so that its absence can be proved.
\<close>

section \<open>The code\<close>

datatype sk_error =
    InvalidKey string
  | InvalidKeyZero string
  | NotBefore string string
  | NothingBefore string
  | NothingAfter string
  | FracNotBefore string string
  | FracEndsInZero
  | SkPanic

definition digits :: string where
  "digits = ''0123456789ABCDEFGHIJKLMNOPQRSTUVWXYZabcdefghijklmnopqrstuvwxyz''"

definition smallest_integer :: string where
  "smallest_integer = ''A'' @ replicate 26 CHR ''0''"

text \<open>\<open>strings.IndexByte\<close> and \<open>strings.HasSuffix(s, "0")\<close> of the standard library.\<close>

fun index_byte :: "string \<Rightarrow> char \<Rightarrow> int" where
  "index_byte [] c = - 1"
| "index_byte (x # xs) c =
     (if x = c then 0 else let i = index_byte xs c in if i < 0 then - 1 else i + 1)"

definition ends_in_zero :: "string \<Rightarrow> bool" where
  "ends_in_zero s \<longleftrightarrow> s \<noteq> [] \<and> last s = CHR ''0''"

definition digit_at :: "string \<Rightarrow> nat \<Rightarrow> char" where
  "digit_at s i = (if i < length s then s ! i else CHR ''0'')"

definition integer_length :: "char \<Rightarrow> nat" where
  "integer_length head =
     (if CHR ''a'' \<le> head \<and> head \<le> CHR ''z'' then of_char head - of_char CHR ''a'' + 2
      else if CHR ''A'' \<le> head \<and> head \<le> CHR ''Z'' then of_char CHR ''Z'' - of_char head + 2
      else 0)"

definition integer_part :: "string \<Rightarrow> string" where
  "integer_part key = take (integer_length (hd key)) key"

text \<open>\<open>None\<close> is the nil error. The caller never passes the empty key.\<close>

fun validate :: "string \<Rightarrow> sk_error option" where
  "validate [] = Some SkPanic"
| "validate (h # t) =
     (let key = h # t; n = integer_length h in
      if n = 0 \<or> n > length key \<or> key = smallest_integer then Some (InvalidKey key)
      else if list_ex (\<lambda>c. index_byte digits c < 0) t then Some (InvalidKey key)
      else if ends_in_zero (drop n key) then Some (InvalidKeyZero key)
      else None)"

text \<open>
  The carry loops of \<open>increment\<close> and \<open>decrement\<close>: from the last digit to the first, stopping
  at the first digit that does not carry; the flag says that every digit carried.
\<close>

fun incr_digits :: "string \<Rightarrow> string \<times> bool" where
  "incr_digits [] = ([], True)"
| "incr_digits (c # cs) =
     (case incr_digits cs of
        (cs', False) \<Rightarrow> (c # cs', False)
      | (cs', True) \<Rightarrow>
          (let d = index_byte digits c + 1 in
           if d < int (length digits) then (digits ! nat d # cs', False)
           else (CHR ''0'' # cs', True)))"

fun decr_digits :: "string \<Rightarrow> string \<times> bool" where
  "decr_digits [] = ([], True)"
| "decr_digits (c # cs) =
     (case decr_digits cs of
        (cs', False) \<Rightarrow> (c # cs', False)
      | (cs', True) \<Rightarrow>
          (let d = index_byte digits c - 1 in
           if d \<ge> 0 then (digits ! nat d # cs', False)
           else (digits ! (length digits - 1) # cs', True)))"

fun increment :: "string \<Rightarrow> string option" where
  "increment [] = None"
| "increment (head # digs0) =
     (case incr_digits digs0 of
        (digs, False) \<Rightarrow> Some (head # digs)
      | (digs, True) \<Rightarrow>
          (if head = CHR ''Z'' then Some ''a0''
           else if head = CHR ''z'' then None
           else let h = char_of (of_char head + 1 :: nat) in
             Some (h # (if h > CHR ''a'' then digs @ ''0'' else butlast digs))))"

fun decrement :: "string \<Rightarrow> string option" where
  "decrement [] = None"
| "decrement (head # digs0) =
     (case decr_digits digs0 of
        (digs, False) \<Rightarrow> Some (head # digs)
      | (digs, True) \<Rightarrow>
          (if head = CHR ''a'' then Some (''Z'' @ drop (length digits - 1) digits)
           else if head = CHR ''A'' then None
           else let h = char_of (of_char head - 1 :: nat) in
             Some (h # (if h < CHR ''Z'' then digs @ [digits ! (length digits - 1)]
                        else butlast digs))))"

text \<open>The length of the common prefix, reading \<open>a\<close> as padded with zeros.\<close>

function prefix_from :: "string \<Rightarrow> string \<Rightarrow> nat \<Rightarrow> nat" where
  "prefix_from a b n =
     (if n < length b \<and> digit_at a n = b ! n then prefix_from a b (Suc n) else n)"
  by pat_completeness auto
termination
  by (relation "measure (\<lambda>(a, b, n). length b - n)") auto

declare prefix_from.simps [simp del]

fun prepend :: "string \<Rightarrow> sk_error + string \<Rightarrow> sk_error + string" where
  "prepend p (Inl e) = Inl e"
| "prepend p (Inr m) = Inr (p @ m)"

function midpoint :: "string \<Rightarrow> string \<Rightarrow> sk_error + string" where
  "midpoint a b =
     (if b \<noteq> [] \<and> a \<ge> b then Inl (FracNotBefore a b)
      else if ends_in_zero a \<or> ends_in_zero b then Inl FracEndsInZero
      else let n = prefix_from a b 0 in
      if b \<noteq> [] \<and> n > 0 then prepend (take n b) (midpoint (drop n a) (drop n b))
      else let da = (if a \<noteq> [] then index_byte digits (hd a) else 0);
               db = (if b \<noteq> [] then index_byte digits (hd b) else int (length digits)) in
      if db - da > 1 then Inr [digits ! nat ((da + db + 1) div 2)]
      else if length b > 1 then Inr (take 1 b)
      else if da < 0 then Inl SkPanic
      else prepend [digits ! nat da] (midpoint (drop 1 a) []))"
  by pat_completeness auto
termination
  by (relation "measures [\<lambda>(a, b). length b, \<lambda>(a, b). length a]")
    (auto simp: digits_def split: if_splits)

declare midpoint.simps [simp del]

fun first_invalid :: "string list \<Rightarrow> sk_error option" where
  "first_invalid [] = None"
| "first_invalid (k # ks) =
     (if k \<noteq> [] then (case validate k of Some e \<Rightarrow> Some e | None \<Rightarrow> first_invalid ks)
      else first_invalid ks)"

definition between :: "string \<Rightarrow> string \<Rightarrow> sk_error + string" where
  "between a b =
     (case first_invalid [a, b] of Some e \<Rightarrow> Inl e | None \<Rightarrow>
      if a \<noteq> [] \<and> b \<noteq> [] \<and> a \<ge> b then Inl (NotBefore a b)
      else if a = [] then
        (if b = [] then Inr ''a0''
         else let ib = integer_part b in
           if ib = smallest_integer then prepend ib (midpoint [] (drop (length ib) b))
           else if ib < b then Inr ib
           else (case decrement ib of Some d \<Rightarrow> Inr d | None \<Rightarrow> Inl (NothingBefore b)))
      else let ia = integer_part a; fa = drop (length ia) a in
        if b = [] then
          (case increment ia of Some i \<Rightarrow> Inr i | None \<Rightarrow> prepend ia (midpoint fa []))
        else let ib = integer_part b in
          if ia = ib then prepend ia (midpoint fa (drop (length ib) b))
          else (case increment ia of
                  None \<Rightarrow> Inl (NothingAfter a)
                | Some i \<Rightarrow> if i < b then Inr i else prepend ia (midpoint fa [])))"

text \<open>The two one-sided loops of \<open>Spread\<close>, then \<open>Spread\<close> itself.\<close>

fun spread_up :: "string \<Rightarrow> nat \<Rightarrow> sk_error + string list" where
  "spread_up k 0 = Inr []"
| "spread_up k (Suc n) =
     and_then (between k []) (\<lambda>k'. and_then (spread_up k' n) (\<lambda>out. Inr (k' # out)))"

fun spread_down :: "string \<Rightarrow> nat \<Rightarrow> sk_error + string list" where
  "spread_down k 0 = Inr []"
| "spread_down k (Suc n) =
     and_then (between [] k) (\<lambda>k'. and_then (spread_down k' n) (\<lambda>out. Inr (out @ [k'])))"

function spread :: "string \<Rightarrow> string \<Rightarrow> int \<Rightarrow> sk_error + string list" where
  "spread a b n =
     (if n \<le> 0 then Inr []
      else if n = 1 then and_then (between a b) (\<lambda>k. Inr [k])
      else if b = [] then spread_up a (nat n)
      else if a = [] then spread_down b (nat n)
      else let mid = n div 2 in
        and_then (between a b) (\<lambda>c.
        and_then (spread a c mid) (\<lambda>left.
        and_then (spread c b (n - mid - 1)) (\<lambda>right. Inr (left @ [c] @ right)))))"
  by pat_completeness auto
termination
  by (relation "measure (\<lambda>(a, b, n). nat n)") auto

declare spread.simps [simp del]

section \<open>Digits\<close>

lemma digits_sorted: "sorted_wrt (<) digits"
  unfolding digits_def by code_simp

lemma digits_distinct: "distinct digits"
  by (rule sorted_wrt_less_distinct [OF digits_sorted])

lemma length_digits: "length digits = 62"
  by (simp add: digits_def)

lemma zero_in_digits [simp]: "CHR ''0'' \<in> set digits" and z_in_digits [simp]: "CHR ''z'' \<in> set digits"
  and digits_first: "digits ! 0 = CHR ''0''" and digits_last: "digits ! 61 = CHR ''z''"
  by (simp_all add: digits_def)

lemma index_byte_in:
  "c \<in> set xs \<Longrightarrow> 0 \<le> index_byte xs c \<and> nat (index_byte xs c) < length xs
     \<and> xs ! nat (index_byte xs c) = c"
  by (induction xs) (auto simp: Let_def nat_add_distrib)

lemma index_byte_notin: "c \<notin> set xs \<Longrightarrow> index_byte xs c = - 1"
  by (induction xs) auto

lemma index_byte_neg: "index_byte xs c < 0 \<longleftrightarrow> c \<notin> set xs"
  using index_byte_in [of c xs] index_byte_notin [of c xs] by force

lemma index_byte_nth:
  assumes "distinct xs" and "i < length xs" shows "index_byte xs (xs ! i) = int i"
  by (metis assms index_byte_in int_nat_eq nth_eq_iff_index_eq nth_mem)

text \<open>What the proofs use of a digit: its index, and that indices order as characters do.\<close>

lemma digit_index:
  assumes "c \<in> set digits"
  shows "0 \<le> index_byte digits c" and "index_byte digits c < 62"
    and "digits ! nat (index_byte digits c) = c"
  using index_byte_in [OF assms] by (auto simp: length_digits)

lemma digit_less_iff:
  assumes "c \<in> set digits" and "d \<in> set digits"
  shows "c < d \<longleftrightarrow> index_byte digits c < index_byte digits d"
  using sorted_wrt_less_nth_iff [OF digits_sorted, of "nat (index_byte digits c)" "nat (index_byte digits d)"]
    digit_index [OF assms(1)] digit_index [OF assms(2)]
  by (auto simp: length_digits)

lemma digit_nth:
  assumes "0 \<le> i" and "i < 62"
  shows "digits ! nat i \<in> set digits" and "index_byte digits (digits ! nat i) = i"
  using assms index_byte_nth [OF digits_distinct, of "nat i"] by (simp_all add: length_digits)

lemma digit_ge_zero: "c \<in> set digits \<Longrightarrow> CHR ''0'' \<le> c"
  using digit_less_iff [of c "CHR ''0''"] digit_index [of c] digit_nth [of 0]
  by (force simp: digits_first not_less [symmetric])

lemma digit_le_z: "c \<in> set digits \<Longrightarrow> c \<le> CHR ''z''"
  using digit_less_iff [of "CHR ''z''" c] digit_index [of c] digit_nth [of 61]
  by (force simp: digits_last not_less [symmetric])

lemma zeros_least: "set t \<subseteq> set digits \<Longrightarrow> replicate (length t) (CHR ''0'') \<le> t"
proof (induction t)
  case (Cons c t)
  then show ?case using digit_ge_zero [of c] by (auto simp: le_less)
qed simp

lemma zs_greatest: "set t \<subseteq> set digits \<Longrightarrow> t \<le> replicate (length t) (CHR ''z'')"
proof (induction t)
  case (Cons c t)
  then show ?case using digit_le_z [of c] by (auto simp: le_less)
qed simp

section \<open>Integer parts\<close>

text \<open>A well-formed integer part: a head that encodes its length, then digits.\<close>

definition int_part :: "string \<Rightarrow> bool" where
  "int_part i \<longleftrightarrow> i \<noteq> [] \<and> integer_length (hd i) = length i \<and> set (tl i) \<subseteq> set digits"

lemma int_part_Cons [simp]:
  "int_part (h # t) \<longleftrightarrow> integer_length h = Suc (length t) \<and> set t \<subseteq> set digits"
  by (auto simp: int_part_def)

lemma int_part_Nil [simp]: "\<not> int_part []"
  by (simp add: int_part_def)

text \<open>The keys the package accepts: \<open>validate\<close> answers nil.\<close>

definition valid_key :: "string \<Rightarrow> bool" where
  "valid_key k \<longleftrightarrow> validate k = None"

definition fraction :: "string \<Rightarrow> bool" where
  "fraction f \<longleftrightarrow> set f \<subseteq> set digits \<and> \<not> ends_in_zero f"

lemma valid_key_iff:
  "valid_key k \<longleftrightarrow> k \<noteq> smallest_integer \<and> (\<exists>i f. k = i @ f \<and> int_part i \<and> fraction f)" (is "_ = ?R")
proof
  assume v: "valid_key k"
  then obtain h t where k: "k = h # t" by (cases k) (auto simp: valid_key_def)
  let ?n = "integer_length h"
  from v k have 1: "?n \<noteq> 0" "?n \<le> length k" "k \<noteq> smallest_integer" "set t \<subseteq> set digits"
      "\<not> ends_in_zero (drop ?n k)"
    by (auto simp: valid_key_def Let_def list_ex_iff index_byte_neg split: if_splits)
  then have "k = take ?n k @ drop ?n k \<and> int_part (take ?n k) \<and> fraction (drop ?n k)"
    using k set_take_subset [of "?n - 1" t] set_drop_subset [of "?n - 1" t]
    by (cases ?n) (auto simp: fraction_def)
  with 1 show ?R by blast
next
  assume ?R
  then obtain i f where "k = i @ f" "int_part i" "fraction f" "k \<noteq> smallest_integer" by blast
  then show "valid_key k"
    by (cases i) (auto simp: valid_key_def Let_def list_ex_iff index_byte_neg fraction_def)
qed

lemma valid_key_split:
  assumes "valid_key k"
  obtains i f where "k = i @ f" "int_part i" "fraction f" "k \<noteq> smallest_integer"
    "integer_part k = i" "drop (length i) k = f"
proof -
  from assms obtain i f where *: "k = i @ f" "int_part i" "fraction f" "k \<noteq> smallest_integer"
    by (auto simp: valid_key_iff)
  then have "integer_part k = i" by (cases i) (auto simp: integer_part_def)
  with * that show thesis by auto
qed

lemma valid_int_part: "int_part i \<Longrightarrow> i \<noteq> smallest_integer \<Longrightarrow> valid_key i"
  by (metis append_Nil2 ends_in_zero_def fraction_def empty_subsetI list.set(1) valid_key_iff)

lemma smallest_int_part: "int_part smallest_integer"
  by (auto simp: smallest_integer_def integer_length_def)

lemma integer_length_pos: "integer_length h \<noteq> 0 \<Longrightarrow> CHR ''A'' \<le> h \<and> h \<le> CHR ''z''"
  by (auto simp: integer_length_def less_eq_char_def split: if_splits)

lemma smallest_least: assumes "int_part i" shows "smallest_integer \<le> i"
proof -
  from assms obtain h t where i: "i = h # t" by (cases i) (auto simp: int_part_def)
  with assms have "CHR ''A'' \<le> h" using integer_length_pos [of h] by auto
  moreover have "length t = 26" if "h = CHR ''A''"
    using assms i that by (simp add: integer_length_def)
  ultimately show ?thesis
    using assms i zeros_least [of t] by (auto simp: smallest_integer_def le_less)
qed

lemma int_parts_diverge:
  assumes "int_part i" and "int_part j" and "i \<noteq> j" and "i @ f < j @ g"
  shows "diverges i j"
proof (cases "hd i = hd j")
  case True
  with assms have "length i = length j" by (simp add: int_part_def)
  moreover have "i < j"
  proof (rule ccontr)
    assume "\<not> i < j"
    with assms(3) have "j < i" by simp
    with \<open>length i = length j\<close> have "diverges j i" by (intro same_length_diverges) simp_all
    then show False using assms(4) diverges_less [of j i g f] by simp
  qed
  ultimately show ?thesis by (rule same_length_diverges)
next
  case False
  with assms show ?thesis by (cases i; cases j) (auto intro: diverges_Cons)
qed

section \<open>Increment and decrement\<close>

text \<open>
  Without a carry out of the first digit the digits move strictly up (down); with one they
  were all \<open>z\<close> (all \<open>0\<close>).
\<close>

lemma incr_digits_spec:
  "set s \<subseteq> set digits \<Longrightarrow>
   (case incr_digits s of
      (s', False) \<Rightarrow> length s' = length s \<and> set s' \<subseteq> set digits \<and> diverges s s'
    | (s', True) \<Rightarrow> s' = replicate (length s) (CHR ''0'') \<and> s = replicate (length s) (CHR ''z''))"
proof (induction s)
  case (Cons c s)
  obtain s' carry where s': "incr_digits s = (s', carry)" by fastforce
  show ?case
  proof (cases carry)
    case False
    with Cons s' show ?thesis by (auto dest: diverges_append [of _ _ "[c]"])
  next
    case True
    with Cons s' have IH: "s' = replicate (length s) (CHR ''0'')" "s = replicate (length s) (CHR ''z'')"
      by auto
    have c: "c \<in> set digits" using Cons.prems by simp
    show ?thesis
    proof (cases "index_byte digits c + 1 < 62")
      case small: True
      have "digits ! nat (index_byte digits c + 1) \<in> set digits
          \<and> c < digits ! nat (index_byte digits c + 1)"
        using digit_index [OF c] digit_nth [of "index_byte digits c + 1"] small c
        by (simp add: digit_less_iff)
      with small True s' IH(1) show ?thesis
        by (auto simp: Let_def length_digits intro: diverges_Cons)
    next
      case False
      then have "index_byte digits c = 61" using digit_index(2) [OF c] by simp
      with c have "c = CHR ''z''" using digit_index(3) [OF c] digits_last by simp
      with False True s' IH show ?thesis by (simp add: Let_def length_digits)
    qed
  qed
qed simp

lemma decr_digits_spec:
  "set s \<subseteq> set digits \<Longrightarrow>
   (case decr_digits s of
      (s', False) \<Rightarrow> length s' = length s \<and> set s' \<subseteq> set digits \<and> diverges s' s
    | (s', True) \<Rightarrow> s' = replicate (length s) (CHR ''z'') \<and> s = replicate (length s) (CHR ''0''))"
proof (induction s)
  case (Cons c s)
  obtain s' carry where s': "decr_digits s = (s', carry)" by fastforce
  show ?case
  proof (cases carry)
    case False
    with Cons s' show ?thesis by (auto dest: diverges_append [of _ _ "[c]"])
  next
    case True
    with Cons s' have IH: "s' = replicate (length s) (CHR ''z'')" "s = replicate (length s) (CHR ''0'')"
      by auto
    have c: "c \<in> set digits" using Cons.prems by simp
    show ?thesis
    proof (cases "index_byte digits c - 1 \<ge> 0")
      case small: True
      have "digits ! nat (index_byte digits c - 1) \<in> set digits
          \<and> digits ! nat (index_byte digits c - 1) < c"
        using digit_index [OF c] digit_nth [of "index_byte digits c - 1"] small c
        by (simp add: digit_less_iff)
      with small True s' IH(1) show ?thesis
        by (auto simp: Let_def length_digits intro: diverges_Cons)
    next
      case False
      then have "index_byte digits c = 0" using digit_index(1) [OF c] by simp
      with c have "c = CHR ''0''" using digit_index(3) [OF c] digits_first by simp
      with False True s' IH show ?thesis by (simp add: Let_def length_digits digits_last)
    qed
  qed
qed simp

lemma decr_digits_zeros:
  "set s \<subseteq> set digits \<Longrightarrow> decr_digits s = (replicate (Suc n) (CHR ''0''), False)
   \<Longrightarrow> s = replicate n (CHR ''0'') @ ''1''"
proof (induction s arbitrary: n)
  case (Cons c s)
  obtain s' carry where s': "decr_digits s = (s', carry)" by fastforce
  show ?case
  proof (cases carry)
    case False
    with Cons.prems s' have *: "c = CHR ''0''" "s' = replicate n (CHR ''0'')" by auto
    have "n \<noteq> 0" using False * s' Cons.prems decr_digits_spec [of s] by (auto simp: diverges_def)
    then obtain m where "n = Suc m" by (cases n) auto
    with Cons * False s' show ?thesis by auto
  next
    case True
    with Cons.prems s' have d: "index_byte digits c - 1 \<ge> 0"
        "digits ! nat (index_byte digits c - 1) = CHR ''0''" "s' = replicate n (CHR ''0'')"
      by (auto simp: Let_def split: if_splits)
    with True s' decr_digits_spec [of s] Cons.prems have "n = 0 \<and> s = []"
      by (cases n; cases s) (auto simp: length_digits)
    moreover have "index_byte digits c = 1"
      using d(1,2) digit_nth [of "index_byte digits c - 1"] digit_index [of c] Cons.prems(1)
        index_byte_nth [OF digits_distinct, of 0] digits_first by (simp add: length_digits)
    moreover have "digits ! 1 = CHR ''1''" by (simp add: digits_def)
    ultimately show ?thesis using digit_index(3) [of c] Cons.prems(1) by simp
  qed
qed simp

lemma of_char_succ: "h < CHR ''z'' \<Longrightarrow> of_char (char_of (of_char h + 1 :: nat) :: char) = (of_char h + 1 :: nat)"
  by (simp add: less_char_def)

lemma of_char_pred: "CHR ''A'' < h \<Longrightarrow> of_char (char_of (of_char h - 1 :: nat) :: char) = (of_char h - 1 :: nat)"
proof -
  have "of_char h - 1 < (256 :: nat)" using nat_of_char_less_256 [of h] by linarith
  then show ?thesis by simp
qed

text \<open>
  \<open>increment\<close> moves an integer part strictly up, whatever fraction follows, and fails only at
  the largest one; \<open>decrement\<close> likewise downwards.
\<close>

lemma increment_spec:
  assumes "int_part i"
  shows "case increment i of
      Some j \<Rightarrow> int_part j \<and> diverges i j
    | None \<Rightarrow> i = CHR ''z'' # replicate 26 (CHR ''z'')"
proof -
  from assms obtain h t where i: "i = h # t" by (cases i) auto
  obtain t' carry where t': "incr_digits t = (t', carry)" by fastforce
  from assms i have t: "set t \<subseteq> set digits" and len: "integer_length h = Suc (length t)" by auto
  then have h: "CHR ''A'' \<le> h" "h \<le> CHR ''z''" using integer_length_pos [of h] by auto
  note spec = incr_digits_spec [OF t]
  show ?thesis
  proof (cases carry)
    case False
    with i t' spec len show ?thesis using diverges_append [of t t' "[h]"] by auto
  next
    case True
    with t' spec have t'z: "t' = replicate (length t) (CHR ''0'')" and tz: "t = replicate (length t) (CHR ''z'')"
      by auto
    consider "h = CHR ''Z''" | "h = CHR ''z''" | "h \<noteq> CHR ''Z''" "h \<noteq> CHR ''z''" by blast
    then show ?thesis
    proof cases
      case 1
      with True i t' show ?thesis
        by (auto simp: integer_length_def intro: diverges_Cons)
    next
      case 2
      with True i t' tz len show ?thesis by (simp add: integer_length_def)
    next
      case 3
      let ?h = "char_of (of_char h + 1 :: nat) :: char"
      have hz: "h < CHR ''z''" using h 3 by simp
      then have "of_char h < (122 :: nat)" by (simp add: less_char_def)
      moreover have "of_char h \<noteq> (90 :: nat)" using 3(1) of_char_eq_iff [of h "CHR ''Z''"] by simp
      moreover
      note nh = of_char_succ [OF hz]
      have "h < ?h" unfolding less_char_def nh by simp
      ultimately have "h < ?h \<and> int_part (?h # (if ?h > CHR ''a'' then t' @ ''0'' else butlast t'))"
        using len t'z 3 h nh
        by (auto simp: integer_length_def less_eq_char_def less_char_def in_set_butlastD
            split: if_splits dest!: in_set_butlastD)
      then show ?thesis using True i t' 3 by (simp add: Let_def diverges_Cons)
    qed
  qed
qed

lemma decrement_spec:
  assumes "int_part i"
  shows "case decrement i of
      Some j \<Rightarrow> int_part j \<and> diverges j i \<and>
        (j = smallest_integer \<longrightarrow> i = CHR ''A'' # replicate 25 (CHR ''0'') @ ''1'')
    | None \<Rightarrow> i = smallest_integer"
proof -
  from assms obtain h t where i: "i = h # t" by (cases i) auto
  obtain t' carry where t': "decr_digits t = (t', carry)" by fastforce
  from assms i have t: "set t \<subseteq> set digits" and len: "integer_length h = Suc (length t)" by auto
  then have h: "CHR ''A'' \<le> h" "h \<le> CHR ''z''" using integer_length_pos [of h] by auto
  note spec = decr_digits_spec [OF t]
  show ?thesis
  proof (cases carry)
    case False
    have "t = replicate 25 (CHR ''0'') @ ''1''" if "t' = replicate 26 (CHR ''0'')"
      using decr_digits_zeros [OF t, of 25] that t' False by simp
    with False i t' spec len show ?thesis
      using diverges_append [of t' t "[h]"] by (auto simp: smallest_integer_def)
  next
    case True
    with t' spec have t'z: "t' = replicate (length t) (CHR ''z'')" and tz: "t = replicate (length t) (CHR ''0'')"
      by auto
    consider "h = CHR ''a''" | "h = CHR ''A''" | "h \<noteq> CHR ''a''" "h \<noteq> CHR ''A''" by blast
    then show ?thesis
    proof cases
      case 1
      have "drop (length digits - 1) digits = ''z''" by (simp add: digits_def)
      with 1 True i t' show ?thesis
        by (auto simp: integer_length_def smallest_integer_def intro: diverges_Cons)
    next
      case 2
      with True i t' tz len show ?thesis by (simp add: integer_length_def smallest_integer_def)
    next
      case 3
      let ?h = "char_of (of_char h - 1 :: nat) :: char"
      have hA: "CHR ''A'' < h" using h 3 by simp
      then have gt: "(65 :: nat) < of_char h" by (simp add: less_char_def)
      have na: "of_char h \<noteq> (97 :: nat)" using 3(1) of_char_eq_iff [of h "CHR ''a''"] by simp
      note nh = of_char_pred [OF hA]
      have "?h < h" unfolding less_char_def nh using hA by (simp add: less_char_def)
      moreover have "int_part (?h # (if ?h < CHR ''Z'' then t' @ [digits ! (length digits - 1)] else butlast t'))"
        using len t'z 3 h nh gt na
        by (auto simp: integer_length_def less_eq_char_def less_char_def length_digits digits_last
            split: if_splits dest!: in_set_butlastD)
      moreover have "(?h # (if ?h < CHR ''Z'' then t' @ [digits ! (length digits - 1)] else butlast t'))
          \<noteq> smallest_integer" (is "?h # ?t \<noteq> _")
      proof
        assume eq: "?h # ?t = smallest_integer"
        then have "?h = CHR ''A''" by (simp add: smallest_integer_def)
        then have "?t = t' @ ''z''" by (simp add: length_digits digits_last)
        then have "t' @ ''z'' = tl smallest_integer" using arg_cong [OF eq, of tl] by simp
        then have "CHR ''z'' \<in> set (tl smallest_integer)" by (metis in_set_conv_decomp)
        then show False by (simp add: smallest_integer_def)
      qed
      ultimately show ?thesis using True i t' 3 by (simp add: Let_def diverges_Cons)
    qed
  qed
qed

lemma increment_None_greatest:
  "int_part i \<Longrightarrow> increment i = None \<Longrightarrow> int_part j \<Longrightarrow> \<not> diverges i j"
proof
  assume i: "int_part i" "increment i = None" and j: "int_part j" and d: "diverges i j"
  then have iz: "i = CHR ''z'' # replicate 26 (CHR ''z'')" using increment_spec [of i] by simp
  obtain h t where jj: "j = h # t" using j by (cases j) auto
  have "h \<le> CHR ''z''" using j jj integer_length_pos [of h] by simp
  moreover have "length t = 26 \<and> t \<le> replicate 26 (CHR ''z'')" if "h = CHR ''z''"
    using zs_greatest [of t] that j jj by (simp add: integer_length_def)
  ultimately have "j \<le> i" unfolding iz jj by (auto simp: le_less)
  moreover have "i < j" using d by (rule diverges_less')
  ultimately show False by simp
qed

section \<open>Midpoints\<close>

lemma prefix_from_spec:
  "n \<le> length b \<Longrightarrow> n \<le> prefix_from a b n \<and> prefix_from a b n \<le> length b
     \<and> (\<forall>i. n \<le> i \<and> i < prefix_from a b n \<longrightarrow> digit_at a i = b ! i)
     \<and> (prefix_from a b n < length b \<longrightarrow> digit_at a (prefix_from a b n) \<noteq> b ! prefix_from a b n)"
proof (induction a b n rule: prefix_from.induct)
  case (1 a b n)
  show ?case
  proof (cases "n < length b \<and> digit_at a n = b ! n")
    case True
    with 1 have IH: "Suc n \<le> prefix_from a b (Suc n) \<and> prefix_from a b (Suc n) \<le> length b
     \<and> (\<forall>i. Suc n \<le> i \<and> i < prefix_from a b (Suc n) \<longrightarrow> digit_at a i = b ! i)
     \<and> (prefix_from a b (Suc n) < length b \<longrightarrow>
          digit_at a (prefix_from a b (Suc n)) \<noteq> b ! prefix_from a b (Suc n))" by simp
    have "prefix_from a b n = prefix_from a b (Suc n)"
      using True prefix_from.simps [of a b n] by simp
    moreover have "digit_at a i = b ! i" if "n \<le> i" "i < prefix_from a b (Suc n)" for i
      using that IH True by (cases "i = n") auto
    ultimately show ?thesis using IH by auto
  next
    case False
    with "1.prems" show ?thesis by (auto simp: prefix_from.simps [of a b n])
  qed
qed

text \<open>
  Cutting the common prefix off: the rest of \<open>a\<close> is still before the rest of \<open>b\<close>, and putting
  the prefix back in front of a string after the rest of \<open>a\<close> gives a string after \<open>a\<close>.
\<close>

lemma ends_in_zero_drop: "ends_in_zero (drop n s) \<Longrightarrow> ends_in_zero s"
  by (auto simp: ends_in_zero_def last_drop split: if_splits)

lemma padded_prefix:
  assumes "n \<le> length b" and "\<forall>i < n. digit_at a i = b ! i"
  shows "take n b = take n a @ replicate (n - length a) (CHR ''0'')"
proof (rule nth_equalityI)
  show "length (take n b) = length (take n a @ replicate (n - length a) (CHR ''0''))"
    using assms(1) by simp
next
  fix i assume "i < length (take n b)"
  then show "take n b ! i = (take n a @ replicate (n - length a) (CHR ''0'')) ! i"
    using assms by (auto simp: digit_at_def nth_append split: if_splits dest!: spec [of _ i])
qed

lemma cut_prefix:
  assumes lt: "a < b" and nz: "\<not> ends_in_zero b"
    and n: "n \<le> length b" "\<forall>i < n. digit_at a i = b ! i"
  shows "drop n a < drop n b" and "drop n a < m \<Longrightarrow> a < take n b @ m"
proof -
  note pre = padded_prefix [OF n]
  have "drop n a < drop n b \<and> (drop n a < m \<longrightarrow> a < take n b @ m)"
  proof (cases "length a \<ge> n")
    case True
    then have "take n b = take n a" using pre by simp
    then have "a = take n b @ drop n a" "b = take n b @ drop n b" by (metis append_take_drop_id)+
    then show ?thesis using lt lex_append_cancel by metis
  next
    case False
    then have a: "drop n a = []" "take n a = a" by simp_all
    have zs: "take n b = a @ replicate (n - length a) (CHR ''0'')" using pre a by simp
    have "drop n b \<noteq> []"
    proof
      assume "drop n b = []"
      then have "b = a @ replicate (n - length a) (CHR ''0'')" using zs by simp
      then have "ends_in_zero b" using False by (simp add: ends_in_zero_def)
      with nz show False by simp
    qed
    then have "drop n a < drop n b" using a by (cases "drop n b") auto
    moreover have "a < take n b @ m" if "m \<noteq> []" unfolding zs append.assoc
      by (rule prefix_less) (use that in simp)
    ultimately show ?thesis using a by (cases m) auto
  qed
  then show "drop n a < drop n b" and "drop n a < m \<Longrightarrow> a < take n b @ m" by auto
qed

lemma fraction_drop: "fraction f \<Longrightarrow> fraction (drop n f)"
  using set_drop_subset [of n f] by (auto simp: fraction_def dest: ends_in_zero_drop)

lemma fraction_append: "set p \<subseteq> set digits \<Longrightarrow> fraction m \<Longrightarrow> m \<noteq> [] \<Longrightarrow> fraction (p @ m)"
  by (auto simp: fraction_def ends_in_zero_def)

lemma fraction_Nil [simp]: "fraction []"
  by (simp add: fraction_def ends_in_zero_def)

lemma fraction_single: "c \<in> set digits \<Longrightarrow> c \<noteq> CHR ''0'' \<Longrightarrow> fraction [c]"
  by (simp add: fraction_def ends_in_zero_def)

text \<open>\<open>m\<close> is a fraction strictly between \<open>a\<close> and \<open>b\<close> (\<open>b\<close> empty: no upper bound).\<close>

definition mid_of :: "string \<Rightarrow> string \<Rightarrow> string \<Rightarrow> bool" where
  "mid_of a b m \<longleftrightarrow> a < m \<and> (b \<noteq> [] \<longrightarrow> m < b) \<and> fraction m \<and> m \<noteq> []"

lemma midpoint_step:
  assumes a: "fraction a" and b: "fraction b" and lt: "b \<noteq> [] \<longrightarrow> a < b"
    and ne: "b \<noteq> [] \<longrightarrow> digit_at a 0 \<noteq> hd b"
    and da: "da = (if a \<noteq> [] then index_byte digits (hd a) else 0)"
    and db: "db = (if b \<noteq> [] then index_byte digits (hd b) else int (length digits))"
  shows "0 \<le> da" and "da < 62" and "da < db" and "db \<le> 62"
    and "db - da > 1 \<Longrightarrow> mid_of a b [digits ! nat ((da + db + 1) div 2)]"
    and "length b > 1 \<Longrightarrow> mid_of a b (take 1 b)"
    and "db - da \<le> 1 \<Longrightarrow> length b \<le> 1 \<Longrightarrow> drop 1 a < m \<Longrightarrow> fraction m \<Longrightarrow>
         mid_of a b (digits ! nat da # m)"
proof -
  have ha: "hd a \<in> set digits" if "a \<noteq> []" using a that by (cases a) (auto simp: fraction_def)
  have hb: "hd b \<in> set digits" if "b \<noteq> []" using b that by (cases b) (auto simp: fraction_def)
  let ?x = "if a \<noteq> [] then hd a else CHR ''0''"
  have x: "?x \<in> set digits" "digits ! nat da = ?x"
    using ha da digit_index(3) digits_first by auto
  show da0: "0 \<le> da" and da62: "da < 62"
    using digit_index ha da by auto
  have xi: "index_byte digits ?x = da" using x(2) digit_nth(2) [OF da0 da62] by simp
  have xy: "?x < hd b" if "b \<noteq> []"
  proof (cases a)
    case Nil
    with that ne digit_ge_zero [OF hb [OF that]] show ?thesis by (simp add: digit_at_def le_less)
  next
    case (Cons c a')
    with that ne lt show ?thesis by (cases b) (auto simp: digit_at_def)
  qed
  show dadb: "da < db"
    using da62 db digit_less_iff [OF x(1) hb] xy xi by (auto simp: length_digits)
  show db62: "db \<le> 62" using db digit_index(2) [OF hb] by (auto simp: length_digits)
  have b0: "hd b \<noteq> CHR ''0''" if "b \<noteq> []"
    using xy [OF that] digit_ge_zero [OF x(1)] by auto
  show "mid_of a b [digits ! nat ((da + db + 1) div 2)]" if "db - da > 1"
  proof -
    let ?i = "(da + db + 1) div 2"
    have i: "0 \<le> ?i" "?i < 62" "da < ?i" "?i < db" using that da0 db62 by auto
    note d = digit_nth [OF i(1,2)]
    have "?x < digits ! nat ?i" using digit_less_iff [OF x(1) d(1)] xi d(2) i(3) by simp
    moreover have "digits ! nat ?i < hd b" if "b \<noteq> []"
      using digit_less_iff [OF d(1) hb [OF that]] d(2) i(4) db that by simp
    moreover have "digits ! nat ?i \<noteq> CHR ''0''"
      using \<open>?x < _\<close> digit_ge_zero [OF x(1)] by auto
    ultimately show ?thesis using d(1)
      by (cases a; cases b) (auto simp: mid_of_def fraction_single)
  qed
  show "mid_of a b (take 1 b)" if "length b > 1"
    using that xy b0 hb by (cases a; cases b) (auto simp: mid_of_def fraction_single neq_Nil_conv)
  show "mid_of a b (digits ! nat da # m)"
    if "db - da \<le> 1" "length b \<le> 1" "drop 1 a < m" "fraction m"
  proof -
    have "m \<noteq> []" using that(3) by auto
    with that x xy fraction_append [of "[?x]" m] show ?thesis
      by (cases a; cases b) (auto simp: mid_of_def)
  qed
qed

lemma midpoint_spec:
  "fraction a \<Longrightarrow> fraction b \<Longrightarrow> (b \<noteq> [] \<longrightarrow> a < b) \<Longrightarrow> \<exists>m. midpoint a b = Inr m \<and> mid_of a b m"
proof (induction a b rule: midpoint.induct)
  case (1 a b)
  define n where "n = prefix_from a b 0"
  have n: "n \<le> length b" "\<forall>i < n. digit_at a i = b ! i" "n < length b \<longrightarrow> digit_at a n \<noteq> b ! n"
    using prefix_from_spec [of 0 b a] by (auto simp: n_def)
  have nz: "\<not> ends_in_zero a" "\<not> ends_in_zero b" using "1.prems" by (auto simp: fraction_def)
  have g1: "\<not> (b \<noteq> [] \<and> b \<le> a)" and g2: "\<not> (ends_in_zero a \<or> ends_in_zero b)"
    using "1.prems"(3) nz by auto
  show ?case
  proof (cases "b \<noteq> [] \<and> n > 0")
    case True
    note cut = cut_prefix [OF _ nz(2) n(1,2)]
    have lt: "drop n a < drop n b" using cut(1) "1.prems"(3) True by simp
    obtain m where m: "midpoint (drop n a) (drop n b) = Inr m" "mid_of (drop n a) (drop n b) m"
      using "1.IH"(1) [OF g1 g2 n_def True] fraction_drop "1.prems"(1,2) lt by blast
    have "midpoint a b = Inr (take n b @ m)"
      using True m(1) g1 g2 by (simp add: midpoint.simps [of a b] Let_def n_def [symmetric])
    moreover have "take n b @ m < b"
      using m(2) lt lex_append_cancel [of "take n b" m "drop n b"] by (auto simp: mid_of_def)
    ultimately show ?thesis
      using m(2) cut(2) [of m] "1.prems"(2,3) True set_take_subset [of n b]
      by (auto simp: mid_of_def fraction_def ends_in_zero_def)
  next
    case False
    define da where "da = (if a \<noteq> [] then index_byte digits (hd a) else 0)"
    define db where "db = (if b \<noteq> [] then index_byte digits (hd b) else int (length digits))"
    have ne: "b \<noteq> [] \<longrightarrow> digit_at a 0 \<noteq> hd b" using False n(3) by (cases b) auto
    note step = midpoint_step [OF "1.prems" ne da_def db_def]
    have eq: "midpoint a b = (if db - da > 1 then Inr [digits ! nat ((da + db + 1) div 2)]
        else if length b > 1 then Inr (take 1 b)
        else prepend [digits ! nat da] (midpoint (drop 1 a) []))"
      using False g1 g2 step(1) unfolding midpoint.simps [of a b] Let_def n_def [symmetric]
        da_def [symmetric] db_def [symmetric] by auto
    show ?thesis
    proof (cases "db - da > 1 \<or> length b > 1")
      case True
      then show ?thesis using step(5,6) eq by auto
    next
      case rec: False
      then obtain m where "midpoint (drop 1 a) [] = Inr m" "mid_of (drop 1 a) [] m"
        using "1.IH"(2) [OF g1 g2 n_def False da_def db_def] step(1) "1.prems"(1) fraction_drop [of a 1]
        by auto
      with rec step(7) [of m] eq show ?thesis by (auto simp: mid_of_def)
    qed
  qed
qed

section \<open>Keys between two keys\<close>

text \<open>An end of a gap: the empty string (open) or a valid key; and a gap with room in it.\<close>

definition valid_end :: "string \<Rightarrow> bool" where
  "valid_end k \<longleftrightarrow> k = [] \<or> valid_key k"

definition gap :: "string \<Rightarrow> string \<Rightarrow> bool" where
  "gap a b \<longleftrightarrow> valid_end a \<and> valid_end b \<and> (a \<noteq> [] \<and> b \<noteq> [] \<longrightarrow> a < b)"

text \<open>
  The one integer part whose predecessor is \<open>smallest_integer\<close>, which is not a key: the last
  place where \<open>Between("", b)\<close> has no integer part left to step down to.
\<close>

definition lowest_step :: string where
  "lowest_step = ''A'' @ replicate 25 CHR ''0'' @ ''1''"

lemma first_invalid_None: "first_invalid [a, b] = None \<longleftrightarrow> valid_end a \<and> valid_end b"
  by (auto simp: valid_end_def valid_key_def split: option.splits)

lemma not_valid_Nil [simp]: "\<not> valid_key []"
  by (simp add: valid_key_def)

lemma mid_of_valid:
  assumes "int_part i" and "mid_of f g m"
  shows "valid_key (i @ m)"
proof -
  have m: "fraction m" "m \<noteq> []" using assms(2) by (auto simp: mid_of_def)
  then have "i @ m \<noteq> smallest_integer"
    using smallest_least [OF assms(1)] prefix_less [of m i] by auto
  with assms(1) m show ?thesis by (auto simp: valid_key_iff)
qed

text \<open>\<open>k\<close> is a key in the gap.\<close>

definition strictly_in :: "string \<Rightarrow> string \<Rightarrow> string \<Rightarrow> bool" where
  "strictly_in a b k \<longleftrightarrow> (a \<noteq> [] \<longrightarrow> a < k) \<and> (b \<noteq> [] \<longrightarrow> k < b)"

lemma between_open_open: "between [] [] = Inr ''a0''" and a0_valid: "valid_key ''a0''"
  by code_simp+

lemma between_below:
  assumes b: "valid_key b"
  shows "\<exists>k. between [] b = Inr k \<and> k < b \<and> (valid_key k \<or> (k = smallest_integer \<and> b = lowest_step))"
proof -
  from b obtain i f where s: "b = i @ f" "int_part i" "fraction f" "b \<noteq> smallest_integer"
      "integer_part b = i" "drop (length i) b = f" by (rule valid_key_split)
  have [simp]: "b \<noteq> []" using b by auto
  have eq: "between [] b = (if i = smallest_integer then prepend i (midpoint [] f)
      else if i < b then Inr i
      else (case decrement i of Some d \<Rightarrow> Inr d | None \<Rightarrow> Inl (NothingBefore b)))"
    using b s(5,6) first_invalid_None [of "[]" b]
    unfolding between_def by (auto simp: valid_end_def Let_def simp del: first_invalid.simps)
  consider "i = smallest_integer" | "i \<noteq> smallest_integer" "f \<noteq> []" | "i \<noteq> smallest_integer" "f = []"
    by blast
  then show ?thesis
  proof cases
    case 1
    then have "f \<noteq> []" using s by auto
    then obtain m where "midpoint [] f = Inr m" "mid_of [] f m"
      using midpoint_spec [of "[]" f] s(3) by (cases f) auto
    with 1 eq s \<open>f \<noteq> []\<close> mid_of_valid [OF s(2)] show ?thesis by (auto simp: mid_of_def)
  next
    case 2
    with eq s valid_int_part [OF s(2)] show ?thesis by (auto intro: prefix_less)
  next
    case 3
    with s decrement_spec [OF s(2)] obtain d where "decrement i = Some d" "int_part d" "diverges d i"
      "d = smallest_integer \<longrightarrow> i = CHR ''A'' # replicate 25 (CHR ''0'') @ ''1''"
      by (auto split: option.splits)
    with 3 eq s valid_int_part [of d] show ?thesis
      by (cases "d = smallest_integer") (auto simp: lowest_step_def intro: lex_intros)
  qed
qed

lemma between_above:
  assumes a: "valid_key a"
  shows "\<exists>k. between a [] = Inr k \<and> a < k \<and> valid_key k"
proof -
  from a obtain i f where s: "a = i @ f" "int_part i" "fraction f" "a \<noteq> smallest_integer"
      "integer_part a = i" "drop (length i) a = f" by (rule valid_key_split)
  have [simp]: "a \<noteq> []" using a by auto
  have eq: "between a [] = (case increment i of Some j \<Rightarrow> Inr j | None \<Rightarrow> prepend i (midpoint f []))"
    using a s(5,6) first_invalid_None [of a "[]"]
    unfolding between_def by (auto simp: valid_end_def Let_def simp del: first_invalid.simps)
  show ?thesis
  proof (cases "increment i")
    case None
    obtain m where "midpoint f [] = Inr m" "mid_of f [] m" using midpoint_spec [OF s(3), of "[]"] by auto
    with None eq s mid_of_valid [OF s(2)] show ?thesis by (auto simp: mid_of_def)
  next
    case (Some j)
    with increment_spec [OF s(2)] have j: "int_part j" "diverges i j" by auto
    have "i < j" using j(2) by (rule diverges_less')
    then have "j \<noteq> smallest_integer" using smallest_least [OF s(2)] by auto
    with Some eq s j show ?thesis
      using diverges_less [OF j(2), of f "[]"] by (auto intro: valid_int_part)
  qed
qed

lemma between_both:
  assumes a: "valid_key a" and b: "valid_key b" and ab: "a < b"
  shows "\<exists>k. between a b = Inr k \<and> a < k \<and> k < b \<and> valid_key k"
proof -
  from a obtain i f where s: "a = i @ f" "int_part i" "fraction f" "a \<noteq> smallest_integer"
      "integer_part a = i" "drop (length i) a = f" by (rule valid_key_split)
  from b obtain j g where t: "b = j @ g" "int_part j" "fraction g" "b \<noteq> smallest_integer"
      "integer_part b = j" "drop (length j) b = g" by (rule valid_key_split)
  have [simp]: "a \<noteq> []" "b \<noteq> []" using a b by auto
  have eq: "between a b = (if i = j then prepend i (midpoint f g)
      else (case increment i of None \<Rightarrow> Inl (NothingAfter a)
            | Some h \<Rightarrow> if h < b then Inr h else prepend i (midpoint f [])))"
    using a b ab s(5,6) t(5,6) first_invalid_None [of a b]
    unfolding between_def
    by (auto simp: valid_end_def Let_def not_le simp del: first_invalid.simps split: option.split)
  show ?thesis
  proof (cases "i = j")
    case True
    then have fg: "f < g" using ab s(1) t(1) by simp
    then obtain m where "midpoint f g = Inr m" "mid_of f g m" using midpoint_spec [OF s(3) t(3)] by auto
    with True fg eq s t mid_of_valid [OF s(2)] show ?thesis by (cases g) (auto simp: mid_of_def)
  next
    case False
    have d: "diverges i j" by (rule int_parts_diverge [of i j f g]) (use False s t ab in auto)
    from increment_None_greatest [OF s(2) _ t(2)] d obtain h where h: "increment i = Some h"
      by (cases "increment i") auto
    with increment_spec [OF s(2)] have hp: "int_part h" "diverges i h" by auto
    show ?thesis
    proof (cases "h < b")
      case True
      have "i < h" using hp(2) by (rule diverges_less')
      then have "h \<noteq> smallest_integer" using smallest_least [OF s(2)] by auto
      with True h False eq s hp show ?thesis
        using diverges_less [OF hp(2), of f "[]"] by (auto intro: valid_int_part)
    next
      case le: False
      obtain m where m: "midpoint f [] = Inr m" "mid_of f [] m" using midpoint_spec [OF s(3), of "[]"] by auto
      then have "a < i @ m" "i @ m < b"
        using s(1) t(1) diverges_less [OF d] by (auto simp: mid_of_def)
      with le h False eq m mid_of_valid [OF s(2) m(2)] show ?thesis by auto
    qed
  qed
qed

lemma between_gap:
  assumes "gap a b"
  shows "\<exists>k. between a b = Inr k \<and> strictly_in a b k
    \<and> (valid_key k \<or> (k = smallest_integer \<and> a = [] \<and> b = lowest_step))"
proof -
  consider "a = []" "b = []" | "a = []" "valid_key b" | "valid_key a" "b = []"
    | "valid_key a" "valid_key b" "a < b"
    using assms by (auto simp: gap_def valid_end_def)
  then show ?thesis
  proof cases
    case 1
    then show ?thesis using between_open_open a0_valid by (simp add: strictly_in_def)
  next
    case 2
    then show ?thesis using between_below [of b] by (auto simp: strictly_in_def)
  next
    case 3
    then show ?thesis using between_above [of a] by (auto simp: strictly_in_def)
  next
    case 4
    then show ?thesis using between_both [of a b] by (auto simp: strictly_in_def)
  qed
qed

text \<open>\<open>Between\<close> checks its arguments, so a key it returns proves that they were a gap.\<close>

lemma between_Inr_gap: "between a b = Inr k \<Longrightarrow> gap a b"
  using first_invalid_None [of a b]
  by (auto simp: between_def gap_def not_le simp del: first_invalid.simps split: option.splits if_splits)

lemma between_Inr:
  assumes "between a b = Inr k" shows "strictly_in a b k"
  using between_gap [OF between_Inr_gap [OF assms]] assms by auto

section \<open>Spreading keys over a gap\<close>

lemma spread_up_spec:
  "valid_end k \<Longrightarrow> \<exists>ks. spread_up k n = Inr ks \<and> length ks = n \<and> sorted_wrt (<) ks
    \<and> (\<forall>x \<in> set ks. valid_key x \<and> (k \<noteq> [] \<longrightarrow> k < x))"
proof (induction n arbitrary: k)
  case (Suc n)
  then have "gap k []" by (simp add: gap_def valid_end_def)
  then obtain k' where k': "between k [] = Inr k'" "k \<noteq> [] \<longrightarrow> k < k'" "valid_key k'"
    using between_gap [of k "[]"] by (auto simp: strictly_in_def lowest_step_def)
  then have "valid_end k'" by (simp add: valid_end_def)
  then obtain ks where "spread_up k' n = Inr ks" "length ks = n" "sorted_wrt (<) ks"
      "\<forall>x \<in> set ks. valid_key x \<and> (k' \<noteq> [] \<longrightarrow> k' < x)" using Suc.IH by blast
  with k' show ?case by fastforce
qed simp

lemma spread_down_Inr:
  "spread_down k n = Inr ks \<Longrightarrow> k \<noteq> [] \<Longrightarrow> length ks = n \<and> sorted_wrt (<) ks \<and> (\<forall>x \<in> set ks. x < k)"
proof (induction n arbitrary: k ks)
  case (Suc n)
  then obtain k' out where 1: "between [] k = Inr k'" "spread_down k' n = Inr out" "ks = out @ [k']"
    by (auto simp: and_then_Inr)
  then have lt: "k' < k" using between_Inr [of "[]" k k'] Suc.prems by (simp add: strictly_in_def)
  have "k' \<noteq> []"
    using between_gap [OF between_Inr_gap [OF 1(1)]] 1(1) by (auto simp: smallest_integer_def)
  with Suc.IH 1 lt show ?case by (fastforce simp: sorted_wrt_append)
qed simp

lemma spread_spec:
  "gap a b \<Longrightarrow> a \<noteq> [] \<or> b = [] \<Longrightarrow>
   \<exists>ks. spread a b n = Inr ks \<and> length ks = nat n \<and> sorted_wrt (<) ks
     \<and> (\<forall>x \<in> set ks. valid_key x \<and> strictly_in a b x)"
proof (induction a b n rule: spread.induct)
  case (1 a b n)
  have bt: "\<exists>k. between a b = Inr k \<and> strictly_in a b k \<and> valid_key k"
    using between_gap [OF "1.prems"(1)] "1.prems"(2) by (auto simp: lowest_step_def)
  consider "n \<le> 0" | "n = 1" | "n > 1" "b = []" | "n > 1" "b \<noteq> []" by linarith
  then show ?case
  proof cases
    case 1
    then show ?thesis by (simp add: spread.simps [of a b n])
  next
    case 2
    then show ?thesis using bt by (auto simp: spread.simps [of a b 1])
  next
    case 3
    then have "valid_end a" using "1.prems" by (simp add: gap_def)
    with 3 show ?thesis using spread_up_spec [of a "nat n"]
      by (auto simp: spread.simps [of a "[]" n] strictly_in_def)
  next
    case 4
    then have g: "\<not> n \<le> 0" "n \<noteq> 1" "b \<noteq> []" "a \<noteq> []" using "1.prems"(2) by auto
    obtain c where c: "between a b = Inr c" "a < c" "c < b" "valid_key c"
      using bt g by (auto simp: strictly_in_def)
    then have gaps: "gap a c" "gap c b" "c \<noteq> []" using "1.prems"(1)
      by (auto simp: gap_def valid_end_def)
    define mid where "mid = n div 2"
    from "1.IH"(1) [OF g mid_def gaps(1)] g obtain l where
      l: "spread a c mid = Inr l" "length l = nat mid" "sorted_wrt (<) l"
        "\<forall>x \<in> set l. valid_key x \<and> strictly_in a c x" by auto
    from "1.IH"(2) [OF g mid_def gaps(2)] gaps(3) obtain r where
      r: "spread c b (n - mid - 1) = Inr r" "length r = nat (n - mid - 1)" "sorted_wrt (<) r"
        "\<forall>x \<in> set r. valid_key x \<and> strictly_in c b x" by auto
    have "spread a b n = Inr (l @ [c] @ r)"
      using g c(1) l(1) r(1) by (simp add: spread.simps [of a b n] Let_def mid_def)
    moreover have "length (l @ [c] @ r) = nat n" using l(2) r(2) 4 by (simp add: mid_def)
    ultimately show ?thesis using l(3,4) r(3,4) c gaps(3) g
      by (fastforce simp: sorted_wrt_append strictly_in_def)
  qed
qed

text \<open>
  Whatever \<open>Spread\<close> returns lies in the gap in ascending order, also on the descending side
  (\<open>a\<close> empty), where it may run into the lowest key and fail.
\<close>

lemma spread_Inr:
  assumes "spread a b n = Inr ks"
  shows "length ks = nat n \<and> sorted_wrt (<) ks \<and> (\<forall>x \<in> set ks. strictly_in a b x)"
proof -
  consider "n \<le> 0" | "n = 1" | "n > 1" "a = []" "b \<noteq> []" | "n > 1" "a \<noteq> [] \<or> b = []" by linarith
  then show ?thesis
  proof cases
    case 1
    with assms show ?thesis by (simp add: spread.simps [of a b n])
  next
    case 2
    with assms between_Inr [of a b] show ?thesis
      by (auto simp: spread.simps [of a b 1] and_then_Inr)
  next
    case 3
    with assms spread_down_Inr [of b "nat n" ks] show ?thesis
      by (auto simp: spread.simps [of "[]" b n] strictly_in_def)
  next
    case 4
    obtain m where m: "nat n = Suc m" using 4(1) by (cases "nat n") auto
    have "\<exists>k. between a b = Inr k"
      using assms 4 m
      by (cases "b = []") (auto simp: spread.simps [of a b n] spread.simps [of a "[]" n] Let_def and_then_Inr)
    then have "gap a b" using between_Inr_gap by blast
    with 4(2) spread_spec [of a b n] assms show ?thesis by auto
  qed
qed

section \<open>The interface the reporting orders rely on\<close>

text \<open>
  A source of fresh sort keys, as the placement code uses it: a key it hands out lies strictly
  in the gap asked for, and a batch of keys ascends strictly within it. Failing is allowed.
\<close>

locale key_source =
  fixes new_key :: "string \<Rightarrow> string \<Rightarrow> 'e + string"
    and new_keys :: "string \<Rightarrow> string \<Rightarrow> int \<Rightarrow> 'e + string list"
  assumes new_key_in: "new_key a b = Inr k \<Longrightarrow> strictly_in a b k"
    and new_keys_length: "new_keys a b n = Inr ks \<Longrightarrow> length ks = nat n"
    and new_keys_sorted: "new_keys a b n = Inr ks \<Longrightarrow> sorted_wrt (<) ks"
    and new_keys_in: "new_keys a b n = Inr ks \<Longrightarrow> x \<in> set ks \<Longrightarrow> strictly_in a b x"
begin

text \<open>A key made for the gap before position \<open>length xs\<close> keeps an ascending order ascending.\<close>

lemma insert_sorted:
  assumes "sorted_wrt (<) (xs @ ys)"
    and "new_key (if xs = [] then [] else last xs) (if ys = [] then [] else hd ys) = Inr k"
    and "[] \<notin> set (xs @ ys)"
  shows "sorted_wrt (<) (xs @ k # ys)"
proof -
  have ne: "xs \<noteq> [] \<Longrightarrow> last xs \<noteq> []" "ys \<noteq> [] \<Longrightarrow> hd ys \<noteq> []"
    using assms(3) by (metis Un_iff last_in_set hd_in_set set_append)+
  have ends: "xs \<noteq> [] \<longrightarrow> last xs < k" "ys \<noteq> [] \<longrightarrow> k < hd ys"
    using new_key_in [OF assms(2)] ne by (auto simp: strictly_in_def split: if_splits)
  have "x < k" if "x \<in> set xs" for x
  proof -
    from that obtain zs z where xs: "xs = zs @ [z]" by (cases xs rule: rev_exhaust) auto
    with that ends(1) assms(1) show ?thesis by (auto simp: sorted_wrt_append intro: less_trans)
  qed
  moreover have "k < y" if "y \<in> set ys" for y
    using that ends(2) assms(1) by (cases ys) (auto simp: sorted_wrt_append intro: less_trans)
  ultimately show ?thesis using assms(1) by (auto simp: sorted_wrt_append)
qed

lemma insert_block_sorted:
  assumes "sorted_wrt (<) (xs @ ys)"
    and "new_keys (if xs = [] then [] else last xs) (if ys = [] then [] else hd ys) n = Inr ks"
    and "[] \<notin> set (xs @ ys)"
  shows "sorted_wrt (<) (xs @ ks @ ys)"
proof -
  have "x < k" if "x \<in> set xs" "k \<in> set ks" for x k
  proof -
    from that obtain zs z where xs: "xs = zs @ [z]" by (cases xs rule: rev_exhaust) auto
    moreover have "last xs < k"
      using new_keys_in [OF assms(2) that(2)] assms(3) xs by (auto simp: strictly_in_def)
    ultimately show ?thesis using that assms(1) by (auto simp: sorted_wrt_append intro: less_trans)
  qed
  moreover have "k < y" if "y \<in> set ys" "k \<in> set ks" for y k
  proof -
    have "k < hd ys"
      using new_keys_in [OF assms(2) that(2)] that assms(3) by (cases ys) (auto simp: strictly_in_def)
    then show ?thesis using that assms(1) by (cases ys) (auto simp: sorted_wrt_append intro: less_trans)
  qed
  ultimately show ?thesis
    using assms(1) new_keys_sorted [OF assms(2)] by (auto simp: sorted_wrt_append)
qed

end

interpretation sk: key_source between spread
  by unfold_locales (use between_Inr spread_Inr in blast)+

section \<open>Properties\<close>

text \<open>
  C29: for any two keys in order, and for an open end on either side, \<open>Between\<close> returns a key,
  that key is valid, and it sorts strictly after \<open>a\<close> and before \<open>b\<close>. The one gap left out is
  the one below \<open>lowest_step\<close> (\<open>between_splits_again\<close>).
\<close>

theorem between_correct:
  assumes "gap a b" and "\<not> (a = [] \<and> b = lowest_step)"
  shows "\<exists>k. between a b = Inr k \<and> valid_key k \<and> strictly_in a b k"
  using between_gap [OF assms(1)] assms(2) by auto

theorem between_correct_witness:
  "\<exists>k. between ''a0V'' ''a1'' = Inr k \<and> valid_key k \<and> strictly_in ''a0V'' ''a1'' k"
  by (rule between_correct) (code_simp, simp)

text \<open>
  C35: \<open>Between\<close> fails exactly on arguments that are no gap, and then with the error for it: one
  of the two is not a key (and is named), or both are keys and the first does not sort before
  the second. So it never panics, and for a gap there is always room.
\<close>

theorem between_fails_iff:
  "case between a b of
     Inr k \<Rightarrow> gap a b
   | Inl e \<Rightarrow> \<not> gap a b \<and> e \<noteq> SkPanic
      \<and> (valid_key a \<and> valid_key b \<and> b \<le> a \<and> e = NotBefore a b
        \<or> (\<exists>k. k \<in> {a, b} \<and> k \<noteq> [] \<and> \<not> valid_key k \<and> (e = InvalidKey k \<or> e = InvalidKeyZero k)))"
proof (cases "between a b")
  case (Inl e)
  then have no: "\<not> gap a b" using between_gap [of a b] by auto
  have bad: "e = InvalidKey k \<or> e = InvalidKeyZero k" if "validate k = Some e" "k \<noteq> []" for k
    using that by (cases k) (auto simp: Let_def split: if_splits)
  consider "a \<noteq> []" "validate a = Some e" | "b \<noteq> []" "validate b = Some e"
    | "valid_key a" "valid_key b" "b \<le> a" "e = NotBefore a b"
  proof (cases "first_invalid [a, b]")
    case None
    then have v: "valid_end a" "valid_end b" by (simp_all only: first_invalid_None)
    then have "a \<noteq> []" "b \<noteq> []" "b \<le> a" using no by (auto simp: gap_def not_less)
    then show thesis using Inl None v that(3) by (simp add: between_def valid_end_def del: first_invalid.simps)
  next
    case (Some e')
    then have "e' = e" using Inl by (simp add: between_def del: first_invalid.simps)
    then show thesis using Some that(1,2) by (auto split: if_splits option.splits)
  qed
  then show ?thesis
  proof cases
    case 1
    then show ?thesis using no Inl bad [of a] by (auto simp: valid_key_def)
  next
    case 2
    then show ?thesis using no Inl bad [of b] by (auto simp: valid_key_def)
  qed (use no Inl in simp)
qed (use between_Inr_gap in simp)

theorem between_fails_iff_witness:
  "between ''a1'' ''a0'' = Inl (NotBefore ''a1'' ''a0'') \<and> \<not> gap ''a1'' ''a0''"
proof -
  have "between ''a1'' ''a0'' = Inl (NotBefore ''a1'' ''a0'')" by code_simp
  then show ?thesis using between_fails_iff [of "''a1''" "''a0''"] by simp
qed

text \<open>
  \<open>Spread\<close> returns \<open>n\<close> valid keys in ascending order, all strictly inside the gap, for every
  gap with a lower end or with no end at all.
\<close>

theorem spread_correct:
  assumes "gap a b" and "a \<noteq> [] \<or> b = []"
  shows "\<exists>ks. spread a b n = Inr ks \<and> length ks = nat n \<and> sorted_wrt (<) ks
     \<and> (\<forall>x \<in> set ks. valid_key x \<and> strictly_in a b x)"
  using assms by (rule spread_spec)

theorem spread_correct_witness:
  "\<exists>ks. spread ''a0'' ''a1'' 5 = Inr ks \<and> length ks = nat 5 \<and> sorted_wrt (<) ks
     \<and> (\<forall>x \<in> set ks. valid_key x \<and> strictly_in ''a0'' ''a1'' x)"
  by (rule spread_correct) (code_simp, simp)

text \<open>
  a key \<open>Between\<close> returned can be an end of the next \<open>Between\<close>, on either side of it, so a
  gap can be split again and again; the one exception, to which this never applies, is the key
  below \<open>lowest_step\<close>, where \<open>Between\<close> returns \<open>smallest_integer\<close>, which \<open>validate\<close> refuses: both
  further calls then fail.
\<close>

theorem between_splits_again:
  assumes "between a b = Inr k"
  shows "gap a b \<and> ((\<exists>x. between a k = Inr x) \<longleftrightarrow> \<not> (a = [] \<and> b = lowest_step))
    \<and> ((\<exists>y. between k b = Inr y) \<longleftrightarrow> \<not> (a = [] \<and> b = lowest_step))"
proof (cases "a = [] \<and> b = lowest_step")
  case True
  have "between [] lowest_step = Inr smallest_integer \<and> between [] smallest_integer = Inl (InvalidKey smallest_integer)
      \<and> between smallest_integer lowest_step = Inl (InvalidKey smallest_integer)" by code_simp
  then show ?thesis using assms True between_Inr_gap [OF assms] by simp
next
  case False
  have g: "gap a b" by (rule between_Inr_gap [OF assms])
  then have "valid_key k" "strictly_in a b k" using between_gap [OF g] assms False by auto
  then have "gap a k" "gap k b" using g by (auto simp: gap_def valid_end_def strictly_in_def)
  then show ?thesis using g False between_gap by blast
qed

theorem between_splits_again_witness:
  "(\<exists>x. between ''a0'' ''a0V'' = Inr x) \<and> (\<nexists>x. between [] smallest_integer = Inr x)"
proof -
  have "between ''a0'' ''a1'' = Inr ''a0V''" "between [] lowest_step = Inr smallest_integer"
    "''a0'' \<noteq> []" by code_simp+
  then show ?thesis using between_splits_again [of "''a0''" "''a1''"] between_splits_again [of "[]" lowest_step] by simp
qed

end
