(* ===== verification/DashOrder.thy ===== *)
theory DashOrder
  imports Sortkey
begin

text \<open>
  One owner's dashboards in sort-key order and the keys that place a dashboard or a whole group
  in it (\<^verbatim>\<open>internal/reporting/order.go\<close>). Every function of the file is translated. A
  Go position that may be -1 is an \<^typ>\<open>int\<close>, and a pointer \<open>*int64\<close> an \<^typ>\<open>int option\<close>.
\<close>

section \<open>The rows\<close>

record dashboard =
  d_id :: int
  d_owner :: string
  d_title :: string
  d_key :: string
  d_group :: int
  d_group_title :: string
  d_last_project :: int
  d_last_range :: string
  d_last_from :: string
  d_last_to :: string
  d_created_at :: string
  d_updated_at :: string
  d_archived_at :: string
  d_live_widgets :: int
  d_sidebar :: bool
  d_project_tab :: bool

record dashboard_key =
  k_id :: int
  k_group :: int
  k_key :: string

datatype place_error =
    AfterNotMember int int
  | AfterNotUser int
  | AfterArchived int
  | NoLiveGroup int
  | NoKey sk_error
  | KeyConflict
  | UnknownId int
  | RekeyFailed int
  | ParkFailed
  | RaceLost
  | SystemDashboard int
  | ArchivedDashboard int
  | NothingToUpdate
  | AfterArchivedWidget int
  | AfterNotWidget int int

definition owner_user :: string where
  "owner_user = ''user''"

section \<open>Reading the order\<close>

definition user_order :: "dashboard list \<Rightarrow> dashboard list" where
  "user_order ds = filter (\<lambda>d. d_owner d = owner_user) ds"

definition group_rows :: "dashboard list \<Rightarrow> int \<Rightarrow> dashboard list" where
  "group_rows ord g = filter (\<lambda>d. d_group d = g) ord"

definition lone :: "dashboard list \<Rightarrow> int \<Rightarrow> int \<Rightarrow> bool" where
  "lone ord i g \<longleftrightarrow> list_all (\<lambda>d. \<not> (d_id d \<noteq> i \<and> d_archived_at d = [])) (group_rows ord g)"

fun find_row :: "dashboard list \<Rightarrow> int \<Rightarrow> dashboard option" where
  "find_row [] i = None"
| "find_row (d # ds) i = (if d_id d = i then Some d else find_row ds i)"

text \<open>\<open>slices.IndexFunc\<close>.\<close>

fun index_func :: "('a \<Rightarrow> bool) \<Rightarrow> 'a list \<Rightarrow> int" where
  "index_func p [] = - 1"
| "index_func p (x # xs) =
     (if p x then 0 else let i = index_func p xs in if i < 0 then - 1 else i + 1)"

definition index_row :: "dashboard list \<Rightarrow> int \<Rightarrow> int" where
  "index_row ord i = index_func (\<lambda>d. d_id d = i) ord"

fun group_end_from :: "dashboard list \<Rightarrow> int \<Rightarrow> nat \<Rightarrow> int" where
  "group_end_from ord g 0 = - 1"
| "group_end_from ord g (Suc i) = (if d_group (ord ! i) = g then int i else group_end_from ord g i)"

definition group_end :: "dashboard list \<Rightarrow> int \<Rightarrow> int" where
  "group_end ord g = group_end_from ord g (length ord)"

definition without :: "dashboard list \<Rightarrow> int \<Rightarrow> dashboard list" where
  "without ord i = filter (\<lambda>d. d_id d \<noteq> i) ord"

definition without_group :: "dashboard list \<Rightarrow> int \<Rightarrow> dashboard list" where
  "without_group ord g = filter (\<lambda>d. d_group d \<noteq> g) ord"

section \<open>Keys for a place in the order\<close>

fun with_key_error :: "sk_error + 'a \<Rightarrow> place_error + 'a" where
  "with_key_error (Inl e) = Inl (NoKey e)"
| "with_key_error (Inr k) = Inr k"

definition refuse_archived_after :: "dashboard \<Rightarrow> place_error option" where
  "refuse_archived_after d = (if d_archived_at d \<noteq> [] then Some (AfterArchived (d_id d)) else None)"

definition key_in_group :: "dashboard list \<Rightarrow> int \<Rightarrow> int \<Rightarrow> int option \<Rightarrow> place_error + string" where
  "key_in_group ord self g after =
     (let rest = without ord self; members = group_rows rest g in
      if members = [] then
        (case after of
           Some a \<Rightarrow>
             if a \<noteq> 0 \<and> a \<noteq> self then Inl (AfterNotMember a g)
             else (let i = index_row ord self;
                       prev = (if i > 0 then d_key (ord ! nat (i - 1)) else []);
                       nxt = (if i \<ge> 0 \<and> i + 1 < int (length ord) then d_key (ord ! nat (i + 1)) else [])
                   in with_key_error (between prev nxt))
         | None \<Rightarrow>
             (let i = index_row ord self;
                  prev = (if i > 0 then d_key (ord ! nat (i - 1)) else []);
                  nxt = (if i \<ge> 0 \<and> i + 1 < int (length ord) then d_key (ord ! nat (i + 1)) else [])
              in with_key_error (between prev nxt)))
      else
        (case after of
           None \<Rightarrow>
             (let prev = d_key (last members); i = group_end rest g;
                  nxt = (if i + 1 < int (length rest) then d_key (rest ! nat (i + 1)) else [])
              in with_key_error (between prev nxt))
         | Some a \<Rightarrow>
             if a = 0 then
               (let first = hd members; nxt = d_key first; i = index_row rest (d_id first);
                    prev = (if i > 0 then d_key (rest ! nat (i - 1)) else [])
                in with_key_error (between prev nxt))
             else
               (let idx = index_row members a in
                if idx < 0 then Inl (AfterNotMember a g)
                else let m = members ! nat idx in
                (case refuse_archived_after m of Some e \<Rightarrow> Inl e | None \<Rightarrow>
                   let prev = d_key m; i = index_row rest (d_id m);
                       nxt = (if i + 1 < int (length rest) then d_key (rest ! nat (i + 1)) else [])
                   in with_key_error (between prev nxt)))))"

text \<open>
  The second half of \<open>moveGroup\<close>, once the place \<open>target\<close> is known: nothing when the group
  already has those neighbours, else fresh keys. \<open>Inr None\<close> is the nil key list.
\<close>

definition move_group_to ::
  "dashboard list \<Rightarrow> int \<Rightarrow> int \<Rightarrow> place_error + dashboard_key list option" where
  "move_group_to ord g target =
     (let members = group_rows ord g; rest = without_group ord g;
          prev_id = (if target > 0 then d_id (rest ! nat (target - 1)) else 0);
          prev_key = (if target > 0 then d_key (rest ! nat (target - 1)) else []);
          next_id = (if target < int (length rest) then d_id (rest ! nat target) else 0);
          next_key = (if target < int (length rest) then d_key (rest ! nat target) else []);
          idx0 = index_row ord (d_id (hd members));
          idx_last = idx0 + int (length members) - 1;
          actual_prev = (if idx0 > 0 then d_id (ord ! nat (idx0 - 1)) else 0);
          actual_next = (if idx_last + 1 < int (length ord) then d_id (ord ! nat (idx_last + 1)) else 0)
      in if actual_prev = prev_id \<and> actual_next = next_id then Inr None
         else and_then (with_key_error (spread prev_key next_key (int (length members))))
           (\<lambda>keys. Inr (Some (map2 (\<lambda>m k. \<lparr>k_id = d_id m, k_group = g, k_key = k\<rparr>) members keys))))"

definition move_group :: "dashboard list \<Rightarrow> int \<Rightarrow> int \<Rightarrow> place_error + dashboard_key list option" where
  "move_group ord g after =
     (if group_rows ord g = [] then Inr None
      else if after \<noteq> 0 then
        (case find_row ord after of
           None \<Rightarrow> Inl (AfterNotUser after)
         | Some row \<Rightarrow>
             (case refuse_archived_after row of Some e \<Rightarrow> Inl e | None \<Rightarrow>
                if d_group row = g then Inr None
                else move_group_to ord g (group_end (without_group ord g) (d_group row) + 1)))
      else move_group_to ord g 0)"

definition key_after_group :: "dashboard list \<Rightarrow> int \<Rightarrow> int option \<Rightarrow> place_error + string" where
  "key_after_group ord self after =
     (let rest = without ord self in
      case after of
        None \<Rightarrow> with_key_error (between (if rest \<noteq> [] then d_key (last rest) else []) [])
      | Some a \<Rightarrow>
          if a = 0 then with_key_error (between [] (if rest \<noteq> [] then d_key (hd rest) else []))
          else (case find_row rest a of
              None \<Rightarrow> Inl (AfterNotUser a)
            | Some row \<Rightarrow>
                (case refuse_archived_after row of Some e \<Rightarrow> Inl e | None \<Rightarrow>
                   let i = group_end rest (d_group row);
                       prev = d_key (rest ! nat i);
                       nxt = (if i + 1 < int (length rest) then d_key (rest ! nat (i + 1)) else [])
                   in with_key_error (between prev nxt))))"

definition hand_over :: "dashboard list \<Rightarrow> dashboard \<Rightarrow> dashboard_key list" where
  "hand_over ord row =
     (if d_group row \<noteq> d_id row then []
      else let left = group_rows (without ord (d_id row)) (d_group row) in
      if left = [] then []
      else let i = index_func (\<lambda>d. d_archived_at d = []) left;
               heir = (if i \<ge> 0 then left ! nat i else hd left)
      in map (\<lambda>d. \<lparr>k_id = d_id d, k_group = d_id heir, k_key = d_key d\<rparr>) left)"

section \<open>Contiguous groups\<close>

text \<open>
  Equal labels stand together: a label that occurs again later is also the next label.
\<close>

fun contig :: "'a list \<Rightarrow> bool" where
  "contig [] = True"
| "contig (g # gs) = (contig gs \<and> (g \<in> set gs \<longrightarrow> hd gs = g))"

lemma contig_filter_head:
  "contig (map f xs) \<Longrightarrow> xs \<noteq> [] \<Longrightarrow> f (hd xs) = g \<Longrightarrow> g \<in> f ` set (filter p xs)
   \<Longrightarrow> filter p xs \<noteq> [] \<and> f (hd (filter p xs)) = g"
proof (induction xs)
  case (Cons x xs)
  show ?case
  proof (cases "p x")
    case False
    then have fx: "filter p (x # xs) = filter p xs" by simp
    from Cons.prems(4) have "g \<in> f ` set xs" unfolding fx by auto
    then have ne: "xs \<noteq> []" and "f (hd xs) = g"
      using Cons.prems(1,3) hd_map [of xs f] by (force, force)
    with ne Cons.IH Cons.prems(1,4) show ?thesis unfolding fx by simp
  qed (use Cons.prems(3) in simp)
qed simp

lemma contig_filter: "contig (map f xs) \<Longrightarrow> contig (map f (filter p xs))"
proof (induction xs)
  case (Cons x xs)
  have "filter p xs \<noteq> [] \<and> f (hd (filter p xs)) = f x" if m: "f x \<in> f ` set (filter p xs)"
  proof -
    from m have "f x \<in> set (map f xs)" "xs \<noteq> []" by auto
    with Cons.prems have "f (hd xs) = f x" by (simp add: hd_map)
    with m Cons.prems \<open>xs \<noteq> []\<close> show ?thesis by (intro contig_filter_head) simp_all
  qed
  then show ?case using Cons by (simp add: hd_map)
qed simp

lemma contig_append_distinct:
  "contig gs \<Longrightarrow> contig hs \<Longrightarrow> set gs \<inter> set hs = {} \<Longrightarrow> contig (gs @ hs)"
proof (induction gs)
  case (Cons g gs)
  then show ?case by (cases gs) simp_all
qed simp

lemma contig_appendD: "contig (gs @ hs) \<Longrightarrow> contig gs \<and> contig hs"
proof (induction gs)
  case (Cons g gs)
  have "contig gs \<and> contig hs" using Cons by simp
  moreover have "hd gs = g" if "g \<in> set gs"
  proof -
    have "hd (gs @ hs) = g" using Cons.prems that by simp
    then show ?thesis using that by (cases gs) simp_all
  qed
  ultimately show ?case by simp
qed simp

lemma contig_Cons_iff: "contig (g # gs) \<longleftrightarrow> contig gs \<and> (g \<notin> set gs \<or> hd gs = g)"
  by auto

lemma contig_insert_after: "contig (xs @ ys) \<Longrightarrow> xs \<noteq> [] \<Longrightarrow> last xs = g \<Longrightarrow> contig (xs @ g # ys)"
proof (induction xs)
  case (Cons x xs)
  show ?case
  proof (cases "xs = []")
    case True
    then show ?thesis using Cons.prems by simp
  next
    case False
    have g: "g \<in> set xs" using Cons.prems(3) False last_in_set [OF False] by simp
    have "contig (xs @ g # ys)" using Cons.IH Cons.prems False by simp
    moreover have "x \<notin> set (xs @ ys) \<or> hd (xs @ ys) = x"
      using Cons.prems(1) unfolding append_Cons contig_Cons_iff by blast
    then have "x \<notin> set (xs @ g # ys) \<or> hd (xs @ g # ys) = x"
      using g False by auto
    ultimately show ?thesis unfolding append_Cons contig_Cons_iff by blast
  qed
qed simp

lemma contig_insert_before: "contig (xs @ ys) \<Longrightarrow> ys \<noteq> [] \<Longrightarrow> hd ys = g \<Longrightarrow> contig (xs @ g # ys)"
proof (induction xs)
  case Nil
  then show ?case by simp
next
  case (Cons x xs)
  have g: "g \<in> set ys" using Cons.prems(2,3) by auto
  have "contig (xs @ g # ys)" using Cons.IH Cons.prems by simp
  moreover have "x \<notin> set (xs @ ys) \<or> hd (xs @ ys) = x"
    using Cons.prems(1) unfolding append_Cons contig_Cons_iff by blast
  then have "x \<notin> set (xs @ g # ys) \<or> hd (xs @ g # ys) = x"
    using g Cons.prems(3) by (cases xs) auto
  ultimately show ?case unfolding append_Cons contig_Cons_iff by blast
qed

text \<open>A place between two groups: a block of a new label may stand there.\<close>

definition boundary :: "'a list \<Rightarrow> 'a list \<Rightarrow> bool" where
  "boundary xs ys \<longleftrightarrow> xs = [] \<or> ys = [] \<or> last xs \<noteq> hd ys"

lemma contig_boundary_disjoint:
  "contig (xs @ ys) \<Longrightarrow> boundary xs ys \<Longrightarrow> set xs \<inter> set ys = {}"
proof (induction xs)
  case (Cons x xs)
  show ?case
  proof (cases xs)
    case Nil
    with Cons.prems show ?thesis by (cases ys) (auto simp: boundary_def)
  next
    case (Cons y zs)
    then have "set xs \<inter> set ys = {}"
      using Cons.IH Cons.prems by (simp add: boundary_def)
    moreover have "x \<notin> set ys"
    proof
      assume "x \<in> set ys"
      then have "x = y" using Cons.prems(1) Cons by simp
      with \<open>x \<in> set ys\<close> calculation Cons show False by auto
    qed
    ultimately show ?thesis by simp
  qed
qed simp

lemma contig_insert_block:
  assumes "contig (xs @ ys)" and "boundary xs ys" and "contig bs" and "set bs \<inter> set (xs @ ys) = {}"
  shows "contig (xs @ bs @ ys)"
proof -
  note xy = contig_appendD [OF assms(1)]
  have d: "set bs \<inter> set ys = {}" "set xs \<inter> set bs = {}" using assms(4) by auto
  have "contig (bs @ ys)" using assms(3) xy d(1) by (blast intro: contig_append_distinct)
  moreover have "set xs \<inter> set (bs @ ys) = {}"
    using d(2) contig_boundary_disjoint [OF assms(1,2)] by auto
  ultimately show ?thesis using xy by (blast intro: contig_append_distinct)
qed

section \<open>A well-formed order\<close>

text \<open>
  Keys strictly ascending and not empty, ids distinct and not 0 (0 is the API's "first" and
  "new"), each group's rows together.
\<close>

definition wf_order :: "dashboard list \<Rightarrow> bool" where
  "wf_order ord \<longleftrightarrow> sorted_wrt (<) (map d_key ord) \<and> [] \<notin> set (map d_key ord)
     \<and> distinct (map d_id ord) \<and> 0 \<notin> set (map d_id ord) \<and> contig (map d_group ord)"

lemma wf_order_filter: "wf_order ord \<Longrightarrow> wf_order (filter p ord)"
  by (auto simp: wf_order_def sorted_wrt_filter sorted_wrt_map contig_filter distinct_map_filter)

lemma index_func_split:
  "index_func p xs = (if \<exists>x \<in> set xs. p x then int (length (takeWhile (\<lambda>x. \<not> p x) xs)) else - 1)"
  by (induction xs) (auto simp: Let_def)

lemma find_row_split:
  "find_row ord i = Some d \<Longrightarrow> \<exists>us vs. ord = us @ d # vs \<and> d_id d = i \<and> i \<notin> d_id ` set us"
proof (induction ord)
  case (Cons x xs)
  show ?case
  proof (cases "d_id x = i")
    case False
    with Cons obtain us vs where "xs = us @ d # vs" "d_id d = i" "i \<notin> d_id ` set us" by auto
    with False have "x # xs = (x # us) @ d # vs \<and> d_id d = i \<and> i \<notin> d_id ` set (x # us)" by simp
    then show ?thesis by blast
  qed (use Cons.prems in force)
qed simp

lemma find_row_None: "find_row ord i = None \<longleftrightarrow> i \<notin> d_id ` set ord"
  by (induction ord) auto

lemma index_row_eq:
  assumes "i \<notin> d_id ` set us" and "d_id m = i"
  shows "index_row (us @ m # vs) i = int (length us)"
proof -
  have "takeWhile (\<lambda>x. d_id x \<noteq> i) (us @ m # vs) = us"
  proof -
    have "\<And>x. x \<in> set us \<Longrightarrow> d_id x \<noteq> i" using assms(1) by (metis image_eqI)
    then show ?thesis using assms(2) by (simp add: takeWhile_append2)
  qed
  then show ?thesis using assms(2) by (simp add: index_row_def index_func_split)
qed

lemma group_end_from_eq:
  "d_group m = g \<Longrightarrow> g \<notin> d_group ` set vs \<Longrightarrow> n \<le> length vs
   \<Longrightarrow> group_end_from (us @ m # vs) g (Suc (length us) + n) = int (length us)"
proof (induction n)
  case (Suc n)
  then have "vs ! n \<in> set vs" by simp
  then have "d_group ((us @ m # vs) ! (Suc (length us) + n)) \<noteq> g"
    using Suc.prems(2) by (auto simp: nth_append)
  with Suc show ?case by simp
qed simp

lemma group_end_eq:
  assumes "d_group m = g" and "g \<notin> d_group ` set vs"
  shows "group_end (us @ m # vs) g = int (length us)"
  using group_end_from_eq [OF assms, of "length vs" us] by (simp add: group_end_def)

text \<open>The last row of a group, where \<open>group_end\<close> points.\<close>

lemma group_last_split:
  assumes "group_rows ord g \<noteq> []"
  obtains us m vs where "ord = us @ m # vs" "d_group m = g" "g \<notin> d_group ` set vs"
    "last (group_rows ord g) = m" "group_end ord g = int (length us)"
proof -
  from assms have "\<exists>x \<in> set ord. d_group x = g" by (auto simp: group_rows_def filter_empty_conv)
  from split_list_last_prop [OF this]
  obtain us m vs where s: "ord = us @ m # vs" "d_group m = g" "\<forall>v \<in> set vs. d_group v \<noteq> g"
    by blast
  then have vs: "g \<notin> d_group ` set vs" by auto
  moreover have "last (group_rows ord g) = m" using s by (simp add: group_rows_def)
  ultimately show thesis using that s group_end_eq [OF s(2) vs, of us] by simp
qed

section \<open>What the chosen keys place\<close>

text \<open>The keys at the two sides of a place, as the code reads them: empty at an end.\<close>

definition key_before :: "dashboard list \<Rightarrow> string" where
  "key_before us = (if us = [] then [] else d_key (last us))"

definition key_after :: "dashboard list \<Rightarrow> string" where
  "key_after vs = (if vs = [] then [] else d_key (hd vs))"

lemma key_before_nth:
  "(if int (length us) > 0 then d_key ((us @ vs) ! nat (int (length us) - 1)) else []) = key_before us"
  by (cases us rule: rev_exhaust) (auto simp: key_before_def nth_append)

lemma key_after_nth:
  "(if int (length us) + 1 < int (length (us @ m # vs)) then d_key ((us @ m # vs) ! nat (int (length us) + 1)) else [])
     = key_after vs"
  by (cases vs) (auto simp: key_after_def nth_append nat_add_distrib)

lemma with_key_error_Inr [simp]: "with_key_error r = Inr k \<longleftrightarrow> r = Inr k"
  by (cases r) auto

text \<open>The place a key stands for: between \<open>us\<close> and \<open>vs\<close> of the order without the row.\<close>

definition key_fits :: "dashboard list \<Rightarrow> dashboard list \<Rightarrow> string \<Rightarrow> bool" where
  "key_fits us vs k \<longleftrightarrow> between (key_before us) (key_after vs) = Inr k"

lemma key_fits_sorted:
  assumes "wf_order (us @ vs)" and "key_fits us vs k"
  shows "sorted_wrt (<) (map d_key us @ k # map d_key vs)"
proof (rule sk.insert_sorted)
  show "sorted_wrt (<) (map d_key us @ map d_key vs)" "[] \<notin> set (map d_key us @ map d_key vs)"
    using assms(1) by (auto simp: wf_order_def)
  show "between (if map d_key us = [] then [] else last (map d_key us))
      (if map d_key vs = [] then [] else hd (map d_key vs)) = Inr k"
    using assms(2) by (auto simp: key_fits_def key_before_def key_after_def last_map hd_map)
qed

lemma between_nonempty: "between a b = Inr k \<Longrightarrow> k \<noteq> []"
  using between_gap [OF between_Inr_gap, of a b k] by (auto simp: smallest_integer_def)

lemma wf_insert:
  assumes "wf_order (us @ vs)" and "key_fits us vs (d_key row)"
    and "d_id row \<noteq> 0" and "d_id row \<notin> d_id ` set (us @ vs)"
    and "contig (map d_group us @ d_group row # map d_group vs)"
  shows "wf_order (us @ row # vs)"
  using key_fits_sorted [OF assms(1,2)] between_nonempty [of _ _ "d_key row"] assms
  by (auto simp: wf_order_def key_fits_def)

text \<open>A row joins group \<open>g\<close> next to one of its rows; a new group stands at a boundary.\<close>

definition beside :: "int \<Rightarrow> dashboard list \<Rightarrow> dashboard list \<Rightarrow> bool" where
  "beside g us vs \<longleftrightarrow> us \<noteq> [] \<and> d_group (last us) = g \<or> vs \<noteq> [] \<and> d_group (hd vs) = g"

lemma contig_beside:
  assumes "contig (map d_group (us @ vs))" and "beside g us vs"
  shows "contig (map d_group us @ g # map d_group vs)"
  using assms contig_insert_after [of "map d_group us" "map d_group vs" g]
    contig_insert_before [of "map d_group us" "map d_group vs" g]
  by (auto simp: beside_def last_map hd_map)

lemma group_first_split:
  assumes "group_rows ord g \<noteq> []" and "distinct (map d_id ord)"
  obtains us m vs where "ord = us @ m # vs" "d_group m = g" "g \<notin> d_group ` set us"
    "hd (group_rows ord g) = m" "index_row ord (d_id m) = int (length us)"
proof -
  from assms have "\<exists>x \<in> set ord. d_group x = g" by (auto simp: group_rows_def filter_empty_conv)
  from split_list_first_prop [OF this]
  obtain us m vs where s: "ord = us @ m # vs" "d_group m = g" "\<forall>v \<in> set us. d_group v \<noteq> g"
    by blast
  moreover have "hd (group_rows ord g) = m"
    using s by (auto simp: group_rows_def filter_empty_conv)
  moreover have "d_id m \<notin> d_id ` set us" using assms(2) s(1) by auto
  then have "index_row ord (d_id m) = int (length us)" using index_row_eq s(1) by simp
  moreover have "g \<notin> d_group ` set us" using s(3) by auto
  ultimately show thesis using that by blast
qed

lemma index_row_nonneg_split:
  assumes "0 \<le> index_row ord i"
  obtains us m vs where "ord = us @ m # vs" "d_id m = i" "i \<notin> d_id ` set us"
    "index_row ord i = int (length us)" "ord ! nat (index_row ord i) = m"
proof -
  from assms have "\<exists>x \<in> set ord. d_id x = i" by (auto simp: index_row_def index_func_split split: if_splits)
  from split_list_first_prop [OF this]
  obtain us m vs where s: "ord = us @ m # vs" "d_id m = i" "\<forall>v \<in> set us. d_id v \<noteq> i"
    by blast
  then have i: "i \<notin> d_id ` set us" by auto
  then have "index_row ord i = int (length us)" using index_row_eq [OF i s(2)] s(1) by simp
  with s i that show thesis by simp
qed

text \<open>The three branches of \<open>keyInGroup\<close> for a group with another member.\<close>

lemma key_in_group_last:
  assumes "group_rows rest g \<noteq> []" and "rest = without ord self"
  shows "key_in_group ord self g None = with_key_error (between (d_key (last (group_rows rest g)))
     (if group_end rest g + 1 < int (length rest) then d_key (rest ! nat (group_end rest g + 1)) else []))"
  unfolding key_in_group_def Let_def assms(2) [symmetric] using assms(1) by (simp only: option.case if_False)

lemma key_in_group_first:
  assumes "group_rows rest g \<noteq> []" and "rest = without ord self"
    and "hd (group_rows rest g) = m"
  shows "key_in_group ord self g (Some 0) = with_key_error (between
     (if index_row rest (d_id m) > 0 then d_key (rest ! nat (index_row rest (d_id m) - 1)) else []) (d_key m))"
  unfolding key_in_group_def Let_def assms(2) [symmetric] assms(3)
  using assms(1) by (simp only: option.case if_False if_True simp_thms)

lemma key_in_group_after:
  assumes "group_rows rest g \<noteq> []" and "rest = without ord self" and "a \<noteq> 0"
  shows "key_in_group ord self g (Some a) =
    (if index_row (group_rows rest g) a < 0 then Inl (AfterNotMember a g)
     else if d_archived_at (group_rows rest g ! nat (index_row (group_rows rest g) a)) \<noteq> []
       then Inl (AfterArchived (d_id (group_rows rest g ! nat (index_row (group_rows rest g) a))))
     else with_key_error (between (d_key (group_rows rest g ! nat (index_row (group_rows rest g) a)))
       (if index_row rest (d_id (group_rows rest g ! nat (index_row (group_rows rest g) a))) + 1 < int (length rest)
        then d_key (rest ! nat (index_row rest (d_id (group_rows rest g ! nat (index_row (group_rows rest g) a))) + 1))
        else [])))"
proof -
  have e: "(case (if c then Some e1 else None) of Some e \<Rightarrow> Inl e | None \<Rightarrow> y) = (if c then Inl e1 else y)"
    for c and e1 :: place_error and y :: "place_error + string" by simp
  show ?thesis
    unfolding key_in_group_def Let_def assms(2) [symmetric] refuse_archived_after_def e
    using assms(1,3) by (simp only: option.case if_False if_True simp_thms)
qed

text \<open>
  \<open>keyInGroup\<close> with another member in the group: the key fits beside a member. Without
  \<open>after\<close> it is the group's last place, with 0 its first, else the one right after a live
  member.
\<close>

lemma key_in_group_place:
  assumes wf: "wf_order ord" and other: "group_rows (without ord self) g \<noteq> []"
    and key: "key_in_group ord self g after = Inr k"
  shows "\<exists>us vs. without ord self = us @ vs \<and> key_fits us vs k \<and> beside g us vs
    \<and> (case after of
         None \<Rightarrow> g \<notin> d_group ` set vs
       | Some a \<Rightarrow> if a = 0 then g \<notin> d_group ` set us
           else us \<noteq> [] \<and> d_id (last us) = a \<and> d_group (last us) = g \<and> d_archived_at (last us) = [])"
proof -
  define rest where "rest = without ord self"
  have wfr: "wf_order rest" using wf by (simp add: rest_def without_def wf_order_filter)
  then have dist: "distinct (map d_id rest)" by (simp add: wf_order_def)
  note other' = other [folded rest_def]
  show ?thesis
  proof (cases after)
    case None
    obtain us m vs where s: "rest = us @ m # vs" "d_group m = g" "g \<notin> d_group ` set vs"
      "last (group_rows rest g) = m" "group_end rest g = int (length us)"
      using group_last_split [OF other'] by metis
    have "(if group_end rest g + 1 < int (length rest) then d_key (rest ! nat (group_end rest g + 1)) else [])
        = key_after vs"
      using key_after_nth [of us m vs] unfolding s(5) unfolding s(1) .
    moreover have "between (d_key m) (if group_end rest g + 1 < int (length rest)
        then d_key (rest ! nat (group_end rest g + 1)) else []) = Inr k"
      using key key_in_group_last [OF other' rest_def] None s(4) by (simp only: with_key_error_Inr)
    ultimately have "between (d_key m) (key_after vs) = Inr k" by simp
    then have "rest = (us @ [m]) @ vs \<and> key_fits (us @ [m]) vs k \<and> beside g (us @ [m]) vs \<and> g \<notin> d_group ` set vs"
      using s by (simp add: key_fits_def key_before_def beside_def)
    then show ?thesis using None unfolding rest_def [symmetric] by (auto intro: exI [of _ "us @ [m]"])
  next
    case (Some a)
    show ?thesis
    proof (cases "a = 0")
      case True
      obtain us m vs where s: "rest = us @ m # vs" "d_group m = g" "g \<notin> d_group ` set us"
        "hd (group_rows rest g) = m" "index_row rest (d_id m) = int (length us)"
        using group_first_split [OF other' dist] by metis
      have "(if index_row rest (d_id m) > 0 then d_key (rest ! nat (index_row rest (d_id m) - 1)) else [])
          = key_before us"
        using key_before_nth [of us "m # vs"] unfolding s(5) unfolding s(1) .
      moreover have "between (if index_row rest (d_id m) > 0
          then d_key (rest ! nat (index_row rest (d_id m) - 1)) else []) (d_key m) = Inr k"
        using key key_in_group_first [OF other' rest_def s(4)] Some True by (simp only: with_key_error_Inr)
      ultimately have "between (key_before us) (d_key m) = Inr k" by simp
      then have "rest = us @ m # vs \<and> key_fits us (m # vs) k \<and> beside g us (m # vs) \<and> g \<notin> d_group ` set us"
        using s by (simp add: key_fits_def key_after_def beside_def)
      then show ?thesis using Some True unfolding rest_def [symmetric] by auto
    next
      case False
      let ?ms = "group_rows rest g"
      define m where "m = ?ms ! nat (index_row ?ms a)"
      note eq = key_in_group_after [OF other' rest_def False, folded m_def]
      have idx: "0 \<le> index_row ?ms a" and live: "d_archived_at m = []"
        and bt: "between (d_key m) (if index_row rest (d_id m) + 1 < int (length rest)
            then d_key (rest ! nat (index_row rest (d_id m) + 1)) else []) = Inr k"
        using key unfolding Some eq by (simp_all only: not_less split: if_splits) simp_all
      have m: "m \<in> set ?ms" "d_id m = a"
        by (rule index_row_nonneg_split [OF idx], simp add: m_def)+
      then have mr: "m \<in> set rest" "d_group m = g" by (auto simp: group_rows_def)
      then obtain us vs where s: "rest = us @ m # vs" by (meson split_list)
      then have "a \<notin> d_id ` set us" using dist m(2) by auto
      then have ix: "index_row rest (d_id m) = int (length us)"
        using index_row_eq m(2) s by auto
      have "(if index_row rest (d_id m) + 1 < int (length rest)
            then d_key (rest ! nat (index_row rest (d_id m) + 1)) else []) = key_after vs"
        using key_after_nth [of us m vs] unfolding ix unfolding s .
      with bt live have "d_archived_at m = [] \<and> between (d_key m) (key_after vs) = Inr k" by simp
      then have "rest = (us @ [m]) @ vs \<and> key_fits (us @ [m]) vs k \<and> beside g (us @ [m]) vs
          \<and> d_archived_at m = []"
        using s mr by (simp add: key_fits_def key_before_def beside_def)
      then show ?thesis using Some False m(2) mr unfolding rest_def [symmetric]
        by (intro exI [of _ "us @ [m]"] exI [of _ vs]) simp
    qed
  qed
qed

text \<open>The sole row of its group, put back: the key fits where the row already is.\<close>

lemma key_in_group_sole:
  assumes wf: "wf_order ord" and sole: "group_rows (without ord self) g = []"
    and "ord = us @ row # vs" and "d_id row = self"
    and key: "key_in_group ord self g after = Inr k"
  shows "without ord self = us @ vs" and "key_fits us vs k" and "after \<in> {None, Some 0, Some self}"
proof -
  have n: "self \<notin> d_id ` set us" "self \<notin> d_id ` set vs"
    using wf assms(3,4) by (auto simp: wf_order_def)
  then have "filter (\<lambda>d. d_id d \<noteq> self) us = us" "filter (\<lambda>d. d_id d \<noteq> self) vs = vs"
    by (auto intro!: filter_True)
  then show "without ord self = us @ vs" using assms(3,4) by (simp add: without_def)
  have "index_row ord self = int (length us)" using index_row_eq [OF n(1) assms(4)] assms(3) by simp
  then show "key_fits us vs k" "after \<in> {None, Some 0, Some self}"
    using key sole key_after_nth [of us row vs] key_before_nth [of us "row # vs"]
    unfolding key_in_group_def Let_def key_fits_def assms(3)
    by (auto split: option.splits if_splits cong: if_cong)
qed

text \<open>\<open>keyAfterGroup\<close>: the key fits between two whole groups, or at an end.\<close>

lemma key_after_group_place:
  assumes wf: "wf_order ord" and key: "key_after_group ord self after = Inr k"
  shows "\<exists>us vs. without ord self = us @ vs \<and> key_fits us vs k
    \<and> boundary (map d_group us) (map d_group vs)
    \<and> (case after of None \<Rightarrow> vs = []
       | Some a \<Rightarrow> if a = 0 then us = [] else us \<noteq> [] \<and> (\<exists>row \<in> set us. d_id row = a
             \<and> d_archived_at row = [] \<and> d_group row = d_group (last us)))"
proof -
  define rest where "rest = without ord self"
  have wfr: "wf_order rest" using wf by (simp add: rest_def without_def wf_order_filter)
  consider "after = None" | "after = Some 0" | a where "after = Some a" "a \<noteq> 0" by (cases after) auto
  then show ?thesis
  proof cases
    case 1
    then have "key_fits rest [] k"
      using key unfolding key_after_group_def Let_def rest_def [symmetric]
      by (auto simp: key_fits_def key_before_def key_after_def split: if_splits)
    with 1 show ?thesis unfolding rest_def [symmetric]
      by (intro exI [of _ rest] exI [of _ "[]"]) (simp add: boundary_def)
  next
    case 2
    then have "key_fits [] rest k"
      using key unfolding key_after_group_def Let_def rest_def [symmetric]
      by (auto simp: key_fits_def key_before_def key_after_def split: if_splits)
    with 2 show ?thesis unfolding rest_def [symmetric]
      by (intro exI [of _ "[]"] exI [of _ rest]) (simp add: boundary_def)
  next
    case 3
    then obtain row where row: "find_row rest a = Some row" "d_archived_at row = []"
      using key unfolding key_after_group_def Let_def rest_def [symmetric]
      by (auto simp: refuse_archived_after_def split: option.splits if_splits)
    then have mem: "row \<in> set rest" "d_id row = a" using find_row_split [OF row(1)] by auto
    then have "group_rows rest (d_group row) \<noteq> []" by (auto simp: group_rows_def filter_empty_conv)
    then obtain us m vs where s: "rest = us @ m # vs" "d_group m = d_group row"
      "d_group row \<notin> d_group ` set vs" "group_end rest (d_group row) = int (length us)"
      by (rule group_last_split)
    have "between (d_key m) (key_after vs) = Inr k"
      using key 3 row key_after_nth [of us m vs] s(4)
      unfolding key_after_group_def Let_def rest_def [symmetric]
      by (simp add: refuse_archived_after_def s(1) cong: if_cong)
    then have "key_fits (us @ [m]) vs k" by (simp add: key_fits_def key_before_def)
    moreover have "row \<in> set (us @ [m])" using mem(1) s(1,3) by auto
    moreover have "boundary (map d_group (us @ [m])) (map d_group vs)"
      using s(2,3) by (cases vs) (auto simp: boundary_def)
    ultimately show ?thesis using 3 s(1,2) mem(2) row(2) unfolding rest_def [symmetric]
      by (intro exI [of _ "us @ [m]"] exI [of _ vs]) auto
  qed
qed

lemma boundary_keys:
  assumes "n \<le> length rest"
  shows "(if int n > 0 then d_key (rest ! nat (int n - 1)) else []) = key_before (take n rest)"
    and "(if int n < int (length rest) then d_key (rest ! nat (int n)) else []) = key_after (drop n rest)"
  using assms
  by (cases n) (auto simp: key_before_def key_after_def hd_drop_conv_nth last_conv_nth)

text \<open>\<open>moveGroup\<close>: fresh keys for the whole group, in its order, at a boundary of the others.\<close>

lemma move_group_to_Some:
  assumes "move_group_to ord g (int n) = Inr (Some ks)" and "without_group ord g = us @ vs"
    and "n = length us"
  obtains keys where "spread (key_before us) (key_after vs) (int (length (group_rows ord g))) = Inr keys"
    "ks = map2 (\<lambda>m k. \<lparr>k_id = d_id m, k_group = g, k_key = k\<rparr>) (group_rows ord g) keys"
proof -
  have n: "n \<le> length (without_group ord g)" "take n (without_group ord g) = us"
      "drop n (without_group ord g) = vs"
    using assms(2,3) by simp_all
  show thesis
    using assms(1) that boundary_keys [OF n(1)] unfolding move_group_to_def Let_def n(2,3)
    by (auto simp: and_then_Inr simp del: of_nat_0_less_iff of_nat_less_iff split: if_splits cong: if_cong)
qed

lemma move_group_place:
  assumes mv: "move_group ord g after = Inr (Some ks)"
  shows "\<exists>us vs keys. without_group ord g = us @ vs \<and> boundary (map d_group us) (map d_group vs)
    \<and> spread (key_before us) (key_after vs) (int (length (group_rows ord g))) = Inr keys
    \<and> ks = map2 (\<lambda>m k. \<lparr>k_id = d_id m, k_group = g, k_key = k\<rparr>) (group_rows ord g) keys
    \<and> group_rows ord g \<noteq> []
    \<and> (if after = 0 then us = [] else us \<noteq> [] \<and> (\<exists>row \<in> set ord. d_id row = after
             \<and> d_archived_at row = [] \<and> d_group row = d_group (last us) \<and> d_group row \<noteq> g))"
proof -
  define rest where "rest = without_group ord g"
  have ne: "group_rows ord g \<noteq> []" using mv by (auto simp: move_group_def)
  show ?thesis
  proof (cases "after = 0")
    case True
    then have "move_group_to ord g (int 0) = Inr (Some ks)" using mv ne by (simp add: move_group_def)
    then obtain keys where "spread (key_before []) (key_after rest) (int (length (group_rows ord g))) = Inr keys"
      "ks = map2 (\<lambda>m k. \<lparr>k_id = d_id m, k_group = g, k_key = k\<rparr>) (group_rows ord g) keys"
      by (rule move_group_to_Some [of _ _ _ _ "[]" rest]) (simp_all add: rest_def)
    with True ne show ?thesis unfolding rest_def [symmetric]
      by (intro exI [of _ "[]"] exI [of _ rest] exI [of _ keys]) (simp add: boundary_def)
  next
    case False
    then obtain row where row: "find_row ord after = Some row" "d_archived_at row = []" "d_group row \<noteq> g"
      "move_group_to ord g (group_end rest (d_group row) + 1) = Inr (Some ks)"
      using mv ne unfolding move_group_def rest_def
      by (auto simp: refuse_archived_after_def split: option.splits if_splits)
    then have mem: "row \<in> set ord" "d_id row = after" using find_row_split [OF row(1)] by auto
    then have "group_rows rest (d_group row) \<noteq> []"
      using row(3) by (auto simp: group_rows_def rest_def without_group_def filter_empty_conv)
    then obtain us m vs where s: "rest = us @ m # vs" "d_group m = d_group row"
      "d_group row \<notin> d_group ` set vs" "group_end rest (d_group row) = int (length us)"
      by (rule group_last_split)
    have "move_group_to ord g (int (Suc (length us))) = Inr (Some ks)"
      using row(4) s(4) by (simp add: add.commute)
    then obtain keys where "spread (key_before (us @ [m])) (key_after vs) (int (length (group_rows ord g))) = Inr keys"
      "ks = map2 (\<lambda>m k. \<lparr>k_id = d_id m, k_group = g, k_key = k\<rparr>) (group_rows ord g) keys"
      by (rule move_group_to_Some [of _ _ _ _ "us @ [m]" vs]) (use s(1) in \<open>simp_all add: rest_def\<close>)
    moreover have "boundary (map d_group (us @ [m])) (map d_group vs)"
      using s(2,3) by (cases vs) (auto simp: boundary_def)
    ultimately show ?thesis using False ne s(1,2) mem row unfolding rest_def [symmetric]
      by (intro exI [of _ "us @ [m]"] exI [of _ vs] exI [of _ keys]) auto
  qed
qed

end
