(* ===== verification/DashTables.thy ===== *)
theory DashTables
  imports DashOrder
begin

text \<open>
  The dashboards tables (\<^verbatim>\<open>internal/store/sqlite/reporting.go\<close>, with the unique index of
  migration 021 and the triggers of 022 and 031), and what its writes do to an order of rows that
  is sound: keys ascending, groups contiguous, group numbers free or founded by a member.
\<close>

section \<open>The tables\<close>

text \<open>
  \<open>db_rows\<close> is the dashboards table in id order, \<open>db_next\<close> the next AUTOINCREMENT id,
  \<open>db_names\<close> the dashboard_groups table and \<open>db_audit\<close> the audit rows (action and subject),
  newest first. \<open>db_now\<close> is what \<open>strftime\<close> answers.
\<close>

datatype subject = SubDashboard int | SubGroup int

record dash_db =
  db_rows :: "dashboard list"
  db_next :: int
  db_names :: "int \<rightharpoonup> string"
  db_audit :: "(string \<times> subject) list"
  db_now :: string

definition audit :: "string \<Rightarrow> subject \<Rightarrow> dash_db \<Rightarrow> dash_db" where
  "audit act sub db = db\<lparr>db_audit := (act, sub) # db_audit db\<rparr>"

text \<open>A row as \<open>dashboardCols\<close> reads it: with its group's name, empty when it has none.\<close>

definition scan_dashboard :: "dash_db \<Rightarrow> dashboard \<Rightarrow> dashboard" where
  "scan_dashboard db d = d\<lparr>d_group_title := (case db_names db (d_group d) of None \<Rightarrow> [] | Some t \<Rightarrow> t)\<rparr>"

definition list_dashboards :: "dash_db \<Rightarrow> dashboard list" where
  "list_dashboards db = map (scan_dashboard db)
     (sort_key d_key (filter (\<lambda>d. d_owner d \<noteq> owner_user) (db_rows db))
      @ sort_key d_key (filter (\<lambda>d. d_owner d = owner_user) (db_rows db)))"

text \<open>The user rows in order, as \<open>readOrder\<close> (place.go) reads them.\<close>

definition read_order :: "dash_db \<Rightarrow> dashboard list" where
  "read_order db = user_order (list_dashboards db)"

definition get_dashboard :: "dash_db \<Rightarrow> int \<Rightarrow> place_error + dashboard" where
  "get_dashboard db i = (case find_row (db_rows db) i of
     None \<Rightarrow> Inl (UnknownId i) | Some d \<Rightarrow> Inr (scan_dashboard db d))"

text \<open>The unique index on owner and sort_key, checked against the rows other than \<open>i\<close>.\<close>

definition key_taken :: "dashboard list \<Rightarrow> int \<Rightarrow> string \<Rightarrow> string \<Rightarrow> bool" where
  "key_taken ds i ow k = list_ex (\<lambda>d. d_id d \<noteq> i \<and> d_owner d = ow \<and> d_key d = k) ds"

text \<open>Migration 031's trigger: the name of a group goes with its last row.\<close>

definition drop_name :: "dashboard list \<Rightarrow> int \<Rightarrow> int \<Rightarrow> (int \<rightharpoonup> string) \<Rightarrow> (int \<rightharpoonup> string)" where
  "drop_name ds old new names =
     (if new \<noteq> old \<and> list_all (\<lambda>d. d_group d \<noteq> old) ds then names(old := None) else names)"

text \<open>One UPDATE of the row \<open>i\<close> by \<open>f\<close>, its index check and its trigger.\<close>

definition set_row ::
  "int \<Rightarrow> (dashboard \<Rightarrow> dashboard) \<Rightarrow> dashboard list \<times> (int \<rightharpoonup> string)
   \<Rightarrow> place_error + dashboard list \<times> (int \<rightharpoonup> string)" where
  "set_row i f st = (case st of (ds, names) \<Rightarrow>
     (case find_row ds i of
        None \<Rightarrow> Inl (UnknownId i)
      | Some d \<Rightarrow>
          if key_taken ds i (d_owner d) (d_key (f d)) then Inl KeyConflict
          else let ds' = map (\<lambda>e. if d_id e = i then f e else e) ds
               in Inr (ds', drop_name ds' (d_group d) (d_group (f d)) names)))"

definition update_dashboard :: "dashboard \<Rightarrow> string \<Rightarrow> dash_db \<Rightarrow> place_error + dash_db" where
  "update_dashboard dash act db =
     and_then (set_row (d_id dash) (\<lambda>d. d\<lparr>d_title := d_title dash, d_key := d_key dash,
          d_group := d_group dash, d_sidebar := d_sidebar dash, d_updated_at := db_now db\<rparr>)
        (db_rows db, db_names db))
       (\<lambda>(ds, names). Inr (audit act (SubDashboard (d_id dash)) (db\<lparr>db_rows := ds, db_names := names\<rparr>)))"

text \<open>\<open>'~' || id\<close>, the key a row is parked at.\<close>

definition park_key :: "int \<Rightarrow> string" where
  "park_key i = CHR ''~'' # dec_int i"

text \<open>The parking UPDATE, row by row in table order, checked against the index at each.\<close>

fun park_rows :: "int list \<Rightarrow> dashboard list \<Rightarrow> dashboard list \<Rightarrow> place_error + dashboard list" where
  "park_rows ids done [] = Inr done"
| "park_rows ids done (d # ds) =
     (if d_id d \<in> set ids then
        if key_taken (done @ ds) (d_id d) (d_owner d) (park_key (d_id d)) then Inl ParkFailed
        else park_rows ids (done @ [d\<lparr>d_key := park_key (d_id d)\<rparr>]) ds
      else park_rows ids (done @ [d]) ds)"

fun write_keys ::
  "string \<Rightarrow> dashboard_key list \<Rightarrow> dashboard list \<times> (int \<rightharpoonup> string)
   \<Rightarrow> place_error + dashboard list \<times> (int \<rightharpoonup> string)" where
  "write_keys now [] st = Inr st"
| "write_keys now (k # ks) st =
     and_then (set_row (k_id k) (\<lambda>d. d\<lparr>d_group := k_group k, d_key := k_key k, d_updated_at := now\<rparr>) st)
       (write_keys now ks)"

text \<open>\<open>rekey\<close> is the pair From, To of a \<open>GroupRekey\<close>; \<open>(0, 0)\<close> asks for none.\<close>

definition rekey_name :: "int \<times> int \<Rightarrow> (int \<rightharpoonup> string) \<Rightarrow> place_error + (int \<rightharpoonup> string)" where
  "rekey_name rekey names = (case rekey of (from, to) \<Rightarrow>
     if (from, to) = (0, 0) then Inr names
     else (case names from of
        None \<Rightarrow> Inr names
      | Some t \<Rightarrow>
          if to \<noteq> from \<and> names to \<noteq> None then Inl (RekeyFailed from)
          else Inr ((names(from := None))(to \<mapsto> t))))"

definition move_dashboards ::
  "dashboard_key list \<Rightarrow> int \<times> int \<Rightarrow> string \<Rightarrow> dash_db \<Rightarrow> place_error + dash_db" where
  "move_dashboards ks rekey act db =
     (if ks = [] then Inr db
      else and_then (rekey_name rekey (db_names db)) (\<lambda>names.
        and_then (park_rows (map k_id ks) [] (db_rows db)) (\<lambda>parked.
        and_then (write_keys (db_now db) ks (parked, names)) (\<lambda>(ds, names').
          Inr (audit act (SubDashboard (k_id (hd ks))) (db\<lparr>db_rows := ds, db_names := names'\<rparr>))))))"

text \<open>\<open>insertDashboardRow\<close> for a row without an id, with migration 022's trigger.\<close>

definition insert_dashboard :: "dashboard \<Rightarrow> string \<Rightarrow> dash_db \<Rightarrow> place_error + int \<times> dash_db" where
  "insert_dashboard dash act db =
     (let i = db_next db in
      if list_ex (\<lambda>d. d_owner d = d_owner dash \<and> d_key d = d_key dash) (db_rows db) then Inl KeyConflict
      else Inr (i, audit act (SubDashboard i) (db\<lparr>
        db_rows := db_rows db @ [dash\<lparr>d_id := i, d_group := (if d_group dash = 0 then i else d_group dash),
          d_created_at := db_now db, d_updated_at := db_now db, d_archived_at := [], d_group_title := []\<rparr>],
        db_next := i + 1\<rparr>)))"

definition set_group_title :: "int \<Rightarrow> string \<Rightarrow> string \<Rightarrow> dash_db \<Rightarrow> dash_db" where
  "set_group_title g title act db = audit act (SubGroup g) (db\<lparr>db_names := (db_names db)(g \<mapsto> title)\<rparr>)"

section \<open>Keys the orders hold\<close>

text \<open>Every key the package makes starts with an integer head, never with \<open>~\<close>.\<close>

definition order_key :: "string \<Rightarrow> bool" where
  "order_key k \<longleftrightarrow> k \<noteq> [] \<and> integer_length (hd k) \<noteq> 0"

lemma order_key_not_park: "order_key k \<Longrightarrow> k \<noteq> park_key i"
  by (auto simp: order_key_def park_key_def integer_length_def)

lemma between_order_key: assumes "between a b = Inr k" shows "order_key k"
proof -
  have "valid_key k \<or> k = smallest_integer"
    using between_gap [OF between_Inr_gap [OF assms]] assms by auto
  moreover have "order_key k" if "valid_key k"
  proof -
    obtain i f where "k = i @ f" "int_part i" using \<open>valid_key k\<close> by (rule valid_key_split)
    then show ?thesis by (cases i) (auto simp: order_key_def)
  qed
  moreover have "order_key smallest_integer"
    by (simp add: order_key_def smallest_integer_def integer_length_def)
  ultimately show ?thesis by blast
qed

lemma spread_up_order_key: "spread_up k n = Inr ks \<Longrightarrow> \<forall>x \<in> set ks. order_key x"
  by (induction n arbitrary: k ks) (auto simp: and_then_Inr between_order_key)

lemma spread_down_order_key: "spread_down k n = Inr ks \<Longrightarrow> \<forall>x \<in> set ks. order_key x"
  by (induction n arbitrary: k ks) (auto simp: and_then_Inr between_order_key)

lemma spread_order_key: "spread a b n = Inr ks \<Longrightarrow> \<forall>x \<in> set ks. order_key x"
proof (induction a b n arbitrary: ks rule: spread.induct)
  case (1 a b n)
  note prems = "1.prems" and IH = "1.IH"
  consider "n \<le> 0" | "n = 1" | "n > 1" "b = []" | "n > 1" "b \<noteq> []" "a = []" | "n > 1" "b \<noteq> []" "a \<noteq> []"
    by linarith
  then show ?case
  proof cases
    case 1
    then show ?thesis using prems by (simp add: spread.simps [of a b n])
  next
    case 2
    then show ?thesis using prems between_order_key
      by (auto simp: spread.simps [of a b 1] and_then_Inr)
  next
    case 3
    then have "spread_up a (nat n) = Inr ks" using prems by (simp add: spread.simps [of a "[]" n])
    then show ?thesis by (rule spread_up_order_key)
  next
    case 4
    then have "spread_down b (nat n) = Inr ks" using prems by (simp add: spread.simps [of "[]" b n])
    then show ?thesis by (rule spread_down_order_key)
  next
    case 5
    then have g: "\<not> n \<le> 0" "n \<noteq> 1" "b \<noteq> []" "a \<noteq> []" by auto
    then obtain c l r where p: "between a b = Inr c" "spread a c (n div 2) = Inr l"
      "spread c b (n - n div 2 - 1) = Inr r" "ks = l @ c # r"
      using prems by (auto simp: spread.simps [of a b n] Let_def and_then_Inr)
    have "\<forall>x \<in> set l. order_key x" by (rule IH(1) [OF g refl p(2)])
    moreover have "\<forall>x \<in> set r. order_key x" by (rule IH(2) [OF g refl p(3)])
    ultimately show ?thesis using between_order_key [OF p(1)] unfolding p(4) by auto
  qed
qed

section \<open>An order and its groups\<close>

text \<open>
  The founder rule: a group's number is the id of one of its own rows, or of no row at all.
\<close>

definition founder :: "dashboard list \<Rightarrow> bool" where
  "founder ys \<longleftrightarrow> (\<forall>d \<in> set ys. \<forall>e \<in> set ys. d_group e = d_id d \<longrightarrow> d_group d = d_id d)"

definition order_ok :: "dashboard list \<Rightarrow> bool" where
  "order_ok ys \<longleftrightarrow> wf_order ys \<and> (\<forall>y \<in> set ys. order_key (d_key y)) \<and> founder ys"

lemma order_ok_wf: "order_ok ys \<Longrightarrow> wf_order ys" and order_ok_founder: "order_ok ys \<Longrightarrow> founder ys"
  by (auto simp: order_ok_def)

lemma wf_order_distinct: "wf_order ys \<Longrightarrow> distinct (map d_id ys)"
  by (simp add: wf_order_def)

lemma same_id: "wf_order ys \<Longrightarrow> d \<in> set ys \<Longrightarrow> e \<in> set ys \<Longrightarrow> d_id d = d_id e \<Longrightarrow> d = e"
  using wf_order_distinct by (metis distinct_map inj_onD)

lemma without_split:
  assumes "wf_order ord" and "without ord i = us @ vs"
  shows "i \<notin> d_id ` set (us @ vs)" and "wf_order (us @ vs)" and "set (us @ vs) \<subseteq> set ord"
proof -
  have s: "set (us @ vs) = {d \<in> set ord. d_id d \<noteq> i}"
    using arg_cong [OF assms(2), of set] by (simp add: without_def)
  then show "i \<notin> d_id ` set (us @ vs)" "set (us @ vs) \<subseteq> set ord" by auto
  show "wf_order (us @ vs)"
    using wf_order_filter [OF assms(1), of "\<lambda>d. d_id d \<noteq> i"] assms(2) by (simp add: without_def)
qed

text \<open>
  The groups seen by the rows left behind when \<open>row\<close> goes: renamed to the heir's id when they
  used the row's.
\<close>

definition regroup :: "int \<Rightarrow> int \<Rightarrow> dashboard \<Rightarrow> dashboard" where
  "regroup g h d = (if d_group d = g then d\<lparr>d_group := h\<rparr> else d)"

lemma regroup_simps [simp]: "d_id (regroup g h d) = d_id d" "d_key (regroup g h d) = d_key d"
    "d_owner (regroup g h d) = d_owner d"
    "d_group (regroup g h d) = (if d_group d = g then h else d_group d)"
  by (auto simp: regroup_def)

lemma contig_map_inj: "contig gs \<Longrightarrow> inj_on h (set gs) \<Longrightarrow> contig (map h gs)"
proof (induction gs)
  case (Cons g gs)
  have "contig (map h gs)" using Cons by simp
  moreover have "h g \<notin> set (map h gs) \<or> hd (map h gs) = h g"
  proof -
    have "g \<notin> set gs \<or> hd gs = g" using Cons.prems(1) unfolding contig_Cons_iff by blast
    moreover have "h g \<notin> set (map h gs)" if "g \<notin> set gs"
      using that Cons.prems(2) by auto
    moreover have "hd (map h gs) = h g" if "hd gs = g" "gs \<noteq> []" using that by (simp add: hd_map)
    ultimately show ?thesis by (cases gs) auto
  qed
  ultimately show ?case unfolding list.map contig_Cons_iff by blast
qed simp

lemma regroup_keys [simp]: "key_before (map (regroup g h) us) = key_before us"
    "key_after (map (regroup g h) vs) = key_after vs"
  by (auto simp: key_before_def key_after_def last_map hd_map)

lemma wf_regroup:
  assumes "wf_order us" and "h \<notin> d_group ` set us"
  shows "wf_order (map (regroup g h) us)"
proof -
  have "contig (map (\<lambda>x. if x = g then h else x) (map d_group us))"
    using assms by (rule_tac contig_map_inj) (auto simp: wf_order_def inj_on_def)
  then show ?thesis using assms(1) by (auto simp: wf_order_def comp_def)
qed

lemma boundary_regroup:
  assumes "boundary (map d_group us) (map d_group vs)" and "h \<notin> d_group ` set (us @ vs)"
  shows "boundary (map d_group (map (regroup g h) us)) (map d_group (map (regroup g h) vs))"
proof (cases "us = [] \<or> vs = []")
  case False
  have "d_group (last us) \<noteq> h" "d_group (hd vs) \<noteq> h" using False assms(2) by auto
  then show ?thesis using False assms(1) by (auto simp: boundary_def last_map hd_map)
qed (auto simp: boundary_def)

lemma contig_new_label:
  assumes "contig (xs @ ys)" and "boundary xs ys" and "g \<notin> set (xs @ ys)"
  shows "contig (xs @ g # ys)"
  using contig_insert_block [OF assms(1,2), of "[g]"] assms(3) by simp

section \<open>One row moves\<close>

lemma order_ok_insert:
  assumes "wf_order (us @ vs)" and "\<forall>y \<in> set (us @ vs). order_key (d_key y)"
    and "key_fits us vs (d_key row)" and "d_id row \<noteq> 0" and "d_id row \<notin> d_id ` set (us @ vs)"
    and "contig (map d_group us @ d_group row # map d_group vs)" and "founder (us @ row # vs)"
  shows "order_ok (us @ row # vs)"
  using wf_insert [OF assms(1,3,4,5,6)] between_order_key assms(2,3,7)
  by (auto simp: order_ok_def key_fits_def)

lemma founder_pairs:
  "(\<lambda>d. (d_id d, d_group d)) ` set xs = (\<lambda>d. (d_id d, d_group d)) ` set ys \<Longrightarrow> founder xs = founder ys"
proof -
  assume a: "(\<lambda>d. (d_id d, d_group d)) ` set xs = (\<lambda>d. (d_id d, d_group d)) ` set ys"
  have "founder zs \<longleftrightarrow> (\<forall>p \<in> (\<lambda>d. (d_id d, d_group d)) ` set zs. \<forall>q \<in> (\<lambda>d. (d_id d, d_group d)) ` set zs.
      snd q = fst p \<longrightarrow> snd p = fst p)" for zs by (simp add: founder_def)
  note this [of xs] this [of ys]
  then show ?thesis unfolding a by simp
qed

lemma founder_without_heirs:
  assumes "founder ord" and "r \<in> set ord" and "wf_order ord"
    and "set ys = insert row {d \<in> set ord. d_id d \<noteq> d_id r}" and "d_id row = d_id r"
    and "d_group row = d_id r \<or> (\<exists>x \<in> set ord. d_group x = d_group row)"
    and "\<And>d. d \<in> set ord \<Longrightarrow> d_id d \<noteq> d_id r \<Longrightarrow> d_group d = d_group r \<Longrightarrow> d_group r \<noteq> d_id r"
  shows "founder ys"
  unfolding founder_def
proof (intro ballI impI)
  fix d e assume d: "d \<in> set ys" and e: "e \<in> set ys" and g: "d_group e = d_id d"
  have f: "\<And>a b. a \<in> set ord \<Longrightarrow> b \<in> set ord \<Longrightarrow> d_group b = d_id a \<Longrightarrow> d_group a = d_id a"
    using assms(1) by (auto simp: founder_def)
  consider "d = row" "e = row" | "d = row" "e \<in> set ord" "d_id e \<noteq> d_id r" | "d \<in> set ord" "d_id d \<noteq> d_id r"
    using d e assms(4) by auto
  then show "d_group d = d_id d"
  proof cases
    case 2
    then show ?thesis using f [OF assms(2) 2(2)] g assms(5,7) by metis
  next
    case 3
    then have "\<exists>x \<in> set ord. d_group x = d_id d" using e g assms(4,6) by auto
    then show ?thesis using f 3(1) by blast
  qed (use g in simp)
qed

lemma founder_with_heirs:
  assumes "founder ord" and "r \<in> set ord" and "wf_order ord"
    and "set ys = insert row (regroup (d_group r) h ` {d \<in> set ord. d_id d \<noteq> d_id r})" and "d_id row = d_id r"
    and "d_group row = d_id r \<or> (\<exists>x \<in> set ord. d_group x = d_group row) \<and> d_group row \<noteq> d_group r"
    and "d_group r = d_id r" and "heir \<in> set ord" "d_id heir = h" "d_group heir = d_group r" "h \<noteq> d_id r"
  shows "founder ys"
  unfolding founder_def
proof (intro ballI impI)
  fix d e assume d: "d \<in> set ys" and e: "e \<in> set ys" and g: "d_group e = d_id d"
  have f: "\<And>a b. a \<in> set ord \<Longrightarrow> b \<in> set ord \<Longrightarrow> d_group b = d_id a \<Longrightarrow> d_group a = d_id a"
    using assms(1) by (auto simp: founder_def)
  consider (same) "d = row" "e = row"
    | (row) e0 where "d = row" "e0 \<in> set ord" "d_id e0 \<noteq> d_id r" "e = regroup (d_group r) h e0"
    | (other) d0 where "d0 \<in> set ord" "d_id d0 \<noteq> d_id r" "d = regroup (d_group r) h d0"
    using d e assms(4) by auto
  then show "d_group d = d_id d"
  proof cases
    case row
    have "d_group e = d_id r" using g row(1) assms(5) by simp
    then have "d_group e0 = d_id r \<and> d_group e0 \<noteq> d_group r" using row(4) assms(11) by (auto split: if_splits)
    then show ?thesis using assms(7) by simp
  next
    case other
    then have id: "d_id d = d_id d0" by simp
    show ?thesis
    proof (cases "d_id d0 = h")
      case True
      then have "d0 = heir" using same_id [OF assms(3) other(1) assms(8)] assms(9) by simp
      then show ?thesis using other(3) assms(9,10) by simp
    next
      case False
      have "\<exists>x \<in> set ord. d_group x = d_id d0 \<and> d_group x \<noteq> d_group r"
      proof (cases "e = row")
        case True
        then show ?thesis using g id other(2) assms(6) by auto
      next
        case e': False
        then obtain e0 where "e0 \<in> set ord" "e = regroup (d_group r) h e0" using e assms(4) by auto
        then show ?thesis using g id False by (auto split: if_splits)
      qed
      then have "d_group d0 = d_id d0" "d_id d0 \<noteq> d_group r" using f other(1) by metis+
      then show ?thesis using other(3) by simp
    qed
  qed (use g in simp)
qed

text \<open>A move that keeps every row's group.\<close>

lemma order_ok_stay:
  assumes ok: "order_ok ord" and r: "r \<in> set ord" and w: "without ord (d_id r) = us @ vs"
    and fits: "key_fits us vs (d_key row)" and same: "d_id row = d_id r" "d_group row = d_group r"
    and c: "contig (map d_group us @ d_group row # map d_group vs)"
  shows "order_ok (us @ row # vs)"
proof (rule order_ok_insert)
  note wf = order_ok_wf [OF ok]
  note s = without_split [OF wf w]
  show "wf_order (us @ vs)" "key_fits us vs (d_key row)" "contig (map d_group us @ d_group row # map d_group vs)"
    using s fits c by auto
  show "\<forall>y \<in> set (us @ vs). order_key (d_key y)" using ok s(3) by (auto simp: order_ok_def)
  show "d_id row \<notin> d_id ` set (us @ vs)" using s(1) same by simp
  show "d_id row \<noteq> 0" using wf r same by (auto simp: wf_order_def)
  have "set (us @ vs) = {d \<in> set ord. d_id d \<noteq> d_id r}"
    using arg_cong [OF w, of set] by (simp add: without_def)
  then have "set ord = insert r (set (us @ vs))" using r same_id [OF wf _ r] by auto
  then have "founder (us @ row # vs) = founder ord"
    using same by (intro founder_pairs) (simp add: insert_commute image_Un)
  then show "founder (us @ row # vs)" using order_ok_founder [OF ok] by simp
qed

text \<open>A move to another group, no number handed over.\<close>

lemma order_ok_move:
  assumes ok: "order_ok ord" and r: "r \<in> set ord" and w: "without ord (d_id r) = us @ vs"
    and fits: "key_fits us vs (d_key row)" and same: "d_id row = d_id r"
    and c: "contig (map d_group us @ d_group row # map d_group vs)"
    and g: "d_group row = d_id r \<or> (\<exists>x \<in> set ord. d_group x = d_group row)"
    and n: "d_group r \<noteq> d_id r \<or> group_rows (us @ vs) (d_group r) = []"
  shows "order_ok (us @ row # vs)"
proof (rule order_ok_insert)
  note wf = order_ok_wf [OF ok]
  note s = without_split [OF wf w]
  show "wf_order (us @ vs)" "key_fits us vs (d_key row)" "contig (map d_group us @ d_group row # map d_group vs)"
    using s fits c by auto
  show "\<forall>y \<in> set (us @ vs). order_key (d_key y)" using ok s(3) by (auto simp: order_ok_def)
  show "d_id row \<notin> d_id ` set (us @ vs)" using s(1) same by simp
  show "d_id row \<noteq> 0" using wf r same by (auto simp: wf_order_def)
  have set: "set (us @ vs) = {d \<in> set ord. d_id d \<noteq> d_id r}"
    using arg_cong [OF w, of set] by (simp add: without_def)
  show "founder (us @ row # vs)"
  proof (rule founder_without_heirs [OF order_ok_founder [OF ok] r wf _ same g])
    show "set (us @ row # vs) = insert row {d \<in> set ord. d_id d \<noteq> d_id r}" using set by auto
    fix d assume "d \<in> set ord" "d_id d \<noteq> d_id r" "d_group d = d_group r"
    then have "d \<in> set (us @ vs)" "d_group d = d_group r" using set by auto
    then have "group_rows (us @ vs) (d_group r) \<noteq> []" unfolding group_rows_def filter_empty_conv by blast
    then show "d_group r \<noteq> d_id r" using n by simp
  qed
qed

text \<open>A founder's move to another group: its number stays free, the heirs take the heir's.\<close>

lemma order_ok_hand_over:
  assumes ok: "order_ok ord" and r: "r \<in> set ord" and w: "without ord (d_id r) = us @ vs"
    and fits: "key_fits us vs (d_key row)" and same: "d_id row = d_id r"
    and c: "contig (map d_group (map (regroup (d_group r) h) us) @ d_group row # map d_group (map (regroup (d_group r) h) vs))"
    and g: "d_group row = d_id r \<or> (\<exists>x \<in> set ord. d_group x = d_group row) \<and> d_group row \<noteq> d_group r"
    and own: "d_group r = d_id r" and heir: "heir \<in> set (us @ vs)" "d_id heir = h" "d_group heir = d_group r"
  shows "order_ok (map (regroup (d_group r) h) us @ row # map (regroup (d_group r) h) vs)"
proof (rule order_ok_insert)
  note wf = order_ok_wf [OF ok]
  note s = without_split [OF wf w]
  let ?f = "regroup (d_group r) h"
  have set: "set (us @ vs) = {d \<in> set ord. d_id d \<noteq> d_id r}"
    using arg_cong [OF w, of set] by (simp add: without_def)
  have hr: "h \<noteq> d_id r" "heir \<in> set ord" using heir set by auto
  have fresh: "h \<notin> d_group ` set (us @ vs)"
  proof
    assume "h \<in> d_group ` set (us @ vs)"
    then obtain e where "e \<in> set ord" "d_group e = d_id heir" using set heir by auto
    then have "d_group heir = d_id heir" using order_ok_founder [OF ok] hr(2) by (auto simp: founder_def)
    then show False using heir hr own by simp
  qed
  show "wf_order (map ?f us @ map ?f vs)"
    using wf_regroup [OF s(2) fresh, of "d_group r"] by simp
  show "key_fits (map ?f us) (map ?f vs) (d_key row)" using fits by (simp add: key_fits_def)
  show "contig (map d_group (map ?f us) @ d_group row # map d_group (map ?f vs))" by (rule c)
  show "\<forall>y \<in> set (map ?f us @ map ?f vs). order_key (d_key y)" using ok s(3) by (auto simp: order_ok_def)
  show "d_id row \<notin> d_id ` set (map ?f us @ map ?f vs)"
    using s(1) same by (auto simp: image_Un image_image)
  show "d_id row \<noteq> 0" using wf r same by (auto simp: wf_order_def)
  show "founder (map ?f us @ row # map ?f vs)"
  proof (rule founder_with_heirs [OF order_ok_founder [OF ok] r wf _ same g own hr(2) heir(2,3) hr(1)])
    have "set (map ?f us @ row # map ?f vs) = insert row (?f ` set (us @ vs))" by auto
    then show "set (map ?f us @ row # map ?f vs) = insert row (?f ` {d \<in> set ord. d_id d \<noteq> d_id r})"
      unfolding set .
  qed
qed

section \<open>A whole group moves\<close>

lemma contig_replicate [simp]: "contig (replicate n g)"
  by (induction n) (auto simp: hd_replicate)

lemma set_zip_fst: "set xs = fst ` set (zip xs ys)" if "length xs = length ys"
  using that by (metis map_fst_zip set_map)

lemma order_ok_block:
  assumes ok: "order_ok ord" and w: "without_group ord g = us @ vs"
    and b: "boundary (map d_group us) (map d_group vs)"
    and ks: "spread (key_before us) (key_after vs) (int (length (group_rows ord g))) = Inr keys"
    and blk: "map d_id blk = map d_id (group_rows ord g)" "map d_key blk = keys" "\<forall>d \<in> set blk. d_group d = g"
  shows "order_ok (us @ blk @ vs)"
proof -
  note wf = order_ok_wf [OF ok]
  have s: "set (us @ vs) = {d \<in> set ord. d_group d \<noteq> g}"
    using arg_cong [OF w, of set] by (simp add: without_group_def)
  have wuv: "wf_order (us @ vs)"
    using wf_order_filter [OF wf, of "\<lambda>d. d_group d \<noteq> g"] w by (simp add: without_group_def)
  have ids: "d_id ` set blk = d_id ` {d \<in> set ord. d_group d = g}"
    using arg_cong [OF blk(1), of set] by (simp add: group_rows_def)
  have sorted: "sorted_wrt (<) (map d_key us @ keys @ map d_key vs)"
  proof (rule sk.insert_block_sorted)
    show "sorted_wrt (<) (map d_key us @ map d_key vs)" "[] \<notin> set (map d_key us @ map d_key vs)"
      using wuv by (auto simp: wf_order_def)
    show "spread (if map d_key us = [] then [] else last (map d_key us))
      (if map d_key vs = [] then [] else hd (map d_key vs)) (int (length (group_rows ord g))) = Inr keys"
      using ks by (auto simp: key_before_def key_after_def last_map hd_map)
  qed
  have okey: "\<forall>k \<in> set keys. order_key k" using spread_order_key [OF ks] .
  have contig: "contig (map d_group us @ map d_group blk @ map d_group vs)"
  proof (rule contig_insert_block)
    show "contig (map d_group us @ map d_group vs)" using wuv by (simp add: wf_order_def)
    show "boundary (map d_group us) (map d_group vs)" by (rule b)
    have "map d_group blk = replicate (length blk) g" using blk(3) by (simp add: map_replicate_const cong: map_cong)
    then show "contig (map d_group blk)" by simp
    show "set (map d_group blk) \<inter> set (map d_group us @ map d_group vs) = {}" using blk(3) s by auto
  qed
  have disj: "d_id ` set blk \<inter> d_id ` set (us @ vs) = {}"
    unfolding ids s using same_id [OF wf] by auto
  have dist: "distinct (map d_id us @ map d_id blk @ map d_id vs)"
  proof -
    have "distinct (map d_id blk)"
      using blk(1) wf_order_filter [OF wf, of "\<lambda>d. d_group d = g"] by (simp add: wf_order_def group_rows_def)
    then show ?thesis using disj wuv by (auto simp: wf_order_def)
  qed
  have nz: "0 \<notin> set (map d_id us @ map d_id blk @ map d_id vs)"
    using ids wuv wf by (auto simp: wf_order_def)
  have wf': "wf_order (us @ blk @ vs)"
    using sorted contig dist nz wuv okey blk(2) by (auto simp: wf_order_def order_key_def)
  have pairs: "(\<lambda>d. (d_id d, d_group d)) ` set (us @ blk @ vs) = (\<lambda>d. (d_id d, d_group d)) ` set ord"
  proof -
    have "(\<lambda>d. (d_id d, d_group d)) ` set blk = (\<lambda>i. (i, g)) ` d_id ` set blk" using blk(3) by force
    also have "\<dots> = (\<lambda>d. (d_id d, d_group d)) ` {d \<in> set ord. d_group d = g}" unfolding ids by force
    finally have "(\<lambda>d. (d_id d, d_group d)) ` (set (us @ vs) \<union> set blk)
        = (\<lambda>d. (d_id d, d_group d)) ` ({d \<in> set ord. d_group d \<noteq> g} \<union> {d \<in> set ord. d_group d = g})"
      unfolding image_Un s by simp
    also have "{d \<in> set ord. d_group d \<noteq> g} \<union> {d \<in> set ord. d_group d = g} = set ord" by auto
    finally show ?thesis by (simp add: Un_ac)
  qed
  have "founder (us @ blk @ vs)" using founder_pairs [OF pairs] order_ok_founder [OF ok] by simp
  moreover have "\<forall>y \<in> set (us @ blk @ vs). order_key (d_key y)"
    using ok s okey blk(2) by (auto simp: order_ok_def)
  ultimately show ?thesis using wf' by (simp add: order_ok_def)
qed

section \<open>What the transactions write\<close>

lemma sort_key_eq:
  assumes "mset xs = mset ys" and "sorted_wrt (<) (map f ys)"
  shows "sort_key f xs = ys"
proof (rule sort_key_inj_key_eq)
  have d: "distinct (map f ys)" using assms(2) by (rule sorted_wrt_less_distinct)
  show "mset xs = mset ys" by (rule assms(1))
  show "inj_on f (set xs)" using d mset_eq_setD [OF assms(1)] by (simp add: distinct_map)
  show "sorted (map f ys)" using assms(2) by (simp add: sorted_wrt_mono_rel [of _ "(<)" "(\<le>)"])
qed

definition user_rows :: "dash_db \<Rightarrow> dashboard list" where
  "user_rows db = sort_key d_key (filter (\<lambda>d. d_owner d = owner_user) (db_rows db))"

lemma scan_simps [simp]: "d_id (scan_dashboard db d) = d_id d" "d_owner (scan_dashboard db d) = d_owner d"
    "d_key (scan_dashboard db d) = d_key d" "d_group (scan_dashboard db d) = d_group d"
    "d_archived_at (scan_dashboard db d) = d_archived_at d" "d_title (scan_dashboard db d) = d_title d"
  by (simp_all add: scan_dashboard_def)

lemma read_order_eq: "read_order db = map (scan_dashboard db) (user_rows db)"
proof -
  have "filter (\<lambda>d. d_owner d = owner_user) (map (scan_dashboard db) xs)
      = map (scan_dashboard db) (filter (\<lambda>d. d_owner d = owner_user) xs)" for xs
    by (simp add: filter_map comp_def)
  moreover have "filter (\<lambda>d. d_owner d = owner_user)
      (sort_key d_key (filter (\<lambda>d. d_owner d \<noteq> owner_user) (db_rows db))) = []"
    by (simp add: filter_empty_conv)
  moreover have "filter (\<lambda>d. d_owner d = owner_user)
      (sort_key d_key (filter (\<lambda>d. d_owner d = owner_user) (db_rows db)))
      = sort_key d_key (filter (\<lambda>d. d_owner d = owner_user) (db_rows db))"
    by (rule filter_True) simp
  ultimately show ?thesis by (simp add: read_order_def user_order_def list_dashboards_def user_rows_def)
qed

lemma set_user_rows: "set (user_rows db) = {d \<in> set (db_rows db). d_owner d = owner_user}"
  by (auto simp: user_rows_def)

text \<open>
  The tables are sound: ids are distinct and below the sequence, the user rows form a sound
  order, no built-in row shares a number with the user's groups and rows, and every name is of
  a group that has rows.
\<close>

definition db_ok :: "dash_db \<Rightarrow> bool" where
  "db_ok db \<longleftrightarrow> 0 < db_next db \<and> distinct (map d_id (db_rows db)) \<and> order_ok (user_rows db)
     \<and> (\<forall>d \<in> set (db_rows db). 0 < d_id d \<and> d_id d < db_next db \<and> 0 < d_group d \<and> d_group d < db_next db)
     \<and> (\<forall>s \<in> set (db_rows db). \<forall>y \<in> set (user_rows db). d_owner s \<noteq> owner_user \<longrightarrow>
          d_group s \<noteq> d_group y \<and> d_group s \<noteq> d_id y)
     \<and> dom (db_names db) \<subseteq> d_group ` set (db_rows db)"

text \<open>A write changes rows one by one and keeps ids and owners: the new order is a permutation.\<close>

definition row_write :: "(dashboard \<Rightarrow> dashboard) \<Rightarrow> bool" where
  "row_write F \<longleftrightarrow> (\<forall>d. d_id (F d) = d_id d \<and> d_owner (F d) = d_owner d)"

lemma user_rows_write:
  assumes "db_rows db' = map F (db_rows db)" and "row_write F"
    and "mset ys = mset (map F (user_rows db))" and "wf_order ys"
  shows "user_rows db' = ys"
  unfolding user_rows_def
proof (rule sort_key_eq)
  have "filter (\<lambda>d. d_owner d = owner_user) (map F (db_rows db))
      = map F (filter (\<lambda>d. d_owner d = owner_user) (db_rows db))"
    using assms(2) by (simp add: row_write_def filter_map comp_def)
  then show "mset (filter (\<lambda>d. d_owner d = owner_user) (db_rows db')) = mset ys"
    using assms(1,3) by (simp add: user_rows_def)
  show "sorted_wrt (<) (map d_key ys)" using assms(4) by (simp add: wf_order_def)
qed

lemma db_ok_write:
  assumes ok: "db_ok db" and rows: "db_rows db' = map F (db_rows db)" and F: "row_write F"
    and keep: "\<And>d. d \<in> set (db_rows db) \<Longrightarrow> d_owner d \<noteq> owner_user \<Longrightarrow> F d = d"
    and perm: "mset ys = mset (map F (user_rows db))" and ys: "order_ok ys"
    and g: "\<And>y. y \<in> set ys \<Longrightarrow> d_group y \<in> d_group ` set (user_rows db) \<union> d_id ` set (user_rows db)"
    and names: "dom (db_names db') \<subseteq> d_group ` set (db_rows db')" and nx: "db_next db' = db_next db"
  shows "db_ok db'" and "user_rows db' = ys"
proof -
  show u: "user_rows db' = ys" using user_rows_write [OF rows F perm] ys order_ok_wf by blast
  have F': "d_id (F d) = d_id d" "d_owner (F d) = d_owner d" for d using F by (auto simp: row_write_def)
  have sys: "\<exists>y \<in> set (user_rows db). d_id y = d_id z" if "z \<in> set ys" for z
    using that mset_eq_setD [OF perm] F' by auto
  have rng: "0 < d_group y \<and> d_group y < db_next db" if "y \<in> set ys" for y
    using g [OF that] ok by (auto simp: db_ok_def set_user_rows)
  have one: "0 < d_id d \<and> d_id d < db_next db \<and> 0 < d_group d \<and> d_group d < db_next db"
    if "d \<in> set (db_rows db')" for d
  proof -
    from that rows obtain d0 where d0: "d0 \<in> set (db_rows db)" "d = F d0" by auto
    show ?thesis
    proof (cases "d_owner d0 = owner_user")
      case True
      then have "d \<in> set (user_rows db')" using that d0 F' by (auto simp: set_user_rows)
      then show ?thesis using rng u ok d0 F' by (auto simp: db_ok_def)
    next
      case False
      then show ?thesis using keep [OF d0(1)] d0 ok by (auto simp: db_ok_def)
    qed
  qed
  have two: "d_group s \<noteq> d_group y \<and> d_group s \<noteq> d_id y"
    if "s \<in> set (db_rows db')" "y \<in> set ys" "d_owner s \<noteq> owner_user" for s y
  proof -
    from that(1) rows obtain s0 where s0: "s0 \<in> set (db_rows db)" "s = F s0" by auto
    then have s: "s \<in> set (db_rows db)" using keep F' that(3) by metis
    then have "\<forall>y \<in> set (user_rows db). d_group s \<noteq> d_group y \<and> d_group s \<noteq> d_id y"
      using ok that(3) by (auto simp: db_ok_def)
    then show ?thesis using g [OF that(2)] sys [OF that(2)] by (auto simp: image_iff)
  qed
  have "map d_id (db_rows db') = map d_id (db_rows db)" using rows F' by simp
  then show "db_ok db'" using ok ys u one two names nx by (auto simp: db_ok_def)
qed

lemma find_row_eq: "distinct (map d_id ds) \<Longrightarrow> d \<in> set ds \<Longrightarrow> find_row ds (d_id d) = Some d"
  by (induction ds) auto

lemma names_drop:
  assumes "dom names \<subseteq> d_group ` set ds \<union> X" and "distinct (map d_id ds)" and "r \<in> set ds"
    and "ds' = map (\<lambda>e. if d_id e = d_id r then f e else e) ds"
  shows "dom (drop_name ds' (d_group r) (d_group (f r)) names) \<subseteq> d_group ` set ds' \<union> X"
proof
  fix g assume g: "g \<in> dom (drop_name ds' (d_group r) (d_group (f r)) names)"
  then have gn: "g \<in> dom names" by (auto simp: drop_name_def split: if_splits)
  have fr: "f r \<in> set ds'" using assms(3,4) by force
  show "g \<in> d_group ` set ds' \<union> X"
  proof (cases "g \<in> X")
    case False
    then obtain d where d: "d \<in> set ds" "d_group d = g" using gn assms(1) by auto
    show ?thesis
    proof (cases "d_id d = d_id r")
      case True
      then have "d = r" using assms(2,3) d(1) by (metis distinct_map inj_onD)
      then have old: "g = d_group r" using d(2) by simp
      show ?thesis
      proof (cases "d_group (f r) = g")
        case True
        then show ?thesis using fr by blast
      next
        case ne: False
        then have "\<not> list_all (\<lambda>d. d_group d \<noteq> g) ds'"
          using g old by (auto simp: drop_name_def split: if_splits)
        then show ?thesis by (auto simp: list_all_iff)
      qed
    next
      case False
      then have "d \<in> set ds'" using d(1) assms(4) by force
      then show ?thesis using d(2) by blast
    qed
  qed simp
qed

lemma set_row_ok:
  assumes "distinct (map d_id ds)" and "r \<in> set ds" and "\<not> key_taken ds (d_id r) (d_owner r) (d_key (f r))"
  shows "set_row (d_id r) f (ds, names) = Inr (map (\<lambda>e. if d_id e = d_id r then f e else e) ds,
    drop_name (map (\<lambda>e. if d_id e = d_id r then f e else e) ds) (d_group r) (d_group (f r)) names)"
  using find_row_eq [OF assms(1,2)] assms(3) by (simp add: set_row_def Let_def)

definition update_fields :: "dashboard \<Rightarrow> string \<Rightarrow> dashboard \<Rightarrow> dashboard" where
  "update_fields dash now d = (if d_id d = d_id dash then d\<lparr>d_title := d_title dash, d_key := d_key dash,
     d_group := d_group dash, d_sidebar := d_sidebar dash, d_updated_at := now\<rparr> else d)"

lemma update_fields_simps [simp]: "d_id (update_fields r now d) = d_id d"
    "d_owner (update_fields r now d) = d_owner d"
    "d_key (update_fields r now d) = (if d_id d = d_id r then d_key r else d_key d)"
    "d_group (update_fields r now d) = (if d_id d = d_id r then d_group r else d_group d)"
  by (auto simp: update_fields_def)

lemma row_write_update: "row_write (update_fields dash now)"
  by (simp add: row_write_def)

lemma update_dashboard_ok:
  assumes dist: "distinct (map d_id (db_rows db))" and r: "r \<in> set (db_rows db)" "d_id r = d_id dash"
    and free: "\<And>e. e \<in> set (db_rows db) \<Longrightarrow> d_owner e = d_owner r \<Longrightarrow> d_id e \<noteq> d_id dash \<Longrightarrow> d_key e \<noteq> d_key dash"
    and names: "dom (db_names db) \<subseteq> d_group ` set (db_rows db)"
  obtains db' where "update_dashboard dash act db = Inr db'"
    "db_rows db' = map (update_fields dash (db_now db)) (db_rows db)"
    "dom (db_names db') \<subseteq> d_group ` set (db_rows db')" "db_next db' = db_next db"
proof -
  let ?f = "\<lambda>d. d\<lparr>d_title := d_title dash, d_key := d_key dash,
          d_group := d_group dash, d_sidebar := d_sidebar dash, d_updated_at := db_now db\<rparr>"
  let ?ds = "map (\<lambda>e. if d_id e = d_id r then ?f e else e) (db_rows db)"
  have ds: "?ds = map (update_fields dash (db_now db)) (db_rows db)"
    using r(2) by (simp add: update_fields_def)
  have "\<not> key_taken (db_rows db) (d_id r) (d_owner r) (d_key (?f r))"
    using free r(2) by (auto simp: key_taken_def list_ex_iff)
  note s = set_row_ok [where f = ?f, OF dist r(1) this, of "db_names db"]
  have n: "dom (drop_name ?ds (d_group r) (d_group (?f r)) (db_names db)) \<subseteq> d_group ` set ?ds"
    using names_drop [of "db_names db" "db_rows db" "{}" r ?ds ?f] names dist r(1) by simp
  show thesis
    by (rule that [of "audit act (SubDashboard (d_id dash)) (db\<lparr>db_rows := ?ds,
        db_names := drop_name ?ds (d_group r) (d_group (?f r)) (db_names db)\<rparr>)"])
      (use s r(2) ds n in \<open>simp_all add: update_dashboard_def audit_def\<close>)
qed

text \<open>The keys of a move, as one map over the rows.\<close>

definition key_fields :: "dashboard_key list \<Rightarrow> string \<Rightarrow> dashboard \<Rightarrow> dashboard" where
  "key_fields ks now d = (case find (\<lambda>k. k_id k = d_id d) ks of
     None \<Rightarrow> d | Some k \<Rightarrow> d\<lparr>d_group := k_group k, d_key := k_key k, d_updated_at := now\<rparr>)"

lemma key_fields_id [simp]: "d_id (key_fields ks now d) = d_id d" "d_owner (key_fields ks now d) = d_owner d"
  by (simp_all add: key_fields_def split: option.split)

lemma row_write_keys: "row_write (key_fields ks now)"
  by (simp add: row_write_def)

lemma find_key: "distinct (map k_id ks) \<Longrightarrow> k \<in> set ks \<Longrightarrow> find (\<lambda>k'. k_id k' = k_id k) ks = Some k"
  by (induction ks) auto

lemma find_key_None: "find (\<lambda>k. k_id k = i) ks = None \<longleftrightarrow> i \<notin> k_id ` set ks"
  by (induction ks) auto

lemma key_fields_Cons:
  assumes "k_id k \<notin> k_id ` set ks"
  shows "key_fields (k # ks) now d = key_fields ks now
    (if d_id d = k_id k then d\<lparr>d_group := k_group k, d_key := k_key k, d_updated_at := now\<rparr> else d)"
  using assms find_key_None [of "k_id k" ks] by (auto simp: key_fields_def)

lemma write_keys_ok:
  assumes "distinct (map d_id ds)" and "distinct (map k_id ks)" and "distinct (map k_key ks)"
    and "\<And>k. k \<in> set ks \<Longrightarrow> \<exists>d \<in> set ds. d_id d = k_id k \<and> d_owner d = owner_user"
    and "\<And>k d. k \<in> set ks \<Longrightarrow> d \<in> set ds \<Longrightarrow> d_owner d = owner_user \<Longrightarrow> d_id d \<noteq> k_id k \<Longrightarrow> d_key d \<noteq> k_key k"
    and "dom names \<subseteq> d_group ` set ds \<union> X"
  shows "\<exists>names'. write_keys now ks (ds, names) = Inr (map (key_fields ks now) ds, names')
    \<and> dom names' \<subseteq> d_group ` set (map (key_fields ks now) ds) \<union> X"
  using assms
proof (induction ks arbitrary: ds names)
  case Nil
  have "map (key_fields [] now) ds = ds" by (simp add: key_fields_def map_idI)
  then show ?case using Nil.prems(6) by simp
next
  case (Cons k ks)
  let ?f = "\<lambda>d. d\<lparr>d_group := k_group k, d_key := k_key k, d_updated_at := now\<rparr>"
  obtain r where r: "r \<in> set ds" "d_id r = k_id k" "d_owner r = owner_user" using Cons.prems(4) by auto
  let ?ds = "map (\<lambda>e. if d_id e = d_id r then ?f e else e) ds"
  let ?names = "drop_name ?ds (d_group r) (d_group (?f r)) names"
  have "\<not> key_taken ds (d_id r) (d_owner r) (d_key (?f r))"
    using Cons.prems(5) [of k] r by (auto simp: key_taken_def list_ex_iff)
  note s = set_row_ok [where f = ?f, OF Cons.prems(1) r(1) this, of names]
  have "\<exists>names'. write_keys now ks (?ds, ?names) = Inr (map (key_fields ks now) ?ds, names')
    \<and> dom names' \<subseteq> d_group ` set (map (key_fields ks now) ?ds) \<union> X"
  proof (rule Cons.IH)
    show "distinct (map d_id ?ds)" using Cons.prems(1) by (simp add: comp_def if_distrib cong: if_cong)
    show "distinct (map k_id ks)" "distinct (map k_key ks)" using Cons.prems(2,3) by auto
    show "\<exists>d \<in> set ?ds. d_id d = k_id k' \<and> d_owner d = owner_user" if "k' \<in> set ks" for k'
    proof -
      obtain d where d: "d \<in> set ds" "d_id d = k_id k'" "d_owner d = owner_user"
        using Cons.prems(4) \<open>k' \<in> set ks\<close> by auto
      have "d_id d \<noteq> d_id r" using d(2) r(2) Cons.prems(2) that by force
      then show ?thesis using d by force
    qed
    show "d_key d \<noteq> k_key k'" if "k' \<in> set ks" "d \<in> set ?ds" "d_owner d = owner_user" "d_id d \<noteq> k_id k'" for k' d
    proof -
      from that(2) obtain d0 where d0: "d0 \<in> set ds" "d = (if d_id d0 = d_id r then ?f d0 else d0)" by auto
      show ?thesis
      proof (cases "d_id d0 = d_id r")
        case True
        then show ?thesis using d0(2) Cons.prems(3) that(1) by force
      next
        case False
        then show ?thesis using d0 that Cons.prems(5) [of k' d0] by simp
      qed
    qed
    show "dom ?names \<subseteq> d_group ` set ?ds \<union> X"
      by (rule names_drop [OF Cons.prems(6,1) r(1) refl])
  qed
  moreover have "map (key_fields ks now) ?ds = map (key_fields (k # ks) now) ds"
    using Cons.prems(2) r(2) by (simp add: key_fields_Cons)
  ultimately have "\<exists>names'. write_keys now ks (?ds, ?names) = Inr (map (key_fields (k # ks) now) ds, names')
    \<and> dom names' \<subseteq> d_group ` set (map (key_fields (k # ks) now) ds) \<union> X" by (simp only:)
  moreover have "write_keys now (k # ks) (ds, names) = write_keys now ks (?ds, ?names)"
    using s unfolding write_keys.simps r(2) by simp
  ultimately show ?case by (simp only:)
qed

lemma park_rows_ok:
  assumes "distinct (map d_id (done @ ds))"
    and "\<And>d. d \<in> set (done @ ds) \<Longrightarrow> d_owner d = owner_user \<Longrightarrow> order_key (d_key d) \<or> d_key d = park_key (d_id d)"
    and "\<And>d. d \<in> set ds \<Longrightarrow> d_id d \<in> set ids \<Longrightarrow> d_owner d = owner_user"
  shows "park_rows ids done ds = Inr (done @ map (\<lambda>d. if d_id d \<in> set ids then d\<lparr>d_key := park_key (d_id d)\<rparr> else d) ds)"
  using assms
proof (induction ds arbitrary: "done")
  case (Cons d ds)
  show ?case
  proof (cases "d_id d \<in> set ids")
    case True
    then have ow: "d_owner d = owner_user" using Cons.prems(3) by simp
    have "\<not> key_taken (done @ ds) (d_id d) (d_owner d) (park_key (d_id d))"
    proof -
      have "d_key e \<noteq> park_key (d_id d)" if "e \<in> set (done @ ds)" "d_id e \<noteq> d_id d" "d_owner e = owner_user" for e
      proof -
        have "order_key (d_key e) \<or> d_key e = park_key (d_id e)" using Cons.prems(2) that by auto
        moreover have "park_key (d_id e) \<noteq> park_key (d_id d)" using that(2) dec_int_inj by (simp add: park_key_def)
        ultimately show ?thesis using order_key_not_park by auto
      qed
      then show ?thesis using ow by (auto simp: key_taken_def list_ex_iff)
    qed
    moreover have "park_rows ids (done @ [d\<lparr>d_key := park_key (d_id d)\<rparr>]) ds
        = Inr ((done @ [d\<lparr>d_key := park_key (d_id d)\<rparr>])
          @ map (\<lambda>d. if d_id d \<in> set ids then d\<lparr>d_key := park_key (d_id d)\<rparr> else d) ds)"
      by (rule Cons.IH) (use Cons.prems in auto)
    ultimately show ?thesis using True by simp
  next
    case False
    have "park_rows ids (done @ [d]) ds = Inr ((done @ [d])
          @ map (\<lambda>d. if d_id d \<in> set ids then d\<lparr>d_key := park_key (d_id d)\<rparr> else d) ds)"
      by (rule Cons.IH) (use Cons.prems in auto)
    then show ?thesis using False by simp
  qed
qed simp

lemma key_fields_park:
  "key_fields ks now (if d_id d \<in> set (map k_id ks) then d\<lparr>d_key := park_key (d_id d)\<rparr> else d) = key_fields ks now d"
proof (cases "d_id d \<in> k_id ` set ks")
  case True
  then obtain k where "find (\<lambda>k. k_id k = d_id d) ks = Some k"
    using find_key_None [of "d_id d" ks] by auto
  then show ?thesis by (simp add: key_fields_def)
qed (use find_key_None in \<open>auto simp: key_fields_def\<close>)

lemma move_dashboards_ok:
  assumes ok: "db_ok db" and ne: "ks \<noteq> []" and dk: "distinct (map k_id ks)" "distinct (map k_key ks)"
    and ids: "\<And>k. k \<in> set ks \<Longrightarrow> k_id k \<in> d_id ` set (user_rows db)"
    and keys: "\<And>k. k \<in> set ks \<Longrightarrow> order_key (k_key k)"
    and free: "\<And>k d. k \<in> set ks \<Longrightarrow> d \<in> set (user_rows db) \<Longrightarrow> d_id d \<notin> k_id ` set ks \<Longrightarrow> d_key d \<noteq> k_key k"
    and rk: "rekey_name rekey (db_names db) = Inr names" "dom names \<subseteq> d_group ` set (db_rows db) \<union> X"
    and X: "X \<subseteq> d_group ` set (map (key_fields ks (db_now db)) (db_rows db))"
  obtains db' where "move_dashboards ks rekey act db = Inr db'"
    "db_rows db' = map (key_fields ks (db_now db)) (db_rows db)"
    "dom (db_names db') \<subseteq> d_group ` set (db_rows db')" "db_next db' = db_next db" "db_now db' = db_now db"
proof -
  let ?park = "\<lambda>d. if d_id d \<in> set (map k_id ks) then d\<lparr>d_key := park_key (d_id d)\<rparr> else d"
  have dist: "distinct (map d_id (db_rows db))" using ok by (simp add: db_ok_def)
  have us: "\<exists>d \<in> set (db_rows db). d_id d = k_id k \<and> d_owner d = owner_user" if "k \<in> set ks" for k
    using ids [OF that] by (auto simp: set_user_rows)
  have "park_rows (map k_id ks) [] (db_rows db) = Inr ([] @ map ?park (db_rows db))"
  proof (rule park_rows_ok)
    show "order_key (d_key d) \<or> d_key d = park_key (d_id d)"
      if "d \<in> set ([] @ db_rows db)" "d_owner d = owner_user" for d
      using ok that by (auto simp: db_ok_def order_ok_def set_user_rows)
    show "d_owner d = owner_user" if d: "d \<in> set (db_rows db)" "d_id d \<in> set (map k_id ks)" for d
    proof -
      from d(2) obtain k where "k \<in> set ks" "d_id d = k_id k" by auto
      then obtain e where "e \<in> set (db_rows db)" "d_id e = d_id d" "d_owner e = owner_user" using us by metis
      then show ?thesis using dist d(1) by (metis distinct_map inj_onD)
    qed
  qed (use dist in simp)
  then have park: "park_rows (map k_id ks) [] (db_rows db) = Inr (map ?park (db_rows db))" by simp
  have "\<exists>names'. write_keys (db_now db) ks (map ?park (db_rows db), names)
      = Inr (map (key_fields ks (db_now db)) (map ?park (db_rows db)), names')
    \<and> dom names' \<subseteq> d_group ` set (map (key_fields ks (db_now db)) (map ?park (db_rows db))) \<union> X"
  proof (rule write_keys_ok)
    show "distinct (map d_id (map ?park (db_rows db)))"
      using dist by (simp add: comp_def if_distrib cong: if_cong)
    show "\<exists>d \<in> set (map ?park (db_rows db)). d_id d = k_id k \<and> d_owner d = owner_user" if "k \<in> set ks" for k
    proof -
      obtain d where d: "d \<in> set (db_rows db)" "d_id d = k_id k" "d_owner d = owner_user"
        using us [OF \<open>k \<in> set ks\<close>] by blast
      have "?park d \<in> set (map ?park (db_rows db))"
        unfolding set_map using d(1) by (rule imageI)
      moreover have "d_id (?park d) = k_id k \<and> d_owner (?park d) = owner_user" using d by simp
      ultimately show ?thesis by blast
    qed
    show "d_key d \<noteq> k_key k" if k: "k \<in> set ks" and d: "d \<in> set (map ?park (db_rows db))"
      "d_owner d = owner_user" "d_id d \<noteq> k_id k" for k d
    proof -
      from d(1) obtain d0 where d0: "d0 \<in> set (db_rows db)" "d = ?park d0" by auto
      show ?thesis
      proof (cases "d_id d0 \<in> set (map k_id ks)")
        case True
        then have "d_key d = park_key (d_id d0)" using d0(2) by simp
        then show ?thesis using order_key_not_park [OF keys [OF k]] by metis
      next
        case False
        then show ?thesis using d0 d free [OF k, of d0] by (simp add: set_user_rows)
      qed
    qed
    show "dom names \<subseteq> d_group ` set (map ?park (db_rows db)) \<union> X"
    proof -
      have "map d_group (map ?park (db_rows db)) = map d_group (db_rows db)" by simp
      from arg_cong [OF this, of set] show ?thesis using rk(2) unfolding set_map by simp
    qed
  qed (use dk in auto)
  moreover have same: "map (key_fields ks (db_now db)) (map ?park (db_rows db)) = map (key_fields ks (db_now db)) (db_rows db)"
    unfolding map_map comp_def key_fields_park ..
  ultimately obtain names' where
    w: "write_keys (db_now db) ks (map ?park (db_rows db), names) = Inr (map (key_fields ks (db_now db)) (db_rows db), names')"
      "dom names' \<subseteq> d_group ` set (map (key_fields ks (db_now db)) (db_rows db)) \<union> X"
    by auto
  show thesis
    by (rule that [of "audit act (SubDashboard (k_id (hd ks)))
        (db\<lparr>db_rows := map (key_fields ks (db_now db)) (db_rows db), db_names := names'\<rparr>)"])
      (use ne rk(1) park w X in \<open>auto simp: move_dashboards_def audit_def\<close>)
qed

end
