(* ===== verification/DashPlace.thy ===== *)
theory DashPlace
  imports DashTables
begin

text \<open>
  Placing dashboards (\<^verbatim>\<open>internal/reporting/place.go\<close>) and the update, rename and create
  operations built on it (\<^verbatim>\<open>internal/reporting/ops_dashboard.go\<close>). Each operation keeps the
  tables sound and, alone in its process, never meets a conflict.
\<close>

section \<open>Placing a dashboard\<close>

text \<open>
  A step of the service answers its error, if any, and the tables as its transactions left them:
  a second transaction that fails does not undo the first.
\<close>

type_synonym dash_step = "dash_db \<Rightarrow> place_error option \<times> dash_db"

definition commit :: "(dash_db \<Rightarrow> place_error + dash_db) \<Rightarrow> dash_step" where
  "commit tx db = (case tx db of Inl e \<Rightarrow> (Some e, db) | Inr db' \<Rightarrow> (None, db'))"

definition then_step :: "dash_step \<Rightarrow> dash_step \<Rightarrow> dash_step" where
  "then_step f g db = (case f db of (Some e, db') \<Rightarrow> (Some e, db') | (None, db') \<Rightarrow> g db')"

definition fail_step :: "place_error \<Rightarrow> dash_step" where
  "fail_step e db = (Some e, db)"

definition refuse_group :: "dashboard list \<Rightarrow> int \<Rightarrow> place_error option" where
  "refuse_group ord g =
     (if list_ex (\<lambda>d. d_group d = g \<and> d_archived_at d = []) ord then None else Some (NoLiveGroup g))"

record update_in =
  u_title :: string
  u_group :: "int option"
  u_after :: "int option"

definition write_placed :: "dashboard \<Rightarrow> dashboard_key list \<Rightarrow> string \<Rightarrow> dash_step" where
  "write_placed row heirs act =
     (if heirs = [] then commit (update_dashboard row act)
      else then_step
        (commit (move_dashboards
           (\<lparr>k_id = d_id row, k_group = d_group row, k_key = d_key row\<rparr> # heirs)
           (d_id row, k_group (hd heirs)) act))
        (commit (update_dashboard row act)))"

definition leave_group :: "dashboard list \<Rightarrow> dashboard \<Rightarrow> int option \<Rightarrow> string \<Rightarrow> dash_step" where
  "leave_group ord row after0 act =
     (let after1 = (if after0 = Some (d_id row) then None else after0);
          others = group_rows (without ord (d_id row)) (d_group row);
          heirs = (if others \<noteq> [] then hand_over ord row else []);
          row1 = (if others \<noteq> [] then row\<lparr>d_group := d_id row\<rparr> else row);
          after2 = (if others \<noteq> [] \<and> after1 = None then Some (d_id (last others)) else after1)
      in if after2 = None then write_placed row1 heirs act
         else (case key_after_group ord (d_id row1) after2 of
             Inl e \<Rightarrow> fail_step e
           | Inr key \<Rightarrow> write_placed (row1\<lparr>d_key := key\<rparr>) heirs act))"

definition place_dashboard :: "dashboard list \<Rightarrow> dashboard \<Rightarrow> update_in \<Rightarrow> string \<Rightarrow> dash_step" where
  "place_dashboard ord row inp act =
     (case u_group inp of
        Some g \<Rightarrow>
          if g = 0 then leave_group ord row (u_after inp) act
          else (case refuse_group ord g of Some e \<Rightarrow> fail_step e | None \<Rightarrow>
            if u_after inp = Some (d_id row) \<and> d_group row = g then commit (update_dashboard row act)
            else (case key_in_group ord (d_id row) g (u_after inp) of
                Inl e \<Rightarrow> fail_step e
              | Inr key \<Rightarrow>
                  if g \<noteq> d_group row then
                    write_placed (row\<lparr>d_group := g, d_key := key\<rparr>) (hand_over ord row) act
                  else commit (update_dashboard (row\<lparr>d_key := key\<rparr>) act)))
      | None \<Rightarrow>
        (case u_after inp of
           None \<Rightarrow> commit (update_dashboard row act)
         | Some a \<Rightarrow>
             if a = d_id row then commit (update_dashboard row act)
             else if (case find_row ord a of Some x \<Rightarrow> d_group x = d_group row | None \<Rightarrow> False) then
               (case key_in_group ord (d_id row) (d_group row) (Some a) of
                  Inl e \<Rightarrow> fail_step e
                | Inr key \<Rightarrow> commit (update_dashboard (row\<lparr>d_key := key\<rparr>) act))
             else (case move_group ord (d_group row) a of
                  Inl e \<Rightarrow> fail_step e
                | Inr None \<Rightarrow> commit (update_dashboard row act)
                | Inr (Some keys) \<Rightarrow>
                    let i = nat (index_func (\<lambda>k. k_id k = d_id row) keys);
                        keys' = keys[0 := keys ! i, i := keys ! 0]
                    in then_step (commit (move_dashboards keys' (0, 0) act))
                      (if u_title inp = [] then (\<lambda>db. (None, db))
                       else commit (update_dashboard (row\<lparr>d_key := k_key (hd keys')\<rparr>) act)))))"

section \<open>The operations\<close>

fun is_conflict :: "place_error \<Rightarrow> bool" where
  "is_conflict KeyConflict = True"
| "is_conflict RaceLost = True"
| "is_conflict _ = False"

text \<open>
  \<open>retryConflict\<close>: the two attempts, each with what other processes write between its read of
  the order and its own write (the mutex keeps this process's writers out).
\<close>

definition retry_conflict ::
  "((dash_db \<Rightarrow> dash_db) \<Rightarrow> dash_step) \<Rightarrow> (dash_db \<Rightarrow> dash_db) \<Rightarrow> (dash_db \<Rightarrow> dash_db) \<Rightarrow> place_error \<Rightarrow> dash_step" where
  "retry_conflict place env1 env2 lost db =
     (let again = (\<lambda>r. case r of (Some e, db') \<Rightarrow> is_conflict e | _ \<Rightarrow> False);
          r1 = place env1 db;
          r2 = (if again r1 then place env2 (snd r1) else r1)
      in if again r2 then (Some lost, snd r2) else r2)"

definition place_row ::
  "int \<Rightarrow> (dashboard list \<Rightarrow> dashboard \<Rightarrow> dash_step) \<Rightarrow> (dash_db \<Rightarrow> dash_db) \<Rightarrow> dash_step" where
  "place_row i place env db =
     (case find_row (read_order db) i of
        None \<Rightarrow> (Some (UnknownId i), db)
      | Some row \<Rightarrow> place (read_order db) row (env db))"

definition settle_lone_name :: "dashboard list \<Rightarrow> dash_db \<Rightarrow> dash_db" where
  "settle_lone_name members db =
     (case filter (\<lambda>m. d_archived_at m = []) members of
        [m] \<Rightarrow>
          if d_owner m \<noteq> owner_user \<or> d_group_title m = [] \<or> d_group_title m = d_title m then db
          else set_group_title (d_group m) (d_title m) ''dashboard.group.rename'' db
      | _ \<Rightarrow> db)"

definition editable_dashboard :: "dash_db \<Rightarrow> int \<Rightarrow> place_error + dashboard" where
  "editable_dashboard db i = and_then (get_dashboard db i) (\<lambda>d.
     if d_owner d = ''system'' then Inl (SystemDashboard i)
     else if d_archived_at d \<noteq> [] then Inl (ArchivedDashboard i) else Inr d)"

text \<open>The body of \<open>UpdateDashboard\<close> for one attempt; the title is the one \<open>checkName\<close> answered.\<close>

definition update_attempt :: "update_in \<Rightarrow> dashboard list \<Rightarrow> dashboard \<Rightarrow> dash_step" where
  "update_attempt inp ord row =
     (let alone = (group_rows (without ord (d_id row)) (d_group row) = []);
          keeps = (case u_group inp of None \<Rightarrow> True | Some g \<Rightarrow> g = d_group row \<or> g = 0 \<and> alone);
          sync = (u_title inp \<noteq> [] \<and> keeps \<and> d_group_title row \<noteq> [] \<and> lone ord (d_id row) (d_group row));
          row' = (if u_title inp \<noteq> [] then row\<lparr>d_title := u_title inp\<rparr> else row);
          settle = (case u_group inp of
              Some g \<Rightarrow> if \<not> keeps \<and> g \<noteq> 0 then
                (case refuse_group ord g of Some e \<Rightarrow> fail_step e | None \<Rightarrow>
                  (case key_in_group ord (d_id row) g (u_after inp) of
                     Inl e \<Rightarrow> fail_step e
                   | Inr _ \<Rightarrow> (\<lambda>db. (None, settle_lone_name (group_rows ord g) db))))
                else (\<lambda>db. (None, db))
            | None \<Rightarrow> (\<lambda>db. (None, db)))
      in then_step settle (then_step (place_dashboard ord row' inp ''dashboard.update'')
           (\<lambda>db. (None, if sync then set_group_title (d_group row) (u_title inp) ''dashboard.group.rename'' db
                       else db))))"

definition op_update_dashboard ::
  "int \<Rightarrow> update_in \<Rightarrow> (dash_db \<Rightarrow> dash_db) \<Rightarrow> (dash_db \<Rightarrow> dash_db) \<Rightarrow> dash_step" where
  "op_update_dashboard i inp env1 env2 db =
     (case editable_dashboard db i of
        Inl e \<Rightarrow> (Some e, db)
      | Inr d \<Rightarrow>
          if u_title inp = [] \<and> u_after inp = None \<and> u_group inp = None then (Some NothingToUpdate, db)
          else retry_conflict (place_row (d_id d) (update_attempt inp)) env1 env2 RaceLost db)"

definition rename_attempt :: "string \<Rightarrow> dashboard list \<Rightarrow> dashboard \<Rightarrow> dash_step" where
  "rename_attempt title ord row =
     then_step
       (if lone ord (d_id row) (d_group row) \<and> d_title row \<noteq> title
        then commit (update_dashboard (row\<lparr>d_title := title\<rparr>) ''dashboard.update'') else (\<lambda>db. (None, db)))
       (\<lambda>db. (None, set_group_title (d_group row) title ''dashboard.group.rename'' db))"

definition op_rename_group ::
  "int \<Rightarrow> string \<Rightarrow> (dash_db \<Rightarrow> dash_db) \<Rightarrow> (dash_db \<Rightarrow> dash_db) \<Rightarrow> dash_step" where
  "op_rename_group i title env1 env2 db =
     (case editable_dashboard db i of
        Inl e \<Rightarrow> (Some e, db)
      | Inr d \<Rightarrow> retry_conflict (place_row (d_id d) (rename_attempt title)) env1 env2 RaceLost db)"

text \<open>The placement part of \<open>CreateDashboard\<close>; its widgets are another table.\<close>

definition create_attempt ::
  "string \<Rightarrow> string \<Rightarrow> int \<Rightarrow> int option \<Rightarrow> (dash_db \<Rightarrow> dash_db) \<Rightarrow> dash_step" where
  "create_attempt title rng g after env db =
     (let ord = read_order db; db1 = env db in
      case (if g = 0 then key_after_group ord 0 after
            else (case refuse_group ord g of Some e \<Rightarrow> Inl e | None \<Rightarrow> key_in_group ord 0 g after)) of
        Inl e \<Rightarrow> (Some e, db1)
      | Inr key \<Rightarrow>
          let db2 = (if g \<noteq> 0 then settle_lone_name (group_rows ord g) db1 else db1)
          in commit (\<lambda>db. and_then (insert_dashboard
              \<lparr>d_id = 0, d_owner = owner_user, d_title = title, d_key = key, d_group = g, d_group_title = [],
               d_last_project = 0, d_last_range = rng, d_last_from = [], d_last_to = [], d_created_at = [],
               d_updated_at = [], d_archived_at = [], d_live_widgets = 0, d_sidebar = True, d_project_tab = False\<rparr>
              ''dashboard.create'' db) (\<lambda>(i, db'). Inr db')) db2)"

definition op_create_dashboard ::
  "string \<Rightarrow> string \<Rightarrow> int \<Rightarrow> int option \<Rightarrow> (dash_db \<Rightarrow> dash_db) \<Rightarrow> (dash_db \<Rightarrow> dash_db) \<Rightarrow> dash_step" where
  "op_create_dashboard title rng g after env1 env2 =
     retry_conflict (create_attempt title rng g after) env1 env2 RaceLost"

section \<open>Placements keep the tables sound\<close>

text \<open>What an order is made of: its rows' ids, groups and keys.\<close>

definition core :: "dashboard \<Rightarrow> int \<times> int \<times> string" where
  "core d = (d_id d, d_group d, d_key d)"

lemma core_map:
  assumes "map core xs = map core ys"
  shows "map d_id xs = map d_id ys" "map d_group xs = map d_group ys" "map d_key xs = map d_key ys"
  using arg_cong [OF assms, of "map fst"] arg_cong [OF assms, of "map (fst \<circ> snd)"]
    arg_cong [OF assms, of "map (snd \<circ> snd)"] by (simp_all add: comp_def core_def)

lemma wf_order_keys: "wf_order ys \<Longrightarrow> distinct (map d_key ys)"
  using sorted_wrt_less_distinct [of "map d_key ys"] by (simp add: wf_order_def)

lemma order_ok_core: "map core xs = map core ys \<Longrightarrow> order_ok xs = order_ok ys"
proof -
  assume c: "map core xs = map core ys"
  note m = core_map [OF c]
  have "wf_order xs = wf_order ys" unfolding wf_order_def m ..
  moreover have "(\<forall>y \<in> set xs. order_key (d_key y)) = (\<forall>y \<in> set ys. order_key (d_key y))"
    using arg_cong [OF m(3), of "\<lambda>l. \<forall>k \<in> set l. order_key k"] by simp
  moreover have "founder xs = founder ys"
  proof (rule founder_pairs)
    have p: "(\<lambda>d. (d_id d, d_group d)) ` set zs = (\<lambda>(i, g, k). (i, g)) ` set (map core zs)" for zs
      by (simp add: image_image core_def)
    show "(\<lambda>d. (d_id d, d_group d)) ` set xs = (\<lambda>d. (d_id d, d_group d)) ` set ys"
      unfolding p c ..
  qed
  ultimately show ?thesis by (simp add: order_ok_def)
qed

lemma perm_without:
  assumes "wf_order raw" and "r \<in> set raw" and "without raw (d_id r) = us @ vs"
  shows "mset raw = mset (us @ r # vs)"
proof -
  obtain as bs where raw: "raw = as @ r # bs" using assms(2) by (meson split_list)
  have "d_id r \<notin> d_id ` set (as @ bs)" using assms(1) raw by (auto simp: wf_order_def)
  then have "\<forall>d \<in> set (as @ bs). d_id d \<noteq> d_id r" by (metis image_eqI)
  then have "filter (\<lambda>d. d_id d \<noteq> d_id r) as = as \<and> filter (\<lambda>d. d_id d \<noteq> d_id r) bs = bs"
    by (auto intro!: filter_True)
  then have "us @ vs = as @ bs" using assms(3) raw by (simp add: without_def)
  then have "mset us + mset vs = mset as + mset bs" by (metis mset_append)
  then show ?thesis by (simp add: raw)
qed

text \<open>The plain update of one row whose place is known.\<close>

lemma commit_update:
  assumes ok: "db_ok db" and r: "r \<in> set (user_rows db)" "d_id row = d_id r"
    and w: "without (user_rows db) (d_id r) = us @ vs" and ys: "order_ok (us @ row # vs)"
    and g: "d_group row \<in> d_group ` set (user_rows db) \<union> d_id ` set (user_rows db)"
  obtains db' where "commit (update_dashboard row act) db = (None, db')" "db_ok db'"
    "map core (user_rows db') = map core (us @ row # vs)" "db_next db' = db_next db"
proof -
  let ?F = "update_fields row (db_now db)"
  note wf = order_ok_wf [of "user_rows db"]
  have wfu: "wf_order (user_rows db)" using ok by (auto simp: db_ok_def order_ok_def)
  have rr: "r \<in> set (db_rows db)" "d_owner r = owner_user" using r by (auto simp: set_user_rows)
  note s = without_split [OF wfu w]
  have setuv: "set (us @ vs) = {d \<in> set (user_rows db). d_id d \<noteq> d_id r}"
    using arg_cong [OF w, of set] by (simp add: without_def)
  have free: "d_key e \<noteq> d_key row" if "e \<in> set (db_rows db)" "d_owner e = d_owner r" "d_id e \<noteq> d_id row" for e
  proof -
    have "e \<in> set (us @ vs)" using that rr r(2) setuv by (auto simp: set_user_rows)
    moreover have "distinct (map d_key (us @ row # vs))"
      by (rule wf_order_keys [OF order_ok_wf [OF ys]])
    ultimately show ?thesis by (auto simp: image_iff)
  qed
  have d: "distinct (map d_id (db_rows db))" "dom (db_names db) \<subseteq> d_group ` set (db_rows db)"
    using ok by (auto simp: db_ok_def)
  obtain db' where u: "update_dashboard row act db = Inr db'" "db_rows db' = map ?F (db_rows db)"
      "dom (db_names db') \<subseteq> d_group ` set (db_rows db')" "db_next db' = db_next db"
    by (rule update_dashboard_ok [OF d(1) rr(1) _ free d(2)]) (use r(2) in auto)
  have "\<forall>d \<in> set (us @ vs). d_id d \<noteq> d_id row" using s(1) r(2) by (metis image_eqI)
  then have same: "map ?F us = us" "map ?F vs = vs"
    by (auto simp: update_fields_def intro!: map_idI)
  have core: "map core (us @ ?F r # vs) = map core (us @ row # vs)" using r(2) by (simp add: core_def)
  have ok': "db_ok db'" and ur: "user_rows db' = us @ ?F r # vs"
  proof (atomize (full), rule conjI)
    have perm: "mset (us @ ?F r # vs) = mset (map ?F (user_rows db))"
    proof -
      have "mset (map ?F (user_rows db)) = image_mset ?F (mset (us @ r # vs))"
        using perm_without [OF wfu r(1) w] by simp
      also have "\<dots> = mset (map ?F (us @ r # vs))" by simp
      also have "map ?F (us @ r # vs) = us @ ?F r # vs" using same by simp
      finally show ?thesis by simp
    qed
    have y': "order_ok (us @ ?F r # vs)" using order_ok_core [OF core] ys by simp
    have keep: "?F d = d" if "d \<in> set (db_rows db)" "d_owner d \<noteq> owner_user" for d
    proof -
      have "d \<noteq> r" using that(2) rr(2) by auto
      then have "d_id d \<noteq> d_id r" using d(1) that(1) rr(1) by (metis distinct_map inj_onD)
      then show ?thesis using r(2) by (simp add: update_fields_def)
    qed
    have gs: "d_group y \<in> d_group ` set (user_rows db) \<union> d_id ` set (user_rows db)"
      if "y \<in> set (us @ ?F r # vs)" for y
      using that s(3) g r(2) by auto
    show "db_ok db'" by (rule db_ok_write(1) [OF ok u(2) row_write_update keep perm y' gs u(3,4)])
    show "user_rows db' = us @ ?F r # vs"
      by (rule db_ok_write(2) [OF ok u(2) row_write_update keep perm y' gs u(3,4)])
  qed
  have "map core (user_rows db') = map core (us @ row # vs)" unfolding ur by (rule core)
  then show thesis using that [of db'] u(1,4) ok' by (simp add: commit_def)
qed

text \<open>A move of several rows whose order afterwards is known.\<close>

lemma commit_move:
  assumes ok: "db_ok db" and ne: "ks \<noteq> []" and dk: "distinct (map k_id ks)"
    and ids: "\<And>k. k \<in> set ks \<Longrightarrow> k_id k \<in> d_id ` set (user_rows db)"
    and perm: "mset ys = mset (map (key_fields ks (db_now db)) (user_rows db))" and ys: "order_ok ys"
    and g: "\<And>y. y \<in> set ys \<Longrightarrow> d_group y \<in> d_group ` set (user_rows db) \<union> d_id ` set (user_rows db)"
    and rk: "rekey_name rekey (db_names db) = Inr names" "dom names \<subseteq> d_group ` set (db_rows db) \<union> X"
    and X: "X \<subseteq> d_group ` set ys"
  obtains db' where "commit (move_dashboards ks rekey act) db = (None, db')" "db_ok db'"
    "user_rows db' = ys" "db_next db' = db_next db" "db_now db' = db_now db"
proof -
  let ?F = "key_fields ks (db_now db)"
  have setys: "set ys = ?F ` set (user_rows db)" using mset_eq_setD [OF perm] by simp
  have dkeys: "distinct (map d_key ys)" by (rule wf_order_keys [OF order_ok_wf [OF ys]])
  have Fk: "?F d \<in> set ys \<and> d_key (?F d) = k_key k" if "k \<in> set ks" "d \<in> set (user_rows db)" "d_id d = k_id k" for k d
  proof
    show "?F d \<in> set ys" unfolding setys using that(2) by (rule imageI)
    show "d_key (?F d) = k_key k" using that(3) find_key [OF dk that(1)] by (simp add: key_fields_def)
  qed
  have eq: "d = e" if "?F d \<in> set ys" "?F e \<in> set ys" "d_key (?F d) = d_key (?F e)"
     "d \<in> set (user_rows db)" "e \<in> set (user_rows db)" for d e
  proof -
    have "?F d = ?F e" using dkeys that(1,2,3) by (metis distinct_map inj_onD)
    then have "d_id (?F d) = d_id (?F e)" by simp
    then have "d_id d = d_id e" by simp
    moreover have "wf_order (user_rows db)" using ok by (auto simp: db_ok_def order_ok_def)
    ultimately show ?thesis using same_id that(4,5) by blast
  qed
  have keys: "order_key (k_key k)" if k: "k \<in> set ks" for k
  proof -
    obtain d where "d \<in> set (user_rows db)" "d_id d = k_id k" using ids [OF k] by auto
    then have "?F d \<in> set ys \<and> d_key (?F d) = k_key k" by (rule Fk [OF k])
    then show ?thesis using ys by (auto simp: order_ok_def)
  qed
  have dkk: "distinct (map k_key ks)"
  proof -
    have "inj_on k_key (set ks)"
    proof (rule inj_onI)
      fix k k' assume k: "k \<in> set ks" "k' \<in> set ks" "k_key k = k_key k'"
      obtain d d' where d: "d \<in> set (user_rows db)" "d_id d = k_id k" "d' \<in> set (user_rows db)" "d_id d' = k_id k'"
        using ids [OF k(1)] ids [OF k(2)] by auto
      have "d = d'" using eq Fk k d by metis
      then have "k_id k = k_id k'" using d by simp
      then show "k = k'" using dk k by (metis distinct_map inj_onD)
    qed
    moreover have "distinct ks" using dk by (simp add: distinct_map)
    ultimately show ?thesis by (simp add: distinct_map)
  qed
  have free: "d_key d \<noteq> k_key k" if k: "k \<in> set ks" and d: "d \<in> set (user_rows db)" "d_id d \<notin> k_id ` set ks" for k d
  proof
    assume e: "d_key d = k_key k"
    obtain d' where d': "d' \<in> set (user_rows db)" "d_id d' = k_id k" using ids [OF k] by auto
    have "?F d = d" using d(2) find_key_None [of "d_id d" ks] by (simp add: key_fields_def)
    moreover have "?F d \<in> set ys" unfolding setys using d(1) by (rule imageI)
    ultimately have "d = d'" using eq [of d d'] Fk [OF k d'] e d(1) d'(1) by simp
    then show False using d(2) d'(2) k by auto
  qed
  have X': "X \<subseteq> d_group ` set (map ?F (db_rows db))"
    using X setys by (auto simp: set_user_rows)
  obtain db' where u: "move_dashboards ks rekey act db = Inr db'" "db_rows db' = map ?F (db_rows db)"
      "dom (db_names db') \<subseteq> d_group ` set (db_rows db')" "db_next db' = db_next db" "db_now db' = db_now db"
    by (rule move_dashboards_ok [OF ok ne dk dkk ids keys free rk X'])
  have keep: "?F d = d" if "d \<in> set (db_rows db)" "d_owner d \<noteq> owner_user" for d
  proof -
    have "d_id d \<notin> k_id ` set ks"
    proof
      assume "d_id d \<in> k_id ` set ks"
      then obtain e where "e \<in> set (user_rows db)" "d_id e = d_id d" using ids by force
      moreover have "distinct (map d_id (db_rows db))" using ok by (simp add: db_ok_def)
      ultimately show False using that by (auto simp: set_user_rows distinct_map dest: inj_onD)
    qed
    then show ?thesis using find_key_None [of "d_id d" ks] by (simp add: key_fields_def)
  qed
  have "db_ok db'" by (rule db_ok_write(1) [OF ok u(2) row_write_keys keep perm ys g u(3,4)])
  moreover have "user_rows db' = ys" by (rule db_ok_write(2) [OF ok u(2) row_write_keys keep perm ys g u(3,4)])
  ultimately show thesis using that [of db'] u by (simp add: commit_def)
qed

text \<open>The heirs of a founder, as \<open>handOver\<close> answers them.\<close>

lemma hand_over_eq:
  assumes "hand_over ord row \<noteq> []"
  obtains heir where "heir \<in> set (group_rows (without ord (d_id row)) (d_group row))" "d_group row = d_id row"
    "hand_over ord row = map (\<lambda>d. \<lparr>k_id = d_id d, k_group = d_id heir, k_key = d_key d\<rparr>)
       (group_rows (without ord (d_id row)) (d_group row))"
proof -
  let ?left = "group_rows (without ord (d_id row)) (d_group row)"
  have ne: "?left \<noteq> []" and own: "d_group row = d_id row"
    using assms by (auto simp: hand_over_def Let_def split: if_splits)
  let ?i = "index_func (\<lambda>d. d_archived_at d = []) ?left"
  let ?heir = "if ?i \<ge> 0 then ?left ! nat ?i else hd ?left"
  have "?heir \<in> set ?left"
  proof (cases "?i \<ge> 0")
    case True
    then have e: "\<exists>x \<in> set ?left. d_archived_at x = []" by (auto simp: index_func_split split: if_splits)
    let ?t = "takeWhile (\<lambda>x. d_archived_at x \<noteq> []) ?left"
    have "length ?t < length ?left"
    proof (rule ccontr)
      assume "\<not> length ?t < length ?left"
      then have "?t = ?left" using length_takeWhile_le [of "\<lambda>x. d_archived_at x \<noteq> []" ?left]
        by (metis takeWhile_eq_take take_all not_less)
      then show False using e by (metis (mono_tags, lifting) set_takeWhileD)
    qed
    then show ?thesis using True e by (simp add: index_func_split)
  qed (use ne in simp)
  moreover have "hand_over ord row = map (\<lambda>d. \<lparr>k_id = d_id d, k_group = d_id ?heir, k_key = d_key d\<rparr>) ?left"
    using ne own by (simp add: hand_over_def Let_def)
  ultimately show thesis using that own by blast
qed

lemma hand_over_Nil:
  "hand_over ord row = [] \<longleftrightarrow> d_group row \<noteq> d_id row \<or> group_rows (without ord (d_id row)) (d_group row) = []"
  by (auto simp: hand_over_def Let_def)

lemma without_mid:
  assumes "wf_order (us @ r # vs)" shows "without (us @ r # vs) (d_id r) = us @ vs"
proof -
  have "d_id r \<notin> d_id ` set (us @ vs)" using assms by (auto simp: wf_order_def)
  then have "\<forall>d \<in> set (us @ vs). d_id d \<noteq> d_id r" by (metis image_eqI)
  then have "filter (\<lambda>d. d_id d \<noteq> d_id r) us = us \<and> filter (\<lambda>d. d_id d \<noteq> d_id r) vs = vs"
    by (auto intro!: filter_True)
  then show ?thesis by (simp add: without_def)
qed

lemma distinct_heirs: "distinct (map d_id us) \<Longrightarrow>
    distinct (map k_id (map (\<lambda>d. \<lparr>k_id = d_id d, k_group = h, k_key = d_key d\<rparr>) us))"
  by (simp add: comp_def)

text \<open>\<open>writePlaced\<close> when the founder leaves others behind.\<close>

lemma write_placed_heirs:
  assumes ok: "db_ok db" and r: "r \<in> set (user_rows db)" "d_id row = d_id r"
    and w: "without (user_rows db) (d_id r) = us @ vs" and own: "d_group r = d_id r"
    and heir: "heir \<in> set (group_rows (us @ vs) (d_group r))" "d_id heir = h"
    and heirs: "heirs = map (\<lambda>d. \<lparr>k_id = d_id d, k_group = h, k_key = d_key d\<rparr>) (group_rows (us @ vs) (d_group r))"
    and ys: "order_ok (map (regroup (d_group r) h) us @ row # map (regroup (d_group r) h) vs)"
    and g: "d_group row \<in> d_group ` set (user_rows db) \<union> d_id ` set (user_rows db)"
  obtains db' where "write_placed row heirs act db = (None, db')" "db_ok db'"
    "map core (user_rows db') = map core (map (regroup (d_group r) h) us @ row # map (regroup (d_group r) h) vs)"
    "db_next db' = db_next db"
proof -
  let ?ks = "\<lparr>k_id = d_id row, k_group = d_group row, k_key = d_key row\<rparr> # heirs"
  let ?F = "key_fields ?ks (db_now db)"
  let ?rg = "regroup (d_group r) h"
  have okr: "order_ok (user_rows db)" using ok by (simp add: db_ok_def)
  note wf = order_ok_wf [OF okr]
  note s = without_split [OF wf w]
  have fresh: "h \<notin> d_group ` set (db_rows db)"
  proof
    assume "h \<in> d_group ` set (db_rows db)"
    then obtain e where e: "e \<in> set (db_rows db)" "d_group e = d_id heir" using heir(2) by auto
    have hm: "heir \<in> set (us @ vs)" "d_group heir = d_group r" using heir(1) by (auto simp: group_rows_def)
    then have hr: "heir \<in> set (user_rows db)" "d_group heir = d_group r" "d_id heir \<noteq> d_id r"
      using s(1,3) by (blast, simp, metis image_eqI)
    have "d_owner e = owner_user" using ok e hr(1) by (auto simp: db_ok_def)
    then have "e \<in> set (user_rows db)" using e(1) by (simp add: set_user_rows)
    then have "d_group heir = d_id heir" using order_ok_founder [OF okr] hr(1) e(2) by (auto simp: founder_def)
    then show False using hr own by simp
  qed
  have dom: "dom (db_names db) \<subseteq> d_group ` set (db_rows db)" using ok by (simp add: db_ok_def)
  then have hn: "db_names db h = None" using fresh by (metis domI subsetD not_Some_eq)
  obtain names where names: "rekey_name (d_id row, h) (db_names db) = Inr names"
      "dom names \<subseteq> d_group ` set (db_rows db) \<union> {h}"
  proof (cases "db_names db (d_id row)")
    case None
    then have "rekey_name (d_id row, h) (db_names db) = Inr (db_names db)" by (simp add: rekey_name_def)
    then show ?thesis by (rule that) (use dom in blast)
  next
    case (Some t)
    have "(d_id row, h) \<noteq> (0, 0)" using wf r by (auto simp: wf_order_def)
    then have "rekey_name (d_id row, h) (db_names db) = Inr ((db_names db)(d_id row := None, h \<mapsto> t))"
      using Some hn by (auto simp: rekey_name_def)
    then show ?thesis by (rule that) (use dom in auto)
  qed
  have gd: "distinct (map d_id (group_rows (us @ vs) (d_group r)))"
    using wf_order_filter [OF s(2), of "\<lambda>d. d_group d = d_group r"] by (simp add: group_rows_def wf_order_def)
  have dk: "distinct (map k_id ?ks)"
    using distinct_heirs [OF gd] s(1) r(2) by (auto simp: heirs group_rows_def)
  have ids: "k_id k \<in> d_id ` set (user_rows db)" if "k \<in> set ?ks" for k
    using that r s(3) by (auto simp: heirs group_rows_def)
  have Fr: "core (?F r) = core row" using r(2) by (simp add: key_fields_def core_def)
  have Fd: "core (?F d) = core (?rg d)" if d: "d \<in> set (us @ vs)" for d
  proof (cases "d_group d = d_group r")
    case True
    let ?k = "\<lparr>k_id = d_id d, k_group = h, k_key = d_key d\<rparr>"
    have "?k \<in> set ?ks" using d True by (auto simp: heirs group_rows_def)
    from find_key [OF dk this] show ?thesis using True by (simp add: key_fields_def core_def)
  next
    case False
    have "d_id d \<notin> k_id ` set ?ks"
    proof
      assume "d_id d \<in> k_id ` set ?ks"
      moreover have "d_id d \<noteq> d_id row" using s(1) d r(2) by (metis image_eqI)
      ultimately obtain e where "e \<in> set (us @ vs)" "d_group e = d_group r" "d_id e = d_id d"
        by (auto simp: heirs group_rows_def) blast+
      then show False using same_id [OF s(2)] d False by metis
    qed
    then have "?F d = d" using find_key_None [of "d_id d" ?ks] by (simp add: key_fields_def)
    then show ?thesis using False by (simp add: regroup_def)
  qed
  let ?ys = "map ?F us @ ?F r # map ?F vs"
  have core: "map core ?ys = map core (map ?rg us @ row # map ?rg vs)" using Fr Fd by simp
  have ysk: "order_ok ?ys" using order_ok_core [OF core] ys by simp
  have perm: "mset ?ys = mset (map ?F (user_rows db))"
    using perm_without [OF wf r(1) w] by simp
  have gs: "d_group y \<in> d_group ` set (user_rows db) \<union> d_id ` set (user_rows db)" if "y \<in> set ?ys" for y
  proof -
    have "d_group ` set ?ys = set (map d_group ?ys)" by (rule set_map [symmetric])
    also have "map d_group ?ys = map d_group (map ?rg us @ row # map ?rg vs)" by (rule core_map(2) [OF core])
    finally have "d_group y \<in> set (map d_group (map ?rg us @ row # map ?rg vs))" using that by auto
    moreover have "h \<in> d_id ` set (user_rows db)" using heir s(3) by (auto simp: group_rows_def)
    ultimately show ?thesis using g s(3) by auto
  qed
  have X: "{h} \<subseteq> d_group ` set ?ys"
  proof -
    have "heir \<in> set (us @ vs)" "d_group heir = d_group r" using heir(1) by (auto simp: group_rows_def)
    then have "h \<in> set (map d_group (map ?rg us @ row # map ?rg vs))" by force
    then show ?thesis using core_map(2) [OF core] by (metis empty_subsetI insert_subset set_map)
  qed
  obtain db1 where db1: "commit (move_dashboards ?ks (d_id row, h) act) db = (None, db1)" "db_ok db1"
      "user_rows db1 = ?ys" "db_next db1 = db_next db"
    by (rule commit_move [OF ok _ dk ids perm ysk gs names X]) auto
  have w1: "without (user_rows db1) (d_id (?F r)) = map ?F us @ map ?F vs"
    unfolding db1(3) by (rule without_mid) (use order_ok_wf [OF ysk] in simp)
  have c2: "map core (map ?F us @ row # map ?F vs) = map core (map ?rg us @ row # map ?rg vs)" using Fd by simp
  have "d_group row = d_group (?F r)" using Fr by (simp add: core_def)
  then have g1: "d_group row \<in> d_group ` set (user_rows db1) \<union> d_id ` set (user_rows db1)"
    unfolding db1(3) by simp
  obtain db2 where db2: "commit (update_dashboard row act) db1 = (None, db2)" "db_ok db2"
    "map core (user_rows db2) = map core (map ?F us @ row # map ?F vs)" "db_next db2 = db_next db1"
    by (rule commit_update [OF db1(2) _ _ w1 _ g1]) (use order_ok_core [OF c2] ys db1(3) r(2) in simp_all)
  have hd: "k_group (hd heirs) = h" "heirs \<noteq> []" using heir(1) by (cases "group_rows (us @ vs) (d_group r)"; simp add: heirs)+
  show thesis
    by (rule that [of db2]) (use db1 db2 hd c2 in \<open>simp_all add: write_placed_def then_step_def\<close>)
qed

section \<open>The branches of a placement\<close>

text \<open>
  What a placement reads is the order of the rows as they still are, whatever names were settled
  in between.
\<close>

definition reads :: "dash_db \<Rightarrow> dashboard list \<Rightarrow> bool" where
  "reads db ord \<longleftrightarrow> (\<exists>s. (\<forall>d. core (s d) = core d \<and> d_archived_at (s d) = d_archived_at d)
     \<and> ord = map s (user_rows db))"

lemma reads_core: "reads db ord \<Longrightarrow> map core ord = map core (user_rows db)"
  by (auto simp: reads_def)

lemma core_simps: "core a = core b \<longleftrightarrow> d_id a = d_id b \<and> d_group a = d_group b \<and> d_key a = d_key b"
  by (simp add: core_def)

lemma reads_wf: "reads db ord \<Longrightarrow> db_ok db \<Longrightarrow> order_ok ord"
  using order_ok_core [OF reads_core] by (simp add: db_ok_def)

lemma filter_map_cong: "(\<And>d. P (s d) = P d) \<Longrightarrow> filter P (map s xs) = map s (filter P xs)"
  by (induction xs) auto

lemma reads_split:
  assumes "reads db ord" and "filter P ord = us @ vs" and "\<And>d e. core d = core e \<Longrightarrow> P d = P e"
  obtains us' vs' where "filter P (user_rows db) = us' @ vs'" "map core us' = map core us" "map core vs' = map core vs"
proof -
  from assms(1) obtain s where s: "\<And>d. core (s d) = core d" "ord = map s (user_rows db)"
    by (auto simp: reads_def)
  have "filter P ord = map s (filter P (user_rows db))"
    unfolding s(2) by (rule filter_map_cong) (rule assms(3) [OF s(1)])
  then have "map s (filter P (user_rows db)) = us @ vs" using assms(2) by simp
  then obtain us' vs' where "filter P (user_rows db) = us' @ vs'" "us = map s us'" "vs = map s vs'"
    by (auto simp: map_eq_append_conv)
  with s(1) that show thesis by simp
qed

lemma reads_without:
  assumes "reads db ord" and "without ord i = us @ vs"
  obtains us' vs' where "without (user_rows db) i = us' @ vs'" "map core us' = map core us" "map core vs' = map core vs"
  by (rule reads_split [OF assms(1), of "\<lambda>d. d_id d \<noteq> i" us vs])
    (use assms(2) that in \<open>auto simp: without_def core_simps\<close>)

lemma key_ends_map: "key_before us = (if map d_key us = [] then [] else last (map d_key us))"
    "key_after us = (if map d_key us = [] then [] else hd (map d_key us))"
  by (auto simp: key_before_def key_after_def last_map hd_map)

lemma core_ends:
  assumes "map core us' = map core us" and "map core vs' = map core vs"
  shows "key_fits us' vs' k = key_fits us vs k" "map d_group us' = map d_group us" "map d_group vs' = map d_group vs"
proof -
  note m = core_map [OF assms(1)] core_map [OF assms(2)]
  have "key_before us' = key_before us" "key_after vs' = key_after vs"
    unfolding key_ends_map m by simp_all
  then show "key_fits us' vs' k = key_fits us vs k" by (simp add: key_fits_def)
qed (use core_map assms in blast)+

text \<open>
  The row a placement moves: row \<open>r\<close> of the tables as it was read, perhaps with a new title.
\<close>

definition moves :: "dash_db \<Rightarrow> dashboard list \<Rightarrow> dashboard \<Rightarrow> dashboard \<Rightarrow> bool" where
  "moves db ord row r \<longleftrightarrow> db_ok db \<and> reads db ord \<and> r \<in> set (user_rows db) \<and> core row = core r"

lemma movesD:
  assumes "moves db ord row r"
  shows "db_ok db" "reads db ord" "r \<in> set (user_rows db)" "d_id row = d_id r" "d_group row = d_group r"
    "d_key row = d_key r" "wf_order (user_rows db)" "order_ok (user_rows db)" "wf_order ord"
  using assms reads_wf order_ok_wf by (auto simp: moves_def core_def db_ok_def)

lemma core_groups:
  assumes "map core xs = map core ys" shows "d_group ` set xs = d_group ` set ys" "d_id ` set xs = d_id ` set ys"
proof -
  note m = core_map [OF assms]
  show "d_group ` set xs = d_group ` set ys" "d_id ` set xs = d_id ` set ys"
    using arg_cong [OF m(1), of set] arg_cong [OF m(2), of set] by simp_all
qed

lemma relabel_inj: "h \<notin> A \<Longrightarrow> inj_on (\<lambda>x. if x = a then h else x) A"
  by (auto simp: inj_on_def)

lemma group_rows_Nil: "group_rows xs g = [] \<longleftrightarrow> g \<notin> d_group ` set xs"
  by (auto simp: group_rows_def filter_empty_conv)

text \<open>Nothing moves: at most the title.\<close>

lemma place_none:
  assumes mv: "moves db ord row r"
  obtains db' where "commit (update_dashboard row act) db = (None, db')" "db_ok db'"
    "map core (user_rows db') = map core (user_rows db)" "db_next db' = db_next db"
proof -
  note m = movesD [OF mv]
  obtain us vs where raw: "user_rows db = us @ r # vs" using m(3) by (meson split_list)
  have w: "without (user_rows db) (d_id r) = us @ vs" using without_mid m(7) raw by metis
  have c: "map core (us @ row # vs) = map core (user_rows db)" using raw m(4,5,6) by (simp add: core_def)
  have "order_ok (us @ row # vs)" using order_ok_core [OF c] m(8) by simp
  moreover have "d_group row \<in> d_group ` set (user_rows db) \<union> d_id ` set (user_rows db)" using m(3,5) by auto
  ultimately obtain db' where "commit (update_dashboard row act) db = (None, db')" "db_ok db'"
      "map core (user_rows db') = map core (us @ row # vs)" "db_next db' = db_next db"
    by (rule commit_update [OF m(1,3,4) w])
  then show thesis using that c by simp
qed

text \<open>A new key in the row's own group.\<close>

lemma place_key:
  assumes mv: "moves db ord row r" and w: "without ord (d_id row) = us @ vs" and fits: "key_fits us vs key"
    and c: "contig (map d_group us @ d_group row # map d_group vs)"
  obtains db' where "commit (update_dashboard (row\<lparr>d_key := key\<rparr>) act) db = (None, db')" "db_ok db'"
    "map core (user_rows db') = map core (us @ row\<lparr>d_key := key\<rparr> # vs)" "db_next db' = db_next db"
proof -
  note m = movesD [OF mv]
  obtain us' vs' where w': "without (user_rows db) (d_id r) = us' @ vs'"
      and e: "map core us' = map core us" "map core vs' = map core vs"
    using reads_without [OF m(2) w] m(4) by metis
  let ?row = "row\<lparr>d_key := key\<rparr>"
  have "order_ok (us' @ ?row # vs')"
    by (rule order_ok_stay [OF m(8,3) w']) (use fits c m core_ends [OF e] in simp_all)
  moreover have "d_group ?row \<in> d_group ` set (user_rows db) \<union> d_id ` set (user_rows db)" using m(3,5) by auto
  ultimately obtain db' where "commit (update_dashboard ?row act) db = (None, db')" "db_ok db'"
      "map core (user_rows db') = map core (us' @ ?row # vs')" "db_next db' = db_next db"
    using commit_update [OF m(1,3) _ w', of ?row act] m(4) by auto
  then show thesis using that e by simp
qed

text \<open>A new key and a new group, with the heirs the row leaves.\<close>

lemma place_regroup:
  assumes mv: "moves db ord row r" and w: "without ord (d_id row) = us @ vs" and fits: "key_fits us vs key"
    and g: "g = d_id r \<and> boundary (map d_group us) (map d_group vs) \<and> group_rows (us @ vs) (d_group r) \<noteq> []
      \<or> g \<noteq> d_group r \<and> g \<in> d_group ` set (us @ vs) \<and> contig (map d_group us @ g # map d_group vs)"
  obtains db' h where "write_placed (row\<lparr>d_group := g, d_key := key\<rparr>) (hand_over ord row) act db = (None, db')"
    "db_ok db'" "db_next db' = db_next db"
    "map core (user_rows db') = map core (map (regroup (d_group r) h) us
        @ row\<lparr>d_group := g, d_key := key\<rparr> # map (regroup (d_group r) h) vs)"
    "h = d_group r \<or> h \<in> d_id ` set (us @ vs) \<and> h \<notin> d_group ` set (us @ vs) \<and> d_group r = d_id r"
proof -
  note m = movesD [OF mv]
  obtain us' vs' where w': "without (user_rows db) (d_id r) = us' @ vs'"
      and e: "map core us' = map core us" "map core vs' = map core vs"
    using reads_without [OF m(2) w] m(4) by metis
  have e2: "map core (us' @ vs') = map core (us @ vs)" using e by simp
  note ends = core_ends [OF e]
  note s = without_split [OF m(7) w']
  let ?row = "row\<lparr>d_group := g, d_key := key\<rparr>"
  have rowid: "d_id ?row = d_id r" "d_group ?row = g" "d_key ?row = key" using m(4) by auto
  have fits': "key_fits us' vs' (d_key ?row)" using fits ends by simp
  have gs: "d_group ` set (us @ vs) \<subseteq> d_group ` set (user_rows db)"
    unfolding core_groups(1) [OF e2, symmetric] by (rule image_mono [OF s(3)])
  have gin: "d_group ?row \<in> d_group ` set (user_rows db) \<union> d_id ` set (user_rows db)"
    using g m(3) gs rowid(2) by auto
  have gset: "d_group ?row = d_id r \<or> (\<exists>x \<in> set (user_rows db). d_group x = d_group ?row)"
  proof (cases "g = d_id r")
    case False
    then have "g \<in> d_group ` set (user_rows db)" using g gs by blast
    then show ?thesis using rowid(2) by auto
  qed (use rowid(2) in simp)
  have own: "g \<notin> d_group ` set (us' @ vs')" if gi: "g = d_id r" "d_group r \<noteq> d_id r"
  proof
    assume "g \<in> d_group ` set (us' @ vs')"
    then obtain x where "x \<in> set (user_rows db)" "d_group x = d_id r" using gi(1) s(3) by auto
    then show False using order_ok_founder [OF m(8)] m(3) gi(2) by (auto simp: founder_def)
  qed
  have wfc: "contig (map d_group us' @ map d_group vs')" using s(2) by (simp add: wf_order_def)
  show thesis
  proof (cases "hand_over ord row = []")
    case True
    then have n: "d_group r \<noteq> d_id r \<or> group_rows (us @ vs) (d_group r) = []"
      using hand_over_Nil w m(4,5) by metis
    have n': "d_group r \<noteq> d_id r \<or> group_rows (us' @ vs') (d_group r) = []"
      using n unfolding group_rows_Nil core_groups(1) [OF e2] .
    have c: "contig (map d_group us' @ d_group ?row # map d_group vs')"
    proof (cases "g = d_id r \<and> boundary (map d_group us) (map d_group vs) \<and> group_rows (us @ vs) (d_group r) \<noteq> []")
      case True
      have "boundary (map d_group us') (map d_group vs')" using True ends by simp
      moreover have "g \<notin> set (map d_group us' @ map d_group vs')" using own True n by auto
      ultimately show ?thesis using contig_new_label [OF wfc] rowid(2) by simp
    next
      case False
      then have "contig (map d_group us @ g # map d_group vs)" using g by argo
      then show ?thesis using ends rowid(2) by simp
    qed
    have ok: "order_ok (us' @ ?row # vs')"
      by (rule order_ok_move [OF m(8,3) w' fits' rowid(1) c gset n'])
    obtain db' where u: "commit (update_dashboard ?row act) db = (None, db')" "db_ok db'"
        "map core (user_rows db') = map core (us' @ ?row # vs')" "db_next db' = db_next db"
      by (rule commit_update [OF m(1,3) rowid(1) w' ok gin])
    have same: "regroup (d_group r) (d_group r) d = d" for d by (simp add: regroup_def)
    show thesis
      by (rule that [of db' "d_group r"]) (use u True e in \<open>simp_all add: write_placed_def same\<close>)
  next
    case False
    then obtain heir where heir: "heir \<in> set (group_rows (us @ vs) (d_group r))" "d_group r = d_id r"
        "hand_over ord row = map (\<lambda>d. \<lparr>k_id = d_id d, k_group = d_id heir, k_key = d_key d\<rparr>)
           (group_rows (us @ vs) (d_group r))"
      using hand_over_eq [of ord row] w m(4,5) by metis
    let ?h = "d_id heir"
    let ?rg = "regroup (d_group r) ?h"
    have gr: "map core (group_rows (us' @ vs') (d_group r)) = map core (group_rows (us @ vs) (d_group r))"
    proof -
      have "filter (\<lambda>d. d_group d = gg) zs = filter ((\<lambda>c. fst (snd c) = gg) \<circ> core) zs" for zs gg
        by (simp add: core_def comp_def)
      then have "map core (group_rows zs gg) = filter (\<lambda>c. fst (snd c) = gg) (map core zs)" for zs gg
        by (simp add: group_rows_def filter_map)
      then show ?thesis using e2 by simp
    qed
    obtain heir' where heir': "heir' \<in> set (group_rows (us' @ vs') (d_group r))" "core heir' = core heir"
    proof -
      have "core heir \<in> core ` set (group_rows (us' @ vs') (d_group r))"
        using heir(1) arg_cong [OF gr, of set] by simp
      then show thesis using that by (metis imageE)
    qed
    have heirs: "hand_over ord row = map (\<lambda>d. \<lparr>k_id = d_id d, k_group = ?h, k_key = d_key d\<rparr>)
           (group_rows (us' @ vs') (d_group r))"
    proof -
      have e: "map (\<lambda>d. \<lparr>k_id = d_id d, k_group = ?h, k_key = d_key d\<rparr>) zs
          = map (\<lambda>(i, g, k). \<lparr>k_id = i, k_group = ?h, k_key = k\<rparr>) (map core zs)" for zs
        by (simp add: core_def)
      show ?thesis by (simp only: heir(3) e gr)
    qed
    have hm: "heir' \<in> set (us' @ vs')" "d_group heir' = d_group r" "d_id heir' = ?h"
      using heir' by (auto simp: group_rows_def core_def)
    have fresh: "?h \<notin> d_group ` set (us' @ vs')"
    proof
      assume "?h \<in> d_group ` set (us' @ vs')"
      then obtain x where "x \<in> set (user_rows db)" "d_group x = d_id heir'" using s(3) hm(3) by auto
      then have "d_group heir' = d_id heir'"
        using order_ok_founder [OF m(8)] hm(1) s(3) by (auto simp: founder_def)
      moreover have "d_id heir' \<noteq> d_id r" using hm(1) s(1) by (metis image_eqI)
      ultimately show False using hm(2) heir(2) by simp
    qed
    have c: "contig (map d_group (map ?rg us') @ d_group ?row # map d_group (map ?rg vs'))"
    proof (cases "g = d_id r \<and> boundary (map d_group us) (map d_group vs) \<and> group_rows (us @ vs) (d_group r) \<noteq> []")
      case True
      have "boundary (map d_group us') (map d_group vs')" using True ends by simp
      then have "boundary (map d_group (map ?rg us')) (map d_group (map ?rg vs'))"
        using fresh by (rule boundary_regroup)
      moreover have "contig (map d_group (map ?rg us') @ map d_group (map ?rg vs'))"
        using wf_regroup [OF s(2) fresh, of "d_group r"] by (simp add: wf_order_def)
      moreover have "?h \<noteq> d_id r" using hm(1,3) s(1) by (metis image_eqI)
      then have "g \<notin> set (map d_group (map ?rg us') @ map d_group (map ?rg vs'))"
        using True heir(2) by (auto split: if_splits)
      ultimately show ?thesis using contig_new_label rowid(2) by metis
    next
      case False
      then have g': "g \<noteq> d_group r" "g \<in> d_group ` set (us' @ vs')" "contig (map d_group us' @ g # map d_group vs')"
        unfolding core_groups(1) [OF e2] ends(2,3) using g by argo+
      let ?l = "\<lambda>x. if x = d_group r then ?h else x"
      have "contig (map ?l (map d_group us' @ g # map d_group vs'))"
      proof (rule contig_map_inj [OF g'(3)], rule relabel_inj)
        have "set (map d_group us' @ g # map d_group vs') = d_group ` set (us' @ vs')"
          using g'(2) by (simp add: image_Un insert_absorb)
        then show "?h \<notin> set (map d_group us' @ g # map d_group vs')" using fresh by simp
      qed
      then show ?thesis using g'(1) rowid(2) by (simp add: comp_def)
    qed
    have gset2: "d_group ?row = d_id r \<or> (\<exists>x \<in> set (user_rows db). d_group x = d_group ?row) \<and> d_group ?row \<noteq> d_group r"
      using gset g rowid(2) by auto
    have ok: "order_ok (map ?rg us' @ ?row # map ?rg vs')"
      by (rule order_ok_hand_over [OF m(8,3) w' fits' rowid(1) c gset2 heir(2) hm(1,3,2)])
    obtain db' where u: "write_placed ?row (hand_over ord row) act db = (None, db')" "db_ok db'"
        "map core (user_rows db') = map core (map ?rg us' @ ?row # map ?rg vs')" "db_next db' = db_next db"
      by (rule write_placed_heirs [OF m(1,3) rowid(1) w' heir(2) heir'(1) hm(3) heirs ok gin])
    have rg: "map core (map ?rg zs) = map (\<lambda>(i, g, k). (i, if g = d_group r then ?h else g, k)) (map core zs)" for zs
      by (simp add: core_def)
    have "map core (user_rows db') = map core (map ?rg us @ ?row # map ?rg vs)"
      unfolding u(3) map_append list.map rg e ..
    moreover have "?h \<in> d_id ` set (us @ vs) \<and> ?h \<notin> d_group ` set (us @ vs)"
      using heir(1) fresh core_groups(1) [OF e2] by (auto simp: group_rows_def)
    ultimately show thesis using that [of db' ?h] u heir(2) by blast
  qed
qed

text \<open>The whole group moves, the moved row's key first.\<close>

lemma key_fields_perm:
  assumes "set ks' = set ks" and "distinct (map k_id ks')" and "distinct (map k_id ks)"
  shows "key_fields ks' now = key_fields ks now"
proof
  fix d :: dashboard
  have "find (\<lambda>k. k_id k = d_id d) ks' = find (\<lambda>k. k_id k = d_id d) ks"
  proof (cases "\<exists>k \<in> set ks. k_id k = d_id d")
    case True
    then obtain k where k: "k \<in> set ks" "k_id k = d_id d" by blast
    then show ?thesis using find_key [OF assms(2), of k] find_key [OF assms(3) k(1)] assms(1) by simp
  next
    case False
    then show ?thesis using find_key_None [of "d_id d"] assms(1) by (metis imageE)
  qed
  then show "key_fields ks' now d = key_fields ks now d" by (simp add: key_fields_def)
qed

lemma key_fields_zip:
  assumes "distinct (map d_id ms)" and "length keys = length ms"
    and "ks = map2 (\<lambda>m k. \<lparr>k_id = d_id m, k_group = g, k_key = k\<rparr>) ms keys"
  shows "map d_key (map (key_fields ks now) ms) = keys" and "\<forall>m \<in> set ms. d_group (key_fields ks now m) = g"
    and "map k_id ks = map d_id ms"
proof -
  show ids: "map k_id ks = map d_id ms"
    using assms(2) by (intro nth_equalityI) (simp_all add: assms(3))
  then have dk: "distinct (map k_id ks)" using assms(1) by simp
  have at: "key_fields ks now (ms ! j) = (ms ! j)\<lparr>d_group := g, d_key := keys ! j, d_updated_at := now\<rparr>"
    if "j < length ms" for j
  proof -
    let ?k = "\<lparr>k_id = d_id (ms ! j), k_group = g, k_key = keys ! j\<rparr>"
    have "?k = ks ! j" "j < length ks" using that assms(2) by (simp_all add: assms(3))
    then have "?k \<in> set ks" by (metis nth_mem)
    from find_key [OF dk this] show ?thesis by (simp add: key_fields_def)
  qed
  then show "map d_key (map (key_fields ks now) ms) = keys"
    using assms(2) by (intro nth_equalityI) simp_all
  show "\<forall>m \<in> set ms. d_group (key_fields ks now m) = g" using at by (auto simp: in_set_conv_nth)
qed

lemma swap_first:
  assumes "i < length ks" and "ks' = ks[0 := ks ! i, i := ks ! 0]"
  shows "mset ks' = mset ks" and "ks' ! 0 = ks ! i" and "ks' \<noteq> []"
proof -
  have sw: "ks' = (if i = 0 then ks else ks[i := ks ! 0, 0 := ks ! i])"
    using assms(2) list_update_swap [of i 0 ks] by simp
  then show "mset ks' = mset ks" using mset_swap [of 0 ks i] assms(1) by (cases "i = 0"; cases ks) auto
  have "0 < length ks" using assms(1) by linarith
  then show "ks' ! 0 = ks ! i" using sw by (cases "i = 0") simp_all
  show "ks' \<noteq> []" using assms by auto
qed

lemma core_keys:
  assumes "map core us' = map core us"
  shows "key_before us' = key_before us" "key_after us' = key_after us"
  unfolding key_ends_map core_map(3) [OF assms] by (rule refl)+

lemma place_block:
  assumes mv: "moves db ord row r" and w: "without_group ord (d_group row) = us @ vs"
    and b: "boundary (map d_group us) (map d_group vs)"
    and sp: "spread (key_before us) (key_after vs) (int (length (group_rows ord (d_group row)))) = Inr keys"
    and ks: "ks = map2 (\<lambda>m k. \<lparr>k_id = d_id m, k_group = d_group row, k_key = k\<rparr>) (group_rows ord (d_group row)) keys"
    and i: "i = nat (index_func (\<lambda>k. k_id k = d_id row) ks)" and ks': "ks' = ks[0 := ks ! i, i := ks ! 0]"
  obtains db' where "commit (move_dashboards ks' (0, 0) act) db = (None, db')" "db_ok db'"
    "map core (user_rows db') = map core us @ map (\<lambda>k. (k_id k, k_group k, k_key k)) ks @ map core vs"
    "\<exists>r'. moves db' (user_rows db') (row\<lparr>d_key := k_key (hd ks')\<rparr>) r'"
    "db_next db' = db_next db"
proof -
  note m = movesD [OF mv]
  let ?g = "d_group row"
  obtain us' vs' where w': "filter (\<lambda>d. d_group d \<noteq> ?g) (user_rows db) = us' @ vs'"
      and e: "map core us' = map core us" "map core vs' = map core vs"
    by (rule reads_split [OF m(2), of "\<lambda>d. d_group d \<noteq> ?g" us vs])
      (use w in \<open>auto simp: without_group_def core_simps\<close>)
  obtain ms where gm: "group_rows (user_rows db) ?g = ms" "map core ms = map core (group_rows ord ?g)"
    by (rule reads_split [OF m(2), of "\<lambda>d. d_group d = ?g" "group_rows ord ?g" "[]"])
      (auto simp: group_rows_def core_simps)
  have ids: "map d_id ms = map d_id (group_rows ord ?g)" by (rule core_map(1) [OF gm(2)])
  have len: "length ms = length (group_rows ord ?g)" using ids by (metis length_map)
  have klen: "length keys = length ms" using spread_Inr [OF sp] len by simp
  have ks2: "ks = map2 (\<lambda>m k. \<lparr>k_id = d_id m, k_group = ?g, k_key = k\<rparr>) ms keys"
    using ids klen len by (intro nth_equalityI) (auto simp: ks dest: arg_cong [where f = "\<lambda>l. l ! _"] simp: list_eq_iff_nth_eq)
  have dm: "distinct (map d_id ms)"
    using wf_order_filter [OF m(7), of "\<lambda>d. d_group d = ?g"] gm(1) by (simp add: wf_order_def group_rows_def)
  let ?F = "key_fields ks (db_now db)"
  note z = key_fields_zip [OF dm klen ks2]
  have rin: "r \<in> set ms" using m(3,5) gm(1) by (auto simp: group_rows_def)
  have idx: "i < length ks" "k_id (ks ! i) = d_id row"
  proof -
    have "d_id row \<in> set (map k_id ks)" unfolding z(3) using rin m(4) by simp
    then have ex: "\<exists>k \<in> set ks. k_id k = d_id row" by auto
    let ?t = "takeWhile (\<lambda>k. k_id k \<noteq> d_id row) ks"
    have "length ?t < length ks"
    proof (rule ccontr)
      assume "\<not> length ?t < length ks"
      then have "?t = ks" by (metis takeWhile_eq_take take_all not_less)
      then show False using ex by (metis (mono_tags, lifting) set_takeWhileD)
    qed
    moreover have "i = length ?t" using ex by (simp add: i index_func_split)
    ultimately show "i < length ks" "k_id (ks ! i) = d_id row"
      using nth_length_takeWhile [of "\<lambda>k. k_id k \<noteq> d_id row" ks] by auto
  qed
  note sw = swap_first [OF idx(1) ks']
  have setk: "set ks' = set ks" by (rule mset_eq_setD [OF sw(1)])
  have dk: "distinct (map k_id ks)" using z(3) dm by simp
  have dk': "distinct (map k_id ks')"
    using dk sw(1) by (metis mset_map mset_eq_imp_distinct_iff)
  have F': "key_fields ks' (db_now db) = ?F" by (rule key_fields_perm [OF setk dk' dk])
  let ?ys = "us' @ map ?F ms @ vs'"
  note ends = core_ends [OF e]
  have sp': "spread (key_before us') (key_after vs') (int (length (group_rows (user_rows db) ?g))) = Inr keys"
    using sp gm(1) len unfolding core_keys(1) [OF e(1)] core_keys(2) [OF e(2)] by simp
  have ok: "order_ok ?ys"
    by (rule order_ok_block [OF m(8) _ _ sp'])
      (use w' b ends gm(1) z in \<open>auto simp: without_group_def\<close>)
  have out: "\<forall>d \<in> set (us' @ vs'). ?F d = d"
  proof
    fix d assume "d \<in> set (us' @ vs')"
    then have "d \<in> set (user_rows db)" "d_group d \<noteq> ?g" unfolding w' [symmetric] by auto
    moreover have "\<forall>x \<in> set ms. x \<in> set (user_rows db) \<and> d_group x = ?g"
      using gm(1) by (auto simp: group_rows_def)
    ultimately have "d_id d \<notin> d_id ` set ms" using same_id [OF m(7)] by (metis imageE)
    then have "d_id d \<notin> k_id ` set ks" using z(3) by (metis set_map)
    then show "?F d = d" using find_key_None [of "d_id d" ks] by (simp add: key_fields_def)
  qed
  have perm: "mset ?ys = mset (map (key_fields ks' (db_now db)) (user_rows db))"
  proof -
    have "mset (user_rows db) = mset (filter (\<lambda>d. d_group d = ?g) (user_rows db))
        + mset (filter (\<lambda>d. \<not> d_group d = ?g) (user_rows db))"
      unfolding mset_filter by (rule multiset_partition)
    then have p: "mset (user_rows db) = mset (us' @ ms @ vs')"
      using w' gm(1) [unfolded group_rows_def] by (simp del: mset_filter)
    have "mset (map ?F (user_rows db)) = mset (map ?F (us' @ ms @ vs'))" using p by (metis mset_map)
    moreover have "map ?F us' = us'" "map ?F vs' = vs'" using out by (auto intro!: map_idI)
    ultimately show ?thesis unfolding F' by simp
  qed
  have gs: "d_group y \<in> d_group ` set (user_rows db) \<union> d_id ` set (user_rows db)" if "y \<in> set ?ys" for y
  proof (cases "y \<in> set (us' @ vs')")
    case True
    then have "y \<in> set (user_rows db)" unfolding w' [symmetric] by simp
    then show ?thesis by blast
  next
    case False
    then have "d_group y = d_group r" using that z(2) m(5) by auto
    then show ?thesis using m(3) by simp
  qed
  have kin: "k_id k \<in> d_id ` set (user_rows db)" if "k \<in> set ks'" for k
  proof -
    have "k_id k \<in> set (map k_id ks)" using that setk by simp
    then show ?thesis unfolding z(3) using gm(1) by (auto simp: group_rows_def)
  qed
  have rk: "rekey_name (0, 0) (db_names db) = Inr (db_names db)"
    and dom: "dom (db_names db) \<subseteq> d_group ` set (db_rows db) \<union> {}"
    using m(1) by (auto simp: rekey_name_def db_ok_def)
  obtain db' where c: "commit (move_dashboards ks' (0, 0) act) db = (None, db')" "db_ok db'"
      "user_rows db' = ?ys" "db_next db' = db_next db"
    by (rule commit_move [OF m(1) sw(3) dk' kin perm ok gs rk dom]) auto
  have kc: "map core (map ?F ms) = map (\<lambda>k. (k_id k, k_group k, k_key k)) ks"
  proof (rule nth_equalityI)
    fix j assume "j < length (map core (map ?F ms))"
    then have j: "j < length ms" by simp
    have "map d_key (map ?F ms) ! j = keys ! j" using z(1) by simp
    then show "map core (map ?F ms) ! j = map (\<lambda>k. (k_id k, k_group k, k_key k)) ks ! j"
      using j klen z(2) by (simp add: ks2 core_def)
  qed (simp add: ks2 klen)
  have "hd ks' = ks ! i" using sw by (simp add: hd_conv_nth)
  moreover have "k_group (ks ! i) = ?g" using idx(1) by (simp add: ks2)
  ultimately have "core (row\<lparr>d_key := k_key (hd ks')\<rparr>) = core (?F r)"
    using find_key [OF dk nth_mem [OF idx(1)]] idx(2) m(4) by (auto simp: core_def key_fields_def)
  moreover have "?F r \<in> set (user_rows db')" using c(3) rin by simp
  moreover have "reads db' (user_rows db')" unfolding reads_def by (rule exI [of _ id]) simp
  ultimately have "moves db' (user_rows db') (row\<lparr>d_key := k_key (hd ks')\<rparr>) (?F r)"
    using c(2) by (simp add: moves_def)
  moreover have "map core (user_rows db') = map core us @ map (\<lambda>k. (k_id k, k_group k, k_key k)) ks @ map core vs"
    using c(3) kc e by simp
  ultimately show thesis using that [of db'] c by blast
qed

section \<open>Every placement\<close>

text \<open>The errors of the tables themselves, which a placement alone in its process never meets.\<close>

fun store_error :: "place_error \<Rightarrow> bool" where
  "store_error KeyConflict = True"
| "store_error (UnknownId i) = True"
| "store_error (RekeyFailed g) = True"
| "store_error ParkFailed = True"
| "store_error RaceLost = True"
| "store_error _ = False"

lemma with_key_error_plain: "with_key_error x = Inl e \<Longrightarrow> \<not> store_error e"
  by (cases x) auto

lemma refuse_archived_plain: "refuse_archived_after d = Some e \<Longrightarrow> \<not> store_error e"
  by (auto simp: refuse_archived_after_def split: if_splits)

lemma key_in_group_plain: "key_in_group ord self g after = Inl e \<Longrightarrow> \<not> store_error e"
proof -
  assume k: "key_in_group ord self g after = Inl e"
  show ?thesis
  proof (cases "group_rows (without ord self) g = []")
    case True
    then show ?thesis using k with_key_error_plain unfolding key_in_group_def Let_def
      by (auto split: option.splits if_splits)
  next
    case False
    consider "after = None" | "after = Some 0" | a where "after = Some a" "a \<noteq> 0" by (cases after) auto
    then show ?thesis
    proof cases
      case 1
      then show ?thesis using k with_key_error_plain key_in_group_last [OF False refl] by metis
    next
      case 2
      then show ?thesis using k with_key_error_plain key_in_group_first [OF False refl refl] by metis
    next
      case 3
      then show ?thesis using k with_key_error_plain unfolding 3(1) key_in_group_after [OF False refl 3(2)]
        by (simp only: split: if_split_asm) auto
    qed
  qed
qed

lemma key_after_group_plain: "key_after_group ord self after = Inl e \<Longrightarrow> \<not> store_error e"
  using with_key_error_plain refuse_archived_plain unfolding key_after_group_def Let_def
  by (auto split: option.splits if_splits)

lemma move_group_to_plain: "move_group_to ord g t = Inl e \<Longrightarrow> \<not> store_error e"
  unfolding move_group_to_def Let_def
  by (cases "with_key_error (spread (if t > 0 then d_key (without_group ord g ! nat (t - 1)) else [])
      (if t < int (length (without_group ord g)) then d_key (without_group ord g ! nat t) else [])
      (int (length (group_rows ord g))))") (auto split: if_splits dest: with_key_error_plain)

lemma move_group_plain: "move_group ord g a = Inl e \<Longrightarrow> \<not> store_error e"
  using move_group_to_plain refuse_archived_plain unfolding move_group_def
  by (auto split: option.splits if_splits)

text \<open>
  A sound outcome: sound tables and, without an error, rows left in the groups \<open>gs\<close>; a refusal
  is not the tables' own and leaves them alone.
\<close>

definition sound_step :: "dash_db \<Rightarrow> int set \<Rightarrow> place_error option \<times> dash_db \<Rightarrow> bool" where
  "sound_step db gs res \<longleftrightarrow> (case res of (e, db') \<Rightarrow> db_ok db' \<and> db_next db' = db_next db
     \<and> (case e of None \<Rightarrow> gs \<subseteq> d_group ` set (user_rows db') | Some x \<Rightarrow> \<not> store_error x \<and> db' = db))"

lemma sound_fail: "db_ok db \<Longrightarrow> \<not> store_error e \<Longrightarrow> sound_step db gs (fail_step e db)"
  by (simp add: sound_step_def fail_step_def)

lemma sound_stay:
  assumes mv: "moves db ord row r" and gs: "gs \<subseteq> {d_group row}"
  shows "sound_step db gs (commit (update_dashboard row act) db)"
proof -
  note m = movesD [OF mv]
  obtain db' where u: "commit (update_dashboard row act) db = (None, db')" "db_ok db'"
      "map core (user_rows db') = map core (user_rows db)" "db_next db' = db_next db"
    by (rule place_none [OF mv])
  have "gs \<subseteq> d_group ` set (user_rows db')" unfolding core_groups(1) [OF u(3)] using gs m(3,5) by auto
  then show ?thesis using u by (simp add: sound_step_def)
qed

lemma core_in_groups: "map core xs = map core (us @ row # vs) \<Longrightarrow> d_group row \<in> d_group ` set xs"
  using core_groups(1) [of xs "us @ row # vs"] by simp

lemma other_members:
  assumes "moves db ord row r" and "group_rows (without ord (d_id row)) g = []" and "g = d_group row"
  obtains us x vs where "ord = us @ x # vs" "d_id x = d_id row" "d_group x = g"
proof -
  note m = movesD [OF assms(1)]
  have "core r \<in> core ` set ord" using reads_core [OF m(2)] m(3) by (metis image_eqI set_map)
  then obtain x where x: "x \<in> set ord" "core x = core r" by auto
  then obtain us vs where "ord = us @ x # vs" by (meson split_list)
  then show thesis using that x(2) m(4,5) assms(3) by (auto simp: core_def)
qed

text \<open>\<open>keyInGroup\<close> for the row's own group: it lands beside a tab, or stays alone where it is.\<close>

lemma key_in_own_group:
  assumes mv: "moves db ord row r" and key: "key_in_group ord (d_id row) (d_group row) after = Inr k"
  obtains us vs where "without ord (d_id row) = us @ vs" "key_fits us vs k"
    "contig (map d_group us @ d_group row # map d_group vs)"
proof -
  note m = movesD [OF mv]
  show thesis
  proof (cases "group_rows (without ord (d_id row)) (d_group row) = []")
    case True
    obtain us x vs where o: "ord = us @ x # vs" "d_id x = d_id row" "d_group x = d_group row"
      by (rule other_members [OF mv True refl])
    note k = key_in_group_sole [OF m(9) True o(1,2) key]
    have "contig (map d_group us @ d_group row # map d_group vs)" using m(9) o by (simp add: wf_order_def)
    then show thesis using that k by blast
  next
    case False
    obtain us vs where p: "without ord (d_id row) = us @ vs" "key_fits us vs k" "beside (d_group row) us vs"
      using key_in_group_place [OF m(9) False key] by blast
    have "contig (map d_group (us @ vs))"
      using without_split(2) [OF m(9) p(1)] by (simp add: wf_order_def)
    then show thesis using that p contig_beside by blast
  qed
qed

lemma sound_own_group:
  assumes mv: "moves db ord row r" and key: "key_in_group ord (d_id row) (d_group row) after = Inr k"
    and gs: "gs \<subseteq> {d_group row}"
  shows "sound_step db gs (commit (update_dashboard (row\<lparr>d_key := k\<rparr>) act) db)"
proof -
  obtain us vs where p: "without ord (d_id row) = us @ vs" "key_fits us vs k"
      "contig (map d_group us @ d_group row # map d_group vs)"
    by (rule key_in_own_group [OF mv key])
  show ?thesis
    by (rule place_key [OF mv p, of act]) (use gs core_in_groups in \<open>fastforce simp: sound_step_def\<close>)
qed

lemma join_members:
  assumes mv: "moves db ord row r" and live: "refuse_group ord g = None" and ne: "g \<noteq> d_group row"
  shows "group_rows (without ord (d_id row)) g \<noteq> []"
proof -
  note m = movesD [OF mv]
  obtain x where x: "x \<in> set ord" "d_group x = g"
    using live by (auto simp: refuse_group_def list_ex_iff split: if_splits)
  have "d_id x \<noteq> d_id row"
  proof
    assume i: "d_id x = d_id row"
    have "core r \<in> core ` set ord" using reads_core [OF m(2)] m(3) by (metis image_eqI set_map)
    then obtain y where "y \<in> set ord" "core y = core r" by auto
    then have "y = x" using same_id [OF m(9)] x(1) i m(4) by (simp add: core_def)
    then show False using \<open>core y = core r\<close> x(2) ne m(5) by (simp add: core_def)
  qed
  then show ?thesis using x by (auto simp: group_rows_def without_def filter_empty_conv)
qed

lemma beside_in: "beside g us vs \<Longrightarrow> g \<in> d_group ` set (us @ vs)"
  by (auto simp: beside_def)

lemma sound_join:
  assumes mv: "moves db ord row r" and live: "refuse_group ord g = None" and ne: "g \<noteq> d_group row"
    and key: "key_in_group ord (d_id row) g after = Inr k"
  shows "sound_step db {} (write_placed (row\<lparr>d_group := g, d_key := k\<rparr>) (hand_over ord row) act db)"
proof -
  note m = movesD [OF mv]
  obtain us vs where p: "without ord (d_id row) = us @ vs" "key_fits us vs k" "beside g us vs"
    using key_in_group_place [OF m(9) join_members [OF mv live ne] key] by blast
  have "contig (map d_group (us @ vs))" using without_split(2) [OF m(9) p(1)] by (simp add: wf_order_def)
  then have "g \<noteq> d_group r \<and> g \<in> d_group ` set (us @ vs) \<and> contig (map d_group us @ g # map d_group vs)"
    using contig_beside p(3) beside_in ne m(5) by simp
  then show ?thesis using place_regroup [OF mv p(1,2), of g act "sound_step db {}
      (write_placed (row\<lparr>d_group := g, d_key := k\<rparr>) (hand_over ord row) act db)"]
    by (auto simp: sound_step_def)
qed

lemma sound_leave:
  assumes mv: "moves db ord row r"
    and gs: "gs \<subseteq> (if group_rows (without ord (d_id row)) (d_group row) = [] then {d_group row} else {})"
  shows "sound_step db gs (leave_group ord row after act db)"
proof -
  note m = movesD [OF mv]
  define after1 where "after1 = (if after = Some (d_id row) then None else after)"
  define others where "others = group_rows (without ord (d_id row)) (d_group row)"
  show ?thesis
  proof (cases "others = []")
    case alone: True
    have gs1: "gs \<subseteq> {d_group row}" using gs alone by (simp add: others_def)
    show ?thesis
    proof (cases "after1 = None")
      case True
      then have "leave_group ord row after act db = commit (update_dashboard row act) db"
        using alone by (simp add: leave_group_def Let_def others_def after1_def write_placed_def)
      then show ?thesis using sound_stay [OF mv gs1] by simp
    next
      case False
      then have e: "leave_group ord row after act db = (case key_after_group ord (d_id row) after1 of
          Inl e \<Rightarrow> fail_step e db | Inr key \<Rightarrow> commit (update_dashboard (row\<lparr>d_key := key\<rparr>) act) db)"
        unfolding leave_group_def Let_def others_def [symmetric] after1_def [symmetric]
        using alone False by (cases after1) (simp_all add: write_placed_def split: sum.split)
      show ?thesis
      proof (cases "key_after_group ord (d_id row) after1")
        case (Inl x)
        then show ?thesis unfolding e using sound_fail [OF m(1) key_after_group_plain [OF Inl]] by simp
      next
        case (Inr k)
        obtain us vs where p: "without ord (d_id row) = us @ vs" "key_fits us vs k"
            "boundary (map d_group us) (map d_group vs)"
          using key_after_group_place [OF m(9) Inr] by blast
        have "contig (map d_group us @ map d_group vs)"
          using without_split(2) [OF m(9) p(1)] by (simp add: wf_order_def)
        moreover have "d_group row \<notin> set (map d_group us @ map d_group vs)"
          using alone unfolding others_def group_rows_Nil p(1) by auto
        ultimately have "contig (map d_group us @ d_group row # map d_group vs)"
          by (rule contig_new_label [OF _ p(3)])
        then have "sound_step db gs (commit (update_dashboard (row\<lparr>d_key := k\<rparr>) act) db)"
          by (rule place_key [OF mv p(1,2), where act = act])
            (use gs1 core_in_groups in \<open>fastforce simp: sound_step_def\<close>)
        then show ?thesis unfolding e Inr by simp
      qed
    qed
  next
    case False
    then have gs0: "gs = {}" using gs by (simp add: others_def)
    define after2 where "after2 = (if after1 = None then Some (d_id (last others)) else after1)"
    have e: "leave_group ord row after act db = (case key_after_group ord (d_id row) after2 of
          Inl e \<Rightarrow> fail_step e db
        | Inr key \<Rightarrow> write_placed (row\<lparr>d_group := d_id row, d_key := key\<rparr>) (hand_over ord row) act db)"
      unfolding leave_group_def Let_def others_def [symmetric] after1_def [symmetric]
      using False by (cases after1) (simp_all add: after2_def split: sum.split)
    show ?thesis
    proof (cases "key_after_group ord (d_id row) after2")
      case (Inl x)
      then show ?thesis unfolding e using sound_fail [OF m(1) key_after_group_plain [OF Inl]] by simp
    next
      case (Inr k)
      obtain us vs where p: "without ord (d_id row) = us @ vs" "key_fits us vs k"
          "boundary (map d_group us) (map d_group vs)"
        using key_after_group_place [OF m(9) Inr] by blast
      have "d_id row = d_id r \<and> boundary (map d_group us) (map d_group vs) \<and> group_rows (us @ vs) (d_group r) \<noteq> []"
        using m(4,5) p False by (simp add: others_def)
      then have "sound_step db {} (write_placed (row\<lparr>d_group := d_id row, d_key := k\<rparr>) (hand_over ord row) act db)"
        using place_regroup [OF mv p(1,2), of "d_id row" act "sound_step db {}
          (write_placed (row\<lparr>d_group := d_id row, d_key := k\<rparr>) (hand_over ord row) act db)"]
        by (auto simp: sound_step_def)
      then show ?thesis unfolding e Inr gs0 by simp
    qed
  qed
qed

lemma sound_move_group:
  assumes mv: "moves db ord row r" and ks: "move_group ord (d_group row) a = Inr (Some ks)"
    and i: "i = nat (index_func (\<lambda>k. k_id k = d_id row) ks)" and ks': "ks' = ks[0 := ks ! i, i := ks ! 0]"
    and gs: "gs \<subseteq> {d_group row}"
  shows "sound_step db gs (then_step (commit (move_dashboards ks' (0, 0) act))
     (if t = [] then (\<lambda>db. (None, db)) else commit (update_dashboard (row\<lparr>d_key := k_key (hd ks')\<rparr>) act)) db)"
proof -
  obtain us vs keys where p: "without_group ord (d_group row) = us @ vs" "boundary (map d_group us) (map d_group vs)"
      "spread (key_before us) (key_after vs) (int (length (group_rows ord (d_group row)))) = Inr keys"
      "ks = map2 (\<lambda>m k. \<lparr>k_id = d_id m, k_group = d_group row, k_key = k\<rparr>) (group_rows ord (d_group row)) keys"
    using move_group_place [OF ks] by blast
  show ?thesis
  proof (rule place_block [OF mv p i ks', of act])
    fix db' assume db': "commit (move_dashboards ks' (0, 0) act) db = (None, db')" "db_ok db'"
      "db_next db' = db_next db"
    assume "\<exists>r'. moves db' (user_rows db') (row\<lparr>d_key := k_key (hd ks')\<rparr>) r'"
    then obtain r' where "moves db' (user_rows db') (row\<lparr>d_key := k_key (hd ks')\<rparr>) r'" by blast
    note mv' = this
    obtain db2 where u: "commit (update_dashboard (row\<lparr>d_key := k_key (hd ks')\<rparr>) act) db' = (None, db2)" "db_ok db2"
      "map core (user_rows db2) = map core (user_rows db')" "db_next db2 = db_next db'"
      by (rule place_none [OF mv', of act])
    have "gs \<subseteq> d_group ` set (user_rows db')" using movesD(3,5) [OF mv'] gs by auto
    moreover from this have "gs \<subseteq> d_group ` set (user_rows db2)" unfolding core_groups(1) [OF u(3)] .
    ultimately show ?thesis using db' u by (simp add: sound_step_def then_step_def)
  qed
qed

definition keeps_group :: "dashboard list \<Rightarrow> dashboard \<Rightarrow> update_in \<Rightarrow> bool" where
  "keeps_group ord row inp \<longleftrightarrow> (case u_group inp of None \<Rightarrow> True
     | Some g \<Rightarrow> g = d_group row \<or> g = 0 \<and> group_rows (without ord (d_id row)) (d_group row) = [])"

lemma place_dashboard_step:
  assumes mv: "moves db ord row r"
  shows "sound_step db (if keeps_group ord row inp then {d_group row} else {}) (place_dashboard ord row inp act db)"
proof -
  note m = movesD [OF mv]
  let ?gs = "if keeps_group ord row inp then {d_group row} else {}"
  have gs1: "?gs \<subseteq> {d_group row}" by simp
  have nz: "d_group row \<noteq> 0" using m(1,3,5) by (auto simp: db_ok_def set_user_rows)
  show ?thesis
  proof (cases "u_group inp")
    case (Some g)
    consider "g = 0" | e where "g \<noteq> 0" "refuse_group ord g = Some e" | "g \<noteq> 0" "refuse_group ord g = None"
      by (cases "refuse_group ord g") auto
    then show ?thesis
    proof cases
      case 1
      then show ?thesis using sound_leave [OF mv, of ?gs] Some nz by (auto simp: place_dashboard_def keeps_group_def)
    next
      case 2
      have "\<not> store_error e" using 2(2) by (auto simp: refuse_group_def split: if_splits)
      then show ?thesis using sound_fail [OF m(1)] 2 Some by (simp add: place_dashboard_def)
    next
      case 3
      show ?thesis
      proof (cases "u_after inp = Some (d_id row) \<and> d_group row = g")
        case True
        then show ?thesis using sound_stay [OF mv gs1] 3 Some by (simp add: place_dashboard_def)
      next
        case False
        then have e: "place_dashboard ord row inp act db = (case key_in_group ord (d_id row) g (u_after inp) of
            Inl e \<Rightarrow> fail_step e db
          | Inr key \<Rightarrow> if g \<noteq> d_group row
              then write_placed (row\<lparr>d_group := g, d_key := key\<rparr>) (hand_over ord row) act db
              else commit (update_dashboard (row\<lparr>d_key := key\<rparr>) act) db)"
          unfolding place_dashboard_def Some option.case if_not_P [OF 3(1)] 3(2) if_not_P [OF False]
          by (simp split: sum.split)
        show ?thesis
        proof (cases "key_in_group ord (d_id row) g (u_after inp)")
          case (Inl x)
          then show ?thesis unfolding e using sound_fail [OF m(1) key_in_group_plain [OF Inl]] by simp
        next
          case (Inr k)
          have "?gs = {}" if "g \<noteq> d_group row" using that 3(1) Some by (simp add: keeps_group_def)
          then show ?thesis unfolding e Inr
            using sound_join [OF mv 3(2) _ Inr] sound_own_group [OF mv _ gs1, of "u_after inp" k act] Inr
            by (cases "g = d_group row") simp_all
        qed
      qed
    qed
  next
    case None
    consider "u_after inp = None" | "u_after inp = Some (d_id row)" | a where "u_after inp = Some a" "a \<noteq> d_id row"
      by (cases "u_after inp") auto
    then show ?thesis
    proof cases
      case 3
      let ?mine = "case find_row ord a of Some x \<Rightarrow> d_group x = d_group row | None \<Rightarrow> False"
      show ?thesis
      proof (cases ?mine)
        case True
        then have e: "place_dashboard ord row inp act db = (case key_in_group ord (d_id row) (d_group row) (Some a) of
            Inl e \<Rightarrow> fail_step e db | Inr key \<Rightarrow> commit (update_dashboard (row\<lparr>d_key := key\<rparr>) act) db)"
          using None 3 by (simp add: place_dashboard_def split: sum.split)
        show ?thesis
        proof (cases "key_in_group ord (d_id row) (d_group row) (Some a)")
          case (Inl x)
          then show ?thesis unfolding e using sound_fail [OF m(1) key_in_group_plain [OF Inl]] by simp
        next
          case (Inr k)
          then show ?thesis unfolding e Inr using sound_own_group [OF mv Inr gs1] by simp
        qed
      next
        case False
        show ?thesis
        proof (cases "move_group ord (d_group row) a")
          case (Inl x)
          then have "place_dashboard ord row inp act db = fail_step x db"
            using None 3 False by (simp add: place_dashboard_def)
          then show ?thesis using sound_fail [OF m(1) move_group_plain [OF Inl]] by simp
        next
          case (Inr mk)
          show ?thesis
          proof (cases mk)
            case None': None
            then have "place_dashboard ord row inp act db = commit (update_dashboard row act) db"
              using None 3 False Inr by (simp add: place_dashboard_def)
            then show ?thesis using sound_stay [OF mv gs1] by simp
          next
            case (Some ks)
            then have mg: "move_group ord (d_group row) a = Inr (Some ks)" using Inr by simp
            show ?thesis using sound_move_group [OF mv mg refl refl gs1, of act "u_title inp"] None 3 False mg
              by (simp add: place_dashboard_def Let_def)
          qed
        qed
      qed
    qed (use None sound_stay [OF mv gs1] in \<open>simp_all add: place_dashboard_def\<close>)
  qed
qed

section \<open>The operations on sound tables\<close>

lemma user_rows_names [simp]: "user_rows (db\<lparr>db_names := n\<rparr>) = user_rows db"
    "user_rows (db\<lparr>db_audit := l\<rparr>) = user_rows db" "user_rows (db\<lparr>db_names := n, db_audit := l\<rparr>) = user_rows db"
  by (simp_all add: user_rows_def)

lemma set_group_title_ok:
  assumes "db_ok db" and "g \<in> d_group ` set (user_rows db)"
  shows "db_ok (set_group_title g t act db)"
proof -
  have "g \<in> d_group ` set (db_rows db)" using assms(2) by (auto simp: set_user_rows)
  then show ?thesis using assms(1) by (auto simp: db_ok_def set_group_title_def audit_def)
qed

lemma set_group_title_frame [frame_simps]:
  "user_rows (set_group_title g t act db) = user_rows db" "db_next (set_group_title g t act db) = db_next db"
  "db_rows (set_group_title g t act db) = db_rows db"
  by (simp_all add: set_group_title_def audit_def)

lemma settle_frame [frame_simps]:
  "user_rows (settle_lone_name ms db) = user_rows db" "db_next (settle_lone_name ms db) = db_next db"
  by (simp_all add: settle_lone_name_def frame_simps split: list.split)

lemma settle_ok:
  assumes "db_ok db" and "d_group ` set ms \<subseteq> d_group ` set (user_rows db)"
  shows "db_ok (settle_lone_name ms db)"
proof -
  have "m \<in> set ms" if "filter (\<lambda>m. d_archived_at m = []) ms = [m]" for m
    using arg_cong [OF that, of set] by auto
  then show ?thesis
    using assms set_group_title_ok [OF assms(1)] unfolding settle_lone_name_def
    by (fastforce split: list.split)
qed

lemma reads_order: "reads db (read_order db)"
  unfolding reads_def read_order_eq
  by (rule exI [of _ "scan_dashboard db"]) (simp add: core_def)

lemma moves_read:
  assumes "db_ok db" and "find_row (read_order db) i = Some row" and "core row' = core row"
  obtains r where "moves db (read_order db) row' r" "d_id row = i" "r \<in> set (user_rows db)" "core row = core r"
proof -
  obtain us vs where s: "read_order db = us @ row # vs" "d_id row = i" using find_row_split [OF assms(2)] by auto
  then have "row \<in> set (map (scan_dashboard db) (user_rows db))" unfolding read_order_eq [symmetric] by simp
  then obtain r where r: "r \<in> set (user_rows db)" "row = scan_dashboard db r" by auto
  then have "core row = core r" by (simp add: core_def)
  then show thesis using that assms r s(2) reads_order by (simp add: moves_def)
qed

lemma moves_same_rows:
  "moves db ord row r \<Longrightarrow> db_ok db' \<Longrightarrow> user_rows db' = user_rows db \<Longrightarrow> moves db' ord row r"
  by (simp add: moves_def reads_def)

text \<open>One attempt of an update: sound, and no error of the tables.\<close>

definition quiet :: "place_error option \<times> dash_db \<Rightarrow> bool" where
  "quiet res \<longleftrightarrow> db_ok (snd res) \<and> (case fst res of None \<Rightarrow> True | Some x \<Rightarrow> \<not> store_error x)"

lemma sound_quiet: "sound_step db gs res \<Longrightarrow> quiet res"
  by (cases res) (auto simp: sound_step_def quiet_def split: option.splits)

lemma sound_None: "sound_step db gs res \<Longrightarrow> res = (None, db') \<Longrightarrow> db_ok db' \<and> gs \<subseteq> d_group ` set (user_rows db')"
  by (simp add: sound_step_def)

lemma quiet_then:
  assumes "quiet (f db)" and "\<And>db'. f db = (None, db') \<Longrightarrow> quiet (g db')"
  shows "quiet (then_step f g db)"
  using assms by (cases "f db") (auto simp: then_step_def quiet_def split: option.split)

lemma update_attempt_quiet:
  assumes ok: "db_ok db" and f: "find_row (read_order db) i = Some row"
  shows "quiet (update_attempt inp (read_order db) row db)"
proof -
  let ?ord = "read_order db"
  define row' where "row' = (if u_title inp \<noteq> [] then row\<lparr>d_title := u_title inp\<rparr> else row)"
  have c: "core row' = core row" by (simp add: row'_def core_def)
  obtain r where mv: "moves db ?ord row' r" and rr: "core row = core r" "r \<in> set (user_rows db)"
    by (rule moves_read [OF ok f c])
  have gr: "d_group row' = d_group row" "d_id row' = d_id row" using c by (auto simp: core_def)
  define settle where "settle = (case u_group inp of
              Some g \<Rightarrow> if \<not> keeps_group ?ord row inp \<and> g \<noteq> 0 then
                (case refuse_group ?ord g of Some e \<Rightarrow> fail_step e | None \<Rightarrow>
                  (case key_in_group ?ord (d_id row) g (u_after inp) of
                     Inl e \<Rightarrow> fail_step e
                   | Inr _ \<Rightarrow> (\<lambda>db. (None, settle_lone_name (group_rows ?ord g) db))))
                else (\<lambda>db. (None, db))
            | None \<Rightarrow> (\<lambda>db. (None, db)))"
  define sync where "sync = (u_title inp \<noteq> [] \<and> keeps_group ?ord row inp \<and> d_group_title row \<noteq> []
      \<and> lone ?ord (d_id row) (d_group row))"
  have e: "update_attempt inp ?ord row = then_step settle (then_step (place_dashboard ?ord row' inp ''dashboard.update'')
           (\<lambda>db. (None, if sync then set_group_title (d_group row) (u_title inp) ''dashboard.group.rename'' db
                       else db)))"
    unfolding update_attempt_def settle_def sync_def row'_def keeps_group_def Let_def ..
  have gsub: "d_group ` set (group_rows ?ord g) \<subseteq> d_group ` set (user_rows db)" for g
    using core_groups(1) [OF reads_core [OF reads_order, of db]] by (auto simp: group_rows_def)
  have sq: "quiet (settle db) \<and> (\<forall>db'. settle db = (None, db') \<longrightarrow> user_rows db' = user_rows db)"
  proof -
    have p: "\<not> store_error x" if "refuse_group ?ord g = Some x" for g x
      using that by (auto simp: refuse_group_def split: if_splits)
    show ?thesis
      unfolding settle_def
      by (cases "u_group inp")
        (auto simp: quiet_def fail_step_def ok frame_simps settle_ok [OF ok gsub] p
          dest: key_in_group_plain split: option.split sum.split)
  qed
  show ?thesis unfolding e
  proof (rule quiet_then)
    show "quiet (settle db)" using sq by simp
    fix db1 assume s: "settle db = (None, db1)"
    then have u: "user_rows db1 = user_rows db" and ok1: "db_ok db1"
      using sq by (auto simp: quiet_def)
    have "moves db1 ?ord row' r" by (rule moves_same_rows [OF mv ok1 u])
    from place_dashboard_step [OF this, of inp "''dashboard.update''"]
    have st: "sound_step db1 (if keeps_group ?ord row inp then {d_group row} else {})
        (place_dashboard ?ord row' inp ''dashboard.update'' db1)"
      unfolding keeps_group_def gr .
    show "quiet (then_step (place_dashboard ?ord row' inp ''dashboard.update'')
        (\<lambda>db. (None, if sync then set_group_title (d_group row) (u_title inp) ''dashboard.group.rename'' db
                       else db)) db1)"
    proof (rule quiet_then)
      show "quiet (place_dashboard ?ord row' inp ''dashboard.update'' db1)"
        by (rule sound_quiet [OF st])
      fix db2 assume p2: "place_dashboard ?ord row' inp ''dashboard.update'' db1 = (None, db2)"
      have "db_ok db2" "sync \<longrightarrow> d_group row \<in> d_group ` set (user_rows db2)"
        using sound_None [OF st p2] by (auto simp: sync_def)
      then show "quiet (None, if sync then set_group_title (d_group row) (u_title inp) ''dashboard.group.rename'' db2
          else db2)"
        using set_group_title_ok by (simp add: quiet_def)
    qed
  qed
qed

lemma rename_attempt_quiet:
  assumes ok: "db_ok db" and f: "find_row (read_order db) i = Some row"
  shows "quiet (rename_attempt t (read_order db) row db)"
  unfolding rename_attempt_def
proof (rule quiet_then)
  let ?row = "row\<lparr>d_title := t\<rparr>"
  let ?first = "if lone (read_order db) (d_id row) (d_group row) \<and> d_title row \<noteq> t
        then commit (update_dashboard ?row ''dashboard.update'') else (\<lambda>db. (None, db))"
  have c: "core ?row = core row" by (simp add: core_def)
  obtain r where mv: "moves db (read_order db) ?row r" and rr: "core row = core r" "r \<in> set (user_rows db)"
    by (rule moves_read [OF ok f c])
  have g: "d_group row \<in> d_group ` set (user_rows db)" using rr by (auto simp: core_def)
  have st: "sound_step db {d_group row} (?first db)"
  proof (cases "lone (read_order db) (d_id row) (d_group row) \<and> d_title row \<noteq> t")
    case True
    have "sound_step db {d_group row} (commit (update_dashboard ?row ''dashboard.update'') db)"
      by (rule sound_stay [OF mv]) simp
    then show ?thesis unfolding if_P [OF True] .
  next
    case False
    show ?thesis unfolding if_not_P [OF False] using ok g by (simp add: sound_step_def)
  qed
  show "quiet (?first db)" by (rule sound_quiet [OF st])
  fix db' assume f1: "?first db = (None, db')"
  have "db_ok db'" "d_group row \<in> d_group ` set (user_rows db')" using sound_None [OF st f1] by auto
  then show "quiet (None, set_group_title (d_group row) t ''dashboard.group.rename'' db')"
    by (simp add: quiet_def set_group_title_ok)
qed

lemma retry_quiet:
  assumes "quiet (place id db)"
  shows "retry_conflict place id id lost db = place id db"
proof -
  have "(case place id db of (Some e, db') \<Rightarrow> is_conflict e | _ \<Rightarrow> False) = False"
    using assms by (cases "place id db") (auto simp: quiet_def split: option.splits elim: is_conflict.elims)
  then show ?thesis by (simp add: retry_conflict_def)
qed

text \<open>A new row: it joins a group, or is a group of its own number.\<close>

lemma create_attempt_quiet:
  assumes ok: "db_ok db"
  shows "quiet (create_attempt title rng g after id db)"
proof -
  let ?ord = "read_order db"
  let ?i = "db_next db"
  define kr where "kr = (if g = 0 then key_after_group ?ord 0 after
            else (case refuse_group ?ord g of Some e \<Rightarrow> Inl e | None \<Rightarrow> key_in_group ?ord 0 g after))"
  define db2 where "db2 = (if g \<noteq> 0 then settle_lone_name (group_rows ?ord g) db else db)"
  have rd: "reads db ?ord" by (rule reads_order)
  have okr: "order_ok (user_rows db)" using ok by (simp add: db_ok_def)
  have wo: "wf_order ?ord" using reads_wf [OF rd ok] order_ok_wf by blast
  have gsub: "d_group ` set (group_rows ?ord g) \<subseteq> d_group ` set (user_rows db)"
    using core_groups(1) [OF reads_core [OF rd]] by (auto simp: group_rows_def)
  have ok2: "db_ok db2" and u2: "user_rows db2 = user_rows db" "db_next db2 = ?i"
    using settle_ok [OF ok gsub] ok by (auto simp: db2_def frame_simps)
  show ?thesis
  proof (cases kr)
    case (Inl e)
    have "\<not> store_error e"
      using Inl key_after_group_plain [of ?ord 0 after e] key_in_group_plain [of ?ord 0 g after e]
      by (auto simp: kr_def refuse_group_def split: if_splits option.splits)
    then show ?thesis using Inl ok by (simp add: create_attempt_def Let_def kr_def [symmetric] quiet_def)
  next
    case (Inr k)
    define row where "row = \<lparr>d_id = ?i, d_owner = owner_user, d_title = title, d_key = k,
        d_group = (if g = 0 then ?i else g), d_group_title = [], d_last_project = 0, d_last_range = rng,
        d_last_from = [], d_last_to = [], d_created_at = db_now db2, d_updated_at = db_now db2,
        d_archived_at = [], d_live_widgets = 0, d_sidebar = True, d_project_tab = False\<rparr>"
    have w0: "without ?ord 0 = ?ord"
      using wo by (auto simp: without_def wf_order_def image_iff intro!: filter_True)
    have "\<exists>us vs. ?ord = us @ vs \<and> key_fits us vs k
        \<and> (g = 0 \<and> boundary (map d_group us) (map d_group vs) \<or> g \<noteq> 0 \<and> beside g us vs)"
    proof (cases "g = 0")
      case True
      then have "key_after_group ?ord 0 after = Inr k" using Inr by (simp add: kr_def)
      from key_after_group_place [OF wo this] show ?thesis using True w0 by auto
    next
      case False
      then have live: "refuse_group ?ord g = None" and key: "key_in_group ?ord 0 g after = Inr k"
        using Inr by (auto simp: kr_def split: option.splits)
      have "group_rows (without ?ord 0) g \<noteq> []"
        using live unfolding w0 by (auto simp: refuse_group_def group_rows_Nil list_ex_iff split: if_splits)
      from key_in_group_place [OF wo this key] show ?thesis using False w0 by auto
    qed
    then obtain us0 vs0 where p0: "?ord = us0 @ vs0" "key_fits us0 vs0 k"
        "g = 0 \<and> boundary (map d_group us0) (map d_group vs0) \<or> g \<noteq> 0 \<and> beside g us0 vs0" by blast
    obtain us vs where e: "filter (\<lambda>_. True) (user_rows db) = us @ vs" "map core us = map core us0" "map core vs = map core vs0"
      by (rule reads_split [OF rd, of "\<lambda>_. True" us0 vs0]) (use p0 in auto)
    then have raw: "user_rows db = us @ vs" by simp
    note ends = core_ends [OF e(2,3)]
    have lt: "d_id d < ?i" "d_group d < ?i" if "d \<in> set (db_rows db)" for d
      using ok that by (auto simp: db_ok_def)
    have lt': "d_id d < ?i" "d_group d < ?i" if "d \<in> set (us @ vs)" for d
      using lt that unfolding raw [symmetric] by (auto simp: set_user_rows)
    have wuv: "wf_order (us @ vs)" using order_ok_wf [OF okr] raw by simp
    have cc: "contig (map d_group us @ map d_group vs)" using wuv by (simp add: wf_order_def)
    have gin: "g \<in> d_group ` set (us @ vs)" if "g \<noteq> 0"
      using p0(3) that beside_in [of g us0 vs0] e(2,3) core_groups(1) [of "us @ vs" "us0 @ vs0"] by simp
    have c: "contig (map d_group us @ d_group row # map d_group vs)"
    proof (cases "g = 0")
      case True
      have "?i \<notin> set (map d_group us @ map d_group vs)" using lt'(2) by fastforce
      then show ?thesis using contig_new_label [OF cc, of ?i] p0(3) True ends by (simp add: row_def)
    next
      case False
      have "contig (map d_group us0 @ g # map d_group vs0)"
        using contig_beside [of us0 vs0 g] p0(3) False cc ends by simp
      then show ?thesis using False ends by (simp add: row_def)
    qed
    have fo: "founder (us @ row # vs)"
      unfolding founder_def
    proof (intro ballI impI)
      fix d x assume d: "d \<in> set (us @ row # vs)" and x: "x \<in> set (us @ row # vs)" and dx: "d_group x = d_id d"
      have gx: "x = row \<or> x \<in> set (us @ vs)" and gd: "d = row \<or> d \<in> set (us @ vs)" using d x by auto
      show "d_group d = d_id d"
      proof (cases "d = row")
        case True
        then have "d_group x = ?i" using dx by (simp add: row_def)
        moreover have "g \<noteq> ?i" if "g \<noteq> 0" using gin [OF that] lt'(2) by fastforce
        moreover have "d_group x \<noteq> ?i" if "x \<in> set (us @ vs)" using lt'(2) [OF that] by simp
        ultimately have "g = 0" using gx by (auto simp: row_def split: if_splits)
        then show ?thesis using True by (simp add: row_def)
      next
        case False
        then have dm: "d \<in> set (us @ vs)" using gd by simp
        have "\<exists>y \<in> set (us @ vs). d_group y = d_id d"
        proof (cases "x = row")
          case True
          then have "g \<noteq> 0" using dx lt'(1) [OF dm] by (auto simp: row_def)
          then show ?thesis using gin True dx by (auto simp: row_def)
        qed (use gx dx in auto)
        then show ?thesis using order_ok_founder [OF okr] dm raw by (auto simp: founder_def)
      qed
    qed
    have oks: "order_ok (us @ row # vs)"
    proof (rule order_ok_insert [OF wuv])
      show "\<forall>y \<in> set (us @ vs). order_key (d_key y)" using okr raw by (simp add: order_ok_def)
      show "key_fits us vs (d_key row)" using p0(2) ends by (simp add: row_def)
      show "d_id row \<notin> d_id ` set (us @ vs)" using lt'(1) by (fastforce simp: row_def)
      show "d_id row \<noteq> 0" using ok by (auto simp: row_def db_ok_def)
    qed (use c fo in auto)
    have free: "\<not> list_ex (\<lambda>d. d_owner d = owner_user \<and> d_key d = k) (db_rows db2)"
    proof -
      have "distinct (map d_key (us @ row # vs))" by (rule wf_order_keys [OF order_ok_wf [OF oks]])
      then have "k \<notin> d_key ` set (user_rows db2)" unfolding u2 raw by (auto simp: row_def)
      then show ?thesis by (auto simp: list_ex_iff set_user_rows)
    qed
    define db3 where "db3 = audit ''dashboard.create'' (SubDashboard ?i)
        (db2\<lparr>db_rows := db_rows db2 @ [row], db_next := ?i + 1\<rparr>)"
    have step: "create_attempt title rng g after id db = (None, db3)"
      using free Inr u2(2)
      by (simp add: create_attempt_def Let_def kr_def [symmetric] db2_def [symmetric] commit_def insert_dashboard_def
          db3_def row_def del: list_ex_iff)
    have rows3: "db_rows db3 = db_rows db2 @ [row]" "db_next db3 = ?i + 1" "db_names db3 = db_names db2"
      by (simp_all add: db3_def audit_def)
    have ur: "user_rows db3 = us @ row # vs"
      unfolding user_rows_def rows3
    proof (rule sort_key_eq)
      have "mset (filter (\<lambda>d. d_owner d = owner_user) (db_rows db2)) = mset (us @ vs)"
        using u2(1) raw by (metis mset_sort user_rows_def)
      then show "mset (filter (\<lambda>d. d_owner d = owner_user) (db_rows db2 @ [row])) = mset (us @ row # vs)"
        by (simp add: row_def)
      show "sorted_wrt (<) (map d_key (us @ row # vs))" using order_ok_wf [OF oks] by (simp add: wf_order_def)
    qed
    have rown: "d_id row = ?i" "d_owner row = owner_user" "0 < d_group row" "d_group row \<le> ?i"
    proof -
      have "0 < d_group row \<and> d_group row \<le> ?i"
      proof (cases "g = 0")
        case True
        then show ?thesis using ok by (simp add: row_def db_ok_def)
      next
        case False
        then obtain y where "y \<in> set (user_rows db)" "d_group y = g" using gin raw by auto
        then show ?thesis using ok False by (auto simp: row_def db_ok_def set_user_rows less_imp_le)
      qed
      then show "0 < d_group row" "d_group row \<le> ?i" by auto
    qed (simp_all add: row_def)
    have "db_ok db3"
    proof -
      have lt2: "0 < d_id d \<and> d_id d < ?i \<and> 0 < d_group d \<and> d_group d < ?i" if "d \<in> set (db_rows db2)" for d
        using ok2 u2(2) that by (auto simp: db_ok_def)
      have apart: "d_group s \<noteq> d_group y \<and> d_group s \<noteq> d_id y"
        if s: "s \<in> set (db_rows db2 @ [row])" "d_owner s \<noteq> owner_user" and y: "y \<in> set (us @ row # vs)" for s y
      proof -
        have s2: "s \<in> set (db_rows db2)" using s rown(2) by auto
        have old: "d_group s \<noteq> d_group z \<and> d_group s \<noteq> d_id z" if "z \<in> set (us @ vs)" for z
          using ok2 s2 s(2) that u2(1) raw by (auto simp: db_ok_def)
        show ?thesis
        proof (cases "y = row")
          case True
          have "d_group s \<noteq> d_group row"
          proof (cases "g = 0")
            case True
            then show ?thesis using lt2 [OF s2] by (simp add: row_def)
          next
            case False
            then show ?thesis using gin old by (auto simp: row_def)
          qed
          then show ?thesis using True lt2 [OF s2] rown(1) by simp
        qed (use y old in auto)
      qed
      have d2: "distinct (map d_id (db_rows db2 @ [row]))"
        using ok2 lt2 rown(1) by (fastforce simp: db_ok_def)
      have n2: "dom (db_names db2) \<subseteq> d_group ` set (db_rows db2 @ [row])" using ok2 by (auto simp: db_ok_def)
      have b2: "0 < d_id d \<and> d_id d < ?i + 1 \<and> 0 < d_group d \<and> d_group d < ?i + 1"
        if "d \<in> set (db_rows db2 @ [row])" for d
        using that lt2 rown ok by (fastforce simp: db_ok_def)
      show ?thesis unfolding db_ok_def ur rows3
        using oks d2 n2 b2 apart ok by (auto simp: db_ok_def)
    qed
    then show ?thesis unfolding step by (simp add: quiet_def)
  qed
qed

section \<open>Properties\<close>

text \<open>The tabs of a group, in order, by id.\<close>

definition tabs :: "dash_db \<Rightarrow> int \<Rightarrow> int list" where
  "tabs db g = map d_id (group_rows (user_rows db) g)"

fun insert_after :: "int \<Rightarrow> int \<Rightarrow> int list \<Rightarrow> int list" where
  "insert_after a i [] = [i]"
| "insert_after a i (x # xs) = (if x = a then x # i # xs else x # insert_after a i xs)"

text \<open>Where \<open>after\<close> puts a new tab: last without one, first for 0, else right after that tab.\<close>

definition put_tab :: "int option \<Rightarrow> int \<Rightarrow> int list \<Rightarrow> int list" where
  "put_tab after i ts = (case after of None \<Rightarrow> ts @ [i]
     | Some a \<Rightarrow> if a = 0 then i # ts else insert_after a i ts)"

lemma insert_after_split: "a \<notin> set xs \<Longrightarrow> insert_after a i (xs @ a # ys) = xs @ a # i # ys"
  by (induction xs) auto

definition core_tabs :: "dashboard list \<Rightarrow> int \<Rightarrow> int list" where
  "core_tabs xs g = map fst (filter (\<lambda>c. fst (snd c) = g) (map core xs))"

lemma tabs_core: "tabs db g = core_tabs (user_rows db) g"
proof -
  have "map d_id (filter (\<lambda>d. d_group d = g) xs) = core_tabs xs g" for xs
    by (induction xs) (auto simp: core_tabs_def core_def)
  then show ?thesis by (simp add: tabs_def group_rows_def)
qed

lemma core_tabs_simps [simp]:
  "core_tabs [] g = []"
  "core_tabs (x # xs) g = (if d_group x = g then d_id x # core_tabs xs g else core_tabs xs g)"
  "core_tabs (xs @ ys) g = core_tabs xs g @ core_tabs ys g"
  by (auto simp: core_tabs_def core_def)

lemma core_tabs_cong: "map core xs = map core ys \<Longrightarrow> core_tabs xs g = core_tabs ys g"
  by (simp add: core_tabs_def)

lemma core_tabs_regroup_other: "g \<noteq> old \<Longrightarrow> g \<noteq> h \<Longrightarrow> core_tabs (map (regroup old h) xs) g = core_tabs xs g"
  by (induction xs) auto

lemma core_tabs_regroup_heir: "h \<notin> d_group ` set xs \<Longrightarrow> core_tabs (map (regroup old h) xs) h = core_tabs xs old"
  by (induction xs) auto

lemma core_tabs_none: "g \<notin> d_group ` set xs \<Longrightarrow> core_tabs xs g = []"
  by (induction xs) auto

lemma core_tabs_ids: "set (core_tabs xs g) \<subseteq> d_id ` set xs"
  by (induction xs) auto

lemma core_tabs_snoc: "xs \<noteq> [] \<Longrightarrow> d_group (last xs) = g \<Longrightarrow> core_tabs xs g = core_tabs (butlast xs) g @ [d_id (last xs)]"
  by (cases xs rule: rev_exhaust) auto

lemma core_tabs_without:
  assumes "wf_order raw" and "r \<in> set raw" and "without raw (d_id r) = us @ vs"
  shows "core_tabs (us @ vs) g = filter (\<lambda>j. j \<noteq> d_id r) (core_tabs raw g)"
proof -
  have "core_tabs (filter (\<lambda>d. d_id d \<noteq> i) xs) g = filter (\<lambda>j. j \<noteq> i) (core_tabs xs g)" for i xs
    by (induction xs) auto
  then show ?thesis using assms(3) by (metis without_def)
qed

lemma join_lemma:
  assumes ok: "db_ok db" and f: "find_row (read_order db) i = Some row" and c: "core row' = core row"
    and g: "u_group inp = Some g" "g \<noteq> 0" "g \<noteq> d_group row"
    and p: "place_dashboard (read_order db) row' inp act db = (None, db')"
  shows "tabs db' g = put_tab (u_after inp) i (tabs db g)"
    and "\<exists>h. tabs db' h = filter (\<lambda>j. j \<noteq> i) (tabs db (d_group row))
      \<and> (h = d_group row \<or> d_group row = i \<and> h \<noteq> i)"
    and "db_ok db'"
proof -
  let ?ord = "read_order db"
  obtain r where mv: "moves db ?ord row' r" and rr: "d_id row = i" "r \<in> set (user_rows db)" "core row = core r"
    by (rule moves_read [OF ok f c])
  note m = movesD [OF mv]
  have r_id: "d_id row' = i" "d_id r = i" "d_group row' = d_group row" "d_group r = d_group row"
    using rr c by (auto simp: core_def)
  have live: "refuse_group ?ord g = None" and key0: "\<exists>k. key_in_group ?ord (d_id row') g (u_after inp) = Inr k"
    using p g r_id by (auto simp: place_dashboard_def fail_step_def split: option.splits sum.splits)
  then obtain k where key: "key_in_group ?ord (d_id row') g (u_after inp) = Inr k" by blast
  have wp: "write_placed (row'\<lparr>d_group := g, d_key := k\<rparr>) (hand_over ?ord row') act db = (None, db')"
    using p g r_id live key by (simp add: place_dashboard_def)
  have ne: "g \<noteq> d_group row'" using g r_id by simp
  obtain us vs where s: "without ?ord (d_id row') = us @ vs" "key_fits us vs k" "beside g us vs"
     "(case u_after inp of
         None \<Rightarrow> g \<notin> d_group ` set vs
       | Some a \<Rightarrow> if a = 0 then g \<notin> d_group ` set us
           else us \<noteq> [] \<and> d_id (last us) = a \<and> d_group (last us) = g \<and> d_archived_at (last us) = [])"
    using key_in_group_place [OF m(9) join_members [OF mv live ne] key] by blast
  note wo = without_split [OF m(9) s(1)]
  have "contig (map d_group (us @ vs))" using wo(2) by (simp add: wf_order_def)
  then have gg: "g = d_id r \<and> boundary (map d_group us) (map d_group vs) \<and> group_rows (us @ vs) (d_group r) \<noteq> []
      \<or> g \<noteq> d_group r \<and> g \<in> d_group ` set (us @ vs) \<and> contig (map d_group us @ g # map d_group vs)"
    using contig_beside [of us vs g] s(3) beside_in [of g us vs] ne m(5) by simp
  obtain db1 h where w: "write_placed (row'\<lparr>d_group := g, d_key := k\<rparr>) (hand_over ?ord row') act db = (None, db1)"
      "db_ok db1" "map core (user_rows db1) = map core (map (regroup (d_group r) h) us
        @ row'\<lparr>d_group := g, d_key := k\<rparr> # map (regroup (d_group r) h) vs)"
      "h = d_group r \<or> h \<in> d_id ` set (us @ vs) \<and> h \<notin> d_group ` set (us @ vs) \<and> d_group r = d_id r"
    by (rule place_regroup [OF mv s(1,2) gg])
  have db1: "db1 = db'" using w(1) wp by simp
  then show "db_ok db'" using w(2) by simp
  have gin: "g \<in> d_group ` set (us @ vs)" by (rule beside_in [OF s(3)])
  then have hg: "g \<noteq> h" using w(4) g r_id by auto
  have gr: "g \<noteq> d_group r" using g r_id by simp
  have t': "tabs db' x = core_tabs (map (regroup (d_group r) h) us) x
      @ (if g = x then [i] else []) @ core_tabs (map (regroup (d_group r) h) vs) x" for x
    using core_tabs_cong [OF w(3)] db1 r_id by (simp add: tabs_core)
  obtain us' vs' where w': "without (user_rows db) (d_id r) = us' @ vs'"
      and e: "map core us' = map core us" "map core vs' = map core vs"
    using reads_without [OF m(2) s(1)] m(4) by metis
  have t: "core_tabs us x @ core_tabs vs x = filter (\<lambda>j. j \<noteq> i) (tabs db x)" for x
    using core_tabs_without [OF m(7) m(3) w', of x] core_tabs_cong [OF e(1), of x] core_tabs_cong [OF e(2), of x] r_id(2)
    by (simp add: tabs_core)
  have notin: "i \<notin> set (tabs db g)"
  proof
    assume "i \<in> set (tabs db g)"
    then obtain y where "y \<in> set (user_rows db)" "d_id y = i" "d_group y = g" by (auto simp: tabs_def group_rows_def)
    then show False using same_id [OF m(7) _ m(3)] r_id gr by metis
  qed
  then have tg: "tabs db g = core_tabs us g @ core_tabs vs g"
    unfolding t by (intro filter_True [symmetric]) auto
  have tg': "tabs db' g = core_tabs us g @ i # core_tabs vs g"
    unfolding t' using core_tabs_regroup_other [OF gr hg] by simp
  show "tabs db' g = put_tab (u_after inp) i (tabs db g)"
  proof (cases "u_after inp")
    case None
    then show ?thesis using s(4) tg tg' core_tabs_none [of g vs] by (simp add: put_tab_def)
  next
    case (Some a)
    show ?thesis
    proof (cases "a = 0")
      case True
      then show ?thesis using s(4) Some tg tg' core_tabs_none [of g us] by (simp add: put_tab_def)
    next
      case False
      then have l: "us \<noteq> []" "d_id (last us) = a" "d_group (last us) = g" using s(4) Some by auto
      have snoc: "core_tabs us g = core_tabs (butlast us) g @ [a]"
        using core_tabs_snoc [OF l(1,3)] l(2) by simp
      have dus: "distinct (map d_id us)" using wo(2) by (simp add: wf_order_def)
      have "a \<notin> d_id ` set (butlast us)"
        using dus l(1,2) by (cases us rule: rev_exhaust) auto
      then have "a \<notin> set (core_tabs (butlast us) g)" using core_tabs_ids by blast
      then show ?thesis using Some False tg tg' snoc by (simp add: put_tab_def insert_after_split)
    qed
  qed
  show "\<exists>h. tabs db' h = filter (\<lambda>j. j \<noteq> i) (tabs db (d_group row))
      \<and> (h = d_group row \<or> d_group row = i \<and> h \<noteq> i)"
  proof (cases "h = d_group r")
    case True
    have same: "map (regroup (d_group r) (d_group r)) xs = xs" for xs by (simp add: regroup_def map_idI)
    have "tabs db' (d_group r) = core_tabs us (d_group r) @ core_tabs vs (d_group r)"
      unfolding t' True same using gr by simp
    then show ?thesis using t r_id(4) by metis
  next
    case False
    then have h: "h \<in> d_id ` set (us @ vs)" "h \<notin> d_group ` set (us @ vs)" "d_group r = d_id r" using w(4) by auto
    then have "tabs db' h = core_tabs us (d_group r) @ core_tabs vs (d_group r)"
      unfolding t' using hg core_tabs_regroup_heir by (simp add: image_Un)
    then have th: "tabs db' h = filter (\<lambda>j. j \<noteq> i) (tabs db (d_group row))" using t r_id(4) by metis
    have "h \<noteq> i" using h(1) wo(1) r_id(1) by metis
    then show ?thesis using th h(3) r_id by metis
  qed
qed

text \<open>A small set of tables: one group of two founded by 1, another group of one.\<close>

definition sample_row :: "int \<Rightarrow> int \<Rightarrow> string \<Rightarrow> dashboard" where
  "sample_row i g k = \<lparr>d_id = i, d_owner = owner_user, d_title = ''t'', d_key = k, d_group = g, d_group_title = [],
     d_last_project = 0, d_last_range = ''7d'', d_last_from = [], d_last_to = [], d_created_at = [],
     d_updated_at = [], d_archived_at = [], d_live_widgets = 0, d_sidebar = True, d_project_tab = False\<rparr>"

definition sample_db :: dash_db where
  "sample_db = \<lparr>db_rows = [sample_row 1 1 ''a0'', sample_row 2 1 ''a1'', sample_row 3 3 ''a2''], db_next = 4,
     db_names = (\<lambda>_. None), db_audit = [], db_now = ''now''\<rparr>"

lemma sample_rows: "user_rows sample_db = [sample_row 1 1 ''a0'', sample_row 2 1 ''a1'', sample_row 3 3 ''a2'']"
  by code_simp

lemma sample_ok: "db_ok sample_db"
proof -
  have "order_ok (user_rows sample_db)" by code_simp
  then show ?thesis unfolding db_ok_def sample_rows
    by (auto simp: sample_db_def sample_row_def)
qed

text \<open>
  Joining a group, without interference: when the update of a dashboard with another group's
  number succeeds, that group's tabs are the old ones with the dashboard where \<open>after\<close> says
  (last, first, or right after the named tab); the tabs it leaves behind stay together in their
  order, under their old number or, when the dashboard founded the group, under an heir's; and
  the tables stay sound.
\<close>

theorem join_group_tabs:
  assumes "db_ok db" and "find_row (read_order db) i = Some row"
    and "u_group inp = Some g" and "g \<noteq> 0" and "g \<noteq> d_group row"
    and "place_dashboard (read_order db) row inp act db = (None, db')"
  shows "tabs db' g = put_tab (u_after inp) i (tabs db g)
    \<and> (\<exists>h. tabs db' h = filter (\<lambda>j. j \<noteq> i) (tabs db (d_group row)) \<and> (h = d_group row \<or> d_group row = i \<and> h \<noteq> i))
    \<and> db_ok db'"
  using join_lemma [OF assms(1,2) refl assms(3,4,5,6)] by blast

definition sample_join :: update_in where
  "sample_join = \<lparr>u_title = [], u_group = Some 3, u_after = Some 3\<rparr>"

theorem join_group_tabs_witness:
  "tabs (snd (place_dashboard (read_order sample_db) (sample_row 1 1 ''a0'') sample_join ''x'' sample_db)) 3 = [3, 1]"
proof -
  have f: "find_row (read_order sample_db) 1 = Some (sample_row 1 1 ''a0'')" by code_simp
  have p: "place_dashboard (read_order sample_db) (sample_row 1 1 ''a0'') sample_join ''x'' sample_db
      = (None, snd (place_dashboard (read_order sample_db) (sample_row 1 1 ''a0'') sample_join ''x'' sample_db))"
    by (rule prod_eqI) (code_simp, simp)
  have "put_tab (u_after sample_join) 1 (tabs sample_db 3) = [3, 1]" by code_simp
  then show ?thesis
    using join_group_tabs [OF sample_ok f _ _ _ p, of 3] by (simp add: sample_join_def sample_row_def)
qed

text \<open> C22:
  Any update of a dashboard (title, place among its tabs, whole group, another group, out of its
  group), without interference from another process: the tables stay sound (order of keys,
  contiguous groups, free numbers, names only of groups that exist), and the call is never
  refused for a key that is taken, a name that cannot move or rows that cannot be parked.
\<close>

theorem update_dashboard_sound:
  assumes "db_ok db" and "op_update_dashboard i inp id id db = (e, db')"
  shows "db_ok db' \<and> (e = None \<or> e = Some (UnknownId i) \<or> (\<exists>x. e = Some x \<and> \<not> store_error x))"
proof (cases "editable_dashboard db i")
  case (Inl x)
  then have "x = UnknownId i \<or> \<not> store_error x"
    by (auto simp: editable_dashboard_def get_dashboard_def split: option.splits if_splits)
  then show ?thesis using assms Inl by (auto simp: op_update_dashboard_def)
next
  case (Inr d)
  then have di: "d_id d = i"
    by (auto simp: editable_dashboard_def get_dashboard_def dest!: find_row_split split: option.splits if_splits)
  show ?thesis
  proof (cases "u_title inp = [] \<and> u_after inp = None \<and> u_group inp = None")
    case True
    then show ?thesis using assms Inr by (auto simp: op_update_dashboard_def)
  next
    case False
    have r: "op_update_dashboard i inp id id db
        = retry_conflict (place_row i (update_attempt inp)) id id RaceLost db"
      unfolding op_update_dashboard_def Inr sum.case if_not_P [OF False] di ..
    show ?thesis
    proof (cases "find_row (read_order db) i")
      case None
      then have "retry_conflict (place_row i (update_attempt inp)) id id RaceLost db = (Some (UnknownId i), db)"
        by (simp add: retry_conflict_def place_row_def)
      then show ?thesis using assms r by simp
    next
      case (Some row)
      have p: "place_row i (update_attempt inp) id db = update_attempt inp (read_order db) row db"
        using Some by (simp add: place_row_def)
      have q: "quiet (place_row i (update_attempt inp) id db)"
        unfolding p by (rule update_attempt_quiet [OF assms(1) Some])
      then have "quiet (e, db')" using retry_quiet [where place = "place_row i (update_attempt inp)" and db = db, OF q] assms(2) r by simp
      then show ?thesis by (auto simp: quiet_def split: option.splits)
    qed
  qed
qed

theorem update_dashboard_sound_witness:
  "db_ok (snd (op_update_dashboard 1 \<lparr>u_title = ''new'', u_group = Some 0, u_after = None\<rparr> id id sample_db))"
  using update_dashboard_sound [OF sample_ok prod.collapse [symmetric]] by blast

text \<open>
  Creating a dashboard, alone or in a group, without interference, keeps the tables sound and
  never meets a taken key; renaming a group keeps them sound too.
\<close>

theorem create_dashboard_sound:
  assumes "db_ok db"
  shows "db_ok (snd (op_create_dashboard title rng g after id id db))
    \<and> fst (op_create_dashboard title rng g after id id db) \<noteq> Some RaceLost
    \<and> db_ok (snd (op_rename_group i t id id db))"
proof (intro conjI)
  have q: "quiet (create_attempt title rng g after id db)" by (rule create_attempt_quiet [OF assms])
  then have c: "op_create_dashboard title rng g after id id db = create_attempt title rng g after id db"
    using retry_quiet [of "create_attempt title rng g after"] by (simp add: op_create_dashboard_def)
  show "db_ok (snd (op_create_dashboard title rng g after id id db))"
    "fst (op_create_dashboard title rng g after id id db) \<noteq> Some RaceLost"
    using q unfolding c by (auto simp: quiet_def)
  show "db_ok (snd (op_rename_group i t id id db))"
  proof (cases "editable_dashboard db i")
    case (Inl x)
    then show ?thesis using assms by (simp add: op_rename_group_def)
  next
    case (Inr d)
    have q: "place_row (d_id d) (rename_attempt t) id db = (Some (UnknownId (d_id d)), db)
        \<or> quiet (place_row (d_id d) (rename_attempt t) id db)"
      using rename_attempt_quiet [OF assms] by (auto simp: place_row_def split: option.split)
    then have "db_ok (snd (retry_conflict (place_row (d_id d) (rename_attempt t)) id id RaceLost db))"
    proof
      assume "quiet (place_row (d_id d) (rename_attempt t) id db)"
      then show ?thesis using retry_quiet [of "place_row (d_id d) (rename_attempt t)" db] by (simp add: quiet_def)
    qed (use assms in \<open>simp add: retry_conflict_def\<close>)
    then show ?thesis using Inr by (simp add: op_rename_group_def)
  qed
qed

theorem create_dashboard_sound_witness:
  "db_ok (snd (op_create_dashboard ''d'' ''7d'' 1 (Some 2) id id sample_db))"
  using create_dashboard_sound [OF sample_ok] by blast

text \<open>
  Whatever other processes write between a read of the order and the write that follows, an
  update answers a conflict only in its own words, after its second attempt: never the tables'
  taken key.
\<close>

theorem update_dashboard_conflict:
  "fst (op_update_dashboard i inp env1 env2 db) \<noteq> Some KeyConflict"
  by (auto simp: op_update_dashboard_def retry_conflict_def editable_dashboard_def get_dashboard_def Let_def
    split: sum.splits option.splits if_splits prod.splits)

text \<open> C36:
  A dashboard leaving its group without a place of its own goes right after the group it left;
  but when the last tab left behind is archived the call is refused, and the refusal names that
  archived tab, which the caller never named.
\<close>

theorem leave_group_archived_last:
  assumes "others = group_rows (without ord (d_id row)) (d_group row)" and "others \<noteq> []"
    and "d_archived_at (last others) \<noteq> []" and "distinct (map d_id ord)" and "0 \<notin> set (map d_id ord)"
  shows "leave_group ord row None act db = (Some (AfterArchived (d_id (last others))), db)"
proof -
  let ?x = "last others"
  have x: "?x \<in> set (without ord (d_id row))" using assms(1,2) last_in_set [OF assms(2)] by (auto simp: group_rows_def)
  have d: "distinct (map d_id (without ord (d_id row)))" using assms(4) by (simp add: without_def distinct_map_filter)
  have f: "find_row (without ord (d_id row)) (d_id ?x) = Some ?x" by (rule find_row_eq [OF d x])
  have nz: "d_id ?x \<noteq> 0" using x assms(5) by (auto simp: without_def)
  have k: "key_after_group ord (d_id row) (Some (d_id ?x)) = Inl (AfterArchived (d_id ?x))"
    using f nz assms(3) by (simp add: key_after_group_def Let_def refuse_archived_after_def)
  show ?thesis unfolding leave_group_def Let_def assms(1) [symmetric]
    using assms(2) k by (simp add: fail_step_def)
qed

theorem leave_group_archived_last_witness:
  "leave_group [sample_row 1 1 ''a0'', (sample_row 2 1 ''a1'')\<lparr>d_archived_at := ''t''\<rparr>] (sample_row 1 1 ''a0'') None ''x'' sample_db
     = (Some (AfterArchived 2), sample_db)"
proof -
  have "group_rows (without [sample_row 1 1 ''a0'', (sample_row 2 1 ''a1'')\<lparr>d_archived_at := ''t''\<rparr>]
      (d_id (sample_row 1 1 ''a0''))) (d_group (sample_row 1 1 ''a0'')) = [(sample_row 2 1 ''a1'')\<lparr>d_archived_at := ''t''\<rparr>]"
    by code_simp
  from leave_group_archived_last [OF this [symmetric]] show ?thesis by (simp add: sample_row_def)
qed

end
