(* ===== verification/WidgetPlace.thy ===== *)
theory WidgetPlace
  imports DashTables
begin

text \<open>
  Placing a widget among its dashboard's (\<^verbatim>\<open>keyAfter\<close> and \<^verbatim>\<open>widgetKeyAfter\<close> of
  \<^verbatim>\<open>internal/reporting/place.go\<close>).
\<close>

section \<open>Placing a widget\<close>

text \<open>A \<open>placed\<close> item is its id and key.\<close>

definition key_after_item ::
  "(int \<times> string) list \<Rightarrow> int option \<Rightarrow> (int \<Rightarrow> place_error) \<Rightarrow> place_error + string" where
  "key_after_item ord after not_in =
     (let put = (\<lambda>i. with_key_error (between (if i > 0 then snd (ord ! nat (i - 1)) else [])
                      (if i < int (length ord) then snd (ord ! nat i) else [])))
      in case after of
        None \<Rightarrow> put (int (length ord))
      | Some a \<Rightarrow>
          if a = 0 then put 0
          else let i = index_func (\<lambda>p. fst p = a) ord in
            if i < 0 then Inl (not_in a) else put (i + 1))"

record widget =
  w_id :: int
  w_dashboard :: int
  w_name :: string
  w_key :: string
  w_archived_at :: string

definition list_widgets :: "widget list \<Rightarrow> int \<Rightarrow> widget list" where
  "list_widgets ws dash = sort_key w_key (filter (\<lambda>w. w_dashboard w = dash) ws)"

definition widget_key_after :: "widget list \<Rightarrow> widget \<Rightarrow> int option \<Rightarrow> place_error + string" where
  "widget_key_after ws w after =
     (let xs = filter (\<lambda>x. w_id x \<noteq> w_id w) (list_widgets ws (w_dashboard w)) in
      case find (\<lambda>x. after = Some (w_id x) \<and> w_archived_at x \<noteq> []) xs of
        Some x \<Rightarrow> Inl (AfterArchivedWidget (w_id x))
      | None \<Rightarrow> key_after_item (map (\<lambda>x. (w_id x, w_key x)) xs) after
          (\<lambda>i. AfterNotWidget i (w_dashboard w)))"

section \<open>Widgets\<close>

lemma index_func_found:
  assumes "0 \<le> index_func p xs"
  obtains us x vs where "xs = us @ x # vs" "p x" "index_func p xs = int (length us)"
proof -
  have ex: "\<exists>x \<in> set xs. p x" using assms by (auto simp: index_func_split split: if_splits)
  then obtain us x vs where "xs = us @ x # vs" "p x" "\<forall>u \<in> set us. \<not> p u"
    by (metis split_list_first_prop)
  moreover from this have "takeWhile (\<lambda>x. \<not> p x) xs = us" by (simp add: takeWhile_append2)
  ultimately show thesis using that ex by (simp add: index_func_split)
qed

lemma key_after_item_place:
  assumes "key_after_item ord after f = Inr k"
  shows "\<exists>us vs. ord = us @ vs
    \<and> between (if us = [] then [] else snd (last us)) (if vs = [] then [] else snd (hd vs)) = Inr k
    \<and> (case after of None \<Rightarrow> vs = [] | Some a \<Rightarrow> if a = 0 then us = [] else us \<noteq> [] \<and> fst (last us) = a)"
proof -
  define put where "put i = with_key_error (between (if i > 0 then snd (ord ! nat (i - 1)) else [])
                      (if i < int (length ord) then snd (ord ! nat i) else []))" for i
  have put: "put (int (length us)) = with_key_error
      (between (if us = [] then [] else snd (last us)) (if vs = [] then [] else snd (hd vs)))"
    if "ord = us @ vs" for us vs
    using that by (cases us rule: rev_exhaust; cases vs) (auto simp: put_def nth_append)
  have def: "key_after_item ord after f = (case after of
        None \<Rightarrow> put (int (length ord))
      | Some a \<Rightarrow> if a = 0 then put 0
          else if index_func (\<lambda>p. fst p = a) ord < 0 then Inl (f a) else put (index_func (\<lambda>p. fst p = a) ord + 1))"
    by (simp add: key_after_item_def put_def Let_def split: option.split)
  have between: "between (if us = [] then [] else snd (last us)) (if vs = [] then [] else snd (hd vs)) = Inr k"
    if "ord = us @ vs" "put (int (length us)) = Inr k" for us vs
    using that(2) unfolding put [OF that(1)] by (rule with_key_error_Inr [THEN iffD1])
  consider "after = None" | "after = Some 0" | a where "after = Some a" "a \<noteq> 0" by (cases after) auto
  then show ?thesis
  proof cases
    case 1
    then show ?thesis using assms def between [of ord "[]"] by (rule_tac exI [of _ ord], rule_tac exI [of _ "[]"]) simp
  next
    case 2
    then show ?thesis using assms def between [of "[]" ord] by (rule_tac exI [of _ "[]"], rule_tac exI [of _ ord]) simp
  next
    case 3
    then have i: "0 \<le> index_func (\<lambda>p. fst p = a) ord" "put (index_func (\<lambda>p. fst p = a) ord + 1) = Inr k"
      using assms def by (auto split: if_splits)
    obtain us x vs where s: "ord = us @ x # vs" "fst x = a" "index_func (\<lambda>p. fst p = a) ord = int (length us)"
      by (rule index_func_found [OF i(1)])
    have "put (int (length (us @ [x]))) = Inr k" using i(2) s(3) by (simp add: add.commute)
    then show ?thesis using 3 s between [of "us @ [x]" vs] by (rule_tac exI [of _ "us @ [x]"], rule_tac exI [of _ vs]) simp
  qed
qed

text \<open>
  A widget's new key puts it, among the other widgets of its dashboard (archived ones included),
  strictly between the keys of its new neighbours: last without \<open>after\<close>, first for 0, else
  right after the named widget, which is live.
\<close>

theorem widget_key_after_sorted:
  assumes "widget_key_after ws w after = Inr k"
    and "xs = filter (\<lambda>x. w_id x \<noteq> w_id w) (list_widgets ws (w_dashboard w))"
    and "distinct (map w_key (list_widgets ws (w_dashboard w)))" and "[] \<notin> w_key ` set ws"
  shows "\<exists>us vs. xs = us @ vs \<and> sorted_wrt (<) (map w_key us @ k # map w_key vs)
    \<and> (case after of None \<Rightarrow> vs = []
       | Some a \<Rightarrow> if a = 0 then us = []
           else us \<noteq> [] \<and> w_id (last us) = a \<and> w_archived_at (last us) = [])"
proof -
  let ?all = "list_widgets ws (w_dashboard w)"
  have "sorted_wrt (<) (map w_key ?all)"
    using assms(3) by (simp add: list_widgets_def strict_sorted_iff)
  then have sorted: "sorted_wrt (<) (map w_key xs)"
    by (simp add: assms(2) sorted_wrt_map sorted_wrt_filter)
  have ne: "[] \<notin> set (map w_key xs)" using assms(4) by (auto simp: assms(2) list_widgets_def)
  have live: "find (\<lambda>x. after = Some (w_id x) \<and> w_archived_at x \<noteq> []) xs = None"
    and key: "key_after_item (map (\<lambda>x. (w_id x, w_key x)) xs) after (\<lambda>i. AfterNotWidget i (w_dashboard w)) = Inr k"
    using assms(1) by (auto simp: widget_key_after_def Let_def assms(2) split: option.splits)
  obtain us' vs' where p: "map (\<lambda>x. (w_id x, w_key x)) xs = us' @ vs'"
      "between (if us' = [] then [] else snd (last us')) (if vs' = [] then [] else snd (hd vs')) = Inr k"
      "case after of None \<Rightarrow> vs' = [] | Some a \<Rightarrow> if a = 0 then us' = [] else us' \<noteq> [] \<and> fst (last us') = a"
    using key_after_item_place [OF key] by blast
  obtain us vs where s: "xs = us @ vs" "us' = map (\<lambda>x. (w_id x, w_key x)) us" "vs' = map (\<lambda>x. (w_id x, w_key x)) vs"
    using p(1) by (auto simp: map_eq_append_conv)
  have "sorted_wrt (<) (map w_key us @ k # map w_key vs)"
  proof (rule sk.insert_sorted)
    show "sorted_wrt (<) (map w_key us @ map w_key vs)" "[] \<notin> set (map w_key us @ map w_key vs)"
      using sorted ne s(1) by simp_all
    show "between (if map w_key us = [] then [] else last (map w_key us))
        (if map w_key vs = [] then [] else hd (map w_key vs)) = Inr k"
      using p(2) s(2,3) by (simp add: last_map hd_map split: if_splits)
  qed
  moreover have "w_archived_at (last us) = []" if "after = Some (w_id (last us))" "us \<noteq> []"
  proof -
    have "last us \<in> set xs" using s(1) that(2) by simp
    then show ?thesis using live that(1) by (auto simp: find_None_iff)
  qed
  ultimately show ?thesis using p(3) s by (rule_tac exI [of _ us], rule_tac exI [of _ vs]) (auto simp: last_map split: option.splits if_splits)
qed

definition sample_widget :: "int \<Rightarrow> string \<Rightarrow> widget" where
  "sample_widget i k = \<lparr>w_id = i, w_dashboard = 7, w_name = ''w'', w_key = k, w_archived_at = []\<rparr>"

theorem widget_key_after_sorted_witness:
  "\<exists>us vs. [sample_widget 1 ''a0'', sample_widget 3 ''a2''] = us @ vs
     \<and> sorted_wrt (<) (map w_key us @ ''a1'' # map w_key vs)"
proof -
  let ?ws = "[sample_widget 1 ''a0'', sample_widget 3 ''a2'', sample_widget 5 ''a4'']"
  have a: "widget_key_after ?ws (sample_widget 5 ''a4'') (Some 1) = Inr ''a1''" by code_simp
  have b: "[sample_widget 1 ''a0'', sample_widget 3 ''a2'']
      = filter (\<lambda>x. w_id x \<noteq> w_id (sample_widget 5 ''a4'')) (list_widgets ?ws (w_dashboard (sample_widget 5 ''a4'')))"
    by code_simp
  have c: "distinct (map w_key (list_widgets ?ws (w_dashboard (sample_widget 5 ''a4''))))" by code_simp
  have d: "[] \<notin> w_key ` set ?ws" by (simp add: sample_widget_def)
  show ?thesis using widget_key_after_sorted [OF a b c d] by blast
qed

end
