(* ===== verification/MonitorTables.thy ===== *)
theory MonitorTables
  imports Prelude "HOL-Library.Option_ord" "HOL-Library.Product_Lexorder"
begin

text \<open>
  The monitors and monitor_domains tables (\<^verbatim>\<open>internal/store/sqlite/monitors.go\<close>), the state
  of a manual check on a monitor's row (\<^verbatim>\<open>internal/store/monitors.go\<close>), and the writes of projects
  that reach these tables (\<^verbatim>\<open>internal/store/sqlite/registry.go\<close>): a new project, an edit of its
  origins, archiving, restoring and deleting it. Of a project's row the id, whether it is
  archived and its origins are kept: its name, its sort key and its other tables play no part
  here. An audit entry is its action with its details; the bump of the configuration version
  beside it is left out.

  A time column holds RFC 3339 UTC text or the empty text. Texts of that one format compare as
  the seconds they stand for, and the empty text is below all of them, so a column is a
  \<^typ>\<open>int option\<close> under the order of \<^theory_text>\<open>Option_ord\<close>. \<open>maindomain.OfOrigin\<close> rests on the public
  suffix list, a package outside the repository: it is the parameter \<open>main_domain\<close>.
\<close>

section \<open>Rows\<close>

type_synonym time_text = "int option"

record mon_result =
  r_checked :: time_text
  r_up :: bool
  r_status :: int
  r_reason :: string
  r_error :: string
  r_ms :: int

record cert_state =
  c_expires :: time_text
  c_issuer :: string
  c_valid :: bool
  c_error :: string
  c_checked :: time_text

record mon =
  m_project :: int
  m_origin :: string
  m_enabled :: bool
  m_contains :: string
  m_cert :: cert_state
  m_redirects :: int
  m_requested :: time_text
  m_finished :: time_text
  m_last :: mon_result

definition check_pending :: "mon \<Rightarrow> bool" where
  "check_pending m \<longleftrightarrow> m_requested m \<noteq> None \<and> (m_finished m = None \<or> m_finished m < m_requested m)"

definition check_not_run :: "mon \<Rightarrow> bool" where
  "check_not_run m \<longleftrightarrow> m_requested m \<noteq> None \<and> \<not> check_pending m \<and> r_checked (m_last m) < m_requested m"

record mon_domain =
  dm_project :: int
  dm_domain :: string
  dm_expires :: string
  dm_checked :: time_text

record mon_project =
  p_id :: int
  p_archived :: bool
  p_origins :: "string list"

record mon_db =
  md_projects :: "mon_project list"
  md_rows :: "mon list"
  md_domains :: "mon_domain list"
  md_audit :: "(string \<times> string list) list"
  md_now :: int

datatype mon_error =
    UnknownProject int
  | NotEligible string
  | ProjectArchived int
  | NotMonitored string
  | CheckRunning string
  | CheckedMomentsAgo string

section \<open>Reads\<close>

definition is_mon :: "int \<Rightarrow> string \<Rightarrow> mon \<Rightarrow> bool" where
  "is_mon p ori m \<longleftrightarrow> m_project m = p \<and> m_origin m = ori"

definition get_mon :: "mon_db \<Rightarrow> int \<Rightarrow> string \<Rightarrow> mon option" where
  "get_mon db p ori = find (is_mon p ori) (md_rows db)"

definition project_exists :: "mon_db \<Rightarrow> int \<Rightarrow> bool" where
  "project_exists db p = list_ex (\<lambda>x. p_id x = p) (md_projects db)"

definition project_live :: "mon_db \<Rightarrow> int \<Rightarrow> bool" where
  "project_live db p = list_ex (\<lambda>x. p_id x = p \<and> \<not> p_archived x) (md_projects db)"

definition allowed_origins :: "mon_db \<Rightarrow> int \<Rightarrow> string list" where
  "allowed_origins db p = (case find (\<lambda>x. p_id x = p) (md_projects db) of None \<Rightarrow> [] | Some x \<Rightarrow> p_origins x)"

definition list_monitors :: "mon_db \<Rightarrow> int \<Rightarrow> mon list" where
  "list_monitors db p = sort_key m_origin (filter (\<lambda>m. m_project m = p) (md_rows db))"

definition list_enabled_monitors :: "mon_db \<Rightarrow> mon list" where
  "list_enabled_monitors db =
     sort_key (\<lambda>m. (m_project m, m_origin m)) (filter (\<lambda>m. m_enabled m \<and> project_live db (m_project m)) (md_rows db))"

definition list_monitor_domains :: "mon_db \<Rightarrow> int \<Rightarrow> mon_domain list" where
  "list_monitor_domains db p = sort_key dm_domain (filter (\<lambda>d. dm_project d = p) (md_domains db))"

section \<open>Writes of the runner\<close>

definition update_mon :: "int \<Rightarrow> string \<Rightarrow> (mon \<Rightarrow> mon) \<Rightarrow> mon_db \<Rightarrow> mon_db" where
  "update_mon p ori f db = db\<lparr>md_rows := map (\<lambda>m. if is_mon p ori m then f m else m) (md_rows db)\<rparr>"

definition set_monitor_cert :: "int \<Rightarrow> string \<Rightarrow> cert_state \<Rightarrow> mon_db \<Rightarrow> mon_db" where
  "set_monitor_cert p ori c = update_mon p ori (\<lambda>m. m\<lparr>m_cert := c\<rparr>)"

definition set_monitor_cert_error :: "int \<Rightarrow> string \<Rightarrow> string \<Rightarrow> mon_db \<Rightarrow> mon_db" where
  "set_monitor_cert_error p ori msg = update_mon p ori (\<lambda>m. m\<lparr>m_cert := (m_cert m)\<lparr>c_error := msg\<rparr>\<rparr>)"

definition set_monitor_redirects :: "int \<Rightarrow> string \<Rightarrow> int \<Rightarrow> mon_db \<Rightarrow> mon_db" where
  "set_monitor_redirects p ori n = update_mon p ori (\<lambda>m. if m_redirects m \<noteq> n then m\<lparr>m_redirects := n\<rparr> else m)"

definition set_monitor_last :: "int \<Rightarrow> string \<Rightarrow> mon_result \<Rightarrow> mon_db \<Rightarrow> mon_db" where
  "set_monitor_last p ori r = update_mon p ori (\<lambda>m. m\<lparr>m_last := r\<rparr>)"

definition monitor_domains_in_use :: "(string \<Rightarrow> string) \<Rightarrow> mon_db \<Rightarrow> int \<Rightarrow> string list" where
  "monitor_domains_in_use main_domain db p =
     map (\<lambda>m. main_domain (m_origin m)) (filter (\<lambda>m. m_project m = p) (md_rows db))"

definition set_monitor_domain :: "(string \<Rightarrow> string) \<Rightarrow> int \<Rightarrow> string \<Rightarrow> string \<Rightarrow> time_text \<Rightarrow> mon_db \<Rightarrow> mon_db" where
  "set_monitor_domain main_domain p dname expires checked db =
     (if dname \<notin> set (monitor_domains_in_use main_domain db p) then db
      else if list_ex (\<lambda>d. dm_project d = p \<and> dm_domain d = dname) (md_domains db) then
        db\<lparr>md_domains := map (\<lambda>d. if dm_project d = p \<and> dm_domain d = dname
             then d\<lparr>dm_expires := expires, dm_checked := checked\<rparr> else d) (md_domains db)\<rparr>
      else db\<lparr>md_domains := md_domains db @
             [\<lparr>dm_project = p, dm_domain = dname, dm_expires = expires, dm_checked = checked\<rparr>]\<rparr>)"

definition finish_monitor_check :: "int \<Rightarrow> string \<Rightarrow> time_text \<Rightarrow> time_text \<Rightarrow> mon_db \<Rightarrow> mon_db" where
  "finish_monitor_check p ori requested finished =
     update_mon p ori (\<lambda>m. if m_requested m = requested then m\<lparr>m_finished := finished\<rparr> else m)"

section \<open>Writes of the operator\<close>

text \<open>\<open>finishPendingChecks\<close>; the empty origin is every monitor of the project.\<close>

definition finish_pending_checks :: "int \<Rightarrow> string \<Rightarrow> mon_db \<Rightarrow> mon_db" where
  "finish_pending_checks p ori db = db\<lparr>md_rows := map (\<lambda>m.
     if m_project m = p \<and> (ori = [] \<or> m_origin m = ori) \<and> m_requested m \<noteq> None
        \<and> (m_finished m = None \<or> m_finished m < m_requested m)
     then m\<lparr>m_finished := max (Some (md_now db)) (m_requested m)\<rparr> else m) (md_rows db)\<rparr>"

definition new_mon :: "int \<Rightarrow> string \<Rightarrow> mon" where
  "new_mon p ori = \<lparr>m_project = p, m_origin = ori, m_enabled = False, m_contains = [],
     m_cert = \<lparr>c_expires = None, c_issuer = [], c_valid = False, c_error = [], c_checked = None\<rparr>,
     m_redirects = 0, m_requested = None, m_finished = None,
     m_last = \<lparr>r_checked = None, r_up = False, r_status = 0, r_reason = [], r_error = [], r_ms = 0\<rparr>\<rparr>"

text \<open>The upsert of \<open>SetMonitor\<close>: a monitor switched on forgets when its certificate was read.\<close>

definition upsert_mon :: "int \<Rightarrow> string \<Rightarrow> bool \<Rightarrow> string \<Rightarrow> mon_db \<Rightarrow> mon_db" where
  "upsert_mon p ori en con db =
     (if get_mon db p ori = None then db\<lparr>md_rows := md_rows db @ [(new_mon p ori)\<lparr>m_enabled := en, m_contains := con\<rparr>]\<rparr>
      else update_mon p ori (\<lambda>m. m\<lparr>
        m_cert := (if m_enabled m \<or> \<not> en then m_cert m else (m_cert m)\<lparr>c_checked := None\<rparr>),
        m_enabled := en, m_contains := con\<rparr>) db)"

definition set_monitor ::
  "(string list \<Rightarrow> string list) \<Rightarrow> int \<Rightarrow> string \<Rightarrow> bool option \<Rightarrow> string option \<Rightarrow> string \<Rightarrow> mon_db \<Rightarrow> mon_error + mon \<times> mon_db" where
  "set_monitor eligible p ori enabled contains act db =
     (if \<not> project_exists db p then Inl (UnknownProject p)
      else
       let exists = get_mon db p ori \<noteq> None;
           cur = (case get_mon db p ori of None \<Rightarrow> new_mon p ori | Some m \<Rightarrow> m);
           en = (case enabled of None \<Rightarrow> m_enabled cur | Some b \<Rightarrow> b);
           con = (case contains of None \<Rightarrow> m_contains cur | Some s \<Rightarrow> s);
           changed = (if en \<noteq> m_enabled cur then [if en then ''enabled=true'' else ''enabled=false''] else []) @ (if con \<noteq> m_contains cur then [''contains''] else [])
       in if changed = [] then Inr (cur, db)
          else if (en \<or> \<not> exists) \<and> ori \<notin> set (eligible (allowed_origins db p)) then Inl (NotEligible ori)
          else
            let db1 = upsert_mon p ori en con db;
                db2 = (if \<not> en then finish_pending_checks p ori db1 else db1);
                db3 = db2\<lparr>md_audit := (act, (''origin='' @ ori) # changed) # md_audit db2\<rparr>
            in Inr (the (get_mon db3 p ori), db3))"

definition remove_monitors_off_origins ::
  "(string \<Rightarrow> string) \<Rightarrow> int \<Rightarrow> string list \<Rightarrow> mon_db \<Rightarrow> mon_db" where
  "remove_monitors_off_origins main_domain p eligible db =
     (let removed = sort (map m_origin (filter (\<lambda>m. m_project m = p \<and> m_origin m \<notin> set eligible) (md_rows db)));
          db1 = db\<lparr>md_rows := filter (\<lambda>m. \<not> (m_project m = p \<and> m_origin m \<notin> set eligible)) (md_rows db),
                   md_audit := rev (map (\<lambda>ori. (''monitor.remove'', [''origin removed: '' @ ori])) removed) @ md_audit db\<rparr>;
          used = monitor_domains_in_use main_domain db1 p
      in db1\<lparr>md_domains := filter (\<lambda>d. \<not> (dm_project d = p \<and> dm_domain d \<notin> set used)) (md_domains db1)\<rparr>)"

text \<open>\<open>RequestMonitorCheck\<close> at second \<open>at\<close>, with the cooldown in seconds.\<close>

definition may_request :: "mon_db \<Rightarrow> int \<Rightarrow> string \<Rightarrow> int \<Rightarrow> mon \<Rightarrow> bool" where
  "may_request db p ori cutoff m \<longleftrightarrow> is_mon p ori m \<and> m_enabled m \<and> project_live db p
     \<and> (m_requested m = None \<or> (m_finished m \<noteq> None \<and> m_requested m \<le> m_finished m))
     \<and> m_requested m \<le> Some cutoff"

definition request_monitor_check :: "int \<Rightarrow> string \<Rightarrow> int \<Rightarrow> int \<Rightarrow> string \<times> string list \<Rightarrow> mon_db \<Rightarrow> mon_error + mon_db" where
  "request_monitor_check p ori at cooldown entry db =
     (let cutoff = at - cooldown in
      if list_ex (may_request db p ori cutoff) (md_rows db) then
        Inr (db\<lparr>md_rows := map (\<lambda>m. if may_request db p ori cutoff m
                 then m\<lparr>m_requested := Some at, m_finished := None\<rparr> else m) (md_rows db),
               md_audit := entry # md_audit db\<rparr>)
      else if \<not> project_exists db p then Inl (UnknownProject p)
      else if list_ex (\<lambda>x. p_id x = p \<and> p_archived x) (md_projects db) then Inl (ProjectArchived p)
      else (case get_mon db p ori of
          None \<Rightarrow> Inl (NotMonitored ori)
        | Some m \<Rightarrow>
            if \<not> m_enabled m then Inl (NotMonitored ori)
            else if check_pending m then Inl (CheckRunning ori)
            else Inl (CheckedMomentsAgo ori)))"

section \<open>Writes of projects\<close>

text \<open>
  \<open>insertProject\<close> under the id SQLite assigns, which no project has: \<open>AUTOINCREMENT\<close> gives no id
  twice.
\<close>

definition insert_project :: "int \<Rightarrow> string list \<Rightarrow> string \<times> string list \<Rightarrow> mon_db \<Rightarrow> mon_db" where
  "insert_project new origins entry db =
     db\<lparr>md_projects := md_projects db @ [\<lparr>p_id = new, p_archived = False, p_origins = origins\<rparr>],
        md_audit := entry # md_audit db\<rparr>"

text \<open>\<open>kept\<close> is \<open>MonitorOrigins\<close>, the origins a monitor may still use; None is its nil.\<close>

definition update_project ::
  "(string \<Rightarrow> string) \<Rightarrow> int \<Rightarrow> string list \<Rightarrow> string list option \<Rightarrow> string \<times> string list \<Rightarrow> mon_db \<Rightarrow> mon_error + mon_db" where
  "update_project main_domain p origins kept entry db =
     (if \<not> project_exists db p then Inl (UnknownProject p)
      else
        let db1 = db\<lparr>md_projects := map (\<lambda>x. if p_id x = p then x\<lparr>p_origins := origins\<rparr> else x) (md_projects db)\<rparr>;
            db2 = (case kept of None \<Rightarrow> db1 | Some os \<Rightarrow> remove_monitors_off_origins main_domain p os db1)
        in Inr (db2\<lparr>md_audit := entry # md_audit db2\<rparr>))"

definition set_project_archived :: "int \<Rightarrow> bool \<Rightarrow> string \<times> string list \<Rightarrow> mon_db \<Rightarrow> mon_error + mon_db" where
  "set_project_archived p archived entry db =
     (if \<not> project_exists db p then Inl (UnknownProject p)
      else
        let db1 = db\<lparr>md_projects := map (\<lambda>x. if p_id x = p then x\<lparr>p_archived := archived\<rparr> else x) (md_projects db)\<rparr>;
            db2 = (if archived then finish_pending_checks p [] db1 else db1)
        in Inr (db2\<lparr>md_audit := entry # md_audit db2\<rparr>))"

text \<open>\<open>deleteProject\<close>, on the tables kept here; \<open>DeleteProjectData\<close> and the purge call it.\<close>

definition delete_project :: "int \<Rightarrow> mon_db \<Rightarrow> mon_error + mon_db" where
  "delete_project p db =
     (if \<not> project_exists db p then Inl (UnknownProject p)
      else Inr (db\<lparr>md_rows := filter (\<lambda>m. m_project m \<noteq> p) (md_rows db),
                   md_domains := filter (\<lambda>d. dm_project d \<noteq> p) (md_domains db),
                   md_projects := filter (\<lambda>x. p_id x \<noteq> p) (md_projects db)\<rparr>))"

definition delete_project_data :: "int \<Rightarrow> string \<times> string list \<Rightarrow> mon_db \<Rightarrow> mon_error + mon_db" where
  "delete_project_data p entry db = (case delete_project p db of
     Inl e \<Rightarrow> Inl e
   | Inr db1 \<Rightarrow> Inr (db1\<lparr>md_audit := entry # md_audit db1\<rparr>))"

section \<open>What every write keeps\<close>

text \<open>
  One row for each project and origin, of a project there is, no request pending on a monitor
  that is off, and no reading of a domain that no monitor of the project is on.
\<close>

definition mon_key :: "mon \<Rightarrow> int \<times> string" where
  "mon_key m = (m_project m, m_origin m)"

definition mon_ok :: "(string \<Rightarrow> string) \<Rightarrow> mon_db \<Rightarrow> bool" where
  "mon_ok main_domain db \<longleftrightarrow> distinct (map mon_key (md_rows db))
     \<and> (\<forall>m \<in> set (md_rows db). project_exists db (m_project m))
     \<and> (\<forall>m \<in> set (md_rows db). check_pending m \<longrightarrow> m_enabled m)
     \<and> (\<forall>d \<in> set (md_domains db). dm_domain d \<in> set (monitor_domains_in_use main_domain db (dm_project d)))"

lemma project_exists_upd [simp]:
  "project_exists (db\<lparr>md_audit := l\<rparr>) = project_exists db" "project_exists (db\<lparr>md_now := t\<rparr>) = project_exists db"
  "project_exists (db\<lparr>md_rows := ms\<rparr>) = project_exists db" "project_exists (db\<lparr>md_domains := ds\<rparr>) = project_exists db"
  by (simp_all add: project_exists_def fun_eq_iff)

lemma project_exists_cong: "md_projects db' = md_projects db \<Longrightarrow> project_exists db' = project_exists db"
  by (simp add: project_exists_def fun_eq_iff)

lemma is_mon_key: "is_mon p ori m \<longleftrightarrow> mon_key m = (p, ori)"
  by (simp add: is_mon_def mon_key_def)

lemma update_mon_fields [frame_simps]:
  "md_domains (update_mon p ori f db) = md_domains db" "md_projects (update_mon p ori f db) = md_projects db"
  "md_now (update_mon p ori f db) = md_now db" "md_audit (update_mon p ori f db) = md_audit db"
  by (simp_all add: update_mon_def)

text \<open>Any write of rows that keeps their keys and leaves no switched-off monitor pending.\<close>

lemma mon_ok_rows:
  assumes "mon_ok main_domain db" and "md_rows db' = map f (md_rows db)" and "md_domains db' = md_domains db"
    and "md_projects db' = md_projects db"
    and "\<And>m. m \<in> set (md_rows db) \<Longrightarrow> mon_key (f m) = mon_key m"
    and "\<And>m. m \<in> set (md_rows db) \<Longrightarrow> check_pending (f m) \<Longrightarrow> m_enabled (f m)"
  shows "mon_ok main_domain db'"
proof -
  have keys: "map mon_key (md_rows db') = map mon_key (md_rows db)" using assms(2,5) by simp
  have dist: "distinct (map mon_key (md_rows db'))" unfolding keys using assms(1) by (simp add: mon_ok_def)
  have used: "monitor_domains_in_use main_domain db' p = monitor_domains_in_use main_domain db p" for p
  proof -
    have "monitor_domains_in_use main_domain x p
        = map (\<lambda>k. main_domain (snd k)) (filter (\<lambda>k. fst k = p) (map mon_key (md_rows x)))" for x
      by (simp add: monitor_domains_in_use_def filter_map comp_def mon_key_def)
    then show ?thesis using keys by simp
  qed
  have "project_exists db' (m_project (f m))" if "m \<in> set (md_rows db)" for m
    using that assms(1,4) assms(5) [OF that] by (simp add: mon_ok_def project_exists_def mon_key_def)
  then show ?thesis using assms(1-3) assms(6) dist used by (auto simp: mon_ok_def)
qed

lemma update_mon_ok:
  assumes "mon_ok main_domain db"
    and "\<And>m. mon_key (f m) = mon_key m"
    and "\<And>m. m \<in> set (md_rows db) \<Longrightarrow> is_mon p ori m \<Longrightarrow> check_pending (f m) \<Longrightarrow> m_enabled (f m)"
  shows "mon_ok main_domain (update_mon p ori f db)"
  by (rule mon_ok_rows [OF assms(1), of _ "\<lambda>m. if is_mon p ori m then f m else m"])
    (use assms in \<open>auto simp: update_mon_def mon_ok_def\<close>)

lemma runner_writes_ok:
  assumes "mon_ok main_domain db"
  shows "mon_ok main_domain (set_monitor_cert p ori c db)" "mon_ok main_domain (set_monitor_cert_error p ori s db)"
    "mon_ok main_domain (set_monitor_redirects p ori n db)" "mon_ok main_domain (set_monitor_last p ori r db)"
    "req \<le> fin \<Longrightarrow> mon_ok main_domain (finish_monitor_check p ori req fin db)"
proof -
  have e: "m_enabled m" if "m \<in> set (md_rows db)" "check_pending m" for m
    using assms that by (simp add: mon_ok_def)
  show "mon_ok main_domain (set_monitor_cert p ori c db)" unfolding set_monitor_cert_def
    by (rule update_mon_ok [OF assms]) (use e in \<open>auto simp: mon_key_def check_pending_def split: if_splits\<close>)
  show "mon_ok main_domain (set_monitor_cert_error p ori s db)" unfolding set_monitor_cert_error_def
    by (rule update_mon_ok [OF assms]) (use e in \<open>auto simp: mon_key_def check_pending_def split: if_splits\<close>)
  show "mon_ok main_domain (set_monitor_redirects p ori n db)" unfolding set_monitor_redirects_def
    by (rule update_mon_ok [OF assms]) (use e in \<open>auto simp: mon_key_def check_pending_def split: if_splits\<close>)
  show "mon_ok main_domain (set_monitor_last p ori r db)" unfolding set_monitor_last_def
    by (rule update_mon_ok [OF assms]) (use e in \<open>auto simp: mon_key_def check_pending_def split: if_splits\<close>)
  show "req \<le> fin \<Longrightarrow> mon_ok main_domain (finish_monitor_check p ori req fin db)"
    unfolding finish_monitor_check_def
    by (rule update_mon_ok [OF assms])
      (use e in \<open>auto simp: mon_key_def check_pending_def less_eq_option_None_is_None split: if_splits\<close>)
qed

lemma set_monitor_domain_ok: "mon_ok main_domain db \<Longrightarrow> mon_ok main_domain (set_monitor_domain main_domain p dname e c db)"
  by (auto simp: mon_ok_def set_monitor_domain_def monitor_domains_in_use_def project_exists_def)

lemma finish_pending_ok: "mon_ok main_domain db \<Longrightarrow> mon_ok main_domain (finish_pending_checks p ori db)"
  by (rule mon_ok_rows [where f = "\<lambda>m. if m_project m = p \<and> (ori = [] \<or> m_origin m = ori) \<and> m_requested m \<noteq> None
        \<and> (m_finished m = None \<or> m_finished m < m_requested m)
     then m\<lparr>m_finished := max (Some (md_now db)) (m_requested m)\<rparr> else m"])
    (auto simp: finish_pending_checks_def mon_ok_def mon_key_def check_pending_def max_def split: if_splits)

lemma upsert_rows:
  assumes "mon_ok main_domain db"
  shows "\<exists>f. (\<forall>m. mon_key (f m) = mon_key m) \<and> (\<forall>m. check_pending (f m) = check_pending m)
    \<and> (\<forall>m. m_enabled (f m) = (if is_mon p ori m then en else m_enabled m))
    \<and> md_rows (upsert_mon p ori en con db) = map f (md_rows db)
        @ (if get_mon db p ori = None then [(new_mon p ori)\<lparr>m_enabled := en, m_contains := con\<rparr>] else [])"
proof (cases "get_mon db p ori = None")
  case True
  then have no: "\<forall>m \<in> set (md_rows db). \<not> is_mon p ori m" by (auto simp: get_mon_def find_None_iff)
  let ?f = "\<lambda>m. if is_mon p ori m then m\<lparr>m_enabled := en\<rparr> else m"
  have "map ?f (md_rows db) = md_rows db" using no by (intro map_idI) auto
  then show ?thesis using True
    by (intro exI [of _ ?f]) (auto simp: upsert_mon_def mon_key_def check_pending_def)
next
  case False
  then show ?thesis
    by (intro exI [of _ "\<lambda>m. if is_mon p ori m then m\<lparr>
        m_cert := (if m_enabled m \<or> \<not> en then m_cert m else (m_cert m)\<lparr>c_checked := None\<rparr>),
        m_enabled := en, m_contains := con\<rparr> else m"])
      (auto simp: upsert_mon_def update_mon_def mon_key_def check_pending_def)
qed

lemma upsert_fields [frame_simps]: "md_domains (upsert_mon p ori en con db) = md_domains db"
  "md_now (upsert_mon p ori en con db) = md_now db" "md_projects (upsert_mon p ori en con db) = md_projects db"
  by (auto simp: upsert_mon_def update_mon_def)

lemma in_use_keys: "monitor_domains_in_use main_domain db p
    = map (\<lambda>k. main_domain (snd k)) (filter (\<lambda>k. fst k = p) (map mon_key (md_rows db)))"
  by (simp add: monitor_domains_in_use_def filter_map comp_def mon_key_def)

lemma set_monitor_rows_ok:
  assumes ok: "mon_ok main_domain db" and p: "project_exists db p"
  shows "mon_ok main_domain (if en then upsert_mon p ori en con db
    else finish_pending_checks p ori (upsert_mon p ori en con db))" (is "mon_ok _ ?db")
proof -
  obtain f where f: "\<forall>m. mon_key (f m) = mon_key m" "\<forall>m. check_pending (f m) = check_pending m"
    "\<forall>m. m_enabled (f m) = (if is_mon p ori m then en else m_enabled m)"
    "md_rows (upsert_mon p ori en con db) = map f (md_rows db)
        @ (if get_mon db p ori = None then [(new_mon p ori)\<lparr>m_enabled := en, m_contains := con\<rparr>] else [])"
    using upsert_rows [OF ok] by blast
  let ?db1 = "upsert_mon p ori en con db"
  have d1: "distinct (map mon_key (md_rows ?db1))"
  proof -
    have k: "map mon_key (md_rows ?db1) = map mon_key (md_rows db)
        @ (if get_mon db p ori = None then [(p, ori)] else [])"
      using f(1,4) by (simp add: new_mon_def) (simp add: mon_key_def)
    moreover have "get_mon db p ori = None \<Longrightarrow> (p, ori) \<notin> set (map mon_key (md_rows db))"
      by (auto simp: get_mon_def find_None_iff is_mon_key)
    ultimately show ?thesis unfolding k using ok by (cases "get_mon db p ori") (simp_all add: mon_ok_def)
  qed
  have u1: "set (monitor_domains_in_use main_domain db q) \<subseteq> set (monitor_domains_in_use main_domain ?db1 q)" for q
    using f(1,4) by (auto simp: in_use_keys)
  have dd: "\<forall>d \<in> set (md_domains db). dm_domain d \<in> set (monitor_domains_in_use main_domain ?db1 (dm_project d))"
    using ok subsetD [OF u1] by (simp add: mon_ok_def)
  have rest: "m_enabled m \<or> \<not> en \<and> is_mon p ori m" if "m \<in> set (md_rows ?db1)" "check_pending m" for m
  proof -
    have new: "\<not> check_pending ((new_mon p ori)\<lparr>m_enabled := en, m_contains := con\<rparr>)"
      by (simp add: new_mon_def check_pending_def)
    have "m \<in> f ` set (md_rows db)"
      using that new unfolding f(4) by (auto split: if_splits)
    then obtain x where x: "x \<in> set (md_rows db)" "m = f x" by blast
    have "m_enabled x" using that(2) f(2) x ok by (auto simp: mon_ok_def)
    moreover have "is_mon p ori m = is_mon p ori x" using f(1) x(2) by (simp add: is_mon_key)
    ultimately show ?thesis using f(3) x(2) by (cases en) auto
  qed
  have pe: "project_exists ?db1 (m_project m)" if "m \<in> set (md_rows ?db1)" for m
  proof -
    have "mon_key m \<in> set (map mon_key (md_rows db)) \<or> mon_key m = (p, ori)"
      using that f(1) unfolding f(4) by (auto simp: new_mon_def mon_key_def split: if_splits)
    then have "project_exists db (m_project m)" using ok p by (auto simp: mon_ok_def mon_key_def)
    then show ?thesis using project_exists_cong [of ?db1 db] by (simp add: frame_simps)
  qed
  show ?thesis
  proof (cases en)
    case True
    then show ?thesis using d1 dd rest pe by (simp add: mon_ok_def frame_simps)
  next
    case False
    let ?g = "\<lambda>m. if m_project m = p \<and> (ori = [] \<or> m_origin m = ori) \<and> m_requested m \<noteq> None
        \<and> (m_finished m = None \<or> m_finished m < m_requested m)
     then m\<lparr>m_finished := max (Some (md_now ?db1)) (m_requested m)\<rparr> else m"
    have g: "md_rows (finish_pending_checks p ori ?db1) = map ?g (md_rows ?db1)"
      by (simp add: finish_pending_checks_def)
    have gk: "mon_key (?g m) = mon_key m" for m by (simp add: mon_key_def)
    have gp: "m_enabled (?g m)" if "m \<in> set (md_rows ?db1)" "check_pending (?g m)" for m
      using rest [OF that(1)] that(2) by (auto simp: check_pending_def is_mon_def max_def split: if_splits)
    have "map mon_key (md_rows (finish_pending_checks p ori ?db1)) = map mon_key (md_rows ?db1)"
      unfolding g using gk by simp
    then have k: "map mon_key (md_rows (finish_pending_checks p ori ?db1)) = map mon_key (md_rows ?db1)" .
    have "\<forall>m \<in> set (md_rows (finish_pending_checks p ori ?db1)). check_pending m \<longrightarrow> m_enabled m"
    proof (intro ballI impI)
      fix m assume "m \<in> set (md_rows (finish_pending_checks p ori ?db1))" and c: "check_pending m"
      then obtain x where "x \<in> set (md_rows ?db1)" "m = ?g x" unfolding g set_map by blast
      then show "m_enabled m" using gp [of x] c by (simp only:)
    qed
    moreover have "project_exists (finish_pending_checks p ori ?db1) (m_project m)"
      if "m \<in> set (md_rows (finish_pending_checks p ori ?db1))" for m
    proof -
      obtain x where x: "x \<in> set (md_rows ?db1)" "m = ?g x" using \<open>m \<in> _\<close> unfolding g set_map by blast
      then have "mon_key m = mon_key x" using gk [of x] by (simp only:)
      then have "m_project m = m_project x" by (simp add: mon_key_def)
      with x(1) show ?thesis using pe [of x] by (simp add: finish_pending_checks_def)
    qed
    moreover have "md_domains (finish_pending_checks p ori ?db1) = md_domains db"
      by (simp add: finish_pending_checks_def frame_simps)
    moreover have "monitor_domains_in_use main_domain (finish_pending_checks p ori ?db1) q
        = monitor_domains_in_use main_domain ?db1 q" for q unfolding in_use_keys k ..
    moreover have "distinct (map mon_key (md_rows (finish_pending_checks p ori ?db1)))" unfolding k by (rule d1)
    ultimately show ?thesis using False dd by (simp add: mon_ok_def)
  qed
qed

lemma mon_ok_audit [simp]: "mon_ok main_domain (db\<lparr>md_audit := l\<rparr>) = mon_ok main_domain db"
  by (simp add: mon_ok_def monitor_domains_in_use_def)

lemma set_monitor_ok:
  assumes "mon_ok main_domain db" and "set_monitor eligible p ori en con act db = Inr (m, db')"
  shows "mon_ok main_domain db'"
proof -
  define cur where "cur = (case get_mon db p ori of None \<Rightarrow> new_mon p ori | Some m \<Rightarrow> m)"
  define e where "e = (case en of None \<Rightarrow> m_enabled cur | Some b \<Rightarrow> b)"
  define c where "c = (case con of None \<Rightarrow> m_contains cur | Some s \<Rightarrow> s)"
  have p: "project_exists db p" using assms(2) by (simp add: set_monitor_def split: if_split_asm)
  have "db' = db \<or> (\<exists>l. db' = (if e then upsert_mon p ori e c db
      else finish_pending_checks p ori (upsert_mon p ori e c db))\<lparr>md_audit := l\<rparr>)"
    using assms(2) unfolding set_monitor_def Let_def cur_def [symmetric] e_def [symmetric] c_def [symmetric]
    by (simp split: if_split_asm) blast+
  then show ?thesis using set_monitor_rows_ok [OF assms(1) p, of e ori c] assms(1) by (elim disjE exE) simp_all
qed

lemma remove_off_ok: "mon_ok main_domain db \<Longrightarrow> mon_ok main_domain (remove_monitors_off_origins main_domain p el db)"
proof -
  assume ok: "mon_ok main_domain db"
  define db1 where "db1 = db\<lparr>md_rows := filter (\<lambda>m. \<not> (m_project m = p \<and> m_origin m \<notin> set el)) (md_rows db)\<rparr>"
  let ?db' = "remove_monitors_off_origins main_domain p el db"
  have r: "md_rows ?db' = md_rows db1" and dm: "md_domains ?db' = filter (\<lambda>d. \<not> (dm_project d = p
      \<and> dm_domain d \<notin> set (monitor_domains_in_use main_domain db1 p))) (md_domains db)"
    by (simp_all add: remove_monitors_off_origins_def Let_def db1_def monitor_domains_in_use_def)
  have used: "monitor_domains_in_use main_domain ?db' q = monitor_domains_in_use main_domain db1 q" for q
    by (simp add: monitor_domains_in_use_def r)
  have other: "monitor_domains_in_use main_domain db1 q = monitor_domains_in_use main_domain db q" if "q \<noteq> p" for q
    using that unfolding monitor_domains_in_use_def db1_def by (auto intro!: arg_cong [where f = "map _"] filter_cong)
  have "dm_domain d \<in> set (monitor_domains_in_use main_domain ?db' (dm_project d))" if "d \<in> set (md_domains ?db')" for d
    using that ok other [of "dm_project d"] unfolding dm used by (cases "dm_project d = p") (auto simp: mon_ok_def)
  moreover have "project_exists ?db' = project_exists db"
    by (rule project_exists_cong) (simp add: remove_monitors_off_origins_def Let_def)
  ultimately show ?thesis using ok r by (auto simp: mon_ok_def db1_def distinct_map_filter)
qed

lemma request_ok: "mon_ok main_domain db \<Longrightarrow> request_monitor_check p ori at cd entry db = Inr db' \<Longrightarrow> mon_ok main_domain db'"
proof -
  assume ok: "mon_ok main_domain db" and r: "request_monitor_check p ori at cd entry db = Inr db'"
  from r have rows: "md_rows db' = map (\<lambda>m. if may_request db p ori (at - cd) m
        then m\<lparr>m_requested := Some at, m_finished := None\<rparr> else m) (md_rows db)" "md_domains db' = md_domains db"
      "md_projects db' = md_projects db"
    by (auto simp: request_monitor_check_def Let_def split: if_splits option.splits)
  show ?thesis
    by (rule mon_ok_rows [OF ok rows]) (use ok in \<open>auto simp: mon_key_def mon_ok_def may_request_def\<close>)
qed

text \<open>Writes of projects: the rows of the monitors stay, or go with all of the project's.\<close>

lemma projects_written_ok:
  assumes "mon_ok main_domain db" and "md_rows db' = md_rows db" and "md_domains db' = md_domains db"
    and "\<And>p. project_exists db p \<Longrightarrow> project_exists db' p"
  shows "mon_ok main_domain db'"
  using assms by (simp add: mon_ok_def monitor_domains_in_use_def)

lemma project_exists_map:
  "(\<And>x. p_id (f x) = p_id x) \<Longrightarrow> project_exists (db\<lparr>md_projects := map f (md_projects db)\<rparr>) = project_exists db"
  by (simp add: project_exists_def fun_eq_iff list_ex_iff)

lemma insert_project_ok: "mon_ok main_domain db \<Longrightarrow> mon_ok main_domain (insert_project new origins entry db)"
  by (erule projects_written_ok) (auto simp: insert_project_def project_exists_def)

lemma update_project_ok:
  assumes "mon_ok main_domain db" and "update_project main_domain p origins kept entry db = Inr db'"
  shows "mon_ok main_domain db'"
proof -
  let ?db1 = "db\<lparr>md_projects := map (\<lambda>x. if p_id x = p then x\<lparr>p_origins := origins\<rparr> else x) (md_projects db)\<rparr>"
  have "mon_ok main_domain ?db1"
    by (rule projects_written_ok [OF assms(1)]) (simp_all add: project_exists_map)
  then show ?thesis using assms(2) remove_off_ok
    by (auto simp: update_project_def Let_def split: if_split_asm option.split_asm)
qed

lemma set_project_archived_ok:
  assumes "mon_ok main_domain db" and "set_project_archived p archived entry db = Inr db'"
  shows "mon_ok main_domain db'"
proof -
  let ?db1 = "db\<lparr>md_projects := map (\<lambda>x. if p_id x = p then x\<lparr>p_archived := archived\<rparr> else x) (md_projects db)\<rparr>"
  have "mon_ok main_domain ?db1"
    by (rule projects_written_ok [OF assms(1)]) (simp_all add: project_exists_map)
  then show ?thesis using assms(2) finish_pending_ok
    by (auto simp: set_project_archived_def Let_def split: if_split_asm)
qed

lemma delete_project_ok:
  assumes "mon_ok main_domain db" and "delete_project p db = Inr db'"
  shows "mon_ok main_domain db'"
proof -
  have db': "md_rows db' = filter (\<lambda>m. m_project m \<noteq> p) (md_rows db)"
    "md_domains db' = filter (\<lambda>d. dm_project d \<noteq> p) (md_domains db)"
    "\<And>q. q \<noteq> p \<Longrightarrow> project_exists db' q = project_exists db q"
    using assms(2) by (auto simp: delete_project_def project_exists_def list_ex_iff split: if_split_asm)
  have "monitor_domains_in_use main_domain db' q = monitor_domains_in_use main_domain db q" if "q \<noteq> p" for q
    using that by (auto simp: monitor_domains_in_use_def db'(1) intro!: arg_cong [where f = "map _"] filter_cong)
  then show ?thesis using assms(1) db' by (auto simp: mon_ok_def distinct_map_filter)
qed

lemma delete_project_data_ok:
  "mon_ok main_domain db \<Longrightarrow> delete_project_data p entry db = Inr db' \<Longrightarrow> mon_ok main_domain db'"
  by (auto simp: delete_project_data_def split: sum.split_asm dest: delete_project_ok)

section \<open>Properties\<close>

text \<open>The operator's and the runner's writes, as one step of the tables.\<close>

inductive mon_step :: "(string \<Rightarrow> string) \<Rightarrow> mon_db \<Rightarrow> mon_db \<Rightarrow> bool" for main_domain where
  ms_set: "set_monitor eligible p ori en con act db = Inr (m, db') \<Longrightarrow> mon_step main_domain db db'"
| ms_request: "request_monitor_check p ori at cooldown entry db = Inr db' \<Longrightarrow> mon_step main_domain db db'"
| ms_new: "\<not> project_exists db new \<Longrightarrow> mon_step main_domain db (insert_project new origins entry db)"
| ms_update: "update_project main_domain p origins kept entry db = Inr db' \<Longrightarrow> mon_step main_domain db db'"
| ms_archive: "set_project_archived p archived entry db = Inr db' \<Longrightarrow> mon_step main_domain db db'"
| ms_delete: "delete_project_data p entry db = Inr db' \<Longrightarrow> mon_step main_domain db db'"
| ms_cert: "mon_step main_domain db (set_monitor_cert p ori c db)"
| ms_cert_error: "mon_step main_domain db (set_monitor_cert_error p ori msg db)"
| ms_redirects: "mon_step main_domain db (set_monitor_redirects p ori n db)"
| ms_last: "mon_step main_domain db (set_monitor_last p ori r db)"
| ms_domain: "mon_step main_domain db (set_monitor_domain main_domain p dname e c db)"
| ms_finish: "req \<le> fin \<Longrightarrow> mon_step main_domain db (finish_monitor_check p ori req fin db)"
| ms_time: "md_now db \<le> t \<Longrightarrow> mon_step main_domain db (db\<lparr>md_now := t\<rparr>)"

inductive mon_reach :: "(string \<Rightarrow> string) \<Rightarrow> mon_db \<Rightarrow> mon_db \<Rightarrow> bool" for main_domain where
  mr_refl: "mon_reach main_domain db db"
| mr_step: "mon_reach main_domain db db' \<Longrightarrow> mon_step main_domain db' db'' \<Longrightarrow> mon_reach main_domain db db''"

lemma mon_step_ok: "mon_step main_domain db db' \<Longrightarrow> mon_ok main_domain db \<Longrightarrow> mon_ok main_domain db'"
proof (induction rule: mon_step.induct)
  case (ms_time db t)
  then show ?case by (simp add: mon_ok_def monitor_domains_in_use_def)
qed (auto intro: set_monitor_ok request_ok insert_project_ok update_project_ok set_project_archived_ok
    delete_project_data_ok runner_writes_ok set_monitor_domain_ok)

lemma get_mon_update:
  assumes "\<And>m. mon_key (f m) = mon_key m"
  shows "get_mon (update_mon p ori f db) p ori = map_option f (get_mon db p ori)"
proof -
  have "find (is_mon p ori) (map (\<lambda>m. if is_mon p ori m then f m else m) xs)
      = map_option f (find (is_mon p ori) xs)" for xs
    using assms by (induction xs) (auto simp: is_mon_key)
  then show ?thesis by (simp add: get_mon_def update_mon_def)
qed

lemma get_mon_Some: "get_mon db p ori = Some m \<Longrightarrow> m \<in> set (md_rows db) \<and> is_mon p ori m"
  by (auto simp: get_mon_def find_Some_iff)

lemma get_mon_unique:
  assumes "distinct (map mon_key (md_rows db))" and "m \<in> set (md_rows db)" and "is_mon p ori m"
  shows "get_mon db p ori = Some m"
proof -
  have "find (is_mon p ori) xs = Some m" if "distinct (map mon_key xs)" "m \<in> set xs" for xs
    using that assms(3) by (induction xs) (auto simp: is_mon_key image_iff)
  then show ?thesis using assms(1,2) by (simp add: get_mon_def)
qed

text \<open>The row of a monitor after a request was taken, and what the request needed.\<close>

lemma request_taken:
  assumes ok: "distinct (map mon_key (md_rows db))"
    and r: "request_monitor_check p ori at cd entry db = Inr db'"
  obtains m where "get_mon db p ori = Some m" "m_enabled m" "\<not> check_pending m" "m_requested m \<le> Some (at - cd)"
    "get_mon db' p ori = Some (m\<lparr>m_requested := Some at, m_finished := None\<rparr>)"
proof -
  let ?may = "may_request db p ori (at - cd)"
  let ?f = "\<lambda>m. if ?may m then m\<lparr>m_requested := Some at, m_finished := None\<rparr> else m"
  have ex: "list_ex ?may (md_rows db)" and rows: "md_rows db' = map ?f (md_rows db)"
  proof -
    show "list_ex ?may (md_rows db)"
      using r by (cases "list_ex ?may (md_rows db)")
        (simp_all add: request_monitor_check_def Let_def split: if_split_asm option.split_asm)
    then show "md_rows db' = map ?f (md_rows db)" using r by (auto simp: request_monitor_check_def Let_def)
  qed
  then obtain m where m: "m \<in> set (md_rows db)" "?may m" by (auto simp: list_ex_iff)
  then have g: "get_mon db p ori = Some m" using get_mon_unique [OF ok] by (simp add: may_request_def)
  have keys: "map mon_key (md_rows db') = map mon_key (md_rows db)" by (simp add: rows mon_key_def)
  have "?f m \<in> set (md_rows db')" unfolding rows set_map using m(1) by (rule imageI)
  moreover have "is_mon p ori (?f m)" using m(2) by (simp add: may_request_def is_mon_def)
  moreover have "distinct (map mon_key (md_rows db'))" unfolding keys by (rule ok)
  ultimately have "get_mon db' p ori = Some (?f m)" by (intro get_mon_unique)
  moreover have "m_enabled m" "m_requested m \<le> Some (at - cd)" "\<not> check_pending m"
    using m(2) by (auto simp: may_request_def check_pending_def not_less)
  ultimately show thesis using that [OF g] m(2) by simp
qed

text \<open> C37:
  Whatever writes happen, in any order, starting from sound tables (the runner's, the operator's
  of a monitor, and a project's creation, edit of its origins, archive, restore and deletion):
  there is one row for each project and origin, none outlives its project, a request is pending
  only on a monitor that is on (a client never waits for one nothing serves), and every stored
  domain reading is of a main domain some monitor of the project is on.
\<close>

theorem monitors_stay_sound:
  assumes "mon_reach main_domain db db'" and "mon_ok main_domain db"
  shows "mon_ok main_domain db'"
  using assms by (induction rule: mon_reach.induct) (auto intro: mon_step_ok)

definition sample_mon_db :: mon_db where
  "sample_mon_db = \<lparr>md_projects = [\<lparr>p_id = 1, p_archived = False, p_origins = [''https://a'']\<rparr>], md_rows = [],
     md_domains = [], md_audit = [], md_now = 100\<rparr>"

text \<open>A monitor switched on and asked for a check, whose project is then archived.\<close>

definition sample_asked :: mon_db where
  "sample_asked = projr (request_monitor_check 1 ''https://a'' 100 30 (''check'', [])
     (snd (projr (set_monitor id 1 ''https://a'' (Some True) None ''set'' sample_mon_db))))"

theorem monitors_stay_sound_witness:
  "mon_ok id (set_monitor_domain id 1 ''https://a'' [] None (projr (set_project_archived 1 True (''archive'', []) sample_asked)))
    \<and> list_all check_pending (md_rows sample_asked) \<and> length (md_rows sample_asked) = 1
    \<and> list_all (\<lambda>m. m_enabled m \<and> \<not> check_pending m) (md_rows (projr (set_project_archived 1 True (''archive'', []) sample_asked)))"
proof -
  let ?r = "set_monitor id 1 ''https://a'' (Some True) None ''set'' sample_mon_db"
  let ?a = "projr (set_project_archived 1 True (''archive'', []) sample_asked)"
  let ?d = "set_monitor_domain id 1 ''https://a'' [] None ?a"
  have "?r = Inr (projr ?r)" by code_simp
  then have s1: "mon_step id sample_mon_db (snd (projr ?r))" by (metis ms_set prod.collapse)
  have "request_monitor_check 1 ''https://a'' 100 30 (''check'', []) (snd (projr ?r)) = Inr sample_asked"
    unfolding sample_asked_def by code_simp
  then have s2: "mon_step id (snd (projr ?r)) sample_asked" by (rule ms_request)
  have "set_project_archived 1 True (''archive'', []) sample_asked = Inr ?a" by code_simp
  then have s3: "mon_step id sample_asked ?a" by (rule ms_archive)
  have s4: "mon_step id ?a ?d" by (rule ms_domain)
  have "mon_reach id sample_mon_db ?d"
    by (rule mr_step [OF mr_step [OF mr_step [OF mr_step [OF mr_refl s1] s2] s3] s4])
  moreover have "mon_ok id sample_mon_db" by (simp add: mon_ok_def sample_mon_db_def)
  ultimately have "mon_ok id ?d" by (rule monitors_stay_sound)
  moreover have "list_all check_pending (md_rows sample_asked)" "length (md_rows sample_asked) = 1"
    "list_all (\<lambda>m. m_enabled m \<and> \<not> check_pending m) (md_rows ?a)" by code_simp+
  ultimately show ?thesis by simp
qed

text \<open>
  The life of a manual check on its row. A request is taken only on an enabled monitor with none
  pending and the last one at least a cooldown old; the row is then pending. While it is, a
  further request is refused. A finish for another request writes nothing; the finish of this
  one, at or after it, ends it.
\<close>

theorem manual_check_life:
  assumes ok: "mon_ok main_domain db" and r: "request_monitor_check p ori at cd entry db = Inr db1" and "0 < cd"
  shows "\<exists>m. get_mon db1 p ori = Some m \<and> check_pending m \<and> m_enabled m
    \<and> (\<forall>at2 cd2 e2. \<exists>x. request_monitor_check p ori at2 cd2 e2 db1 = Inl x)
    \<and> (\<forall>req fin. req \<noteq> Some at \<longrightarrow> get_mon (finish_monitor_check p ori req fin db1) p ori = Some m)
    \<and> (\<forall>fin. Some at \<le> fin \<longrightarrow>
        (\<exists>m'. get_mon (finish_monitor_check p ori (Some at) fin db1) p ori = Some m' \<and> \<not> check_pending m'))
    \<and> (\<forall>old. get_mon db p ori = Some old \<longrightarrow> m_requested old \<le> Some (at - cd))"
proof -
  have dist: "distinct (map mon_key (md_rows db))" using ok by (simp add: mon_ok_def)
  obtain m0 where m0: "get_mon db p ori = Some m0" "m_enabled m0" "\<not> check_pending m0" "m_requested m0 \<le> Some (at - cd)"
    "get_mon db1 p ori = Some (m0\<lparr>m_requested := Some at, m_finished := None\<rparr>)"
    by (rule request_taken [OF dist r])
  let ?m = "m0\<lparr>m_requested := Some at, m_finished := None\<rparr>"
  have pend: "check_pending ?m" by (simp add: check_pending_def)
  have dist1: "distinct (map mon_key (md_rows db1))" using request_ok [OF ok r] by (simp add: mon_ok_def)
  have no: "\<exists>x. request_monitor_check p ori at2 cd2 e2 db1 = Inl x" for at2 cd2 e2
  proof (cases "request_monitor_check p ori at2 cd2 e2 db1")
    case (Inr db2)
    then show ?thesis using request_taken [OF dist1 Inr] m0(5) pend by (metis option.inject)
  qed blast
  have fin: "get_mon (finish_monitor_check p ori req fin db1) p ori
      = Some (if Some at = req then ?m\<lparr>m_finished := fin\<rparr> else ?m)" for req fin
    unfolding finish_monitor_check_def
    by (subst get_mon_update) (auto simp: mon_key_def m0(5))
  have ended: "\<not> check_pending (?m\<lparr>m_finished := fin\<rparr>)" if "Some at \<le> fin" for fin
    using that by (cases fin) (auto simp: check_pending_def)
  show ?thesis
    using m0 pend no fin ended by (intro exI [of _ ?m]) auto
qed

theorem manual_check_life_witness:
  "\<exists>m. get_mon sample_asked 1 ''https://a'' = Some m \<and> check_pending m"
proof -
  let ?db = "snd (projr (set_monitor id 1 ''https://a'' (Some True) None ''set'' sample_mon_db))"
  have "mon_ok id ?db" by (simp add: mon_ok_def monitor_domains_in_use_def set_monitor_def sample_mon_db_def
    project_exists_def get_mon_def new_mon_def allowed_origins_def upsert_mon_def check_pending_def)
  moreover have "request_monitor_check 1 ''https://a'' 100 30 (''check'', []) ?db = Inr sample_asked"
    unfolding sample_asked_def by code_simp
  ultimately show ?thesis using manual_check_life [of id ?db 1 "''https://a''" 100 30 "(''check'', [])" sample_asked]
    by auto
qed

end
