(* ===== verification/MonitorRunner.thy ===== *)
theory MonitorRunner
  imports MonitorTables "HOL-Library.Word"
begin

unbundle bit_operations_syntax

text \<open>
  The runner of the availability monitors (\<^verbatim>\<open>internal/monitor/monitor.go\<close>) as a step relation:
  the tick loop, the goroutines it starts (slot checks, manual checks, daily reads) with their
  two worker pools and the lock of each reading, shutdown, and other processes writing the
  tables. A goroutine is a task with a program counter; a step of the system is one step of one
  of them. Times are nanoseconds; a time text is a second (\<^theory_text>\<open>MonitorTables\<close>). The HTTP check, the
  certificate handshake and the RDAP lookup are the environment: a step takes any result of
  theirs. \<open>maindomain.OfOrigin\<close> is the parameter \<open>main_domain\<close>.
\<close>

section \<open>Schedule arithmetic\<close>

definition second :: int where "second = 1000000000"

definition workers :: nat where "workers = 16"
definition read_workers :: nat where "read_workers = 4"
definition daily_every :: int where "daily_every = 24 * 3600 * second"
definition daily_retry :: int where "daily_retry = 3600 * second"
definition tick_step :: int where "tick_step = second"
definition check_max_age :: int where "check_max_age = 120 * second"

text \<open>\<open>fnv.New64a\<close>.\<close>

fun fnv64a :: "64 word \<Rightarrow> string \<Rightarrow> 64 word" where
  "fnv64a h [] = h"
| "fnv64a h (c # cs) = fnv64a ((h XOR of_nat (of_char c)) * 1099511628211) cs"

definition offset :: "int \<Rightarrow> string \<Rightarrow> int \<Rightarrow> int" where
  "offset p ori interval =
     (let h = fnv64a 14695981039346656037 (dec_int p @ CHR ''|'' # ori);
          slots = max (interval div tick_step) 1
      in (uint h mod slots) * tick_step)"

text \<open>\<open>due\<close> corrects Go's division for a negative dividend.\<close>

definition due :: "int \<Rightarrow> int \<Rightarrow> int \<Rightarrow> int \<Rightarrow> bool" where
  "due prev now interval off =
     (let n = now - off; k0 = go_div n interval;
          k = (if n < 0 \<and> go_mod n interval \<noteq> 0 then k0 - 1 else k0)
      in k * interval + off > prev)"

definition too_old :: "time_text \<Rightarrow> int \<Rightarrow> bool" where
  "too_old requested now = (case requested of None \<Rightarrow> True | Some t \<Rightarrow> now - t * second > check_max_age)"

definition stale :: "time_text \<Rightarrow> int \<Rightarrow> bool" where
  "stale checked now = (case checked of None \<Rightarrow> True | Some t \<Rightarrow> now - t * second \<ge> daily_every)"

section \<open>Check rows\<close>

record check_result =
  rs_up :: bool
  rs_status :: int
  rs_reason :: string
  rs_error :: string
  rs_ms :: int
  rs_redirects :: int
  rs_answered :: bool

record check_row =
  cr_project :: int
  cr_name :: string
  cr_at :: int
  cr_value :: "int option"
  cr_attrs :: "(string \<times> string) list"

definition uptime_row :: "int \<Rightarrow> string \<Rightarrow> int \<Rightarrow> check_result \<Rightarrow> check_row" where
  "uptime_row p ori at res = \<lparr>cr_project = p, cr_name = ''uptime'', cr_at = at, cr_value = Some (rs_ms res),
     cr_attrs = [(''origin'', ori), (''up'', if rs_up res then ''1'' else ''0''), (''redirects'', dec_int (rs_redirects res))]
       @ (if rs_up res then [] else [(''reason'', rs_reason res), (''error'', rs_error res)])
       @ (if rs_status res > 0 then [(''status'', dec_int (rs_status res))] else [])\<rparr>"

definition mon_result_of :: "time_text \<Rightarrow> check_result \<Rightarrow> mon_result" where
  "mon_result_of at res = \<lparr>r_checked = at, r_up = rs_up res, r_status = rs_status res,
     r_reason = rs_reason res, r_error = rs_error res, r_ms = rs_ms res\<rparr>"

section \<open>State\<close>

type_synonym mon_id = "int \<times> string"
type_synonym read_key = "int \<times> string \<times> string"

definition cert_key :: "mon \<Rightarrow> read_key" where
  "cert_key m = (m_project m, ''cert'', m_origin m)"

definition domain_key :: "int \<Rightarrow> string \<Rightarrow> read_key" where
  "domain_key p d = (p, ''domain'', d)"

text \<open>What a daily read reads: a monitor's certificate, or a project's domain.\<close>

datatype read_of = ReadCert mon | ReadDomain int string

fun key_of_read :: "read_of \<Rightarrow> read_key" where
  "key_of_read (ReadCert m) = cert_key m"
| "key_of_read (ReadDomain p d) = domain_key p d"

datatype slot_pc = SlotCheck | SlotRedirects int check_result | SlotLast int check_result
  | SlotRelease "check_row list" | SlotKeep "check_row list"
  | SlotAppend "check_row list" | SlotDelete

datatype manual_pc = ManAcquire | ManCheck | ManRedirects int check_result | ManLast int check_result
  | ManRelease check_row
  | ManLock "read_of list" "check_row list" | ManAcquireRead "read_of list" "check_row list"
  | ManTried "read_of list" "check_row list" | ManRead int "read_of list" "check_row list"
  | ManReleaseRead "read_of list" "check_row list" | ManUnlock "read_of list" "check_row list" bool
  | ManKeep "check_row list" | ManAppend "check_row list" | ManFinish | ManDelete

datatype read_pc = RdLock | RdAcquire | RdRead | RdRelease "check_row list" | RdKeep "check_row list"
  | RdAppend "check_row list" | RdUnlock | RdDelete

datatype task = SlotTask mon slot_pc | ManualTask mon manual_pc | ReadTask read_of read_pc

datatype sched = SchedIdle int | SchedClone int int | SchedList int int "mon_id set"
  | SchedManuals int int "mon_id set" "mon list" "mon list" | SchedSlots int int "mon list"
  | SchedPaused int "mon list" | SchedWait | SchedDone

record run =
  x_db :: mon_db
  x_now :: int
  x_cancelled :: bool
  x_paused :: bool
  x_interval :: int
  x_sem :: nat
  x_read_sem :: nat
  x_slots :: "mon_id set"
  x_manuals :: "mon_id set"
  x_reads :: "read_key set"
  x_locks :: "read_key set"
  x_tried :: "read_key \<rightharpoonup> int"
  x_domains :: "string \<rightharpoonup> string"
  x_pending :: "check_row list"
  x_written :: "check_row list list"
  x_tasks :: "task multiset"
  x_sched :: sched

section \<open>Operations of the runner\<close>

text \<open>A store write of the runner may fail, which is logged only: \<open>ok\<close> says whether it succeeded.\<close>

text \<open>
  \<open>keep\<close> first looks whether shutdown has begun and then, in a later step, adds the rows under
  the lock: shutdown may come between the two. Its check is a step of the task (\<open>SlotKeep\<close>,
  \<open>ManKeep\<close> and \<open>RdKeep\<close>, with \<open>keeps\<close>), its append the next one (\<open>SlotAppend\<close>, \<open>ManAppend\<close> and
  \<open>RdAppend\<close>, with \<open>append_rows\<close>).
\<close>

definition keeps :: "run \<Rightarrow> bool" where
  "keeps s = (\<not> x_cancelled s)"

definition append_rows :: "check_row list \<Rightarrow> run \<Rightarrow> run" where
  "append_rows evs s = s\<lparr>x_pending := x_pending s @ evs\<rparr>"

text \<open>\<open>flush\<close>; the log may refuse a batch, which drops it.\<close>

definition flush :: "bool \<Rightarrow> run \<Rightarrow> run" where
  "flush log_ok s = (if x_pending s = [] then s
     else s\<lparr>x_pending := [], x_written := (if log_ok then x_written s @ [x_pending s] else x_written s)\<rparr>)"

text \<open>\<open>stamp\<close>: now as a row's time, never before the request.\<close>

definition stamp :: "run \<Rightarrow> mon \<Rightarrow> time_text" where
  "stamp s m = (let at = Some (x_now s div second) in if at < m_requested m then m_requested m else at)"

definition finish_check :: "bool \<Rightarrow> mon \<Rightarrow> run \<Rightarrow> run" where
  "finish_check ok m s = (if \<not> ok then s else s\<lparr>x_db := finish_monitor_check (m_project m) (m_origin m) (m_requested m) (stamp s m) (x_db s)\<rparr>)"

definition start_manual :: "bool \<Rightarrow> mon \<Rightarrow> int \<Rightarrow> run \<Rightarrow> run" where
  "start_manual ok m now s =
     (if too_old (m_requested m) now then finish_check ok m s
      else if mon_key m \<in> x_manuals s then s
      else s\<lparr>x_manuals := insert (mon_key m) (x_manuals s), x_tasks := add_mset (ManualTask m ManAcquire) (x_tasks s)\<rparr>)"

definition start_slot :: "mon \<Rightarrow> run \<Rightarrow> run" where
  "start_slot m s =
     (if mon_key m \<in> x_slots s \<or> mon_key m \<in> x_manuals s then s
      else if x_sem s \<ge> workers then s
      else s\<lparr>x_sem := x_sem s + 1, x_slots := insert (mon_key m) (x_slots s),
             x_tasks := add_mset (SlotTask m SlotCheck) (x_tasks s)\<rparr>)"

definition start_read :: "read_of \<Rightarrow> int \<Rightarrow> run \<Rightarrow> run" where
  "start_read r now s =
     (let k = key_of_read r in
      if k \<in> x_reads s \<or> (case x_tried s k of Some at \<Rightarrow> now - at < daily_retry | None \<Rightarrow> False) \<or> x_cancelled s
      then s
      else s\<lparr>x_reads := insert k (x_reads s), x_tried := (x_tried s)(k \<mapsto> now),
             x_tasks := add_mset (ReadTask r RdLock) (x_tasks s)\<rparr>)"

definition domain_of :: "(string \<Rightarrow> string) \<Rightarrow> string \<Rightarrow> run \<Rightarrow> string \<times> run" where
  "domain_of main_domain ori s = (case x_domains s ori of
     Some d \<Rightarrow> (d, s)
   | None \<Rightarrow> (main_domain ori, s\<lparr>x_domains := (x_domains s)(ori \<mapsto> main_domain ori)\<rparr>))"

text \<open>The reading of \<open>dname\<close> in the project's list; the last row named so, as the loop leaves it.\<close>

definition domain_checked :: "mon_db \<Rightarrow> int \<Rightarrow> string \<Rightarrow> time_text" where
  "domain_checked db p dname =
     fold (\<lambda>d c. if dm_domain d = dname then dm_checked d else c) (list_monitor_domains db p) None"

definition start_reads :: "(string \<Rightarrow> string) \<Rightarrow> bool \<Rightarrow> mon \<Rightarrow> run \<Rightarrow> run" where
  "start_reads main_domain list_ok m s =
     (let now = x_now s;
          s1 = (if stale (c_checked (m_cert m)) now then start_read (ReadCert m) now s else s)
      in case domain_of main_domain (m_origin m) s1 of (dname, s2) \<Rightarrow>
        if dname = [] \<or> \<not> list_ok then s2
        else if stale (domain_checked (x_db s2) (m_project m) dname) now
          then start_read (ReadDomain (m_project m) dname) now s2 else s2)"

definition forget_disabled :: "(string \<Rightarrow> string) \<Rightarrow> mon list \<Rightarrow> run \<Rightarrow> run" where
  "forget_disabled main_domain ms s =
     (let s1 = fold (\<lambda>m. snd \<circ> domain_of main_domain (m_origin m)) ms s;
          reads = set (map cert_key ms)
            \<union> set (map (\<lambda>m. domain_key (m_project m) (the (x_domains s1 (m_origin m)))) ms)
      in s1\<lparr>x_tried := x_tried s1 |` reads, x_domains := x_domains s1 |` set (map m_origin ms)\<rparr>)"

text \<open>Storing and recording a certificate reading; \<open>https\<close> is the origin's scheme.\<close>

definition days_left :: "time_text \<Rightarrow> int \<Rightarrow> int option" where
  "days_left at now = map_option (\<lambda>t. (t * second - now) div (24 * 3600 * second)) at"

definition cert_done :: "bool \<Rightarrow> mon \<Rightarrow> bool \<Rightarrow> (int \<Rightarrow> string) \<Rightarrow> cert_state \<Rightarrow> int \<Rightarrow> run \<Rightarrow> check_row list \<times> run" where
  "cert_done ok m https date_text read now s =
     (let st = (if https then read
                else \<lparr>c_expires = None, c_issuer = [], c_valid = False, c_error = [], c_checked = Some (now div second)\<rparr>)
      in if x_cancelled s then ([], s)
         else if https \<and> c_expires st = None then
           ([], if ok then s\<lparr>x_db := set_monitor_cert_error (m_project m) (m_origin m) (c_error st) (x_db s)\<rparr> else s)
         else
           let s1 = (if ok then s\<lparr>x_db := set_monitor_cert (m_project m) (m_origin m) st (x_db s)\<rparr> else s)
           in if \<not> https then ([\<lparr>cr_project = m_project m, cr_name = ''cert'', cr_at = now, cr_value = None,
                                cr_attrs = [(''origin'', m_origin m)]\<rparr>], s1)
              else ([\<lparr>cr_project = m_project m, cr_name = ''cert'', cr_at = now, cr_value = days_left (c_expires st) now,
                     cr_attrs = filter (\<lambda>a. snd a \<noteq> [])
                       ([(''origin'', m_origin m), (''valid'', if c_valid st then ''1'' else ''0''), (''issuer'', c_issuer st),
                         (''error'', c_error st)]
                        @ (case c_expires st of None \<Rightarrow> [] | Some t \<Rightarrow> [(''expires'', date_text t)]))\<rparr>], s1))"

text \<open>An RDAP answer: unknown for good, a failure, or an expiry date with its day number.\<close>

datatype rdap_answer = RdapUnknown | RdapFailed | RdapDate string int

definition domain_done ::
  "(string \<Rightarrow> string) \<Rightarrow> bool \<Rightarrow> int \<Rightarrow> string \<Rightarrow> rdap_answer \<Rightarrow> int \<Rightarrow> run \<Rightarrow> check_row list \<times> run" where
  "domain_done main_domain ok p dname ans now s =
     (let store = (\<lambda>txt. if ok then s\<lparr>x_db := set_monitor_domain main_domain p dname txt (Some (now div second)) (x_db s)\<rparr>
        else s)
      in if x_cancelled s then ([], s)
         else case ans of
           RdapFailed \<Rightarrow> ([], s)
         | RdapUnknown \<Rightarrow>
             ([\<lparr>cr_project = p, cr_name = ''domain'', cr_at = now, cr_value = None, cr_attrs = [(''domain'', dname)]\<rparr>],
              store [])
         | RdapDate txt day \<Rightarrow>
             ([\<lparr>cr_project = p, cr_name = ''domain'', cr_at = now, cr_value = Some (day - now div (24 * 3600 * second)),
               cr_attrs = [(''domain'', dname), (''expires'', txt)]\<rparr>], store txt))"

text \<open>What \<open>availability\<close> stores after its check: the redirect count, then the result.\<close>

definition store_redirects :: "bool \<Rightarrow> mon \<Rightarrow> check_result \<Rightarrow> run \<Rightarrow> run" where
  "store_redirects ok m res s = (if ok \<and> rs_answered res \<and> \<not> x_cancelled s
     then s\<lparr>x_db := set_monitor_redirects (m_project m) (m_origin m) (rs_redirects res) (x_db s)\<rparr> else s)"

definition store_last :: "bool \<Rightarrow> mon \<Rightarrow> check_result \<Rightarrow> run \<Rightarrow> run" where
  "store_last ok m res s = (if ok \<and> \<not> x_cancelled s
     then s\<lparr>x_db := set_monitor_last (m_project m) (m_origin m) (mon_result_of (stamp s m) res) (x_db s)\<rparr> else s)"

text \<open>The reads of a manual check, in order.\<close>

definition manual_reads :: "(string \<Rightarrow> string) \<Rightarrow> mon \<Rightarrow> run \<Rightarrow> read_of list \<times> run" where
  "manual_reads main_domain m s = (case domain_of main_domain (m_origin m) s of
     (dname, s1) \<Rightarrow> ([ReadCert m, ReadDomain (m_project m) dname], s1))"

section \<open>Steps of a goroutine\<close>

inductive read_result :: "(string \<Rightarrow> string) \<Rightarrow> read_of \<Rightarrow> int \<Rightarrow> run \<Rightarrow> check_row list \<Rightarrow> run \<Rightarrow> bool" for main_domain where
  rr_cert: "cert_done ok m https date_text st now s = (evs, s') \<Longrightarrow> read_result main_domain (ReadCert m) now s evs s'"
| rr_no_url: "read_result main_domain (ReadCert m) now s [] s"
| rr_domain: "domain_done main_domain ok p d ans now s = (evs, s') \<Longrightarrow> read_result main_domain (ReadDomain p d) now s evs s'"

text \<open>
  \<open>task_move\<close> takes a task one step and answers the task it becomes, or none when it ends. The
  deferred calls run in the order Go runs them.
\<close>

inductive task_move :: "(string \<Rightarrow> string) \<Rightarrow> run \<Rightarrow> task \<Rightarrow> run \<Rightarrow> task option \<Rightarrow> bool" for main_domain where
  sl_check: "task_move main_domain s (SlotTask m SlotCheck) s (Some (SlotTask m (SlotRedirects (x_now s) res)))"
| sl_redirects: "task_move main_domain s (SlotTask m (SlotRedirects start res)) (store_redirects ok m res s)
     (Some (SlotTask m (SlotLast start res)))"
| sl_last: "task_move main_domain s (SlotTask m (SlotLast start res)) (store_last ok m res s)
     (Some (SlotTask m (SlotRelease [uptime_row (m_project m) (m_origin m) start res])))"
| sl_release: "task_move main_domain s (SlotTask m (SlotRelease evs)) (s\<lparr>x_sem := x_sem s - 1\<rparr>)
     (Some (SlotTask m (SlotKeep evs)))"
| sl_keep: "task_move main_domain s (SlotTask m (SlotKeep evs)) s
     (Some (SlotTask m (if keeps s then SlotAppend evs else SlotDelete)))"
| sl_append: "task_move main_domain s (SlotTask m (SlotAppend evs)) (append_rows evs s) (Some (SlotTask m SlotDelete))"
| sl_delete: "task_move main_domain s (SlotTask m SlotDelete) (s\<lparr>x_slots := x_slots s - {mon_key m}\<rparr>) None"
| mn_acquire: "x_sem s < workers \<Longrightarrow>
     task_move main_domain s (ManualTask m ManAcquire) (s\<lparr>x_sem := x_sem s + 1\<rparr>) (Some (ManualTask m ManCheck))"
| mn_cancelled: "x_cancelled s \<Longrightarrow>
     task_move main_domain s (ManualTask m ManAcquire) s (Some (ManualTask m (ManKeep [])))"
| mn_check: "task_move main_domain s (ManualTask m ManCheck) s (Some (ManualTask m (ManRedirects (x_now s) res)))"
| mn_redirects: "task_move main_domain s (ManualTask m (ManRedirects start res)) (store_redirects ok m res s)
     (Some (ManualTask m (ManLast start res)))"
| mn_last: "task_move main_domain s (ManualTask m (ManLast start res)) (store_last ok m res s)
     (Some (ManualTask m (ManRelease (uptime_row (m_project m) (m_origin m) start res))))"
| mn_release: "manual_reads main_domain m (s\<lparr>x_sem := x_sem s - 1\<rparr>) = (rds, s') \<Longrightarrow>
     task_move main_domain s (ManualTask m (ManRelease up)) s' (Some (ManualTask m (ManLock rds [up])))"
| mn_lock: "key_of_read r \<notin> x_locks s \<Longrightarrow>
     task_move main_domain s (ManualTask m (ManLock (r # rs) evs)) (s\<lparr>x_locks := insert (key_of_read r) (x_locks s)\<rparr>)
       (Some (ManualTask m (ManAcquireRead (r # rs) evs)))"
| mn_lock_cancelled: "x_cancelled s \<Longrightarrow>
     task_move main_domain s (ManualTask m (ManLock (r # rs) evs)) s (Some (ManualTask m (ManKeep evs)))"
| mn_read_all: "task_move main_domain s (ManualTask m (ManLock [] evs)) s (Some (ManualTask m (ManKeep evs)))"
| mn_acquire_read: "x_read_sem s < read_workers \<Longrightarrow>
     task_move main_domain s (ManualTask m (ManAcquireRead rs evs)) (s\<lparr>x_read_sem := x_read_sem s + 1\<rparr>)
       (Some (ManualTask m (ManTried rs evs)))"
| mn_acquire_read_cancelled: "x_cancelled s \<Longrightarrow>
     task_move main_domain s (ManualTask m (ManAcquireRead rs evs)) s (Some (ManualTask m (ManUnlock rs evs False)))"
| mn_tried: "task_move main_domain s (ManualTask m (ManTried (r # rs) evs))
     (s\<lparr>x_tried := (x_tried s)(key_of_read r \<mapsto> x_now s)\<rparr>) (Some (ManualTask m (ManRead (x_now s) (r # rs) evs)))"
| mn_read: "read_result main_domain r at s new s' \<Longrightarrow>
     task_move main_domain s (ManualTask m (ManRead at (r # rs) evs)) s'
       (Some (ManualTask m (ManReleaseRead (r # rs) (evs @ new))))"
| mn_release_read: "task_move main_domain s (ManualTask m (ManReleaseRead rs evs)) (s\<lparr>x_read_sem := x_read_sem s - 1\<rparr>)
     (Some (ManualTask m (ManUnlock rs evs True)))"
| mn_unlock: "task_move main_domain s (ManualTask m (ManUnlock (r # rs) evs go_on))
     (s\<lparr>x_locks := x_locks s - {key_of_read r}\<rparr>)
     (Some (ManualTask m (if go_on then ManLock rs evs else ManKeep evs)))"
| mn_keep: "task_move main_domain s (ManualTask m (ManKeep evs)) s
     (Some (ManualTask m (if keeps s then ManAppend evs else ManFinish)))"
| mn_append: "task_move main_domain s (ManualTask m (ManAppend evs)) (append_rows evs s) (Some (ManualTask m ManFinish))"
| mn_finish: "task_move main_domain s (ManualTask m ManFinish) (finish_check ok m s) (Some (ManualTask m ManDelete))"
| mn_delete: "task_move main_domain s (ManualTask m ManDelete) (s\<lparr>x_manuals := x_manuals s - {mon_key m}\<rparr>) None"
| rd_lock: "key_of_read r \<notin> x_locks s \<Longrightarrow>
     task_move main_domain s (ReadTask r RdLock) (s\<lparr>x_locks := insert (key_of_read r) (x_locks s)\<rparr>) (Some (ReadTask r RdAcquire))"
| rd_lock_cancelled: "x_cancelled s \<Longrightarrow> task_move main_domain s (ReadTask r RdLock) s (Some (ReadTask r RdDelete))"
| rd_acquire: "x_read_sem s < read_workers \<Longrightarrow>
     task_move main_domain s (ReadTask r RdAcquire) (s\<lparr>x_read_sem := x_read_sem s + 1\<rparr>) (Some (ReadTask r RdRead))"
| rd_acquire_cancelled: "x_cancelled s \<Longrightarrow>
     task_move main_domain s (ReadTask r RdAcquire) s (Some (ReadTask r RdUnlock))"
| rd_read: "read_result main_domain r (x_now s) s evs s' \<Longrightarrow>
     task_move main_domain s (ReadTask r RdRead) s' (Some (ReadTask r (RdRelease evs)))"
| rd_release: "task_move main_domain s (ReadTask r (RdRelease evs)) (s\<lparr>x_read_sem := x_read_sem s - 1\<rparr>) (Some (ReadTask r (RdKeep evs)))"
| rd_keep: "task_move main_domain s (ReadTask r (RdKeep evs)) s
     (Some (ReadTask r (if keeps s then RdAppend evs else RdUnlock)))"
| rd_append: "task_move main_domain s (ReadTask r (RdAppend evs)) (append_rows evs s) (Some (ReadTask r RdUnlock))"
| rd_unlock: "task_move main_domain s (ReadTask r RdUnlock) (s\<lparr>x_locks := x_locks s - {key_of_read r}\<rparr>) (Some (ReadTask r RdDelete))"
| rd_delete: "task_move main_domain s (ReadTask r RdDelete)
     (s\<lparr>x_reads := x_reads s - {key_of_read r},
        x_tried := (if x_tried s (key_of_read r) = None then x_tried s else (x_tried s)(key_of_read r \<mapsto> x_now s))\<rparr>) None"

inductive task_step :: "(string \<Rightarrow> string) \<Rightarrow> run \<Rightarrow> run \<Rightarrow> bool" for main_domain where
  ts_move: "x_tasks s = add_mset t M \<Longrightarrow> task_move main_domain (s\<lparr>x_tasks := M\<rparr>) t s' r
    \<Longrightarrow> s'' = s'\<lparr>x_tasks := (case r of None \<Rightarrow> x_tasks s' | Some t' \<Rightarrow> add_mset t' (x_tasks s'))\<rparr>
    \<Longrightarrow> task_step main_domain s s''"

section \<open>Steps of the tick loop\<close>

inductive sched_step :: "(string \<Rightarrow> string) \<Rightarrow> run \<Rightarrow> run \<Rightarrow> bool" for main_domain where
  sc_tick: "x_sched s = SchedIdle prev \<Longrightarrow>
     sched_step main_domain s ((flush ok s)\<lparr>x_sched := SchedClone prev (x_now s)\<rparr>)"
| sc_clone: "x_sched s = SchedClone prev now \<Longrightarrow>
     sched_step main_domain s (s\<lparr>x_sched := SchedList prev now (x_manuals s)\<rparr>)"
| sc_list_failed: "x_sched s = SchedList prev now busy \<Longrightarrow>
     sched_step main_domain s (s\<lparr>x_sched := SchedIdle now\<rparr>)"
| sc_list: "x_sched s = SchedList prev now busy \<Longrightarrow> ms = list_enabled_monitors (x_db s) \<Longrightarrow>
     sched_step main_domain s ((forget_disabled main_domain ms s)\<lparr>x_sched :=
       (if x_paused s then SchedPaused now ms else SchedManuals prev now busy ms ms)\<rparr>)"
| sc_paused: "x_sched s = SchedPaused now (m # ms) \<Longrightarrow>
     sched_step main_domain s ((if check_pending m \<and> \<not> x_cancelled s then finish_check ok m s else s)\<lparr>x_sched := SchedPaused now ms\<rparr>)"
| sc_paused_end: "x_sched s = SchedPaused now [] \<Longrightarrow> sched_step main_domain s (s\<lparr>x_sched := SchedIdle now\<rparr>)"
| sc_manual: "x_sched s = SchedManuals prev now busy (m # ms) all \<Longrightarrow>
     sched_step main_domain s ((if check_pending m \<and> mon_key m \<notin> busy \<and> \<not> x_cancelled s then start_manual ok m now s else s)
       \<lparr>x_sched := SchedManuals prev now busy ms all\<rparr>)"
| sc_manual_end: "x_sched s = SchedManuals prev now busy [] all \<Longrightarrow>
     sched_step main_domain s (s\<lparr>x_sched := SchedSlots prev now all\<rparr>)"
| sc_slot: "x_sched s = SchedSlots prev now (m # ms) \<Longrightarrow>
     sched_step main_domain s ((if due prev now (x_interval s) (offset (m_project m) (m_origin m) (x_interval s))
       then start_slot m (start_reads main_domain ok m s) else s)\<lparr>x_sched := SchedSlots prev now ms\<rparr>)"
| sc_slot_end: "x_sched s = SchedSlots prev now [] \<Longrightarrow> sched_step main_domain s (s\<lparr>x_sched := SchedIdle now\<rparr>)"
| sc_stop: "x_sched s = SchedIdle prev \<Longrightarrow> x_cancelled s \<Longrightarrow> sched_step main_domain s (s\<lparr>x_sched := SchedWait\<rparr>)"
| sc_done: "x_sched s = SchedWait \<Longrightarrow> x_tasks s = {#} \<Longrightarrow>
     sched_step main_domain s ((flush ok s)\<lparr>x_sched := SchedDone\<rparr>)"

text \<open>The whole system: also shutdown, the clock (any way it goes) and other writers.\<close>

inductive run_step :: "(string \<Rightarrow> string) \<Rightarrow> run \<Rightarrow> run \<Rightarrow> bool" for main_domain where
  rs_task: "task_step main_domain s s' \<Longrightarrow> run_step main_domain s s'"
| rs_sched: "sched_step main_domain s s' \<Longrightarrow> run_step main_domain s s'"
| rs_cancel: "run_step main_domain s (s\<lparr>x_cancelled := True\<rparr>)"
| rs_clock: "run_step main_domain s (s\<lparr>x_now := t\<rparr>)"
| rs_others: "mon_step main_domain (x_db s) db \<Longrightarrow> run_step main_domain s (s\<lparr>x_db := db\<rparr>)"

definition run_start :: "mon_db \<Rightarrow> int \<Rightarrow> int \<Rightarrow> bool \<Rightarrow> run" where
  "run_start db now interval paused = \<lparr>x_db = db, x_now = now, x_cancelled = False, x_paused = paused,
     x_interval = interval, x_sem = 0, x_read_sem = 0, x_slots = {}, x_manuals = {}, x_reads = {}, x_locks = {},
     x_tried = Map.empty, x_domains = Map.empty, x_pending = [], x_written = [], x_tasks = {#},
     x_sched = SchedIdle now\<rparr>"

inductive run_reach :: "(string \<Rightarrow> string) \<Rightarrow> run \<Rightarrow> bool" for main_domain where
  re_start: "mon_ok main_domain db \<Longrightarrow> run_reach main_domain (run_start db now interval paused)"
| re_step: "run_reach main_domain s \<Longrightarrow> run_step main_domain s s' \<Longrightarrow> run_reach main_domain s'"

inductive_cases task_move_slotE: "task_move main_domain s (SlotTask m pc) s' r"
inductive_cases task_move_manualE: "task_move main_domain s (ManualTask m pc) s' r"
inductive_cases task_move_readE: "task_move main_domain s (ReadTask rd pc) s' r"

end
