(* ===== verification/RunnerSafety.thy ===== *)
theory RunnerSafety
  imports MonitorRunner
begin

text \<open>
  What every reachable state of the runner of \<^theory_text>\<open>MonitorRunner\<close> satisfies: what each task holds
  is exactly what the shared state says is taken, so the pools are never exceeded, no monitor has
  two slot checks or two manual checks at once (a slot check and a manual check of one monitor
  may overlap) and no reading is read by two goroutines; no task can wait forever; the tables stay sound; and what a
  paused or a cancelled runner does not do.
\<close>

section \<open>What a task holds\<close>

fun slots_of :: "task \<Rightarrow> mon_id multiset" where
  "slots_of (SlotTask m pc) = {#mon_key m#}"
| "slots_of _ = {#}"

fun manuals_of :: "task \<Rightarrow> mon_id multiset" where
  "manuals_of (ManualTask m pc) = {#mon_key m#}"
| "manuals_of _ = {#}"

fun reads_of :: "task \<Rightarrow> read_key multiset" where
  "reads_of (ReadTask r pc) = {#key_of_read r#}"
| "reads_of _ = {#}"

fun workers_of :: "task \<Rightarrow> nat" where
  "workers_of (SlotTask m pc) = (case pc of SlotKeep _ \<Rightarrow> 0 | SlotAppend _ \<Rightarrow> 0 | SlotDelete \<Rightarrow> 0 | _ \<Rightarrow> 1)"
| "workers_of (ManualTask m pc) =
     (case pc of ManCheck \<Rightarrow> 1 | ManRedirects _ _ \<Rightarrow> 1 | ManLast _ _ \<Rightarrow> 1 | ManRelease _ \<Rightarrow> 1 | _ \<Rightarrow> 0)"
| "workers_of (ReadTask r pc) = 0"

fun read_workers_of :: "task \<Rightarrow> nat" where
  "read_workers_of (SlotTask m pc) = 0"
| "read_workers_of (ManualTask m pc) =
     (case pc of ManTried _ _ \<Rightarrow> 1 | ManRead _ _ _ \<Rightarrow> 1 | ManReleaseRead _ _ \<Rightarrow> 1 | _ \<Rightarrow> 0)"
| "read_workers_of (ReadTask r pc) = (case pc of RdRead \<Rightarrow> 1 | RdRelease _ \<Rightarrow> 1 | _ \<Rightarrow> 0)"

fun locks_of :: "task \<Rightarrow> read_key multiset" where
  "locks_of (SlotTask m pc) = {#}"
| "locks_of (ManualTask m pc) =
     (case pc of ManAcquireRead rs _ \<Rightarrow> {#key_of_read (hd rs)#} | ManTried rs _ \<Rightarrow> {#key_of_read (hd rs)#}
      | ManRead _ rs _ \<Rightarrow> {#key_of_read (hd rs)#} | ManReleaseRead rs _ \<Rightarrow> {#key_of_read (hd rs)#}
      | ManUnlock rs _ _ \<Rightarrow> {#key_of_read (hd rs)#} | _ \<Rightarrow> {#})"
| "locks_of (ReadTask r pc) = (case pc of RdLock \<Rightarrow> {#} | RdDelete \<Rightarrow> {#} | _ \<Rightarrow> {#key_of_read r#})"

text \<open>A manual check that is at a reading has that reading in its list.\<close>

fun pc_ok :: "task \<Rightarrow> bool" where
  "pc_ok (ManualTask m pc) =
     (case pc of ManAcquireRead rs _ \<Rightarrow> rs \<noteq> [] | ManTried rs _ \<Rightarrow> rs \<noteq> [] | ManRead _ rs _ \<Rightarrow> rs \<noteq> []
      | ManReleaseRead rs _ \<Rightarrow> rs \<noteq> [] | ManUnlock rs _ _ \<Rightarrow> rs \<noteq> [] | _ \<Rightarrow> True)"
| "pc_ok _ = True"

text \<open>The multiset \<open>M\<close> holds each element of \<open>S\<close> once and nothing else.\<close>

definition owned :: "'a multiset \<Rightarrow> 'a set \<Rightarrow> bool" where
  "owned M S \<longleftrightarrow> (\<forall>k. count M k = of_bool (k \<in> S))"

lemma owned_empty [simp]: "owned {#} {}"
  by (simp add: owned_def)

lemma owned_insert: "owned M S \<Longrightarrow> k \<notin> S \<Longrightarrow> owned (add_mset k M) (insert k S)"
  by (auto simp: owned_def)

lemma owned_remove: "owned (add_mset k M) S \<Longrightarrow> owned M (S - {k})"
proof -
  assume own: "owned (add_mset k M) S"
  have "count M j = of_bool (j \<in> S - {k})" for j
    using own [unfolded owned_def, rule_format, of j] by (cases "j = k") (auto simp: of_bool_def split: if_splits)
  then show ?thesis by (simp add: owned_def)
qed

lemma owned_in: "owned (add_mset k M) S \<Longrightarrow> k \<in> S"
proof -
  assume "owned (add_mset k M) S"
  then have "count (add_mset k M) k = of_bool (k \<in> S)" unfolding owned_def by blast
  then show ?thesis by (cases "k \<in> S") simp_all
qed

text \<open>What all tasks hold together.\<close>

definition total :: "('b \<Rightarrow> 'a :: comm_monoid_add) \<Rightarrow> 'b multiset \<Rightarrow> 'a" where
  "total f M = sum_mset (image_mset f M)"

lemma total_simps [simp]: "total f {#} = 0" "total f (add_mset t M) = f t + total f M"
  by (simp_all add: total_def)

lemma total_0: "total f M = (0 :: nat) \<longleftrightarrow> (\<forall>t \<in># M. f t = 0)"
  by (induction M) auto

lemma total_empty: "total f M = ({#} :: 'a multiset) \<longleftrightarrow> (\<forall>t \<in># M. f t = {#})"
  by (induction M) auto

text \<open>The tasks \<open>M\<close> hold what the shared state says is taken.\<close>

definition held_by :: "task multiset \<Rightarrow> run \<Rightarrow> bool" where
  "held_by M s \<longleftrightarrow> owned (total slots_of M) (x_slots s) \<and> owned (total manuals_of M) (x_manuals s)
     \<and> owned (total reads_of M) (x_reads s) \<and> owned (total locks_of M) (x_locks s)
     \<and> x_sem s = total workers_of M \<and> x_sem s \<le> workers
     \<and> x_read_sem s = total read_workers_of M \<and> x_read_sem s \<le> read_workers
     \<and> (\<forall>t \<in># M. pc_ok t)"

section \<open>What each operation leaves alone\<close>

text \<open>The part of the state that says what is taken, with the tasks.\<close>

definition held :: "run \<Rightarrow> nat \<times> nat \<times> mon_id set \<times> mon_id set \<times> read_key set \<times> read_key set \<times> task multiset" where
  "held s = (x_sem s, x_read_sem s, x_slots s, x_manuals s, x_reads s, x_locks s, x_tasks s)"

lemma held_by_cong: "held s = held s' \<Longrightarrow> held_by M s = held_by M s'"
  by (simp add: held_def held_by_def)

lemma held_ops [frame_simps]:
  "held (append_rows evs s) = held s" "held (flush b s) = held s" "held (finish_check b m s) = held s"
  "held (store_redirects b m res s) = held s" "held (store_last b m res s) = held s"
  by (simp_all add: held_def append_rows_def flush_def finish_check_def store_redirects_def store_last_def)

lemma held_domain_of [frame_simps]: "held (snd (domain_of md ori s)) = held s"
  by (simp add: held_def domain_of_def split: option.splits)

lemma held_forget [frame_simps]: "held (forget_disabled md ms s) = held s"
proof -
  have "held (fold (\<lambda>m. snd \<circ> domain_of md (m_origin m)) ms s) = held s" for s
    by (induction ms arbitrary: s) (simp_all add: frame_simps)
  then show ?thesis by (simp add: forget_disabled_def Let_def held_def)
qed

lemma held_read_result: "read_result md r now s evs s' \<Longrightarrow> held s' = held s"
  by (erule read_result.cases)
    (auto simp: cert_done_def domain_done_def held_def Let_def split: if_splits rdap_answer.splits)

lemma held_manual_reads: "manual_reads md m s = (rds, s') \<Longrightarrow> held s' = held s"
  using held_domain_of [of md "m_origin m" s] by (auto simp: manual_reads_def split: prod.splits)

lemma held_fields:
  assumes "held s = held s'"
  shows "x_sem s = x_sem s'" "x_read_sem s = x_read_sem s'" "x_slots s = x_slots s'" "x_manuals s = x_manuals s'"
    "x_reads s = x_reads s'" "x_locks s = x_locks s'" "x_tasks s = x_tasks s'"
  using assms by (simp_all add: held_def)

lemma held_all:
  "held s = held s' \<Longrightarrow> x_sem s = x_sem s' \<and> x_read_sem s = x_read_sem s' \<and> x_slots s = x_slots s'
     \<and> x_manuals s = x_manuals s' \<and> x_reads s = x_reads s' \<and> x_locks s = x_locks s' \<and> x_tasks s = x_tasks s'"
  by (simp add: held_def)

lemmas op_fields [simp] = held_fields [OF held_ops(1)] held_fields [OF held_ops(2)] held_fields [OF held_ops(3)]
  held_fields [OF held_ops(4)] held_fields [OF held_ops(5)]

section \<open>Steps of a task\<close>

lemma slot_move_held:
  assumes "task_move md s (SlotTask m pc) s' r" and "held_by (add_mset (SlotTask m pc) M) s"
  shows "held_by (case r of None \<Rightarrow> M | Some t \<Rightarrow> add_mset t M) s' \<and> x_tasks s' = x_tasks s"
  using assms by (elim task_move_slotE) (auto simp: held_by_def dest: owned_remove)

lemma read_move_held:
  assumes "task_move md s (ReadTask rd pc) s' r" and "held_by (add_mset (ReadTask rd pc) M) s"
  shows "held_by (case r of None \<Rightarrow> M | Some t \<Rightarrow> add_mset t M) s' \<and> x_tasks s' = x_tasks s"
  using assms by (elim task_move_readE)
    (auto simp: held_by_def dest: owned_remove intro: owned_insert dest!: held_all [OF held_read_result])

lemma manual_move_held:
  assumes "task_move md s (ManualTask m pc) s' r" and "held_by (add_mset (ManualTask m pc) M) s"
  shows "held_by (case r of None \<Rightarrow> M | Some t \<Rightarrow> add_mset t M) s' \<and> x_tasks s' = x_tasks s"
  using assms by (elim task_move_manualE)
    (auto simp: held_by_def dest: owned_remove intro: owned_insert
      dest!: held_all [OF held_read_result] held_all [OF held_manual_reads])

lemma task_move_held:
  assumes "task_move md s t s' r" and "held_by (add_mset t M) s"
  shows "held_by (case r of None \<Rightarrow> M | Some t \<Rightarrow> add_mset t M) s' \<and> x_tasks s' = x_tasks s"
proof (cases t)
  case (SlotTask m pc)
  show ?thesis by (rule slot_move_held) (use assms SlotTask in auto)
next
  case (ManualTask m pc)
  show ?thesis by (rule manual_move_held) (use assms ManualTask in auto)
next
  case (ReadTask rd pc)
  show ?thesis by (rule read_move_held) (use assms ReadTask in auto)
qed

definition held_ok :: "run \<Rightarrow> bool" where
  "held_ok s \<longleftrightarrow> held_by (x_tasks s) s"

lemma held_by_tasks [simp]: "held_by M (s\<lparr>x_tasks := T\<rparr>) = held_by M s"
  by (simp add: held_by_def)

lemma held_by_sched [simp]: "held_by M (s\<lparr>x_sched := T\<rparr>) = held_by M s"
  by (simp add: held_by_def)

lemma held_ok_cong: "held s = held s' \<Longrightarrow> held_ok s = held_ok s'"
  by (simp add: held_ok_def held_by_def held_def)

lemma task_step_held:
  assumes "task_step md s s''" and "held_ok s"
  shows "held_ok s''"
  using assms
proof (cases rule: task_step.cases)
  case (ts_move t M s' r)
  have "held_by (add_mset t M) (s\<lparr>x_tasks := M\<rparr>)" using assms(2) ts_move by (simp add: held_ok_def)
  from task_move_held [OF ts_move(2) this]
  have "held_by (case r of None \<Rightarrow> M | Some t \<Rightarrow> add_mset t M) s'" "x_tasks s' = M" by simp_all
  then show ?thesis unfolding held_ok_def ts_move(3) by (cases r) simp_all
qed

section \<open>Steps of the tick loop\<close>

lemma start_manual_held: "held_ok s \<Longrightarrow> held_ok (start_manual ok m now s)"
  using held_ok_cong [OF held_ops(3)]
  by (simp add: start_manual_def) (auto simp: held_ok_def held_by_def intro: owned_insert)

lemma start_slot_held: "held_ok s \<Longrightarrow> held_ok (start_slot m s)"
  by (simp add: start_slot_def) (auto simp: held_ok_def held_by_def intro: owned_insert)

lemma start_read_held: "held_ok s \<Longrightarrow> held_ok (start_read r now s)"
  by (simp add: start_read_def Let_def) (auto simp: held_ok_def held_by_def intro: owned_insert)

lemma domain_of_held: "held_ok s \<Longrightarrow> domain_of md ori s = (d, s') \<Longrightarrow> held_ok s'"
  using held_ok_cong [OF held_domain_of, of md ori s] by simp

lemma start_reads_held: "held_ok s \<Longrightarrow> held_ok (start_reads md ok m s)"
  by (auto simp: start_reads_def Let_def split: prod.splits intro: start_read_held domain_of_held)

lemma held_ok_sched [simp]: "held_ok (s\<lparr>x_sched := q\<rparr>) = held_ok s"
  by (simp add: held_ok_def held_by_def)

lemma sched_step_held: "sched_step md s s' \<Longrightarrow> held_ok s \<Longrightarrow> held_ok s'"
  by (induction rule: sched_step.induct)
    (simp_all add: held_ok_cong [OF held_ops(2)] held_ok_cong [OF held_ops(3)] held_ok_cong [OF held_forget]
      start_manual_held start_slot_held start_reads_held)

lemma run_step_held: "run_step md s s' \<Longrightarrow> held_ok s \<Longrightarrow> held_ok s'"
proof (induction rule: run_step.induct)
  case (rs_task s s')
  then show ?case by (rule task_step_held)
next
  case (rs_sched s s')
  then show ?case by (rule sched_step_held)
qed (simp_all add: held_ok_def held_by_def)

lemma run_reach_held: "run_reach md s \<Longrightarrow> held_ok s"
proof (induction rule: run_reach.induct)
  case (re_start db now interval paused)
  show ?case by (simp add: run_start_def held_ok_def held_by_def)
qed (rule run_step_held)

section \<open>Nothing waits forever\<close>

text \<open>A bound on the steps a task still makes.\<close>

fun left_of :: "task \<Rightarrow> nat" where
  "left_of (SlotTask m pc) = (case pc of SlotCheck \<Rightarrow> 7 | SlotRedirects _ _ \<Rightarrow> 6 | SlotLast _ _ \<Rightarrow> 5 | SlotRelease _ \<Rightarrow> 4
     | SlotKeep _ \<Rightarrow> 3 | SlotAppend _ \<Rightarrow> 2 | SlotDelete \<Rightarrow> 1)"
| "left_of (ManualTask m pc) = (case pc of ManAcquire \<Rightarrow> 24 | ManCheck \<Rightarrow> 23 | ManRedirects _ _ \<Rightarrow> 22 | ManLast _ _ \<Rightarrow> 21
     | ManRelease _ \<Rightarrow> 20 | ManLock rs _ \<Rightarrow> 7 * length rs + 5 | ManAcquireRead rs _ \<Rightarrow> 7 * length rs + 4
     | ManTried rs _ \<Rightarrow> 7 * length rs + 3 | ManRead _ rs _ \<Rightarrow> 7 * length rs + 2 | ManReleaseRead rs _ \<Rightarrow> 7 * length rs + 1
     | ManUnlock rs _ _ \<Rightarrow> 7 * length rs | ManKeep _ \<Rightarrow> 4 | ManAppend _ \<Rightarrow> 3 | ManFinish \<Rightarrow> 2 | ManDelete \<Rightarrow> 1)"
| "left_of (ReadTask r pc) = (case pc of RdLock \<Rightarrow> 8 | RdAcquire \<Rightarrow> 7 | RdRead \<Rightarrow> 6 | RdRelease _ \<Rightarrow> 5 | RdKeep _ \<Rightarrow> 4
     | RdAppend _ \<Rightarrow> 3 | RdUnlock \<Rightarrow> 2 | RdDelete \<Rightarrow> 1)"

lemma task_move_left:
  assumes "task_move md s t s' r" and "pc_ok t"
  shows "(case r of None \<Rightarrow> 0 | Some t' \<Rightarrow> left_of t') < left_of t"
  using assms by (induction rule: task_move.induct) (auto simp: manual_reads_def neq_Nil_conv split: prod.splits)

lemma task_step_left:
  assumes "task_step md s s''" and "held_ok s"
  shows "total left_of (x_tasks s'') < total left_of (x_tasks s)"
  using assms
proof (cases rule: task_step.cases)
  case (ts_move t M s' r)
  have h: "held_by (add_mset t M) (s\<lparr>x_tasks := M\<rparr>)" using assms(2) ts_move by (simp add: held_ok_def)
  have "x_tasks s' = M" using task_move_held [OF ts_move(2) h] by simp
  moreover have "pc_ok t" using h by (simp add: held_by_def)
  ultimately show ?thesis using task_move_left [OF ts_move(2)] unfolding ts_move(1,3) by (cases r) simp_all
qed

lemma read_result_ex: "\<exists>evs s'. read_result md r now s evs s'"
proof (cases r)
  case (ReadCert m)
  then show ?thesis using rr_no_url by blast
next
  case (ReadDomain p d)
  obtain evs s' where "domain_done md True p d RdapFailed now s = (evs, s')" by (metis surj_pair)
  then show ?thesis unfolding ReadDomain by (blast intro: rr_domain)
qed

text \<open>What a task waits for: a worker, a read worker or the lock of a reading.\<close>

fun wants :: "task \<Rightarrow> run \<Rightarrow> bool" where
  "wants (ManualTask m ManAcquire) s = (x_sem s < workers)"
| "wants (ManualTask m (ManLock (r # rs) evs)) s = (key_of_read r \<notin> x_locks s)"
| "wants (ManualTask m (ManAcquireRead rs evs)) s = (x_read_sem s < read_workers)"
| "wants (ReadTask r RdLock) s = (key_of_read r \<notin> x_locks s)"
| "wants (ReadTask r RdAcquire) s = (x_read_sem s < read_workers)"
| "wants _ s = True"

lemma task_can_move:
  assumes "wants t s" and "pc_ok t"
  shows "\<exists>s' r. task_move md s t s' r"
proof (cases t)
  case (SlotTask m pc)
  then show ?thesis by (cases pc) (blast intro: task_move.intros)+
next
  case (ManualTask m pc)
  then show ?thesis
  proof (cases pc)
    case (ManRelease up)
    obtain rds s' where "manual_reads md m (s\<lparr>x_sem := x_sem s - 1\<rparr>) = (rds, s')" by (metis surj_pair)
    then show ?thesis unfolding ManualTask ManRelease by (blast intro: mn_release)
  next
    case (ManLock rs evs)
    then show ?thesis using assms(1) ManualTask by (cases rs) (auto intro: mn_lock mn_read_all)
  next
    case (ManTried rs evs)
    then show ?thesis using assms(2) ManualTask by (auto simp: neq_Nil_conv intro: mn_tried)
  next
    case (ManRead at rs evs)
    then obtain r rs' where rs: "rs = r # rs'" using assms(2) ManualTask by (auto simp: neq_Nil_conv)
    obtain new s' where "read_result md r at s new s'" using read_result_ex by blast
    then show ?thesis unfolding ManualTask ManRead rs by (blast intro: mn_read)
  next
    case (ManUnlock rs evs b)
    then show ?thesis using assms(2) ManualTask by (auto simp: neq_Nil_conv intro: mn_unlock)
  next
    case ManAcquire
    then show ?thesis using assms(1) ManualTask by (auto intro: mn_acquire)
  next
    case (ManAcquireRead rs evs)
    then show ?thesis using assms(1) ManualTask by (auto intro: mn_acquire_read)
  qed (blast intro: task_move.intros)+
next
  case (ReadTask rd pc)
  then show ?thesis
  proof (cases pc)
    case RdRead
    obtain evs s' where "read_result md rd (x_now s) s evs s'" using read_result_ex by blast
    then show ?thesis unfolding ReadTask RdRead by (blast intro: rd_read)
  next
    case RdLock
    then show ?thesis using assms(1) ReadTask by (auto intro: rd_lock)
  next
    case RdAcquire
    then show ?thesis using assms(1) ReadTask by (auto intro: rd_acquire)
  qed (blast intro: task_move.intros)+
qed

text \<open>Among the tasks there is always one that waits for nothing taken.\<close>

lemma some_task_wants:
  assumes h: "held_by M s" and "M \<noteq> {#}"
  shows "\<exists>t \<in># M. wants t s"
proof (rule ccontr)
  assume "\<not> ?thesis"
  then have no: "\<not> wants t s" if "t \<in># M" for t using that by blast
  have w: "workers_of t = 0" and rw: "read_workers_of t = 0" if "t \<in># M" for t
    using no [OF that] by (induction t s rule: wants.induct) simp_all
  from w rw have "x_sem s = 0" "x_read_sem s = 0"
    using h by (simp_all add: held_by_def total_0)
  then have free: "x_sem s < workers" "x_read_sem s < read_workers" by (simp_all add: workers_def read_workers_def)
  have l: "locks_of t = {#}" if "t \<in># M" for t
    using no [OF that] free by (induction t s rule: wants.induct) simp_all
  then have "total locks_of M = {#}" by (simp add: total_empty)
  then have "x_locks s = {}" using h by (auto simp: held_by_def owned_def)
  moreover obtain t where "t \<in># M" using assms(2) by blast
  ultimately show False using no [of t] free by (induction t s rule: wants.induct) simp_all
qed

lemma wants_tasks [simp]: "wants t (s\<lparr>x_tasks := M\<rparr>) = wants t s"
  by (induction t s rule: wants.induct) simp_all

lemma task_step_ex:
  assumes h: "held_ok s" and "x_tasks s \<noteq> {#}"
  shows "\<exists>s'. task_step md s s'"
proof -
  obtain t where t: "t \<in># x_tasks s" "wants t s"
    using some_task_wants [OF h [unfolded held_ok_def] assms(2)] by blast
  then obtain M where M: "x_tasks s = add_mset t M" by (metis insert_DiffM)
  have "wants t (s\<lparr>x_tasks := M\<rparr>)" "pc_ok t" using t h by (simp_all add: held_ok_def held_by_def)
  then obtain s' r where "task_move md (s\<lparr>x_tasks := M\<rparr>) t s' r" using task_can_move by blast
  from ts_move [OF M this refl] show ?thesis by blast
qed

text \<open>So the tasks that run when shutdown begins all end, whatever the order of their steps.\<close>

lemma tasks_drain:
  assumes "held_ok s"
  shows "\<exists>s'. (task_step md)\<^sup>*\<^sup>* s s' \<and> x_tasks s' = {#}"
  using assms
proof (induction "total left_of (x_tasks s)" arbitrary: s rule: less_induct)
  case less
  show ?case
  proof (cases "x_tasks s = {#}")
    case False
    then obtain s1 where s1: "task_step md s s1" using task_step_ex [OF less.prems] by blast
    from less.hyps [OF task_step_left [OF s1 less.prems] task_step_held [OF s1 less.prems]]
    show ?thesis using s1 by (meson converse_rtranclp_into_rtranclp)
  qed blast
qed

section \<open>The tables\<close>

lemma stamp_ge: "m_requested m \<le> stamp s m"
  by (auto simp: stamp_def Let_def not_less)

text \<open>An operation of the runner writes the tables by one step of theirs, or not at all.\<close>

definition db_moves :: "(string \<Rightarrow> string) \<Rightarrow> run \<Rightarrow> run \<Rightarrow> bool" where
  "db_moves md s s' \<longleftrightarrow> x_db s' = x_db s \<or> mon_step md (x_db s) (x_db s')"

lemma db_moves_refl: "x_db s' = x_db s \<Longrightarrow> db_moves md s s'"
  by (simp add: db_moves_def)

lemma db_moves_ops:
  "db_moves md s (append_rows evs s)" "db_moves md s (flush b s)" "db_moves md s (finish_check b m s)"
  "db_moves md s (store_redirects b m res s)" "db_moves md s (store_last b m res s)"
  by (auto simp: db_moves_def append_rows_def flush_def finish_check_def store_redirects_def store_last_def
    intro: mon_step.intros stamp_ge)

lemma db_moves_read_result: "read_result md r at s evs s' \<Longrightarrow> db_moves md s s'"
  by (erule read_result.cases)
    (auto simp: cert_done_def domain_done_def db_moves_def Let_def intro: mon_step.intros
      split: if_splits rdap_answer.splits)

lemma x_db_domain_of: "x_db (snd (domain_of md ori s)) = x_db s"
  by (simp add: domain_of_def split: option.splits)

lemma db_moves_manual_reads: "manual_reads md m s = (rds, s') \<Longrightarrow> x_db s' = x_db s"
  using x_db_domain_of [of md "m_origin m" s] by (auto simp: manual_reads_def split: prod.splits)

lemma task_move_db: "task_move md s t s' r \<Longrightarrow> db_moves md s s'"
proof (induction rule: task_move.induct)
  case (mn_release m s rds s' up)
  then show ?case using db_moves_manual_reads by (fastforce simp: db_moves_def)
qed (auto intro: db_moves_ops db_moves_read_result db_moves_refl)

lemma task_step_db: "task_step md s s' \<Longrightarrow> db_moves md s s'"
  by (erule task_step.cases) (auto simp: db_moves_def dest!: task_move_db)

lemma x_db_start_read: "x_db (start_read r now s) = x_db s"
  by (simp add: start_read_def Let_def)

lemma x_db_start_reads: "x_db (start_reads md ok m s) = x_db s"
  using x_db_domain_of [of md "m_origin m" "if stale (c_checked (m_cert m)) (x_now s) then start_read (ReadCert m) (x_now s) s else s"]
  by (auto simp: start_reads_def Let_def x_db_start_read split: prod.splits)

lemma x_db_start_slot: "x_db (start_slot m s) = x_db s"
  by (simp add: start_slot_def)

lemma x_db_forget: "x_db (forget_disabled md ms s) = x_db s"
proof -
  have "x_db (fold (\<lambda>m. snd \<circ> domain_of md (m_origin m)) ms s) = x_db s" for s
    by (induction ms arbitrary: s) (simp_all add: x_db_domain_of)
  then show ?thesis by (simp add: forget_disabled_def Let_def)
qed

lemma start_manual_db: "db_moves md s (start_manual ok m now s)"
  using db_moves_ops(3) [of md s ok m] by (simp add: start_manual_def db_moves_def)

lemma sched_step_db: "sched_step md s s' \<Longrightarrow> db_moves md s s'"
proof (induction rule: sched_step.induct)
  case (sc_paused s now m ms ok)
  show ?case using db_moves_ops(3) [of md s ok m] by (simp add: db_moves_def)
next
  case (sc_manual s prev now busy m ms all ok)
  show ?case using start_manual_db [of md s ok m now] by (simp add: db_moves_def)
qed (simp_all add: db_moves_def x_db_forget x_db_start_slot x_db_start_reads flush_def)

section \<open>Rows\<close>

text \<open>What was kept or written.\<close>

definition rows_of :: "run \<Rightarrow> check_row set" where
  "rows_of s = set (x_pending s) \<union> set (concat (x_written s))"

lemma rows_of_upd [simp]:
  "rows_of (s\<lparr>x_sched := q\<rparr>) = rows_of s" "rows_of (s\<lparr>x_tasks := M\<rparr>) = rows_of s" "rows_of (s\<lparr>x_sem := n\<rparr>) = rows_of s"
  by (simp_all add: rows_of_def)

text \<open>An operation that keeps no row, whether the runner is cancelled or paused.\<close>

definition no_rows :: "run \<Rightarrow> run \<Rightarrow> bool" where
  "no_rows s s' \<longleftrightarrow> rows_of s' \<subseteq> rows_of s \<and> x_cancelled s' = x_cancelled s \<and> x_paused s' = x_paused s"

lemma no_rows_ops:
  "no_rows s (flush b s)" "no_rows s (finish_check b m s)"
  "no_rows s (store_redirects b m res s)" "no_rows s (store_last b m res s)" "no_rows s (start_slot m s)"
  "no_rows s (start_read r now s)" "no_rows s (snd (domain_of md ori s))"
  by (auto simp: no_rows_def rows_of_def flush_def finish_check_def store_redirects_def store_last_def
    start_slot_def start_read_def domain_of_def Let_def split: option.splits)

lemma no_rows_trans: "no_rows s s' \<Longrightarrow> no_rows s' s'' \<Longrightarrow> no_rows s s''"
  by (auto simp: no_rows_def)

lemma no_rows_read_result: "read_result md r at s evs s' \<Longrightarrow> no_rows s s'"
  by (erule read_result.cases)
    (auto simp: cert_done_def domain_done_def no_rows_def rows_of_def Let_def split: if_splits rdap_answer.splits)

lemma no_rows_manual_reads: "manual_reads md m s = (rds, s') \<Longrightarrow> no_rows s s'"
  using no_rows_ops(7) [of s md "m_origin m"] by (auto simp: manual_reads_def split: prod.splits)

lemma no_rows_fields: "no_rows s s' \<Longrightarrow> rows_of s = rows_of s0 \<Longrightarrow> x_cancelled s = x_cancelled s0
    \<Longrightarrow> x_paused s = x_paused s0 \<Longrightarrow> no_rows s0 s'"
  by (simp add: no_rows_def)

lemma no_rows_same: "x_pending s' = x_pending s \<Longrightarrow> x_written s' = x_written s \<Longrightarrow> x_cancelled s' = x_cancelled s
    \<Longrightarrow> x_paused s' = x_paused s \<Longrightarrow> no_rows s s'"
  by (simp add: no_rows_def rows_of_def)

lemma no_rows_start_manual: "no_rows s (start_manual ok m now s)"
  using no_rows_ops(2) [of s ok m] by (simp add: start_manual_def no_rows_same)

lemma no_rows_start_reads: "no_rows s (start_reads md ok m s)"
proof -
  let ?s1 = "if stale (c_checked (m_cert m)) (x_now s) then start_read (ReadCert m) (x_now s) s else s"
  have "no_rows s ?s1" using no_rows_ops(6) by (simp add: no_rows_same)
  then have "no_rows s (snd (domain_of md (m_origin m) ?s1))" using no_rows_ops(7) by (blast intro: no_rows_trans)
  then show ?thesis using no_rows_ops(6) no_rows_trans
    by (auto simp: start_reads_def Let_def split: prod.splits)
qed

lemma no_rows_forget: "no_rows s (forget_disabled md ms s)"
proof -
  have "no_rows s (fold (\<lambda>m. snd \<circ> domain_of md (m_origin m)) ms s)" for s
  proof (induction ms arbitrary: s)
    case (Cons m ms)
    show ?case using no_rows_trans [OF no_rows_ops(7) Cons] by simp
  qed (simp add: no_rows_same)
  then show ?thesis by (simp add: forget_disabled_def Let_def no_rows_def rows_of_def)
qed

lemma no_rows_sched: "sched_step md s s' \<Longrightarrow> no_rows s s'"
proof (induction rule: sched_step.induct)
  case (sc_slot s prev now m ms ok)
  then show ?case
    using no_rows_trans [OF no_rows_start_reads [of s md ok m] no_rows_ops(5) [of _ m]] by (simp add: no_rows_def)
next
  case (sc_tick s prev ok)
  show ?case using no_rows_ops(1) [of s ok] by (simp add: no_rows_def)
next
  case (sc_done s ok)
  show ?case using no_rows_ops(1) [of s ok] by (simp add: no_rows_def)
next
  case (sc_list s prev now busy ms)
  show ?case using no_rows_forget [of s md ms] by (simp add: no_rows_def)
next
  case (sc_paused s now m ms ok)
  show ?case using no_rows_ops(2) [of s ok m] by (simp add: no_rows_def)
next
  case (sc_manual s prev now busy m ms all ok)
  show ?case using no_rows_start_manual [of s ok m now] by (simp add: no_rows_def)
qed (simp_all add: no_rows_def)

text \<open>The rows of a task that is past the check of \<open>keep\<close> and has not added them yet.\<close>

fun adding :: "task \<Rightarrow> check_row set" where
  "adding (SlotTask m pc) = (case pc of SlotAppend evs \<Rightarrow> set evs | _ \<Rightarrow> {})"
| "adding (ManualTask m pc) = (case pc of ManAppend evs \<Rightarrow> set evs | _ \<Rightarrow> {})"
| "adding (ReadTask r pc) = (case pc of RdAppend evs \<Rightarrow> set evs | _ \<Rightarrow> {})"

definition all_adding :: "task multiset \<Rightarrow> check_row set" where
  "all_adding M = \<Union> (adding ` set_mset M)"

lemma all_adding_simps [simp]: "all_adding {#} = {}" "all_adding (add_mset t M) = adding t \<union> all_adding M"
  by (simp_all add: all_adding_def)

text \<open>A goroutine adds only the rows it is adding, and comes to add none once shutdown has begun.\<close>

lemma task_move_rows:
  "task_move md s t s' r \<Longrightarrow> x_cancelled s \<Longrightarrow> rows_of s' \<subseteq> rows_of s \<union> adding t
     \<and> (case r of None \<Rightarrow> {} | Some t' \<Rightarrow> adding t') \<subseteq> adding t \<and> x_cancelled s'"
proof (induction rule: task_move.induct)
  case (mn_release m s rds s' up)
  then show ?case using no_rows_manual_reads [OF mn_release(1)] by (auto simp: no_rows_def)
next
  case (mn_read r at s new s' m rs evs)
  then show ?case using no_rows_read_result [OF mn_read(1)] by (auto simp: no_rows_def)
next
  case (rd_read r s evs s')
  then show ?case using no_rows_read_result [OF rd_read(1)] by (auto simp: no_rows_def)
qed (auto simp: rows_of_def keeps_def append_rows_def finish_check_def store_redirects_def store_last_def)

lemma task_move_tasks: "task_move md s t s' r \<Longrightarrow> x_tasks s' = x_tasks s"
proof (induction rule: task_move.induct)
  case (mn_release m s rds s' up)
  then show ?case using held_fields(7) [OF held_manual_reads [OF mn_release(1)]] by simp
qed (auto dest: held_read_result intro: held_fields)

text \<open>The tasks the tick loop starts add nothing yet.\<close>

lemma start_adding:
  "all_adding (x_tasks (start_manual ok m now s)) = all_adding (x_tasks s)"
  "all_adding (x_tasks (start_slot m s)) = all_adding (x_tasks s)"
  "all_adding (x_tasks (start_read r now s)) = all_adding (x_tasks s)"
  by (simp_all add: start_manual_def start_slot_def start_read_def Let_def)

lemma start_reads_adding: "all_adding (x_tasks (start_reads md ok m s)) = all_adding (x_tasks s)"
  using held_fields(7) [OF held_domain_of [of md "m_origin m"
      "if stale (c_checked (m_cert m)) (x_now s) then start_read (ReadCert m) (x_now s) s else s"]]
  by (auto simp: start_reads_def Let_def start_adding split: prod.splits)

lemma sched_step_adding: "sched_step md s s' \<Longrightarrow> all_adding (x_tasks s') = all_adding (x_tasks s)"
  by (induction rule: sched_step.induct)
    (simp_all add: start_adding start_reads_adding held_fields(7) [OF held_forget])

lemma no_rows_step:
  "run_step md s s' \<Longrightarrow> x_cancelled s \<Longrightarrow> x_cancelled s'
     \<and> rows_of s' \<union> all_adding (x_tasks s') \<subseteq> rows_of s \<union> all_adding (x_tasks s)"
proof (induction rule: run_step.induct)
  case (rs_task s s2)
  from rs_task(1) show ?case
  proof (cases rule: task_step.cases)
    case (ts_move t M s1 r)
    have "rows_of s1 \<subseteq> rows_of s \<union> adding t \<and> (case r of None \<Rightarrow> {} | Some t' \<Rightarrow> adding t') \<subseteq> adding t \<and> x_cancelled s1"
      using task_move_rows [OF ts_move(2)] rs_task(2) by simp
    moreover have "x_tasks s1 = M" using task_move_tasks [OF ts_move(2)] by simp
    ultimately show ?thesis unfolding ts_move(1,3) by (cases r) auto
  qed
next
  case (rs_sched s s')
  then show ?case using no_rows_sched [OF rs_sched(1)] sched_step_adding [OF rs_sched(1)] by (auto simp: no_rows_def)
qed (simp_all add: rows_of_def)

lemma no_rows_steps:
  "(run_step md)\<^sup>*\<^sup>* s s' \<Longrightarrow> x_cancelled s \<Longrightarrow> x_cancelled s'
     \<and> rows_of s' \<union> all_adding (x_tasks s') \<subseteq> rows_of s \<union> all_adding (x_tasks s)"
  by (induction rule: rtranclp_induct) (auto dest: no_rows_step)

section \<open>A paused runner\<close>

definition paused_ok :: "run \<Rightarrow> bool" where
  "paused_ok s \<longleftrightarrow> (x_paused s \<longrightarrow> x_tasks s = {#} \<and> rows_of s = {}
     \<and> (case x_sched s of SchedManuals _ _ _ _ _ \<Rightarrow> False | SchedSlots _ _ _ \<Rightarrow> False | _ \<Rightarrow> True))"

lemma paused_same: "x_tasks s' = x_tasks s \<Longrightarrow> no_rows s s' \<Longrightarrow> x_sched s' = x_sched s \<Longrightarrow> paused_ok s \<Longrightarrow> paused_ok s'"
  by (auto simp: paused_ok_def no_rows_def)

lemma sched_step_paused: "sched_step md s s' \<Longrightarrow> paused_ok s \<Longrightarrow> paused_ok s'"
proof (induction rule: sched_step.induct)
  case (sc_list s prev now busy ms)
  then show ?case using no_rows_forget [of s md ms] held_fields(7) [OF held_forget, of md ms s]
    by (auto simp: paused_ok_def no_rows_def split: if_splits)
next
  case (sc_tick s prev ok)
  then show ?case using no_rows_ops(1) [of s ok] by (auto simp: paused_ok_def no_rows_def)
next
  case (sc_done s ok)
  then show ?case using no_rows_ops(1) [of s ok] by (auto simp: paused_ok_def no_rows_def)
next
  case (sc_paused s now m ms ok)
  then show ?case using no_rows_ops(2) [of s ok m] by (auto simp: paused_ok_def no_rows_def)
next
  case (sc_manual s prev now busy m ms all ok)
  then show ?case using no_rows_start_manual [of s ok m now] by (auto simp: paused_ok_def no_rows_def)
next
  case (sc_slot s prev now m ms ok)
  then show ?case using no_rows_trans [OF no_rows_start_reads [of s md ok m] no_rows_ops(5) [of _ m]]
    by (auto simp: paused_ok_def no_rows_def)
qed (simp_all add: paused_ok_def rows_of_def)

lemma run_step_paused: "run_step md s s' \<Longrightarrow> paused_ok s \<Longrightarrow> paused_ok s'"
proof (induction rule: run_step.induct)
  case (rs_task s s2)
  from rs_task(1) show ?case
  proof (cases rule: task_step.cases)
    case (ts_move t M s1 r)
    then have "\<not> x_paused s" using rs_task(2) by (auto simp: paused_ok_def)
    moreover have "x_paused s1 = x_paused (s\<lparr>x_tasks := M\<rparr>)" using ts_move(2)
      by (induction rule: task_move.induct)
        (auto simp: append_rows_def finish_check_def store_redirects_def store_last_def
          dest: no_rows_manual_reads no_rows_read_result simp: no_rows_def)
    ultimately show ?thesis by (simp add: paused_ok_def ts_move(3))
  qed
next
  case (rs_sched s s')
  then show ?case by (rule sched_step_paused)
qed (simp_all add: paused_ok_def rows_of_def)

lemma run_reach_paused: "run_reach md s \<Longrightarrow> paused_ok s"
proof (induction rule: run_reach.induct)
  case (re_start db now interval paused)
  show ?case by (simp add: run_start_def paused_ok_def rows_of_def)
qed (rule run_step_paused)

lemma run_reach_db: "run_reach md s \<Longrightarrow> mon_ok md (x_db s)"
proof (induction rule: run_reach.induct)
  case (re_step s s')
  from re_step(2) have "db_moves md s s'"
    by (cases rule: run_step.cases) (auto simp: db_moves_def dest: task_step_db sched_step_db)
  then show ?case using re_step(3) by (auto simp: db_moves_def intro: mon_step_ok)
qed (simp add: run_start_def)

section \<open>Properties\<close>

text \<open>A runner with the monitor of \<open>sample_mon_db\<close> on, and its state while a slot check runs.\<close>

definition sample_on_db :: mon_db where
  "sample_on_db = sample_mon_db\<lparr>md_rows := [(new_mon 1 ''https://a'')\<lparr>m_enabled := True\<rparr>]\<rparr>"

lemma sample_on_ok: "mon_ok id sample_on_db"
  by (simp add: mon_ok_def sample_on_db_def sample_mon_db_def check_pending_def new_mon_def project_exists_def)

text \<open>The first slot of a monitor starts the read of its certificate and its check.\<close>

lemma first_slot_tasks:
  assumes "c_checked (m_cert m) = None" and "\<not> x_cancelled s" and "x_tried s (cert_key m) = None"
    and "x_reads s = {}" and "x_slots s = {}" and "x_manuals s = {}" and "x_sem s = 0"
  shows "x_tasks (start_slot m (start_reads md False m s))
    = add_mset (SlotTask m SlotCheck) (add_mset (ReadTask (ReadCert m) RdLock) (x_tasks s))"
proof -
  let ?r = "start_read (ReadCert m) (x_now s) s"
  have "start_reads md False m s = snd (domain_of md (m_origin m) ?r)"
    using assms(1) by (simp add: start_reads_def stale_def Let_def split: prod.splits)
  moreover have "held (snd (domain_of md (m_origin m) ?r)) = held ?r" by (rule held_domain_of)
  ultimately have "held (start_reads md False m s) = held ?r" by simp
  from held_fields [OF this] show ?thesis using assms(2-)
    by (simp add: start_slot_def start_read_def workers_def Let_def)
qed

text \<open>The first slot of that monitor starts its certificate read and its check.\<close>

lemma sample_slot_tasks: "\<exists>s m M. run_reach id s \<and> x_tasks s = add_mset (SlotTask m SlotCheck) M \<and> size M = 1
    \<and> \<not> x_cancelled s \<and> rows_of s = {}"
proof -
  let ?m = "(new_mon 1 ''https://a'')\<lparr>m_enabled := True\<rparr>"
  let ?s0 = "run_start sample_on_db (59 * second) (60 * second) False"
  let ?s1 = "?s0\<lparr>x_now := 119 * second\<rparr>"
  let ?s2 = "(flush True ?s1)\<lparr>x_sched := SchedClone (59 * second) (119 * second)\<rparr>"
  let ?s3 = "?s2\<lparr>x_sched := SchedList (59 * second) (119 * second) {}\<rparr>"
  let ?s4 = "(forget_disabled id [?m] ?s3)\<lparr>x_sched := SchedManuals (59 * second) (119 * second) {} [?m] [?m]\<rparr>"
  let ?s5 = "?s4\<lparr>x_sched := SchedManuals (59 * second) (119 * second) {} [] [?m]\<rparr>"
  let ?s6 = "?s5\<lparr>x_sched := SchedSlots (59 * second) (119 * second) [?m]\<rparr>"
  let ?s7 = "(start_slot ?m (start_reads id False ?m ?s6))\<lparr>x_sched := SchedSlots (59 * second) (119 * second) []\<rparr>"
  have l: "list_enabled_monitors sample_on_db = [?m]"
    by (simp add: list_enabled_monitors_def sample_on_db_def sample_mon_db_def project_live_def new_mon_def)
  have "run_reach id ?s0" by (rule re_start [OF sample_on_ok])
  then have "run_reach id ?s1" by (blast intro: re_step rs_clock)
  moreover have "sched_step id ?s1 ?s2" using sc_tick [of ?s1 "59 * second" id True] by (simp add: run_start_def)
  ultimately have "run_reach id ?s2" by (blast intro: re_step rs_sched)
  moreover have "sched_step id ?s2 ?s3" using sc_clone [of ?s2 "59 * second" "119 * second" id]
    by (simp add: run_start_def flush_def)
  ultimately have r3: "run_reach id ?s3" by (blast intro: re_step rs_sched)
  have "sched_step id ?s3 ?s4" using sc_list [of ?s3 "59 * second" "119 * second" "{}" "[?m]" id]
    by (simp add: run_start_def flush_def l)
  with r3 have "run_reach id ?s4" by (blast intro: re_step rs_sched)
  moreover have "sched_step id ?s4 ?s5" using sc_manual [of ?s4 "59 * second" "119 * second" "{}" ?m "[]" "[?m]" id]
    by (simp add: check_pending_def new_mon_def)
  ultimately have "run_reach id ?s5" by (blast intro: re_step rs_sched)
  moreover have "sched_step id ?s5 ?s6" using sc_manual_end [of ?s5 "59 * second" "119 * second" "{}" "[?m]" id] by simp
  ultimately have r6: "run_reach id ?s6" by (blast intro: re_step rs_sched)
  have "due (59 * second) (119 * second) (60 * second) (offset 1 ''https://a'' (60 * second))" by code_simp
  then have "sched_step id ?s6 ?s7"
    using sc_slot [of ?s6 "59 * second" "119 * second" ?m "[]" id False]
    by (simp add: run_start_def flush_def forget_disabled_def Let_def domain_of_def new_mon_def)
  with r6 have "run_reach id ?s7" by (blast intro: re_step rs_sched)
  moreover have "x_tasks ?s7 = add_mset (SlotTask ?m SlotCheck) {#ReadTask (ReadCert ?m) RdLock#}"
  proof -
    have "x_cancelled ?s6 = False" "x_tried ?s6 (cert_key ?m) = None"
      by (simp_all add: forget_disabled_def Let_def domain_of_def run_start_def flush_def new_mon_def)
    moreover have "held ?s6 = held (run_start sample_on_db 0 0 False)"
      using held_forget [of id "[?m]" ?s3] by (simp add: held_def run_start_def flush_def)
    note held_fields [OF this]
    ultimately have "x_tasks (start_slot ?m (start_reads id False ?m ?s6)) = add_mset (SlotTask ?m SlotCheck)
      (add_mset (ReadTask (ReadCert ?m) RdLock) (x_tasks ?s6))"
      by (intro first_slot_tasks) (simp_all add: run_start_def new_mon_def)
    then show ?thesis using held_fields(7) [OF \<open>held ?s6 = _\<close>] by (simp add: run_start_def)
  qed
  moreover have "no_rows ?s6 (start_slot ?m (start_reads id False ?m ?s6))"
    by (rule no_rows_trans [OF no_rows_start_reads no_rows_ops(5)])
  moreover have "no_rows ?s3 (forget_disabled id [?m] ?s3)" by (rule no_rows_forget)
  then have "rows_of ?s6 = {} \<and> \<not> x_cancelled ?s6" by (auto simp: no_rows_def rows_of_def run_start_def flush_def)
  ultimately have "run_reach id ?s7 \<and> x_tasks ?s7 = add_mset (SlotTask ?m SlotCheck) {#ReadTask (ReadCert ?m) RdLock#}
      \<and> \<not> x_cancelled ?s7 \<and> rows_of ?s7 = {}" by (auto simp: no_rows_def)
  then show ?thesis
    by (intro exI [of _ ?s7] exI [of _ ?m] exI [of _ "{#ReadTask (ReadCert ?m) RdLock#}"]) (simp only: size_single simp_thms)
qed

lemma sample_slot_reach: "\<exists>s. run_reach id s \<and> size (x_tasks s) = 2"
  using sample_slot_tasks by fastforce

text \<open>One step of a goroutine, written on the whole state.\<close>

lemma reach_task_move:
  assumes "run_reach md s" and "x_tasks s = add_mset t M" and "task_move md (s\<lparr>x_tasks := M\<rparr>) t s' (Some t')"
  shows "run_reach md (s'\<lparr>x_tasks := add_mset t' M\<rparr>)"
proof -
  have "x_tasks s' = M" using task_move_tasks [OF assms(3)] by simp
  then have "task_step md s (s'\<lparr>x_tasks := add_mset t' M\<rparr>)" by (intro ts_move [OF assms(2,3)]) simp
  then show ?thesis using assms(1) by (blast intro: re_step rs_task)
qed

text \<open>That check goes on to the end of \<open>keep\<close>'s look, and shutdown comes then.\<close>

lemma sample_shut_reach:
  "\<exists>s m M row. run_reach id s \<and> x_tasks s = add_mset (SlotTask m (SlotAppend [row])) M \<and> x_cancelled s \<and> rows_of s = {}"
proof -
  obtain s m M where s: "run_reach id s" "x_tasks s = add_mset (SlotTask m SlotCheck) M" "\<not> x_cancelled s" "rows_of s = {}"
    using sample_slot_tasks by blast
  define res where "res = \<lparr>rs_up = True, rs_status = 200, rs_reason = [], rs_error = [], rs_ms = 7, rs_redirects = 0,
    rs_answered = True\<rparr>"
  let ?row = "uptime_row (m_project m) (m_origin m) (x_now s) res"
  let ?at = "\<lambda>pc. s\<lparr>x_tasks := add_mset (SlotTask m pc) M\<rparr>"
  let ?off = "\<lambda>pc. s\<lparr>x_sem := x_sem s - 1, x_tasks := add_mset (SlotTask m pc) M\<rparr>"
  have "run_reach id (?at (SlotRedirects (x_now s) res))"
    using reach_task_move [OF s(1,2) sl_check [where m = m and res = res]] by simp
  from reach_task_move [OF this, of "SlotTask m (SlotRedirects (x_now s) res)" M, OF _ sl_redirects [where ok = False]]
  have "run_reach id (?at (SlotLast (x_now s) res))" by (simp add: store_redirects_def)
  from reach_task_move [OF this, of "SlotTask m (SlotLast (x_now s) res)" M, OF _ sl_last [where ok = False]]
  have "run_reach id (?at (SlotRelease [?row]))" by (simp add: store_last_def)
  from reach_task_move [OF this, of "SlotTask m (SlotRelease [?row])" M, OF _ sl_release]
  have "run_reach id (?off (SlotKeep [?row]))" by simp
  from reach_task_move [OF this, of "SlotTask m (SlotKeep [?row])" M, OF _ sl_keep]
  have "run_reach id (?off (SlotAppend [?row]))" using s(3) by (simp add: keeps_def)
  then have "run_reach id (?off (SlotAppend [?row])\<lparr>x_cancelled := True\<rparr>)" by (blast intro: re_step rs_cancel)
  moreover have "rows_of (?off (SlotAppend [?row])\<lparr>x_cancelled := True\<rparr>) = {}" using s(4) by (simp add: rows_of_def)
  ultimately show ?thesis
    by (intro exI [of _ "?off (SlotAppend [?row])\<lparr>x_cancelled := True\<rparr>"] exI [of _ m] exI [of _ M] exI [of _ ?row]) simp
qed

text \<open> C23:
  Whatever the order of steps: at most sixteen checks hold an availability worker and at most
  four reads a read worker, no monitor has two slot checks or two manual checks at once, and no
  reading (a certificate, a domain) is queued twice or read by two goroutines at once.
\<close>

theorem runner_pools_and_locks:
  assumes "run_reach md s"
  shows "total workers_of (x_tasks s) \<le> 16 \<and> total read_workers_of (x_tasks s) \<le> 4
    \<and> (\<forall>k. count (total slots_of (x_tasks s)) k \<le> 1 \<and> count (total manuals_of (x_tasks s)) k \<le> 1)
    \<and> (\<forall>k. count (total reads_of (x_tasks s)) k \<le> 1 \<and> count (total locks_of (x_tasks s)) k \<le> 1)"
  using run_reach_held [OF assms] by (simp add: held_ok_def held_by_def owned_def workers_def read_workers_def)

theorem runner_pools_and_locks_witness:
  "\<exists>s. run_reach id s \<and> size (x_tasks s) = 2 \<and> total workers_of (x_tasks s) \<le> 16"
  using sample_slot_reach runner_pools_and_locks [of id] by blast

text \<open> C24:
  No deadlock and no endless task: while any goroutine is left one of them can move, and however
  the steps of the goroutines are ordered there are at most as many as \<open>left_of\<close> counts, after
  which none is left. So the wait for the goroutines at shutdown returns.
\<close>

theorem runner_tasks_drain:
  assumes "run_reach md s"
  shows "(x_tasks s \<noteq> {#} \<longrightarrow> (\<exists>s'. task_step md s s'))
    \<and> (\<forall>n s'. (task_step md ^^ n) s s' \<longrightarrow> n + total left_of (x_tasks s') \<le> total left_of (x_tasks s)
         \<and> ((\<nexists>s''. task_step md s' s'') \<longrightarrow> x_tasks s' = {#}))"
proof -
  have ok: "held_ok s" by (rule run_reach_held [OF assms])
  have "held_ok s' \<and> n + total left_of (x_tasks s') \<le> total left_of (x_tasks s)" if "(task_step md ^^ n) s s'" for n s'
    using that
  proof (induction n arbitrary: s')
    case (Suc n)
    then obtain s1 where s1: "(task_step md ^^ n) s s1" "task_step md s1 s'" by auto
    with Suc.IH [OF s1(1)] show ?case using task_step_left [OF s1(2)] task_step_held [OF s1(2)] by force
  qed (use ok in simp)
  then show ?thesis using task_step_ex [OF ok] task_step_ex by blast
qed

theorem runner_tasks_drain_witness:
  "\<exists>s s'. run_reach id s \<and> size (x_tasks s) = 2 \<and> task_step id s s'"
proof -
  obtain s where s: "run_reach id s" "size (x_tasks s) = 2" using sample_slot_reach by blast
  then have "x_tasks s \<noteq> {#}" by auto
  then show ?thesis using s runner_tasks_drain [OF s(1)] by blast
qed

text \<open>
  With the operator's writes and any number of goroutines interleaved, the monitors' tables stay
  sound.
\<close>

theorem runner_keeps_tables:
  assumes "run_reach md s"
  shows "mon_ok md (x_db s)"
  using assms by (rule run_reach_db)

theorem runner_keeps_tables_witness: "\<exists>s. run_reach id s \<and> size (x_tasks s) = 2 \<and> mon_ok id (x_db s)"
  using sample_slot_reach runner_keeps_tables by blast

text \<open> C38:
  A paused runner starts no goroutine and writes no row. Once shutdown has begun it stays begun,
  and every row recorded later was recorded before it, or belongs to a goroutine that by then had
  already passed \<open>keep\<close>'s look at the shutdown and only had to add it: no goroutine still at its
  check, its reads or before \<open>keep\<close> records anything.
\<close>

theorem runner_paused_or_cancelled:
  assumes "run_reach md s"
  shows "(x_paused s \<longrightarrow> x_tasks s = {#} \<and> x_pending s = [] \<and> concat (x_written s) = [])
    \<and> (x_cancelled s \<longrightarrow> (\<forall>s'. (run_step md)\<^sup>*\<^sup>* s s' \<longrightarrow> x_cancelled s'
         \<and> set (x_pending s' @ concat (x_written s'))
           \<subseteq> set (x_pending s @ concat (x_written s)) \<union> all_adding (x_tasks s)))"
proof -
  have "x_cancelled s' \<and> rows_of s' \<subseteq> rows_of s \<union> all_adding (x_tasks s)"
    if "(run_step md)\<^sup>*\<^sup>* s s'" "x_cancelled s" for s'
    using no_rows_steps [OF that] by blast
  moreover have "x_paused s \<longrightarrow> x_tasks s = {#} \<and> rows_of s = {}"
    using run_reach_paused [OF assms] by (simp add: paused_ok_def)
  ultimately show ?thesis by (simp add: rows_of_def)
qed

theorem runner_paused_or_cancelled_witness:
  "\<exists>s s' row. run_reach id s \<and> x_cancelled s \<and> (run_step id)\<^sup>*\<^sup>* s s' \<and> x_pending s = [] \<and> x_pending s' = [row]
     \<and> row \<in> all_adding (x_tasks s)"
proof -
  obtain s m M row where s: "run_reach id s" "x_tasks s = add_mset (SlotTask m (SlotAppend [row])) M" "x_cancelled s"
    "rows_of s = {}" using sample_shut_reach by blast
  let ?s' = "append_rows [row] (s\<lparr>x_tasks := M\<rparr>)"
  have none: "x_pending s = []" "set (concat (x_written s)) = {}" using s(4) by (simp_all add: rows_of_def)
  have "task_step id s (?s'\<lparr>x_tasks := add_mset (SlotTask m SlotDelete) M\<rparr>)"
    by (rule ts_move [OF s(2) sl_append]) (simp add: append_rows_def)
  then have step: "(run_step id)\<^sup>*\<^sup>* s (?s'\<lparr>x_tasks := add_mset (SlotTask m SlotDelete) M\<rparr>)"
    by (intro r_into_rtranclp rs_task)
  have pend: "x_pending (?s'\<lparr>x_tasks := add_mset (SlotTask m SlotDelete) M\<rparr>) = [row]"
    using none by (simp add: append_rows_def)
  have "row \<in> all_adding (x_tasks s)"
  proof -
    have e: "set (x_pending s @ concat (x_written s)) = {}" using none by simp
    have "set ([row] @ concat (x_written (?s'\<lparr>x_tasks := add_mset (SlotTask m SlotDelete) M\<rparr>)))
        \<subseteq> {} \<union> all_adding (x_tasks s)"
      using runner_paused_or_cancelled [OF s(1), THEN conjunct2, rule_format, OF s(3) step] unfolding e pend
      by (rule conjunct2)
    then show ?thesis by simp
  qed
  then show ?thesis using s(1,3) step pend none(1)
    by (intro exI [of _ s] exI [of _ "?s'\<lparr>x_tasks := add_mset (SlotTask m SlotDelete) M\<rparr>"] exI [of _ row]) simp
qed

text \<open>
  A manual check that got its result in is not taken for one that did not run, even when the
  clock stepped back behind its request: with the result stored, then the end recorded, the row
  (still on that request) is neither pending nor "did not run". Without the result it is not
  pending either.
\<close>

theorem manual_check_recorded:
  assumes "get_mon (x_db s) (m_project m) (m_origin m) = Some row" and "m_requested row = m_requested m"
    and "\<not> x_cancelled s"
  shows "(\<exists>row'. get_mon (x_db (finish_check True m (store_last True m res s\<lparr>x_now := later\<rparr>)))
        (m_project m) (m_origin m) = Some row'
      \<and> \<not> check_pending row' \<and> \<not> check_not_run row' \<and> r_up (m_last row') = rs_up res)
    \<and> (\<exists>row'. get_mon (x_db (finish_check True m s)) (m_project m) (m_origin m) = Some row' \<and> \<not> check_pending row')"
proof -
  let ?r = "row\<lparr>m_last := mon_result_of (stamp s m) res\<rparr>"
  have 1: "get_mon (x_db (store_last True m res s)) (m_project m) (m_origin m) = Some ?r"
    using assms(1,3) by (simp add: store_last_def set_monitor_last_def get_mon_update mon_key_def)
  have fin: "get_mon (x_db (finish_check True m t)) (m_project m) (m_origin m)
      = Some (x\<lparr>m_finished := stamp t m\<rparr>)"
    if "get_mon (x_db t) (m_project m) (m_origin m) = Some x" "m_requested x = m_requested m" for t x
    using that by (simp add: finish_check_def finish_monitor_check_def get_mon_update mon_key_def)
  have ended: "\<not> check_pending (x\<lparr>m_finished := stamp t m\<rparr>)" if "m_requested x = m_requested m" for t x
    using that stamp_ge [of m t] by (auto simp: check_pending_def not_less dest: less_eq_option_None_is_None)
  show ?thesis
    using fin [of "store_last True m res s\<lparr>x_now := later\<rparr>" ?r] fin [OF assms(1,2)] 1 assms(2) ended stamp_ge [of m s]
    by (simp add: check_not_run_def mon_result_of_def not_less)
qed

theorem manual_check_recorded_witness:
  "\<exists>row'. get_mon (x_db (finish_check True (the (get_mon sample_asked 1 ''https://a''))
      (run_start sample_asked (100 * second) 60 False))) 1 ''https://a'' = Some row' \<and> \<not> check_pending row'"
proof -
  have g: "get_mon sample_asked 1 ''https://a'' = Some ((new_mon 1 ''https://a'')\<lparr>m_enabled := True, m_requested := Some 100\<rparr>)"
    by code_simp
  show ?thesis
    using manual_check_recorded [where s = "run_start sample_asked (100 * second) 60 False"
      and row = "(new_mon 1 ''https://a'')\<lparr>m_enabled := True, m_requested := Some 100\<rparr>"
      and m = "(new_mon 1 ''https://a'')\<lparr>m_enabled := True, m_requested := Some 100\<rparr>"]
    by (simp add: g run_start_def new_mon_def)
qed

end
