(* ===== verification/MonitorSchedule.thy ===== *)
theory MonitorSchedule
  imports MonitorRunner
begin

text \<open>
  When the tick loop of the runner serves a monitor: its offset within the interval, and which
  ticks its slots fall in. Times count from the epoch and may lie before it, where Go's division
  rounds up.
\<close>

lemma due_floor: "0 < iv \<Longrightarrow> due prev now iv off \<longleftrightarrow> prev < (now - off) div iv * iv + off"
  using go_div_floor [of iv "now - off"] by (simp add: due_def Let_def)

lemma below_slot: "prev < k * iv + off \<longleftrightarrow> (prev - off) div iv < (k :: int)" if "0 < iv"
proof -
  define q r where "q = (prev - off) div iv" and "r = (prev - off) mod iv"
  have split: "prev = q * iv + r + off" "0 \<le> r" "r < iv" using that 
    using that div_mult_mod_eq [of "prev - off" iv] by (simp_all only: q_def r_def pos_mod_sign pos_mod_bound)
  show ?thesis
  proof (cases "q < k")
    case True
    then have "(q + 1) * iv \<le> k * iv" using that by (intro mult_right_mono) simp_all
    then have "prev < k * iv + off" using split by (simp only: distrib_right mult_1)
    then show ?thesis using True unfolding q_def [symmetric] by simp
  next
    case False
    then have "k * iv \<le> q * iv" using that by (intro mult_right_mono) simp_all
    then have "\<not> prev < k * iv + off" using split by linarith
    then show ?thesis using False unfolding q_def [symmetric] by simp
  qed
qed

lemma due_iff_div: "0 < iv \<Longrightarrow> due prev now iv off \<longleftrightarrow> (prev - off) div iv < (now - off) div iv"
  by (simp add: due_floor below_slot)

lemma slot_until: "0 < iv \<Longrightarrow> k * iv + off \<le> now \<longleftrightarrow> (k :: int) \<le> (now - off) div iv"
  using below_slot [of iv now k off] by (simp add: not_less [symmetric])

text \<open>The ticks that serve a monitor, over the ticks of a run.\<close>

fun served :: "int \<Rightarrow> int list \<Rightarrow> int \<Rightarrow> int \<Rightarrow> nat" where
  "served prev [] iv off = 0"
| "served prev (t # ts) iv off = (if due prev t iv off then 1 else 0) + served t ts iv off"

fun ticks_ok :: "int \<Rightarrow> int list \<Rightarrow> int \<Rightarrow> bool" where
  "ticks_ok prev [] iv = True"
| "ticks_ok prev (t # ts) iv = (prev \<le> t \<and> t - prev \<le> iv \<and> ticks_ok t ts iv)"

lemma served_div:
  assumes "0 < iv" and "ticks_ok prev ts iv"
  shows "int (served prev ts iv off) = (last (prev # ts) - off) div iv - (prev - off) div iv"
  using assms(2)
proof (induction ts arbitrary: prev)
  case (Cons t ts)
  have le: "(prev - off) div iv \<le> (t - off) div iv" using Cons.prems assms(1) by (simp add: zdiv_mono1)
  have "(t - off) div iv \<le> (prev - off + iv) div iv" using Cons.prems assms(1) by (simp add: zdiv_mono1)
  also have "\<dots> = (prev - off) div iv + 1" using assms(1) by (intro div_add_self2) simp
  finally have up: "(t - off) div iv \<le> (prev - off) div iv + 1" .
  show ?case using Cons.IH [of t] Cons.prems le up due_iff_div [OF assms(1), of prev t off] by auto
qed simp

section \<open>Properties\<close>

text \<open>
  A tick serves a monitor exactly when one of its slots, the times at its offset modulo the
  interval, falls after the last tick and not after this one, before the epoch too.
\<close>

theorem due_iff_slot:
  assumes "0 < interval"
  shows "due prev now interval off \<longleftrightarrow> (\<exists>k. prev < k * interval + off \<and> k * interval + off \<le> now)"
  using due_iff_div [OF assms] below_slot [OF assms] slot_until [OF assms] by (metis order.strict_trans2 order_refl)

theorem due_iff_slot_witness: "due (- 11) (- 7) 5 2 \<and> (\<exists>k. - 11 < k * 5 + 2 \<and> k * 5 + 2 \<le> (- 7 :: int))"
proof -
  have "due (- 11) (- 7) 5 2" by code_simp
  then show ?thesis using due_iff_slot [of 5 "- 11" "- 7" 2] by simp
qed

text \<open> C39:
  Over ticks that never go back and are at most an interval apart, a monitor is served once for
  each of its slots in the time they cover: none is missed and none is served twice, so a slot
  is every interval.
\<close>

theorem each_slot_served_once:
  assumes "0 < interval" and "ticks_ok prev ts interval"
  shows "served prev ts interval off = card {k. prev < k * interval + off \<and> k * interval + off \<le> last (prev # ts)}"
proof -
  have "{k. prev < k * interval + off \<and> k * interval + off \<le> last (prev # ts)}
      = {(prev - off) div interval <.. (last (prev # ts) - off) div interval}"
    using below_slot [OF assms(1)] slot_until [OF assms(1)] by auto
  then show ?thesis using served_div [OF assms, of off] by simp
qed

theorem each_slot_served_once_witness:
  "served 0 [3, 4, 8, 12, 12, 15] 5 2 = card {k. 0 < k * 5 + 2 \<and> k * 5 + 2 \<le> (15 :: int)}"
  using each_slot_served_once [of 5 0 "[3, 4, 8, 12, 12, 15]" 2] by simp

text \<open> 
  A monitor's offset is a whole number of ticks inside the interval: at least a tick before its
  end when the interval is of whole ticks and at least one.
\<close>

theorem offset_bounds:
  assumes "tick_step \<le> interval"
  shows "0 \<le> offset p ori interval \<and> offset p ori interval + tick_step \<le> interval \<and> tick_step dvd offset p ori interval"
proof -
  define slots where "slots = max (interval div tick_step) 1"
  define h where "h = uint (fnv64a 14695981039346656037 (dec_int p @ CHR ''|'' # ori))"
  have pos: "0 < tick_step" by (simp add: tick_step_def second_def)
  have "1 \<le> interval div tick_step" using pos assms zdiv_mono1 [of tick_step interval tick_step] by simp
  then have s: "slots = interval div tick_step" "0 < slots" by (simp_all add: slots_def)
  have o: "offset p ori interval = (h mod slots) * tick_step" by (simp add: offset_def Let_def slots_def h_def)
  have "h mod slots + 1 \<le> slots" using s(2) pos_mod_bound [of slots h] by linarith
  then have "(h mod slots + 1) * tick_step \<le> slots * tick_step" using pos by (intro mult_right_mono) simp_all
  also have "\<dots> \<le> interval" using pos minus_mod_eq_div_mult [of interval tick_step] pos_mod_sign [of tick_step interval] s(1)
    by (metis diff_ge_0_iff_ge le_add_same_cancel1 add_le_cancel_left diff_add_cancel add.commute)
  finally show ?thesis using s(2) pos by (simp add: o distrib_right)
qed

theorem offset_bounds_witness:
  "0 \<le> offset 1 ''https://a'' (60 * second) \<and> offset 1 ''https://a'' (60 * second) + tick_step \<le> 60 * second"
  using offset_bounds [of "60 * second" 1 "''https://a''"] by (simp add: tick_step_def second_def)

end
