(* ===== verification/HllSketch.thy ===== *)
theory HllSketch
  imports Prelude "HOL-Library.Word"
begin

unbundle bit_operations_syntax

text \<open>
  Counting distinct ids in constant space (\<^verbatim>\<open>internal/shared/hll/hll.go\<close>): a sketch holds the ids
  themselves while they are few, then one register for each of 2^14 buckets of their hashes, the
  largest rank seen. The theory shows what a sketch is a function of: only the set of ids added,
  whatever their order, repeats and splitting over sketches merged later. The estimate from the
  registers is floating point: it is the parameter \<open>estimate\<close>, a function of how many registers
  hold each rank.
\<close>

section \<open>Counters that are a function of a set\<close>

text \<open>
  The interface of a counter of distinct keys: \<open>rep s S\<close> says that state \<open>s\<close> stands for the
  set \<open>S\<close>.
\<close>

locale union_counter =
  fixes rep :: "'s \<Rightarrow> 'k set \<Rightarrow> bool"
    and new :: 's
    and add :: "'k \<Rightarrow> 's \<Rightarrow> 's"
    and merge :: "'s \<Rightarrow> 's \<Rightarrow> 's"
  assumes rep_new: "rep new {}"
    and rep_add: "rep s S \<Longrightarrow> rep (add k s) (insert k S)"
    and rep_merge: "rep s S \<Longrightarrow> rep t T \<Longrightarrow> rep (merge s t) (S \<union> T)"
begin

lemma rep_adds: "rep s S \<Longrightarrow> rep (fold add ks s) (S \<union> set ks)"
proof (induction ks arbitrary: s S)
  case (Cons k ks)
  from Cons.IH [OF rep_add [OF Cons.prems, of k]] show ?case by simp
qed simp

lemma rep_all: "rep (fold add ks new) (set ks)"
  using rep_adds [OF rep_new] by simp

lemma rep_merge_all:
  "rep (fold (\<lambda>ks s. merge s (fold add ks new)) parts new) (\<Union> (set ` set parts))"
proof -
  have "rep s S \<Longrightarrow> rep (fold (\<lambda>ks s. merge s (fold add ks new)) parts s) (S \<union> \<Union> (set ` set parts))" for s S
  proof (induction parts arbitrary: s S)
    case (Cons p parts)
    from Cons.IH [OF rep_merge [OF Cons.prems rep_all]] show ?case by (simp add: Un_assoc)
  qed simp
  from this [OF rep_new] show ?thesis by simp
qed

end

section \<open>The sketch\<close>

definition exact_limit :: nat where "exact_limit = 1024"
definition hll_m :: nat where "hll_m = 2 ^ 14"

record sketch =
  sk_ids :: "32 word list"
  sk_sort :: nat
  sk_regs :: "nat list option"

definition empty_sketch :: sketch where
  "empty_sketch = \<lparr>sk_ids = [], sk_sort = 0, sk_regs = None\<rparr>"

definition splitmix64 :: "64 word \<Rightarrow> 64 word" where
  "splitmix64 x0 =
     (let x1 = x0 + 0x9E3779B97F4A7C15;
          x2 = (x1 XOR drop_bit 30 x1) * 0xBF58476D1CE4E5B9;
          x3 = (x2 XOR drop_bit 27 x2) * 0x94D049BB133111EB
      in x3 XOR drop_bit 31 x3)"

text \<open>\<open>bits.LeadingZeros64\<close>.\<close>

definition leading_zeros :: "64 word \<Rightarrow> nat" where
  "leading_zeros w = length (takeWhile (\<lambda>i. \<not> bit w i) (rev [0..<64]))"

definition bucket_index :: "32 word \<Rightarrow> nat" where
  "bucket_index k = unat (drop_bit 50 (splitmix64 (ucast k)))"

definition bucket_rank :: "32 word \<Rightarrow> nat" where
  "bucket_rank k = leading_zeros (push_bit 14 (splitmix64 (ucast k)) OR push_bit 13 1) + 1"

definition add_hash :: "32 word \<Rightarrow> nat list \<Rightarrow> nat list" where
  "add_hash k regs = (if bucket_rank k > regs ! bucket_index k then regs[bucket_index k := bucket_rank k] else regs)"

definition sk_promote :: "sketch \<Rightarrow> sketch" where
  "sk_promote s = \<lparr>sk_ids = [], sk_sort = 0, sk_regs = Some (fold add_hash (sk_ids s) (replicate hll_m 0))\<rparr>"

text \<open>\<open>slices.Sort\<close> then \<open>slices.Compact\<close>: the distinct ids in order.\<close>

definition sk_compact :: "sketch \<Rightarrow> sketch" where
  "sk_compact s =
     (if sk_sort s = length (sk_ids s) then s
      else let ids = remdups_adj (sort (sk_ids s)); s1 = s\<lparr>sk_ids := ids, sk_sort := length ids\<rparr>
           in if length ids > exact_limit then sk_promote s1 else s1)"

definition sk_add :: "32 word \<Rightarrow> sketch \<Rightarrow> sketch" where
  "sk_add k s = (case sk_regs s of
     Some regs \<Rightarrow> s\<lparr>sk_regs := Some (add_hash k regs)\<rparr>
   | None \<Rightarrow>
       if sk_ids s \<noteq> [] \<and> last (sk_ids s) = k then s
       else let s1 = s\<lparr>sk_ids := sk_ids s @ [k]\<rparr>
            in if length (sk_ids s1) \<ge> 2 * exact_limit then sk_compact s1 else s1)"

definition sk_merge :: "sketch \<Rightarrow> sketch \<Rightarrow> sketch" where
  "sk_merge s t = (case sk_regs t of
     Some rt \<Rightarrow> (case sk_regs s of
         None \<Rightarrow> \<lparr>sk_ids = [], sk_sort = 0, sk_regs = Some (fold add_hash (sk_ids s) rt)\<rparr>
       | Some rs \<Rightarrow> s\<lparr>sk_regs := Some (map2 (\<lambda>r q. if q > r then q else r) rs rt)\<rparr>)
   | None \<Rightarrow> fold sk_add (sk_ids t) s)"

definition sk_exact :: "sketch \<Rightarrow> bool \<times> sketch" where
  "sk_exact s = (let s1 = (if sk_regs s = None then sk_compact s else s) in (sk_regs s1 = None, s1))"

text \<open>The registers of each rank, 0 to 51.\<close>

definition histogram :: "nat list \<Rightarrow> nat list" where
  "histogram regs = fold (\<lambda>r c. c[r := c ! r + 1]) regs (replicate 52 0)"

definition sk_count :: "(nat list \<Rightarrow> nat) \<Rightarrow> sketch \<Rightarrow> nat \<times> sketch" where
  "sk_count estimate s =
     (let s1 = (if sk_regs s = None then sk_compact s else s)
      in case sk_regs s1 of
           None \<Rightarrow> (length (sk_ids s1), s1)
         | Some regs \<Rightarrow> (if histogram regs ! 0 = hll_m then 0 else estimate (histogram regs), s1))"

text \<open>\<open>Fingerprint\<close>: FNV-1a folded to 32 bits, never all ones.\<close>

definition fingerprint :: "string \<Rightarrow> 32 word" where
  "fingerprint s =
     (let h = foldl (\<lambda>h c. (h XOR of_nat (of_char c)) * 1099511628211) (14695981039346656037 :: 64 word) s;
          f = ucast (h XOR drop_bit 32 h)
      in if f = 0xFFFFFFFF then f - 1 else f)"


section \<open>What the registers hold\<close>

lemma bucket_index_less: "bucket_index k < hll_m"
proof -
  have "unat (drop_bit 50 w) < 2 ^ 14" for w :: "64 word"
  proof -
    have "unat (drop_bit 50 w) = unat w div 2 ^ 50" by (subst unat_drop_bit_eq) (simp only: drop_bit_eq_div)
    moreover have "unat w < 2 ^ 64" by (rule order_less_le_trans [OF unsigned_less]) simp
    ultimately show ?thesis by (simp add: less_mult_imp_div_less)
  qed
  then show ?thesis by (simp add: bucket_index_def hll_m_def)
qed

lemma takeWhile_stops: "\<not> P y \<Longrightarrow> length (takeWhile P (xs @ y # ys)) \<le> length xs"
  by (induction xs) auto

lemma bucket_rank_bounds: "1 \<le> bucket_rank k \<and> bucket_rank k \<le> 51"
proof -
  have "length (takeWhile (\<lambda>i. \<not> bit (w OR push_bit 13 1) i) (rev [0..<64])) \<le> 50" for w :: "64 word"
  proof -
    have "rev [0..<64] = rev [14..<64] @ rev [0..<14]"
      using upt_add_eq_append [of 0 14 50] by (simp only: rev_append [symmetric]) simp
    moreover have "rev [0..<14] = 13 # rev [0..<13]" by (simp add: upt_rec numeral_eq_Suc)
    ultimately have e: "rev [0..<64] = rev [14..<64] @ 13 # rev [0..<13]" by (simp only:)
    have "\<not> \<not> bit (w OR push_bit 13 1) 13" by (simp only: bit_or_iff bit_push_bit_iff) simp
    from takeWhile_stops [where P = "\<lambda>i. \<not> bit (w OR push_bit 13 1) i", OF this, of "rev [14..<64]" "rev [0..<13]"]
    show ?thesis unfolding e by (simp only: length_rev length_upt)
  qed
  then show ?thesis by (simp add: bucket_rank_def leading_zeros_def)
qed

text \<open>\<open>regs\<close> holds for each bucket the largest rank of the ids of \<open>S\<close> in it, 0 for none.\<close>

definition best_rank :: "32 word set \<Rightarrow> nat \<Rightarrow> nat" where
  "best_rank S i = Max (insert 0 (bucket_rank ` {k \<in> S. bucket_index k = i}))"

definition reg_rep :: "nat list \<Rightarrow> 32 word set \<Rightarrow> bool" where
  "reg_rep regs S \<longleftrightarrow> regs = map (best_rank S) [0..<hll_m]"

lemma best_rank_insert: "finite S \<Longrightarrow> best_rank (insert k S) i
    = (if bucket_index k = i then max (bucket_rank k) (best_rank S i) else best_rank S i)"
proof (cases "bucket_index k = i")
  case True
  assume "finite S"
  have "{j \<in> insert k S. bucket_index j = i} = insert k {j \<in> S. bucket_index j = i}" using True by auto
  then have "best_rank (insert k S) i = Max (insert (bucket_rank k) (insert 0 (bucket_rank ` {j \<in> S. bucket_index j = i})))"
    by (simp add: best_rank_def insert_commute)
  then show ?thesis using True \<open>finite S\<close> by (simp add: best_rank_def)
next
  case False
  then have "{j \<in> insert k S. bucket_index j = i} = {j \<in> S. bucket_index j = i}" by auto
  then show ?thesis using False by (simp add: best_rank_def)
qed

lemma best_rank_Un: "finite S \<Longrightarrow> finite T \<Longrightarrow> best_rank (S \<union> T) i = max (best_rank S i) (best_rank T i)"
proof -
  assume "finite S" "finite T"
  have "insert 0 (bucket_rank ` {k \<in> S \<union> T. bucket_index k = i})
      = insert 0 (bucket_rank ` {k \<in> S. bucket_index k = i}) \<union> insert 0 (bucket_rank ` {k \<in> T. bucket_index k = i})"
    by auto
  then show ?thesis unfolding best_rank_def using \<open>finite S\<close> \<open>finite T\<close> by (simp only:) (intro Max_Un, auto)
qed

lemma reg_rep_empty: "reg_rep (replicate hll_m 0) {}"
  by (simp add: reg_rep_def best_rank_def list_eq_iff_nth_eq)

lemma reg_rep_add: "reg_rep regs S \<Longrightarrow> finite S \<Longrightarrow> reg_rep (add_hash k regs) (insert k S)"
  using bucket_index_less [of k]
  by (auto simp: reg_rep_def add_hash_def best_rank_insert list_eq_iff_nth_eq nth_list_update)

lemma reg_rep_adds: "reg_rep regs S \<Longrightarrow> finite S \<Longrightarrow> reg_rep (fold add_hash ks regs) (S \<union> set ks)"
proof (induction ks arbitrary: regs S)
  case (Cons k ks)
  from Cons.IH [OF reg_rep_add [OF Cons.prems]] Cons.prems(2) show ?case by simp
qed simp

lemma reg_rep_max:
  "reg_rep rs S \<Longrightarrow> reg_rep rt T \<Longrightarrow> finite S \<Longrightarrow> finite T
    \<Longrightarrow> reg_rep (map2 (\<lambda>r q. if q > r then q else r) rs rt) (S \<union> T)"
  by (auto simp: reg_rep_def best_rank_Un list_eq_iff_nth_eq max_def)

section \<open>What a sketch stands for\<close>

definition sk_rep :: "sketch \<Rightarrow> 32 word set \<Rightarrow> bool" where
  "sk_rep s S \<longleftrightarrow> finite S \<and> (case sk_regs s of
     None \<Rightarrow> set (sk_ids s) = S \<and> sk_sort s \<le> length (sk_ids s) \<and> sk_sort s \<le> exact_limit
       \<and> (sk_sort s = length (sk_ids s) \<longrightarrow> distinct (sk_ids s)) \<and> length (sk_ids s) < 2 * exact_limit
   | Some regs \<Rightarrow> sk_ids s = [] \<and> sk_sort s = 0 \<and> reg_rep regs S \<and> card S > exact_limit)"

lemma distinct_sorted_adj: "sorted xs \<Longrightarrow> distinct (remdups_adj xs)"
  by (induction xs rule: remdups_adj.induct) auto

lemma sorted_unique: "set (remdups_adj (sort xs)) = set xs" "distinct (remdups_adj (sort (xs :: 'a :: linorder list)))"
  by (simp_all add: distinct_sorted_adj)

text \<open>\<open>compact\<close>, also on a list that reached its bound, settles what the sketch is.\<close>

lemma sk_compact_rep:
  assumes none: "sk_regs s = None" and ids: "set (sk_ids s) = S" and small: "sk_sort s \<le> exact_limit"
    and srt: "sk_sort s = length (sk_ids s) \<longrightarrow> distinct (sk_ids s)"
  shows "sk_rep (sk_compact s) S" and "sk_regs (sk_compact s) = None \<longleftrightarrow> card S \<le> exact_limit"
    and "sk_regs (sk_compact s) = None \<Longrightarrow> length (sk_ids (sk_compact s)) = card S"
proof -
  have fin: "finite S" using ids by auto
  have card: "length (remdups_adj (sort (sk_ids s))) = card S"
    using sorted_unique [of "sk_ids s"] ids by (metis distinct_card)
  consider "sk_sort s = length (sk_ids s)" | "sk_sort s \<noteq> length (sk_ids s)" "card S \<le> exact_limit"
    | "sk_sort s \<noteq> length (sk_ids s)" "card S > exact_limit" by linarith
  then have "sk_rep (sk_compact s) S \<and> (sk_regs (sk_compact s) = None \<longleftrightarrow> card S \<le> exact_limit)
     \<and> (sk_regs (sk_compact s) = None \<longrightarrow> length (sk_ids (sk_compact s)) = card S)"
  proof cases
    case 1
    then have "card S = length (sk_ids s)" using srt ids by (metis distinct_card)
    then show ?thesis using 1 none ids small srt fin
      by (simp add: sk_compact_def sk_rep_def exact_limit_def)
  next
    case 2
    then show ?thesis using none card sorted_unique [of "sk_ids s"] ids fin
      by (simp add: sk_compact_def sk_rep_def Let_def exact_limit_def)
  next
    case 3
    then show ?thesis using card sorted_unique(1) [of "sk_ids s"] ids fin
        reg_rep_adds [OF reg_rep_empty, of "remdups_adj (sort (sk_ids s))"]
      by (simp add: sk_compact_def sk_promote_def sk_rep_def Let_def)
  qed
  then show "sk_rep (sk_compact s) S" and "sk_regs (sk_compact s) = None \<longleftrightarrow> card S \<le> exact_limit"
    and "sk_regs (sk_compact s) = None \<Longrightarrow> length (sk_ids (sk_compact s)) = card S" by blast+
qed

lemma sk_add_rep:
  assumes "sk_rep s S"
  shows "sk_rep (sk_add k s) (insert k S)"
proof (cases "sk_regs s")
  case (Some regs)
  then have "card S \<le> card (insert k S)" using assms by (simp add: sk_rep_def card_insert_le)
  then show ?thesis using assms Some reg_rep_add by (simp add: sk_rep_def sk_add_def)
next
  case None
  show ?thesis
  proof (cases "sk_ids s \<noteq> [] \<and> last (sk_ids s) = k")
    case True
    then have "k \<in> S" using assms None by (auto simp: sk_rep_def)
    then show ?thesis using assms None True by (simp add: sk_add_def insert_absorb)
  next
    case False
    let ?s = "s\<lparr>sk_ids := sk_ids s @ [k]\<rparr>"
    have s: "sk_regs ?s = None" "set (sk_ids ?s) = insert k S" "sk_sort ?s \<le> exact_limit"
      "sk_sort ?s = length (sk_ids ?s) \<longrightarrow> distinct (sk_ids ?s)"
      using assms None by (auto simp: sk_rep_def)
    have "finite (insert k S)" using assms by (simp add: sk_rep_def)
    then have "sk_rep (if length (sk_ids ?s) \<ge> 2 * exact_limit then sk_compact ?s else ?s) (insert k S)"
      using sk_compact_rep(1) [OF s] s assms None by (auto simp: sk_rep_def)
    moreover have "sk_add k s = (if length (sk_ids ?s) \<ge> 2 * exact_limit then sk_compact ?s else ?s)"
      using None False by (simp only: sk_add_def option.case Let_def if_False)
    ultimately show ?thesis by simp
  qed
qed

lemma sk_adds_rep: "sk_rep s S \<Longrightarrow> sk_rep (fold sk_add ks s) (S \<union> set ks)"
proof (induction ks arbitrary: s S)
  case (Cons k ks)
  from Cons.IH [OF sk_add_rep [OF Cons.prems]] show ?case by simp
qed simp

lemma card_Un_big: "finite (S \<union> T) \<Longrightarrow> n < card T \<Longrightarrow> n < card (S \<union> T)"
  by (meson card_mono le_trans not_less sup_ge2)

lemma sk_merge_rep:
  assumes s: "sk_rep s S" and t: "sk_rep t T"
  shows "sk_rep (sk_merge s t) (S \<union> T)"
proof (cases "sk_regs t")
  case None
  then have "set (sk_ids t) = T" using t by (simp add: sk_rep_def)
  then show ?thesis using sk_adds_rep [OF s, of "sk_ids t"] None by (simp add: sk_merge_def)
next
  case rt: (Some rt)
  have big: "exact_limit < card (S \<union> T)" using s t rt by (intro card_Un_big) (simp_all add: sk_rep_def)
  show ?thesis
  proof (cases "sk_regs s")
    case None
    have "reg_rep (fold add_hash (sk_ids s) rt) (T \<union> set (sk_ids s))"
      using t rt by (intro reg_rep_adds) (simp_all add: sk_rep_def)
    then show ?thesis using s t rt None big by (simp add: sk_merge_def sk_rep_def Un_commute)
  next
    case (Some rs)
    have "reg_rep (map2 (\<lambda>r q. if q > r then q else r) rs rt) (S \<union> T)"
      using s t rt Some by (intro reg_rep_max) (simp_all add: sk_rep_def)
    then show ?thesis using s t rt Some big by (simp add: sk_merge_def sk_rep_def)
  qed
qed

lemma empty_sketch_rep: "sk_rep empty_sketch {}"
  by (simp add: sk_rep_def empty_sketch_def exact_limit_def)

interpretation hll: union_counter sk_rep empty_sketch sk_add sk_merge
  by unfold_locales (rule empty_sketch_rep, erule sk_add_rep, erule (1) sk_merge_rep)

section \<open>Properties\<close>

lemma sk_rep_count:
  assumes "sk_rep s S"
  shows "sk_rep (snd (sk_count est s)) S"
    and "card S \<le> 1024 \<Longrightarrow> fst (sk_count est s) = card S"
    and "1024 < card S \<Longrightarrow> fst (sk_count est s)
      = (if histogram (map (best_rank S) [0..<hll_m]) ! 0 = hll_m then 0 else est (histogram (map (best_rank S) [0..<hll_m])))"
    and "fst (sk_exact s) \<longleftrightarrow> card S \<le> 1024"
proof -
  let ?s = "if sk_regs s = None then sk_compact s else s"
  have "sk_rep ?s S \<and> (sk_regs ?s = None \<longleftrightarrow> card S \<le> exact_limit) \<and> (sk_regs ?s = None \<longrightarrow> length (sk_ids ?s) = card S)"
  proof (cases "sk_regs s")
    case None
    then show ?thesis using assms sk_compact_rep [OF None] by (simp add: sk_rep_def)
  next
    case (Some regs)
    then show ?thesis using assms by (auto simp: sk_rep_def)
  qed
  moreover have "sk_regs ?s = Some (map (best_rank S) [0..<hll_m])" if "sk_regs ?s = Some regs" "sk_rep ?s S" for regs
    using that by (simp add: sk_rep_def reg_rep_def)
  ultimately show "sk_rep (snd (sk_count est s)) S"
    and "card S \<le> 1024 \<Longrightarrow> fst (sk_count est s) = card S"
    and "1024 < card S \<Longrightarrow> fst (sk_count est s)
      = (if histogram (map (best_rank S) [0..<hll_m]) ! 0 = hll_m then 0 else est (histogram (map (best_rank S) [0..<hll_m])))"
    and "fst (sk_exact s) \<longleftrightarrow> card S \<le> 1024"
    by (auto simp: sk_count_def sk_exact_def Let_def exact_limit_def split: option.splits)
qed

text \<open> C26:
  A sketch is a function of the set of ids only. However a list of ids is split over sketches
  that are filled apart and merged, in any order and with any repeats, the merged sketch counts as
  a sketch of any other list of the same ids: exactly the number of distinct ids up to 1024 of
  them, and above that the same estimate.
\<close>

theorem sketch_counts_the_set:
  assumes "\<Union> (set ` set parts) = set ks"
  shows "fst (sk_count est (fold (\<lambda>p s. sk_merge s (fold sk_add p empty_sketch)) parts empty_sketch))
       = fst (sk_count est (fold sk_add ks empty_sketch))
    \<and> (card (set ks) \<le> 1024 \<longrightarrow> fst (sk_count est (fold sk_add ks empty_sketch)) = card (set ks))
    \<and> (fst (sk_exact (fold sk_add ks empty_sketch)) \<longleftrightarrow> card (set ks) \<le> 1024)"
proof -
  have one: "sk_rep (fold sk_add ks empty_sketch) (set ks)" by (rule hll.rep_all)
  have many: "sk_rep (fold (\<lambda>p s. sk_merge s (fold sk_add p empty_sketch)) parts empty_sketch) (set ks)"
    using hll.rep_merge_all [of parts] by (simp add: assms)
  show ?thesis using sk_rep_count(1-3) [OF one, of est] sk_rep_count(1-3) [OF many, of est] sk_rep_count(4) [OF one]
    by (cases "card (set ks) \<le> 1024") simp_all
qed

theorem sketch_counts_the_set_witness:
  "fst (sk_count sum_list (fold (\<lambda>p s. sk_merge s (fold sk_add p empty_sketch)) [[3, 5, 3], [5, 7], []] empty_sketch)) = 3"
proof -
  have "\<Union> (set ` set [[3, 5, 3], [5, 7], []]) = set [7, 5, 3 :: 32 word]" by auto
  moreover have "card (set [7, 5, 3 :: 32 word]) = 3" by simp
  ultimately show ?thesis using sketch_counts_the_set [of "[[3, 5, 3], [5, 7], []]" "[7, 5, 3]" sum_list] by simp
qed

text \<open>
  Every id has a register, and its rank is at most 51, so it fits the register and the counts
  of ranks that \<open>Count\<close> indexes with it. A fingerprint is never all ones.
\<close>

theorem hll_in_bounds:
  "bucket_index k < hll_m \<and> 1 \<le> bucket_rank k \<and> bucket_rank k \<le> 51 \<and> fingerprint s \<noteq> 0xFFFFFFFF"
proof -
  have "fingerprint s \<noteq> 0xFFFFFFFF" by (simp add: fingerprint_def Let_def)
  then show ?thesis using bucket_index_less bucket_rank_bounds by blast
qed

end
