(* ===== verification/DaySets.thy ===== *)
theory DaySets
  imports HllSketch
begin

text \<open>
  The sets a query counts distinct ids with (\<^verbatim>\<open>internal/native/sets.go\<close>): a day's keys in an
  open-addressing table probed linearly, and a group's ids over the whole range, exact keys first
  and a sketch (\<^theory_text>\<open>HllSketch\<close>) past its limit. The probe loop has no bound of its own: it is a
  \<open>partial_function\<close>, so that a table with no free slot would be \<open>None\<close>.
\<close>

section \<open>The table of a day\<close>

definition null_key :: "64 word" where "null_key = 1"
definition id_key :: "64 word \<Rightarrow> 64 word" where "id_key h = max h 2"

record day_set =
  ds_hs :: "64 word list"
  ds_gs :: "32 word list"
  ds_n :: nat
  ds_wide :: bool

definition empty_day :: "bool \<Rightarrow> day_set" where
  "empty_day w = \<lparr>ds_hs = [], ds_gs = [], ds_n = 0, ds_wide = w\<rparr>"

definition slot_bytes :: "day_set \<Rightarrow> int" where
  "slot_bytes s = (if ds_wide s then 12 else 8)"

text \<open>\<open>bits.Mul64\<close>'s high half scales the mixed key to the table.\<close>

definition mix :: "32 word \<Rightarrow> 64 word \<Rightarrow> 64 word" where
  "mix g h = (h XOR ucast g * 0x9E3779B97F4A7C15) * 0xBF58476D1CE4E5B9"

definition slot :: "nat \<Rightarrow> 32 word \<Rightarrow> 64 word \<Rightarrow> nat" where
  "slot sz g h = unat (mix g h) * sz div 2 ^ 64"

definition full :: "nat \<Rightarrow> nat \<Rightarrow> bool" where
  "full n sz \<longleftrightarrow> 20 * n > 17 * sz"

partial_function (option) probe :: "day_set \<Rightarrow> 32 word \<Rightarrow> 64 word \<Rightarrow> nat \<Rightarrow> day_set option" where
  "probe s g h i =
     (if ds_hs s ! i = 0 then
        Some (s\<lparr>ds_hs := (ds_hs s)[i := h], ds_gs := (if ds_wide s then (ds_gs s)[i := g] else ds_gs s), ds_n := ds_n s + 1\<rparr>)
      else if ds_hs s ! i = h \<and> (\<not> ds_wide s \<or> ds_gs s ! i = g) then Some s
      else probe s g h (if i + 1 = length (ds_hs s) then 0 else i + 1))"

definition ds_insert :: "32 word \<Rightarrow> 64 word \<Rightarrow> day_set \<Rightarrow> day_set option" where
  "ds_insert g h s = probe s g h (slot (length (ds_hs s)) g h)"

text \<open>\<open>each\<close>: the keys in slot order, with their groups.\<close>

definition ds_each :: "day_set \<Rightarrow> (32 word \<times> 64 word) list" where
  "ds_each s = map (\<lambda>i. (if ds_wide s then ds_gs s ! i else 0, ds_hs s ! i))
     (filter (\<lambda>i. ds_hs s ! i \<noteq> 0) [0..<length (ds_hs s)])"

fun insert_all :: "(32 word \<times> 64 word) list \<Rightarrow> day_set \<Rightarrow> day_set option" where
  "insert_all [] s = Some s"
| "insert_all ((g, h) # ks) s = Option.bind (ds_insert g h s) (insert_all ks)"

definition ds_resize :: "nat \<Rightarrow> day_set \<Rightarrow> day_set option" where
  "ds_resize sz s = insert_all (ds_each s)
     (s\<lparr>ds_hs := replicate sz 0, ds_gs := (if ds_wide s then replicate sz 0 else ds_gs s), ds_n := 0\<rparr>)"

definition ds_add :: "32 word \<Rightarrow> 64 word \<Rightarrow> day_set \<Rightarrow> (int \<times> day_set) option" where
  "ds_add g h s =
     (let old = length (ds_hs s); sz = max 16 (old + old div 2) in
      if full (ds_n s + 1) old
      then Option.bind (ds_resize sz s) (\<lambda>s1. map_option (Pair ((int sz - int old) * slot_bytes s)) (ds_insert g h s1))
      else map_option (Pair 0) (ds_insert g h s))"

function reserve_size :: "nat \<Rightarrow> nat \<Rightarrow> nat" where
  "reserve_size n sz = (if sz < 16 \<or> \<not> full n sz then sz else reserve_size n (sz + sz div 2))"
  by auto
termination
  by (relation "measure (\<lambda>(n, sz). 20 * n - 17 * sz)") (auto simp: full_def)

declare reserve_size.simps [simp del]

definition ds_reserve :: "nat \<Rightarrow> day_set \<Rightarrow> day_set option" where
  "ds_reserve n s =
     (let sz = reserve_size n (max 16 (length (ds_hs s)))
      in if sz > length (ds_hs s) then ds_resize sz s else Some s)"

text \<open>\<open>mergeSets\<close>: the first set with the most keys takes the others'.\<close>

fun largest :: "day_set list \<Rightarrow> nat \<Rightarrow> nat option \<Rightarrow> day_set list \<Rightarrow> nat option" where
  "largest all i into [] = into"
| "largest all i into (s # ss) =
     largest all (i + 1) (case into of None \<Rightarrow> Some i | Some j \<Rightarrow> if ds_n s > ds_n (all ! j) then Some i else into) ss"

definition merge_sets :: "day_set list \<Rightarrow> day_set option" where
  "merge_sets sets =
     (let total = sum_list (map ds_n sets) in
      case largest sets 0 None sets of
        None \<Rightarrow> Some (empty_day False)
      | Some j \<Rightarrow>
          if total = 0 then Some (empty_day False)
          else Option.bind (ds_reserve total (sets ! j))
            (insert_all (concat (map (\<lambda>i. ds_each (sets ! i)) (filter (\<lambda>i. i \<noteq> j) [0..<length sets])))))"

section \<open>What a table holds\<close>

definition at :: "day_set \<Rightarrow> nat \<Rightarrow> 32 word \<times> 64 word" where
  "at s i = (if ds_wide s then ds_gs s ! i else 0, ds_hs s ! i)"

definition ds_keys :: "day_set \<Rightarrow> (32 word \<times> 64 word) set" where
  "ds_keys s = {at s i | i. i < length (ds_hs s) \<and> ds_hs s ! i \<noteq> 0}"

text \<open>
  No key is in two slots, and between the slot a key hashes to and the slot it is in, going round,
  no slot is free.
\<close>

definition reached :: "day_set \<Rightarrow> nat \<Rightarrow> bool" where
  "reached s i \<longleftrightarrow> (\<exists>j < length (ds_hs s).
     i = (slot (length (ds_hs s)) (fst (at s i)) (snd (at s i)) + j) mod length (ds_hs s)
     \<and> (\<forall>k < j. ds_hs s ! ((slot (length (ds_hs s)) (fst (at s i)) (snd (at s i)) + k) mod length (ds_hs s)) \<noteq> 0))"

definition table_ok :: "day_set \<Rightarrow> bool" where
  "table_ok s \<longleftrightarrow> (ds_wide s \<longrightarrow> length (ds_gs s) = length (ds_hs s))
     \<and> ds_n s = card {i. i < length (ds_hs s) \<and> ds_hs s ! i \<noteq> 0}
     \<and> (\<forall>i < length (ds_hs s). \<forall>j < length (ds_hs s). ds_hs s ! i \<noteq> 0 \<longrightarrow> at s i = at s j \<longrightarrow> i = j)
     \<and> (\<forall>i < length (ds_hs s). ds_hs s ! i \<noteq> 0 \<longrightarrow> reached s i)"

text \<open>At most 85\% of the slots are taken, so that one is free.\<close>

definition ds_ok :: "day_set \<Rightarrow> bool" where
  "ds_ok s \<longleftrightarrow> table_ok s \<and> \<not> full (ds_n s) (length (ds_hs s))"

lemma slot_less: "0 < sz \<Longrightarrow> slot sz g h < sz"
proof -
  assume "0 < sz"
  have "unat (mix g h) < 2 ^ 64" by (rule order_less_le_trans [OF unsigned_less]) simp
  then have "unat (mix g h) * sz < sz * 2 ^ 64" using \<open>0 < sz\<close> by simp
  then show ?thesis unfolding slot_def by (rule less_mult_imp_div_less)
qed

section \<open>Probing\<close>

lemma cyc_reach: "i < (L :: nat) \<Longrightarrow> p < L \<Longrightarrow> \<exists>j < L. (i + j) mod L = p"
proof -
  assume "i < L" "p < L"
  show ?thesis
  proof (cases "i \<le> p")
    case True
    then show ?thesis using \<open>p < L\<close> by (intro exI [of _ "p - i"]) auto
  next
    case False
    then have "(i + (p + L - i)) mod L = p" using \<open>i < L\<close> \<open>p < L\<close> by simp
    then show ?thesis using False \<open>i < L\<close> by (intro exI [of _ "p + L - i"]) auto
  qed
qed

lemma cyc_next: "(i + Suc j) mod L = (if (i + j) mod L + 1 = L then 0 else (i + j) mod L + (1 :: nat))"
  using mod_Suc [of "i + j" L] by simp

text \<open>\<open>p\<close> stops the probe for \<open>(g, h)\<close>: it is free or holds the key.\<close>

definition stops :: "day_set \<Rightarrow> 32 word \<times> 64 word \<Rightarrow> nat \<Rightarrow> bool" where
  "stops s k p \<longleftrightarrow> ds_hs s ! p = 0 \<or> at s p = k"

definition put :: "day_set \<Rightarrow> 32 word \<times> 64 word \<Rightarrow> nat \<Rightarrow> day_set" where
  "put s k p = (if ds_hs s ! p = 0 then s\<lparr>ds_hs := (ds_hs s)[p := snd k],
     ds_gs := (if ds_wide s then (ds_gs s)[p := fst k] else ds_gs s), ds_n := ds_n s + 1\<rparr> else s)"

lemma probe_step:
  assumes "ds_wide s \<or> g = 0"
  shows "probe s g h p = (if stops s (g, h) p then Some (put s (g, h) p)
    else probe s g h (if p + 1 = length (ds_hs s) then 0 else p + 1))"
  using assms by (subst probe.simps) (auto simp: stops_def put_def at_def)

lemma probe_skip:
  assumes "ds_wide s \<or> g = 0" and "\<And>k. k < j \<Longrightarrow> \<not> stops s (g, h) ((i + k) mod length (ds_hs s))"
  shows "probe s g h (i mod length (ds_hs s)) = probe s g h ((i + j) mod length (ds_hs s))"
  using assms(2)
proof (induction j)
  case (Suc j)
  then have "\<not> stops s (g, h) ((i + j) mod length (ds_hs s))" by simp
  then have "probe s g h ((i + j) mod length (ds_hs s)) = probe s g h ((i + Suc j) mod length (ds_hs s))"
    unfolding cyc_next by (subst probe_step [OF assms(1)]) simp
  then show ?case using Suc by simp
qed simp

text \<open>With a free slot the probe ends at the first slot that stops it.\<close>

lemma probe_ends:
  assumes g: "ds_wide s \<or> g = 0" and i: "i < length (ds_hs s)" and p: "p < length (ds_hs s)" "ds_hs s ! p = 0"
  shows "\<exists>j < length (ds_hs s). stops s (g, h) ((i + j) mod length (ds_hs s))
    \<and> (\<forall>k < j. \<not> stops s (g, h) ((i + k) mod length (ds_hs s)))
    \<and> probe s g h i = Some (put s (g, h) ((i + j) mod length (ds_hs s)))"
proof -
  let ?Q = "\<lambda>j. stops s (g, h) ((i + j) mod length (ds_hs s))"
  obtain j0 where j0: "j0 < length (ds_hs s)" "?Q j0" using cyc_reach [OF i p(1)] p(2) by (auto simp: stops_def)
  define j where "j = (LEAST j. ?Q j)"
  have q: "?Q j" and least: "\<And>k. k < j \<Longrightarrow> \<not> ?Q k" using j0(2) not_less_Least by (auto simp: j_def intro: LeastI)
  have lt: "j < length (ds_hs s)" using Least_le [of ?Q, OF j0(2)] j0(1) by (simp add: j_def)
  have "probe s g h i = probe s g h ((i + j) mod length (ds_hs s))"
    using probe_skip [OF g, of j h i] least i by simp
  then have e: "probe s g h i = Some (put s (g, h) ((i + j) mod length (ds_hs s)))"
    using probe_step [OF g, of h "(i + j) mod length (ds_hs s)"] q by simp
  show ?thesis using lt q least e by blast
qed

text \<open>What the insert makes of a table with a free slot.\<close>

lemma at_put: "table_ok s \<Longrightarrow> q < length (ds_hs s) \<Longrightarrow> ds_hs s ! p = 0 \<Longrightarrow> ds_wide s \<or> fst k = 0
    \<Longrightarrow> at (put s k p) q = (if q = p then k else at s q)"
  by (cases k) (auto simp: at_def put_def table_ok_def nth_list_update)

lemma hs_put: "ds_hs s ! p = 0 \<Longrightarrow> ds_hs (put s k p) = (ds_hs s)[p := snd k]"
  by (simp add: put_def)

lemma put_keys:
  assumes ok: "table_ok s" and p: "p < length (ds_hs s)" "ds_hs s ! p = 0" and k: "snd k \<noteq> 0" "ds_wide s \<or> fst k = 0"
  shows "ds_keys (put s k p) = insert k (ds_keys s)"
proof -
  have a: "at (put s k p) q = (if q = p then k else at s q)" if "q < length (ds_hs s)" for q
    using at_put [OF ok that p(2) k(2)] .
  have n: "(ds_hs (put s k p) ! q \<noteq> 0) = (q = p \<or> ds_hs s ! q \<noteq> 0)" if "q < length (ds_hs s)" for q
    using p k that by (simp add: hs_put nth_list_update)
  have l: "length (ds_hs (put s k p)) = length (ds_hs s)" using p by (simp add: hs_put)
  show ?thesis
  proof (intro set_eqI iffI)
    fix x assume "x \<in> ds_keys (put s k p)"
    then obtain q where "q < length (ds_hs s)" "ds_hs (put s k p) ! q \<noteq> 0" "x = at (put s k p) q"
      by (auto simp: ds_keys_def l)
    then show "x \<in> insert k (ds_keys s)" using a n by (cases "q = p") (auto simp: ds_keys_def)
  next
    fix x assume "x \<in> insert k (ds_keys s)"
    then consider "x = k" | q where "q < length (ds_hs s)" "ds_hs s ! q \<noteq> 0" "x = at s q" by (auto simp: ds_keys_def)
    then show "x \<in> ds_keys (put s k p)"
    proof cases
      case 1
      then show ?thesis using a [OF p(1)] n [OF p(1)] p(1) l by (auto simp: ds_keys_def intro!: exI [of _ p])
    next
      case 2
      then have "q \<noteq> p" using p(2) by auto
      then show ?thesis using a [OF 2(1)] n [OF 2(1)] 2 l by (auto simp: ds_keys_def intro!: exI [of _ q])
    qed
  qed
qed

lemma put_table_ok:
  assumes ok: "table_ok s" and p: "p < length (ds_hs s)" "ds_hs s ! p = 0" and k: "snd k \<noteq> 0" "ds_wide s \<or> fst k = 0"
    and new: "k \<notin> ds_keys s"
    and way: "\<exists>j < length (ds_hs s). p = (slot (length (ds_hs s)) (fst k) (snd k) + j) mod length (ds_hs s)
      \<and> (\<forall>i < j. ds_hs s ! ((slot (length (ds_hs s)) (fst k) (snd k) + i) mod length (ds_hs s)) \<noteq> 0)"
  shows "table_ok (put s k p) \<and> ds_n (put s k p) = ds_n s + 1"
proof -
  let ?s = "put s k p" let ?L = "length (ds_hs s)"
  have a: "at ?s q = (if q = p then k else at s q)" if "q < ?L" for q using at_put [OF ok that p(2) k(2)] .
  have l: "length (ds_hs ?s) = ?L" and w: "ds_wide ?s = ds_wide s" and c: "ds_n ?s = ds_n s + 1"
    using p by (simp_all add: put_def)
  have n: "(ds_hs ?s ! q \<noteq> 0) = (q = p \<or> ds_hs s ! q \<noteq> 0)" if "q < ?L" for q
    using p k that by (simp add: hs_put nth_list_update)
  have gs: "ds_wide ?s \<longrightarrow> length (ds_gs ?s) = length (ds_hs ?s)" using ok p by (simp add: put_def table_ok_def)
  have "{i. i < ?L \<and> ds_hs ?s ! i \<noteq> 0} = insert p {i. i < ?L \<and> ds_hs s ! i \<noteq> 0}" using n p by auto
  then have count: "ds_n ?s = card {i. i < length (ds_hs ?s) \<and> ds_hs ?s ! i \<noteq> 0}"
    using ok p by (simp add: l c table_ok_def)
  have uniq: "i = j" if "i < ?L" "j < ?L" "ds_hs ?s ! i \<noteq> 0" "at ?s i = at ?s j" for i j
  proof -
    have out: "at s q \<noteq> k" if "q < ?L" "q \<noteq> p" for q
    proof
      assume "at s q = k"
      then have "ds_hs s ! q \<noteq> 0" using k(1) by (auto simp: at_def)
      then show False using new \<open>at s q = k\<close> that by (auto simp: ds_keys_def)
    qed
    consider "i = p" | "j = p" "i \<noteq> p" | "i \<noteq> p" "j \<noteq> p" by blast
    then show ?thesis
    proof cases
      case 1
      then show ?thesis using that a out by (metis (no_types))
    next
      case 2
      then show ?thesis using that a out by (metis (no_types))
    next
      case 3
      then have "ds_hs s ! i \<noteq> 0" "at s i = at s j" using that n a by auto
      then show ?thesis using ok that(1,2) by (simp add: table_ok_def)
    qed
  qed
  have nz: "ds_hs ?s ! ((x + i) mod ?L) \<noteq> 0" if "ds_hs s ! ((x + i) mod ?L) \<noteq> 0" for x i
    proof -
    have "(x + i) mod ?L < ?L" using p(1) by (intro mod_less_divisor) linarith
    then show ?thesis using n that by simp
  qed
  have reach: "reached ?s i" if i: "i < ?L" "ds_hs ?s ! i \<noteq> 0" for i
  proof (cases "i = p")
    case True
    then show ?thesis unfolding reached_def using way nz a [OF p(1)] by (simp add: l) blast
  next
    case False
    then have "reached s i" using ok n i by (auto simp: table_ok_def)
    then show ?thesis unfolding reached_def using nz a [OF i(1)] False by (simp add: l) blast
  qed
  show ?thesis unfolding table_ok_def using gs count uniq reach c by (simp add: l)
qed

text \<open>Inserting into a table with a free slot: the key is added, and the slots stay free of repeats.\<close>

lemma ds_insert_ok:
  assumes ok: "table_ok s" and free: "ds_n s < length (ds_hs s)" and h: "h \<noteq> 0" and g: "ds_wide s \<or> g = 0"
  obtains s' where "ds_insert g h s = Some s'" "table_ok s'" "ds_keys s' = insert (g, h) (ds_keys s)"
    "ds_n s' = ds_n s + of_bool ((g, h) \<notin> ds_keys s)" "length (ds_hs s') = length (ds_hs s)" "ds_wide s' = ds_wide s"
proof -
  let ?L = "length (ds_hs s)" let ?i = "slot ?L g h"
  have "\<exists>p < ?L. ds_hs s ! p = 0"
  proof (rule ccontr)
    assume "\<not> ?thesis"
    then have "{i. i < ?L \<and> ds_hs s ! i \<noteq> 0} = {..<?L}" by auto
    then show False using ok free by (simp add: table_ok_def)
  qed
  then obtain p0 where p0: "p0 < ?L" "ds_hs s ! p0 = 0" by blast
  then have i: "?i < ?L" by (intro slot_less) linarith
  obtain j where j: "j < ?L" "stops s (g, h) ((?i + j) mod ?L)" "\<forall>k < j. \<not> stops s (g, h) ((?i + k) mod ?L)"
    "probe s g h ?i = Some (put s (g, h) ((?i + j) mod ?L))"
    using probe_ends [OF g i p0, of h] by blast
  define p where "p = (?i + j) mod ?L"
  have p: "p < ?L" unfolding p_def using p0(1) by (intro mod_less_divisor) linarith
  have r: "ds_insert g h s = Some (put s (g, h) p)" by (simp add: ds_insert_def j(4) p_def)
  show thesis
  proof (cases "ds_hs s ! p = 0")
    case True
    have out: "(g, h) \<notin> ds_keys s"
    proof
      assume "(g, h) \<in> ds_keys s"
      then obtain q where q: "q < ?L" "ds_hs s ! q \<noteq> 0" "at s q = (g, h)" by (auto simp: ds_keys_def)
      then have "reached s q" using ok by (simp add: table_ok_def)
      then obtain m where m: "m < ?L" "q = (?i + m) mod ?L" "\<And>k. k < m \<Longrightarrow> ds_hs s ! ((?i + k) mod ?L) \<noteq> 0"
        unfolding reached_def q(3) by auto
      have "stops s (g, h) q" using q(3) by (simp add: stops_def)
      then have "j \<le> m" using j(3) m(2) not_less by blast
      moreover have "j \<noteq> m" using True q(2) m(2) by (auto simp: p_def)
      ultimately show False using m(3) [of j] True by (simp add: p_def)
    qed
    have "\<forall>k < j. ds_hs s ! ((?i + k) mod ?L) \<noteq> 0" using j(3) by (auto simp: stops_def)
    then have "table_ok (put s (g, h) p) \<and> ds_n (put s (g, h) p) = ds_n s + 1"
      using j(1) p_def by (intro put_table_ok [OF ok p True]) (use h g out in auto)
    moreover have "ds_keys (put s (g, h) p) = insert (g, h) (ds_keys s)" using put_keys [OF ok p True, of "(g, h)"] h g by simp
    moreover have "length (ds_hs (put s (g, h) p)) = ?L" "ds_wide (put s (g, h) p) = ds_wide s" by (simp_all add: put_def)
    ultimately show thesis using that [OF r] out by simp
  next
    case False
    then have "at s p = (g, h)" using j(2) by (simp add: stops_def p_def)
    then have "(g, h) \<in> ds_keys s" using p False unfolding ds_keys_def by force
    then show thesis using that [OF r] ok False by (simp add: put_def insert_absorb)
  qed
qed

section \<open>The operations\<close>

lemma each_keys: "set (ds_each s) = ds_keys s"
  by (auto simp: ds_each_def ds_keys_def at_def)

lemma each_length: "table_ok s \<Longrightarrow> length (ds_each s) = ds_n s"
proof -
  assume ok: "table_ok s"
  have "{i. i < length (ds_hs s) \<and> ds_hs s ! i \<noteq> 0} = set (filter (\<lambda>i. ds_hs s ! i \<noteq> 0) [0..<length (ds_hs s)])" by auto
  then show ?thesis using ok distinct_card [of "filter (\<lambda>i. ds_hs s ! i \<noteq> 0) [0..<length (ds_hs s)]"]
    by (simp add: ds_each_def table_ok_def)
qed

lemma each_distinct: "table_ok s \<Longrightarrow> distinct (ds_each s)"
  by (auto simp: ds_each_def table_ok_def at_def distinct_map inj_on_def)

lemma n_card: "table_ok s \<Longrightarrow> ds_n s = card (ds_keys s)"
  using each_keys [of s] each_length [of s] each_distinct [of s] by (metis distinct_card)

lemma keys_nonzero: "(g, h) \<in> ds_keys s \<Longrightarrow> h \<noteq> 0 \<and> (ds_wide s \<or> g = 0)"
  by (auto simp: ds_keys_def at_def split: if_splits)

lemma insert_all_ok:
  assumes "table_ok s" and "card (ds_keys s \<union> set ks) < length (ds_hs s)" and "\<And>g h. (g, h) \<in> set ks \<Longrightarrow> h \<noteq> 0 \<and> (ds_wide s \<or> g = 0)"
  shows "\<exists>s'. insert_all ks s = Some s' \<and> table_ok s' \<and> ds_keys s' = ds_keys s \<union> set ks
    \<and> length (ds_hs s') = length (ds_hs s) \<and> ds_wide s' = ds_wide s"
  using assms
proof (induction ks arbitrary: s)
  case (Cons k ks)
  obtain g h where k: "k = (g, h)" by (cases k)
  have fin: "finite (ds_keys s)" by (simp add: ds_keys_def)
  then have "card (ds_keys s) \<le> card (ds_keys s \<union> set (k # ks))" by (intro card_mono) auto
  then have "ds_n s < length (ds_hs s)" using Cons.prems(1,2) by (simp add: n_card)
  moreover have "h \<noteq> 0" "ds_wide s \<or> g = 0" using Cons.prems(3) [of g h] k by auto
  ultimately obtain s1 where s1: "ds_insert g h s = Some s1" "table_ok s1" "ds_keys s1 = insert (g, h) (ds_keys s)"
    "length (ds_hs s1) = length (ds_hs s)" "ds_wide s1 = ds_wide s"
    by (rule ds_insert_ok [OF Cons.prems(1)])
  have "\<exists>s'. insert_all ks s1 = Some s' \<and> table_ok s' \<and> ds_keys s' = ds_keys s1 \<union> set ks
    \<and> length (ds_hs s') = length (ds_hs s1) \<and> ds_wide s' = ds_wide s1"
    by (rule Cons.IH [OF s1(2)]) (use Cons.prems s1 k in auto)
  then show ?case using s1 k by auto
qed simp

lemma resize_ok:
  assumes "table_ok s" and "ds_n s < sz"
  shows "\<exists>s'. ds_resize sz s = Some s' \<and> table_ok s' \<and> ds_keys s' = ds_keys s
    \<and> length (ds_hs s') = sz \<and> ds_wide s' = ds_wide s \<and> ds_n s' = ds_n s"
proof -
  let ?e = "s\<lparr>ds_hs := replicate sz 0, ds_gs := (if ds_wide s then replicate sz 0 else ds_gs s), ds_n := 0\<rparr>"
  have e: "table_ok ?e" "ds_keys ?e = {}" by (auto simp: table_ok_def ds_keys_def)
  have "card (ds_keys s) < sz" using assms n_card by simp
  then have "\<exists>s'. insert_all (ds_each s) ?e = Some s' \<and> table_ok s' \<and> ds_keys s' = ds_keys ?e \<union> set (ds_each s)
    \<and> length (ds_hs s') = length (ds_hs ?e) \<and> ds_wide s' = ds_wide ?e"
    by (intro insert_all_ok [OF e(1)]) (use keys_nonzero e in \<open>auto simp: each_keys\<close>)
  then show ?thesis using e(2) assms(1) n_card by (force simp: ds_resize_def each_keys)
qed

lemma not_full_grown: "\<not> full n old \<Longrightarrow> \<not> full (n + 1) (max 16 (old + old div 2))"
  by (auto simp: full_def max_def)

lemma not_full_room: "\<not> full n sz \<Longrightarrow> 0 < sz \<Longrightarrow> n < sz"
  by (simp add: full_def)

lemma add_ok:
  assumes ok: "ds_ok s" and h: "h \<noteq> 0" and g: "ds_wide s \<or> g = 0"
  obtains s' grew where "ds_add g h s = Some (grew, s')" "ds_ok s'" "ds_keys s' = insert (g, h) (ds_keys s)"
    "ds_wide s' = ds_wide s" "grew = (int (length (ds_hs s')) - int (length (ds_hs s))) * slot_bytes s" "0 \<le> grew"
proof -
  define size where "size = max 16 (length (ds_hs s) + length (ds_hs s) div 2)"
  have t: "table_ok s" and nf: "\<not> full (ds_n s) (length (ds_hs s))" using ok by (simp_all add: ds_ok_def)
  have keep: "ds_ok s2" if "\<not> full (ds_n s + 1) (length (ds_hs s2))" "table_ok s2"
    "ds_n s2 \<le> ds_n s + 1" for s2 using that by (simp add: ds_ok_def full_def)
  show thesis
  proof (cases "full (ds_n s + 1) (length (ds_hs s))")
    case True
    have big: "\<not> full (ds_n s + 1) size" unfolding size_def using nf by (rule not_full_grown)
    have "0 < size" by (simp add: size_def)
    then have "ds_n s < size" using not_full_room [OF big] by simp
    then obtain s1 where s1: "ds_resize size s = Some s1" "table_ok s1" "ds_keys s1 = ds_keys s"
      "length (ds_hs s1) = size" "ds_wide s1 = ds_wide s" "ds_n s1 = ds_n s" using resize_ok [OF t] by blast
    have "ds_n s1 < length (ds_hs s1)" using s1 \<open>ds_n s < size\<close> by simp
    moreover have "ds_wide s1 \<or> g = 0" using g s1 by simp
    ultimately obtain s2 where s2: "ds_insert g h s1 = Some s2" "table_ok s2" "ds_keys s2 = insert (g, h) (ds_keys s1)"
      "ds_n s2 = ds_n s1 + of_bool ((g, h) \<notin> ds_keys s1)" "length (ds_hs s2) = length (ds_hs s1)" "ds_wide s2 = ds_wide s1"
      by (rule ds_insert_ok [OF s1(2) _ h])
    have "length (ds_hs s) \<le> size" by (simp add: size_def)
    then show thesis
      by (intro that [of "(int size - int (length (ds_hs s))) * slot_bytes s" s2])
        (use True s1 s2 keep [of s2] big in \<open>auto simp: ds_add_def Let_def size_def [symmetric] slot_bytes_def\<close>)
  next
    case False
    then have "0 < length (ds_hs s)" by (cases "length (ds_hs s)") (auto simp: full_def)
    then have "ds_n s < length (ds_hs s)" using not_full_room [OF nf] by simp
    then obtain s2 where s2: "ds_insert g h s = Some s2" "table_ok s2" "ds_keys s2 = insert (g, h) (ds_keys s)"
      "ds_n s2 = ds_n s + of_bool ((g, h) \<notin> ds_keys s)" "length (ds_hs s2) = length (ds_hs s)" "ds_wide s2 = ds_wide s"
      by (rule ds_insert_ok [OF t _ h g])
    then show thesis
      by (intro that [of 0 s2]) (use False s2 keep [of s2] in \<open>auto simp: ds_add_def Let_def\<close>)
  qed
qed

lemma reserve_size_ok: "16 \<le> sz \<Longrightarrow> sz \<le> reserve_size n sz \<and> \<not> full n (reserve_size n sz)"
proof (induction n sz rule: reserve_size.induct)
  case (1 n sz)
  then show ?case by (subst (1 2) reserve_size.simps) (auto split: if_splits)
qed

lemma reserve_ok:
  assumes "ds_ok s" and "ds_n s \<le> n"
  shows "\<exists>s'. ds_reserve n s = Some s' \<and> table_ok s' \<and> ds_keys s' = ds_keys s \<and> ds_wide s' = ds_wide s
    \<and> (0 < n \<longrightarrow> n < length (ds_hs s')) \<and> (0 < n \<longrightarrow> \<not> full n (length (ds_hs s')))"
proof -
  let ?sz = "reserve_size n (max 16 (length (ds_hs s)))"
  have r: "max 16 (length (ds_hs s)) \<le> ?sz" "\<not> full n ?sz" using reserve_size_ok [of "max 16 (length (ds_hs s))" n] by simp_all
  then have "n < ?sz" using not_full_room by simp
  show ?thesis
  proof (cases "?sz > length (ds_hs s)")
    case True
    then obtain s' where "ds_resize ?sz s = Some s'" "table_ok s'" "ds_keys s' = ds_keys s" "length (ds_hs s') = ?sz"
      "ds_wide s' = ds_wide s" using resize_ok [of s ?sz] assms \<open>n < ?sz\<close> by (auto simp: ds_ok_def)
    then show ?thesis using True r \<open>n < ?sz\<close> by (auto simp: ds_reserve_def Let_def)
  next
    case False
    then have "?sz = length (ds_hs s)" using r by linarith
    moreover have "ds_reserve n s = Some s" using False by (simp only: ds_reserve_def Let_def if_False)
    ultimately show ?thesis using r \<open>n < ?sz\<close> assms by (simp add: ds_ok_def)
  qed
qed

text \<open>The sets of several workers become one.\<close>

lemma largest_lt: "largest all i into ss = Some j \<Longrightarrow> (\<forall>k. into = Some k \<longrightarrow> k < i + length ss) \<Longrightarrow> j < i + length ss"
  by (induction all i into ss rule: largest.induct) (fastforce split: option.splits if_splits)+

lemma largest_Some: "largest all i into ss = None \<longleftrightarrow> into = None \<and> ss = []"
  by (induction all i into ss rule: largest.induct) (auto split: option.splits)

lemma card_Union_le_sum: "(\<And>s. s \<in> set ss \<Longrightarrow> table_ok s) \<Longrightarrow> card (\<Union> (ds_keys ` set ss)) \<le> sum_list (map ds_n ss)"
proof (induction ss)
  case (Cons s ss)
  have "card (\<Union> (ds_keys ` set (s # ss))) \<le> card (ds_keys s) + card (\<Union> (ds_keys ` set ss))"
    by (simp add: card_Un_le)
  then show ?case using Cons n_card [of s] by force
qed simp

lemma merge_sets_ok:
  assumes ok: "\<And>s. s \<in> set sets \<Longrightarrow> ds_ok s \<and> ds_wide s = w"
  shows "\<exists>m. merge_sets sets = Some m \<and> ds_keys m = \<Union> (ds_keys ` set sets) \<and> ds_ok m \<and> (ds_keys m \<noteq> {} \<longrightarrow> ds_wide m = w)"
proof -
  let ?total = "sum_list (map ds_n sets)"
  have tbl: "table_ok s" if "s \<in> set sets" for s using ok [OF that] by (simp add: ds_ok_def)
  have empty: "ds_keys (empty_day False) = {}" "ds_ok (empty_day False)"
    by (simp_all add: ds_keys_def empty_day_def ds_ok_def table_ok_def full_def)
  show ?thesis
  proof (cases "?total = 0")
    case True
    then have "ds_n s = 0" if "s \<in> set sets" for s using that by (simp add: sum_list_eq_0_iff)
    then have "ds_keys s = {}" if "s \<in> set sets" for s
      using that n_card [OF tbl [OF that]] by (simp add: ds_keys_def)
    then show ?thesis using True empty by (auto simp: merge_sets_def Let_def split: option.splits)
  next
    case False
    then have "sets \<noteq> []" by auto
    then obtain j where j: "largest sets 0 None sets = Some j" using largest_Some [of sets 0 None sets] by auto
    then have lt: "j < length sets" using largest_lt [OF j] by simp
    let ?into = "sets ! j" let ?ks = "concat (map (\<lambda>i. ds_each (sets ! i)) (filter (\<lambda>i. i \<noteq> j) [0..<length sets]))"
    have into: "?into \<in> set sets" using lt by simp
    then have "ds_n ?into \<le> ?total" by (simp add: member_le_sum_list)
    then obtain s1 where s1: "ds_reserve ?total ?into = Some s1" "table_ok s1" "ds_keys s1 = ds_keys ?into"
      "ds_wide s1 = w" "?total < length (ds_hs s1)" "\<not> full ?total (length (ds_hs s1))"
      using reserve_ok [of ?into ?total] ok [OF into] False by auto
    have ks: "set ?ks = \<Union> (ds_keys ` (\<lambda>i. sets ! i) ` {i. i < length sets \<and> i \<noteq> j})"
      by (auto simp: each_keys)
    have all: "ds_keys s1 \<union> set ?ks = \<Union> (ds_keys ` set sets)"
    proof -
      have "set sets = insert ?into ((\<lambda>i. sets ! i) ` {i. i < length sets \<and> i \<noteq> j})" using lt by (auto simp: in_set_conv_nth)
      then show ?thesis unfolding ks s1(3) by simp
    qed
    have small: "card (ds_keys s1 \<union> set ?ks) \<le> ?total" unfolding all by (rule card_Union_le_sum [OF tbl])
    have nz: "h \<noteq> 0 \<and> (ds_wide s1 \<or> g = 0)" if "(g, h) \<in> set ?ks" for g h
    proof -
      from that obtain i where "i < length sets" "(g, h) \<in> ds_keys (sets ! i)" unfolding ks by auto
      then show ?thesis using keys_nonzero [of g h "sets ! i"] ok [of "sets ! i"] s1(4) by simp
    qed
    obtain m where m: "insert_all ?ks s1 = Some m" "table_ok m" "ds_keys m = ds_keys s1 \<union> set ?ks"
      "length (ds_hs m) = length (ds_hs s1)" "ds_wide m = ds_wide s1"
      using insert_all_ok [OF s1(2) order.strict_trans1 [OF small s1(5)] nz] by blast
    have "merge_sets sets = Some m"
      unfolding merge_sets_def Let_def j option.case if_not_P [OF False] s1(1) by (simp only: bind.bind_lunit m(1))
    moreover have "ds_ok m" using m small s1(6) n_card [OF m(2)] by (simp add: ds_ok_def full_def)
    ultimately show ?thesis using m all s1(4) by auto
  qed
qed

section \<open>The ids of a group over the range\<close>

text \<open>\<open>grow\<close> is the capacity Go's \<open>append\<close> gives a full slice.\<close>

record dset =
  dk_keys :: "64 word list"
  dk_cap :: nat
  dk_sorted :: nat
  dk_sk :: "sketch option"

definition empty_dset :: dset where
  "empty_dset = \<lparr>dk_keys = [], dk_cap = 0, dk_sorted = 0, dk_sk = None\<rparr>"

definition print_of :: "64 word \<Rightarrow> 32 word" where
  "print_of k = ucast k"

definition dset_promote :: "dset \<Rightarrow> dset" where
  "dset_promote s = \<lparr>dk_keys = [], dk_cap = 0, dk_sorted = 0,
     dk_sk = Some (fold (\<lambda>k. sk_add (print_of k)) (dk_keys s) empty_sketch)\<rparr>"

definition dset_compact :: "dset \<Rightarrow> dset" where
  "dset_compact s =
     (if dk_sk s \<noteq> None \<or> dk_sorted s = length (dk_keys s) then s
      else let ks = remdups_adj (sort (dk_keys s)); s1 = s\<lparr>dk_keys := ks, dk_sorted := length ks\<rparr>
           in if length ks > exact_limit then dset_promote s1 else s1)"

definition dset_add :: "(nat \<Rightarrow> nat) \<Rightarrow> 64 word \<Rightarrow> dset \<Rightarrow> int \<times> dset" where
  "dset_add grow k s = (case dk_sk s of
     Some sk \<Rightarrow> (0, s\<lparr>dk_sk := Some (sk_add (print_of k) sk)\<rparr>)
   | None \<Rightarrow>
       if dk_keys s \<noteq> [] \<and> last (dk_keys s) = k then (0, s)
       else let cap = (if length (dk_keys s) = dk_cap s then grow (dk_cap s) else dk_cap s);
                s1 = s\<lparr>dk_keys := dk_keys s @ [k], dk_cap := cap\<rparr>;
                grew = (int cap - int (dk_cap s)) * 8;
                s2 = (if length (dk_keys s1) \<ge> 2 * exact_limit then dset_compact s1 else s1)
            in (if length (dk_keys s1) \<ge> 2 * exact_limit \<and> dk_sk s2 \<noteq> None
                then grew + (16384 - int (dk_cap s) * 8) else grew, s2))"

definition dset_merge :: "(nat \<Rightarrow> nat) \<Rightarrow> dset \<Rightarrow> dset \<Rightarrow> dset" where
  "dset_merge grow s t = (case dk_sk t of
     Some skt \<Rightarrow> (let s1 = (if dk_sk s = None then dset_promote s else s)
        in s1\<lparr>dk_sk := Some (sk_merge (the (dk_sk s1)) skt)\<rparr>)
   | None \<Rightarrow> fold (\<lambda>k. snd \<circ> dset_add grow k) (dk_keys t) s)"

definition dset_count :: "(nat list \<Rightarrow> nat) \<Rightarrow> dset \<Rightarrow> nat \<times> bool" where
  "dset_count est s = (let s1 = dset_compact s in case dk_sk s1 of
     Some sk \<Rightarrow> (fst (sk_count est sk), True) | None \<Rightarrow> (length (dk_keys s1), False))"

text \<open>Keys while exact; past the limit the sketch of their fingerprints.\<close>

definition dset_rep :: "dset \<Rightarrow> 64 word set \<Rightarrow> bool" where
  "dset_rep s K \<longleftrightarrow> finite K \<and> (case dk_sk s of
     None \<Rightarrow> set (dk_keys s) = K \<and> dk_sorted s \<le> length (dk_keys s) \<and> dk_sorted s \<le> exact_limit
       \<and> (dk_sorted s = length (dk_keys s) \<longrightarrow> distinct (dk_keys s))
   | Some sk \<Rightarrow> sk_rep sk (print_of ` K) \<and> card K > exact_limit)"

lemma fold_sk_add: "fold (\<lambda>k. sk_add (print_of k)) ks s = fold sk_add (map print_of ks) s"
  by (simp add: fold_map comp_def)

lemma dset_promote_sk: "\<exists>sk. dk_sk (dset_promote s) = Some sk \<and> sk_rep sk (print_of ` set (dk_keys s))"
  using hll.rep_all [of "map print_of (dk_keys s)"] by (simp add: dset_promote_def fold_sk_add)

lemma dset_compact_rep:
  assumes none: "dk_sk s = None" and keys: "set (dk_keys s) = K" and small: "dk_sorted s \<le> exact_limit"
    and srt: "dk_sorted s = length (dk_keys s) \<longrightarrow> distinct (dk_keys s)"
  shows "dset_rep (dset_compact s) K \<and> (dk_sk (dset_compact s) = None \<longleftrightarrow> card K \<le> exact_limit)
    \<and> (dk_sk (dset_compact s) = None \<longrightarrow> length (dk_keys (dset_compact s)) = card K)"
proof -
  have fin: "finite K" using keys by auto
  have card: "length (remdups_adj (sort (dk_keys s))) = card K"
    using sorted_unique [of "dk_keys s"] keys by (metis distinct_card)
  consider "dk_sorted s = length (dk_keys s)" | "dk_sorted s \<noteq> length (dk_keys s)" "card K \<le> exact_limit"
    | "dk_sorted s \<noteq> length (dk_keys s)" "card K > exact_limit" by linarith
  then show ?thesis
  proof cases
    case 1
    then have "card K = length (dk_keys s)" using srt keys by (metis distinct_card)
    then show ?thesis using 1 none keys small fin srt by (simp add: dset_compact_def dset_rep_def)
  next
    case 2
    then show ?thesis using none card sorted_unique [of "dk_keys s"] keys fin
      by (simp add: dset_compact_def dset_rep_def Let_def)
  next
    case 3
    let ?s = "s\<lparr>dk_keys := remdups_adj (sort (dk_keys s)), dk_sorted := length (remdups_adj (sort (dk_keys s)))\<rparr>"
    have "dset_compact s = dset_promote ?s" using 3 none card by (simp add: dset_compact_def Let_def)
    moreover obtain sk where "dk_sk (dset_promote ?s) = Some sk" "sk_rep sk (print_of ` K)"
      using dset_promote_sk [of ?s] sorted_unique(1) [of "dk_keys s"] keys by auto
    ultimately show ?thesis using 3 fin by (simp add: dset_rep_def)
  qed
qed

lemma dset_add_rep:
  assumes "dset_rep s K"
  shows "dset_rep (snd (dset_add grow k s)) (insert k K)"
proof (cases "dk_sk s")
  case (Some sk)
  then have "card K \<le> card (insert k K)" using assms by (simp add: dset_rep_def card_insert_le)
  then show ?thesis using assms Some sk_add_rep [of sk "print_of ` K" "print_of k"]
    by (simp add: dset_rep_def dset_add_def)
next
  case None
  show ?thesis
  proof (cases "dk_keys s \<noteq> [] \<and> last (dk_keys s) = k")
    case True
    then have "k \<in> K" using assms None by (auto simp: dset_rep_def)
    then show ?thesis using assms None True by (simp add: dset_add_def insert_absorb)
  next
    case False
    define cap where "cap = (if length (dk_keys s) = dk_cap s then grow (dk_cap s) else dk_cap s)"
    let ?s = "s\<lparr>dk_keys := dk_keys s @ [k], dk_cap := cap\<rparr>"
    have e: "snd (dset_add grow k s) = (if length (dk_keys ?s) \<ge> 2 * exact_limit then dset_compact ?s else ?s)"
      using None False by (simp only: dset_add_def option.case Let_def if_False cap_def snd_conv)
    have "dk_sk ?s = None" "set (dk_keys ?s) = insert k K" "dk_sorted ?s \<le> exact_limit" "dk_sorted ?s < length (dk_keys ?s)"
      using assms None by (auto simp: dset_rep_def)
    then show ?thesis unfolding e using dset_compact_rep [of ?s "insert k K"] assms by (simp add: dset_rep_def)
  qed
qed

lemma dset_adds_rep: "dset_rep s K \<Longrightarrow> dset_rep (fold (\<lambda>k. snd \<circ> dset_add grow k) ks s) (K \<union> set ks)"
proof (induction ks arbitrary: s K)
  case (Cons k ks)
  from Cons.IH [OF dset_add_rep [OF Cons.prems]] show ?case by simp
qed simp

lemma dset_merge_rep:
  assumes s: "dset_rep s S" and t: "dset_rep t T"
  shows "dset_rep (dset_merge grow s t) (S \<union> T)"
proof (cases "dk_sk t")
  case None
  then have "set (dk_keys t) = T" using t by (simp add: dset_rep_def)
  then show ?thesis using dset_adds_rep [OF s, of grow "dk_keys t"] None by (simp add: dset_merge_def)
next
  case (Some skt)
  have big: "exact_limit < card (S \<union> T)" using s t Some by (intro card_Un_big) (simp_all add: dset_rep_def)
  let ?s = "if dk_sk s = None then dset_promote s else s"
  obtain sk where sk: "dk_sk ?s = Some sk" "sk_rep sk (print_of ` S)"
    using dset_promote_sk [of s] s by (cases "dk_sk s") (auto simp: dset_rep_def)
  have "sk_rep skt (print_of ` T)" using t Some by (simp add: dset_rep_def)
  from sk_merge_rep [OF sk(2) this] have "sk_rep (sk_merge sk skt) (print_of ` (S \<union> T))" by (simp add: image_Un)
  moreover have "dset_merge grow s t = ?s\<lparr>dk_sk := Some (sk_merge sk skt)\<rparr>"
    using Some sk(1) by (simp only: dset_merge_def option.case Let_def option.sel)
  ultimately show ?thesis using big s t by (simp add: dset_rep_def)
qed

lemma empty_dset_rep: "dset_rep empty_dset {}"
  by (simp add: dset_rep_def empty_dset_def exact_limit_def)

interpretation ids: union_counter dset_rep empty_dset "\<lambda>k. snd \<circ> dset_add grow k" "dset_merge grow" for grow
  by unfold_locales (rule empty_dset_rep, simp add: dset_add_rep, erule (1) dset_merge_rep)

lemma dset_rep_count:
  assumes "dset_rep s K"
  shows "card K \<le> 1024 \<Longrightarrow> dset_count est s = (card K, False)"
    and "1024 < card K \<Longrightarrow> \<exists>sk. sk_rep sk (print_of ` K) \<and> dset_count est s = (fst (sk_count est sk), True)"
proof -
  have "dset_rep (dset_compact s) K \<and> (dk_sk (dset_compact s) = None \<longleftrightarrow> card K \<le> exact_limit)
    \<and> (dk_sk (dset_compact s) = None \<longrightarrow> length (dk_keys (dset_compact s)) = card K)"
  proof (cases "dk_sk s")
    case None
    then show ?thesis using assms by (intro dset_compact_rep) (simp_all add: dset_rep_def)
  next
    case (Some sk)
    then have "dset_compact s = s" by (simp add: dset_compact_def)
    then show ?thesis using assms Some by (simp add: dset_rep_def)
  qed
  then show "card K \<le> 1024 \<Longrightarrow> dset_count est s = (card K, False)"
    and "1024 < card K \<Longrightarrow> \<exists>sk. sk_rep sk (print_of ` K) \<and> dset_count est s = (fst (sk_count est sk), True)"
    by (auto simp: dset_count_def Let_def exact_limit_def dset_rep_def split: option.splits)
qed

section \<open>Runs\<close>

text \<open>
  \<open>runsOf\<close>: a key of a day as its group shifted left, the low bit set for the NULL key; sorted,
  each group's codes are together. The walk opens a run at a new group and counts its even codes.
\<close>

definition code_of :: "32 word \<times> 64 word \<Rightarrow> nat" where
  "code_of k = 2 * unat (fst k) + (if snd k = null_key then 1 else 0)"

fun walk :: "nat \<Rightarrow> nat \<Rightarrow> nat option \<Rightarrow> nat list \<Rightarrow> (nat \<times> nat) list \<Rightarrow> (nat \<times> nat) list" where
  "walk nd d prev [] out = out"
| "walk nd d prev (c # cs) out =
     (let out1 = (if prev = Some (c div 2) then out else out @ [(c div 2 * nd + d, 0)]);
          out2 = (if even c then butlast out1 @ [(fst (last out1), snd (last out1) + 1)] else out1)
      in walk nd d (Some (c div 2)) cs out2)"

fun runs_days :: "nat \<Rightarrow> nat \<Rightarrow> day_set list \<Rightarrow> (nat \<times> nat) list \<Rightarrow> (nat \<times> nat) list" where
  "runs_days nd d [] out = out"
| "runs_days nd d (s # ss) out = runs_days nd (d + 1) ss (walk nd d None (sort (map code_of (ds_each s))) out)"

definition runs_of :: "day_set list \<Rightarrow> (nat \<times> nat) list" where
  "runs_of days = sort_key fst (runs_days (length days) 0 days [])"

text \<open>The ids of group \<open>g\<close> in a day.\<close>

definition ids_in :: "day_set \<Rightarrow> nat \<Rightarrow> nat" where
  "ids_in s g = card {k \<in> ds_keys s. unat (fst k) = g \<and> snd k \<noteq> null_key}"

definition groups_in :: "day_set \<Rightarrow> nat set" where
  "groups_in s = (unat \<circ> fst) ` ds_keys s"

definition evens :: "nat \<Rightarrow> nat list \<Rightarrow> nat" where
  "evens p cs = length (filter (\<lambda>c. c = 2 * p) cs)"

lemma remdups_adj_min:
  "sorted (q # xs) \<Longrightarrow> remdups_adj (q # xs) = q # remdups_adj (filter (\<lambda>g. g \<noteq> (q :: nat)) xs)"
proof (induction xs)
  case (Cons x xs)
  show ?case
  proof (cases "x = q")
    case False
    then have "filter (\<lambda>g. g \<noteq> q) (x # xs) = x # xs" using Cons.prems by (fastforce simp: filter_id_conv)
    then show ?thesis using False by simp
  qed (use Cons in simp)
qed simp

lemma walk_open:
  assumes "sorted cs" and "\<And>c. c \<in> set cs \<Longrightarrow> p \<le> c div 2"
  shows "walk nd d (Some p) cs (out @ [(p * nd + d, n)])
    = out @ (p * nd + d, n + evens p cs)
      # map (\<lambda>g. (g * nd + d, evens g cs)) (remdups_adj (filter (\<lambda>g. g \<noteq> p) (map (\<lambda>c. c div 2) cs)))"
  using assms
proof (induction cs arbitrary: p out n)
  case (Cons c cs)
  let ?rest = "\<lambda>q. remdups_adj (filter (\<lambda>g. g \<noteq> q) (map (\<lambda>c. c div 2) cs))"
  have ge: "\<And>x. x \<in> set cs \<Longrightarrow> c div 2 \<le> x div 2" using Cons.prems(1) by (auto intro: div_le_mono)
  show ?case
  proof (cases "c div 2 = p")
    case True
    then have ev: "evens p (c # cs) = of_bool (even c) + evens p cs"
    proof -
      have "(c = 2 * p) = even c" using True by presburger
      then show ?thesis by (simp add: evens_def)
    qed
    have other: "evens g (c # cs) = evens g cs" if "g \<in> set (?rest p)" for g using that True by (auto simp: evens_def)
    have "walk nd d (Some p) (c # cs) (out @ [(p * nd + d, n)])
        = walk nd d (Some p) cs (out @ [(p * nd + d, n + of_bool (even c))])" using True by (simp add: Let_def)
    also have "\<dots> = out @ (p * nd + d, n + of_bool (even c) + evens p cs) # map (\<lambda>g. (g * nd + d, evens g cs)) (?rest p)"
      by (rule Cons.IH) (use Cons.prems ge True in auto)
    finally show ?thesis using True ev other by (simp cong: map_cong)
  next
    case False
    define q where "q = c div 2"
    have "p < q" using Cons.prems(2) [of c] False by (simp add: q_def)
    have evp: "evens p (c # cs) = 0" using ge \<open>p < q\<close> by (fastforce simp: evens_def filter_empty_conv q_def)
    have evq: "evens q (c # cs) = of_bool (even c) + evens q cs"
    proof -
      have "(c = 2 * q) = even c" unfolding q_def by presburger
      then show ?thesis by (simp add: evens_def)
    qed
    have gs: "remdups_adj (filter (\<lambda>g. g \<noteq> p) (map (\<lambda>c. c div 2) (c # cs))) = q # ?rest q"
    proof -
      have "filter (\<lambda>g. g \<noteq> p) (map (\<lambda>c. c div 2) cs) = map (\<lambda>c. c div 2) cs"
        using ge \<open>p < q\<close> by (force simp: filter_id_conv q_def)
      moreover have "sorted (q # map (\<lambda>c. c div 2) cs)" using Cons.prems(1) ge
        by (auto simp: q_def sorted_map intro: div_le_mono elim: sorted_wrt_mono_rel [rotated])
      ultimately show ?thesis using \<open>p < q\<close> remdups_adj_min [of q "map (\<lambda>c. c div 2) cs"] by (simp add: q_def)
    qed
    have other: "evens g (c # cs) = evens g cs" if "g \<in> set (?rest q)" for g using that by (auto simp: evens_def q_def)
    have "walk nd d (Some p) (c # cs) (out @ [(p * nd + d, n)])
        = walk nd d (Some q) cs ((out @ [(p * nd + d, n)]) @ [(q * nd + d, 0 + of_bool (even c))])"
      using False by (simp add: Let_def q_def butlast_append)
    also have "\<dots> = (out @ [(p * nd + d, n)]) @ (q * nd + d, 0 + of_bool (even c) + evens q cs)
        # map (\<lambda>g. (g * nd + d, evens g cs)) (?rest q)"
      by (rule Cons.IH) (use Cons.prems(1) ge in \<open>auto simp: q_def\<close>)
    finally show ?thesis unfolding gs evp using evq other by (simp cong: map_cong)
  qed
qed (simp add: evens_def)

lemma walk_day:
  assumes "sorted cs"
  shows "walk nd d None cs out = out @ map (\<lambda>g. (g * nd + d, evens g cs)) (remdups_adj (map (\<lambda>c. c div 2) cs))"
proof (cases cs)
  case (Cons c cs')
  let ?q = "c div 2"
  have ge: "\<And>x. x \<in> set cs' \<Longrightarrow> ?q \<le> x div 2" using assms Cons by (auto intro: div_le_mono)
  have s: "sorted (?q # map (\<lambda>c. c div 2) cs')" using assms Cons ge
    by (auto simp: sorted_map intro: div_le_mono elim: sorted_wrt_mono_rel [rotated])
  have "(c = 2 * ?q) = even c" by presburger
  then have ev: "evens ?q cs = of_bool (even c) + evens ?q cs'" by (simp add: evens_def Cons)
  have other: "evens g cs = evens g cs'" if "g \<in> set (remdups_adj (filter (\<lambda>g. g \<noteq> ?q) (map (\<lambda>c. c div 2) cs')))" for g
    using that by (auto simp: evens_def Cons)
  have "walk nd d None cs out = walk nd d (Some ?q) cs' (out @ [(?q * nd + d, 0 + of_bool (even c))])"
    by (simp add: Cons Let_def)
  also have "\<dots> = out @ (?q * nd + d, 0 + of_bool (even c) + evens ?q cs')
        # map (\<lambda>g. (g * nd + d, evens g cs')) (remdups_adj (filter (\<lambda>g. g \<noteq> ?q) (map (\<lambda>c. c div 2) cs')))"
    by (rule walk_open) (use assms Cons ge in auto)
  finally show ?thesis using ev other remdups_adj_min [OF s] by (simp add: Cons cong: map_cong)
qed simp

lemma evens_ids:
  assumes "table_ok s"
  shows "evens g (sort (map code_of (ds_each s))) = ids_in s g"
proof -
  have "evens g (sort cs) = evens g cs" for cs
    unfolding evens_def by (metis (no_types) filter_sort length_sort)
  then have "evens g (sort (map code_of (ds_each s))) = length (filter (\<lambda>k. code_of k = 2 * g) (ds_each s))"
    by (simp add: evens_def filter_map comp_def)
  also have "\<dots> = card (set (filter (\<lambda>k. code_of k = 2 * g) (ds_each s)))"
    using each_distinct [OF assms] by (metis distinct_card distinct_filter)
  also have "set (filter (\<lambda>k. code_of k = 2 * g) (ds_each s)) = {k \<in> ds_keys s. unat (fst k) = g \<and> snd k \<noteq> null_key}"
  proof -
    have "(code_of k = 2 * g) = (unat (fst k) = g \<and> snd k \<noteq> null_key)" for k
      unfolding code_of_def by (cases "snd k = null_key") presburger+
    then show ?thesis by (simp add: each_keys)
  qed
  finally show ?thesis by (simp add: ids_in_def)
qed

text \<open>One run for each group of each day, with the day's distinct ids of the group.\<close>

lemma runs_day_ok:
  assumes "table_ok s"
  shows "set (walk nd d None (sort (map code_of (ds_each s))) out) = set out \<union> (\<lambda>g. (g * nd + d, ids_in s g)) ` groups_in s"
proof -
  have "(\<lambda>c. c div 2) ` code_of ` ds_keys s = groups_in s" by (force simp: code_of_def groups_in_def image_iff)
  then show ?thesis unfolding walk_day [OF sorted_sort] using evens_ids [OF assms]
    by (auto simp: each_keys simp flip: each_keys)
qed

lemma runs_days_ok:
  assumes "\<And>s. s \<in> set days \<Longrightarrow> table_ok s"
  shows "set (runs_days nd d days out) = set out
    \<union> (\<Union>i < length days. (\<lambda>g. (g * nd + (d + i), ids_in (days ! i) g)) ` groups_in (days ! i))"
  using assms
proof (induction days arbitrary: d out)
  case (Cons s ss)
  have un: "(\<Union>i < length (s # ss). f i) = f 0 \<union> (\<Union>i < length ss. f (Suc i))" for f :: "nat \<Rightarrow> (nat \<times> nat) set"
    by (auto simp: lessThan_Suc_eq_insert_0)
  show ?case unfolding un using Cons.IH Cons.prems runs_day_ok [of s nd d out] by (simp add: Un_assoc)
qed simp

lemma sorted_halves: "sorted cs \<Longrightarrow> sorted (map (\<lambda>c. c div 2) (cs :: nat list))"
  by (simp add: sorted_map) (rule sorted_wrt_mono_rel [of _ "(\<le>)"], auto intro: div_le_mono)

lemma runs_days_cells:
  assumes "\<And>s. s \<in> set days \<Longrightarrow> table_ok s" and "d + length days \<le> nd"
  shows "\<exists>rs. runs_days nd d days out = out @ rs \<and> distinct (map fst rs) \<and> (\<forall>c \<in> fst ` set rs. d \<le> c mod nd)"
  using assms
proof (induction days arbitrary: d out)
  case (Cons s ss)
  define day where "day = map (\<lambda>g. (g * nd + d, evens g (sort (map code_of (ds_each s)))))
    (remdups_adj (map (\<lambda>c. c div 2) (sort (map code_of (ds_each s)))))"
  have w: "walk nd d None (sort (map code_of (ds_each s))) out = out @ day"
    unfolding day_def by (rule walk_day [OF sorted_sort])
  have "sorted (map (\<lambda>c. c div 2) (sort (map code_of (ds_each s))))"
    by (intro sorted_halves sorted_sort)
  from distinct_sorted_adj [OF this] have dist: "distinct (map fst day)"
    using Cons.prems(2) by (auto simp: day_def comp_def distinct_map inj_on_def)
  have mods: "c mod nd = d" if "c \<in> fst ` set day" for c using that Cons.prems(2) by (auto simp: day_def)
  obtain rs where rs: "runs_days nd (d + 1) ss (out @ day) = (out @ day) @ rs" "distinct (map fst rs)"
    "\<forall>c \<in> fst ` set rs. d + 1 \<le> c mod nd" using Cons.IH [of "d + 1" "out @ day"] Cons.prems by auto
  have "fst ` set day \<inter> fst ` set rs = {}" using mods rs(3) by (metis disjoint_iff not_less_eq_eq order_refl Suc_eq_plus1)
  then have "distinct (map fst (day @ rs))" using dist rs(2) by simp
  moreover have "\<forall>c \<in> fst ` set (day @ rs). d \<le> c mod nd" using mods rs(3) by (auto dest: bspec Suc_leD)
  ultimately show ?case using rs(1) by (intro exI [of _ "day @ rs"]) (simp add: w)
qed simp

section \<open>Properties\<close>

fun ds_adds :: "(32 word \<times> 64 word) list \<Rightarrow> int \<times> day_set \<Rightarrow> (int \<times> day_set) option" where
  "ds_adds [] (b, s) = Some (b, s)"
| "ds_adds ((g, h) # ks) (b, s) = Option.bind (ds_add g h s) (\<lambda>(grew, s1). ds_adds ks (b + grew, s1))"

lemma ds_adds_ok:
  assumes "ds_ok s" and "\<And>g h. (g, h) \<in> set ks \<Longrightarrow> h \<noteq> 0 \<and> (ds_wide s \<or> g = 0)" and "b = int (length (ds_hs s)) * slot_bytes s"
  shows "\<exists>b' s'. ds_adds ks (b, s) = Some (b', s') \<and> ds_ok s' \<and> ds_keys s' = ds_keys s \<union> set ks
    \<and> b' = int (length (ds_hs s')) * slot_bytes s' \<and> ds_wide s' = ds_wide s"
  using assms
proof (induction ks arbitrary: s b)
  case (Cons k ks)
  obtain g h where k: "k = (g, h)" by (cases k)
  have gh: "h \<noteq> 0" "ds_wide s \<or> g = 0" using Cons.prems(2) [of g h] k by auto
  obtain s1 grew where s1: "ds_add g h s = Some (grew, s1)" "ds_ok s1" "ds_keys s1 = insert (g, h) (ds_keys s)"
    "ds_wide s1 = ds_wide s" "grew = (int (length (ds_hs s1)) - int (length (ds_hs s))) * slot_bytes s" "0 \<le> grew"
    by (rule add_ok [OF Cons.prems(1) gh])
  have sb: "slot_bytes s1 = slot_bytes s" using s1(4) by (simp add: slot_bytes_def)
  have b: "b + grew = int (length (ds_hs s1)) * slot_bytes s1" unfolding sb s1(5) Cons.prems(3) by (simp add: algebra_simps)
  have "\<exists>b' s'. ds_adds ks (b + grew, s1) = Some (b', s') \<and> ds_ok s' \<and> ds_keys s' = ds_keys s1 \<union> set ks
    \<and> b' = int (length (ds_hs s')) * slot_bytes s' \<and> ds_wide s' = ds_wide s1"
    by (rule Cons.IH [OF s1(2) _ b]) (use Cons.prems(2) s1(4) in auto)
  then show ?case using s1 k by auto
qed simp

lemma empty_day_ok: "ds_ok (empty_day w)" "ds_keys (empty_day w) = {}" "ds_wide (empty_day w) = w"
  by (simp_all add: empty_day_def ds_ok_def table_ok_def full_def ds_keys_def)

lemma day_of_keys:
  assumes "\<And>g h. (g, h) \<in> set ks \<Longrightarrow> h \<noteq> 0 \<and> (w \<or> g = 0)"
  shows "\<exists>s. ds_ok s \<and> ds_wide s = w \<and> ds_keys s = set ks"
  using ds_adds_ok [of "empty_day w" ks 0] assms empty_day_ok by (auto simp: empty_day_def)

text \<open> C27:
  The table of a day is a set. Adding any keys to an empty one ends (the probe always meets a
  free slot), leaves exactly the distinct keys, each once, with at most 85\% of the slots taken,
  and the bytes charged add up to the table's.
\<close>

theorem day_set_adds:
  assumes "\<And>g h. (g, h) \<in> set ks \<Longrightarrow> h \<noteq> 0 \<and> (w \<or> g = 0)"
  shows "\<exists>b s. ds_adds ks (0, empty_day w) = Some (b, s) \<and> set (ds_each s) = set ks \<and> distinct (ds_each s)
    \<and> ds_n s = card (set ks) \<and> 20 * ds_n s \<le> 17 * length (ds_hs s)
    \<and> b = int (length (ds_hs s)) * (if w then 12 else 8)"
proof -
  have "0 = int (length (ds_hs (empty_day w))) * slot_bytes (empty_day w)" by (simp add: empty_day_def)
  with ds_adds_ok [of "empty_day w" ks 0] assms obtain b s where s: "ds_adds ks (0, empty_day w) = Some (b, s)"
    "ds_ok s" "ds_keys s = set ks" "b = int (length (ds_hs s)) * slot_bytes s" "ds_wide s = w"
    using empty_day_ok by (auto simp: empty_day_def)
  then show ?thesis using each_keys [of s] each_distinct [of s] n_card [of s]
    by (auto simp: ds_ok_def full_def slot_bytes_def)
qed

theorem day_set_adds_witness:
  "\<exists>b s. ds_adds [(1, 5), (2, 5), (1, 5), (1, 1)] (0, empty_day True) = Some (b, s) \<and> ds_n s = 3"
proof -
  have "card (set [(1, 5), (2, 5), (1, 5), (1 :: 32 word, 1 :: 64 word)]) = 3" by (simp add: card_insert_if)
  moreover have "h \<noteq> 0 \<and> (True \<or> g = 0)" if "(g, h) \<in> set [(1, 5), (2, 5), (1, 5), (1 :: 32 word, 1 :: 64 word)]" for g h
    using that by auto
  note day_set_adds [OF this]
  ultimately show ?thesis by metis
qed

text \<open> C28:
  Merging the workers' tables of one day, however many, into the largest gives a table of the
  union of their keys, again with free slots; nothing of any of them is lost.
\<close>

theorem merge_sets_union:
  assumes "\<And>s. s \<in> set sets \<Longrightarrow> ds_ok s \<and> ds_wide s = w"
  shows "\<exists>m. merge_sets sets = Some m \<and> set (ds_each m) = \<Union> (set ` ds_each ` set sets) \<and> ds_ok m"
  using merge_sets_ok [of sets w, OF assms] by (simp add: each_keys image_image) blast

text \<open>Two tables of ten keys each, five of them shared: the one that takes the other has to grow.\<close>

definition low_keys :: "(32 word \<times> 64 word) list" where
  "low_keys = [(1, 2), (1, 3), (1, 4), (1, 5), (1, 6), (1, 7), (2, 8), (2, 9), (2, 10), (2, 11)]"

definition high_keys :: "(32 word \<times> 64 word) list" where
  "high_keys = [(1, 7), (2, 8), (2, 9), (2, 10), (2, 11), (3, 2), (3, 3), (3, 4), (3, 5), (3, 6)]"

theorem merge_sets_union_witness:
  "\<exists>s t m. ds_keys s = set low_keys \<and> ds_keys t = set high_keys \<and> ds_n s + ds_n t = 20 \<and> reserve_size 20 16 = 24
    \<and> merge_sets [s, t] = Some m \<and> set (ds_each m) = set low_keys \<union> set high_keys \<and> card (set (ds_each m)) = 15"
proof -
  have nz: "h \<noteq> 0 \<and> (True \<or> g = 0)" if "(g, h) \<in> set low_keys \<union> set high_keys" for g h
    using that by (auto simp: low_keys_def high_keys_def)
  obtain s t where s: "ds_ok s" "ds_wide s" "ds_keys s = set low_keys" and t: "ds_ok t" "ds_wide t" "ds_keys t = set high_keys"
  proof -
    have "\<exists>s. ds_ok s \<and> ds_wide s = True \<and> ds_keys s = set low_keys"
      by (rule day_of_keys) (use nz in blast)
    moreover have "\<exists>s. ds_ok s \<and> ds_wide s = True \<and> ds_keys s = set high_keys"
      by (rule day_of_keys) (use nz in blast)
    ultimately show thesis using that by blast
  qed
  have "\<exists>m. merge_sets [s, t] = Some m \<and> set (ds_each m) = \<Union> (set ` ds_each ` set [s, t]) \<and> ds_ok m"
    by (rule merge_sets_union [where w = True]) (use s t in auto)
  then obtain m where m: "merge_sets [s, t] = Some m"
    "set (ds_each m) = \<Union> (set ` ds_each ` set [s, t])" by (elim exE conjE) (rule that)
  have "set (ds_each m) = set low_keys \<union> set high_keys" unfolding m(2) by (simp add: each_keys s(3) t(3))
  moreover have "ds_n s = 10" "ds_n t = 10"
    using s t n_card [of s] n_card [of t] by (simp_all add: ds_ok_def low_keys_def high_keys_def)
  moreover have "card (set low_keys \<union> set high_keys) = 15" by (simp add: low_keys_def high_keys_def card_insert_if)
  moreover have "reserve_size 20 16 = 24" by (simp add: reserve_size.simps full_def)
  ultimately show ?thesis using s(3) t(3) m(1) by (intro exI [of _ s] exI [of _ t] exI [of _ m]) simp
qed

text \<open>
  The runs of the days' tables: in cell order, one for each group with a key on a day, each cell
  once, counting the group's distinct ids of that day, the NULL key not among them.
\<close>

theorem runs_of_counts:
  assumes "\<And>s. s \<in> set days \<Longrightarrow> ds_ok s"
  shows "sorted (map fst (runs_of days)) \<and> distinct (map fst (runs_of days))
    \<and> set (runs_of days) = (\<Union>d < length days. (\<lambda>g. (g * length days + d, ids_in (days ! d) g)) ` groups_in (days ! d))"
proof -
  have ok: "\<And>s. s \<in> set days \<Longrightarrow> table_ok s" using assms by (simp add: ds_ok_def)
  obtain rs where rs: "runs_days (length days) 0 days [] = rs" "distinct (map fst rs)"
    using runs_days_cells [where days = days and d = 0 and nd = "length days" and out = "[]"] ok by auto
  have "set (runs_of days) = set rs" by (simp add: runs_of_def rs(1))
  moreover have "distinct (map fst (sort_key fst rs))" using rs(2)
    by (metis (no_types) distinct_map distinct_sort set_sort)
  ultimately show ?thesis using runs_days_ok [where days = days and d = 0 and nd = "length days" and out = "[]"] ok by (simp add: runs_of_def rs(1))
qed

theorem runs_of_counts_witness:
  "\<exists>s. ds_keys s = {(1, 5), (0, 7), (1, 1), (1, 9)} \<and> sorted (map fst (runs_of [s, empty_day True]))
    \<and> (2, 2) \<in> set (runs_of [s, empty_day True])"
proof -
  obtain s where s: "ds_ok s" "ds_keys s = {(1, 5), (0, 7), (1, 1), (1, 9)}"
  proof -
    have nz: "h \<noteq> 0 \<and> (True \<or> g = 0)" if gh: "(g, h) \<in> set [(1, 5), (0, 7), (1, 1), (1 :: 32 word, 9 :: 64 word)]" for g h
      using gh by auto
    have "\<exists>s. ds_ok s \<and> ds_keys s = set [(1, 5), (0, 7), (1, 1), (1, 9)]" using day_of_keys [OF nz] by blast
    then show thesis using that by auto
  qed
  have "{k \<in> ds_keys s. unat (fst k) = 1 \<and> snd k \<noteq> null_key} = {(1, 5), (1, 9)}"
    unfolding s(2) by (auto simp: null_key_def)
  then have "ids_in s 1 = 2" "1 \<in> groups_in s" using s(2) by (simp_all add: ids_in_def groups_in_def)
  then have "(2, 2) \<in> (\<lambda>g. (g * 2 + 0, ids_in s g)) ` groups_in s" by (force simp: image_iff)
  moreover have "ds_ok x" if "x \<in> set [s, empty_day True]" for x using that s(1) empty_day_ok by auto
  note runs_of_counts [of "[s, empty_day True]", OF this]
  ultimately show ?thesis using s(2) by (intro exI [of _ s]) (simp add: lessThan_Suc_eq_insert_0 numeral_2_eq_2)
qed

text \<open> C25:
  A group's distinct ids over the range depend on the set of keys only, however they are split
  over workers and merged: up to 1024 keys the count is theirs and exact, above it is the count of
  a sketch of their fingerprints.
\<close>

theorem distinct_ids_count:
  assumes "\<Union> (set ` set parts) = set ks"
  shows "dset_count est (fold (\<lambda>p s. dset_merge grow s (fold (\<lambda>k. snd \<circ> dset_add grow k) p empty_dset)) parts empty_dset)
    = (if card (set ks) \<le> 1024 then (card (set ks), False)
       else (fst (sk_count est (fold sk_add (map print_of ks) empty_sketch)), True))"
proof -
  have rep: "dset_rep (fold (\<lambda>p s. dset_merge grow s (fold (\<lambda>k. snd \<circ> dset_add grow k) p empty_dset)) parts empty_dset) (set ks)"
    using ids.rep_merge_all [of grow parts] by (simp add: assms)
  have one: "sk_rep (fold sk_add (map print_of ks) empty_sketch) (print_of ` set ks)"
    using hll.rep_all [of "map print_of ks"] by simp
  have same: "fst (sk_count est sk) = fst (sk_count est (fold sk_add (map print_of ks) empty_sketch))"
    if "sk_rep sk (print_of ` set ks)" for sk
    using sk_rep_count(2,3) [OF that, of est] sk_rep_count(2,3) [OF one, of est] by (metis not_less)
  show ?thesis
  proof (cases "card (set ks) \<le> 1024")
    case True
    then show ?thesis using dset_rep_count(1) [OF rep] by simp
  next
    case False
    then obtain sk where "sk_rep sk (print_of ` set ks)"
      "dset_count est (fold (\<lambda>p s. dset_merge grow s (fold (\<lambda>k. snd \<circ> dset_add grow k) p empty_dset)) parts empty_dset)
        = (fst (sk_count est sk), True)" using dset_rep_count(2) [OF rep, of est] by auto
    then show ?thesis using False same by simp
  qed
qed

theorem distinct_ids_count_witness:
  "dset_count sum_list (fold (\<lambda>p s. dset_merge (\<lambda>n. 2 * n + 1) s (fold (\<lambda>k. snd \<circ> dset_add (\<lambda>n. 2 * n + 1) k) p empty_dset))
     [[3, 5, 3], [5, 7], []] empty_dset) = (3, False)"
proof -
  have "\<Union> (set ` set [[3, 5, 3], [5, 7], []]) = set [7, 5, 3 :: 64 word]" by auto
  moreover have "card (set [7, 5, 3 :: 64 word]) = 3" by simp
  ultimately show ?thesis using distinct_ids_count [of "[[3, 5, 3], [5, 7], []]" "[7, 5, 3]" sum_list "\<lambda>n. 2 * n + 1"] by simp
qed

end
