(* ===== verification/NativeBatch.thy ===== *)
theory NativeBatch
  imports Prelude "HOL-Library.AList"
begin

text \<open>
  The column batches the native engine reads files into (\<^verbatim>\<open>internal/native/batch.go\<close>): a column
  holds text as indices into a dictionary (-1 for NULL), or numbers, floats or times with the
  rows that are NULL. A Go map of columns is an association list with distinct keys, in the order
  a range over it takes, which is any order. A nil slice is \<open>None\<close>. A float is an opaque \<open>'f\<close>.
  \<open>strings.EqualFold\<close> is equality under the parameter \<open>low\<close>, the folded form of a name.
\<close>

section \<open>Columns\<close>

record 'f column =
  c_dict :: "string list"
  c_idx :: "int list option"
  c_ints :: "int list option"
  c_floats :: "'f list option"
  c_times :: "int list option"
  c_null :: "bool list option"

record 'f batch =
  b_n :: nat
  b_cols :: "(string \<times> 'f column) list"

text \<open>What a row of a column holds.\<close>

datatype 'f cell = Null | Text string | Num int | Float 'f | Time int

definition is_null :: "'f column \<Rightarrow> nat \<Rightarrow> bool" where
  "is_null c i \<longleftrightarrow> (case c_null c of None \<Rightarrow> False | Some ns \<Rightarrow> ns ! i)"

definition cell_at :: "'f column \<Rightarrow> nat \<Rightarrow> 'f cell" where
  "cell_at c i = (case c_idx c of
     Some idx \<Rightarrow> if idx ! i < 0 then Null else Text (c_dict c ! nat (idx ! i))
   | None \<Rightarrow> if is_null c i then Null
       else (case c_ints c of Some ns \<Rightarrow> Num (ns ! i)
         | None \<Rightarrow> (case c_floats c of Some fs \<Rightarrow> Float (fs ! i)
           | None \<Rightarrow> (case c_times c of Some ts \<Rightarrow> Time (ts ! i) | None \<Rightarrow> Null))))"

text \<open>
  A column of \<open>n\<close> rows: of one type, its slices as long as it has rows, its indices into its
  dictionary.
\<close>

definition column_ok :: "nat \<Rightarrow> 'f column \<Rightarrow> bool" where
  "column_ok n c \<longleftrightarrow>
     (\<forall>xs. c_idx c = Some xs \<longrightarrow> length xs = n \<and> (\<forall>x \<in> set xs. x < int (length (c_dict c)))
        \<and> c_ints c = None \<and> c_floats c = None \<and> c_times c = None)
     \<and> (\<forall>xs. c_ints c = Some xs \<longrightarrow> length xs = n \<and> c_floats c = None \<and> c_times c = None)
     \<and> (\<forall>xs. c_floats c = Some xs \<longrightarrow> length xs = n \<and> c_times c = None)
     \<and> (\<forall>xs. c_times c = Some xs \<longrightarrow> length xs = n)
     \<and> (\<forall>ns. c_null c = Some ns \<longrightarrow> length ns = n)"

definition batch_ok :: "'f batch \<Rightarrow> bool" where
  "batch_ok b \<longleftrightarrow> distinct (map fst (b_cols b)) \<and> (\<forall>(k, c) \<in> set (b_cols b). column_ok (b_n b) c)"

section \<open>Names\<close>

fun resolve_from :: "(string \<Rightarrow> string) \<Rightarrow> string \<Rightarrow> string \<times> bool \<Rightarrow> string list \<Rightarrow> string \<times> bool" where
  "resolve_from low name best [] = best"
| "resolve_from low name best (n # ns) =
     (if n = name then (n, True)
      else resolve_from low name
        (if low n = low name \<and> (\<not> snd best \<or> n < fst best) then (n, True) else best) ns)"

definition resolve_name :: "(string \<Rightarrow> string) \<Rightarrow> string \<Rightarrow> string list \<Rightarrow> string \<times> bool" where
  "resolve_name low name ns = resolve_from low name ([], False) ns"

definition col :: "(string \<Rightarrow> string) \<Rightarrow> 'f batch \<Rightarrow> string \<Rightarrow> (string \<times> 'f column) option" where
  "col low b name = (case resolve_name low name (map fst (b_cols b)) of
     (k, found) \<Rightarrow> if found then Some (k, the (map_of (b_cols b) k)) else None)"

definition cols_of :: "(string \<Rightarrow> string) \<Rightarrow> 'f batch \<Rightarrow> string \<Rightarrow> 'f column option" where
  "cols_of low b name = map_option snd (col low b name)"

text \<open>A row's cell of a name, NULL when there is no such column.\<close>

definition plain_cell :: "(string \<Rightarrow> string) \<Rightarrow> 'f batch \<Rightarrow> string \<Rightarrow> nat \<Rightarrow> 'f cell" where
  "plain_cell low b name i = (case cols_of low b name of None \<Rightarrow> Null | Some c \<Rightarrow> cell_at c i)"

section \<open>Columns of nulls, and of chosen rows\<close>

datatype col_kind = KindString | KindInt | KindFloat | KindTime

definition event_kinds :: "(string \<times> col_kind) list" where
  "event_kinds = [(''v'', KindInt), (''project_id'', KindInt), (''day'', KindInt), (''display_width'', KindInt),
     (''display_height'', KindInt), (''consent'', KindInt), (''value'', KindFloat), (''sample_rate'', KindFloat),
     (''ts'', KindTime), (''received_at'', KindTime)]"

definition session_kinds :: "(string \<times> col_kind) list" where
  "session_kinds = [(''duration_sec'', KindInt), (''views'', KindInt), (''started_at'', KindTime), (''ended_at'', KindTime)]"

definition no_column :: "'f column" where
  "no_column = \<lparr>c_dict = [], c_idx = None, c_ints = None, c_floats = None, c_times = None, c_null = None\<rparr>"

text \<open>\<open>zero\<close> is the float 0.\<close>

definition null_column :: "'f \<Rightarrow> string \<Rightarrow> nat \<Rightarrow> 'f column" where
  "null_column zero name n =
     (let kind = (case map_of event_kinds name of Some k \<Rightarrow> k
        | None \<Rightarrow> (case map_of session_kinds name of Some k \<Rightarrow> k | None \<Rightarrow> KindString))
      in case kind of
           KindInt \<Rightarrow> no_column\<lparr>c_ints := Some (replicate n 0), c_null := Some (replicate n True)\<rparr>
         | KindFloat \<Rightarrow> no_column\<lparr>c_floats := Some (replicate n zero), c_null := Some (replicate n True)\<rparr>
         | KindTime \<Rightarrow> no_column\<lparr>c_times := Some (replicate n 0), c_null := Some (replicate n True)\<rparr>
         | KindString \<Rightarrow> no_column\<lparr>c_idx := Some (replicate n (- 1))\<rparr>)"

definition pick :: "'a list option \<Rightarrow> nat list \<Rightarrow> 'a list option" where
  "pick s sel = map_option (\<lambda>xs. map (\<lambda>i. xs ! i) sel) s"

definition take_rows :: "'f column \<Rightarrow> nat list \<Rightarrow> 'f column" where
  "take_rows c sel = \<lparr>c_dict = c_dict c, c_idx = pick (c_idx c) sel, c_ints = pick (c_ints c) sel,
     c_floats = pick (c_floats c) sel, c_times = pick (c_times c) sel, c_null = pick (c_null c) sel\<rparr>"

section \<open>Building dictionaries\<close>

text \<open>\<open>ids\<close> is built only when first needed; \<open>index\<close> builds it, the last of equal entries winning.\<close>

record dict_builder =
  db_ids :: "(string \<rightharpoonup> nat) option"
  db_dict :: "string list"

definition index_step :: "nat \<times> string \<Rightarrow> (string \<rightharpoonup> nat) \<Rightarrow> string \<rightharpoonup> nat" where
  "index_step p m = m(snd p \<mapsto> fst p)"

definition index_dict :: "dict_builder \<Rightarrow> dict_builder" where
  "index_dict d = (case db_ids d of
     Some m \<Rightarrow> d
   | None \<Rightarrow> d\<lparr>db_ids := Some (fold index_step (enumerate 0 (db_dict d)) Map.empty)\<rparr>)"

definition dict_id :: "dict_builder \<Rightarrow> string \<Rightarrow> nat \<times> dict_builder" where
  "dict_id d s =
     (let d1 = index_dict d; m = the (db_ids d1) in
      case m s of
        Some i \<Rightarrow> (i, d1)
      | None \<Rightarrow> (length (db_dict d1),
          d1\<lparr>db_ids := Some (m(s \<mapsto> length (db_dict d1))), db_dict := db_dict d1 @ [s]\<rparr>))"

text \<open>A dictionary page: its bytes, and the offsets each value lies between.\<close>

definition page_value :: "string \<Rightarrow> nat list \<Rightarrow> nat \<Rightarrow> string" where
  "page_value vals offs j = take (offs ! (j + 1) - offs ! j) (drop (offs ! j) vals)"

fun add_values :: "string list \<Rightarrow> nat \<Rightarrow> bool \<Rightarrow> nat list \<Rightarrow> dict_builder \<Rightarrow> nat list \<times> bool \<times> dict_builder" where
  "add_values [] j same remap d = (remap, same, d)"
| "add_values (v # vs) j same remap d =
     (case dict_id d v of (i, d1) \<Rightarrow> add_values vs (j + 1) (same \<and> i = j) (remap @ [i]) d1)"

text \<open>The remap is \<open>None\<close> when every value keeps its index.\<close>

definition add_dict :: "string \<Rightarrow> nat list \<Rightarrow> dict_builder \<Rightarrow> nat list option \<times> bool \<times> dict_builder" where
  "add_dict vals offs d =
     (let n = length offs - 1; vs = map (page_value vals offs) [0..<n] in
      if db_dict d = [] then (None, True, d\<lparr>db_ids := None, db_dict := vs\<rparr>)
      else case add_values vs 0 True [] d of (remap, same, d1) \<Rightarrow> (Some remap, same, d1))"

section \<open>Finding columns\<close>

lemma resolve_exact: "name \<in> set ns \<Longrightarrow> resolve_from low name best ns = (name, True)"
  by (induction ns arbitrary: best) auto

lemma resolve_fold:
  "name \<notin> set ns \<Longrightarrow>
    (snd (resolve_from low name best ns) \<longleftrightarrow> snd best \<or> (\<exists>n \<in> set ns. low n = low name))
    \<and> ((\<exists>n \<in> set ns. low n = low name \<and> fst (resolve_from low name best ns) = n) \<or> resolve_from low name best ns = best)
    \<and> (\<forall>n \<in> set ns. low n = low name \<longrightarrow> fst (resolve_from low name best ns) \<le> n)
    \<and> (snd best \<longrightarrow> fst (resolve_from low name best ns) \<le> fst best)"
proof (induction ns arbitrary: best)
  case (Cons n ns)
  define nb where "nb = (if low n = low name \<and> (\<not> snd best \<or> n < fst best) then (n, True) else best)"
  have step: "resolve_from low name best (n # ns) = resolve_from low name nb ns"
    and ns: "name \<notin> set ns" using Cons.prems by (auto simp: nb_def)
  have nb: "snd nb \<longleftrightarrow> snd best \<or> low n = low name" "low n = low name \<longrightarrow> fst nb \<le> n" "snd best \<longrightarrow> fst nb \<le> fst best"
    "nb = best \<or> low n = low name \<and> fst nb = n"
    by (auto simp: nb_def)
  show ?case unfolding step using Cons.IH [OF ns, of nb] nb by (auto intro: order_trans)
qed simp

text \<open>What a name resolves to is a function of the names, whatever their order.\<close>

lemma resolve_name_spec:
  "resolve_name low name ns = (k, found) \<longleftrightarrow>
     (if name \<in> set ns then k = name \<and> found
      else if \<exists>n \<in> set ns. low n = low name
        then found \<and> k \<in> set ns \<and> low k = low name \<and> (\<forall>n \<in> set ns. low n = low name \<longrightarrow> k \<le> n)
        else k = [] \<and> \<not> found)"
proof (cases "name \<in> set ns")
  case True
  then show ?thesis using resolve_exact [OF True] by (auto simp: resolve_name_def)
next
  case False
  note f = resolve_fold [OF False, where low = low and best = "([], False)"]
  obtain k' found' where r: "resolve_from low name ([], False) ns = (k', found')" by fastforce
  show ?thesis
  proof (cases "\<exists>n \<in> set ns. low n = low name")
    case True
    then have "found'" "k' \<in> set ns" "low k' = low name" "\<forall>n \<in> set ns. low n = low name \<longrightarrow> k' \<le> n"
      using f r by auto
    then show ?thesis using False True r by (auto simp: resolve_name_def intro: order_antisym)
  next
    case no: False
    then show ?thesis using False f r by (auto simp: resolve_name_def)
  qed
qed

lemma resolve_name_perm: "set ms = set ns \<Longrightarrow> resolve_name low name ms = resolve_name low name ns"
proof -
  assume eq: "set ms = set ns"
  obtain k found where r: "resolve_name low name ns = (k, found)" by fastforce
  then have "resolve_name low name ms = (k, found)" using resolve_name_spec [of low name ns] unfolding resolve_name_spec eq by blast
  then show ?thesis using r by simp
qed

lemma col_in: "col low b name = Some (k, c) \<Longrightarrow> (k, c) \<in> set (b_cols b)"
proof -
  assume "col low b name = Some (k, c)"
  then have r: "resolve_name low name (map fst (b_cols b)) = (k, True)" and c: "c = the (map_of (b_cols b) k)"
    by (auto simp: col_def split: prod.splits if_splits)
  then have "k \<in> fst ` set (b_cols b)" by (auto simp: resolve_name_spec split: if_splits)
  then obtain c' where "map_of (b_cols b) k = Some c'" by (metis map_of_eq_None_iff not_None_eq)
  then show ?thesis using c by (simp add: map_of_SomeD)
qed

lemma col_ok: "batch_ok b \<Longrightarrow> col low b name = Some (k, c) \<Longrightarrow> column_ok (b_n b) c"
  using col_in [of low b name k c] by (auto simp: batch_ok_def)

section \<open>Rows of columns\<close>

lemma cell_take: "j < length sel \<Longrightarrow> cell_at (take_rows c sel) j = cell_at c (sel ! j)"
  by (cases "c_idx c"; cases "c_ints c"; cases "c_floats c"; cases "c_times c"; cases "c_null c")
    (simp_all add: cell_at_def take_rows_def pick_def is_null_def)

lemma take_rows_ok: "column_ok n c \<Longrightarrow> (\<And>i. i \<in> set sel \<Longrightarrow> i < n) \<Longrightarrow> column_ok (length sel) (take_rows c sel)"
  by (auto simp: column_ok_def take_rows_def pick_def)

lemma cell_null_column: "i < n \<Longrightarrow> cell_at (null_column z name n) i = Null"
  by (auto simp: cell_at_def null_column_def no_column_def is_null_def Let_def split: col_kind.splits)

lemma null_column_ok: "column_ok n (null_column z name n)"
  by (auto simp: column_ok_def null_column_def no_column_def Let_def split: col_kind.splits)

section \<open>Dictionaries\<close>

definition dict_ok :: "dict_builder \<Rightarrow> bool" where
  "dict_ok d \<longleftrightarrow> (case db_ids d of None \<Rightarrow> True
     | Some m \<Rightarrow> (\<forall>s i. m s = Some i \<longrightarrow> i < length (db_dict d) \<and> db_dict d ! i = s) \<and> dom m = set (db_dict d))"

lemma index_step_apply: "index_step p m s = (if s = snd p then Some (fst p) else m s)"
  by (simp add: index_step_def)

lemma index_fold_other: "s \<notin> set xs \<Longrightarrow> fold index_step (enumerate k xs) m s = m s"
proof (induction xs arbitrary: k m)
  case (Cons x xs)
  then have "fold index_step (enumerate (Suc k) xs) (index_step (k, x) m) s = index_step (k, x) m s" by (intro Cons.IH) simp
  moreover have "index_step (k, x) m s = m s" using Cons.prems by (simp add: index_step_apply)
  ultimately show ?case by simp
qed simp

lemma index_fold:
  "fold index_step (enumerate k xs) m s = Some i \<Longrightarrow> s \<in> set xs \<Longrightarrow> k \<le> i \<and> i < k + length xs \<and> xs ! (i - k) = s"
proof (induction xs arbitrary: k m)
  case (Cons x xs)
  show ?case
  proof (cases "s \<in> set xs")
    case True
    have "fold index_step (enumerate (Suc k) xs) (index_step (k, x) m) s = Some i" using Cons.prems(1) by simp
    from Cons.IH [OF this True] show ?thesis by (auto simp: nth_Cons' Suc_diff_Suc)
  next
    case False
    then have x: "x = s" using Cons.prems(2) by simp
    have "index_step (k, x) m s = Some i" using Cons.prems(1) index_fold_other [OF False, of "Suc k"] by simp
    then have "i = k" by (simp add: index_step_apply x)
    then show ?thesis using x by simp
  qed
qed simp

lemma index_dom: "dom (fold index_step (enumerate k xs) m) = dom m \<union> set xs"
  by (induction xs arbitrary: k m) (auto simp: index_step_def)

lemma index_dict_ok: "dict_ok d \<Longrightarrow> dict_ok (index_dict d) \<and> db_dict (index_dict d) = db_dict d \<and> db_ids (index_dict d) \<noteq> None"
proof (cases "db_ids d")
  case None
  have "i < length (db_dict d) \<and> db_dict d ! i = s" if "fold index_step (enumerate 0 (db_dict d)) Map.empty s = Some i" for s i
  proof -
    have "s \<in> set (db_dict d)" using that index_dom [of 0 "db_dict d" Map.empty] by (metis Un_empty_left dom_empty domI)
    from index_fold [OF that this] show ?thesis by simp
  qed
  then show ?thesis using None index_dom [of 0 "db_dict d" Map.empty] by (simp add: dict_ok_def index_dict_def)
qed (simp add: index_dict_def)

lemma dict_id_ok:
  assumes "dict_ok d" and "dict_id d s = (i, d')"
  shows "dict_ok d' \<and> i < length (db_dict d') \<and> db_dict d' ! i = s \<and> (\<exists>ys. db_dict d' = db_dict d @ ys)"
proof -
  obtain m where m: "db_ids (index_dict d) = Some m" using index_dict_ok [OF assms(1)] by auto
  have ok: "\<forall>s i. m s = Some i \<longrightarrow> i < length (db_dict d) \<and> db_dict d ! i = s" "dom m = set (db_dict d)"
    using index_dict_ok [OF assms(1)] m by (auto simp: dict_ok_def)
  show ?thesis
  proof (cases "m s")
    case (Some j)
    then have "i = j" "d' = index_dict d" using assms(2) m by (simp_all add: dict_id_def Let_def)
    then show ?thesis using Some ok index_dict_ok [OF assms(1)] by simp
  next
    case None
    then have "i = length (db_dict d)" "db_dict d' = db_dict d @ [s]" "db_ids d' = Some (m(s \<mapsto> length (db_dict d)))"
      using assms(2) m index_dict_ok [OF assms(1)] by (auto simp: dict_id_def Let_def)
    then show ?thesis using ok by (fastforce simp: dict_ok_def nth_append split: if_splits)
  qed
qed

lemma add_values_ok:
  assumes "dict_ok d" and "add_values vs j same remap d = (remap', same', d')"
  shows "dict_ok d' \<and> (\<exists>ys. db_dict d' = db_dict d @ ys) \<and> (\<exists>rs. remap' = remap @ rs \<and> length rs = length vs
    \<and> (\<forall>k < length vs. rs ! k < length (db_dict d') \<and> db_dict d' ! (rs ! k) = vs ! k)
    \<and> (same' \<longleftrightarrow> same \<and> rs = [j..<j + length vs]))"
  using assms
proof (induction vs arbitrary: j same remap d)
  case (Cons v vs)
  obtain i d1 where id: "dict_id d v = (i, d1)" by fastforce
  have i: "dict_ok d1" "i < length (db_dict d1)" "db_dict d1 ! i = v" "\<exists>ys. db_dict d1 = db_dict d @ ys"
    using dict_id_ok [OF Cons.prems(1) id] by auto
  have "add_values vs (j + 1) (same \<and> i = j) (remap @ [i]) d1 = (remap', same', d')" using Cons.prems(2) id by simp
  from Cons.IH [OF i(1) this] obtain ys rs where d': "dict_ok d'" "db_dict d' = db_dict d1 @ ys" "remap' = (remap @ [i]) @ rs"
    "length rs = length vs" "\<forall>k < length vs. rs ! k < length (db_dict d') \<and> db_dict d' ! (rs ! k) = vs ! k"
    "same' \<longleftrightarrow> (same \<and> i = j) \<and> rs = [j + 1..<j + 1 + length vs]" by blast
  have "i < length (db_dict d') \<and> db_dict d' ! i = v" using i d'(2) by (simp add: nth_append)
  moreover have "[j..<j + length (v # vs)] = j # [j + 1..<j + 1 + length vs]" using upt_conv_Cons [of j "j + length (v # vs)"] by simp
  ultimately show ?case using i(4) d' by (intro conjI exI [of _ "i # rs"]) (auto simp: nth_Cons')
qed simp

section \<open>Properties\<close>

text \<open>
  A dictionary page taken into a batch's dictionary: every value of the page is found under the
  index it is given (its own when no remap is returned, or when they are said to be the same),
  and the indices given before still name the same text.
\<close>

theorem dict_page_taken:
  assumes "dict_ok d" and "add_dict vals offs d = (remap, same, d')"
  shows "dict_ok d' \<and> (\<forall>i < length (db_dict d). db_dict d' ! i = db_dict d ! i)
    \<and> (\<forall>j < length offs - 1. case remap of
          None \<Rightarrow> db_dict d' ! j = page_value vals offs j
        | Some r \<Rightarrow> r ! j < length (db_dict d') \<and> db_dict d' ! (r ! j) = page_value vals offs j)
    \<and> (same \<longrightarrow> (\<forall>j < length offs - 1. db_dict d' ! j = page_value vals offs j))"
proof (cases "db_dict d = []")
  case True
  then show ?thesis using assms by (auto simp: add_dict_def Let_def dict_ok_def)
next
  case False
  let ?vs = "map (page_value vals offs) [0..<length offs - 1]"
  obtain r where r: "add_values ?vs 0 True [] d = (r, same, d')" "remap = Some r"
    using assms(2) False by (auto simp: add_dict_def Let_def split: prod.splits)
  from add_values_ok [OF assms(1) r(1)] obtain ys where d': "dict_ok d'" "db_dict d' = db_dict d @ ys" "length r = length ?vs"
    "\<forall>k < length ?vs. r ! k < length (db_dict d') \<and> db_dict d' ! (r ! k) = ?vs ! k" "same \<longleftrightarrow> r = [0..<length ?vs]"
    by auto
  have "\<forall>j < length offs - 1. r ! j < length (db_dict d') \<and> db_dict d' ! (r ! j) = page_value vals offs j"
    using d'(4) by simp
  note old = this
  have "\<forall>j < length offs - 1. db_dict d' ! j = page_value vals offs j" if "same"
  proof -
    have "r = [0..<length offs - 1]" using that d'(5) by simp
    then show ?thesis using old by simp
  qed
  moreover have "\<forall>i < length (db_dict d). db_dict d' ! i = db_dict d ! i" using d'(2) by (simp add: nth_append)
  ultimately show ?thesis using d'(1) r(2) old by simp
qed

theorem dict_page_taken_witness:
  "db_dict (snd (snd (add_dict ''abcde'' [0, 2, 5] \<lparr>db_ids = None, db_dict = [''cde'']\<rparr>))) ! 1 = ''ab''"
proof -
  let ?d = "\<lparr>db_ids = None, db_dict = [''cde'']\<rparr>"
  have "dict_ok ?d" by (simp add: dict_ok_def)
  moreover have "fst (add_dict ''abcde'' [0, 2, 5] ?d) = Some [1, 0]" "fst (snd (add_dict ''abcde'' [0, 2, 5] ?d)) = False"
    by (simp_all add: add_dict_def dict_id_def index_dict_def index_step_def page_value_def)
  then have "add_dict ''abcde'' [0, 2, 5] ?d
      = (Some [1, 0], False, snd (snd (add_dict ''abcde'' [0, 2, 5] ?d)))" by (simp add: prod_eq_iff)
  ultimately have "\<forall>j < length [0, 2, 5 :: nat] - 1. [1, 0] ! j < length (db_dict (snd (snd (add_dict ''abcde'' [0, 2, 5] ?d))))
    \<and> db_dict (snd (snd (add_dict ''abcde'' [0, 2, 5] ?d))) ! ([1, 0] ! j) = page_value ''abcde'' [0, 2, 5] j"
    using dict_page_taken [of ?d "''abcde''" "[0, 2, 5]" "Some [1, 0]" False] by simp
  then show ?thesis by (auto simp: page_value_def dest: spec [of _ 0])
qed

text \<open> 
  A column's name resolves the same way whatever order the columns come in: to itself when it is
  there, else to the least of the names equal to it but for case; it is not found only when none
  is.
\<close>

theorem column_name_resolves:
  assumes "set ms = set ns"
  shows "resolve_name low name ms = resolve_name low name ns
    \<and> (name \<in> set ns \<longrightarrow> resolve_name low name ns = (name, True))
    \<and> (\<forall>k. name \<notin> set ns \<longrightarrow> resolve_name low name ns = (k, True) \<longrightarrow>
        k = Min {n \<in> set ns. low n = low name} \<and> {n \<in> set ns. low n = low name} \<noteq> {})
    \<and> (snd (resolve_name low name ns) \<longleftrightarrow> (\<exists>n \<in> set ns. low n = low name))"
proof -
  have "k = Min {n \<in> set ns. low n = low name} \<and> {n \<in> set ns. low n = low name} \<noteq> {}"
    if "name \<notin> set ns" "resolve_name low name ns = (k, True)" for k
  proof -
    have k: "k \<in> {n \<in> set ns. low n = low name}" "\<And>n. n \<in> {n \<in> set ns. low n = low name} \<Longrightarrow> k \<le> n"
      using that resolve_name_spec [of low name ns k True] by (auto split: if_splits)
    have "Min {n \<in> set ns. low n = low name} = k" by (rule Min_eqI) (use k in auto)
    then show ?thesis using k(1) by auto
  qed
  moreover have "snd (resolve_name low name ns) \<longleftrightarrow> (\<exists>n \<in> set ns. low n = low name)"
  proof -
    obtain k f where r: "resolve_name low name ns = (k, f)" by fastforce
    then show ?thesis using resolve_name_spec [of low name ns k f] by (auto split: if_splits)
  qed
  ultimately show ?thesis using resolve_name_perm [OF assms, of low name] resolve_exact [of name ns low "([], False)"]
    by (auto simp: resolve_name_def)
qed

definition ascii_low :: "string \<Rightarrow> string" where
  "ascii_low = map (\<lambda>c. if 65 \<le> (of_char c :: nat) \<and> (of_char c :: nat) \<le> 90 then char_of ((of_char c :: nat) + 32) else c)"

theorem column_name_resolves_witness:
  "resolve_name ascii_low ''attr_PLAN'' [''day'', ''attr_plan'', ''attr_Plan''] = (''attr_Plan'', True)
    \<and> resolve_name ascii_low ''attr_PLAN'' [''attr_Plan'', ''attr_plan'', ''day''] = (''attr_Plan'', True)"
proof -
  have "resolve_name ascii_low ''attr_PLAN'' [''day'', ''attr_plan'', ''attr_Plan''] = (''attr_Plan'', True)" by code_simp
  then show ?thesis
    using column_name_resolves [of "[''attr_Plan'', ''attr_plan'', ''day'']" "[''day'', ''attr_plan'', ''attr_Plan'']" ascii_low "''attr_PLAN''"]
    by auto
qed

end
