(* ===== verification/NativeColumns.thy ===== *)
theory NativeColumns
  imports Prelude
begin

text \<open>
  The vocabulary of columns (\<^verbatim>\<open>internal/native/columns.go\<close>, \<^verbatim>\<open>typeOf\<close> and \<^verbatim>\<open>readColumns\<close> of
  \<^verbatim>\<open>internal/native/filter.go\<close>, \<^verbatim>\<open>idColumns\<close> of \<^verbatim>\<open>internal/native/identities.go\<close>): which columns a
  table has, how each is read, and what a filter value of it parses to.
\<close>

section \<open>Names\<close>

definition has_prefix :: "string \<Rightarrow> string \<Rightarrow> bool" where
  "has_prefix s p \<longleftrightarrow> take (length p) s = p"

definition cut_prefix :: "string \<Rightarrow> string \<Rightarrow> string option" where
  "cut_prefix s p = (if has_prefix s p then Some (drop (length p) s) else None)"

datatype id_gives = IdStatus | IdLabel | IdFirst

definition id_columns :: "(string \<times> string \<times> bool \<times> id_gives) list" where
  "id_columns = [(''user_status'', ''user_id'', False, IdStatus), (''group_status'', ''group_id'', True, IdStatus),
     (''user_label'', ''user_id'', False, IdLabel), (''group_label'', ''group_id'', True, IdLabel),
     (''user_first_seen'', ''user_id'', False, IdFirst), (''group_first_seen'', ''group_id'', True, IdFirst)]"

definition is_first_seen :: "string \<Rightarrow> bool" where
  "is_first_seen c = (case map_of id_columns c of Some (_, _, g) \<Rightarrow> g = IdFirst | None \<Rightarrow> False)"

definition event_columns :: "string list" where
  "event_columns = [''project_id'', ''family'', ''event_name'', ''day'', ''kind'', ''actor_id'', ''actor_kind'',
     ''user_id'', ''group_id'', ''session_id'', ''install_id'', ''user_name'', ''group_name'',
     ''host'', ''path'', ''referrer_source'', ''utm_source'', ''utm_medium'', ''utm_campaign'',
     ''platform'', ''os'', ''os_version'', ''os_name'', ''browser'', ''browser_version'',
     ''browser_locale'', ''app_version'', ''app_locale'', ''device'', ''device_model'',
     ''display_width'', ''display_height'', ''country'', ''consent'', ''measure'',
     ''resolution'', ''device_label'', ''platform_version'', ''consent_state'',
     ''user_status'', ''group_status'', ''user_label'', ''group_label'',
     ''user_first_seen'', ''group_first_seen'', ''vital'', ''vital_rating'']"

definition computed_tables :: "(string \<times> string list) list" where
  "computed_tables =
     (let evp = [''events'', ''views'', ''product''] in
     [(''resolution'', [''events'', ''views'']), (''device_label'', evp), (''platform_version'', evp), (''consent_state'', evp),
      (''hour'', evp @ [''measures'', ''checks'']), (''weekday'', evp @ [''measures'', ''checks'']),
      (''user_status'', evp), (''group_status'', evp), (''user_label'', evp), (''group_label'', evp),
      (''user_first_seen'', evp), (''group_first_seen'', evp), (''vital'', [''measures'']), (''vital_rating'', [''measures''])])"

definition session_columns :: "string list" where
  "session_columns = [''project_id'', ''day'', ''kind'', ''actor_id'', ''actor_kind'', ''session_id'',
     ''entry_host'', ''entry_path'', ''exit_path'', ''referrer_source'',
     ''utm_source'', ''utm_medium'', ''utm_campaign'', ''duration_sec'', ''views'']"

definition identity_columns :: "string list" where
  "identity_columns = [''kind'', ''id'', ''name'', ''day'', ''views'', ''events'']"

definition session_filter_only :: "string list" where "session_filter_only = [''duration_sec'', ''views'']"
definition identity_filter_only :: "string list" where "identity_filter_only = [''views'', ''events'']"

text \<open>\<open>plainColumns\<close>: whether a column of the three lists is numeric; false for any other.\<close>

definition plain_numeric :: "string \<Rightarrow> bool" where
  "plain_numeric c \<longleftrightarrow> c \<in> set (event_columns @ session_columns @ identity_columns)
     \<and> c \<in> set [''project_id'', ''day'', ''display_width'', ''display_height'', ''consent'', ''duration_sec'', ''views'', ''events'']"

definition column_info :: "string \<Rightarrow> string \<Rightarrow> bool \<times> bool" where
  "column_info table c =
     (case cut_prefix c ''def_'' of Some rest \<Rightarrow> (False, rest \<noteq> [])
      | None \<Rightarrow>
        if table = ''sessions'' then (plain_numeric c, c \<in> set session_columns)
        else if table = ''identities'' then (plain_numeric c, c \<in> set identity_columns)
        else if c = ''bucket'' then (True, table = ''measures'')
        else (case map_of computed_tables c of Some tables \<Rightarrow> (is_first_seen c, table \<in> set tables)
          | None \<Rightarrow> (case cut_prefix c ''attr_'' of Some rest \<Rightarrow> (False, rest \<noteq> [])
            | None \<Rightarrow> if c \<notin> set event_columns then (False, False) else (plain_numeric c, True))))"

definition dimension_of :: "string \<Rightarrow> string \<Rightarrow> bool" where
  "dimension_of table c \<longleftrightarrow> snd (column_info table c)
     \<and> \<not> (table = ''sessions'' \<and> c \<in> set session_filter_only) \<and> \<not> (table = ''identities'' \<and> c \<in> set identity_filter_only)"

definition column_type :: "string \<Rightarrow> string" where
  "column_type c = (if c = ''day'' \<or> is_first_seen c then ''day''
     else if c = ''bucket'' \<or> c = ''value'' \<or> plain_numeric c then ''number'' else ''text'')"

section \<open>Types\<close>

datatype col_type = TypeString | TypeInt | TypeDay | TypeBucket

definition type_of :: "string \<Rightarrow> col_type" where
  "type_of c = (if c = ''bucket'' then TypeBucket
     else if c = ''day'' \<or> is_first_seen c then TypeDay
     else if plain_numeric c then TypeInt else TypeString)"

text \<open>The sources of the computed columns.\<close>

definition computed_sources :: "(string \<times> string list) list" where
  "computed_sources = [(''vital'', [''event_name'']), (''vital_rating'', [''event_name'', ''value'']),
     (''resolution'', [''display_width'', ''display_height'']), (''device_label'', [''device_model'', ''device'']),
     (''platform_version'', [''platform'', ''app_version'']), (''consent_state'', [''consent'']),
     (''hour'', [''ts'']), (''weekday'', [''ts''])]"

definition read_columns :: "string \<Rightarrow> string list" where
  "read_columns c = (case map_of computed_sources c of Some ss \<Rightarrow> ss
     | None \<Rightarrow> if c = ''bucket'' then [''value'']
         else (case map_of id_columns c of Some (ic, _) \<Rightarrow> [ic] | None \<Rightarrow> [c]))"

fun append_new :: "string list \<Rightarrow> string list \<Rightarrow> string list" where
  "append_new cols [] = cols"
| "append_new cols (c # cs) = append_new (if c \<in> set cols then cols else cols @ [c]) cs"

section \<open>Values\<close>

definition is_digit :: "char \<Rightarrow> bool" where
  "is_digit c \<longleftrightarrow> 48 \<le> (of_char c :: int) \<and> (of_char c :: int) \<le> 57"

definition digits_value :: "string \<Rightarrow> int" where
  "digits_value s = foldl (\<lambda>n c. 10 * n + ((of_char c :: int) - 48)) 0 s"

text \<open>\<open>strconv.ParseInt(v, 10, 64)\<close>.\<close>

definition parse_int :: "string \<Rightarrow> int option" where
  "parse_int s =
     (let neg = (s \<noteq> [] \<and> hd s = CHR ''-''); ds = (if s \<noteq> [] \<and> hd s \<in> {CHR ''-'', CHR ''+''} then tl s else s);
          n = (if neg then - digits_value ds else digits_value ds)
      in if ds = [] \<or> \<not> list_all is_digit ds \<or> n < - (2 ^ 63) \<or> n \<ge> 2 ^ 63 then None else Some n)"

text \<open>\<open>archive.ParseDay\<close>: a YYYY-MM-DD date as days since 1970-01-01.\<close>

definition leap :: "int \<Rightarrow> bool" where
  "leap y \<longleftrightarrow> y mod 4 = 0 \<and> (y mod 100 \<noteq> 0 \<or> y mod 400 = 0)"

definition days_in :: "int \<Rightarrow> int \<Rightarrow> int" where
  "days_in y m = (if m = 2 then (if leap y then 29 else 28) else if m \<in> {4, 6, 9, 11} then 30 else 31)"

definition epoch_day :: "int \<Rightarrow> int \<Rightarrow> int \<Rightarrow> int" where
  "epoch_day y m d =
     365 * y + (y + 3) div 4 - (y + 99) div 100 + (y + 399) div 400 + sum_list (map (days_in y) [1..m - 1]) + d - 1 - 719528"

definition parse_day :: "string \<Rightarrow> int option" where
  "parse_day s =
     (let ys = take 4 s; ms = take 2 (drop 5 s); ds = drop 8 s; y = digits_value ys; m = digits_value ms; d = digits_value ds
      in if length s = 10 \<and> s ! 4 = CHR ''-'' \<and> s ! 7 = CHR ''-'' \<and> list_all is_digit (ys @ ms @ ds)
            \<and> 1 \<le> m \<and> m \<le> 12 \<and> 1 \<le> d \<and> d \<le> days_in y m
         then Some (epoch_day y m d) else None)"

definition parse_value :: "col_type \<Rightarrow> string \<Rightarrow> int option" where
  "parse_value t v = (if t = TypeDay then parse_day v else parse_int v)"

section \<open>Reading back a printed number\<close>

lemma digit_char: "d < 10 \<Longrightarrow> is_digit (char_of (48 + d)) \<and> (of_char (char_of (48 + d :: nat) :: char) :: int) = 48 + int d"
proof -
  assume d: "d < 10"
  have "(of_char (char_of (48 + d :: nat) :: char) :: int) = int (of_char (char_of (48 + d :: nat) :: char) :: nat)"
    by (rule of_nat_of_char [symmetric])
  then show ?thesis using dec_digit_code [OF d] d by (simp add: is_digit_def)
qed

lemma digits_value_snoc: "digits_value (s @ [c]) = 10 * digits_value s + (of_char c - 48)"
  by (simp add: digits_value_def)

lemma dec_nat_digits: "list_all is_digit (dec_nat n) \<and> digits_value (dec_nat n) = int n"
proof (induction n rule: dec_nat.induct)
  case (1 n)
  show ?case
  proof (cases "n < 10")
    case True
    then show ?thesis using digit_char [OF True] by (subst (1 2) dec_nat.simps) (simp add: digits_value_def)
  next
    case False
    have "n mod 10 < 10" by simp
    moreover have "10 * int (n div 10) + int (n mod 10) = int n" by presburger
    ultimately show ?thesis using digit_char [of "n mod 10"] "1.IH" [OF False] False
      by (subst (1 2) dec_nat.simps) (simp add: digits_value_snoc)
  qed
qed

lemma digit_not_sign: "is_digit c \<Longrightarrow> c \<noteq> CHR ''-'' \<and> c \<noteq> CHR ''+''"
  by (auto simp: is_digit_def)

section \<open>Properties\<close>

text \<open>
  A number printed is read back as itself, over the whole range of a 64-bit integer, and nothing
  outside that range is read.
\<close>

theorem parse_int_roundtrip:
  "(- (2 ^ 63) \<le> n \<and> n < 2 ^ 63 \<longleftrightarrow> parse_int (dec_int n) = Some n)
    \<and> (parse_int s = Some m \<longrightarrow> - (2 ^ 63) \<le> m \<and> m < 2 ^ 63)"
proof -
  have nn: "list_all is_digit (dec_nat k)" "digits_value (dec_nat k) = int k" for k using dec_nat_digits by auto
  have hd: "is_digit (hd (dec_nat k))" for k using nn(1) [of k] by (cases "dec_nat k") auto
  have "parse_int (dec_int n) = (if n < - (2 ^ 63) \<or> n \<ge> 2 ^ 63 then None else Some n)"
  proof (cases "n < 0")
    case True
    then show ?thesis using nn [of "nat (- n)"] by (simp add: parse_int_def dec_int_def Let_def)
  next
    case False
    then show ?thesis using nn [of "nat n"] digit_not_sign [OF hd [of "nat n"]] by (simp add: parse_int_def dec_int_def Let_def)
  qed
  then show ?thesis by (auto simp: parse_int_def Let_def split: if_splits)
qed

theorem parse_int_roundtrip_witness:
  "parse_int (dec_int (- 9223372036854775808)) = Some (- 9223372036854775808) \<and> parse_int (dec_int 9223372036854775808) \<noteq> Some 9223372036854775808"
  using parse_int_roundtrip [of "- 9223372036854775808"] parse_int_roundtrip [of 9223372036854775808] by simp

text \<open>
  Validation and the engine agree on types: on a column a table has, gt, gte, lt and lte are
  allowed exactly when the engine reads the column as numbers or days, so no ordering filter
  reaches text.
\<close>

theorem orderable_iff_number:
  assumes "column_info table c = (orderable, True)"
  shows "orderable \<longleftrightarrow> type_of c \<noteq> TypeString"
proof -
  have num: "list_all (\<lambda>x. \<not> has_prefix x ''def_'' \<and> \<not> has_prefix x ''attr_'' \<and> map_of computed_tables x = None)
      [''project_id'', ''day'', ''display_width'', ''display_height'', ''consent'', ''duration_sec'', ''views'', ''events'']"
    by code_simp
  have first: "list_all (\<lambda>x. \<not> has_prefix x ''def_'' \<and> \<not> has_prefix x ''attr_'' \<and> map_of computed_tables x \<noteq> None
      \<and> x \<notin> set session_columns \<and> x \<notin> set identity_columns \<and> x \<noteq> ''bucket'') [''user_first_seen'', ''group_first_seen'']"
    by code_simp
  have day: "plain_numeric ''day''" by code_simp
  have bucket: "\<not> has_prefix ''bucket'' ''def_'' \<and> \<not> has_prefix ''bucket'' ''attr_'' \<and> map_of computed_tables ''bucket'' = None
      \<and> ''bucket'' \<notin> set event_columns \<and> ''bucket'' \<notin> set session_columns \<and> ''bucket'' \<notin> set identity_columns" by code_simp
  have fs: "is_first_seen c \<Longrightarrow> c = ''user_first_seen'' \<or> c = ''group_first_seen''"
    by (auto simp: is_first_seen_def id_columns_def split: option.splits if_splits)
  have pn: "plain_numeric c \<Longrightarrow> \<not> has_prefix c ''def_'' \<and> \<not> has_prefix c ''attr_'' \<and> map_of computed_tables c = None"
    using num unfolding plain_numeric_def list_all_iff by blast
  have fp: "is_first_seen c \<Longrightarrow> \<not> has_prefix c ''def_'' \<and> \<not> has_prefix c ''attr_'' \<and> map_of computed_tables c \<noteq> None
      \<and> c \<notin> set session_columns \<and> c \<notin> set identity_columns \<and> c \<noteq> ''bucket''"
    using first fs unfolding list_all_iff by auto
  show ?thesis
    using assms pn fp day bucket unfolding column_info_def type_of_def cut_prefix_def
    by (cases "c = ''bucket''"; cases "c = ''day''"; cases "is_first_seen c"; cases "plain_numeric c")
      (auto split: if_splits option.splits)
qed

theorem orderable_iff_number_witness:
  "type_of ''day'' \<noteq> TypeString \<and> type_of ''path'' = TypeString"
proof -
  have "column_info ''events'' ''day'' = (True, True)" "column_info ''events'' ''path'' = (False, True)" by code_simp+
  then show ?thesis using orderable_iff_number by blast
qed

end
