(* ===== verification/NativeFilter.thy ===== *)
theory NativeFilter
  imports Complex_Main NativeBatch NativeColumns
begin

text \<open>
  Row filters over column batches (\<^verbatim>\<open>internal/native/filter.go\<close>, and the ids of ever and never in
  \<^verbatim>\<open>internal/native/ever.go\<close>): the computed columns, compiling a query's filters, applying them to
  a batch column by column through the dictionaries, and what this means row by row. Floats are
  opaque; what is done with them is the parameter \<open>fo\<close>: whether one is above 1e-17, the ceiling of
  its logarithm to base 1.04, the float of an integer, and a bucket's value.
\<close>

section \<open>Computed columns\<close>

record 'f float_ops =
  fo_zero :: 'f
  fo_positive :: "'f \<Rightarrow> bool"
  fo_log :: "'f \<Rightarrow> int"
  fo_of_int :: "int \<Rightarrow> 'f"
  fo_value :: "int \<Rightarrow> real"

definition bucket_of :: "'f float_ops \<Rightarrow> 'f option \<Rightarrow> int" where
  "bucket_of fo v = (case v of Some x \<Rightarrow> if fo_positive fo x then fo_log fo x else - 1000 | None \<Rightarrow> - 1000)"

definition text_at :: "'f column option \<Rightarrow> nat \<Rightarrow> string option" where
  "text_at c i = (case c of None \<Rightarrow> None | Some c \<Rightarrow> (case c_idx c of None \<Rightarrow> None
     | Some idx \<Rightarrow> if idx ! i < 0 then None else Some (c_dict c ! nat (idx ! i))))"

definition int_at :: "'f column option \<Rightarrow> nat \<Rightarrow> int option" where
  "int_at c i = (case c of None \<Rightarrow> None | Some c \<Rightarrow> (case c_ints c of None \<Rightarrow> None
     | Some ns \<Rightarrow> if is_null c i then None else Some (ns ! i)))"

definition time_at :: "'f column option \<Rightarrow> nat \<Rightarrow> int option" where
  "time_at c i = (case c of None \<Rightarrow> None | Some c \<Rightarrow> (case c_times c of None \<Rightarrow> None
     | Some ts \<Rightarrow> if is_null c i then None else Some (ts ! i)))"

text \<open>\<open>textDict.id\<close>, and a column of the texts of \<open>value\<close> over the rows \<open>is\<close>.\<close>

definition text_id :: "string \<Rightarrow> string list \<Rightarrow> nat \<times> string list" where
  "text_id s d = (case find (\<lambda>i. d ! i = s) [0..<length d] of Some i \<Rightarrow> (i, d) | None \<Rightarrow> (length d, d @ [s]))"

fun text_rows :: "(nat \<Rightarrow> string option) \<Rightarrow> nat list \<Rightarrow> string list \<Rightarrow> int list \<times> string list" where
  "text_rows value [] d = ([], d)"
| "text_rows value (i # is) d = (case value i of
     None \<Rightarrow> (case text_rows value is d of (xs, d1) \<Rightarrow> (- 1 # xs, d1))
   | Some s \<Rightarrow> (case text_id s d of (x, d1) \<Rightarrow> (case text_rows value is d1 of (xs, d2) \<Rightarrow> (int x # xs, d2))))"

definition text_column :: "nat \<Rightarrow> (nat \<Rightarrow> string option) \<Rightarrow> 'f column" where
  "text_column n value = (case text_rows value [0..<n] [] of (idx, d) \<Rightarrow> no_column\<lparr>c_dict := d, c_idx := Some idx\<rparr>)"

definition resolution_at :: "(string \<Rightarrow> string) \<Rightarrow> 'f batch \<Rightarrow> nat \<Rightarrow> string option" where
  "resolution_at low b i = (case (int_at (cols_of low b ''display_width'') i, int_at (cols_of low b ''display_height'') i) of
     (Some x, Some y) \<Rightarrow> if x \<le> 0 \<or> y \<le> 0 then None else Some (dec_int x @ ''x'' @ dec_int y) | _ \<Rightarrow> None)"

definition device_label_at :: "(string \<Rightarrow> string) \<Rightarrow> 'f batch \<Rightarrow> nat \<Rightarrow> string option" where
  "device_label_at low b i = (case text_at (cols_of low b ''device_model'') i of
     Some s \<Rightarrow> if s \<noteq> [] then Some s else
       (case text_at (cols_of low b ''device'') i of Some t \<Rightarrow> if t \<noteq> [] then Some t else None | None \<Rightarrow> None)
   | None \<Rightarrow> (case text_at (cols_of low b ''device'') i of Some t \<Rightarrow> if t \<noteq> [] then Some t else None | None \<Rightarrow> None))"

definition platform_version_at :: "(string \<Rightarrow> string) \<Rightarrow> 'f batch \<Rightarrow> nat \<Rightarrow> string option" where
  "platform_version_at low b i = (case text_at (cols_of low b ''app_version'') i of
     None \<Rightarrow> None
   | Some v \<Rightarrow> if v = [] then None
       else Some ((case text_at (cols_of low b ''platform'') i of Some p \<Rightarrow> p | None \<Rightarrow> []) @ '' '' @ v))"

definition consent_state_at :: "(string \<Rightarrow> string) \<Rightarrow> 'f batch \<Rightarrow> nat \<Rightarrow> string option" where
  "consent_state_at low b i = (case int_at (cols_of low b ''consent'') i of
     Some n \<Rightarrow> if n = 1 then Some ''given'' else if n = 0 then Some ''none'' else Some ''unknown''
   | None \<Rightarrow> Some ''unknown'')"

text \<open>A time is in microseconds since 1970-01-01, a Thursday.\<close>

definition two_digits :: "int \<Rightarrow> string" where
  "two_digits n = (if n < 10 then ''0'' @ dec_int n else dec_int n)"

definition hour_at :: "(string \<Rightarrow> string) \<Rightarrow> 'f batch \<Rightarrow> nat \<Rightarrow> string option" where
  "hour_at low b i = map_option (\<lambda>t. two_digits (t div 3600000000 mod 24)) (time_at (cols_of low b ''ts'') i)"

definition weekdays :: "string list" where
  "weekdays = [''1 Mon'', ''2 Tue'', ''3 Wed'', ''4 Thu'', ''5 Fri'', ''6 Sat'', ''7 Sun'']"

definition weekday_at :: "(string \<Rightarrow> string) \<Rightarrow> 'f batch \<Rightarrow> nat \<Rightarrow> string option" where
  "weekday_at low b i = map_option (\<lambda>t. weekdays ! nat (((t div 86400000000 + 4) mod 7 + 6) mod 7)) (time_at (cols_of low b ''ts'') i)"

definition vitals :: "(string \<times> string \<times> real \<times> real) list" where
  "vitals = [(''$lcp'', ''LCP'', 2500, 4000), (''$inp'', ''INP'', 200, 500), (''$cls'', ''CLS'', 1 / 10, 1 / 4),
     (''$fcp'', ''FCP'', 1800, 3000), (''$ttfb'', ''TTFB'', 800, 1800)]"

definition vital_of :: "(string \<Rightarrow> string) \<Rightarrow> 'f batch \<Rightarrow> nat \<Rightarrow> (string \<times> real \<times> real) option" where
  "vital_of low b i = Option.bind (text_at (cols_of low b ''event_name'') i) (map_of vitals)"

definition vital_at :: "(string \<Rightarrow> string) \<Rightarrow> 'f batch \<Rightarrow> nat \<Rightarrow> string option" where
  "vital_at low b i = map_option fst (vital_of low b i)"

definition value_at :: "'f float_ops \<Rightarrow> 'f column option \<Rightarrow> nat \<Rightarrow> 'f option" where
  "value_at fo c i = (case c of None \<Rightarrow> None | Some c \<Rightarrow>
     if is_null c i then None
     else (case c_floats c of Some fs \<Rightarrow> Some (fs ! i) | None \<Rightarrow> map_option (\<lambda>ns. fo_of_int fo (ns ! i)) (c_ints c)))"

definition vital_rating_at :: "'f float_ops \<Rightarrow> (string \<Rightarrow> string) \<Rightarrow> 'f batch \<Rightarrow> nat \<Rightarrow> string option" where
  "vital_rating_at fo low b i = map_option (\<lambda>(name, good, poor).
     let x = fo_value fo (bucket_of fo (value_at fo (cols_of low b ''value'') i))
     in if x \<le> good then ''good'' else if x \<le> poor then ''needs improvement'' else ''poor'') (vital_of low b i)"

text \<open>\<open>computedColumns\<close>, row by row.\<close>

definition computed_at :: "'f float_ops \<Rightarrow> (string \<Rightarrow> string) \<Rightarrow> string \<Rightarrow> ('f batch \<Rightarrow> nat \<Rightarrow> string option) option" where
  "computed_at fo low name = map_of
     [(''vital'', vital_at low), (''vital_rating'', vital_rating_at fo low), (''resolution'', resolution_at low),
      (''device_label'', device_label_at low), (''platform_version'', platform_version_at low),
      (''consent_state'', consent_state_at low), (''hour'', hour_at low), (''weekday'', weekday_at low)] name"

definition batch_column :: "'f float_ops \<Rightarrow> (string \<Rightarrow> string) \<Rightarrow> 'f batch \<Rightarrow> string \<Rightarrow> 'f column option" where
  "batch_column fo low b name = (case computed_at fo low name of
     Some f \<Rightarrow> Some (text_column (b_n b) (f b))
   | None \<Rightarrow>
       if name = ''bucket'' then
         (case cols_of low b ''value'' of Some c \<Rightarrow> Some c | None \<Rightarrow> Some (null_column (fo_zero fo) ''value'' (b_n b)))
       else cols_of low b name)"

section \<open>Compiled filters\<close>

text \<open>A query's filter, and what it compiles to.\<close>

datatype raw_filter = RawFilter (rf_column: string) (rf_op: string) (rf_values: "string list") (rf_columns: "string list")
  (rf_any: "raw_filter list") (rf_where: "raw_filter list") (rf_by: string) (rf_over: string)

datatype cfilter = CFilter (cf_column: string) (cf_any: "cfilter list option") (cf_inner: "cfilter list") (cf_over: string)
  (cf_ids: "string set option") (cf_typ: col_type) (cf_op: string) (cf_strs: "string list") (cf_str: string)
  (cf_ints: "int list") (cf_num: int)

datatype filter_error = OpNotAllowed string string string | BadValue string string
  | NotText string | NotNumber string | ValueNotNumber

definition at_index :: "string \<Rightarrow> nat \<Rightarrow> string \<Rightarrow> string" where
  "at_index path i field = path @ ''['' @ dec_nat i @ '']'' @ field"

definition ever_column :: "string \<Rightarrow> string" where
  "ever_column who = (if who = ''user'' then ''user_id'' else if who = ''group'' then ''group_id'' else ''actor_id'')"

definition set_filter :: "string \<Rightarrow> cfilter" where
  "set_filter c = CFilter c None [] [] None (type_of c) ''is_set'' [] [] [] 0"

fun parse_values :: "col_type \<Rightarrow> string \<Rightarrow> string list \<Rightarrow> int list \<Rightarrow> filter_error + int list" where
  "parse_values t path [] ns = Inr ns"
| "parse_values t path (v # vs) ns = (case parse_value t v of
     None \<Rightarrow> Inl (BadValue path v) | Some n \<Rightarrow> parse_values t path vs (ns @ [n]))"

text \<open>A filter on a column of its own.\<close>

definition compile_plain :: "raw_filter \<Rightarrow> string \<Rightarrow> nat \<Rightarrow> filter_error + cfilter" where
  "compile_plain f path i =
     (let c = rf_column f; t = type_of c; vs = rf_values f in
      if t = TypeString then Inr (CFilter c None [] [] None t (rf_op f) vs (if vs \<noteq> [] then hd vs else []) [] 0)
      else if rf_op f \<in> {''contains'', ''prefix'', ''not_prefix''} then Inl (OpNotAllowed (at_index path i ''.op'') (rf_op f) c)
      else and_then (parse_values t (at_index path i ''.values'') vs []) (\<lambda>ns.
        Inr (CFilter c None [] [] None t (rf_op f) [] [] ns (if ns \<noteq> [] then last ns else 0))))"

fun compile_from :: "nat \<Rightarrow> string \<Rightarrow> raw_filter list \<Rightarrow> filter_error + cfilter list"
and compile_one :: "nat \<Rightarrow> string \<Rightarrow> raw_filter \<Rightarrow> filter_error + cfilter" where
  "compile_from i path [] = Inr []"
| "compile_from i path (f # fs) = and_then (compile_one i path f) (\<lambda>c.
     and_then (compile_from (i + 1) path fs) (\<lambda>cs. Inr (c # cs)))"
| "compile_one i path (RawFilter column op values columns any inner who over) =
     (if op = ''ever'' \<or> op = ''never'' then
        and_then (compile_from 0 (at_index path i ''.where'') inner) (\<lambda>cs.
          Inr (CFilter (ever_column who) None cs over (Some {}) TypeString op [] [] [] 0))
      else if op = ''any_of'' then
        and_then (compile_from 0 (at_index path i ''.any'') any) (\<lambda>cs.
          Inr (CFilter [] (Some cs) [] [] None TypeString op [] [] [] 0))
      else if op = ''any_set'' then
        Inr (CFilter [] (Some (map set_filter columns)) [] [] None TypeString op [] [] [] 0)
      else compile_plain (RawFilter column op values columns any inner who over) path i)"

definition compile_filters :: "raw_filter list \<Rightarrow> string \<Rightarrow> filter_error + cfilter list" where
  "compile_filters fs path = compile_from 0 path fs"

section \<open>Matching a value\<close>

definition contains_text :: "string \<Rightarrow> string \<Rightarrow> bool" where
  "contains_text s sub \<longleftrightarrow> list_ex (\<lambda>i. has_prefix (drop i s) sub) [0..<length s + 1]"

definition match_string :: "cfilter \<Rightarrow> string \<Rightarrow> bool" where
  "match_string f s =
     (if cf_op f = ''eq'' then s = cf_str f
      else if cf_op f = ''ne'' then s \<noteq> cf_str f
      else if cf_op f = ''in'' then s \<in> set (cf_strs f)
      else if cf_op f = ''not_in'' then s \<notin> set (cf_strs f)
      else if cf_op f = ''contains'' then contains_text s (cf_str f)
      else if cf_op f = ''prefix'' then has_prefix s (cf_str f)
      else if cf_op f = ''not_prefix'' then \<not> has_prefix s (cf_str f)
      else cf_op f = ''is_set'' \<and> s \<noteq> [])"

definition match_int :: "cfilter \<Rightarrow> int \<Rightarrow> bool" where
  "match_int f n =
     (if cf_op f = ''eq'' then n = cf_num f
      else if cf_op f = ''ne'' then n \<noteq> cf_num f
      else if cf_op f = ''in'' then n \<in> set (cf_ints f)
      else if cf_op f = ''not_in'' then n \<notin> set (cf_ints f)
      else if cf_op f = ''gt'' then n > cf_num f
      else if cf_op f = ''gte'' then n \<ge> cf_num f
      else if cf_op f = ''lt'' then n < cf_num f
      else if cf_op f = ''lte'' then n \<le> cf_num f
      else cf_op f = ''is_set'')"

fun columns_of :: "cfilter \<Rightarrow> string list" and columns_all :: "cfilter list \<Rightarrow> string list \<Rightarrow> string list" where
  "columns_of (CFilter c None inner over ids t op strs str ints num) = [c]"
| "columns_of (CFilter c (Some fs) inner over ids t op strs str ints num) = columns_all fs []"
| "columns_all [] out = out"
| "columns_all (f # fs) out = columns_all fs (append_new out (columns_of f))"

fun append_read_columns :: "string list \<Rightarrow> cfilter list \<Rightarrow> string list" where
  "append_read_columns cols [] = cols"
| "append_read_columns cols (f # fs) =
     append_read_columns (foldl (\<lambda>cs c. append_new cs (read_columns c)) cols (columns_of f)) fs"

section \<open>Applying to a batch\<close>

definition pass_dict :: "cfilter \<Rightarrow> string list \<Rightarrow> bool list" where
  "pass_dict f dict = (case cf_ids f of
     None \<Rightarrow> map (match_string f) dict
   | Some ids \<Rightarrow> map (\<lambda>s. s \<noteq> [] \<and> (s \<in> ids) = (cf_op f = ''ever'')) dict)"

definition apply_column :: "'f float_ops \<Rightarrow> (string \<Rightarrow> string) \<Rightarrow> cfilter \<Rightarrow> 'f batch \<Rightarrow> bool list \<Rightarrow> filter_error + bool list" where
  "apply_column fo low f b keep = (case batch_column fo low b (cf_column f) of
     None \<Rightarrow> Inr (map (\<lambda>_. False) keep)
   | Some c \<Rightarrow> (case cf_typ f of
         TypeString \<Rightarrow> (case c_idx c of
             None \<Rightarrow> Inl (NotText (cf_column f))
           | Some idx \<Rightarrow> (let pass = pass_dict f (c_dict c) in
               Inr (map2 (\<lambda>k x. k \<and> \<not> (x < 0 \<or> \<not> pass ! nat x)) keep idx)))
       | TypeBucket \<Rightarrow> (case c_floats c of
             None \<Rightarrow> Inl ValueNotNumber
           | Some fs \<Rightarrow> Inr (map (\<lambda>(k, i, v). k \<and> match_int f (bucket_of fo (if is_null c i then None else Some v)))
               (zip keep (enumerate 0 fs))))
       | _ \<Rightarrow> (case c_ints c of
             None \<Rightarrow> Inl (NotNumber (cf_column f))
           | Some ns \<Rightarrow> Inr (map (\<lambda>(k, i, n). k \<and> \<not> (is_null c i \<or> \<not> match_int f n)) (zip keep (enumerate 0 ns))))))"

fun apply_filter :: "'f float_ops \<Rightarrow> (string \<Rightarrow> string) \<Rightarrow> cfilter \<Rightarrow> 'f batch \<Rightarrow> bool list \<Rightarrow> filter_error + bool list"
and apply_any :: "'f float_ops \<Rightarrow> (string \<Rightarrow> string) \<Rightarrow> cfilter list \<Rightarrow> 'f batch \<Rightarrow> bool list \<Rightarrow> filter_error + bool list" where
  "apply_filter fo low (CFilter c None inner over ids t op strs str ints num) b keep =
     apply_column fo low (CFilter c None inner over ids t op strs str ints num) b keep"
| "apply_filter fo low (CFilter c (Some fs) inner over ids t op strs str ints num) b keep =
     and_then (apply_any fo low fs b (replicate (b_n b) False)) (\<lambda>found. Inr (map2 (\<lambda>k s. k \<and> s) keep found))"
| "apply_any fo low [] b found = Inr found"
| "apply_any fo low (f # fs) b found =
     and_then (apply_filter fo low f b (replicate (b_n b) True)) (\<lambda>one. apply_any fo low fs b (map2 (\<lambda>s k. s \<or> k) found one))"

fun pass_from :: "'f float_ops \<Rightarrow> (string \<Rightarrow> string) \<Rightarrow> cfilter list \<Rightarrow> 'f batch \<Rightarrow> bool list \<Rightarrow> filter_error + bool list" where
  "pass_from fo low [] b keep = Inr keep"
| "pass_from fo low (f # fs) b keep = and_then (apply_filter fo low f b keep) (pass_from fo low fs b)"

definition pass_rows :: "'f float_ops \<Rightarrow> (string \<Rightarrow> string) \<Rightarrow> 'f batch \<Rightarrow> cfilter list \<Rightarrow> filter_error + bool list" where
  "pass_rows fo low b fs = pass_from fo low fs b (replicate (b_n b) True)"

definition select_rows :: "'f float_ops \<Rightarrow> (string \<Rightarrow> string) \<Rightarrow> 'f batch \<Rightarrow> cfilter list \<Rightarrow> filter_error + nat list" where
  "select_rows fo low b fs =
     (if fs = [] then Inr [0..<b_n b]
      else and_then (pass_rows fo low b fs) (\<lambda>keep. Inr (map fst (filter snd (enumerate 0 keep)))))"

text \<open>\<open>collectEver\<close> over the batches of its scan: the ids of the rows that pass the inner filters.\<close>

fun collect_ids :: "'f float_ops \<Rightarrow> (string \<Rightarrow> string) \<Rightarrow> cfilter \<Rightarrow> 'f batch list \<Rightarrow> string set \<Rightarrow> filter_error + string set" where
  "collect_ids fo low f [] ids = Inr ids"
| "collect_ids fo low f (b # bs) ids = (case batch_column fo low b (cf_column f) of
     None \<Rightarrow> collect_ids fo low f bs ids
   | Some c \<Rightarrow> and_then (select_rows fo low b (cf_inner f)) (\<lambda>sel.
       collect_ids fo low f bs (ids \<union> {s. s \<noteq> [] \<and> Some s \<in> text_at (Some c) ` set sel})))"

definition with_ids :: "string set \<Rightarrow> cfilter \<Rightarrow> cfilter" where
  "with_ids ids f = CFilter (cf_column f) (cf_any f) (cf_inner f) (cf_over f) (Some ids) (cf_typ f) (cf_op f)
     (cf_strs f) (cf_str f) (cf_ints f) (cf_num f)"

section \<open>What a filter means row by row\<close>

definition cell_of_text :: "string option \<Rightarrow> 'f cell" where
  "cell_of_text s = (case s of None \<Rightarrow> Null | Some t \<Rightarrow> Text t)"

text \<open>A row's value of a column: computed, the bucket's value, or as read.\<close>

definition row_cell :: "'f float_ops \<Rightarrow> (string \<Rightarrow> string) \<Rightarrow> 'f batch \<Rightarrow> string \<Rightarrow> nat \<Rightarrow> 'f cell" where
  "row_cell fo low b name i = (case computed_at fo low name of
     Some f \<Rightarrow> cell_of_text (f b i)
   | None \<Rightarrow> plain_cell low b (if name = ''bucket'' then ''value'' else name) i)"

text \<open>NULL passes nothing, except that a bucket of NULL is -1000.\<close>

definition column_passes :: "'f float_ops \<Rightarrow> cfilter \<Rightarrow> 'f cell \<Rightarrow> bool" where
  "column_passes fo f v = (case cf_typ f of
     TypeString \<Rightarrow> (case v of
         Text s \<Rightarrow> (case cf_ids f of None \<Rightarrow> match_string f s | Some ids \<Rightarrow> s \<noteq> [] \<and> (s \<in> ids) = (cf_op f = ''ever''))
       | _ \<Rightarrow> False)
   | TypeBucket \<Rightarrow> match_int f (bucket_of fo (case v of Float x \<Rightarrow> Some x | _ \<Rightarrow> None))
   | _ \<Rightarrow> (case v of Num n \<Rightarrow> match_int f n | _ \<Rightarrow> False))"

fun passes :: "'f float_ops \<Rightarrow> (string \<Rightarrow> string) \<Rightarrow> 'f batch \<Rightarrow> nat \<Rightarrow> cfilter \<Rightarrow> bool"
and any_passes :: "'f float_ops \<Rightarrow> (string \<Rightarrow> string) \<Rightarrow> 'f batch \<Rightarrow> nat \<Rightarrow> cfilter list \<Rightarrow> bool" where
  "passes fo low b i (CFilter c None inner over ids t op strs str ints num) =
     column_passes fo (CFilter c None inner over ids t op strs str ints num) (row_cell fo low b c i)"
| "passes fo low b i (CFilter c (Some fs) inner over ids t op strs str ints num) = any_passes fo low b i fs"
| "any_passes fo low b i [] = False"
| "any_passes fo low b i (f # fs) = (passes fo low b i f \<or> any_passes fo low b i fs)"

text \<open>The column's type in the batch is the one the filter was compiled for.\<close>

fun fits :: "'f float_ops \<Rightarrow> (string \<Rightarrow> string) \<Rightarrow> 'f batch \<Rightarrow> cfilter \<Rightarrow> bool"
and all_fit :: "'f float_ops \<Rightarrow> (string \<Rightarrow> string) \<Rightarrow> 'f batch \<Rightarrow> cfilter list \<Rightarrow> bool" where
  "fits fo low b (CFilter c None inner over ids t op strs str ints num) =
     (case batch_column fo low b c of None \<Rightarrow> True | Some d \<Rightarrow>
       (case t of TypeString \<Rightarrow> c_idx d \<noteq> None | TypeBucket \<Rightarrow> c_floats d \<noteq> None | _ \<Rightarrow> c_ints d \<noteq> None))"
| "fits fo low b (CFilter c (Some fs) inner over ids t op strs str ints num) = all_fit fo low b fs"
| "all_fit fo low b [] = True"
| "all_fit fo low b (f # fs) = (fits fo low b f \<and> all_fit fo low b fs)"

text \<open>Only the column bucket is compiled as one.\<close>

fun compiled_ok :: "cfilter \<Rightarrow> bool" and all_compiled :: "cfilter list \<Rightarrow> bool" where
  "compiled_ok (CFilter c None inner over ids t op strs str ints num) = (t = TypeBucket \<longrightarrow> c = ''bucket'')"
| "compiled_ok (CFilter c (Some fs) inner over ids t op strs str ints num) = all_compiled fs"
| "all_compiled [] = True"
| "all_compiled (f # fs) = (compiled_ok f \<and> all_compiled fs)"

section \<open>Computed columns are the rows' texts\<close>

lemma text_id_ok: "text_id s d = (i, d') \<Longrightarrow> i < length d' \<and> d' ! i = s \<and> (\<exists>ys. d' = d @ ys)"
  by (auto simp: text_id_def find_None_iff find_Some_iff nth_append split: option.splits)

definition row_ok :: "string option \<Rightarrow> int \<Rightarrow> string list \<Rightarrow> bool" where
  "row_ok v x d = (case v of None \<Rightarrow> x = - 1 | Some s \<Rightarrow> 0 \<le> x \<and> nat x < length d \<and> d ! nat x = s)"

lemma text_rows_ok:
  "text_rows value js d = (xs, d') \<Longrightarrow> (\<exists>ys. d' = d @ ys) \<and> list_all2 (\<lambda>j x. row_ok (value j) x d') js xs"
proof (induction js arbitrary: d xs)
  case (Cons j js)
  show ?case
  proof (cases "value j")
    case None
    then obtain ys where "text_rows value js d = (ys, d')" "xs = - 1 # ys" using Cons.prems by (auto split: prod.splits)
    then show ?thesis using Cons.IH None by (simp add: row_ok_def)
  next
    case (Some s)
    then obtain x d1 ys where id: "text_id s d = (x, d1)" and r: "text_rows value js d1 = (ys, d')" and xs: "xs = int x # ys"
      using Cons.prems by (auto split: prod.splits)
    from Cons.IH [OF r] obtain zs where zs: "d' = d1 @ zs" "list_all2 (\<lambda>j x. row_ok (value j) x d') js ys" by blast
    from text_id_ok [OF id] zs show ?thesis unfolding xs using Some by (auto simp: row_ok_def nth_append)
  qed
qed simp

lemma text_column_ok:
  "column_ok n (text_column n value)" "c_idx (text_column n value) \<noteq> None"
  "i < n \<Longrightarrow> cell_at (text_column n value :: 'f column) i = cell_of_text (value i)"
proof -
  obtain xs d where r: "text_rows value [0..<n] [] = (xs, d)" by fastforce
  have c: "text_column n value = (no_column\<lparr>c_dict := d, c_idx := Some xs\<rparr> :: 'f column)" by (simp add: text_column_def r)
  have all: "list_all2 (\<lambda>j x. row_ok (value j) x d) [0..<n] xs" using text_rows_ok [OF r] by simp
  have len: "length xs = n" using list_all2_lengthD [OF all] by simp
  have ok: "row_ok (value k) (xs ! k) d" if "k < n" for k using list_all2_nthD [OF all, of k] that by simp
  have lt: "x < int (length d)" if "x \<in> set xs" for x
  proof -
    from that obtain k where "k < n" "x = xs ! k" using len by (auto simp: in_set_conv_nth)
    then show ?thesis using ok [of k] by (auto simp: row_ok_def split: option.splits)
  qed
  show "column_ok n (text_column n value)" unfolding column_ok_def using len lt
    by (simp add: text_column_def r no_column_def)
  show "c_idx (text_column n value) \<noteq> None" by (simp add: text_column_def r no_column_def)
  show "cell_at (text_column n value :: 'f column) i = cell_of_text (value i)" if "i < n"
    using ok [OF that] unfolding c by (auto simp: row_ok_def cell_at_def cell_of_text_def split: option.splits)
qed

lemma cols_ok: "batch_ok b \<Longrightarrow> cols_of low b name = Some c \<Longrightarrow> column_ok (b_n b) c"
  using col_ok by (auto simp: cols_of_def)

text \<open>A column of a batch, computed or read, holds the rows' values.\<close>

lemma batch_column_cells:
  assumes "batch_ok b" and "batch_column fo low b name = Some c"
  shows "column_ok (b_n b) c \<and> (\<forall>i < b_n b. cell_at c i = row_cell fo low b name i)"
proof (cases "computed_at fo low name")
  case (Some f)
  then have "c = text_column (b_n b) (f b)" using assms(2) by (simp add: batch_column_def)
  then show ?thesis using Some by (simp add: row_cell_def text_column_ok)
next
  case None
  show ?thesis
  proof (cases "name = ''bucket''")
    case True
    then show ?thesis using assms None cols_ok null_column_ok cell_null_column
      by (auto simp: batch_column_def row_cell_def plain_cell_def split: option.splits)
  next
    case False
    then show ?thesis using assms None cols_ok by (simp add: batch_column_def row_cell_def plain_cell_def)
  qed
qed

lemma batch_column_none: "batch_column fo low b name = None \<Longrightarrow> row_cell fo low b name i = Null \<and> name \<noteq> ''bucket''"
  by (auto simp: batch_column_def row_cell_def plain_cell_def split: option.splits if_splits)

section \<open>Applying filters is testing rows\<close>

lemma apply_column_rows:
  assumes ok: "batch_ok b" and f: "cf_any f = None" "cf_typ f = TypeBucket \<longrightarrow> cf_column f = ''bucket''" and l: "length keep = b_n b"
  shows "(case batch_column fo low b (cf_column f) of None \<Rightarrow> True | Some d \<Rightarrow>
       (case cf_typ f of TypeString \<Rightarrow> c_idx d \<noteq> None | TypeBucket \<Rightarrow> c_floats d \<noteq> None | _ \<Rightarrow> c_ints d \<noteq> None))
     \<longleftrightarrow> (\<exists>k. apply_column fo low f b keep = Inr k)"
    and "apply_column fo low f b keep = Inr k \<Longrightarrow> k = map2 (\<and>) keep (map (\<lambda>i. column_passes fo f (row_cell fo low b (cf_column f) i)) [0..<b_n b])"
proof -
  show "(case batch_column fo low b (cf_column f) of None \<Rightarrow> True | Some d \<Rightarrow>
       (case cf_typ f of TypeString \<Rightarrow> c_idx d \<noteq> None | TypeBucket \<Rightarrow> c_floats d \<noteq> None | _ \<Rightarrow> c_ints d \<noteq> None))
     \<longleftrightarrow> (\<exists>k. apply_column fo low f b keep = Inr k)"
    by (auto simp: apply_column_def Let_def split: option.splits col_type.splits)
  assume r: "apply_column fo low f b keep = Inr k"
  show "k = map2 (\<and>) keep (map (\<lambda>i. column_passes fo f (row_cell fo low b (cf_column f) i)) [0..<b_n b])"
  proof (cases "batch_column fo low b (cf_column f)")
    case None
    then have "k = map (\<lambda>_. False) keep" using r by (simp add: apply_column_def)
    moreover have "\<not> column_passes fo f (row_cell fo low b (cf_column f) i)" for i
      using batch_column_none [OF None] f(2) by (auto simp: column_passes_def split: col_type.splits)
    ultimately show ?thesis using l by (simp add: list_eq_iff_nth_eq)
  next
    case (Some c)
    note cells = batch_column_cells [OF ok Some]
    have cell: "i < b_n b \<Longrightarrow> row_cell fo low b (cf_column f) i = cell_at c i" for i using cells by simp
    have idx: "length xs = b_n b \<and> (\<forall>x \<in> set xs. x < int (length (c_dict c)))" if "c_idx c = Some xs" for xs
      using that cells by (simp add: column_ok_def)
    consider (str) "cf_typ f = TypeString" | (bucket) "cf_typ f = TypeBucket" | (num) "cf_typ f = TypeInt \<or> cf_typ f = TypeDay"
      by (cases "cf_typ f") auto
    then show ?thesis
    proof cases
      case str
      obtain xs where xs: "c_idx c = Some xs" using r Some str by (auto simp: apply_column_def split: option.splits)
      then have k: "k = map2 (\<lambda>k x. k \<and> \<not> (x < 0 \<or> \<not> pass_dict f (c_dict c) ! nat x)) keep xs"
        using r Some str by (simp add: apply_column_def Let_def)
      have "(\<not> (xs ! i < 0 \<or> \<not> pass_dict f (c_dict c) ! nat (xs ! i))) = column_passes fo f (cell_at c i)"
        if i: "i < b_n b" for i
      proof (cases "xs ! i < 0")
        case True
        then show ?thesis using xs str by (simp add: cell_at_def column_passes_def)
      next
        case False
        then have "nat (xs ! i) < length (c_dict c)" using idx [OF xs] i by (auto simp: nat_less_iff)
        then show ?thesis using False xs str
          by (auto simp: cell_at_def column_passes_def pass_dict_def split: option.splits)
      qed
      then show ?thesis unfolding k using l idx [OF xs] cell by (simp add: list_eq_iff_nth_eq)
    next
      case bucket
      obtain fs where fs: "c_floats c = Some fs" using r Some bucket by (auto simp: apply_column_def split: option.splits)
      have lf: "length fs = b_n b" and no: "c_idx c = None" "c_ints c = None"
        using cells fs by (auto simp: column_ok_def)
      have k: "k = map (\<lambda>(k, i, v). k \<and> match_int f (bucket_of fo (if is_null c i then None else Some v))) (zip keep (enumerate 0 fs))"
        using r Some bucket fs by (simp add: apply_column_def)
      have "match_int f (bucket_of fo (if is_null c i then None else Some (fs ! i))) = column_passes fo f (cell_at c i)" for i
        using fs no bucket by (simp add: cell_at_def column_passes_def)
      then show ?thesis unfolding k using l lf cell by (simp add: list_eq_iff_nth_eq nth_enumerate_eq)
    next
      case num
      obtain ns where ns: "c_ints c = Some ns" using r Some num by (auto simp: apply_column_def split: option.splits)
      have ln: "length ns = b_n b" and no: "c_idx c = None" using cells ns by (auto simp: column_ok_def)
      have k: "k = map (\<lambda>(k, i, n). k \<and> \<not> (is_null c i \<or> \<not> match_int f n)) (zip keep (enumerate 0 ns))"
        using r Some num ns by (auto simp: apply_column_def)
      have "(\<not> (is_null c i \<or> \<not> match_int f (ns ! i))) = column_passes fo f (cell_at c i)" for i
        using ns no num by (auto simp: cell_at_def column_passes_def)
      then show ?thesis unfolding k using l ln cell by (simp add: list_eq_iff_nth_eq nth_enumerate_eq)
    qed
  qed
qed

definition row_bits :: "nat \<Rightarrow> (nat \<Rightarrow> bool) \<Rightarrow> bool list" where
  "row_bits n P = map P [0..<n]"

lemma row_bits_simps [simp]:
  "length (row_bits n P) = n" "map2 (\<and>) (row_bits n P) (map Q [0..<n]) = row_bits n (\<lambda>i. P i \<and> Q i)"
  "map2 (\<and>) (row_bits n P) (row_bits n Q) = row_bits n (\<lambda>i. P i \<and> Q i)"
  "map2 (\<or>) (row_bits n P) (row_bits n Q) = row_bits n (\<lambda>i. P i \<or> Q i)"
  by (simp_all add: row_bits_def list_eq_iff_nth_eq)

lemma replicate_bits: "replicate n x = row_bits n (\<lambda>_. x)"
  by (simp add: row_bits_def list_eq_iff_nth_eq)

text \<open>A list of booleans as long as the batch is the bits of a predicate on rows.\<close>

lemma apply_filter_rows:
  "batch_ok b \<Longrightarrow> compiled_ok f \<Longrightarrow>
     (fits fo low b f \<longleftrightarrow> (\<exists>k. apply_filter fo low f b (row_bits (b_n b) P) = Inr k))
     \<and> (fits fo low b f \<longrightarrow> apply_filter fo low f b (row_bits (b_n b) P) = Inr (row_bits (b_n b) (\<lambda>i. P i \<and> passes fo low b i f)))"
  "batch_ok b \<Longrightarrow> all_compiled fs \<Longrightarrow>
     (all_fit fo low b fs \<longleftrightarrow> (\<exists>k. apply_any fo low fs b (row_bits (b_n b) Q) = Inr k))
     \<and> (all_fit fo low b fs \<longrightarrow> apply_any fo low fs b (row_bits (b_n b) Q) = Inr (row_bits (b_n b) (\<lambda>i. Q i \<or> any_passes fo low b i fs)))"
proof (induction f and fs arbitrary: P and Q rule: compiled_ok_all_compiled.induct)
  case (1 c inner over ids t op strs str ints num)
  let ?f = "CFilter c None inner over ids t op strs str ints num"
  have l: "length (row_bits (b_n b) P) = b_n b" by simp
  have s: "cf_any ?f = None" "cf_typ ?f = TypeBucket \<longrightarrow> cf_column ?f = ''bucket''" using 1 by simp_all
  note a = apply_column_rows [OF 1(1) s l, of fo low]
  show ?case using a(1) a(2) unfolding cfilter.sel apply_filter.simps passes.simps fits.simps by auto
next
  case (2 c fs inner over ids t op strs str ints num)
  have "all_compiled fs" using 2 by simp
  note IH = "2.IH" [OF 2(2) this, of "\<lambda>_. False"]
  show ?case using IH by (auto simp: replicate_bits and_then_Inr)
next
  case 3
  then show ?case by simp
next
  case (4 f fs)
  then have ok: "compiled_ok f" "all_compiled fs" by simp_all
  note f = "4.IH"(1) [OF 4(3) ok(1), of "\<lambda>_. True"]
  note fs = "4.IH"(2) [OF 4(3) ok(2), of "\<lambda>i. Q i \<or> passes fo low b i f"]
  show ?case
  proof (cases "fits fo low b f")
    case True
    then have "apply_filter fo low f b (replicate (b_n b) True) = Inr (row_bits (b_n b) (\<lambda>i. passes fo low b i f))"
      using f by (simp add: replicate_bits)
    then show ?thesis using fs True by (auto simp: disj_assoc)
  next
    case False
    then show ?thesis using f by (auto simp: replicate_bits and_then_Inr)
  qed
qed

lemma pass_from_rows:
  assumes "batch_ok b" and "list_all compiled_ok fs"
  shows "(list_all (fits fo low b) fs \<longleftrightarrow> (\<exists>k. pass_from fo low fs b (row_bits (b_n b) P) = Inr k))
    \<and> (list_all (fits fo low b) fs \<longrightarrow> pass_from fo low fs b (row_bits (b_n b) P)
         = Inr (row_bits (b_n b) (\<lambda>i. P i \<and> list_all (passes fo low b i) fs)))"
  using assms(2)
proof (induction fs arbitrary: P)
  case (Cons f fs)
  note f = apply_filter_rows(1) [OF assms(1), of f fo low P]
  show ?case
  proof (cases "fits fo low b f")
    case True
    then have "apply_filter fo low f b (row_bits (b_n b) P) = Inr (row_bits (b_n b) (\<lambda>i. P i \<and> passes fo low b i f))"
      using f Cons.prems by simp
    then show ?thesis using Cons.IH [of "\<lambda>i. P i \<and> passes fo low b i f"] Cons.prems True by (simp add: conj_assoc)
  next
    case False
    then show ?thesis using f Cons.prems by (auto simp: and_then_Inr)
  qed
qed simp

lemma enumerate_bits: "map fst (filter snd (enumerate 0 (row_bits n P))) = filter P [0..<n]"
proof -
  have "enumerate 0 (row_bits n P) = map (\<lambda>i. (i, P i)) [0..<n]" by (simp add: list_eq_iff_nth_eq nth_enumerate_eq row_bits_def)
  then show ?thesis by (simp add: filter_map comp_def)
qed

lemma select_rows_ok:
  assumes "batch_ok b" and "list_all compiled_ok fs"
  shows "(list_all (fits fo low b) fs \<longleftrightarrow> (\<exists>sel. select_rows fo low b fs = Inr sel))
    \<and> (list_all (fits fo low b) fs \<longrightarrow> select_rows fo low b fs = Inr (filter (\<lambda>i. list_all (passes fo low b i) fs) [0..<b_n b]))"
  using pass_from_rows [OF assms, of fo low "\<lambda>_. True"]
  by (auto simp: select_rows_def pass_rows_def replicate_bits enumerate_bits and_then_Inr)

section \<open>Compiling gives filters that apply\<close>

lemma type_bucket: "type_of c = TypeBucket \<longleftrightarrow> c = ''bucket''"
  by (simp add: type_of_def)

lemma all_compiled_set: "all_compiled fs \<longleftrightarrow> list_all compiled_ok fs"
  by (induction fs) simp_all

lemma compile_ok:
  "compile_from i path fs = Inr cs \<Longrightarrow> all_compiled cs"
  "compile_one i path f = Inr c \<Longrightarrow> compiled_ok c"
proof (induction i path fs and i path f arbitrary: cs and c rule: compile_from_compile_one.induct)
  case (3 i path column op vs columns any inner who over)
  have sets: "all_compiled (map set_filter cs)" for cs
    by (induction cs) (simp_all add: set_filter_def type_bucket)
  show ?case
    using 3 sets [of columns] by (auto simp: and_then_Inr compile_plain_def type_bucket Let_def split: if_splits)
qed (auto simp: and_then_Inr)

section \<open>Ever and never\<close>

lemma text_at_cell: "text_at (Some c) i = (case cell_at c i of Text s \<Rightarrow> Some s | _ \<Rightarrow> None)"
  by (auto simp: text_at_def cell_at_def split: option.splits)

text \<open>The ids with a row that passes the filter's where, over the batches of events.\<close>

definition ever_ids :: "'f float_ops \<Rightarrow> (string \<Rightarrow> string) \<Rightarrow> cfilter \<Rightarrow> 'f batch list \<Rightarrow> string set" where
  "ever_ids fo low f bs = {s. s \<noteq> [] \<and> (\<exists>b \<in> set bs. \<exists>i < b_n b. row_cell fo low b (cf_column f) i = Text s
     \<and> list_all (passes fo low b i) (cf_inner f))}"

lemma collect_ids_ok:
  assumes "\<And>b. b \<in> set bs \<Longrightarrow> batch_ok b \<and> list_all (fits fo low b) (cf_inner f)" and "list_all compiled_ok (cf_inner f)"
  shows "collect_ids fo low f bs ids = Inr (ids \<union> ever_ids fo low f bs)"
  using assms(1)
proof (induction bs arbitrary: ids)
  case (Cons b bs)
  have b: "batch_ok b" "list_all (fits fo low b) (cf_inner f)" using Cons.prems by auto
  have split: "ever_ids fo low f (b # bs) = ever_ids fo low f [b] \<union> ever_ids fo low f bs" by (auto simp: ever_ids_def)
  show ?case
  proof (cases "batch_column fo low b (cf_column f)")
    case None
    then have "ever_ids fo low f [b] = {}" using batch_column_none [OF None] by (simp add: ever_ids_def)
    then show ?thesis using None Cons by (simp add: split)
  next
    case (Some c)
    have sel: "select_rows fo low b (cf_inner f) = Inr (filter (\<lambda>i. list_all (passes fo low b i) (cf_inner f)) [0..<b_n b])"
      using select_rows_ok [OF b(1) assms(2), of fo low] b(2) by simp
    have "{s. s \<noteq> [] \<and> Some s \<in> text_at (Some c) ` set (filter (\<lambda>i. list_all (passes fo low b i) (cf_inner f)) [0..<b_n b])}
        = ever_ids fo low f [b]"
    proof -
      have "(Some s = text_at (Some c) i) = (row_cell fo low b (cf_column f) i = Text s)" if "i < b_n b" for i s
        using batch_column_cells [OF b(1) Some] that by (auto simp: text_at_cell split: cell.splits)
      then show ?thesis by (auto simp: ever_ids_def image_iff)
    qed
    then show ?thesis using Some sel Cons by (simp add: split Un_assoc)
  qed
qed (simp add: ever_ids_def)

section \<open>Properties\<close>

text \<open> C2:
  Filters applied to a batch column by column, through dictionaries and computed columns, select
  exactly the rows each of whose values passes, in order, and fail only when a column of the batch
  is not of the type its filter was compiled for.
\<close>

theorem select_rows_by_row:
  assumes "batch_ok b" and "compile_filters where path = Inr fs"
  shows "((\<exists>sel. select_rows fo low b fs = Inr sel) \<longleftrightarrow> list_all (fits fo low b) fs)
    \<and> (list_all (fits fo low b) fs \<longrightarrow>
        select_rows fo low b fs = Inr (filter (\<lambda>i. list_all (passes fo low b i) fs) [0..<b_n b]))"
proof -
  have "list_all compiled_ok fs"
    using compile_ok(1) [of 0 path "where" fs] assms(2) by (simp add: compile_filters_def all_compiled_set)
  then show ?thesis using select_rows_ok [OF assms(1), of fs fo low] by blast
qed

definition sample_ops :: "int float_ops" where
  "sample_ops = \<lparr>fo_zero = 0, fo_positive = (\<lambda>x. 0 < x), fo_log = (\<lambda>x. x), fo_of_int = (\<lambda>x. x), fo_value = real_of_int\<rparr>"

definition sample_batch :: "int batch" where
  "sample_batch = \<lparr>b_n = 3, b_cols = [(''path'', no_column\<lparr>c_dict := [''/a'', ''/b''], c_idx := Some [0, 1, - 1]\<rparr>),
     (''consent'', no_column\<lparr>c_ints := Some [1, 0, 0], c_null := Some [False, False, True]\<rparr>)]\<rparr>"

definition sample_where :: "raw_filter list" where
  "sample_where = [RawFilter ''path'' ''ne'' [''/a''] [] [] [] [] [], RawFilter ''consent_state'' ''in'' [''none'', ''given''] [] [] [] [] []]"

theorem select_rows_by_row_witness:
  "\<exists>fs. compile_filters sample_where ''where'' = Inr fs \<and> select_rows sample_ops ascii_low sample_batch fs = Inr [1]"
proof -
  let ?fs = "projr (compile_filters sample_where ''where'')"
  have fs: "?fs = [CFilter ''path'' None [] [] None TypeString ''ne'' [''/a''] ''/a'' [] 0,
    CFilter ''consent_state'' None [] [] None TypeString ''in'' [''none'', ''given''] ''none'' [] 0]" by code_simp
  have c: "compile_filters sample_where ''where'' = Inr ?fs" by code_simp
  have b: "batch_ok sample_batch" by (auto simp: batch_ok_def sample_batch_def column_ok_def no_column_def)
  have fit: "list_all (fits sample_ops ascii_low sample_batch) ?fs" by code_simp
  have "filter (\<lambda>i. list_all (passes sample_ops ascii_low sample_batch i) ?fs) [0..<b_n sample_batch] = [1]" by code_simp
  then show ?thesis using select_rows_by_row [OF b c, of sample_ops ascii_low] fit c by auto
qed

text \<open>An ever or a never compiles to one test of ids, and its where to the filters it collects by.\<close>

lemma compile_ever:
  assumes "compile_filters [r] path = Inr [f]" and "rf_op r \<in> {''ever'', ''never''}"
  shows "cf_any f = None \<and> cf_typ f = TypeString \<and> cf_op f = rf_op r \<and> cf_column f = ever_column (rf_by r)
    \<and> list_all compiled_ok (cf_inner f)"
  using assms compile_ok(1)
  by (cases r) (auto simp: compile_filters_def and_then_Inr all_compiled_set)

text \<open>The test of ids, row by row.\<close>

lemma passes_ids:
  assumes "cf_any f = None" and "cf_typ f = TypeString"
  shows "passes fo low b i (with_ids ids f) \<longleftrightarrow>
    (\<exists>s. row_cell fo low b (cf_column f) i = Text s \<and> s \<noteq> [] \<and> (s \<in> ids) = (cf_op f = ''ever''))"
  using assms by (auto simp: with_ids_def column_passes_def split: cell.splits)

lemma fits_ids: "cf_any f = None \<Longrightarrow> fits fo low b (with_ids ids f) = fits fo low b f"
  by (cases f) (simp add: with_ids_def)

lemma compiled_ids: "cf_any f = None \<Longrightarrow> cf_typ f = TypeString \<Longrightarrow> compiled_ok (with_ids ids f)"
  by (cases f) (simp add: with_ids_def)

text \<open> C40:
  Ever and never. Compiled, with the ids collected from the batches of the project's events, and
  applied to the rows of a batch: an ever selects exactly the rows that have an id, not empty, some
  event of which the code's own selection by the filter's where takes; a never selects exactly
  those that have one no such event has. A row without an id is selected by neither.
\<close>

theorem ever_and_never:
  assumes "rf_op r \<in> {''ever'', ''never''}" and "compile_filters [r] path = Inr [f]"
    and "\<And>e. e \<in> set events \<Longrightarrow> batch_ok e \<and> list_all (fits fo low e) (cf_inner f)"
    and "batch_ok b" and "fits fo low b f"
  shows "\<exists>ids. collect_ids fo low f events {} = Inr ids
    \<and> select_rows fo low b [with_ids ids f] = Inr (filter (\<lambda>i. \<exists>s. row_cell fo low b (ever_column (rf_by r)) i = Text s \<and> s \<noteq> []
        \<and> ((\<exists>e \<in> set events. \<exists>taken. select_rows fo low e (cf_inner f) = Inr taken
              \<and> (\<exists>j \<in> set taken. row_cell fo low e (ever_column (rf_by r)) j = Text s))
            = (rf_op r = ''ever''))) [0..<b_n b])"
proof -
  have f: "cf_any f = None" "cf_typ f = TypeString" "cf_op f = rf_op r" "cf_column f = ever_column (rf_by r)"
    "list_all compiled_ok (cf_inner f)" using compile_ever [OF assms(2,1)] by simp_all
  have c: "collect_ids fo low f events {} = Inr (ever_ids fo low f events)"
    using collect_ids_ok [of events fo low f "{}", OF assms(3) f(5)] by simp
  have sel: "select_rows fo low e (cf_inner f) = Inr (filter (\<lambda>j. list_all (passes fo low e j) (cf_inner f)) [0..<b_n e])"
    if "e \<in> set events" for e
    using select_rows_ok [OF _ f(5), of e fo low] assms(3) [OF that] by simp
  have ids: "s \<in> ever_ids fo low f events \<longleftrightarrow> s \<noteq> [] \<and> (\<exists>e \<in> set events. \<exists>taken. select_rows fo low e (cf_inner f) = Inr taken
              \<and> (\<exists>j \<in> set taken. row_cell fo low e (ever_column (rf_by r)) j = Text s))" for s
    by (auto simp: ever_ids_def f(4) sel)
  have "select_rows fo low b [with_ids (ever_ids fo low f events) f]
      = Inr (filter (\<lambda>i. list_all (passes fo low b i) [with_ids (ever_ids fo low f events) f]) [0..<b_n b])"
    using select_rows_ok [OF assms(4), of "[with_ids (ever_ids fo low f events) f]" fo low] assms(5) f(1,2)
    by (simp add: fits_ids compiled_ids)
  moreover have "list_all (passes fo low b i) [with_ids (ever_ids fo low f events) f]
      \<longleftrightarrow> (\<exists>s. row_cell fo low b (ever_column (rf_by r)) i = Text s \<and> s \<noteq> []
        \<and> ((\<exists>e \<in> set events. \<exists>taken. select_rows fo low e (cf_inner f) = Inr taken
              \<and> (\<exists>j \<in> set taken. row_cell fo low e (ever_column (rf_by r)) j = Text s))
            = (rf_op r = ''ever'')))" for i
    using passes_ids [OF f(1,2), of fo low b i "ever_ids fo low f events"] by (auto simp: ids f(3,4))
  ultimately show ?thesis using c by simp
qed

text \<open>The users who never saw the page /a: only the last row is of one.\<close>

definition sample_never :: raw_filter where
  "sample_never = RawFilter [] ''never'' [] [] [] [RawFilter ''path'' ''eq'' [''/a''] [] [] [] [] []] ''user'' []"

definition sample_users :: "int batch" where
  "sample_users = \<lparr>b_n = 4, b_cols = [(''path'', no_column\<lparr>c_dict := [''/a'', ''/b''], c_idx := Some [0, 1, 1, 0]\<rparr>),
     (''user_id'', no_column\<lparr>c_dict := [''u'', ''v''], c_idx := Some [0, 0, 1, - 1]\<rparr>)]\<rparr>"

theorem ever_and_never_witness:
  "\<exists>f ids. compile_filters [sample_never] ''where'' = Inr [f] \<and> collect_ids sample_ops ascii_low f [sample_users] {} = Inr ids
    \<and> select_rows sample_ops ascii_low sample_users [with_ids ids f] = Inr [2]"
proof -
  let ?f = "hd (projr (compile_filters [sample_never] ''where''))"
  have c: "compile_filters [sample_never] ''where'' = Inr [?f]" by code_simp
  have f: "cf_inner ?f = [CFilter ''path'' None [] [] None TypeString ''eq'' [''/a''] ''/a'' [] 0]" by code_simp
  have ok: "batch_ok sample_users" by (auto simp: batch_ok_def sample_users_def column_ok_def no_column_def)
  have fit: "list_all (fits sample_ops ascii_low sample_users) (cf_inner ?f)" "fits sample_ops ascii_low sample_users ?f"
    by code_simp+
  have rows: "map (row_cell sample_ops ascii_low sample_users ''user_id'') [0, 1, 2, 3] = [Text ''u'', Text ''u'', Text ''v'', Null]"
    by code_simp
  have taken: "select_rows sample_ops ascii_low sample_users (cf_inner ?f) = Inr [0, 3]" by code_simp
  have r: "rf_op sample_never = ''never''" "ever_column (rf_by sample_never) = ''user_id''" by code_simp+
  have n: "[0..<b_n sample_users] = [0, 1, 2, 3]" by code_simp
  have "\<exists>ids. collect_ids sample_ops ascii_low ?f [sample_users] {} = Inr ids
    \<and> select_rows sample_ops ascii_low sample_users [with_ids ids ?f] = Inr (filter (\<lambda>i. \<exists>s.
        row_cell sample_ops ascii_low sample_users (ever_column (rf_by sample_never)) i = Text s \<and> s \<noteq> []
        \<and> ((\<exists>e \<in> set [sample_users]. \<exists>taken. select_rows sample_ops ascii_low e (cf_inner ?f) = Inr taken
              \<and> (\<exists>j \<in> set taken. row_cell sample_ops ascii_low e (ever_column (rf_by sample_never)) j = Text s))
            = (rf_op sample_never = ''ever''))) [0..<b_n sample_users])"
    by (rule ever_and_never [OF _ c]) (use r ok fit in auto)
  then show ?thesis using c rows by (auto simp: r taken n)
qed

end
