(* ===== verification/NativeRules.thy ===== *)
theory NativeRules
  imports NativeBatch "HOL-Library.Product_Lexorder"
begin

text \<open>
  Event and attribute rules applied to batches as they are read (\<^verbatim>\<open>internal/native/rules.go\<close>): compiling a
  project's rules against the columns the files have, the columns a scan must read for them, and
  applying them, which renames, merges and leaves out events and folds renamed attribute keys into
  their targets. \<open>strings.ToLower\<close> is the parameter \<open>lower\<close>, \<open>strings.EqualFold\<close> equality under
  \<open>low\<close>. No two rules of a project have one family and name, or one key (the rules table's key), so
  the unstable sort of the code has one outcome.
\<close>

section \<open>Rules\<close>

datatype action = Rename | Block

record event_rule =
  er_project :: int
  er_family :: string
  er_name :: string
  er_action :: action
  er_to :: string

record attr_rule =
  ar_project :: int
  ar_key :: string
  ar_action :: action
  ar_to :: string

datatype event_action = DropEvent | RenameTo string

record attr_col =
  ac_name :: string
  ac_null :: bool
  ac_from :: "string list option"

record rule_set =
  rs_events :: "((string \<times> string) \<times> event_action) list"
  rs_drop_fams :: "string list"
  rs_drop_names :: "string list"
  rs_attrs :: "attr_col list"

section \<open>Compiling\<close>

definition blocked_events :: "int \<Rightarrow> event_rule list \<Rightarrow> (string \<times> string) list" where
  "blocked_events p ev = map (\<lambda>r. (er_family r, er_name r)) (filter (\<lambda>r. er_project r = p \<and> er_action r = Block) ev)"

definition drops :: "(string \<times> string) list \<Rightarrow> event_rule \<Rightarrow> bool" where
  "drops blocked r \<longleftrightarrow> er_action r = Block \<or> (er_family r, er_to r) \<in> set blocked"

fun event_rules :: "int \<Rightarrow> (string \<times> string) list \<Rightarrow> event_rule list \<Rightarrow> rule_set \<Rightarrow> rule_set" where
  "event_rules p blocked [] rs = rs"
| "event_rules p blocked (r # rest) rs =
     (if er_project r \<noteq> p then event_rules p blocked rest rs
      else
        let k = (er_family r, er_name r); drop = drops blocked r;
            skip = (case map_of (rs_events rs) k of Some a \<Rightarrow> a = DropEvent \<or> \<not> drop | None \<Rightarrow> False)
        in if skip then event_rules p blocked rest rs
           else if drop then event_rules p blocked rest
             (rs\<lparr>rs_events := AList.update k DropEvent (rs_events rs), rs_drop_fams := fst k # rs_drop_fams rs,
                 rs_drop_names := snd k # rs_drop_names rs\<rparr>)
           else event_rules p blocked rest (rs\<lparr>rs_events := AList.update k (RenameTo (er_to r)) (rs_events rs)\<rparr>))"

text \<open>A NUL in a key reads as its escape.\<close>

definition visible :: "string \<Rightarrow> string" where
  "visible s = concat (map (\<lambda>c. if c = CHR 0x00 then [CHR 0x5C, CHR ''u'', CHR ''0'', CHR ''0'', CHR ''0'', CHR ''0''] else [c]) s)"

text \<open>The first spelling of each lower-case name.\<close>

definition spelled :: "(string \<Rightarrow> string) \<Rightarrow> string list \<Rightarrow> string \<Rightarrow> string option" where
  "spelled lower have l = find (\<lambda>c. lower c = l) have"

text \<open>\<open>col\<close>: the entry of a name, made when there is none, and changed.\<close>

fun at_col :: "(string \<Rightarrow> string) \<Rightarrow> string \<Rightarrow> (attr_col \<Rightarrow> attr_col) \<Rightarrow> attr_col list \<Rightarrow> attr_col list" where
  "at_col lower name f [] = [f \<lparr>ac_name = name, ac_null = False, ac_from = None\<rparr>]"
| "at_col lower name f (a # as) = (if lower (ac_name a) = lower name then f a # as else a # at_col lower name f as)"

fun attr_rules :: "(string \<Rightarrow> string) \<Rightarrow> (string \<Rightarrow> string) \<Rightarrow> int \<Rightarrow> string list \<Rightarrow> string list \<Rightarrow> attr_rule list
    \<Rightarrow> attr_col list \<Rightarrow> (string \<times> string list) list \<Rightarrow> string list
    \<Rightarrow> attr_col list \<times> (string \<times> string list) list \<times> string list" where
  "attr_rules low lower p have blocked [] attrs sources targets = (attrs, sources, targets)"
| "attr_rules low lower p have blocked (r # rest) attrs sources targets =
     (if ar_project r \<noteq> p then attr_rules low lower p have blocked rest attrs sources targets
      else
        let src = visible (''attr_'' @ ar_key r); dst = visible (''attr_'' @ ar_to r) in
        if ar_action r = Rename \<and> low src = low dst then attr_rules low lower p have blocked rest attrs sources targets
        else case spelled lower have (lower src) of
            None \<Rightarrow> attr_rules low lower p have blocked rest attrs sources targets
          | Some s \<Rightarrow>
              let attrs1 = at_col lower s (\<lambda>a. a\<lparr>ac_null := True\<rparr>) attrs in
              if ar_action r \<noteq> Rename \<or> ar_to r \<in> set blocked then attr_rules low lower p have blocked rest attrs1 sources targets
              else attr_rules low lower p have blocked rest attrs1
                (AList.update (ar_to r) (case map_of sources (ar_to r) of None \<Rightarrow> [s] | Some ss \<Rightarrow> ss @ [s]) sources)
                (if map_of sources (ar_to r) = None then targets @ [ar_to r] else targets))"

fun target_cols :: "(string \<Rightarrow> string) \<Rightarrow> string list \<Rightarrow> (string \<times> string list) list \<Rightarrow> string list \<Rightarrow> attr_col list \<Rightarrow> attr_col list" where
  "target_cols lower have sources [] attrs = attrs"
| "target_cols lower have sources (t # ts) attrs =
     (let name0 = visible (''attr_'' @ t);
          name = (case spelled lower have (lower name0) of Some n \<Rightarrow> n | None \<Rightarrow> name0)
      in target_cols lower have sources ts
        (at_col lower name (\<lambda>a. if ac_from a = None then a\<lparr>ac_from := map_of sources t\<rparr> else a) attrs))"

definition compile_rules :: "(string \<Rightarrow> string) \<Rightarrow> (string \<Rightarrow> string) \<Rightarrow> int \<Rightarrow> event_rule list \<Rightarrow> attr_rule list \<Rightarrow> string list \<Rightarrow> rule_set" where
  "compile_rules low lower p evs ats have =
     (let ev = sort_key (\<lambda>r. (er_project r, er_family r, er_name r)) evs;
          at = sort_key (\<lambda>r. (ar_project r, ar_key r)) ats;
          rs = event_rules p (blocked_events p ev) ev \<lparr>rs_events = [], rs_drop_fams = [], rs_drop_names = [], rs_attrs = []\<rparr>;
          blocked = map ar_key (filter (\<lambda>r. ar_project r = p \<and> ar_action r = Block) at)
      in case attr_rules low lower p have blocked at [] [] [] of
           (attrs, sources, targets) \<Rightarrow> rs\<lparr>rs_attrs := target_cols lower have sources targets attrs\<rparr>)"

definition rules_empty :: "rule_set \<Rightarrow> bool" where
  "rules_empty rs \<longleftrightarrow> rs_events rs = [] \<and> rs_attrs rs = []"

definition add_name :: "string \<Rightarrow> string list \<Rightarrow> string list" where
  "add_name n out = (if n \<in> set out then out else out @ [n])"

text \<open>\<open>columns\<close>: a name ending in a star asks for the columns with its prefix.\<close>

definition rule_sources :: "(string \<Rightarrow> string) \<Rightarrow> rule_set \<Rightarrow> string \<Rightarrow> string list" where
  "rule_sources low rs c =
     (let pattern = (c \<noteq> [] \<and> last c = CHR ''*''); prefix = (if pattern then butlast c else c) in
      concat (map (\<lambda>a. case ac_from a of None \<Rightarrow> []
        | Some ss \<Rightarrow> if \<not> ac_null a \<and> (if pattern then take (length prefix) (ac_name a) = prefix else low (ac_name a) = low c)
            then ss else []) (rs_attrs rs)))"

definition rule_columns :: "(string \<Rightarrow> string) \<Rightarrow> rule_set \<Rightarrow> string list \<Rightarrow> string list" where
  "rule_columns low rs cols =
     (let out1 = (if rs_events rs \<noteq> [] then add_name ''family'' (add_name ''event_name'' cols) else cols) in
      if rs_attrs rs = [] then out1
      else fold add_name (concat (map (rule_sources low rs) cols)) (add_name ''family'' out1))"

section \<open>Attributes\<close>

definition is_attr_family :: "string \<Rightarrow> bool" where
  "is_attr_family f \<longleftrightarrow> f = ''product'' \<or> f = ''measures''"

text \<open>\<open>scope\<close>: the rows attribute rules cover.\<close>

definition scope :: "(string \<Rightarrow> string) \<Rightarrow> 'f batch \<Rightarrow> string \<Rightarrow> bool list" where
  "scope low b family =
     (if family \<noteq> [] then replicate (b_n b) (is_attr_family family)
      else case col low b ''family'' of
          None \<Rightarrow> replicate (b_n b) False
        | Some (_, fc) \<Rightarrow> (case c_idx fc of
              None \<Rightarrow> replicate (b_n b) False
            | Some idx \<Rightarrow> map (\<lambda>f. f \<ge> 0 \<and> map is_attr_family (c_dict fc) ! nat f) idx))"

text \<open>\<open>coalesce\<close>: the columns' dictionaries are mapped into one, then row by row.\<close>

fun remap_dict :: "string list \<Rightarrow> dict_builder \<Rightarrow> nat list \<times> dict_builder" where
  "remap_dict [] d = ([], d)"
| "remap_dict (s # ss) d = (case dict_id d s of (i, d1) \<Rightarrow> (case remap_dict ss d1 of (is, d2) \<Rightarrow> (i # is, d2)))"

fun remap_all :: "'f column list \<Rightarrow> dict_builder \<Rightarrow> nat list list \<times> dict_builder" where
  "remap_all [] d = ([], d)"
| "remap_all (c # cs) d = (case remap_dict (c_dict c) d of (m, d1) \<Rightarrow> (case remap_all cs d1 of (ms, d2) \<Rightarrow> (m # ms, d2)))"

fun first_source :: "'f column list \<Rightarrow> nat list list \<Rightarrow> nat \<Rightarrow> int" where
  "first_source (c # cs) (m # ms) i = (let v = the (c_idx c) ! i in if v \<ge> 0 then int (m ! nat v) else first_source cs ms i)"
| "first_source _ _ i = - 1"

definition coalesce :: "'f column option \<Rightarrow> 'f column list \<Rightarrow> bool list \<Rightarrow> nat \<Rightarrow> 'f column" where
  "coalesce own srcs scp n =
     (let d0 = \<lparr>db_ids = None, db_dict = []\<rparr>;
          (om, d1) = (case own of None \<Rightarrow> ([], d0) | Some c \<Rightarrow> remap_dict (c_dict c) d0);
          (sms, d2) = remap_all srcs d1;
          at = (\<lambda>i. case own of
              Some c \<Rightarrow> let v = the (c_idx c) ! i in
                if v \<ge> 0 then int (om ! nat v) else if scp ! i then first_source srcs sms i else - 1
            | None \<Rightarrow> if scp ! i then first_source srcs sms i else - 1)
      in no_column\<lparr>c_dict := db_dict d2, c_idx := Some (map at [0..<n])\<rparr>)"

definition found_sources :: "(string \<Rightarrow> string) \<Rightarrow> 'f batch \<Rightarrow> attr_col \<Rightarrow> 'f column list" where
  "found_sources low b a = (if ac_null a then []
     else map snd (List.map_filter (col low b) (case ac_from a of None \<Rightarrow> [] | Some ss \<Rightarrow> ss)))"

definition null_in_scope :: "'f column \<Rightarrow> bool list \<Rightarrow> 'f column" where
  "null_in_scope own scp = no_column\<lparr>c_dict := c_dict own,
     c_idx := Some (map2 (\<lambda>x ok. if ok then - 1 else x) (the (c_idx own)) scp)\<rparr>"

definition fold_attr :: "(string \<Rightarrow> string) \<Rightarrow> 'f batch \<Rightarrow> bool list \<Rightarrow> attr_col \<Rightarrow> (string \<times> 'f column) list \<Rightarrow> (string \<times> 'f column) list" where
  "fold_attr low b scp a out =
     (let own = map_option snd (col low b (ac_name a)); srcs = found_sources low b a;
          key = (case col low b (ac_name a) of None \<Rightarrow> ac_name a | Some (k, _) \<Rightarrow> if k = [] then ac_name a else k)
      in if own = None \<and> srcs = [] then out
         else if ac_null a then AList.update key (null_in_scope (the own) scp) out
         else AList.update key (coalesce own srcs scp (b_n b)) out)"

definition fold_attrs :: "(string \<Rightarrow> string) \<Rightarrow> rule_set \<Rightarrow> 'f batch \<Rightarrow> string \<Rightarrow> 'f batch" where
  "fold_attrs low rs b family = b\<lparr>b_cols := fold (fold_attr low b (scope low b family)) (rs_attrs rs) (b_cols b)\<rparr>"

section \<open>Events\<close>

text \<open>The new index of each of a family's names, -2 for a dropped one; \<open>None\<close> for a family no rule names.\<close>

fun act_row :: "rule_set \<Rightarrow> string \<Rightarrow> int list \<Rightarrow> nat \<Rightarrow> string list \<Rightarrow> int list option \<Rightarrow> dict_builder
    \<Rightarrow> int list option \<times> dict_builder" where
  "act_row rs fam same v [] row d = (row, d)"
| "act_row rs fam same v (name # names) row d = (case map_of (rs_events rs) (fam, name) of
     None \<Rightarrow> act_row rs fam same (v + 1) names row d
   | Some a \<Rightarrow>
       let row1 = (case row of None \<Rightarrow> same | Some r \<Rightarrow> r) in
       (case a of DropEvent \<Rightarrow> act_row rs fam same (v + 1) names (Some (row1[v := - 2])) d
        | RenameTo t \<Rightarrow> (case dict_id d t of (i, d1) \<Rightarrow> act_row rs fam same (v + 1) names (Some (row1[v := int i])) d1)))"

fun act_rows :: "rule_set \<Rightarrow> string list \<Rightarrow> string list \<Rightarrow> dict_builder \<Rightarrow> int list option list \<times> dict_builder" where
  "act_rows rs names [] d = ([], d)"
| "act_rows rs names (fam # fams) d =
     (case act_row rs fam (map int [0..<length names]) 0 names None d of (row, d1) \<Rightarrow>
       (case act_rows rs names fams d1 of (rows, d2) \<Rightarrow> (row # rows, d2)))"

text \<open>A row's new index, or \<open>None\<close> when it is left out.\<close>

definition new_index :: "rule_set \<Rightarrow> string list \<Rightarrow> string list \<Rightarrow> int list option list \<Rightarrow> int \<Rightarrow> int \<Rightarrow> int option" where
  "new_index rs names fams act v f =
     (if f < 0 \<and> v < 0 then (if rs_drop_fams rs \<noteq> [] then None else Some v)
      else if f < 0 then (if names ! nat v \<in> set (rs_drop_names rs) then None else Some v)
      else if v < 0 then (if fams ! nat f \<in> set (rs_drop_fams rs) then None else Some v)
      else (case act ! nat f of None \<Rightarrow> Some v | Some row \<Rightarrow> if row ! nat v = - 2 then None else Some (row ! nat v)))"

definition apply_events :: "(string \<Rightarrow> string) \<Rightarrow> rule_set \<Rightarrow> 'f batch \<Rightarrow> string \<Rightarrow> 'f batch" where
  "apply_events low rs b family = (case col low b ''event_name'' of
     None \<Rightarrow> b
   | Some (name_key, nc) \<Rightarrow>
       let fam = (if family \<noteq> [] then Some ([family], \<lambda>i. 0)
           else map_option (\<lambda>(_, fc). (c_dict fc, \<lambda>i. the (c_idx fc) ! i)) (col low b ''family''))
       in case fam of
         None \<Rightarrow> b
       | Some (fams, fam_of) \<Rightarrow>
           let (act, d) = act_rows rs (c_dict nc) fams \<lparr>db_ids = None, db_dict = c_dict nc\<rparr>;
               slot = (\<lambda>i. new_index rs (c_dict nc) fams act (the (c_idx nc) ! i) (fam_of i));
               sel = filter (\<lambda>i. slot i \<noteq> None) [0..<b_n b];
               c = no_column\<lparr>c_dict := db_dict d, c_idx := Some (map (the \<circ> slot) sel)\<rparr>
           in if length sel = b_n b then b\<lparr>b_cols := AList.update name_key c (b_cols b)\<rparr>
              else \<lparr>b_n = length sel,
                    b_cols = AList.update name_key c
                      (map (\<lambda>(k, x). (k, take_rows x sel)) (filter (\<lambda>(k, x). k \<noteq> name_key) (b_cols b)))\<rparr>)"

definition apply_rules :: "(string \<Rightarrow> string) \<Rightarrow> rule_set \<Rightarrow> 'f batch \<Rightarrow> string \<Rightarrow> 'f batch" where
  "apply_rules low rs b family =
     (if rules_empty rs then b
      else let out = (if rs_attrs rs \<noteq> [] then fold_attrs low rs b family else b)
           in if rs_events rs \<noteq> [] then apply_events low rs out family else out)"

text \<open>\<open>unionColumnsOf\<close> over the names of the logs, then of the Parquet files, each file's sorted.\<close>

definition union_columns :: "string list list \<Rightarrow> string list list \<Rightarrow> string list" where
  "union_columns logs files = foldl (\<lambda>out names. fold add_name (sort names) out) [] (logs @ files)"

section \<open>Names after a column is set\<close>

lemma resolve_other:
  assumes "low k \<noteq> low n" and "set ms = insert k (set ns)"
  shows "resolve_name low n ms = resolve_name low n ns"
proof -
  obtain j f where r: "resolve_name low n ms = (j, f)" by fastforce
  have "n \<noteq> k" using assms(1) by auto
  then have "resolve_name low n ns = (j, f)"
    using r [unfolded resolve_name_spec] unfolding resolve_name_spec assms(2) using assms(1) by (auto split: if_splits)
  then show ?thesis using r by simp
qed

lemma col_eq: "col low b n = (case resolve_name low n (map fst (b_cols b)) of
    (k, found) \<Rightarrow> if found then map_option (Pair k) (map_of (b_cols b) k) else None)"
proof -
  obtain k f where r: "resolve_name low n (map fst (b_cols b)) = (k, f)" by fastforce
  have "map_of (b_cols b) k \<noteq> None" if "f"
  proof -
    have "k \<in> fst ` set (b_cols b)" using r [unfolded resolve_name_spec] that by (auto split: if_splits)
    then show ?thesis by (simp add: map_of_eq_None_iff)
  qed
  then show ?thesis using r by (auto simp: col_def)
qed

lemma set_keys_update: "set (map fst (AList.update k c cs)) = insert k (set (map fst cs))"
  by (simp add: AList.dom_update)

lemma col_update_other:
  assumes "low k \<noteq> low n"
  shows "col low (b\<lparr>b_cols := AList.update k c cs\<rparr>) n = col low (b\<lparr>b_cols := cs\<rparr>) n"
proof -
  have r: "resolve_name low n (map fst (AList.update k c cs)) = resolve_name low n (map fst cs)"
    by (rule resolve_other [where k = k, OF assms]) (rule set_keys_update)
  obtain j f where j: "resolve_name low n (map fst cs) = (j, f)" by fastforce
  have "f \<Longrightarrow> low j = low n" using j [unfolded resolve_name_spec] by (auto split: if_splits)
  then have "f \<Longrightarrow> j \<noteq> k" using assms by auto
  then show ?thesis using r j by (auto simp: col_eq AList.update_conv')
qed

lemma col_update_own:
  assumes "resolve_name low n (map fst cs) = (k, True) \<or> k = n"
  shows "col low (b\<lparr>b_cols := AList.update k c cs\<rparr>) n = Some (k, c)"
proof -
  have "resolve_name low n (map fst (AList.update k c cs)) = (k, True)"
  proof (cases "k = n")
    case True
    then show ?thesis by (simp add: resolve_name_spec AList.dom_update)
  next
    case False
    then have r: "resolve_name low n (map fst cs) = (k, True)" using assms by simp
    then have "k \<in> set (map fst cs)" using r [unfolded resolve_name_spec] by (auto split: if_splits)
    then have "set (map fst (AList.update k c cs)) = set (map fst cs)" unfolding set_keys_update by auto
    then show ?thesis using r resolve_name_perm by metis
  qed
  then show ?thesis by (simp add: col_eq AList.update_conv')
qed

section \<open>Merged dictionaries\<close>

lemma remap_dict_ok:
  assumes "dict_ok d" and "remap_dict ss d = (m, d')"
  shows "dict_ok d' \<and> (\<exists>ys. db_dict d' = db_dict d @ ys) \<and> length m = length ss
    \<and> (\<forall>j < length ss. m ! j < length (db_dict d') \<and> db_dict d' ! (m ! j) = ss ! j)"
  using assms
proof (induction ss arbitrary: d m)
  case (Cons s ss)
  obtain i d1 where id: "dict_id d s = (i, d1)" by fastforce
  obtain m1 where m: "remap_dict ss d1 = (m1, d')" "m = i # m1" using Cons.prems(2) id by (auto split: prod.splits)
  have i: "dict_ok d1" "i < length (db_dict d1)" "db_dict d1 ! i = s" "\<exists>ys. db_dict d1 = db_dict d @ ys"
    using dict_id_ok [OF Cons.prems(1) id] by auto
  from Cons.IH [OF i(1) m(1)] show ?case using i m(2) by (auto simp: nth_Cons' nth_append)
qed simp

definition maps_into :: "string list \<Rightarrow> string list \<Rightarrow> nat list \<Rightarrow> bool" where
  "maps_into dict ss m \<longleftrightarrow> length m = length ss \<and> (\<forall>j < length ss. m ! j < length dict \<and> dict ! (m ! j) = ss ! j)"

lemma maps_into_mono: "maps_into dict ss m \<Longrightarrow> maps_into (dict @ ys) ss m"
  by (auto simp: maps_into_def nth_append)

lemma remap_all_ok:
  assumes "dict_ok d" and "remap_all cs d = (ms, d')"
  shows "dict_ok d' \<and> (\<exists>ys. db_dict d' = db_dict d @ ys) \<and> list_all2 (\<lambda>c m. maps_into (db_dict d') (c_dict c) m) cs ms"
  using assms
proof (induction cs arbitrary: d ms)
  case (Cons c cs)
  obtain m d1 where r: "remap_dict (c_dict c) d = (m, d1)" by fastforce
  obtain ms1 where m: "remap_all cs d1 = (ms1, d')" "ms = m # ms1" using Cons.prems(2) r by (auto split: prod.splits)
  have d1: "dict_ok d1" "\<exists>ys. db_dict d1 = db_dict d @ ys" "maps_into (db_dict d1) (c_dict c) m"
    using remap_dict_ok [OF Cons.prems(1) r] by (auto simp: maps_into_def)
  from Cons.IH [OF d1(1) m(1)] obtain ys where ys: "db_dict d' = db_dict d1 @ ys" by blast
  have "maps_into (db_dict d') (c_dict c) m" unfolding ys by (rule maps_into_mono [OF d1(3)])
  then show ?case using Cons.IH [OF d1(1) m(1)] d1(2) m(2) by auto
qed simp

section \<open>Attributes row by row\<close>

fun first_cell :: "'f column list \<Rightarrow> nat \<Rightarrow> 'f cell" where
  "first_cell [] i = Null"
| "first_cell (c # cs) i = (if cell_at c i = Null then first_cell cs i else cell_at c i)"

definition text_column_ok :: "nat \<Rightarrow> 'f column \<Rightarrow> bool" where
  "text_column_ok n c \<longleftrightarrow> column_ok n c \<and> c_idx c \<noteq> None"

lemma text_cell: "text_column_ok n c \<Longrightarrow> i < n \<Longrightarrow>
    cell_at c i = (if the (c_idx c) ! i < 0 then Null else Text (c_dict c ! nat (the (c_idx c) ! i)))
    \<and> the (c_idx c) ! i < int (length (c_dict c))"
  by (auto simp: text_column_ok_def cell_at_def column_ok_def)

lemma first_source_cell:
  assumes "list_all2 (\<lambda>c m. maps_into dict (c_dict c) m) cs ms" and "\<forall>c \<in> set cs. text_column_ok n c" and "i < n"
  shows "first_source cs ms i < int (length dict)
    \<and> first_cell cs i = (if first_source cs ms i < 0 then Null else Text (dict ! nat (first_source cs ms i)))"
  using assms(1,2)
proof (induction rule: list_all2_induct)
  case (Cons c cs m ms)
  have t: "text_column_ok n c" using Cons.prems by simp
  have c: "cell_at c i = (if the (c_idx c) ! i < 0 then Null else Text (c_dict c ! nat (the (c_idx c) ! i)))"
    "the (c_idx c) ! i < int (length (c_dict c))" using text_cell [OF t assms(3)] by auto
  show ?case
  proof (cases "the (c_idx c) ! i < 0")
    case True
    then show ?thesis using Cons.IH Cons.prems c by simp
  next
    case False
    then have "nat (the (c_idx c) ! i) < length (c_dict c)" using c(2) by simp
    then show ?thesis using False Cons.hyps(1) c by (simp add: maps_into_def)
  qed
qed simp
lemma coalesce_cell:
  assumes "\<forall>c. own = Some c \<longrightarrow> text_column_ok n c" and "\<forall>c \<in> set srcs. text_column_ok n c" and "i < n"
  shows "cell_at (coalesce own srcs scp n) i =
    (let v = (case own of None \<Rightarrow> Null | Some c \<Rightarrow> cell_at c i) in if v \<noteq> Null then v else if scp ! i then first_cell srcs i else Null)"
    and "text_column_ok n (coalesce own srcs scp n)"
proof -
  let ?d0 = "\<lparr>db_ids = None, db_dict = []\<rparr>"
  have d0: "dict_ok ?d0" by (simp add: dict_ok_def)
  obtain om d1 where om: "(case own of None \<Rightarrow> ([], ?d0) | Some c \<Rightarrow> remap_dict (c_dict c) ?d0) = (om, d1)" by fastforce
  obtain sms d2 where sms: "remap_all srcs d1 = (sms, d2)" by fastforce
  have d1: "dict_ok d1" "\<forall>c. own = Some c \<longrightarrow> maps_into (db_dict d1) (c_dict c) om"
    using om d0 remap_dict_ok [OF d0] by (auto simp: maps_into_def split: option.splits)
  note s = remap_all_ok [OF d1(1) sms]
  have own: "\<forall>c. own = Some c \<longrightarrow> maps_into (db_dict d2) (c_dict c) om"
    using s d1(2) maps_into_mono by metis
  define at where "at = (\<lambda>i. case own of
      Some c \<Rightarrow> let v = the (c_idx c) ! i in
        if v \<ge> 0 then int (om ! nat v) else if scp ! i then first_source srcs sms i else - 1
    | None \<Rightarrow> if scp ! i then first_source srcs sms i else - 1)"
  have c: "coalesce own srcs scp n = no_column\<lparr>c_dict := db_dict d2, c_idx := Some (map at [0..<n])\<rparr>"
    using om sms by (simp add: coalesce_def at_def Let_def)
  have fs: "first_source srcs sms j < int (length (db_dict d2)) \<and> first_cell srcs j
      = (if first_source srcs sms j < 0 then Null else Text (db_dict d2 ! nat (first_source srcs sms j)))" if "j < n" for j
    using first_source_cell [OF _ assms(2) that] s by blast
  have at: "at j < int (length (db_dict d2)) \<and> (if at j < 0 then Null else Text (db_dict d2 ! nat (at j))) =
    (let v = (case own of None \<Rightarrow> Null | Some c \<Rightarrow> cell_at c j) in if v \<noteq> Null then v else if scp ! j then first_cell srcs j else Null)"
    if j: "j < n" for j
  proof (cases own)
    case None
    then show ?thesis using fs [OF j] by (cases "scp ! j") (auto simp: at_def)
  next
    case (Some c)
    have t: "text_column_ok n c" using assms(1) Some by simp
    note tc = text_cell [OF t j]
    show ?thesis
    proof (cases "the (c_idx c) ! j < 0")
      case True
      then show ?thesis using fs [OF j] tc Some by (cases "scp ! j") (auto simp: at_def)
    next
      case False
      then have "nat (the (c_idx c) ! j) < length (c_dict c)" using tc by linarith
      then show ?thesis using False tc Some own by (auto simp: at_def maps_into_def)
    qed
  qed
  show "cell_at (coalesce own srcs scp n) i =
    (let v = (case own of None \<Rightarrow> Null | Some c \<Rightarrow> cell_at c i) in if v \<noteq> Null then v else if scp ! i then first_cell srcs i else Null)"
  proof -
    have "cell_at (coalesce own srcs scp n) i = (if at i < 0 then Null else Text (db_dict d2 ! nat (at i)))"
      using assms(3) by (simp add: c cell_at_def)
    then show ?thesis using at [OF assms(3)] by (simp only:)
  qed
  show "text_column_ok n (coalesce own srcs scp n)"
    using at by (auto simp: c text_column_ok_def column_ok_def no_column_def)
qed

text \<open>What an attribute reads in a row, and whether attribute rules cover the row.\<close>

definition row_in_scope :: "(string \<Rightarrow> string) \<Rightarrow> 'f batch \<Rightarrow> string \<Rightarrow> nat \<Rightarrow> bool" where
  "row_in_scope low b family i =
     (if family \<noteq> [] then is_attr_family family
      else (case plain_cell low b ''family'' i of Text f \<Rightarrow> is_attr_family f | _ \<Rightarrow> False))"

fun first_named :: "(string \<Rightarrow> string) \<Rightarrow> 'f batch \<Rightarrow> string list \<Rightarrow> nat \<Rightarrow> 'f cell" where
  "first_named low b [] i = Null"
| "first_named low b (s # ss) i = (if plain_cell low b s i = Null then first_named low b ss i else plain_cell low b s i)"

definition attr_cell :: "(string \<Rightarrow> string) \<Rightarrow> 'f batch \<Rightarrow> bool \<Rightarrow> attr_col \<Rightarrow> nat \<Rightarrow> 'f cell" where
  "attr_cell low b covered a i =
     (if \<not> covered then plain_cell low b (ac_name a) i
      else if ac_null a then Null
      else if plain_cell low b (ac_name a) i \<noteq> Null then plain_cell low b (ac_name a) i
      else first_named low b (case ac_from a of None \<Rightarrow> [] | Some ss \<Rightarrow> ss) i)"

definition text_named :: "(string \<Rightarrow> string) \<Rightarrow> 'f batch \<Rightarrow> string \<Rightarrow> bool" where
  "text_named low b s \<longleftrightarrow> (case cols_of low b s of None \<Rightarrow> True | Some c \<Rightarrow> c_idx c \<noteq> None)"

lemma text_named_ok: "batch_ok b \<Longrightarrow> text_named low b s \<Longrightarrow> cols_of low b s = Some c \<Longrightarrow> text_column_ok (b_n b) c"
  using col_ok by (fastforce simp: text_named_def text_column_ok_def cols_of_def)

lemma scope_rows:
  assumes "batch_ok b" and "text_named low b ''family''"
  shows "length (scope low b family) = b_n b \<and> (\<forall>i < b_n b. scope low b family ! i = row_in_scope low b family i)"
proof (cases "family \<noteq> [] \<or> cols_of low b ''family'' = None")
  case True
  then show ?thesis by (auto simp: scope_def row_in_scope_def plain_cell_def cols_of_def)
next
  case False
  then obtain k c where c: "col low b ''family'' = Some (k, c)" "family = []" by (auto simp: cols_of_def)
  then have t: "text_column_ok (b_n b) c" using text_named_ok [OF assms] by (simp add: cols_of_def)
  then obtain idx where idx: "c_idx c = Some idx" "length idx = b_n b" by (auto simp: text_column_ok_def column_ok_def)
  have "(idx ! i \<ge> 0 \<and> map is_attr_family (c_dict c) ! nat (idx ! i)) = row_in_scope low b [] i" if "i < b_n b" for i
    using text_cell [OF t that] c idx by (auto simp: row_in_scope_def plain_cell_def cols_of_def nat_less_iff)
  then show ?thesis using c idx by (simp add: scope_def)
qed
section \<open>Folding the attributes\<close>

lemma col_key:
  assumes "col low b n = Some (k, c)"
  shows "resolve_name low n (map fst (b_cols b)) = (k, True)" "low k = low n"
  using assms by (auto simp: col_def resolve_name_spec split: prod.splits if_splits)

lemma fold_attr_other:
  assumes "low (ac_name a) \<noteq> low n"
  shows "col low (b1\<lparr>b_cols := fold_attr low b scp a cs\<rparr>) n = col low (b1\<lparr>b_cols := cs\<rparr>) n"
    "resolve_name low n (map fst (fold_attr low b scp a cs)) = resolve_name low n (map fst cs)"
proof -
  define key where "key = (case col low b (ac_name a) of None \<Rightarrow> ac_name a | Some (k, _) \<Rightarrow> if k = [] then ac_name a else k)"
  have "low key = low (ac_name a)" using col_key(2) [of low b "ac_name a"] by (auto simp: key_def split: option.splits)
  then have key: "low key \<noteq> low n" using assms by simp
  obtain c where "fold_attr low b scp a cs = cs \<or> fold_attr low b scp a cs = AList.update key c cs"
    unfolding fold_attr_def Let_def key_def [symmetric] by metis
  then show "col low (b1\<lparr>b_cols := fold_attr low b scp a cs\<rparr>) n = col low (b1\<lparr>b_cols := cs\<rparr>) n"
    "resolve_name low n (map fst (fold_attr low b scp a cs)) = resolve_name low n (map fst cs)"
    using col_update_other [where k = key, OF key] resolve_other [where k = key and n = n and low = low, OF key] set_keys_update by metis+
qed

lemma fold_attrs_other:
  assumes "\<forall>a \<in> set as. low (ac_name a) \<noteq> low n"
  shows "col low (b1\<lparr>b_cols := fold (fold_attr low b scp) as cs\<rparr>) n = col low (b1\<lparr>b_cols := cs\<rparr>) n
    \<and> resolve_name low n (map fst (fold (fold_attr low b scp) as cs)) = resolve_name low n (map fst cs)"
  using assms
proof (induction as arbitrary: cs)
  case (Cons a as)
  have a: "low (ac_name a) \<noteq> low n" using Cons.prems by simp
  show ?case using Cons.IH [of "fold_attr low b scp a cs"] Cons.prems by (simp add: fold_attr_other [OF a])
qed simp

lemma found_first:
  assumes "batch_ok b"
  shows "first_cell (map snd (List.map_filter (col low b) ss)) i = first_named low b ss i"
  by (induction ss) (auto simp: List.map_filter_simps plain_cell_def cols_of_def split: option.splits)

lemma null_in_scope_cell:
  assumes "text_column_ok n c" and "length scp = n" and "i < n"
  shows "cell_at (null_in_scope c scp) i = (if scp ! i then Null else cell_at c i)"
  using assms by (auto simp: null_in_scope_def cell_at_def text_column_ok_def column_ok_def)

lemma fold_attr_own:
  assumes ok: "batch_ok b" and "text_named low b (ac_name a)"
    and src: "\<forall>ss. ac_from a = Some ss \<longrightarrow> (\<forall>s \<in> set ss. text_named low b s)"
    and scp: "length scp = b_n b" and i: "i < b_n b"
    and res: "resolve_name low (ac_name a) (map fst cs) = resolve_name low (ac_name a) (map fst (b_cols b))"
    and same: "col low (b1\<lparr>b_cols := cs\<rparr>) (ac_name a) = col low b (ac_name a)"
  shows "plain_cell low (b1\<lparr>b_cols := fold_attr low b scp a cs\<rparr>) (ac_name a) i = attr_cell low b (scp ! i) a i"
proof -
  define own where "own = map_option snd (col low b (ac_name a))"
  define srcs where "srcs = found_sources low b a"
  define key where "key = (case col low b (ac_name a) of None \<Rightarrow> ac_name a | Some (k, _) \<Rightarrow> if k = [] then ac_name a else k)"
  define new where "new = (if ac_null a then null_in_scope (the own) scp else coalesce own srcs scp (b_n b))"
  have f: "fold_attr low b scp a cs = (if own = None \<and> srcs = [] then cs else AList.update key new cs)"
    by (simp add: fold_attr_def own_def srcs_def key_def new_def Let_def)
  have ownv: "plain_cell low b (ac_name a) j = (case own of None \<Rightarrow> Null | Some c \<Rightarrow> cell_at c j)" for j
    by (simp add: own_def plain_cell_def cols_of_def)
  have srcv: "first_cell srcs j = (if ac_null a then Null else first_named low b (case ac_from a of None \<Rightarrow> [] | Some ss \<Rightarrow> ss) j)" for j
    by (simp add: srcs_def found_sources_def found_first [OF ok])
  have own_ok: "\<forall>c. own = Some c \<longrightarrow> text_column_ok (b_n b) c"
    using text_named_ok [OF ok assms(2)] by (simp add: own_def cols_of_def)
  have srcs_ok: "\<forall>c \<in> set srcs. text_column_ok (b_n b) c"
  proof
    fix c
    assume "c \<in> set srcs"
    then obtain ss s k where "ac_from a = Some ss" "s \<in> set ss" "col low b s = Some (k, c)"
      by (auto simp: srcs_def found_sources_def List.map_filter_def split: if_splits option.splits) metis
    then show "text_column_ok (b_n b) c" using src text_named_ok [OF ok, of low s c] by (simp add: cols_of_def)
  qed
  show ?thesis
  proof (cases "own = None \<and> srcs = []")
    case True
    then have "plain_cell low (b1\<lparr>b_cols := fold_attr low b scp a cs\<rparr>) (ac_name a) i = Null"
      using same by (simp add: f plain_cell_def cols_of_def own_def)
    moreover have "attr_cell low b (scp ! i) a i = Null"
      using True ownv [of i] srcv [of i] by (auto simp: attr_cell_def)
    ultimately show ?thesis by simp
  next
    case False
    have "resolve_name low (ac_name a) (map fst cs) = (key, True) \<or> key = ac_name a"
      using col_key(1) [of low b "ac_name a"] res by (auto simp: key_def split: option.splits)
    from col_update_own [OF this] have "plain_cell low (b1\<lparr>b_cols := fold_attr low b scp a cs\<rparr>) (ac_name a) i = cell_at new i"
      using False by (auto simp: f plain_cell_def cols_of_def)
    moreover have "cell_at new i = attr_cell low b (scp ! i) a i"
    proof (cases "ac_null a")
      case True
      then have "own \<noteq> None" using False by (simp add: srcs_def found_sources_def)
      then show ?thesis using True own_ok null_in_scope_cell [OF _ scp i] ownv [of i] by (auto simp: new_def attr_cell_def)
    next
      case nn: False
      show ?thesis using coalesce_cell(1) [OF own_ok srcs_ok i, of scp] srcv [of i] nn
        by (auto simp: new_def attr_cell_def ownv [symmetric] Let_def)
    qed
    ultimately show ?thesis by simp
  qed
qed
text \<open> C31:
  What folding a project's attribute rules into a batch reads, row by row. In a row the rules cover
  (of the batch's family, else of the family its own column says) a renamed or blocked attribute
  reads NULL, any other attribute a rule touches its own value, else its sources' first value that
  is not NULL, in their order; in a row they do not cover, and for a column no rule touches, what
  was there before.
\<close>

theorem attribute_rules_by_row:
  assumes ok: "batch_ok b" and "text_named low b ''family''"
    and dist: "distinct (map (low \<circ> ac_name) (rs_attrs rs))"
    and txts: "\<forall>a \<in> set (rs_attrs rs). \<forall>s \<in> insert (ac_name a) (set (case ac_from a of None \<Rightarrow> [] | Some ss \<Rightarrow> ss)). text_named low b s"
    and i: "i < b_n b"
  shows "(\<forall>a \<in> set (rs_attrs rs). plain_cell low (fold_attrs low rs b family) (ac_name a) i
        = attr_cell low b (row_in_scope low b family i) a i)
    \<and> (\<forall>n. low n \<notin> (low \<circ> ac_name) ` set (rs_attrs rs) \<longrightarrow>
        plain_cell low (fold_attrs low rs b family) n i = plain_cell low b n i)"
proof (intro conjI ballI allI impI)
  let ?f = "fold_attr low b (scope low b family)"
  note scp = scope_rows [OF assms(1,2), of family]
  fix a
  assume a: "a \<in> set (rs_attrs rs)"
  then obtain xs bs where s: "rs_attrs rs = xs @ a # bs" by (meson split_list)
  have na: "low (ac_name a) \<notin> (low \<circ> ac_name) ` (set xs \<union> set bs)" using dist by (simp add: s image_Un)
  have pre: "\<forall>x \<in> set xs. low (ac_name x) \<noteq> low (ac_name a)" and post: "\<forall>x \<in> set bs. low (ac_name x) \<noteq> low (ac_name a)"
    by (metis na Un_iff comp_apply imageI)+
  let ?cs = "fold ?f xs (b_cols b)"
  have cs: "resolve_name low (ac_name a) (map fst ?cs) = resolve_name low (ac_name a) (map fst (b_cols b))"
    "col low (b\<lparr>b_cols := ?cs\<rparr>) (ac_name a) = col low b (ac_name a)"
    using fold_attrs_other [OF pre, of b "scope low b family" "b_cols b" b] by simp_all
  have "plain_cell low (b\<lparr>b_cols := ?f a ?cs\<rparr>) (ac_name a) i = attr_cell low b (scope low b family ! i) a i"
    by (rule fold_attr_own [OF ok _ _ _ i cs]) (use scp txts a in \<open>auto split: option.splits\<close>)
  moreover have "plain_cell low (fold_attrs low rs b family) (ac_name a) i = plain_cell low (b\<lparr>b_cols := ?f a ?cs\<rparr>) (ac_name a) i"
    using fold_attrs_other [OF post, of b "scope low b family" "?f a ?cs" b] by (simp add: fold_attrs_def s plain_cell_def cols_of_def)
  ultimately show "plain_cell low (fold_attrs low rs b family) (ac_name a) i = attr_cell low b (row_in_scope low b family i) a i"
    using scp i by simp
next
  fix n
  assume "low n \<notin> (low \<circ> ac_name) ` set (rs_attrs rs)"
  then have "\<forall>x \<in> set (rs_attrs rs). low (ac_name x) \<noteq> low n" by (metis comp_apply image_eqI)
  from fold_attrs_other [OF this, of b "scope low b family" "b_cols b" b]
  show "plain_cell low (fold_attrs low rs b family) n i = plain_cell low b n i"
    by (simp add: fold_attrs_def plain_cell_def cols_of_def)
qed

definition rules_batch :: "unit batch" where
  "rules_batch = \<lparr>b_n = 3, b_cols =
     [(''family'', no_column\<lparr>c_dict := [''product'', ''pageviews''], c_idx := Some [0, 0, 1]\<rparr>),
      (''attr_plan'', no_column\<lparr>c_dict := [''pro''], c_idx := Some [- 1, 0, - 1]\<rparr>),
      (''attr_tier'', no_column\<lparr>c_dict := [''free'', ''pro''], c_idx := Some [1, 0, 0]\<rparr>)]\<rparr>"

definition tier_to_plan :: rule_set where
  "tier_to_plan = \<lparr>rs_events = [], rs_drop_fams = [], rs_drop_names = [],
     rs_attrs = [\<lparr>ac_name = ''attr_tier'', ac_null = True, ac_from = None\<rparr>, \<lparr>ac_name = ''attr_plan'', ac_null = False, ac_from = Some [''attr_tier'']\<rparr>]\<rparr>"

theorem attribute_rules_by_row_witness:
  "map (plain_cell ascii_low (fold_attrs ascii_low tier_to_plan rules_batch []) ''attr_plan'') [0, 1, 2] = [Text ''pro'', Text ''pro'', Null]
    \<and> map (plain_cell ascii_low (fold_attrs ascii_low tier_to_plan rules_batch []) ''attr_tier'') [0, 1, 2] = [Null, Null, Text ''free'']"
proof -
  have ok: "batch_ok rules_batch" by (simp add: batch_ok_def rules_batch_def column_ok_def no_column_def)
  have cols: "col ascii_low rules_batch ''family'' = Some (''family'', no_column\<lparr>c_dict := [''product'', ''pageviews''], c_idx := Some [0, 0, 1]\<rparr>)"
    "col ascii_low rules_batch ''attr_plan'' = Some (''attr_plan'', no_column\<lparr>c_dict := [''pro''], c_idx := Some [- 1, 0, - 1]\<rparr>)"
    "col ascii_low rules_batch ''attr_tier'' = Some (''attr_tier'', no_column\<lparr>c_dict := [''free'', ''pro''], c_idx := Some [1, 0, 0]\<rparr>)"
    by (simp_all add: col_eq rules_batch_def resolve_name_def ascii_low_def)
  have fam: "text_named ascii_low rules_batch ''family''" by (simp add: text_named_def cols_of_def cols no_column_def)
  have dist: "distinct (map (ascii_low \<circ> ac_name) (rs_attrs tier_to_plan))" by (simp add: tier_to_plan_def ascii_low_def)
  have txts: "\<forall>a \<in> set (rs_attrs tier_to_plan). \<forall>s \<in> insert (ac_name a) (set (case ac_from a of None \<Rightarrow> [] | Some ss \<Rightarrow> ss)). text_named ascii_low rules_batch s"
    by (simp add: tier_to_plan_def text_named_def cols_of_def cols no_column_def)
  have n: "b_n rules_batch = 3" by (simp add: rules_batch_def)
  have r: "plain_cell ascii_low (fold_attrs ascii_low tier_to_plan rules_batch []) (ac_name a) i
      = attr_cell ascii_low rules_batch (row_in_scope ascii_low rules_batch [] i) a i" if "i < 3" "a \<in> set (rs_attrs tier_to_plan)" for a i
    using attribute_rules_by_row [OF ok fam dist txts, of i] that n by simp
  have cell: "plain_cell ascii_low rules_batch ''attr_plan'' i = [Null, Text ''pro'', Null] ! i"
    "plain_cell ascii_low rules_batch ''attr_tier'' i = [Text ''pro'', Text ''free'', Text ''free''] ! i"
    "row_in_scope ascii_low rules_batch [] i = [True, True, False] ! i" if "i \<in> {0, 1, 2}" for i
    using that by (auto simp: plain_cell_def cols_of_def cols cell_at_def no_column_def row_in_scope_def is_attr_family_def)
  show ?thesis
    using r [of 0 "rs_attrs tier_to_plan ! 0"] r [of 1 "rs_attrs tier_to_plan ! 0"] r [of 2 "rs_attrs tier_to_plan ! 0"]
      r [of 0 "rs_attrs tier_to_plan ! 1"] r [of 1 "rs_attrs tier_to_plan ! 1"] r [of 2 "rs_attrs tier_to_plan ! 1"] cell
    by (simp add: tier_to_plan_def attr_cell_def)
qed

section \<open>Events row by row\<close>

text \<open>What becomes of a row's event name: \<open>None\<close> when the row is left out.\<close>

definition event_fate :: "rule_set \<Rightarrow> string option \<Rightarrow> string option \<Rightarrow> string option option" where
  "event_fate rs fam nm = (case (fam, nm) of
     (None, None) \<Rightarrow> if rs_drop_fams rs \<noteq> [] then None else Some None
   | (None, Some n) \<Rightarrow> if n \<in> set (rs_drop_names rs) then None else Some (Some n)
   | (Some f, None) \<Rightarrow> if f \<in> set (rs_drop_fams rs) then None else Some None
   | (Some f, Some n) \<Rightarrow> (case map_of (rs_events rs) (f, n) of
         None \<Rightarrow> Some (Some n) | Some DropEvent \<Rightarrow> None | Some (RenameTo t) \<Rightarrow> Some (Some t)))"

text \<open>An index that says the fate of a name: -2 for a dropped one.\<close>

definition says :: "string list \<Rightarrow> int \<Rightarrow> string option \<Rightarrow> bool" where
  "says dict x fate \<longleftrightarrow> (case fate of None \<Rightarrow> x = - 2 | Some t \<Rightarrow> 0 \<le> x \<and> x < int (length dict) \<and> dict ! nat x = t)"

definition named_fate :: "rule_set \<Rightarrow> string \<Rightarrow> string \<Rightarrow> string option" where
  "named_fate rs f n = (case map_of (rs_events rs) (f, n) of
     None \<Rightarrow> Some n | Some DropEvent \<Rightarrow> None | Some (RenameTo t) \<Rightarrow> Some t)"

definition row_of :: "int list \<Rightarrow> int list option \<Rightarrow> int list" where
  "row_of same row = (case row of None \<Rightarrow> same | Some r \<Rightarrow> r)"

lemma says_mono: "says dict x fate \<Longrightarrow> says (dict @ ys) x fate"
  by (auto simp: says_def nth_append split: option.splits)

lemma act_row_ok:
  assumes "dict_ok d" and "act_row rs fam same v names row d = (row', d')"
    and "length (row_of same row) = v + length names"
    and "\<forall>j < v. says (db_dict d) (row_of same row ! j) (named_fate rs fam (all ! j))"
    and "\<forall>j < length names. names ! j = all ! (v + j) \<and> says (db_dict d) (row_of same row ! (v + j)) (Some (names ! j))"
  shows "dict_ok d' \<and> (\<exists>ys. db_dict d' = db_dict d @ ys) \<and> length (row_of same row') = v + length names
    \<and> (\<forall>j < v + length names. says (db_dict d') (row_of same row' ! j) (named_fate rs fam (all ! j)))"
  using assms
proof (induction names arbitrary: v row d)
  case Nil
  then show ?case by auto
next
  case (Cons n ns)
  have n: "n = all ! v" "says (db_dict d) (row_of same row ! v) (Some n)" using Cons.prems(5) by force+
  have ns: "ns ! j = all ! (v + 1 + j) \<and> says (db_dict d) (row_of same row ! (v + 1 + j)) (Some (ns ! j))" if "j < length ns" for j
    using Cons.prems(5) [rule_format, of "Suc j"] that by auto
  obtain x row1 d1 where step: "act_row rs fam same (v + 1) ns row1 d1 = (row', d')" "dict_ok d1"
    "\<exists>ys. db_dict d1 = db_dict d @ ys" "row_of same row1 = (row_of same row)[v := x]" "says (db_dict d1) x (named_fate rs fam n)"
  proof (cases "map_of (rs_events rs) (fam, n)")
    case None
    then show ?thesis using that [of row d "row_of same row ! v"] Cons.prems(1,2) n(2) by (simp add: named_fate_def)
  next
    case (Some a)
    show ?thesis
    proof (cases a)
      case DropEvent
      then show ?thesis using that [of "Some ((row_of same row)[v := - 2])" d "- 2"] Some Cons.prems(1,2)
        by (simp add: named_fate_def says_def row_of_def)
    next
      case (RenameTo t)
      obtain i d1 where i: "dict_id d t = (i, d1)" by fastforce
      show ?thesis using that [of "Some ((row_of same row)[v := int i])" d1 "int i"] dict_id_ok [OF Cons.prems(1) i] Some RenameTo i Cons.prems(2)
        by (simp add: named_fate_def says_def row_of_def)
    qed
  qed
  obtain ys where ys: "db_dict d1 = db_dict d @ ys" using step(3) by blast
  have len: "length (row_of same row1) = v + 1 + length ns" using step(4) Cons.prems(3) by simp
  have before: "says (db_dict d1) (row_of same row1 ! j) (named_fate rs fam (all ! j))" if "j < v + 1" for j
  proof (cases "j = v")
    case True
    then show ?thesis using step(4,5) n(1) Cons.prems(3) by simp
  next
    case False
    then have "j < v" using that by simp
    then show ?thesis using step(4) Cons.prems(4) says_mono unfolding ys by auto
  qed
  have after: "ns ! j = all ! (v + 1 + j) \<and> says (db_dict d1) (row_of same row1 ! (v + 1 + j)) (Some (ns ! j))" if "j < length ns" for j
    using ns [OF that] step(4) unfolding ys by (auto intro: says_mono)
  note ih = Cons.IH [OF step(2) step(1) len, rule_format, OF before after]
  then show ?case using ys by auto
qed

lemma act_rows_ok:
  assumes "dict_ok d" and "act_rows rs names fams d = (rows, d')" and "\<exists>ys. db_dict d = names @ ys"
  shows "dict_ok d' \<and> (\<exists>ys. db_dict d' = db_dict d @ ys) \<and> length rows = length fams
    \<and> (\<forall>f < length fams. \<forall>j < length names.
        says (db_dict d') (row_of (map int [0..<length names]) (rows ! f) ! j) (named_fate rs (fams ! f) (names ! j)))"
  using assms
proof (induction fams arbitrary: d rows)
  case (Cons fam fams)
  let ?same = "map int [0..<length names]"
  obtain row d1 where r: "act_row rs fam ?same 0 names None d = (row, d1)" by fastforce
  obtain rows1 where rs: "act_rows rs names fams d1 = (rows1, d')" "rows = row # rows1"
    using Cons.prems(2) r by (auto split: prod.splits)
  have pre: "\<forall>j < length names. names ! j = names ! (0 + j) \<and> says (db_dict d) (row_of ?same None ! (0 + j)) (Some (names ! j))"
    using Cons.prems(3) by (auto simp: says_def row_of_def nth_append)
  have row: "dict_ok d1" "\<exists>ys. db_dict d1 = db_dict d @ ys"
    "\<forall>j < length names. says (db_dict d1) (row_of ?same row ! j) (named_fate rs fam (names ! j))"
    using act_row_ok [OF Cons.prems(1) r _ _ pre] by (simp_all add: row_of_def)
  have ext: "\<exists>ys. db_dict d1 = names @ ys" using row(2) Cons.prems(3) by auto
  note ih = Cons.IH [OF row(1) rs(1) ext]
  obtain ys where ys: "db_dict d' = db_dict d1 @ ys" using ih by blast
  have "\<forall>j < length names. says (db_dict d') (row_of ?same row ! j) (named_fate rs fam (names ! j))"
    using row(3) says_mono unfolding ys by blast
  then show ?case using ih row(2) rs(2) by (auto simp: nth_Cons')
qed simp

lemma new_index_fate:
  assumes act: "act_rows rs names fams \<lparr>db_ids = None, db_dict = names\<rparr> = (act, d)"
    and v: "v < int (length names)" and f: "f < int (length fams)"
  shows "case new_index rs names fams act v f of
      None \<Rightarrow> event_fate rs (if f < 0 then None else Some (fams ! nat f)) (if v < 0 then None else Some (names ! nat v)) = None
    | Some x \<Rightarrow> x < int (length (db_dict d))
        \<and> event_fate rs (if f < 0 then None else Some (fams ! nat f)) (if v < 0 then None else Some (names ! nat v))
          = Some (if x < 0 then None else Some (db_dict d ! nat x))"
proof -
  have d: "dict_ok \<lparr>db_ids = None, db_dict = names\<rparr>" by (simp add: dict_ok_def)
  note a = act_rows_ok [OF d act]
  obtain ys where ys: "db_dict d = names @ ys" using a by auto
  show ?thesis
  proof (cases "f < 0 \<or> v < 0")
    case True
    then show ?thesis using v ys by (auto simp: new_index_def event_fate_def nth_append)
  next
    case False
    then have n: "nat f < length fams" "nat v < length names" using v f by auto
    define r where "r = row_of (map int [0..<length names]) (act ! nat f)"
    have s: "says (db_dict d) (r ! nat v) (named_fate rs (fams ! nat f) (names ! nat v))"
      using a n by (simp add: r_def)
    have e: "event_fate rs (Some (fams ! nat f)) (Some (names ! nat v)) = map_option Some (named_fate rs (fams ! nat f) (names ! nat v))"
      by (auto simp: event_fate_def named_fate_def split: option.splits event_action.splits)
    have i: "new_index rs names fams act v f = (if r ! nat v = - 2 then None else Some (r ! nat v))"
      using False n by (auto simp: new_index_def r_def row_of_def split: option.splits)
    show ?thesis using s e i False by (auto simp: says_def split: option.splits)
  qed
qed
lemma map_of_others: "j \<noteq> k \<Longrightarrow> map_of (map (\<lambda>(j, x). (j, g x)) (filter (\<lambda>(j, x). j \<noteq> k) xs)) j = map_option g (map_of xs j)"
  by (induction xs) auto

lemma col_after_events:
  assumes "batch_ok b" and "col low b ''event_name'' = Some (k, nc)"
    and "cols = AList.update k c (map (\<lambda>(j, x). (j, g x)) (filter (\<lambda>(j, x). j \<noteq> k) (b_cols b)))"
  shows "cols_of low (b1\<lparr>b_cols := cols\<rparr>) ''event_name'' = Some c"
    and "low n \<noteq> low ''event_name'' \<Longrightarrow> cols_of low (b1\<lparr>b_cols := cols\<rparr>) n = map_option g (cols_of low b n)"
proof -
  let ?cs = "map (\<lambda>(j, x). (j, g x)) (filter (\<lambda>(j, x). j \<noteq> k) (b_cols b))"
  have k: "(k, nc) \<in> set (b_cols b)" "resolve_name low ''event_name'' (map fst (b_cols b)) = (k, True)" "low k = low ''event_name''"
    using col_in [OF assms(2)] col_key [OF assms(2)] by auto
  have names: "set (map fst cols) = set (map fst (b_cols b))"
  proof -
    have "set (map fst ?cs) = set (map fst (b_cols b)) - {k}" by force
    then show ?thesis unfolding assms(3) set_keys_update using k(1) by force
  qed
  have res: "resolve_name low m (map fst cols) = resolve_name low m (map fst (b_cols b))" for m
    by (rule resolve_name_perm [OF names])
  have get: "map_of cols j = (if j = k then Some c else map_option g (map_of (b_cols b) j))" for j
    using map_of_others [of j k g "b_cols b"] unfolding assms(3) AList.update_conv' by simp
  show "cols_of low (b1\<lparr>b_cols := cols\<rparr>) ''event_name'' = Some c"
    by (simp add: cols_of_def col_eq res k get)
  assume n: "low n \<noteq> low ''event_name''"
  obtain j f where j: "resolve_name low n (map fst (b_cols b)) = (j, f)" by fastforce
  have "f \<Longrightarrow> low j = low n" using j [unfolded resolve_name_spec] by (auto split: if_splits)
  then have "f \<Longrightarrow> j \<noteq> k" using n k(3) by auto
  then show "cols_of low (b1\<lparr>b_cols := cols\<rparr>) n = map_option g (cols_of low b n)"
    by (auto simp: cols_of_def col_eq res j get option.map_comp comp_def)
qed

definition family_at :: "(string \<Rightarrow> string) \<Rightarrow> 'f batch \<Rightarrow> string \<Rightarrow> nat \<Rightarrow> string option" where
  "family_at low b family i =
     (if family \<noteq> [] then Some family
      else (case plain_cell low b ''family'' i of Text f \<Rightarrow> Some f | _ \<Rightarrow> None))"

definition name_at :: "(string \<Rightarrow> string) \<Rightarrow> 'f batch \<Rightarrow> nat \<Rightarrow> string option" where
  "name_at low b i = (case plain_cell low b ''event_name'' i of Text n \<Rightarrow> Some n | _ \<Rightarrow> None)"

definition opt_cell :: "string option \<Rightarrow> 'f cell" where
  "opt_cell s = (case s of None \<Rightarrow> Null | Some t \<Rightarrow> Text t)"

text \<open> C30:
  What a project's event rules do to a batch that has the event name (and family) columns: the rows
  kept, in order, are those whose event is not dropped (a row with no family or no name is dropped
  when its other half could be a dropped event's, and one with neither when any event is dropped);
  a kept row's event name is the one its rule gives it, else its own; every other column reads in it
  as before.
\<close>

theorem event_rules_by_row:
  assumes ok: "batch_ok (b :: 'f batch)" and "cols_of low b ''event_name'' \<noteq> None" and "text_named low b ''event_name''"
    and "family = [] \<Longrightarrow> cols_of low b ''family'' \<noteq> None \<and> text_named low b ''family''"
    and sel: "sel = filter (\<lambda>i. event_fate rs (family_at low b family i) (name_at low b i) \<noteq> None) [0..<b_n b]"
  shows "b_n (apply_events low rs b family) = length sel
    \<and> (\<forall>j < length sel.
        plain_cell low (apply_events low rs b family) ''event_name'' j
          = opt_cell (the (event_fate rs (family_at low b family (sel ! j)) (name_at low b (sel ! j))))
        \<and> (\<forall>n. low n \<noteq> low ''event_name'' \<longrightarrow> plain_cell low (apply_events low rs b family) n j = plain_cell low b n (sel ! j)))"
proof -
  obtain k nc where nc: "col low b ''event_name'' = Some (k, nc)" using assms(2) by (auto simp: cols_of_def)
  have tn: "text_column_ok (b_n b) nc" using text_named_ok [OF ok assms(3)] nc by (simp add: cols_of_def)
  obtain fams fam_of where fam: "(if family \<noteq> [] then Some ([family], \<lambda>i. 0)
       else map_option (\<lambda>(_, fc). (c_dict fc, \<lambda>i. the (c_idx fc) ! i)) (col low b ''family'')) = Some (fams, fam_of)"
    and fams: "\<And>i. i < b_n b \<Longrightarrow> fam_of i < int (length fams) \<and> family_at low b family i = (if fam_of i < 0 then None else Some (fams ! nat (fam_of i)))"
  proof (cases "family = []")
    case False
    then show ?thesis using that [of "[family]" "\<lambda>i. 0"] by (simp add: family_at_def)
  next
    case True
    then obtain fk fc where fc: "col low b ''family'' = Some (fk, fc)" using assms(4) by (auto simp: cols_of_def)
    then have tf: "text_column_ok (b_n b) fc" using text_named_ok [OF ok] assms(4) True by (simp add: cols_of_def)
    show ?thesis
      by (rule that [of "c_dict fc" "\<lambda>i. the (c_idx fc) ! i"])
        (use True fc text_cell [OF tf] in \<open>auto simp: family_at_def plain_cell_def cols_of_def\<close>)
  qed
  obtain act d where act: "act_rows rs (c_dict nc) fams \<lparr>db_ids = None, db_dict = c_dict nc\<rparr> = (act, d)" by fastforce
  define slot where "slot = (\<lambda>i. new_index rs (c_dict nc) fams act (the (c_idx nc) ! i) (fam_of i))"
  define sel' where "sel' = filter (\<lambda>i. slot i \<noteq> None) [0..<b_n b]"
  define c where "c = (no_column\<lparr>c_dict := db_dict d, c_idx := Some (map (the \<circ> slot) sel')\<rparr> :: 'f column)"
  have name: "the (c_idx nc) ! i < int (length (c_dict nc)) \<and> name_at low b i
      = (if the (c_idx nc) ! i < 0 then None else Some (c_dict nc ! nat (the (c_idx nc) ! i)))" if "i < b_n b" for i
    using text_cell [OF tn that] nc by (simp add: name_at_def plain_cell_def cols_of_def)
  have fate: "case slot i of
      None \<Rightarrow> event_fate rs (family_at low b family i) (name_at low b i) = None
    | Some x \<Rightarrow> x < int (length (db_dict d))
        \<and> event_fate rs (family_at low b family i) (name_at low b i) = Some (if x < 0 then None else Some (db_dict d ! nat x))"
    if "i < b_n b" for i
  proof -
    have n: "the (c_idx nc) ! i < int (length (c_dict nc))"
      "name_at low b i = (if the (c_idx nc) ! i < 0 then None else Some (c_dict nc ! nat (the (c_idx nc) ! i)))" using name [OF that] by auto
    have f: "fam_of i < int (length fams)" "family_at low b family i = (if fam_of i < 0 then None else Some (fams ! nat (fam_of i)))"
      using fams [OF that] by auto
    show ?thesis unfolding slot_def n(2) f(2) by (rule new_index_fate [OF act n(1) f(1)])
  qed
  have "slot i \<noteq> None \<longleftrightarrow> event_fate rs (family_at low b family i) (name_at low b i) \<noteq> None" if "i < b_n b" for i
    using fate [OF that] by (cases "slot i") auto
  then have sels: "sel' = sel" unfolding sel sel'_def by (intro filter_cong) auto
  have mem: "sel ! j < b_n b" "slot (sel ! j) \<noteq> None" if "j < length sel" for j
    using nth_mem [OF that] unfolding sels [symmetric] sel'_def by auto
  have cell: "cell_at c j = opt_cell (the (event_fate rs (family_at low b family (sel ! j)) (name_at low b (sel ! j))))"
    if j: "j < length sel" for j
    using fate [OF mem(1) [OF j]] mem(2) [OF j] j by (auto simp: c_def cell_at_def sels opt_cell_def)
  have out: "apply_events low rs b family =
      (if length sel = b_n b then b\<lparr>b_cols := AList.update k c (b_cols b)\<rparr>
       else \<lparr>b_n = length sel, b_cols = AList.update k c (map (\<lambda>(k, x). (k, take_rows x sel)) (filter (\<lambda>(j, x). j \<noteq> k) (b_cols b)))\<rparr>)"
  proof -
    have slots: "new_index rs (c_dict nc) fams act (the (c_idx nc) ! i) (fam_of i) = slot i" for i by (simp add: slot_def)
    show ?thesis
      by (simp only: apply_events_def nc fam act option.case prod.case Let_def slots sel'_def [symmetric] c_def sels)
  qed
  show ?thesis
  proof (cases "length sel = b_n b")
    case True
    have "sel = [0..<b_n b]" using True unfolding sel by (metis (no_types, lifting) diff_zero filter_id_conv length_filter_less length_upt less_irrefl)
    then have id: "sel ! j = j" if "j < length sel" for j using that by simp
    have "low k = low ''event_name''" using col_key [OF nc] by simp
    then show ?thesis using True out cell id col_update_own [where b = b and c = c and low = low and n = "''event_name''" and cs = "b_cols b" and k = k] col_key(1) [OF nc]
        col_update_other [where b = b and c = c and low = low and cs = "b_cols b" and k = k]
      by (auto simp: plain_cell_def cols_of_def)
  next
    case False
    define b1 where "b1 = \<lparr>b_n = length sel, b_cols = AList.update k c (map (\<lambda>(k, x). (k, take_rows x sel)) (filter (\<lambda>(j, x). j \<noteq> k) (b_cols b)))\<rparr>"
    have b1: "b1 = b1\<lparr>b_cols := AList.update k c (map (\<lambda>(k, x). (k, take_rows x sel)) (filter (\<lambda>(j, x). j \<noteq> k) (b_cols b)))\<rparr>"
      by (simp add: b1_def)
    have "cols_of low b1 ''event_name'' = Some c" "low n \<noteq> low ''event_name'' \<Longrightarrow> cols_of low b1 n = map_option (\<lambda>x. take_rows x sel) (cols_of low b n)" for n
      by (subst b1, rule col_after_events [OF ok nc refl]; assumption)+
    moreover have "b_n b1 = length sel" by (simp add: b1_def)
    moreover have "apply_events low rs b family = b1" using out False by (simp add: b1_def)
    ultimately show ?thesis using cell by (auto simp: plain_cell_def cell_take split: option.splits)
  qed
qed

definition events_batch :: "unit batch" where
  "events_batch = \<lparr>b_n = 4, b_cols =
     [(''event_name'', no_column\<lparr>c_dict := [''buy'', ''test'', ''purchase''], c_idx := Some [0, 1, - 1, 2]\<rparr>),
      (''day'', no_column\<lparr>c_dict := [''01'', ''02''], c_idx := Some [0, 0, 1, 1]\<rparr>)]\<rparr>"

definition buy_to_purchase :: rule_set where
  "buy_to_purchase = \<lparr>rs_events = [((''product'', ''test''), DropEvent), ((''product'', ''buy''), RenameTo ''purchase'')],
     rs_drop_fams = [''product''], rs_drop_names = [''test''], rs_attrs = []\<rparr>"

theorem event_rules_by_row_witness:
  "b_n (apply_events ascii_low buy_to_purchase events_batch ''product'') = 2
    \<and> map (plain_cell ascii_low (apply_events ascii_low buy_to_purchase events_batch ''product'') ''event_name'') [0, 1]
      = [Text ''purchase'', Text ''purchase'']
    \<and> map (plain_cell ascii_low (apply_events ascii_low buy_to_purchase events_batch ''product'') ''day'') [0, 1] = [Text ''01'', Text ''02'']"
proof -
  have ok: "batch_ok events_batch" by (simp add: batch_ok_def events_batch_def column_ok_def no_column_def)
  have cols: "cols_of ascii_low events_batch ''event_name'' = Some (no_column\<lparr>c_dict := [''buy'', ''test'', ''purchase''], c_idx := Some [0, 1, - 1, 2]\<rparr>)"
    "cols_of ascii_low events_batch ''day'' = Some (no_column\<lparr>c_dict := [''01'', ''02''], c_idx := Some [0, 0, 1, 1]\<rparr>)"
    by (simp_all add: cols_of_def col_eq events_batch_def resolve_name_def ascii_low_def)
  have cell: "plain_cell ascii_low events_batch ''event_name'' i = [Text ''buy'', Text ''test'', Null, Text ''purchase''] ! i"
    "plain_cell ascii_low events_batch ''day'' i = [Text ''01'', Text ''01'', Text ''02'', Text ''02''] ! i" if "i \<in> {0, 1, 2, 3}" for i
    using that by (auto simp: plain_cell_def cols cell_at_def no_column_def)
  have fate: "event_fate buy_to_purchase (family_at ascii_low events_batch ''product'' i) (name_at ascii_low events_batch i)
      = [Some (Some ''purchase''), None, None, Some (Some ''purchase'')] ! i" if "i \<in> {0, 1, 2, 3}" for i
    using that cell [OF that] by (auto simp: event_fate_def family_at_def name_at_def buy_to_purchase_def)
  have n: "[0..<b_n events_batch] = [0, 1, 2, 3]" by (simp add: events_batch_def upt_rec)
  have sel: "[0, 3] = filter (\<lambda>i. event_fate buy_to_purchase (family_at ascii_low events_batch ''product'' i) (name_at ascii_low events_batch i) \<noteq> None) [0..<b_n events_batch]"
    unfolding n using fate [of 0] fate [of 1] fate [of 2] fate [of 3] by simp
  have day: "ascii_low ''day'' \<noteq> ascii_low ''event_name''" by (simp add: ascii_low_def)
  have tn: "text_named ascii_low events_batch ''event_name''" by (simp add: text_named_def cols no_column_def)
  note r = event_rules_by_row [OF ok _ tn _ sel]
  have "b_n (apply_events ascii_low buy_to_purchase events_batch ''product'') = 2" using r by (simp add: cols)
  moreover have "plain_cell ascii_low (apply_events ascii_low buy_to_purchase events_batch ''product'') ''event_name'' j = Text ''purchase''
      \<and> plain_cell ascii_low (apply_events ascii_low buy_to_purchase events_batch ''product'') ''day'' j = [Text ''01'', Text ''02''] ! j"
    if "j \<in> {0, 1}" for j
  proof -
    have j: "j < length [0, 3 :: nat]" "[0, 3] ! j \<in> {0, 1, 2, 3 :: nat}" using that by auto
    show ?thesis using r j day fate [OF j(2)] cell [OF j(2)] that by (auto simp: cols opt_cell_def)
  qed
  ultimately show ?thesis by simp
qed

section \<open>Compiled event rules\<close>

definition drops_listed :: "rule_set \<Rightarrow> bool" where
  "drops_listed rs \<longleftrightarrow> (\<forall>f n. map_of (rs_events rs) (f, n) = Some DropEvent \<longrightarrow> f \<in> set (rs_drop_fams rs) \<and> n \<in> set (rs_drop_names rs))"

definition rules_of :: "int \<Rightarrow> event_rule list \<Rightarrow> event_rule set" where
  "rules_of p ev = {r \<in> set ev. er_project r = p}"

text \<open>One rule taken: a drop wins, then the first.\<close>

lemma event_rule_taken:
  assumes "drops_listed rs" and "er_project r = p"
  obtains rs1 where "event_rules p bl (r # ev) rs = event_rules p bl ev rs1" and "drops_listed rs1"
    and "\<And>k. map_of (rs_events rs1) k = (let old = map_of (rs_events rs) k in
        if k \<noteq> (er_family r, er_name r) then old
        else if old = Some DropEvent \<or> drops bl r then Some DropEvent
        else if old \<noteq> None then old else Some (RenameTo (er_to r)))"
    and "set (rs_drop_fams rs1) = set (rs_drop_fams rs) \<union> (if drops bl r then {er_family r} else {})"
    and "set (rs_drop_names rs1) = set (rs_drop_names rs) \<union> (if drops bl r then {er_name r} else {})"
proof -
  let ?k = "(er_family r, er_name r)"
  let ?m = "map_of (rs_events rs) ?k"
  consider (skip) "?m = Some DropEvent \<or> ?m \<noteq> None \<and> \<not> drops bl r"
    | (drop) "drops bl r" "?m \<noteq> Some DropEvent" | (first) "\<not> drops bl r" "?m = None" by blast
  then show thesis
  proof cases
    case skip
    then have "event_rules p bl (r # ev) rs = event_rules p bl ev rs" using assms(2) by (auto split: option.splits)
    then show thesis by (rule that [of rs]) (use skip assms(1) in \<open>auto simp: drops_listed_def Let_def\<close>)
  next
    case drop
    let ?rs = "rs\<lparr>rs_events := AList.update ?k DropEvent (rs_events rs), rs_drop_fams := er_family r # rs_drop_fams rs,
        rs_drop_names := er_name r # rs_drop_names rs\<rparr>"
    have "event_rules p bl (r # ev) rs = event_rules p bl ev ?rs" using assms(2) drop by (auto simp: Let_def split: option.splits)
    then show thesis by (rule that [of ?rs]) (use drop assms(1) in \<open>auto simp: drops_listed_def Let_def AList.update_conv'\<close>)
  next
    case first
    let ?rs = "rs\<lparr>rs_events := AList.update ?k (RenameTo (er_to r)) (rs_events rs)\<rparr>"
    have "event_rules p bl (r # ev) rs = event_rules p bl ev ?rs" using assms(2) first by (auto simp: Let_def)
    then show thesis by (rule that [of ?rs]) (use first assms(1) in \<open>auto simp: drops_listed_def Let_def AList.update_conv'\<close>)
  qed
qed

lemma rules_of_Cons: "rules_of p (r # ev) = (if er_project r = p then insert r (rules_of p ev) else rules_of p ev)"
  by (auto simp: rules_of_def)

lemma event_rules_listed: "drops_listed rs \<Longrightarrow>
    set (rs_drop_fams (event_rules p bl ev rs)) = set (rs_drop_fams rs) \<union> er_family ` {r \<in> rules_of p ev. drops bl r}
    \<and> set (rs_drop_names (event_rules p bl ev rs)) = set (rs_drop_names rs) \<union> er_name ` {r \<in> rules_of p ev. drops bl r}"
proof (induction ev arbitrary: rs)
  case (Cons r ev)
  show ?case
  proof (cases "er_project r = p")
    case True
    from event_rule_taken [OF Cons.prems True, of bl ev] obtain rs1 where
      "event_rules p bl (r # ev) rs = event_rules p bl ev rs1" "drops_listed rs1"
      "set (rs_drop_fams rs1) = set (rs_drop_fams rs) \<union> (if drops bl r then {er_family r} else {})"
      "set (rs_drop_names rs1) = set (rs_drop_names rs) \<union> (if drops bl r then {er_name r} else {})" by metis
    then show ?thesis using Cons.IH [of rs1] True by (auto simp: rules_of_Cons simp del: event_rules.simps)
  qed (use Cons in \<open>simp add: rules_of_Cons\<close>)
qed (simp add: rules_of_def)

lemma event_rules_acts: "drops_listed rs \<Longrightarrow>
    (map_of (rs_events (event_rules p bl ev rs)) (f, n) = Some DropEvent
      \<longleftrightarrow> map_of (rs_events rs) (f, n) = Some DropEvent \<or> (\<exists>r \<in> rules_of p ev. er_family r = f \<and> er_name r = n \<and> drops bl r))
    \<and> (map_of (rs_events (event_rules p bl ev rs)) (f, n) = None
      \<longleftrightarrow> map_of (rs_events rs) (f, n) = None \<and> \<not> (\<exists>r \<in> rules_of p ev. er_family r = f \<and> er_name r = n))
    \<and> (map_of (rs_events (event_rules p bl ev rs)) (f, n) = Some (RenameTo t) \<longrightarrow>
      map_of (rs_events rs) (f, n) = Some (RenameTo t) \<or> (\<exists>r \<in> rules_of p ev. er_family r = f \<and> er_name r = n \<and> er_to r = t))"
proof (induction ev arbitrary: rs)
  case (Cons r ev)
  show ?case
  proof (cases "er_project r = p")
    case True
    from event_rule_taken [OF Cons.prems True, of bl ev] obtain rs1 where
      "event_rules p bl (r # ev) rs = event_rules p bl ev rs1" "drops_listed rs1"
      "map_of (rs_events rs1) (f, n) = (let old = map_of (rs_events rs) (f, n) in
        if (f, n) \<noteq> (er_family r, er_name r) then old
        else if old = Some DropEvent \<or> drops bl r then Some DropEvent
        else if old \<noteq> None then old else Some (RenameTo (er_to r)))" by metis
    then show ?thesis using Cons.IH [of rs1] True
      by (auto simp: rules_of_Cons Let_def simp del: event_rules.simps split: if_splits)
  qed (use Cons in \<open>simp add: rules_of_Cons\<close>)
qed (simp add: rules_of_def)

text \<open> 
  What a project's compiled event rules do to an event: it is dropped just when some rule of the
  project for it blocks it or renames it onto a name the project blocks; it is renamed to a rule's
  new name only when none of its rules drops it; an event no rule of the project names is left
  alone. The families and the names listed for rows with a NULL are those of the dropped events.
\<close>

theorem compiled_event_rules:
  "(\<forall>f n. case map_of (rs_events (compile_rules low lower p evs ats cols)) (f, n) of
      None \<Rightarrow> \<not> (\<exists>r \<in> rules_of p evs. er_family r = f \<and> er_name r = n)
    | Some DropEvent \<Rightarrow> \<exists>r \<in> rules_of p evs. er_family r = f \<and> er_name r = n
        \<and> (er_action r = Block \<or> (\<exists>b \<in> rules_of p evs. er_family b = er_family r \<and> er_name b = er_to r \<and> er_action b = Block))
    | Some (RenameTo t) \<Rightarrow> (\<exists>r \<in> rules_of p evs. er_family r = f \<and> er_name r = n \<and> er_to r = t)
        \<and> \<not> (\<exists>r \<in> rules_of p evs. er_family r = f \<and> er_name r = n
          \<and> (er_action r = Block \<or> (\<exists>b \<in> rules_of p evs. er_family b = er_family r \<and> er_name b = er_to r \<and> er_action b = Block))))
    \<and> set (rs_drop_fams (compile_rules low lower p evs ats cols))
        = {f. \<exists>n. map_of (rs_events (compile_rules low lower p evs ats cols)) (f, n) = Some DropEvent}
    \<and> set (rs_drop_names (compile_rules low lower p evs ats cols))
        = {n. \<exists>f. map_of (rs_events (compile_rules low lower p evs ats cols)) (f, n) = Some DropEvent}"
proof -
  define ev where "ev = sort_key (\<lambda>r. (er_project r, er_family r, er_name r)) evs"
  define rs0 where "rs0 = \<lparr>rs_events = [], rs_drop_fams = [], rs_drop_names = [], rs_attrs = []\<rparr>"
  define bl where "bl = blocked_events p ev"
  define rs where "rs = event_rules p bl ev rs0"
  have c: "rs_events (compile_rules low lower p evs ats cols) = rs_events rs" "rs_drop_fams (compile_rules low lower p evs ats cols) = rs_drop_fams rs"
    "rs_drop_names (compile_rules low lower p evs ats cols) = rs_drop_names rs"
    by (simp_all add: compile_rules_def Let_def rs_def bl_def ev_def rs0_def split: prod.splits)
  have ro: "rules_of p ev = rules_of p evs" by (simp add: rules_of_def ev_def)
  have dr: "drops bl r \<longleftrightarrow> er_action r = Block \<or> (\<exists>b \<in> rules_of p evs. er_family b = er_family r \<and> er_name b = er_to r \<and> er_action b = Block)" for r
    unfolding drops_def bl_def blocked_events_def ro [symmetric] by (auto simp: rules_of_def image_iff)
  have l: "drops_listed rs0" by (simp add: drops_listed_def rs0_def)
  have drop: "map_of (rs_events rs) (f, n) = Some DropEvent \<longleftrightarrow> (\<exists>r \<in> rules_of p evs. er_family r = f \<and> er_name r = n \<and> drops bl r)" for f n
    using event_rules_acts [OF l, of p bl ev f n] unfolding rs_def ro by (simp add: rs0_def)
  have none: "map_of (rs_events rs) (f, n) = None \<longleftrightarrow> \<not> (\<exists>r \<in> rules_of p evs. er_family r = f \<and> er_name r = n)" for f n
    using event_rules_acts [OF l, of p bl ev f n] unfolding rs_def ro by (simp add: rs0_def)
  have ren: "map_of (rs_events rs) (f, n) = Some (RenameTo t) \<Longrightarrow> \<exists>r \<in> rules_of p evs. er_family r = f \<and> er_name r = n \<and> er_to r = t" for f n t
    using event_rules_acts [OF l, of p bl ev f n t] unfolding rs_def ro by (simp add: rs0_def)
  have listed: "set (rs_drop_fams rs) = er_family ` {r \<in> rules_of p evs. drops bl r}" "set (rs_drop_names rs) = er_name ` {r \<in> rules_of p evs. drops bl r}"
    using event_rules_listed [OF l, of p bl ev] unfolding rs_def ro by (simp_all add: rs0_def)
  have "case map_of (rs_events rs) (f, n) of
      None \<Rightarrow> \<not> (\<exists>r \<in> rules_of p evs. er_family r = f \<and> er_name r = n)
    | Some DropEvent \<Rightarrow> \<exists>r \<in> rules_of p evs. er_family r = f \<and> er_name r = n \<and> drops bl r
    | Some (RenameTo t) \<Rightarrow> (\<exists>r \<in> rules_of p evs. er_family r = f \<and> er_name r = n \<and> er_to r = t)
        \<and> \<not> (\<exists>r \<in> rules_of p evs. er_family r = f \<and> er_name r = n \<and> drops bl r)" for f n
  proof (cases "map_of (rs_events rs) (f, n)")
    case None
    then have "\<not> (\<exists>r \<in> rules_of p evs. er_family r = f \<and> er_name r = n)" using none [of f n] by blast
    then show ?thesis using None by simp
  next
    case (Some a)
    then show ?thesis using drop [of f n] ren [of f n] by (cases a) auto
  qed
  moreover have "set (rs_drop_fams rs) = {f. \<exists>n. map_of (rs_events rs) (f, n) = Some DropEvent}"
    "set (rs_drop_names rs) = {n. \<exists>f. map_of (rs_events rs) (f, n) = Some DropEvent}"
    unfolding listed drop by auto
  ultimately show ?thesis unfolding c dr by blast
qed

end
