(* ===== verification/Sessions.thy ===== *)
theory Sessions
  imports Prelude "HOL-Library.Product_Lexorder"
begin

text \<open>
  Cutting a day's views into sessions (\<^verbatim>\<open>internal/archive/sessions.go\<close>, used by the derived session
  files and by the native engine): the order of the views, the loop over partitions and over the
  views of one second, and what it computes. The code's sort is unstable, so the theorems hold of
  any sorted arrangement of the views; \<open>sessionize\<close> takes one.
\<close>

section \<open>Views and sessions\<close>

record session_view =
  sv_kind :: string
  sv_actor :: string
  sv_session :: string
  sv_id :: string
  sv_kind_null :: bool
  sv_actor_null :: bool
  sv_id_null :: bool
  sv_ts :: int
  sv_batch :: int
  sv_row :: int

record session =
  ss_first :: nat
  ss_last :: nat
  ss_partition :: nat
  ss_views :: nat
  ss_declared :: bool

datatype session_key = Declared string | Gap nat

definition seconds :: "int \<Rightarrow> int" where
  "seconds ts = (if go_mod ts 1000000 < 0 then go_div ts 1000000 - 1 else go_div ts 1000000)"

definition bool_int :: "bool \<Rightarrow> int" where
  "bool_int b = (if b then 1 else 0)"

definition compare :: "'a :: linorder \<Rightarrow> 'a \<Rightarrow> int" where
  "compare a b = (if a < b then - 1 else if b < a then 1 else 0)"

definition cmp_partition :: "session_view \<Rightarrow> session_view \<Rightarrow> int" where
  "cmp_partition a b =
     (let c1 = compare (bool_int (sv_kind_null a)) (bool_int (sv_kind_null b));
          c2 = compare (sv_kind a) (sv_kind b);
          c3 = compare (bool_int (sv_actor_null a)) (bool_int (sv_actor_null b))
      in if c1 \<noteq> 0 then c1 else if c2 \<noteq> 0 then c2 else if c3 \<noteq> 0 then c3 else compare (sv_actor a) (sv_actor b))"

definition cmp_view :: "session_view \<Rightarrow> session_view \<Rightarrow> int" where
  "cmp_view a b =
     (let c1 = cmp_partition a b; c2 = compare (sv_ts a) (sv_ts b);
          c3 = compare (bool_int (sv_id_null a)) (bool_int (sv_id_null b))
      in if c1 \<noteq> 0 then c1 else if c2 \<noteq> 0 then c2 else if c3 \<noteq> 0 then c3 else compare (sv_id a) (sv_id b))"

section \<open>Cutting\<close>

definition session_gap :: int where
  "session_gap = 1800"

text \<open>A view joins the session its key has in the partition, or opens it.\<close>

definition put_view :: "session_view list \<Rightarrow> nat \<Rightarrow> nat \<Rightarrow> nat \<Rightarrow> (session_key \<rightharpoonup> nat) \<times> session list \<Rightarrow> (session_key \<rightharpoonup> nat) \<times> session list" where
  "put_view vs start run x st =
     (let sid = sv_session (vs ! x); key = (if sid \<noteq> [] then Declared sid else Gap run); keys = fst st; sessions = snd st;
          opened = (keys key = None);
          s = (case keys key of Some s \<Rightarrow> s | None \<Rightarrow> length sessions);
          keys1 = (if opened then keys(key \<mapsto> s) else keys);
          sessions1 = (if opened then sessions @ [\<lparr>ss_first = x, ss_last = 0, ss_partition = start, ss_views = 0, ss_declared = (sid \<noteq> [])\<rparr>] else sessions)
      in (keys1, sessions1[s := (sessions1 ! s)\<lparr>ss_last := x, ss_views := ss_views (sessions1 ! s) + 1\<rparr>]))"

function cut_peers :: "session_view list \<Rightarrow> nat \<Rightarrow> nat \<Rightarrow> nat \<Rightarrow> nat \<Rightarrow> int \<Rightarrow> (session_key \<rightharpoonup> nat) \<times> session list \<Rightarrow> session list" where
  "cut_peers vs start en j run prev st =
     (if j \<ge> en then snd st
      else let t = seconds (sv_ts (vs ! j));
               k = scan_to (\<lambda>k. seconds (sv_ts (vs ! k)) = t) (j + 1) en;
               run1 = (if sv_session (vs ! j) = [] \<and> (j = start \<or> t - prev > session_gap) then run + 1 else run)
           in cut_peers vs start en k run1 t (fold (put_view vs start run1) [j..<k] st))"
  by pat_completeness auto
termination
proof (relation "measure (\<lambda>(vs, start, en, j, run, prev, st). en - j)", goal_cases)
  case (2 vs start en j run prev st t k run1)
  then show ?case using scan_to_bounds [of "j + 1" "\<lambda>k. seconds (sv_ts (vs ! k)) = t" en] by auto
qed simp

declare cut_peers.simps [simp del]

function cut_partitions :: "session_view list \<Rightarrow> nat \<Rightarrow> session list \<Rightarrow> session list" where
  "cut_partitions vs start sessions =
     (if start \<ge> length vs then sessions
      else let en = scan_to (\<lambda>k. cmp_partition (vs ! start) (vs ! k) = 0) (start + 1) (length vs)
           in cut_partitions vs en (cut_peers vs start en start 0 0 (Map.empty, sessions)))"
  by pat_completeness auto
termination
proof (relation "measure (\<lambda>(vs, start, sessions). length vs - start)", goal_cases)
  case (2 vs start sessions en)
  then show ?case using scan_to_bounds [of "start + 1" "\<lambda>k. cmp_partition (vs ! start) (vs ! k) = 0" "length vs"] by auto
qed simp

declare cut_partitions.simps [simp del]

fun insert_view :: "session_view \<Rightarrow> session_view list \<Rightarrow> session_view list" where
  "insert_view v [] = [v]"
| "insert_view v (w # ws) = (if cmp_view v w \<le> 0 then v # w # ws else w # insert_view v ws)"

definition sessionize :: "session_view list \<Rightarrow> session_view list \<times> session list" where
  "sessionize views = (let vs = foldr insert_view views [] in (vs, cut_partitions vs 0 []))"

section \<open>The order of views\<close>

lemma compare_0 [simp]: "compare a b = 0 \<longleftrightarrow> a = b"
  by (auto simp: compare_def)

lemma compare_le [simp]: "compare a b \<le> 0 \<longleftrightarrow> a \<le> b"
  by (auto simp: compare_def)

lemma bool_int_eq [simp]: "bool_int a = bool_int b \<longleftrightarrow> a = b"
  by (simp add: bool_int_def)

lemma cmp_partition_0: "cmp_partition a b = 0 \<longleftrightarrow>
    sv_kind_null a = sv_kind_null b \<and> sv_kind a = sv_kind b \<and> sv_actor_null a = sv_actor_null b \<and> sv_actor a = sv_actor b"
  by (auto simp: cmp_partition_def Let_def)

lemma compare_less: "compare a b < 0 \<longleftrightarrow> a < b"
  by (auto simp: compare_def)

lemma compare_pair: "compare (x, y) (x', y') = (if compare x x' \<noteq> 0 then compare x x' else compare y y')"
  by (auto simp: compare_def)

lemma compare_bool: "compare (bool_int a) (bool_int b) = compare a b"
  by (auto simp: compare_def bool_int_def)

definition partition_of :: "session_view \<Rightarrow> bool \<times> string \<times> bool \<times> string" where
  "partition_of v = (sv_kind_null v, sv_kind v, sv_actor_null v, sv_actor v)"

text \<open>Both comparisons are those of a lexicographic order.\<close>

lemma cmp_partition_lex: "cmp_partition a b = compare (partition_of a) (partition_of b)"
  by (simp add: cmp_partition_def partition_of_def Let_def compare_pair compare_bool)

lemma cmp_view_lex: "cmp_view a b = compare (partition_of a, sv_ts a, sv_id_null a, sv_id a) (partition_of b, sv_ts b, sv_id_null b, sv_id b)"
  by (simp add: cmp_view_def cmp_partition_lex Let_def compare_pair compare_bool)

lemma cmp_view_trans: "cmp_view a b \<le> 0 \<Longrightarrow> cmp_view b c \<le> 0 \<Longrightarrow> cmp_view a c \<le> 0"
  unfolding cmp_view_lex compare_le by (rule order_trans)

lemma cmp_view_total: "cmp_view a b \<le> 0 \<or> cmp_view b a \<le> 0"
  unfolding cmp_view_lex compare_le by (rule linear)

lemma pair_le: "(x, y) \<le> (x', y') \<longleftrightarrow> x < x' \<or> x = x' \<and> y \<le> y'" for x :: "'a :: linorder" and y :: "'b :: linorder"
  by (auto simp: less_eq_prod_def)

lemma cmp_view_parts: "cmp_view a b \<le> 0 \<longleftrightarrow> partition_of a < partition_of b \<or> partition_of a = partition_of b
    \<and> (sv_ts a, sv_id_null a, sv_id a) \<le> (sv_ts b, sv_id_null b, sv_id b)"
  unfolding cmp_view_lex compare_le pair_le [of "partition_of a"] by simp

definition views_sorted :: "session_view list \<Rightarrow> bool" where
  "views_sorted vs \<longleftrightarrow> sorted_wrt (\<lambda>a b. cmp_view a b \<le> 0) vs"

lemma insert_view_mset: "mset (insert_view v ws) = add_mset v (mset ws)"
  by (induction ws) auto

lemma insert_view_sorted: "views_sorted ws \<Longrightarrow> views_sorted (insert_view v ws)"
proof (induction ws)
  case (Cons w ws)
  have set: "set (insert_view v ws) = insert v (set ws)" using insert_view_mset [of v ws] by (metis set_mset_add_mset_insert set_mset_mset)
  show ?case
  proof (cases "cmp_view v w \<le> 0")
    case True
    then show ?thesis using Cons.prems cmp_view_trans [OF True] by (auto simp: views_sorted_def)
  next
    case False
    then have "cmp_view w v \<le> 0" using cmp_view_total by blast
    then show ?thesis using Cons False set by (auto simp: views_sorted_def)
  qed
qed (simp add: views_sorted_def)

lemma sessionize_sorted: "mset (fst (sessionize views)) = mset views \<and> views_sorted (fst (sessionize views))"
proof -
  have "mset (foldr insert_view views []) = mset views \<and> views_sorted (foldr insert_view views [])"
    by (induction views) (auto simp: insert_view_mset insert_view_sorted, simp add: views_sorted_def)
  then show ?thesis by (simp add: sessionize_def Let_def)
qed

lemma seconds_floor: "seconds ts = ts div 1000000"
proof -
  have "go_mod ts 1000000 < 0 \<longleftrightarrow> ts < 0 \<and> go_mod ts 1000000 \<noteq> 0"
  proof (cases "ts < 0")
    case True
    then have "go_mod ts 1000000 = - ((- ts) mod 1000000)" by (simp add: go_mod_def go_div_def minus_mult_div_eq_mod [symmetric] algebra_simps)
    then show ?thesis using True pos_mod_sign [of 1000000 "- ts"] by linarith
  next
    case False
    then have "go_mod ts 1000000 = ts mod 1000000" by (cases "ts = 0") (simp_all add: go_mod_def go_div_def minus_div_mult_eq_mod)
    then show ?thesis using False by simp
  qed
  then show ?thesis using go_div_floor [of 1000000 ts] by (simp add: seconds_def)
qed

lemma seconds_mono: "a \<le> b \<Longrightarrow> seconds a \<le> seconds b"
  by (simp add: seconds_floor zdiv_mono1)

section \<open>Runs of undeclared views\<close>

definition secs :: "session_view list \<Rightarrow> nat \<Rightarrow> int" where
  "secs vs x = seconds (sv_ts (vs ! x))"

text \<open>A view starts a run in the partition that begins at \<open>start\<close>; the runs started up to a view; its key.\<close>

definition starts_run :: "session_view list \<Rightarrow> nat \<Rightarrow> nat \<Rightarrow> bool" where
  "starts_run vs start x \<longleftrightarrow> sv_session (vs ! x) = [] \<and> (x = start \<or> secs vs x - secs vs (x - 1) > session_gap)"

definition runs_to :: "session_view list \<Rightarrow> nat \<Rightarrow> nat \<Rightarrow> nat" where
  "runs_to vs start n = length (filter (starts_run vs start) [start..<n])"

definition view_key :: "session_view list \<Rightarrow> nat \<Rightarrow> nat \<Rightarrow> session_key" where
  "view_key vs start x = (let sid = sv_session (vs ! x) in if sid \<noteq> [] then Declared sid else Gap (runs_to vs start (x + 1)))"

text \<open>The views of one second are one peer group: only its first can start a run.\<close>

lemma runs_to_peer:
  assumes "start \<le> j" and "j < x" and "x \<le> k" and "\<And>y. j \<le> y \<Longrightarrow> y < k \<Longrightarrow> secs vs y = secs vs j"
  shows "runs_to vs start x = runs_to vs start (j + 1)"
proof -
  have "[start..<x] = [start..<j + 1] @ [j + 1..<x]" using assms(1,2) upt_add_eq_append [of start "j + 1" "x - (j + 1)"] by simp
  moreover have "filter (starts_run vs start) [j + 1..<x] = []"
  proof -
    have "\<not> starts_run vs start y" if "j + 1 \<le> y" "y < x" for y
    proof -
      have "secs vs y = secs vs j" "secs vs (y - 1) = secs vs j" using assms(4) [of y] assms(4) [of "y - 1"] that assms(3) by auto
      then show ?thesis using that assms(1) by (simp add: starts_run_def session_gap_def)
    qed
    then show ?thesis by (auto simp: filter_empty_conv)
  qed
  ultimately show ?thesis by (simp add: runs_to_def)
qed

lemma runs_to_Suc: "start \<le> j \<Longrightarrow> runs_to vs start (j + 1) = runs_to vs start j + (if starts_run vs start j then 1 else 0)"
  by (simp add: runs_to_def)

lemma fold_upt_cong: "(\<And>x s. j \<le> x \<Longrightarrow> x < k \<Longrightarrow> f x s = g x s) \<Longrightarrow> fold f [j..<k] s = fold g [j..<k] s"
  by (rule fold_cong) auto

lemma cut_peers_fold:
  assumes "start \<le> j" and "run = runs_to vs start j" and "j = start \<or> prev = secs vs (j - 1)"
  shows "cut_peers vs start en j run prev st = snd (fold (\<lambda>x. put_view vs start (runs_to vs start (x + 1)) x) [j..<en] st)"
  using assms
proof (induction vs start en j run prev st rule: cut_peers.induct)
  case (1 vs start en j run prev st)
  show ?case
  proof (cases "j \<ge> en")
    case True
    then show ?thesis by (simp add: cut_peers.simps [of vs start en j])
  next
    case False
    define t where "t = seconds (sv_ts (vs ! j))"
    define k where "k = scan_to (\<lambda>k. seconds (sv_ts (vs ! k)) = t) (j + 1) en"
    define run1 where "run1 = (if sv_session (vs ! j) = [] \<and> (j = start \<or> t - prev > session_gap) then run + 1 else run)"
    have step: "cut_peers vs start en j run prev st = cut_peers vs start en k run1 t (fold (put_view vs start run1) [j..<k] st)"
      using False by (simp add: cut_peers.simps [of vs start en j] Let_def t_def k_def run1_def)
    have k: "j < k" "k \<le> en" using scan_to_bounds [of "j + 1" "\<lambda>k. seconds (sv_ts (vs ! k)) = t" en] False by (auto simp: k_def)
    have same: "secs vs y = secs vs j" if "j \<le> y" "y < k" for y
      using scan_to_all [of "j + 1" y "\<lambda>k. seconds (sv_ts (vs ! k)) = t" en] that by (cases "y = j") (auto simp: secs_def t_def k_def)
    have run1: "run1 = runs_to vs start (j + 1)"
      unfolding run1_def runs_to_Suc [OF "1.prems"(1)] using "1.prems" by (auto simp: starts_run_def secs_def t_def)
    have peer: "runs_to vs start x = run1" if "j < x" "x \<le> k" for x
      using runs_to_peer [OF "1.prems"(1) that same] run1 by simp
    have "fold (put_view vs start run1) [j..<k] st = fold (\<lambda>x. put_view vs start (runs_to vs start (x + 1)) x) [j..<k] st"
      by (rule fold_upt_cong) (simp add: peer)
    moreover have "[j..<en] = [j..<k] @ [k..<en]" using k upt_add_eq_append [of j k "en - k"] by simp
    moreover have "cut_peers vs start en k run1 t (fold (put_view vs start run1) [j..<k] st)
        = snd (fold (\<lambda>x. put_view vs start (runs_to vs start (x + 1)) x) [k..<en] (fold (put_view vs start run1) [j..<k] st))"
      by (rule "1.IH" [OF False t_def k_def run1_def]) (use "1.prems"(1) k peer [of k] same [of "k - 1"] in \<open>auto simp: t_def secs_def\<close>)
    ultimately show ?thesis by (simp add: step)
  qed
qed

section \<open>The sessions of a partition\<close>

definition firsts :: "(nat \<Rightarrow> 'k) \<Rightarrow> nat \<Rightarrow> nat \<Rightarrow> nat list" where
  "firsts key start n = filter (\<lambda>f. \<forall>y \<in> set [start..<f]. key y \<noteq> key f) [start..<n]"

definition session_at :: "session_view list \<Rightarrow> nat \<Rightarrow> nat \<Rightarrow> nat \<Rightarrow> session" where
  "session_at vs start n f =
     (let mine = filter (\<lambda>y. view_key vs start y = view_key vs start f) [start..<n]
      in \<lparr>ss_first = f, ss_last = last mine, ss_partition = start, ss_views = length mine, ss_declared = (sv_session (vs ! f) \<noteq> [])\<rparr>)"

lemma firsts_Suc: "start \<le> n \<Longrightarrow> firsts key start (n + 1) = firsts key start n @ (if \<forall>y \<in> set [start..<n]. key y \<noteq> key n then [n] else [])"
  by (simp add: firsts_def)

lemma firsts_distinct: "f \<in> set (firsts key start n) \<Longrightarrow> g \<in> set (firsts key start n) \<Longrightarrow> key f = key g \<Longrightarrow> f = g"
proof (rule linorder_cases [of f g])
  assume f: "f \<in> set (firsts key start n)" and g: "g \<in> set (firsts key start n)" and k: "key f = key g"
  show "f < g \<Longrightarrow> f = g" using f g k by (auto simp: firsts_def)
  show "g < f \<Longrightarrow> f = g" using f g k by (fastforce simp: firsts_def)
qed

lemma firsts_covers: "start \<le> y \<Longrightarrow> y < n \<Longrightarrow> \<exists>f \<in> set (firsts key start n). f \<le> y \<and> key f = key y"
proof (induction y rule: less_induct)
  case (less y)
  show ?case
  proof (cases "\<forall>x \<in> set [start..<y]. key x \<noteq> key y")
    case True
    then show ?thesis using less.prems by (auto simp: firsts_def)
  next
    case False
    then obtain x where x: "start \<le> x" "x < y" "key x = key y" by auto
    then obtain f where "f \<in> set (firsts key start n)" "f \<le> x" "key f = key x" using less.IH [of x] less.prems by auto
    then show ?thesis using x by (intro bexI [of _ f]) auto
  qed
qed

text \<open>
  Grouping the indices from \<open>start\<close> on by a key: a step gives the index to the group its key has, or
  opens one. Whoever groups so holds, in the order of the groups' first indices, what each group is
  (\<open>val n f\<close>, the group of the first index \<open>f\<close> after the indices below \<open>n\<close>).
\<close>

locale grouping =
  fixes start :: nat and key :: "nat \<Rightarrow> 'k" and step :: "nat \<Rightarrow> ('k \<rightharpoonup> nat) \<times> 'v list \<Rightarrow> ('k \<rightharpoonup> nat) \<times> 'v list"
    and fresh :: "nat \<Rightarrow> 'v" and grow :: "nat \<Rightarrow> 'v \<Rightarrow> 'v" and val :: "nat \<Rightarrow> nat \<Rightarrow> 'v"
  assumes step_known: "fst st (key x) = Some s \<Longrightarrow> step x st = (fst st, (snd st)[s := grow x (snd st ! s)])"
    and step_new: "fst st (key x) = None \<Longrightarrow> step x st = ((fst st)(key x \<mapsto> length (snd st)), snd st @ [fresh x])"
    and val_fresh: "start \<le> n \<Longrightarrow> \<forall>y \<in> set [start..<n]. key y \<noteq> key n \<Longrightarrow> val (n + 1) n = fresh n"
    and val_other: "start \<le> n \<Longrightarrow> f < n \<Longrightarrow> key n \<noteq> key f \<Longrightarrow> val (n + 1) f = val n f"
    and val_grow: "start \<le> n \<Longrightarrow> f < n \<Longrightarrow> key n = key f \<Longrightarrow> val (n + 1) f = grow n (val n f)"
begin

lemma groups_grow:
  assumes "start \<le> n" and i: "i < length (firsts key start n)" "key (firsts key start n ! i) = key n"
  shows "map (val (n + 1)) (firsts key start n) = (map (val n) (firsts key start n))[i := grow n (val n (firsts key start n ! i))]"
proof (rule nth_equalityI)
  let ?fs = "firsts key start n"
  fix j
  assume "j < length (map (val (n + 1)) ?fs)"
  then have j: "j < length ?fs" by simp
  then have lt: "?fs ! j < n" using nth_mem [OF j] by (simp add: firsts_def)
  show "map (val (n + 1)) ?fs ! j = (map (val n) ?fs)[i := grow n (val n (?fs ! i))] ! j"
  proof (cases "key n = key (?fs ! j)")
    case True
    have "?fs ! j = ?fs ! i" by (rule firsts_distinct [OF nth_mem [OF j] nth_mem [OF i(1)]]) (simp add: True [symmetric] i(2))
    moreover have "distinct ?fs" by (simp add: firsts_def)
    ultimately have "j = i" using i(1) j nth_eq_iff_index_eq by blast
    then show ?thesis using val_grow [OF assms(1) lt True] i(1) by simp
  next
    case False
    then have "j \<noteq> i" using i(2) by metis
    then show ?thesis using val_other [OF assms(1) lt False] j by simp
  qed
qed simp

lemma groups:
  assumes "start \<le> n"
  shows "snd (fold step [start..<n] (Map.empty, vs)) = vs @ map (val n) (firsts key start n)
    \<and> (\<forall>k s. fst (fold step [start..<n] (Map.empty, vs)) k = Some s
        \<longleftrightarrow> (\<exists>i < length (firsts key start n). s = length vs + i \<and> key (firsts key start n ! i) = k))"
  using assms
proof (induction n rule: dec_induct)
  case base
  then show ?case by (simp add: firsts_def)
next
  case (step n)
  let ?fs = "firsts key start n"
  define st where "st = fold step [start..<n] (Map.empty, vs)"
  have vs: "snd st = vs @ map (val n) ?fs"
    and keys: "\<And>k s. fst st k = Some s \<longleftrightarrow> (\<exists>i < length ?fs. s = length vs + i \<and> key (?fs ! i) = k)"
    using step.IH by (simp_all add: st_def)
  have fold: "fold step [start..<Suc n] (Map.empty, vs) = step n st" using step.hyps by (simp add: st_def)
  show ?case
  proof (cases "fst st (key n)")
    case (Some s)
    then obtain i where i: "i < length ?fs" "s = length vs + i" "key (?fs ! i) = key n" using keys by auto
    have "?fs ! i \<in> set [start..<n]" using nth_mem [OF i(1)] by (simp add: firsts_def)
    then have fs: "firsts key start (Suc n) = ?fs" using firsts_Suc [of start n key] step.hyps i(3) by auto
    show ?thesis unfolding fold fs step_known [OF Some] using keys i groups_grow [OF step.hyps(1) i(1,3)]
      by (simp add: vs list_update_append nth_append)
  next
    case None
    have new: "\<forall>y \<in> set [start..<n]. key y \<noteq> key n"
    proof
      fix y
      assume "y \<in> set [start..<n]"
      then obtain f where "f \<in> set ?fs" "key f = key y" using firsts_covers [of start y n key] by auto
      then show "key y \<noteq> key n" using None keys by (metis in_set_conv_nth option.distinct(1))
    qed
    have fs: "firsts key start (Suc n) = ?fs @ [n]" using firsts_Suc [of start n key] step.hyps new by simp
    have old: "map (val (Suc n)) ?fs = map (val n) ?fs"
    proof (rule map_cong [OF refl])
      fix f
      assume "f \<in> set ?fs"
      then have "f \<in> set [start..<n]" by (simp add: firsts_def)
      then have "f < n" "key n \<noteq> key f" using new by (simp, metis)
      then show "val (Suc n) f = val n f" using val_other [OF step.hyps(1), of f] by simp
    qed
    have "key (?fs ! i) \<noteq> key n" if "i < length ?fs" for i
      using nth_mem [OF that] new by (simp add: firsts_def)
    then show ?thesis unfolding fold fs step_new [OF None] using keys val_fresh [OF step.hyps(1) new]
      by (auto simp: vs old nth_append less_Suc_eq)
  qed
qed

end

interpretation cut: grouping start "view_key vs start" "\<lambda>x. put_view vs start (runs_to vs start (x + 1)) x"
  "\<lambda>x. \<lparr>ss_first = x, ss_last = x, ss_partition = start, ss_views = 1, ss_declared = (sv_session (vs ! x) \<noteq> [])\<rparr>"
  "\<lambda>x s. s\<lparr>ss_last := x, ss_views := ss_views s + 1\<rparr>" "session_at vs start" for vs start
proof unfold_locales
  fix n
  assume "start \<le> n" "\<forall>y \<in> set [start..<n]. view_key vs start y \<noteq> view_key vs start n"
  then show "session_at vs start (n + 1) n = \<lparr>ss_first = n, ss_last = n, ss_partition = start, ss_views = 1, ss_declared = (sv_session (vs ! n) \<noteq> [])\<rparr>"
    by (simp add: session_at_def filter_empty_conv)
qed (auto simp: put_view_def view_key_def session_at_def Let_def)

section \<open>What the sessions of a day are\<close>

text \<open>
  The first view of a view's partition; when two views are in one session: of one partition, both
  with the same declared id, or both with none and no run started between them.
\<close>

definition beginning :: "session_view list \<Rightarrow> nat \<Rightarrow> nat" where
  "beginning vs x = hd (filter (\<lambda>y. partition_of (vs ! y) = partition_of (vs ! x)) [0..<length vs])"

definition in_session :: "session_view list \<Rightarrow> nat \<Rightarrow> nat \<Rightarrow> bool" where
  "in_session vs x y \<longleftrightarrow> partition_of (vs ! x) = partition_of (vs ! y)
     \<and> view_key vs (beginning vs x) x = view_key vs (beginning vs y) y"

definition whole_session :: "session_view list \<Rightarrow> nat \<Rightarrow> session" where
  "whole_session vs f =
     (let mine = filter (in_session vs f) [0..<length vs]
      in \<lparr>ss_first = f, ss_last = last mine, ss_partition = beginning vs f, ss_views = length mine, ss_declared = (sv_session (vs ! f) \<noteq> [])\<rparr>)"

definition opens :: "session_view list \<Rightarrow> nat \<Rightarrow> bool" where
  "opens vs f \<longleftrightarrow> \<not> (\<exists>e < f. in_session vs e f)"

lemma sorted_partitions: "views_sorted vs \<Longrightarrow> x \<le> y \<Longrightarrow> y < length vs \<Longrightarrow> partition_of (vs ! x) \<le> partition_of (vs ! y)"
proof (cases "x = y")
  case False
  assume "views_sorted vs" "x \<le> y" "y < length vs"
  then have "cmp_view (vs ! x) (vs ! y) \<le> 0" using False by (simp add: views_sorted_def sorted_wrt_iff_nth_less)
  then show ?thesis unfolding cmp_view_parts by auto
qed simp

lemma split_upt: "i \<le> j \<Longrightarrow> j \<le> k \<Longrightarrow> [i..<k] = [i..<j] @ [j..<k]"
  using upt_add_eq_append [of i j "k - j"] by simp

lemma partition_sessions:
  assumes parts: "\<And>y. y < length vs \<Longrightarrow> partition_of (vs ! y) = partition_of (vs ! start) \<longleftrightarrow> start \<le> y \<and> y < en"
    and se: "start < en" "en \<le> length vs"
  shows "map (session_at vs start en) (firsts (view_key vs start) start en) = map (whole_session vs) (filter (opens vs) [start..<en])"
proof -
  have three: "[0..<length vs] = [0..<start] @ [start..<en] @ [en..<length vs]"
    using split_upt [of 0 start "length vs"] split_upt [of start en "length vs"] se by simp
  have same: "partition_of (vs ! y) = partition_of (vs ! start)" if "start \<le> y" "y < en" for y
    using parts [of y] that se by simp
  have beg: "beginning vs x = start" if "start \<le> x" "x < en" for x
  proof -
    have "filter (\<lambda>y. partition_of (vs ! y) = partition_of (vs ! x)) [0..<length vs] = [start..<en]"
    proof -
      have "filter (\<lambda>y. partition_of (vs ! y) = partition_of (vs ! x)) [0..<length vs] = filter (\<lambda>y. start \<le> y \<and> y < en) [0..<length vs]"
        using parts same [OF that] by (intro filter_cong) auto
      also have "\<dots> = [start..<en]" unfolding three by (simp add: filter_empty_conv filter_id_conv)
      finally show ?thesis .
    qed
    then show ?thesis using se by (simp add: beginning_def upt_conv_Cons)
  qed
  have in_s: "in_session vs x y \<longleftrightarrow> start \<le> y \<and> y < en \<and> view_key vs start x = view_key vs start y"
    if "start \<le> x" "x < en" "y < length vs" for x y
    using parts [of y] same [OF that(1,2)] beg [OF that(1,2)] beg [of y] that(3) unfolding in_session_def by metis
  have mine: "filter (in_session vs f) [0..<length vs] = filter (\<lambda>y. view_key vs start y = view_key vs start f) [start..<en]"
    if "start \<le> f" "f < en" for f
  proof -
    have "filter (in_session vs f) [start..<en] = filter (\<lambda>y. view_key vs start y = view_key vs start f) [start..<en]"
      by (rule filter_cong) (use in_s [OF that] se in auto)
    moreover have "filter (in_session vs f) [0..<start] = []" "filter (in_session vs f) [en..<length vs] = []"
      using in_s [OF that] se by (auto simp: filter_empty_conv)
    ultimately show ?thesis unfolding three by simp
  qed
  have opens: "opens vs f \<longleftrightarrow> (\<forall>y \<in> set [start..<f]. view_key vs start y \<noteq> view_key vs start f)" if f: "start \<le> f" "f < en" for f
  proof -
    have "in_session vs e f \<longleftrightarrow> start \<le> e \<and> view_key vs start e = view_key vs start f" if "e < f" for e
    proof (cases "start \<le> e")
      case True
      then show ?thesis using in_s [of e f] f se that by auto
    next
      case False
      then have "partition_of (vs ! e) \<noteq> partition_of (vs ! f)" using parts [of e] same [OF f] that f se by simp
      then show ?thesis using False by (simp add: in_session_def)
    qed
    then show ?thesis unfolding opens_def by auto
  qed
  have "firsts (view_key vs start) start en = filter (opens vs) [start..<en]"
    unfolding firsts_def by (rule filter_cong) (use opens in auto)
  moreover have "session_at vs start en f = whole_session vs f" if "f \<in> set (filter (opens vs) [start..<en])" for f
    using mine [of f] beg [of f] that by (auto simp: session_at_def whole_session_def Let_def)
  ultimately show ?thesis by (metis (no_types, lifting) map_cong)
qed

lemma cut_partitions_sessions:
  assumes "views_sorted vs" and "start \<le> length vs"
    and "\<And>x y. x < start \<Longrightarrow> start \<le> y \<Longrightarrow> y < length vs \<Longrightarrow> partition_of (vs ! x) \<noteq> partition_of (vs ! y)"
  shows "cut_partitions vs start ss = ss @ map (whole_session vs) (filter (opens vs) [start..<length vs])"
  using assms
proof (induction vs start ss rule: cut_partitions.induct)
  case (1 vs start ss)
  show ?case
  proof (cases "start \<ge> length vs")
    case True
    then show ?thesis by (simp add: cut_partitions.simps [of vs start ss])
  next
    case False
    define p where "p = (\<lambda>k. cmp_partition (vs ! start) (vs ! k) = 0)"
    define en where "en = scan_to p (start + 1) (length vs)"
    have p: "p k \<longleftrightarrow> partition_of (vs ! start) = partition_of (vs ! k)" for k by (simp add: p_def cmp_partition_lex)
    have en: "start < en" "en \<le> length vs" using scan_to_bounds [of "start + 1" p "length vs"] False by (auto simp: en_def)
    have step: "cut_partitions vs start ss = cut_partitions vs en (cut_peers vs start en start 0 0 (Map.empty, ss))"
      using False by (simp add: cut_partitions.simps [of vs start ss] Let_def en_def p_def)
    have later: "partition_of (vs ! y) \<noteq> partition_of (vs ! start)" if "en \<le> y" "y < length vs" for y
    proof
      assume eq: "partition_of (vs ! y) = partition_of (vs ! start)"
      have "partition_of (vs ! start) \<le> partition_of (vs ! en)" "partition_of (vs ! en) \<le> partition_of (vs ! y)"
        using sorted_partitions [OF "1.prems"(1)] en that by auto
      then have "p en" using eq p by simp
      moreover have "en = length vs \<or> \<not> p en" using scan_to_stops [of "start + 1" "length vs" p] False by (simp add: en_def)
      ultimately show False using that by simp
    qed
    have parts: "partition_of (vs ! y) = partition_of (vs ! start) \<longleftrightarrow> start \<le> y \<and> y < en" if "y < length vs" for y
    proof (cases "start \<le> y \<and> y < en")
      case True
      then have "y = start \<or> p y" using scan_to_all [of "start + 1" y p "length vs"] by (cases "y = start") (auto simp: en_def)
      then show ?thesis using True p by auto
    next
      case out: False
      then show ?thesis using later [of y] "1.prems"(3) [of y start] that False by auto
    qed
    have "cut_peers vs start en start 0 0 (Map.empty, ss) = ss @ map (whole_session vs) (filter (opens vs) [start..<en])"
    proof -
      have "cut_peers vs start en start 0 0 (Map.empty, ss)
          = snd (fold (\<lambda>x. put_view vs start (runs_to vs start (x + 1)) x) [start..<en] (Map.empty, ss))"
        by (rule cut_peers_fold) (simp_all add: runs_to_def)
      then show ?thesis using cut.groups [of start en vs ss] partition_sessions [OF parts en] en by simp
    qed
    moreover have "cut_partitions vs en (ss @ map (whole_session vs) (filter (opens vs) [start..<en]))
        = (ss @ map (whole_session vs) (filter (opens vs) [start..<en])) @ map (whole_session vs) (filter (opens vs) [en..<length vs])"
    proof -
      have sep: "partition_of (vs ! x) \<noteq> partition_of (vs ! y)" if "x < en" "en \<le> y" "y < length vs" for x y
      proof (cases "x < start")
        case True
        then show ?thesis using "1.prems"(3) [of x y] that en by simp
      next
        case xs: False
        then have "partition_of (vs ! x) = partition_of (vs ! start)" using parts [of x] that en by simp
        then show ?thesis using later [OF that(2,3)] by simp
      qed
      note ih = "1.IH" [OF False en_def [unfolded p_def] "1.prems"(1) en(2) sep]
      show ?thesis using ih calculation by (simp add: p_def)
    qed
    ultimately show ?thesis using step split_upt [of start en "length vs"] en by simp
  qed
qed

text \<open> C9:
  The sessions of a day, for its views in any order the sort may leave them: one for every view that
  no earlier view shares a session with, in the order of those first views; two views share one when
  they are of one partition and have the same declared id, or none and no silence of more than half an
  hour ends at an undeclared view between them. Each gives its first and its last view, the first
  view of its partition, how many views it has and whether its id was declared.
\<close>

theorem sessions_of_a_day:
  assumes "views_sorted vs"
  shows "cut_partitions vs 0 [] = map (whole_session vs) (filter (opens vs) [0..<length vs])"
  using cut_partitions_sessions [OF assms, of 0 "[]"] by simp

definition day_view :: "string \<Rightarrow> string \<Rightarrow> string \<Rightarrow> int \<Rightarrow> session_view" where
  "day_view actor sid i t = \<lparr>sv_kind = ''web'', sv_actor = actor, sv_session = sid, sv_id = i, sv_kind_null = False, sv_actor_null = False,
     sv_id_null = False, sv_ts = t * 1000000, sv_batch = 0, sv_row = 0\<rparr>"

definition day_views :: "session_view list" where
  "day_views = [day_view ''a'' [] ''1'' 0, day_view ''a'' ''s'' ''2'' 1000, day_view ''a'' [] ''3'' 2800, day_view ''a'' [] ''4'' 4601,
     day_view ''b'' [] ''5'' 0]"

theorem sessions_of_a_day_witness:
  "map (whole_session day_views) (filter (opens day_views) [0..<5])
    = [\<lparr>ss_first = 0, ss_last = 2, ss_partition = 0, ss_views = 2, ss_declared = False\<rparr>,
       \<lparr>ss_first = 1, ss_last = 1, ss_partition = 0, ss_views = 1, ss_declared = True\<rparr>,
       \<lparr>ss_first = 3, ss_last = 3, ss_partition = 0, ss_views = 1, ss_declared = False\<rparr>,
       \<lparr>ss_first = 4, ss_last = 4, ss_partition = 4, ss_views = 1, ss_declared = False\<rparr>]"
proof -
  have "views_sorted day_views" by (simp add: views_sorted_def day_views_def day_view_def cmp_view_def cmp_partition_def compare_def bool_int_def)
  note cut = sessions_of_a_day [OF this]
  have n: "length day_views = 5" by (simp add: day_views_def)
  have "map (whole_session day_views) (filter (opens day_views) [0..<5]) = cut_partitions day_views 0 []"
    using cut unfolding n by (rule sym)
  also have "\<dots> = [\<lparr>ss_first = 0, ss_last = 2, ss_partition = 0, ss_views = 2, ss_declared = False\<rparr>,
       \<lparr>ss_first = 1, ss_last = 1, ss_partition = 0, ss_views = 1, ss_declared = True\<rparr>,
       \<lparr>ss_first = 3, ss_last = 3, ss_partition = 0, ss_views = 1, ss_declared = False\<rparr>,
       \<lparr>ss_first = 4, ss_last = 4, ss_partition = 4, ss_views = 1, ss_declared = False\<rparr>]"
    by code_simp
  finally show ?thesis .
qed

end
