(* ===== verification/Funnel.thy ===== *)
theory Funnel
  imports NativeFilter "HOL-Library.Word"
begin

unbundle bit_operations_syntax

text \<open>
  Funnels (\<^verbatim>\<open>internal/native/funnel.go\<close>): the steps each actor took, gathered from the batches of a
  scan as a 16-bit mask per actor or per event, and counted in any order or in sequence. The batches
  the scan hands over, in the order its workers do, are a parameter; what the memory charge refuses
  is left out. The events of an actor are sorted by time, those of one time being one moment.
\<close>

section \<open>The scan\<close>

record step =
  st_label :: string
  st_where :: "raw_filter list"

record funnel_state =
  fn_masks :: "(string \<times> 16 word) list"
  fn_hits :: "(string \<times> (int \<times> 16 word) list) list"

definition step_mask :: "bool list list \<Rightarrow> nat \<Rightarrow> 16 word" where
  "step_mask pass i = foldl (\<lambda>m j. if pass ! j ! i then m OR push_bit j 1 else m) 0 [0..<length pass]"

definition note_row :: "bool \<Rightarrow> 'f column \<Rightarrow> 'f column option \<Rightarrow> bool list \<Rightarrow> bool list list \<Rightarrow> nat \<Rightarrow> funnel_state \<Rightarrow> funnel_state" where
  "note_row sequence idc ts keep pass i st = (case text_at (Some idc) i of
     None \<Rightarrow> st
   | Some v \<Rightarrow>
       if v = [] \<or> \<not> keep ! i then st
       else let mask = step_mask pass i in
         if mask = 0 then st
         else if \<not> sequence then st\<lparr>fn_masks := AList.map_default v mask (\<lambda>m. m OR mask) (fn_masks st)\<rparr>
         else (case time_at ts i of
             None \<Rightarrow> st
           | Some t \<Rightarrow> st\<lparr>fn_hits := AList.map_default v [(t, mask)] (\<lambda>hs. hs @ [(t, mask)]) (fn_hits st)\<rparr>))"

fun pass_all :: "'f float_ops \<Rightarrow> (string \<Rightarrow> string) \<Rightarrow> 'f batch \<Rightarrow> cfilter list list \<Rightarrow> filter_error + bool list list" where
  "pass_all fo low b [] = Inr []"
| "pass_all fo low b (fs # rest) = and_then (pass_rows fo low b fs) (\<lambda>p. and_then (pass_all fo low b rest) (\<lambda>ps. Inr (p # ps)))"

definition note_batch :: "'f float_ops \<Rightarrow> (string \<Rightarrow> string) \<Rightarrow> bool \<Rightarrow> string \<Rightarrow> cfilter list \<Rightarrow> cfilter list list \<Rightarrow> 'f batch \<Rightarrow> funnel_state
    \<Rightarrow> filter_error + funnel_state" where
  "note_batch fo low sequence who filters steps b st = (case batch_column fo low b (ever_column who) of
     None \<Rightarrow> Inr st
   | Some idc \<Rightarrow> and_then (pass_rows fo low b filters) (\<lambda>keep. and_then (pass_all fo low b steps) (\<lambda>pass.
       Inr (fold (note_row sequence idc (cols_of low b ''ts'') keep pass) [0..<b_n b] st))))"

fun note_batches :: "'f float_ops \<Rightarrow> (string \<Rightarrow> string) \<Rightarrow> bool \<Rightarrow> string \<Rightarrow> cfilter list \<Rightarrow> cfilter list list \<Rightarrow> 'f batch list \<Rightarrow> funnel_state
    \<Rightarrow> filter_error + funnel_state" where
  "note_batches fo low sequence who filters steps [] st = Inr st"
| "note_batches fo low sequence who filters steps (b # bs) st =
     and_then (note_batch fo low sequence who filters steps b st) (note_batches fo low sequence who filters steps bs)"

section \<open>Counting\<close>

definition count_up :: "nat \<Rightarrow> nat list \<Rightarrow> nat list" where
  "count_up n reached = fold (\<lambda>k r. r[k := r ! k + 1]) [0..<n] reached"

function walk_hits :: "nat \<Rightarrow> (int \<times> 16 word) list \<Rightarrow> nat \<Rightarrow> nat \<Rightarrow> nat" where
  "walk_hits steps hs i n =
     (if i \<ge> length hs then n
      else let j = scan_to (\<lambda>j. fst (hs ! j) = fst (hs ! i)) i (length hs);
               mask = foldl (\<lambda>m x. m OR snd (hs ! x)) 0 [i..<j]
           in walk_hits steps hs j (scan_to (\<lambda>n. bit mask n) n steps))"
  by pat_completeness auto
termination
proof (relation "measure (\<lambda>(steps, hs, i, n). length hs - i)", goal_cases)
  case (2 steps hs i n j mask)
  then have "j = scan_to (\<lambda>j. fst (hs ! j) = fst (hs ! i)) (i + 1) (length hs)" by (simp add: scan_to.simps [of _ i])
  then show ?case using 2 scan_to_bounds [of "i + 1" "\<lambda>j. fst (hs ! j) = fst (hs ! i)" "length hs"] by auto
qed simp

declare walk_hits.simps [simp del]

definition steps_taken :: "bool \<Rightarrow> nat \<Rightarrow> funnel_state \<Rightarrow> nat list" where
  "steps_taken sequence steps st =
     (if sequence then map (\<lambda>(v, hs). walk_hits steps (sort_key fst hs) 0 0) (fn_hits st)
      else map (\<lambda>(v, m). scan_to (\<lambda>n. bit m n) 0 steps) (fn_masks st))"

definition funnel_counts :: "'f float_ops \<Rightarrow> (string \<Rightarrow> string) \<Rightarrow> bool \<Rightarrow> string \<Rightarrow> cfilter list \<Rightarrow> cfilter list list \<Rightarrow> 'f batch list
    \<Rightarrow> filter_error + nat list" where
  "funnel_counts fo low sequence who filters steps bs =
     and_then (note_batches fo low sequence who filters steps bs \<lparr>fn_masks = [], fn_hits = []\<rparr>) (\<lambda>st.
       Inr (fold count_up (steps_taken sequence (length steps) st) (replicate (length steps) 0)))"

fun compile_steps :: "nat \<Rightarrow> step list \<Rightarrow> filter_error + cfilter list list" where
  "compile_steps i [] = Inr []"
| "compile_steps i (s # ss) = and_then (compile_filters (st_where s) (at_index ''steps'' i ''.where'')) (\<lambda>fs.
     and_then (compile_steps (i + 1) ss) (\<lambda>rest. Inr (fs # rest)))"

definition funnel :: "'f float_ops \<Rightarrow> (string \<Rightarrow> string) \<Rightarrow> bool \<Rightarrow> string \<Rightarrow> cfilter list \<Rightarrow> step list \<Rightarrow> 'f batch list
    \<Rightarrow> filter_error + (string \<times> string) list" where
  "funnel fo low sequence who filters steps bs = and_then (compile_steps 0 steps) (\<lambda>cs.
     and_then (funnel_counts fo low sequence who filters cs bs) (\<lambda>reached.
       Inr (map2 (\<lambda>s n. (st_label s, dec_nat n)) steps reached)))"

text \<open>The columns the scan reads, and those it asks for as dimensions.\<close>

definition funnel_columns :: "string \<Rightarrow> cfilter list \<Rightarrow> cfilter list list \<Rightarrow> string list" where
  "funnel_columns who filters steps = foldl append_read_columns (append_read_columns [''day'', ''ts'', ever_column who] filters) steps"

definition funnel_dimensions :: "cfilter list list \<Rightarrow> string list" where
  "funnel_dimensions steps = concat (map columns_of (concat steps))"

section \<open>Masks\<close>

lemma step_mask_bit:
  assumes "length pass \<le> 16"
  shows "bit (step_mask pass i) j \<longleftrightarrow> j < length pass \<and> pass ! j ! i"
proof -
  have "bit (foldl (\<lambda>m j. if pass ! j ! i then m OR push_bit j 1 else m) (m :: 16 word) [0..<n]) j \<longleftrightarrow> bit m j \<or> j < n \<and> pass ! j ! i"
    if "n \<le> 16" for n m
    using that by (induction n) (auto simp: bit_simps less_Suc_eq)
  from this [OF assms, of 0] show ?thesis by (simp add: step_mask_def)
qed

lemma word_zero_bits: "(m :: 16 word) = 0 \<longleftrightarrow> (\<forall>j. \<not> bit m j)"
  by (auto intro: bit_eqI)

lemma or_bits: "bit (foldl (\<lambda>m x. m OR g x) (a :: 16 word) xs) q \<longleftrightarrow> bit a q \<or> (\<exists>x \<in> set xs. bit (g x) q)"
  by (induction xs arbitrary: a) (auto simp: bit_simps)

section \<open>Taking steps in sequence\<close>

text \<open>The steps from \<open>n\<close> to \<open>k\<close> taken at times that never go back.\<close>

definition chain :: "(int \<Rightarrow> nat \<Rightarrow> bool) \<Rightarrow> nat \<Rightarrow> nat \<Rightarrow> bool" where
  "chain A n k \<longleftrightarrow> (\<exists>f. (\<forall>j. n \<le> j \<and> j \<le> k \<longrightarrow> A (f j) j) \<and> (\<forall>i j. n \<le> i \<and> i \<le> j \<and> j \<le> k \<longrightarrow> f i \<le> f j))"

definition hit_at :: "(int \<times> 16 word) list \<Rightarrow> nat \<Rightarrow> int \<Rightarrow> nat \<Rightarrow> bool" where
  "hit_at hs i t q \<longleftrightarrow> (\<exists>x. i \<le> x \<and> x < length hs \<and> fst (hs ! x) = t \<and> bit (snd (hs ! x)) q)"

lemma walk_hits_chain:
  assumes "sorted (map fst hs)" and "n \<le> steps"
  shows "k < walk_hits steps hs i n \<longleftrightarrow> k < n \<or> n \<le> k \<and> k < steps \<and> chain (hit_at hs i) n k"
  using assms
proof (induction steps hs i n rule: walk_hits.induct)
  case (1 steps hs i n)
  show ?case
  proof (cases "i \<ge> length hs")
    case True
    then have "\<not> hit_at hs i t q" for t q by (simp add: hit_at_def)
    then show ?thesis using True by (auto simp: walk_hits.simps [of steps hs i n] chain_def)
  next
    case False
    define t where "t = fst (hs ! i)"
    define p where "p = (\<lambda>j. fst (hs ! j) = fst (hs ! i))"
    define e where "e = scan_to p i (length hs)"
    define mask where "mask = foldl (\<lambda>m x. m OR snd (hs ! x)) 0 [i..<e]"
    define n1 where "n1 = scan_to (\<lambda>n. bit mask n) n steps"
    have step: "walk_hits steps hs i n = walk_hits steps hs e n1"
      using False by (simp add: walk_hits.simps [of steps hs i n] Let_def p_def e_def mask_def n1_def)
    have n1: "n \<le> n1" "n1 \<le> steps" using scan_to_bounds [of n "\<lambda>n. bit mask n" steps] "1.prems"(2) by (auto simp: n1_def)
    have ih: "k < walk_hits steps hs e n1 \<longleftrightarrow> k < n1 \<or> n1 \<le> k \<and> k < steps \<and> chain (hit_at hs e) n1 k"
      using "1.IH" [OF False e_def [unfolded p_def] mask_def "1.prems"(1)] n1 by (simp add: n1_def)
    have e: "i \<le> e" "e \<le> length hs" using scan_to_bounds [of i p "length hs"] False by (auto simp: e_def)
    have same: "fst (hs ! x) = t" if "i \<le> x" "x < e" for x
      using scan_to_all [of i x p "length hs"] that by (simp add: e_def p_def t_def)
    have later: "fst (hs ! x) > t" if x: "e \<le> x" "x < length hs" for x
    proof -
      have "e = length hs \<or> \<not> p e" using scan_to_stops [of i "length hs" p] False by (simp add: e_def)
      then have "fst (hs ! e) \<noteq> t" using x by (simp add: p_def t_def)
      moreover have "t \<le> fst (hs ! e)" "fst (hs ! e) \<le> fst (hs ! x)"
        using "1.prems"(1) e x False by (auto simp: sorted_iff_nth_mono t_def)
      ultimately show ?thesis by simp
    qed
    have mask: "bit mask q \<longleftrightarrow> hit_at hs i t q" for q
    proof -
      have "hit_at hs i t q \<longleftrightarrow> (\<exists>x. i \<le> x \<and> x < e \<and> bit (snd (hs ! x)) q)"
      proof
        assume "hit_at hs i t q"
        then obtain x where x: "i \<le> x" "x < length hs" "fst (hs ! x) = t" "bit (snd (hs ! x)) q" by (auto simp: hit_at_def)
        moreover have "x < e" using later [of x] x by (cases "x < e") auto
        ultimately show "\<exists>x. i \<le> x \<and> x < e \<and> bit (snd (hs ! x)) q" by blast
      next
        assume "\<exists>x. i \<le> x \<and> x < e \<and> bit (snd (hs ! x)) q"
        then obtain x where x: "i \<le> x" "x < e" "bit (snd (hs ! x)) q" by blast
        then show "hit_at hs i t q" using same [of x] e unfolding hit_at_def by (intro exI [of _ x]) auto
      qed
      then show ?thesis by (auto simp: mask_def or_bits)
    qed
    have from_e: "hit_at hs e u q \<longleftrightarrow> hit_at hs i u q \<and> t < u" for u q
    proof
      assume "hit_at hs e u q"
      then obtain x where x: "e \<le> x" "x < length hs" "fst (hs ! x) = u" "bit (snd (hs ! x)) q" by (auto simp: hit_at_def)
      then have "hit_at hs i u q" using e unfolding hit_at_def by (intro exI [of _ x]) simp
      then show "hit_at hs i u q \<and> t < u" using later [OF x(1,2)] x(3) by simp
    next
      assume h: "hit_at hs i u q \<and> t < u"
      then obtain x where x: "i \<le> x" "x < length hs" "fst (hs ! x) = u" "bit (snd (hs ! x)) q" by (auto simp: hit_at_def)
      then have "e \<le> x" using same [of x] h by (cases "e \<le> x") auto
      then show "hit_at hs e u q" using x by (auto simp: hit_at_def)
    qed
    have least: "t \<le> u" if "hit_at hs i u q" for u q
    proof -
      obtain x where x: "i \<le> x" "x < length hs" "fst (hs ! x) = u" using \<open>hit_at hs i u q\<close> by (auto simp: hit_at_def)
      then show ?thesis using same [of x] later [of x] by (cases "x < e") auto
    qed
    have "k < n1 \<or> n1 \<le> k \<and> k < steps \<and> chain (hit_at hs e) n1 k \<longleftrightarrow> k < n \<or> n \<le> k \<and> k < steps \<and> chain (hit_at hs i) n k"
    proof
      assume "k < n1 \<or> n1 \<le> k \<and> k < steps \<and> chain (hit_at hs e) n1 k"
      then consider "k < n" | "n \<le> k" "k < n1" | "n1 \<le> k" "k < steps" "chain (hit_at hs e) n1 k" by linarith
      then show "k < n \<or> n \<le> k \<and> k < steps \<and> chain (hit_at hs i) n k"
      proof cases
        case 2
        have "hit_at hs i t j" if "n \<le> j" "j \<le> k" for j
          using scan_to_all [of n j "\<lambda>n. bit mask n" steps] that 2 mask by (simp add: n1_def)
        then have "chain (hit_at hs i) n k" unfolding chain_def by (intro exI [of _ "\<lambda>_. t"]) auto
        then show ?thesis using 2 n1 by simp
      next
        case 3
        then obtain f where f: "\<forall>j. n1 \<le> j \<and> j \<le> k \<longrightarrow> hit_at hs e (f j) j" "\<forall>i j. n1 \<le> i \<and> i \<le> j \<and> j \<le> k \<longrightarrow> f i \<le> f j"
          unfolding chain_def by blast
        have "hit_at hs i t j" if "n \<le> j" "j < n1" for j
          using scan_to_all [of n j "\<lambda>n. bit mask n" steps] that mask by (simp add: n1_def)
        then have "chain (hit_at hs i) n k" unfolding chain_def
          using f from_e by (intro exI [of _ "\<lambda>j. if j < n1 then t else f j"]) (auto simp: less_imp_le)
        then show ?thesis using 3 n1 by simp
      qed simp
    next
      assume "k < n \<or> n \<le> k \<and> k < steps \<and> chain (hit_at hs i) n k"
      then consider "k < n1" | "n1 \<le> k" "n \<le> k" "k < steps" "chain (hit_at hs i) n k" using n1 by linarith
      then show "k < n1 \<or> n1 \<le> k \<and> k < steps \<and> chain (hit_at hs e) n1 k"
      proof cases
        case 2
        then obtain f where f: "\<forall>j. n \<le> j \<and> j \<le> k \<longrightarrow> hit_at hs i (f j) j" "\<forall>i j. n \<le> i \<and> i \<le> j \<and> j \<le> k \<longrightarrow> f i \<le> f j"
          unfolding chain_def by blast
        have "\<not> bit mask n1" using scan_to_stops [of n steps "\<lambda>n. bit mask n"] "1.prems"(2) 2 by (auto simp: n1_def)
        moreover have h: "hit_at hs i (f n1) n1" using f(1) n1(1) 2 by simp
        ultimately have "f n1 \<noteq> t" using mask by metis
        then have "t < f n1" using least [OF h] by simp
        then have "t < f j" if "n1 \<le> j" "j \<le> k" for j using f(2) n1(1) that by (meson order_less_le_trans)
        then have "chain (hit_at hs e) n1 k" unfolding chain_def
          using f from_e n1(1) by (intro exI [of _ f]) auto
        then show ?thesis using 2 by simp
      qed simp
    qed
    then show ?thesis using step ih by simp
  qed
qed

section \<open>What the scan gathers\<close>

text \<open>The steps a row takes, for whom and when.\<close>

definition row_time :: "(string \<Rightarrow> string) \<Rightarrow> 'f batch \<Rightarrow> nat \<Rightarrow> int option" where
  "row_time low b i = time_at (cols_of low b ''ts'') i"

definition takes :: "'f float_ops \<Rightarrow> (string \<Rightarrow> string) \<Rightarrow> string \<Rightarrow> cfilter list \<Rightarrow> cfilter list list \<Rightarrow> 'f batch \<Rightarrow> nat \<Rightarrow> string \<Rightarrow> nat \<Rightarrow> bool" where
  "takes fo low who filters steps b i v j \<longleftrightarrow> row_cell fo low b (ever_column who) i = Text v \<and> v \<noteq> []
     \<and> list_all (passes fo low b i) filters \<and> j < length steps \<and> list_all (passes fo low b i) (steps ! j)"

definition row_facts :: "'f float_ops \<Rightarrow> (string \<Rightarrow> string) \<Rightarrow> string \<Rightarrow> cfilter list \<Rightarrow> cfilter list list \<Rightarrow> 'f batch \<Rightarrow> nat
    \<Rightarrow> (string \<times> nat \<times> int option) set" where
  "row_facts fo low who filters steps b i = {(v, j, t). takes fo low who filters steps b i v j \<and> t = row_time low b i}"

definition mask_of :: "funnel_state \<Rightarrow> string \<Rightarrow> 16 word" where
  "mask_of st v = (case map_of (fn_masks st) v of None \<Rightarrow> 0 | Some m \<Rightarrow> m)"

definition hits_of :: "funnel_state \<Rightarrow> string \<Rightarrow> (int \<times> 16 word) list" where
  "hits_of st v = (case map_of (fn_hits st) v of None \<Rightarrow> [] | Some hs \<Rightarrow> hs)"

definition gathered :: "bool \<Rightarrow> funnel_state \<Rightarrow> (string \<times> nat \<times> int option) set \<Rightarrow> bool" where
  "gathered sequence st F \<longleftrightarrow>
     (if sequence then distinct (map fst (fn_hits st)) \<and> (\<forall>v j t. (\<exists>m. (t, m) \<in> set (hits_of st v) \<and> bit m j) \<longleftrightarrow> (v, j, Some t) \<in> F)
      else distinct (map fst (fn_masks st)) \<and> (\<forall>v j. bit (mask_of st v) j \<longleftrightarrow> (\<exists>t. (v, j, t) \<in> F)))"

lemma note_row_gathers:
  assumes rep: "gathered sequence st F"
    and idc: "\<And>v. text_at (Some idc) i = Some v \<longleftrightarrow> row_cell fo low b (ever_column who) i = Text v"
    and keep: "keep ! i \<longleftrightarrow> list_all (passes fo low b i) filters"
    and pass: "length pass = length steps" "\<And>j. j < length steps \<Longrightarrow> pass ! j ! i \<longleftrightarrow> list_all (passes fo low b i) (steps ! j)"
    and few: "length steps \<le> 16"
  shows "gathered sequence (note_row sequence idc (cols_of low b ''ts'') keep pass i st) (F \<union> row_facts fo low who filters steps b i)"
proof -
  let ?R = "row_facts fo low who filters steps b i"
  have bits: "bit (step_mask pass i) j \<longleftrightarrow> j < length steps \<and> list_all (passes fo low b i) (steps ! j)" for j
    using step_mask_bit [of pass i j] pass few by auto
  consider (none) "?R = {}" "note_row sequence idc (cols_of low b ''ts'') keep pass i st = st"
    | (row) v where "row_cell fo low b (ever_column who) i = Text v" "text_at (Some idc) i = Some v" "v \<noteq> []" "keep ! i" "step_mask pass i \<noteq> 0"
  proof (cases "text_at (Some idc) i")
    case None
    then have "row_cell fo low b (ever_column who) i \<noteq> Text v" for v using idc [of v] by simp
    then show ?thesis using that(1) None by (simp add: row_facts_def takes_def note_row_def)
  next
    case (Some v)
    then have cell: "row_cell fo low b (ever_column who) i = Text v" using idc by simp
    show ?thesis
    proof (cases "v = [] \<or> \<not> keep ! i \<or> step_mask pass i = 0")
      case True
      then have "?R = {}" using cell keep bits by (auto simp: row_facts_def takes_def word_zero_bits)
      moreover have "note_row sequence idc (cols_of low b ''ts'') keep pass i st = st" using True Some by (auto simp: note_row_def Let_def)
      ultimately show ?thesis by (rule that(1))
    qed (use that(2) Some cell in blast)
  qed
  then show ?thesis
  proof cases
    case none
    then show ?thesis using rep by simp
  next
    case row
    have R: "(u, j, t) \<in> ?R \<longleftrightarrow> u = v \<and> bit (step_mask pass i) j \<and> t = row_time low b i" for u j t
      using row keep by (auto simp: row_facts_def takes_def bits)
    show ?thesis
    proof (cases sequence)
      case False
      let ?st = "st\<lparr>fn_masks := AList.map_default v (step_mask pass i) (\<lambda>m. m OR step_mask pass i) (fn_masks st)\<rparr>"
      have noted: "note_row sequence idc (cols_of low b ''ts'') keep pass i st = ?st" using row False by (simp add: note_row_def Let_def)
      have "mask_of ?st u = (if u = v then mask_of st v OR step_mask pass i else mask_of st u)" for u
        by (auto simp: mask_of_def map_of_map_default split: option.splits)
      then show ?thesis unfolding noted using rep False R
        by (auto simp: gathered_def bit_simps distinct_map_default)
    next
      case True
      show ?thesis
      proof (cases "row_time low b i")
        case None
        then have "note_row sequence idc (cols_of low b ''ts'') keep pass i st = st" using row True by (simp add: note_row_def Let_def row_time_def)
        then show ?thesis using rep True R None by (auto simp: gathered_def)
      next
        case (Some t)
        let ?st = "st\<lparr>fn_hits := AList.map_default v [(t, step_mask pass i)] (\<lambda>hs. hs @ [(t, step_mask pass i)]) (fn_hits st)\<rparr>"
        have noted: "note_row sequence idc (cols_of low b ''ts'') keep pass i st = ?st" using row True Some by (simp add: note_row_def Let_def row_time_def)
        have "hits_of ?st u = (if u = v then hits_of st v @ [(t, step_mask pass i)] else hits_of st u)" for u
          by (auto simp: hits_of_def map_of_map_default split: option.splits)
        moreover have "(\<exists>m. (t', m) \<in> set (hits_of st v @ [(t, step_mask pass i)]) \<and> bit m j)
            \<longleftrightarrow> (\<exists>m. (t', m) \<in> set (hits_of st v) \<and> bit m j) \<or> t' = t \<and> bit (step_mask pass i) j" for t' j by auto
        ultimately have "(\<exists>m. (t', m) \<in> set (hits_of ?st u) \<and> bit m j) \<longleftrightarrow> (u, j, Some t') \<in> F \<union> ?R" for u t' j
          using rep True R [of u j "Some t'"] Some by (auto simp: gathered_def)
        moreover have "distinct (map fst (fn_hits ?st))" using rep True by (simp add: gathered_def distinct_map_default)
        ultimately show ?thesis unfolding noted using True by (simp add: gathered_def)
      qed
    qed
  qed
qed

lemma pass_rows_bits:
  assumes "batch_ok b" and "list_all compiled_ok fs" and "list_all (fits fo low b) fs"
  shows "pass_rows fo low b fs = Inr (row_bits (b_n b) (\<lambda>i. list_all (passes fo low b i) fs))"
  using pass_from_rows [OF assms(1,2), of fo low "\<lambda>_. True"] assms(3) by (simp add: pass_rows_def replicate_bits)

lemma pass_all_bits:
  assumes "batch_ok b" and "\<forall>fs \<in> set steps. list_all compiled_ok fs \<and> list_all (fits fo low b) fs"
  shows "pass_all fo low b steps = Inr (map (\<lambda>fs. row_bits (b_n b) (\<lambda>i. list_all (passes fo low b i) fs)) steps)"
  using assms(2) by (induction steps) (simp_all add: pass_rows_bits [OF assms(1)])

definition batch_fits :: "'f float_ops \<Rightarrow> (string \<Rightarrow> string) \<Rightarrow> cfilter list \<Rightarrow> cfilter list list \<Rightarrow> 'f batch \<Rightarrow> bool" where
  "batch_fits fo low filters steps b \<longleftrightarrow> batch_ok b \<and> list_all (fits fo low b) filters \<and> (\<forall>fs \<in> set steps. list_all (fits fo low b) fs)"

lemma note_batch_gathers:
  assumes "gathered sequence st F" and fit: "batch_fits fo low filters steps b"
    and comp: "list_all compiled_ok filters" "\<forall>fs \<in> set steps. list_all compiled_ok fs" and few: "length steps \<le> 16"
  shows "\<exists>st'. note_batch fo low sequence who filters steps b st = Inr st'
    \<and> gathered sequence st' (F \<union> (\<Union>i < b_n b. row_facts fo low who filters steps b i))"
proof (cases "batch_column fo low b (ever_column who)")
  case None
  then have "row_facts fo low who filters steps b i = {}" for i
    using batch_column_none [OF None] by (simp add: row_facts_def takes_def)
  then show ?thesis using assms(1) None by (simp add: note_batch_def)
next
  case (Some idc)
  have ok: "batch_ok b" using fit by (simp add: batch_fits_def)
  define keep where "keep = row_bits (b_n b) (\<lambda>i. list_all (passes fo low b i) filters)"
  define pass where "pass = map (\<lambda>fs. row_bits (b_n b) (\<lambda>i. list_all (passes fo low b i) fs)) steps"
  have noted: "note_batch fo low sequence who filters steps b st = Inr (fold (note_row sequence idc (cols_of low b ''ts'') keep pass) [0..<b_n b] st)"
    using pass_rows_bits [OF ok comp(1), of fo low] pass_all_bits [OF ok, of steps fo low] fit comp(2) Some
    by (simp add: note_batch_def batch_fits_def keep_def pass_def)
  have "gathered sequence (fold (note_row sequence idc (cols_of low b ''ts'') keep pass) [0..<n] st)
      (F \<union> (\<Union>i < n. row_facts fo low who filters steps b i))" if "n \<le> b_n b" for n
    using that
  proof (induction n)
    case 0
    then show ?case using assms(1) by simp
  next
    case (Suc n)
    have "(text_at (Some idc) n = Some v) = (row_cell fo low b (ever_column who) n = Text v)" for v
      using batch_column_cells [OF ok Some] Suc.prems by (auto simp: text_at_cell split: cell.splits)
    from note_row_gathers [OF Suc.IH this, of keep filters pass steps] Suc.prems few
    show ?case by (simp add: keep_def pass_def row_bits_def lessThan_Suc Un_ac)
  qed
  then show ?thesis using noted by blast
qed

lemma note_batches_gathers:
  assumes "gathered sequence st F" and "\<forall>b \<in> set bs. batch_fits fo low filters steps b"
    and comp: "list_all compiled_ok filters" "\<forall>fs \<in> set steps. list_all compiled_ok fs" and few: "length steps \<le> 16"
  shows "\<exists>st'. note_batches fo low sequence who filters steps bs st = Inr st'
    \<and> gathered sequence st' (F \<union> (\<Union>b \<in> set bs. \<Union>i < b_n b. row_facts fo low who filters steps b i))"
  using assms(1,2)
proof (induction bs arbitrary: st F)
  case (Cons b bs)
  from note_batch_gathers [OF Cons.prems(1) _ comp few, of fo low b who] Cons.prems(2)
  obtain st1 where st1: "note_batch fo low sequence who filters steps b st = Inr st1"
    "gathered sequence st1 (F \<union> (\<Union>i < b_n b. row_facts fo low who filters steps b i))" by auto
  from Cons.IH [OF st1(2)] Cons.prems(2) show ?case using st1(1) by (auto simp: Un_assoc)
qed simp
section \<open>What is counted\<close>

lemma count_up_nth: "n \<le> length r \<Longrightarrow> length (count_up n r) = length r \<and> (k < length r \<longrightarrow> count_up n r ! k = r ! k + (if k < n then 1 else 0))"
proof (induction n)
  case (Suc n)
  then have IH: "length (count_up n r) = length r" "k < length r \<longrightarrow> count_up n r ! k = r ! k + (if k < n then 1 else 0)" by auto
  have "count_up (Suc n) r = (count_up n r)[n := count_up n r ! n + 1]" by (simp add: count_up_def)
  then show ?case using IH by (auto simp: nth_list_update less_Suc_eq)
qed (simp add: count_up_def)

lemma count_all: "\<forall>n \<in> set ns. n \<le> length r \<Longrightarrow> length (fold count_up ns r) = length r
    \<and> (k < length r \<longrightarrow> fold count_up ns r ! k = r ! k + length (filter (\<lambda>n. k < n) ns))"
proof (induction ns arbitrary: r)
  case (Cons n ns)
  have c: "length (count_up n r) = length r" "k < length r \<longrightarrow> count_up n r ! k = r ! k + (if k < n then 1 else 0)"
    using count_up_nth [of n r k] Cons.prems by auto
  have "\<forall>n \<in> set ns. n \<le> length (count_up n r)" using Cons.prems c(1) count_up_nth [of _ r] by auto
  with Cons.IH [of "count_up n r"] show ?case using c Cons.prems by auto
qed simp

lemma count_keys:
  assumes "distinct (map fst al)" and "\<And>v x. map_of al v = Some x \<Longrightarrow> k < g x \<longleftrightarrow> P v" and "\<And>v. map_of al v = None \<Longrightarrow> \<not> P v"
  shows "length (filter (\<lambda>n. k < n) (map (\<lambda>(v, x). g x) al)) = card {v. P v}"
proof -
  have "{v. P v} = fst ` set (filter (\<lambda>(v, x). k < g x) al)"
  proof
    show "{v. P v} \<subseteq> fst ` set (filter (\<lambda>(v, x). k < g x) al)"
    proof
      fix v
      assume "v \<in> {v. P v}"
      then obtain x where "map_of al v = Some x" "k < g x" using assms(2,3) by (cases "map_of al v") auto
      then show "v \<in> fst ` set (filter (\<lambda>(v, x). k < g x) al)" using map_of_SomeD by force
    qed
    show "fst ` set (filter (\<lambda>(v, x). k < g x) al) \<subseteq> {v. P v}" using assms(2) map_of_is_SomeI [OF assms(1)] by fastforce
  qed
  moreover have "distinct (map fst (filter (\<lambda>(v, x). k < g x) al))" using assms(1) by (rule distinct_map_filter)
  ultimately have "card {v. P v} = length (filter (\<lambda>(v, x). k < g x) al)"
    using distinct_card [of "map fst (filter (\<lambda>(v, x). k < g x) al)"] by simp
  then show ?thesis by (simp add: filter_map comp_def case_prod_unfold)
qed

lemma scan_from_0: "k < scan_to p 0 n \<longleftrightarrow> k < n \<and> (\<forall>j \<le> k. p j)"
proof
  assume "k < scan_to p 0 n"
  then show "k < n \<and> (\<forall>j \<le> k. p j)" using scan_to_all [of 0 _ p n] scan_to_bounds [of 0 p n] by auto
next
  assume "k < n \<and> (\<forall>j \<le> k. p j)"
  then show "k < scan_to p 0 n" using scan_to_stops [of 0 n p] by (metis linorder_not_less zero_le)
qed

definition reaches :: "bool \<Rightarrow> (string \<times> nat \<times> int option) set \<Rightarrow> nat \<Rightarrow> string \<Rightarrow> bool" where
  "reaches sequence F k v \<longleftrightarrow>
     (if sequence then chain (\<lambda>t j. (v, j, Some t) \<in> F) 0 k else (\<forall>j \<le> k. \<exists>t. (v, j, t) \<in> F))"

lemma steps_taken_counts:
  assumes "gathered sequence st F" and "k < steps"
  shows "(\<forall>n \<in> set (steps_taken sequence steps st). n \<le> steps)
    \<and> length (filter (\<lambda>n. k < n) (steps_taken sequence steps st)) = card {v. reaches sequence F k v}"
proof (cases sequence)
  case False
  then have d: "distinct (map fst (fn_masks st))" and bits: "\<And>v j. bit (mask_of st v) j \<longleftrightarrow> (\<exists>t. (v, j, t) \<in> F)"
    using assms(1) by (auto simp: gathered_def)
  have "length (filter (\<lambda>n. k < n) (map (\<lambda>(v, m). scan_to (\<lambda>n. bit m n) 0 steps) (fn_masks st))) = card {v. reaches False F k v}"
  proof (rule count_keys [OF d])
    fix v m
    assume "map_of (fn_masks st) v = Some m"
    then have "mask_of st v = m" by (simp add: mask_of_def)
    then show "k < scan_to (\<lambda>n. bit m n) 0 steps \<longleftrightarrow> reaches False F k v"
      using bits [of v] assms(2) by (auto simp: scan_from_0 reaches_def)
  next
    fix v
    assume "map_of (fn_masks st) v = None"
    then have "mask_of st v = 0" by (simp add: mask_of_def)
    then show "\<not> reaches False F k v" using bits [of v 0] by (auto simp: reaches_def)
  qed
  then show ?thesis using False scan_to_bounds [of 0] by (auto simp: steps_taken_def)
next
  case True
  then have d: "distinct (map fst (fn_hits st))"
    and hits: "\<And>v j t. (\<exists>m. (t, m) \<in> set (hits_of st v) \<and> bit m j) \<longleftrightarrow> (v, j, Some t) \<in> F"
    using assms(1) by (auto simp: gathered_def)
  have walk: "k' < walk_hits steps (sort_key fst hs) 0 0 \<longleftrightarrow> k' < steps \<and> chain (\<lambda>t j. \<exists>m. (t, m) \<in> set hs \<and> bit m j) 0 k'" for hs k'
  proof -
    have "hit_at (sort_key fst hs) 0 t j \<longleftrightarrow> (\<exists>m. (t, m) \<in> set hs \<and> bit m j)" for t j
    proof -
      have "hit_at (sort_key fst hs) 0 t j \<longleftrightarrow> (\<exists>h \<in> set (sort_key fst hs). fst h = t \<and> bit (snd h) j)"
        unfolding hit_at_def by (metis in_set_conv_nth zero_le)
      then show ?thesis by force
    qed
    then have "hit_at (sort_key fst hs) 0 = (\<lambda>t j. \<exists>m. (t, m) \<in> set hs \<and> bit m j)" by (intro ext)
    then show ?thesis using walk_hits_chain [of "sort_key fst hs" 0 steps k' 0] by simp
  qed
  have "length (filter (\<lambda>n. k < n) (map (\<lambda>(v, hs). walk_hits steps (sort_key fst hs) 0 0) (fn_hits st))) = card {v. reaches True F k v}"
  proof (rule count_keys [OF d])
    fix v hs
    assume "map_of (fn_hits st) v = Some hs"
    then have "hits_of st v = hs" by (simp add: hits_of_def)
    then show "k < walk_hits steps (sort_key fst hs) 0 0 \<longleftrightarrow> reaches True F k v"
      using hits [of _ v] assms(2) by (simp add: walk reaches_def)
  next
    fix v
    assume "map_of (fn_hits st) v = None"
    then have "hits_of st v = []" by (simp add: hits_of_def)
    then show "\<not> reaches True F k v" using hits [of _ v 0] by (auto simp: reaches_def chain_def)
  qed
  moreover have "walk_hits steps (sort_key fst hs) 0 0 \<le> steps" for hs
    using walk [of steps hs] by (metis linorder_not_less order_less_irrefl)
  ultimately show ?thesis using True by (auto simp: steps_taken_def)
qed

lemma compile_steps_ok: "compile_steps i steps = Inr cs \<Longrightarrow> length cs = length steps \<and> (\<forall>fs \<in> set cs. list_all compiled_ok fs)"
proof (induction steps arbitrary: i cs)
  case (Cons s steps)
  then obtain fs rest where "compile_filters (st_where s) (at_index ''steps'' i ''.where'') = Inr fs" "compile_steps (i + 1) steps = Inr rest" "cs = fs # rest"
    by (auto simp: and_then_Inr)
  then show ?case using Cons.IH [of "i + 1" rest] compile_ok(1) [of 0 _ "st_where s" fs] by (auto simp: compile_filters_def all_compiled_set)
qed simp

text \<open> C7:
  A funnel's rows, over batches whose columns have the types its filters read: each step's label and
  how many ids have reached it. In any order, an id reaches a step when for it and every step before
  some row of the id that the query's filters keep passes the step's filters; in sequence, when such
  rows can be chosen at times that never go back. The count does not depend on how the rows are split
  into batches, nor on their order, though the code takes the steps greedily, moment by moment.
\<close>

theorem funnel_counts_steps:
  assumes "compile_steps 0 steps = Inr cs" and "compile_filters where path = Inr filters" and "length steps \<le> 16"
    and "\<forall>b \<in> set bs. batch_fits fo low filters cs b"
    and F: "F = (\<Union>b \<in> set bs. \<Union>i < b_n b. {(v, j, t). takes fo low who filters cs b i v j \<and> t = row_time low b i})"
  shows "funnel fo low sequence who filters steps bs
    = Inr (map (\<lambda>k. (st_label (steps ! k), dec_nat (card {v. if sequence
        then \<exists>time. (\<forall>j \<le> k. (v, j, Some (time j)) \<in> F) \<and> (\<forall>i j. i \<le> j \<and> j \<le> k \<longrightarrow> time i \<le> time j)
        else \<forall>j \<le> k. \<exists>t. (v, j, t) \<in> F}))) [0..<length steps])"
proof -
  have cs: "length cs = length steps" "\<forall>fs \<in> set cs. list_all compiled_ok fs" using compile_steps_ok [OF assms(1)] by auto
  have f: "list_all compiled_ok filters" using compile_ok(1) [of 0 path "where" filters] assms(2) by (simp add: compile_filters_def all_compiled_set)
  have few: "length cs \<le> 16" using cs(1) assms(3) by simp
  have empty: "gathered sequence \<lparr>fn_masks = [], fn_hits = []\<rparr> {}" by (simp add: gathered_def mask_of_def hits_of_def)
  from note_batches_gathers [OF empty assms(4) f cs(2) few, of who] obtain st where
    st: "note_batches fo low sequence who filters cs bs \<lparr>fn_masks = [], fn_hits = []\<rparr> = Inr st" "gathered sequence st F"
    by (auto simp: F row_facts_def)
  define ns where "ns = steps_taken sequence (length cs) st"
  have counts: "length (fold count_up ns (replicate (length cs) 0)) = length cs
      \<and> (\<forall>k < length cs. fold count_up ns (replicate (length cs) 0) ! k = card {v. reaches sequence F k v})"
  proof (cases "length cs = 0")
    case True
    have "count_up n [] = []" for n by (induction n) (simp_all add: count_up_def)
    then have "fold count_up ns [] = []" by (induction ns) auto
    then show ?thesis using True by simp
  next
    case False
    then have "\<forall>n \<in> set ns. n \<le> length (replicate (length cs) (0 :: nat))" using steps_taken_counts [OF st(2), of 0 "length cs"] by (simp add: ns_def)
    note c = count_all [OF this]
    show ?thesis using c steps_taken_counts [OF st(2)] by (simp add: ns_def)
  qed
  have r: "reaches sequence F k v \<longleftrightarrow> (if sequence
        then \<exists>time. (\<forall>j \<le> k. (v, j, Some (time j)) \<in> F) \<and> (\<forall>i j. i \<le> j \<and> j \<le> k \<longrightarrow> time i \<le> time j)
        else \<forall>j \<le> k. \<exists>t. (v, j, t) \<in> F)" for k v
    by (simp add: reaches_def chain_def)
  have "map2 (\<lambda>s n. (st_label s, dec_nat n)) steps (fold count_up ns (replicate (length cs) 0))
      = map (\<lambda>k. (st_label (steps ! k), dec_nat (card {v. reaches sequence F k v}))) [0..<length steps]"
    using counts cs(1) by (intro nth_equalityI) simp_all
  then have "funnel fo low sequence who filters steps bs
      = Inr (map (\<lambda>k. (st_label (steps ! k), dec_nat (card {v. reaches sequence F k v}))) [0..<length steps])"
    using assms(1) st(1) by (simp add: funnel_def funnel_counts_def ns_def)
  then show ?thesis by (simp only: r)
qed


definition visits :: "int batch" where
  "visits = \<lparr>b_n = 4, b_cols = [(''path'', no_column\<lparr>c_dict := [''/a'', ''/b''], c_idx := Some [1, 0, 0, 1]\<rparr>),
     (''user_id'', no_column\<lparr>c_dict := [''u'', ''v''], c_idx := Some [0, 0, 1, 1]\<rparr>),
     (''ts'', no_column\<lparr>c_times := Some [1, 2, 1, 1]\<rparr>)]\<rparr>"

definition a_then_b :: "step list" where
  "a_then_b = [\<lparr>st_label = ''A'', st_where = [RawFilter ''path'' ''eq'' [''/a''] [] [] [] [] []]\<rparr>,
     \<lparr>st_label = ''B'', st_where = [RawFilter ''path'' ''eq'' [''/b''] [] [] [] [] []]\<rparr>]"

definition visit_facts :: "(string \<times> nat \<times> int option) set" where
  "visit_facts = (\<Union>b \<in> set [visits]. \<Union>i < b_n b. {(v, j, t). takes sample_ops ascii_low ''user'' [] (projr (compile_steps 0 a_then_b)) b i v j
     \<and> t = row_time ascii_low b i})"

theorem funnel_counts_steps_witness:
  "map (\<lambda>k. (st_label (a_then_b ! k), dec_nat (card {v. \<exists>time. (\<forall>j \<le> k. (v, j, Some (time j)) \<in> visit_facts)
      \<and> (\<forall>i j. i \<le> j \<and> j \<le> k \<longrightarrow> time i \<le> time j)}))) [0..<length a_then_b]
    = [(''A'', ''2''), (''B'', ''1'')]"
proof -
  let ?cs = "projr (compile_steps 0 a_then_b)"
  have cs: "?cs = [[CFilter ''path'' None [] [] None TypeString ''eq'' [''/a''] ''/a'' [] 0],
      [CFilter ''path'' None [] [] None TypeString ''eq'' [''/b''] ''/b'' [] 0]]" by code_simp
  have c: "compile_steps 0 a_then_b = Inr ?cs" by code_simp
  have f: "compile_filters [] ''where'' = Inr []" by (simp add: compile_filters_def)
  have fit: "\<forall>b \<in> set [visits]. batch_fits sample_ops ascii_low [] ?cs b"
  proof -
    have "batch_ok visits" by (auto simp: batch_ok_def visits_def column_ok_def no_column_def)
    moreover have "list_all (list_all (fits sample_ops ascii_low visits)) ?cs" unfolding cs by code_simp
    ultimately show ?thesis by (simp add: batch_fits_def list_all_iff)
  qed
  have "funnel sample_ops ascii_low True ''user'' [] a_then_b [visits] = Inr [(''A'', ''2''), (''B'', ''1'')]" by code_simp
  moreover have "length a_then_b \<le> 16" by (simp add: a_then_b_def)
  ultimately show ?thesis
    using funnel_counts_steps [OF c f _ fit visit_facts_def, of True] by (simp only: if_True sum.inject)
qed

end
