(* ===== verification/Paths.thy ===== *)
theory Paths
  imports Sessions NativeFilter
begin

text \<open>
  Paths (\<^verbatim>\<open>scan.paths\<close> of \<^verbatim>\<open>internal/native/paths.go\<close>): the rows of each kind, actor and day are cut
  into sessions, each session's first steps read, and the flows from step to step counted and ranked.
  The batches of the scan are a parameter, \<open>show_float\<close> prints a float; the memory charge is left
  out. The cut is that of \<open>Sessions\<close>, written another way: the two are shown equal.
\<close>

section \<open>Values as text\<close>

text \<open>A day (days since 1970-01-01) as \<open>formatDay\<close> prints it: the calendar of \<open>time.Unix\<close>.\<close>

definition civil_of :: "int \<Rightarrow> int \<times> int \<times> int" where
  "civil_of d =
     (let z = d + 719468; era = z div 146097; doe = z mod 146097;
          yoe = (doe - doe div 1460 + doe div 36524 - doe div 146096) div 365;
          doy = doe - (365 * yoe + yoe div 4 - yoe div 100);
          mp = (5 * doy + 2) div 153;
          m = (if mp < 10 then mp + 3 else mp - 9)
      in (yoe + era * 400 + (if m \<le> 2 then 1 else 0), m, doy - (153 * mp + 2) div 5 + 1))"

definition format_day :: "int \<Rightarrow> string" where
  "format_day d = (case civil_of d of (y, m, dd) \<Rightarrow>
     (if y < 0 then ''-'' else []) @ (let ys = dec_int \<bar>y\<bar> in replicate (4 - length ys) CHR ''0'' @ ys)
     @ ''-'' @ two_digits m @ ''-'' @ two_digits dd)"

definition latest_text :: "('f \<Rightarrow> string) \<Rightarrow> 'f column option \<Rightarrow> nat \<Rightarrow> col_type \<Rightarrow> string option" where
  "latest_text show_float c i typ = (case c of None \<Rightarrow> None | Some c \<Rightarrow>
     if is_null c i then None
     else if c_idx c \<noteq> None then (case text_at (Some c) i of Some s \<Rightarrow> if s \<noteq> [] then Some s else None | None \<Rightarrow> None)
     else (case c_ints c of
         Some ns \<Rightarrow> Some (if typ = TypeDay then format_day (ns ! i) else dec_int (ns ! i))
       | None \<Rightarrow> map_option (\<lambda>fs. show_float (fs ! i)) (c_floats c)))"

section \<open>Gathering the rows\<close>

record hit =
  h_ts :: int
  h_v :: string
  h_sid :: string
  h_id :: string
  h_id_null :: bool
  h_skip :: bool

definition hit_key :: "string option \<Rightarrow> string \<Rightarrow> int \<Rightarrow> string" where
  "hit_key k actor day = (case k of Some s \<Rightarrow> ''true'' @ s | None \<Rightarrow> ''false'') @ [CHR 0x00] @ actor @ [CHR 0x00] @ dec_int day"

definition path_row :: "('f \<Rightarrow> string) \<Rightarrow> col_type \<Rightarrow> 'f column \<Rightarrow> 'f column option \<Rightarrow> 'f column option \<Rightarrow> 'f column option \<Rightarrow> 'f column option
    \<Rightarrow> 'f column \<Rightarrow> int list \<Rightarrow> bool list \<Rightarrow> nat \<Rightarrow> (string \<times> hit list) list \<Rightarrow> (string \<times> hit list) list" where
  "path_row show_float typ actor kind sid vc ev ts day keep i days = (case text_at (Some actor) i of
     None \<Rightarrow> days
   | Some a \<Rightarrow>
       if a = [] then days
       else let t = (if is_null ts i then 0 else the (c_times ts) ! i);
                v = latest_text show_float vc i typ;
                skip = (v = None \<or> v = Some [] \<or> \<not> keep ! i);
                h = \<lparr>h_ts = t, h_v = (if skip then [] else the v), h_sid = (case text_at sid i of Some s \<Rightarrow> s | None \<Rightarrow> []),
                     h_id = (case text_at ev i of Some s \<Rightarrow> s | None \<Rightarrow> []), h_id_null = (text_at ev i = None), h_skip = skip\<rparr>
            in AList.map_default (hit_key (text_at kind i) a (day ! i)) [h] (\<lambda>hs. hs @ [h]) days)"

definition path_batch :: "'f float_ops \<Rightarrow> (string \<Rightarrow> string) \<Rightarrow> ('f \<Rightarrow> string) \<Rightarrow> string \<Rightarrow> cfilter list \<Rightarrow> 'f batch
    \<Rightarrow> (string \<times> hit list) list \<Rightarrow> filter_error + (string \<times> hit list) list" where
  "path_batch fo low show_float column filters b days =
     (case (batch_column fo low b ''actor_id'', cols_of low b ''ts'', cols_of low b ''day'') of
        (Some actor, Some ts, Some day) \<Rightarrow>
          (case (c_times ts, c_ints day) of
             (Some _, Some ds) \<Rightarrow> and_then (pass_rows fo low b filters) (\<lambda>keep.
               Inr (fold (path_row show_float (type_of column) actor (batch_column fo low b ''kind'') (batch_column fo low b ''session_id'')
                 (batch_column fo low b column) (batch_column fo low b ''id'') ts ds keep) [0..<b_n b] days))
           | _ \<Rightarrow> Inr days)
      | _ \<Rightarrow> Inr days)"

fun path_batches :: "'f float_ops \<Rightarrow> (string \<Rightarrow> string) \<Rightarrow> ('f \<Rightarrow> string) \<Rightarrow> string \<Rightarrow> cfilter list \<Rightarrow> 'f batch list
    \<Rightarrow> (string \<times> hit list) list \<Rightarrow> filter_error + (string \<times> hit list) list" where
  "path_batches fo low show_float column filters [] days = Inr days"
| "path_batches fo low show_float column filters (b # bs) days =
     and_then (path_batch fo low show_float column filters b days) (path_batches fo low show_float column filters bs)"

section \<open>Cutting\<close>

text \<open>The order of a day's rows, and the session a row goes to.\<close>

definition hit_order :: "hit \<Rightarrow> int \<times> int \<times> string" where
  "hit_order h = (h_ts h, bool_int (h_id_null h), h_id h)"

definition next_gap :: "hit list \<Rightarrow> nat \<Rightarrow> nat \<Rightarrow> nat" where
  "next_gap hs gap j =
     (if h_sid (hs ! j) = [] \<and> (j = 0 \<or> seconds (h_ts (hs ! j)) - seconds (h_ts (hs ! (j - 1))) > session_gap) then gap + 1 else gap)"

definition put_hit :: "hit list \<Rightarrow> nat \<Rightarrow> nat \<Rightarrow> (string \<rightharpoonup> nat) \<times> hit list list \<Rightarrow> (string \<rightharpoonup> nat) \<times> hit list list" where
  "put_hit hs gap j st =
     (let h = hs ! j; key = (if h_sid h = [] then ''gap:'' @ dec_nat gap else ''id:'' @ h_sid h)
      in case fst st key of
           Some k \<Rightarrow> (fst st, (snd st)[k := snd st ! k @ [h]])
         | None \<Rightarrow> ((fst st)(key \<mapsto> length (snd st)), snd st @ [[h]]))"

fun cut_hits :: "hit list \<Rightarrow> nat list \<Rightarrow> nat \<Rightarrow> (string \<rightharpoonup> nat) \<times> hit list list \<Rightarrow> hit list list" where
  "cut_hits hs [] gap st = snd st"
| "cut_hits hs (j # js) gap st = (let gap1 = next_gap hs gap j in cut_hits hs js gap1 (put_hit hs gap1 j st))"

definition path_sessions :: "(string \<times> hit list) list \<Rightarrow> hit list list" where
  "path_sessions days = foldl (\<lambda>sessions (key, day). let hs = sort_key hit_order day in cut_hits hs [0..<length hs] 0 (Map.empty, sessions)) [] days"

section \<open>Flows\<close>

text \<open>A session's steps: a run of one value is one, the first \<open>depth\<close> of them.\<close>

fun steps_of :: "nat \<Rightarrow> hit list \<Rightarrow> string list \<Rightarrow> string list" where
  "steps_of depth [] steps = steps"
| "steps_of depth (h # hs) steps =
     (if h_skip h \<or> steps \<noteq> [] \<and> last steps = h_v h then steps_of depth hs steps
      else if length steps + 1 = depth then steps @ [h_v h]
      else steps_of depth hs (steps @ [h_v h]))"

definition numbered :: "nat \<Rightarrow> string \<Rightarrow> string" where
  "numbered k v = dec_nat k @ '' '' @ v"

definition session_flows :: "nat \<Rightarrow> hit list \<Rightarrow> (string \<times> string) list" where
  "session_flows depth hs =
     (let steps = steps_of depth hs [] in map (\<lambda>k. (numbered k (steps ! (k - 1)), numbered (k + 1) (steps ! k))) [1..<length steps])"

definition count_flows :: "nat \<Rightarrow> hit list list \<Rightarrow> ((string \<times> string) \<times> nat) list" where
  "count_flows depth sessions = fold (\<lambda>f flows. AList.map_default f 1 (\<lambda>n. n + 1) flows) (concat (map (session_flows depth) sessions)) []"

definition path_rows :: "nat \<Rightarrow> ((string \<times> string) \<times> nat) list \<Rightarrow> (string \<times> string \<times> string) list \<times> bool" where
  "path_rows limit flows =
     (let rows = sort_key (\<lambda>((source, target), n). (- int n, source, target)) flows
      in (map (\<lambda>((source, target), n). (source, target, dec_nat n)) (take limit rows), length rows > limit))"

definition paths :: "'f float_ops \<Rightarrow> (string \<Rightarrow> string) \<Rightarrow> ('f \<Rightarrow> string) \<Rightarrow> string \<Rightarrow> nat \<Rightarrow> nat \<Rightarrow> cfilter list \<Rightarrow> 'f batch list
    \<Rightarrow> filter_error + (string \<times> string \<times> string) list \<times> bool" where
  "paths fo low show_float column depth limit filters bs = and_then (path_batches fo low show_float column filters bs []) (\<lambda>days.
     Inr (path_rows (if limit = 0 then 50 else limit) (count_flows (if depth = 0 then 3 else depth) (path_sessions days))))"

section \<open>The cut is that of the sessions table\<close>

definition hit_starts :: "hit list \<Rightarrow> nat \<Rightarrow> bool" where
  "hit_starts hs j \<longleftrightarrow> h_sid (hs ! j) = [] \<and> (j = 0 \<or> seconds (h_ts (hs ! j)) - seconds (h_ts (hs ! (j - 1))) > session_gap)"

definition hit_runs :: "hit list \<Rightarrow> nat \<Rightarrow> nat" where
  "hit_runs hs n = length (filter (hit_starts hs) [0..<n])"

definition session_of :: "hit list \<Rightarrow> nat \<Rightarrow> string" where
  "session_of hs j = (if h_sid (hs ! j) = [] then ''gap:'' @ dec_nat (hit_runs hs (j + 1)) else ''id:'' @ h_sid (hs ! j))"

definition hits_in :: "hit list \<Rightarrow> nat \<Rightarrow> nat \<Rightarrow> hit list" where
  "hits_in hs n f = map ((!) hs) (filter (\<lambda>y. session_of hs y = session_of hs f) [0..<n])"

interpretation path_cut: grouping 0 "session_of hs" "\<lambda>j. put_hit hs (hit_runs hs (j + 1)) j" "\<lambda>j. [hs ! j]" "\<lambda>j s. s @ [hs ! j]" "hits_in hs" for hs
proof unfold_locales
  fix n
  assume "\<forall>y \<in> set [0..<n]. session_of hs y \<noteq> session_of hs n"
  then show "hits_in hs (n + 1) n = [hs ! n]" by (simp add: hits_in_def filter_empty_conv)
qed (auto simp: put_hit_def session_of_def hits_in_def Let_def)

lemma cut_hits_fold:
  "i \<le> n \<Longrightarrow> cut_hits hs [i..<n] (hit_runs hs i) st = snd (fold (\<lambda>j. put_hit hs (hit_runs hs (j + 1)) j) [i..<n] st)"
proof (induction "n - i" arbitrary: i st)
  case (Suc d)
  then have i: "[i..<n] = i # [Suc i..<n]" by (simp add: upt_conv_Cons)
  have "next_gap hs (hit_runs hs i) i = hit_runs hs (Suc i)" by (simp add: next_gap_def hit_runs_def hit_starts_def)
  then show ?case using Suc.hyps(1) [of "Suc i"] Suc.hyps(2) unfolding i by (simp add: Let_def)
qed simp

lemma cut_hits_sessions:
  "cut_hits hs [0..<length hs] 0 (Map.empty, ss) = ss @ map (hits_in hs (length hs)) (firsts (session_of hs) 0 (length hs))"
  using cut_hits_fold [of 0 "length hs" hs "(Map.empty, ss)"] path_cut.groups [of "length hs" hs ss] by (simp add: hit_runs_def)

lemma firsts_cong:
  assumes "\<And>x y. x < n \<Longrightarrow> y < n \<Longrightarrow> k x = k y \<longleftrightarrow> k' x = k' y"
  shows "firsts k 0 n = firsts k' 0 n"
  unfolding firsts_def by (rule filter_cong) (use assms in auto)

text \<open> C34:
  The paths' way of cutting a day's rows into sessions, view by view, agrees with the sessions table's,
  second by second: on the rows of one kind and actor in the table's order, it gives as many sessions,
  in the same order, each with the same first row, last row and number of rows.
\<close>

theorem paths_cut_as_sessions:
  assumes "views_sorted vs" and one: "\<forall>v \<in> set vs. partition_of v = p"
    and same: "map (\<lambda>h. (h_ts h, h_sid h)) hs = map (\<lambda>v. (sv_ts v, sv_session v)) vs"
  shows "map (\<lambda>s. (hd s, last s, length s)) (cut_hits hs [0..<length hs] 0 (Map.empty, []))
    = map (\<lambda>s. (hs ! ss_first s, hs ! ss_last s, ss_views s)) (cut_partitions vs 0 [])"
proof -
  let ?n = "length vs"
  have n: "length hs = ?n" using same by (metis length_map)
  have at: "h_ts (hs ! x) = sv_ts (vs ! x)" "h_sid (hs ! x) = sv_session (vs ! x)" if "x < ?n" for x
  proof -
    have "map (\<lambda>h. (h_ts h, h_sid h)) hs ! x = map (\<lambda>v. (sv_ts v, sv_session v)) vs ! x" by (simp only: same)
    then show "h_ts (hs ! x) = sv_ts (vs ! x)" "h_sid (hs ! x) = sv_session (vs ! x)" using that n by simp_all
  qed
  have starts: "hit_starts hs x \<longleftrightarrow> starts_run vs 0 x" if "x < ?n" for x
    using that at [of x] at [of "x - 1"] by (auto simp: hit_starts_def starts_run_def secs_def)
  have runs: "hit_runs hs x = runs_to vs 0 x" if "x \<le> ?n" for x
    using that starts unfolding hit_runs_def runs_to_def by (intro arg_cong [where f = length] filter_cong) auto
  have key: "session_of hs x = session_of hs y \<longleftrightarrow> view_key vs 0 x = view_key vs 0 y" if "x < ?n" "y < ?n" for x y
    using that at runs [of "x + 1"] runs [of "y + 1"] by (auto simp: session_of_def view_key_def dec_nat_inj Let_def)
  have firsts: "firsts (session_of hs) 0 ?n = firsts (view_key vs 0) 0 ?n" by (rule firsts_cong [OF key])
  have cut: "cut_partitions vs 0 [] = map (session_at vs 0 ?n) (firsts (view_key vs 0) 0 ?n)"
  proof (cases "vs = []")
    case True
    then show ?thesis by (simp add: cut_partitions.simps firsts_def)
  next
    case False
    have "cut_partitions vs 0 [] = map (whole_session vs) (filter (opens vs) [0..<?n])"
      using cut_partitions_sessions [OF assms(1), of 0 "[]"] by simp
    also have "\<dots> = map (session_at vs 0 ?n) (firsts (view_key vs 0) 0 ?n)"
      by (rule partition_sessions [symmetric]) (use one False in auto)
    finally show ?thesis .
  qed
  have each: "(hd (hits_in hs ?n f), last (hits_in hs ?n f), length (hits_in hs ?n f))
      = (hs ! ss_first (session_at vs 0 ?n f), hs ! ss_last (session_at vs 0 ?n f), ss_views (session_at vs 0 ?n f))"
    if f: "f \<in> set (firsts (view_key vs 0) 0 ?n)" for f
  proof -
    have lt: "f < ?n" and first: "\<forall>y \<in> set [0..<f]. view_key vs 0 y \<noteq> view_key vs 0 f" using f by (auto simp: firsts_def)
    let ?mine = "filter (\<lambda>y. view_key vs 0 y = view_key vs 0 f) [0..<?n]"
    have mine: "hits_in hs ?n f = map ((!) hs) ?mine"
      unfolding hits_in_def by (rule arg_cong [where f = "map ((!) hs)"], rule filter_cong) (use key lt in auto)
    have "[0..<?n] = [0..<f] @ f # [f + 1..<?n]" using split_upt [of 0 f ?n] lt by (simp add: upt_conv_Cons)
    then have "hd ?mine = f" "?mine \<noteq> []" using first by (simp_all add: filter_empty_conv)
    then show ?thesis by (simp add: mine session_at_def Let_def hd_map last_map)
  qed
  show ?thesis unfolding cut n using cut_hits_sessions [of hs "[]"] each by (simp add: n firsts)
qed

definition path_hits :: "hit list" where
  "path_hits = map (\<lambda>v. \<lparr>h_ts = sv_ts v, h_v = ''/'', h_sid = sv_session v, h_id = sv_id v, h_id_null = sv_id_null v, h_skip = False\<rparr>) (take 4 day_views)"

theorem paths_cut_as_sessions_witness:
  "map length (cut_hits path_hits [0..<length path_hits] 0 (Map.empty, [])) = [2, 1, 1]"
proof -
  let ?vs = "take 4 day_views"
  have s: "views_sorted ?vs" by (simp add: views_sorted_def day_views_def day_view_def cmp_view_def cmp_partition_def compare_def bool_int_def)
  have p: "\<forall>v \<in> set ?vs. partition_of v = (False, ''web'', False, ''a'')" by (simp add: day_views_def day_view_def partition_of_def)
  have c: "map (\<lambda>h. (h_ts h, h_sid h)) path_hits = map (\<lambda>v. (sv_ts v, sv_session v)) ?vs" by (simp add: path_hits_def)
  have "map ss_views (cut_partitions ?vs 0 []) = [2, 1, 1]" by code_simp
  moreover have "map (snd \<circ> snd) (map (\<lambda>s. (hd s, last s, length s)) (cut_hits path_hits [0..<length path_hits] 0 (Map.empty, [])))
      = map (snd \<circ> snd) (map (\<lambda>s. (path_hits ! ss_first s, path_hits ! ss_last s, ss_views s)) (cut_partitions ?vs 0 []))"
    by (rule arg_cong [OF paths_cut_as_sessions [OF s p c]])
  ultimately show ?thesis by (simp add: comp_def)
qed

end
