(* ===== verification/Retention.thy ===== *)
theory Retention
  imports HllSketch NativeFilter Paths
begin

text \<open>
  Retention (\<^verbatim>\<open>internal/native/retention.go\<close>): the days each actor was active, gathered by the workers
  of one pass over the events as 64-bit bitsets of a window, folded together, cut to cohorts and
  counted. An actor's state is a function of the set of its acts, however they are split over batches
  and workers: the map of states is an interpretation of \<open>union_counter\<close>. Days count from
  1970-01-01; \<open>show_ratio\<close> prints a quotient; the memory charge is left out.
\<close>

section \<open>An actor's state\<close>

text \<open>An act: the actor, its day, and whether it was a user's.\<close>

type_synonym act = "string \<times> int \<times> bool"

definition no_user_day :: int where "no_user_day = 2 ^ 63 - 1"

record ret_window =
  rw_lo :: int
  rw_hi :: int
  rw_words :: nat

record ret_state =
  rt_first :: int
  rt_user :: int
  rt_window :: "64 word list option"

definition set_bit_at :: "nat \<Rightarrow> 64 word list \<Rightarrow> 64 word list" where
  "set_bit_at x ws = ws[x div 64 := ws ! (x div 64) OR push_bit (x mod 64) 1]"

definition bit_at :: "64 word list \<Rightarrow> nat \<Rightarrow> bool" where
  "bit_at ws x \<longleftrightarrow> x div 64 < length ws \<and> bit (ws ! (x div 64)) (x mod 64)"

text \<open>One act of the actor, from \<open>add\<close>; \<open>new_state\<close> is the state it makes for an actor not seen.\<close>

definition new_state :: "int \<Rightarrow> ret_state" where
  "new_state d = \<lparr>rt_first = d, rt_user = no_user_day, rt_window = None\<rparr>"

definition note_act :: "ret_window \<Rightarrow> int \<Rightarrow> bool \<Rightarrow> ret_state \<Rightarrow> ret_state" where
  "note_act w d user st =
     (let st1 = st\<lparr>rt_first := min (rt_first st) d, rt_user := (if user then min (rt_user st) d else rt_user st)\<rparr>
      in if rt_first st1 < rw_lo w then st1\<lparr>rt_window := None\<rparr>
         else let ws = (case rt_window st1 of None \<Rightarrow> replicate (rw_words w) 0 | Some ws \<Rightarrow> ws)
              in st1\<lparr>rt_window := Some (set_bit_at (nat (d - rw_lo w)) ws)\<rparr>)"

definition add_act :: "ret_window \<Rightarrow> act \<Rightarrow> (string \<times> ret_state) list \<Rightarrow> (string \<times> ret_state) list" where
  "add_act w a m = (case a of (actor, d, user) \<Rightarrow>
     AList.map_default actor (note_act w d user (new_state d)) (note_act w d user) m)"

text \<open>\<open>fold\<close>: another worker's actors folded in.\<close>

definition join_states :: "ret_window \<Rightarrow> ret_state \<Rightarrow> ret_state \<Rightarrow> ret_state" where
  "join_states w y x =
     (let y1 = y\<lparr>rt_first := min (rt_first y) (rt_first x), rt_user := min (rt_user y) (rt_user x)\<rparr>
      in if rt_first y1 < rw_lo w then y1\<lparr>rt_window := None\<rparr>
         else y1\<lparr>rt_window := Some (map2 (\<lambda>a b. a OR b) (the (rt_window y1)) (the (rt_window x)))\<rparr>)"

definition fold_states :: "ret_window \<Rightarrow> (string \<times> ret_state) list \<Rightarrow> (string \<times> ret_state) list \<Rightarrow> (string \<times> ret_state) list" where
  "fold_states w dst src = foldl (\<lambda>m (actor, x). AList.map_default actor x (\<lambda>y. join_states w y x) m) dst src"

section \<open>The acts of a batch\<close>

definition row_act :: "ret_window \<Rightarrow> 'f column \<Rightarrow> 'f column \<Rightarrow> 'f column \<Rightarrow> 'f column \<Rightarrow> nat \<Rightarrow> act option" where
  "row_act w day fam actor kind i =
     (let f = the (c_idx fam) ! i; k = the (c_idx kind) ! i; a = the (c_idx actor) ! i;
          fam_ok = map (\<lambda>s. s = ''views'' \<or> s = ''product'') (c_dict fam);
          kind_of = map (\<lambda>s. if s = ''install'' then 1 else if s = ''user'' then 2 else 0 :: nat) (c_dict kind)
      in if f < 0 \<or> \<not> fam_ok ! nat f \<or> k < 0 \<or> kind_of ! nat k = 0 \<or> a < 0 \<or> c_dict actor ! nat a = [] then None
         else (case int_at (Some day) i of
             None \<Rightarrow> None
           | Some d \<Rightarrow> if d > rw_hi w then None else Some (c_dict actor ! nat a, d, kind_of ! nat k = 2)))"

definition batch_acts :: "'f float_ops \<Rightarrow> (string \<Rightarrow> string) \<Rightarrow> ret_window \<Rightarrow> cfilter list \<Rightarrow> 'f batch \<Rightarrow> filter_error + act list" where
  "batch_acts fo low w filters b = and_then (select_rows fo low b filters) (\<lambda>sel.
     case (cols_of low b ''day'', cols_of low b ''family'', cols_of low b ''actor_id'', cols_of low b ''actor_kind'') of
       (Some day, Some fam, Some actor, Some kind) \<Rightarrow>
         if c_idx fam = None \<or> c_idx actor = None \<or> c_idx kind = None then Inr []
         else Inr (List.map_filter (row_act w day fam actor kind) sel)
     | _ \<Rightarrow> Inr [])"

definition window_add :: "'f float_ops \<Rightarrow> (string \<Rightarrow> string) \<Rightarrow> ret_window \<Rightarrow> cfilter list \<Rightarrow> 'f batch
    \<Rightarrow> (string \<times> ret_state) list \<Rightarrow> filter_error + (string \<times> ret_state) list" where
  "window_add fo low w filters b m = and_then (batch_acts fo low w filters b) (\<lambda>acts. Inr (fold (add_act w) acts m))"

fun window_adds :: "'f float_ops \<Rightarrow> (string \<Rightarrow> string) \<Rightarrow> ret_window \<Rightarrow> cfilter list \<Rightarrow> 'f batch list
    \<Rightarrow> (string \<times> ret_state) list \<Rightarrow> filter_error + (string \<times> ret_state) list" where
  "window_adds fo low w filters [] m = Inr m"
| "window_adds fo low w filters (b # bs) m = and_then (window_add fo low w filters b m) (window_adds fo low w filters bs)"

section \<open>Cohorts\<close>

record ret_actor =
  ra_id :: string
  ra_cohort :: int
  ra_user :: int
  ra_active :: "64 word list"

definition active_on :: "ret_actor \<Rightarrow> int \<Rightarrow> bool" where
  "active_on a off \<longleftrightarrow> off \<ge> 0 \<and> bit_at (ra_active a) (nat off)"

definition window_of :: "int \<Rightarrow> int \<Rightarrow> int \<Rightarrow> nat \<Rightarrow> ret_window option" where
  "window_of from to today offsets =
     (let hi = min (to + int offsets) (today - 1)
      in if hi < from \<or> to < from then None else Some \<lparr>rw_lo = from, rw_hi = hi, rw_words = nat ((hi - from + 64) div 64)\<rparr>)"

definition actor_bits :: "ret_window \<Rightarrow> nat \<Rightarrow> int \<Rightarrow> 64 word list \<Rightarrow> 64 word list" where
  "actor_bits w offsets first ws =
     foldl (\<lambda>bits off. if first + int off \<le> rw_hi w \<and> bit_at ws (nat (first + int off - rw_lo w)) then set_bit_at off bits else bits)
       (replicate ((offsets + 64) div 64) 0) [0..<offsets + 1]"

definition cohort_actor :: "ret_window \<Rightarrow> int \<Rightarrow> nat \<Rightarrow> string \<times> ret_state \<Rightarrow> ret_actor option" where
  "cohort_actor w to offsets e = (case rt_window (snd e) of
     None \<Rightarrow> None
   | Some ws \<Rightarrow> if rt_first (snd e) > to then None
       else Some \<lparr>ra_id = fst e, ra_cohort = rt_first (snd e), ra_user = rt_user (snd e),
              ra_active = actor_bits w offsets (rt_first (snd e)) ws\<rparr>)"

fun worker_states :: "'f float_ops \<Rightarrow> (string \<Rightarrow> string) \<Rightarrow> ret_window \<Rightarrow> cfilter list \<Rightarrow> 'f batch list list
    \<Rightarrow> filter_error + (string \<times> ret_state) list list" where
  "worker_states fo low w filters [] = Inr []"
| "worker_states fo low w filters (bs # rest) = and_then (window_adds fo low w filters bs []) (\<lambda>m.
     and_then (worker_states fo low w filters rest) (\<lambda>ms. Inr (m # ms)))"

definition retention_actors :: "'f float_ops \<Rightarrow> (string \<Rightarrow> string) \<Rightarrow> int \<Rightarrow> int \<Rightarrow> int \<Rightarrow> nat \<Rightarrow> cfilter list \<Rightarrow> 'f batch list list
    \<Rightarrow> filter_error + ret_actor list" where
  "retention_actors fo low from to today offsets filters workers = (case window_of from to today offsets of
     None \<Rightarrow> Inr []
   | Some w \<Rightarrow> and_then (worker_states fo low w filters workers) (\<lambda>ms.
       Inr (List.map_filter (cohort_actor w to offsets) (foldl (fold_states w) [] ms))))"

section \<open>Counts\<close>

record ret_key =
  rk_user :: bool
  rk_cohort :: int
  rk_offset :: nat

definition actor_keys :: "nat \<Rightarrow> ret_actor \<Rightarrow> ret_key list" where
  "actor_keys offsets a = map (\<lambda>off. \<lparr>rk_user = (ra_user a \<le> ra_cohort a + int off), rk_cohort = ra_cohort a, rk_offset = off\<rparr>)
     (filter (\<lambda>off. active_on a (int off)) [0..<offsets + 1])"

definition tally :: "'k list \<Rightarrow> ('k \<times> nat) list" where
  "tally ks = fold (\<lambda>k m. AList.map_default k 1 (\<lambda>n. n + 1) m) ks []"

definition count_of :: "('k \<times> nat) list \<Rightarrow> 'k \<Rightarrow> nat" where
  "count_of m k = (case map_of m k of None \<Rightarrow> 0 | Some n \<Rightarrow> n)"

definition count_retention :: "nat \<Rightarrow> ret_actor list \<Rightarrow> (ret_key \<times> nat) list" where
  "count_retention offsets actors =
     (let counts = tally (concat (map (actor_keys offsets) actors))
      in filter (\<lambda>(k, n). count_of counts (k\<lparr>rk_offset := 0\<rparr>) \<noteq> 0) counts)"


section \<open>The states hold the acts\<close>

text \<open>The days and user flags of an actor's acts.\<close>

definition of_actor :: "act set \<Rightarrow> string \<Rightarrow> (int \<times> bool) set" where
  "of_actor S a = {(d, u). (a, d, u) \<in> S}"

lemma of_actor_simps:
  "of_actor {} a = {}"
  "of_actor (insert (b, d, u) S) a = (if a = b then insert (d, u) (of_actor S a) else of_actor S a)"
  "of_actor (S \<union> T) a = of_actor S a \<union> of_actor T a"
  by (auto simp: of_actor_def)

lemma of_actor_finite: "finite S \<Longrightarrow> finite (of_actor S a)"
  by (rule finite_surj [of S _ snd]) (force simp: of_actor_def)+

definition user_days :: "(int \<times> bool) set \<Rightarrow> int set" where
  "user_days D = {d. (d, True) \<in> D}"

lemma user_days_simps:
  "user_days {} = {}"
  "user_days (insert (d, u) D) = (if u then insert d (user_days D) else user_days D)"
  "user_days (D \<union> E) = user_days D \<union> user_days E"
  by (auto simp: user_days_def)

lemma user_days_finite: "finite D \<Longrightarrow> finite (user_days D)"
  by (rule finite_surj [of D _ fst]) (force simp: user_days_def)+

definition st_rep :: "ret_window \<Rightarrow> ret_state \<Rightarrow> (int \<times> bool) set \<Rightarrow> bool" where
  "st_rep w st D \<longleftrightarrow> finite D \<and> D \<noteq> {} \<and> rt_first st = Min (fst ` D) \<and> rt_user st = Min (insert no_user_day (user_days D))
     \<and> (case rt_window st of
          None \<Rightarrow> rt_first st < rw_lo w
        | Some ws \<Rightarrow> rw_lo w \<le> rt_first st \<and> length ws = rw_words w
            \<and> (\<forall>x. bit_at ws x \<longleftrightarrow> x < 64 * rw_words w \<and> rw_lo w + int x \<in> fst ` D))"

lemma bit_at_set: "bit_at (set_bit_at x ws) y \<longleftrightarrow> bit_at ws y \<or> x = y \<and> x < 64 * length ws"
proof (cases "x div 64 = y div 64")
  case True
  then have "x = y \<longleftrightarrow> x mod 64 = y mod 64" by (metis mult_div_mod_eq)
  moreover have "x div 64 < length ws \<longleftrightarrow> x < 64 * length ws" by (simp add: div_less_iff_less_mult mult.commute)
  ultimately show ?thesis using True by (auto simp: bit_at_def set_bit_at_def bit_simps)
next
  case False
  then show ?thesis by (auto simp: bit_at_def set_bit_at_def)
qed

lemma bit_at_zero: "\<not> bit_at (replicate n 0) x"
  by (simp add: bit_at_def)

lemma bit_at_or: "length ws = length vs \<Longrightarrow> bit_at (map2 (\<lambda>a b. a OR b) ws vs) x \<longleftrightarrow> bit_at ws x \<or> bit_at vs x"
  by (auto simp: bit_at_def bit_simps)

lemma bit_at_len: "bit_at ws x \<Longrightarrow> x < 64 * length ws"
  by (simp add: bit_at_def div_less_iff_less_mult mult.commute)

lemma length_set_bit_at [simp]: "length (set_bit_at x ws) = length ws"
  by (simp add: set_bit_at_def)

lemma st_rep_note:
  assumes rep: "st_rep w st D \<or> (D = {} \<and> st = new_state d)"
  shows "st_rep w (note_act w d u st) (insert (d, u) D)"
proof -
  have fin: "finite D" "finite (user_days D)" using rep by (auto simp: st_rep_def user_days_finite)
  have first: "min (rt_first st) d = Min (fst ` insert (d, u) D)"
    using rep
  proof
    assume "st_rep w st D"
    then show ?thesis by (simp add: st_rep_def min.commute del: Min_le_iff Min_ge_iff)
  qed (simp add: new_state_def)
  have user: "(if u then min (rt_user st) d else rt_user st) = Min (insert no_user_day (user_days (insert (d, u) D)))"
  proof -
    have "rt_user st = Min (insert no_user_day (user_days D))" using rep by (auto simp: st_rep_def new_state_def user_days_simps)
    moreover have "Min (insert d (insert no_user_day (user_days D))) = min d (Min (insert no_user_day (user_days D)))"
      by (rule Min_insert) (use fin in auto)
    ultimately show ?thesis by (simp add: user_days_simps insert_commute min.commute del: Min_insert)
  qed
  show ?thesis
  proof (cases "min (rt_first st) d < rw_lo w")
    case True
    then show ?thesis using first user fin by (simp add: st_rep_def note_act_def Let_def)
  next
    case False
    define ws where "ws = (case rt_window st of None \<Rightarrow> replicate (rw_words w) 0 | Some ws \<Rightarrow> ws)"
    have ws: "length ws = rw_words w \<and> (\<forall>x. bit_at ws x \<longleftrightarrow> x < 64 * rw_words w \<and> rw_lo w + int x \<in> fst ` D)"
      using rep False by (auto simp: ws_def st_rep_def new_state_def bit_at_zero split: option.splits)
    have noted: "note_act w d u st = st\<lparr>rt_first := min (rt_first st) d, rt_user := (if u then min (rt_user st) d else rt_user st),
        rt_window := Some (set_bit_at (nat (d - rw_lo w)) ws)\<rparr>"
      using False by (simp add: note_act_def Let_def ws_def)
    have bits: "bit_at (set_bit_at (nat (d - rw_lo w)) ws) x \<longleftrightarrow> x < 64 * rw_words w \<and> rw_lo w + int x \<in> fst ` insert (d, u) D" for x
      using ws False by (auto simp: bit_at_set)
    have "rw_lo w \<le> Min (fst ` insert (d, u) D)" using False first by linarith
    with first user fin ws bits show ?thesis unfolding noted by (simp add: st_rep_def del: Min_ge_iff)
  qed
qed

lemma st_rep_join:
  assumes y: "st_rep w y D" and x: "st_rep w x E"
  shows "st_rep w (join_states w y x) (D \<union> E)"
proof -
  have fin: "finite D" "finite E" "finite (user_days D)" "finite (user_days E)" "D \<noteq> {}" "E \<noteq> {}"
    using x y by (auto simp: st_rep_def user_days_finite)
  have first: "min (rt_first y) (rt_first x) = Min (fst ` (D \<union> E))"
    using x y fin by (simp add: st_rep_def image_Un Min_Un)
  have user: "min (rt_user y) (rt_user x) = Min (insert no_user_day (user_days (D \<union> E)))"
  proof -
    have "insert no_user_day (user_days (D \<union> E)) = insert no_user_day (user_days D) \<union> insert no_user_day (user_days E)"
      by (auto simp: user_days_simps)
    moreover have "Min (insert no_user_day (user_days D) \<union> insert no_user_day (user_days E))
        = min (Min (insert no_user_day (user_days D))) (Min (insert no_user_day (user_days E)))"
      by (rule Min_Un) (use fin in auto)
    ultimately show ?thesis using x y by (simp add: st_rep_def)
  qed
  show ?thesis
  proof (cases "min (rt_first y) (rt_first x) < rw_lo w")
    case True
    then show ?thesis using first user fin by (simp add: st_rep_def join_states_def Let_def)
  next
    case False
    from False y obtain ws where ws: "rt_window y = Some ws" "length ws = rw_words w"
        "\<And>k. bit_at ws k \<longleftrightarrow> k < 64 * rw_words w \<and> rw_lo w + int k \<in> fst ` D"
      by (auto simp: st_rep_def split: option.splits)
    from False x obtain vs where vs: "rt_window x = Some vs" "length vs = rw_words w"
        "\<And>k. bit_at vs k \<longleftrightarrow> k < 64 * rw_words w \<and> rw_lo w + int k \<in> fst ` E"
      by (auto simp: st_rep_def split: option.splits)
    have join: "join_states w y x = y\<lparr>rt_first := min (rt_first y) (rt_first x), rt_user := min (rt_user y) (rt_user x),
        rt_window := Some (map2 (\<lambda>a b. a OR b) ws vs)\<rparr>"
      using False ws vs by (simp add: join_states_def Let_def)
    have bits: "bit_at (map2 (\<lambda>a b. a OR b) ws vs) k \<longleftrightarrow> k < 64 * rw_words w \<and> rw_lo w + int k \<in> fst ` (D \<union> E)" for k
      using ws vs by (auto simp: bit_at_or image_Un)
    have "rw_lo w \<le> Min (fst ` (D \<union> E))" using False first by linarith
    with first user fin ws vs bits show ?thesis unfolding join by (simp add: st_rep_def del: Min_ge_iff)
  qed
qed

definition ret_rep :: "ret_window \<Rightarrow> (string \<times> ret_state) list \<Rightarrow> act set \<Rightarrow> bool" where
  "ret_rep w m S \<longleftrightarrow> distinct (map fst m) \<and>
     (\<forall>a. case map_of m a of None \<Rightarrow> of_actor S a = {} | Some st \<Rightarrow> st_rep w st (of_actor S a))"

lemma ret_rep_add:
  assumes "ret_rep w m S"
  shows "ret_rep w (add_act w k m) (insert k S)"
proof -
  obtain b d u where k: "k = (b, d, u)" by (metis prod_cases3)
  have rep: "case map_of m a of None \<Rightarrow> of_actor S a = {} | Some st \<Rightarrow> st_rep w st (of_actor S a)" for a
    using assms by (simp add: ret_rep_def)
  have "case map_of (add_act w k m) a of None \<Rightarrow> of_actor (insert k S) a = {} | Some st \<Rightarrow> st_rep w st (of_actor (insert k S) a)" for a
  proof (cases "a = b")
    case False
    then have "of_actor (insert k S) a = of_actor S a" "map_of (add_act w k m) a = map_of m a"
      by (simp_all add: k add_act_def map_of_map_default of_actor_simps)
    with rep [of a] show ?thesis by (simp only:)
  next
    case True
    have "st_rep w (note_act w d u (case map_of m b of None \<Rightarrow> new_state d | Some st \<Rightarrow> st)) (insert (d, u) (of_actor S b))"
      by (rule st_rep_note) (use rep [of b] in \<open>auto split: option.splits\<close>)
    then show ?thesis using True by (auto simp: k add_act_def map_of_map_default of_actor_simps split: option.splits)
  qed
  moreover have "distinct (map fst (add_act w k m))" using assms by (simp add: ret_rep_def add_act_def distinct_map_default k)
  ultimately show ?thesis unfolding ret_rep_def by blast
qed

lemma fold_states_map_of: "distinct (map fst src) \<Longrightarrow>
  map_of (fold_states w dst src) a = (case map_of src a of
      None \<Rightarrow> map_of dst a
    | Some x \<Rightarrow> Some (case map_of dst a of None \<Rightarrow> x | Some y \<Rightarrow> join_states w y x))"
proof (induction src arbitrary: dst)
  case (Cons e src)
  obtain b x where e: "e = (b, x)" by fastforce
  have "fold_states w dst (e # src) = fold_states w (AList.map_default b x (\<lambda>y. join_states w y x) dst) src"
    by (simp add: fold_states_def e)
  moreover have "map_of src b = None" using Cons.prems by (auto simp: e map_of_eq_None_iff)
  ultimately show ?case using Cons.IH [of "AList.map_default b x (\<lambda>y. join_states w y x) dst"] Cons.prems
    by (auto simp: e map_of_map_default split: option.splits)
qed (simp add: fold_states_def)

lemma fold_states_distinct: "distinct (map fst dst) \<Longrightarrow> distinct (map fst (fold_states w dst src))"
proof (induction src arbitrary: dst)
  case (Cons e src)
  from Cons.IH [OF distinct_map_default [OF Cons.prems, of "fst e" "snd e" "\<lambda>y. join_states w y (snd e)"]]
  show ?case by (simp add: fold_states_def split_def)
qed (simp add: fold_states_def)

lemma ret_rep_fold:
  assumes "ret_rep w m S" "ret_rep w m' T"
  shows "ret_rep w (fold_states w m m') (S \<union> T)"
proof -
  have rep: "case map_of m a of None \<Rightarrow> of_actor S a = {} | Some st \<Rightarrow> st_rep w st (of_actor S a)"
      "case map_of m' a of None \<Rightarrow> of_actor T a = {} | Some st \<Rightarrow> st_rep w st (of_actor T a)" for a
    using assms by (simp_all add: ret_rep_def)
  have "distinct (map fst m')" using assms by (simp add: ret_rep_def)
  note map_of = fold_states_map_of [OF this]
  have "case map_of (fold_states w m m') a of None \<Rightarrow> of_actor (S \<union> T) a = {} | Some st \<Rightarrow> st_rep w st (of_actor (S \<union> T) a)" for a
    using rep [of a] st_rep_join by (auto simp: map_of of_actor_simps split: option.splits)
  then show ?thesis using assms by (simp add: ret_rep_def fold_states_distinct)
qed

interpretation ret: union_counter "ret_rep w" "[]" "add_act w" "fold_states w" for w
  by unfold_locales (simp add: ret_rep_def of_actor_simps, erule ret_rep_add, erule (1) ret_rep_fold)


section \<open>The acts of a scan\<close>

definition acts_in :: "'f float_ops \<Rightarrow> (string \<Rightarrow> string) \<Rightarrow> ret_window \<Rightarrow> cfilter list \<Rightarrow> 'f batch list \<Rightarrow> act set" where
  "acts_in fo low w filters bs = \<Union> (set ` {as. \<exists>b \<in> set bs. batch_acts fo low w filters b = Inr as})"

lemma acts_in_simps:
  "acts_in fo low w filters [] = {}"
  "batch_acts fo low w filters b = Inr as \<Longrightarrow> acts_in fo low w filters (b # bs) = set as \<union> acts_in fo low w filters bs"
  "acts_in fo low w filters (bs @ cs) = acts_in fo low w filters bs \<union> acts_in fo low w filters cs"
  by (auto simp: acts_in_def)

lemma row_act_day: "row_act w day fam actor kind i = Some (a, d, u) \<Longrightarrow> d \<le> rw_hi w"
  by (auto simp: row_act_def Let_def split: if_splits option.splits)

lemma acts_in_day:
  fixes fo :: "'f float_ops"
  assumes "(a, d, u) \<in> acts_in fo low w filters bs"
  shows "d \<le> rw_hi w"
proof -
  from assms obtain b as where b: "batch_acts fo low w filters b = Inr as" and act: "(a, d, u) \<in> set as"
    unfolding acts_in_def by blast
  have "\<exists>(day :: 'f column) fam actor kind i. row_act w day fam actor kind i = Some (a, d, u)"
  proof (cases "cols_of low b ''day''"; cases "cols_of low b ''family''"; cases "cols_of low b ''actor_id''"; cases "cols_of low b ''actor_kind''")
    fix day fam actor kind
    assume cols: "cols_of low b ''day'' = Some day" "cols_of low b ''family'' = Some fam" "cols_of low b ''actor_id'' = Some actor"
      "cols_of low b ''actor_kind'' = Some kind"
    then obtain sel where "as = List.map_filter (row_act w day fam actor kind) sel"
      using b act by (auto simp: batch_acts_def and_then_Inr split: if_splits)
    with act obtain i where "row_act w day fam actor kind i = Some (a, d, u)" by (auto simp: map_filter_def)
    then show ?thesis by blast
  qed (use b act in \<open>auto simp: batch_acts_def and_then_Inr\<close>)
  then show ?thesis by (auto intro: row_act_day)
qed

lemma window_adds_rep:
  assumes "ret_rep w m S" "window_adds fo low w filters bs m = Inr m'"
  shows "ret_rep w m' (S \<union> acts_in fo low w filters bs)"
  using assms
proof (induction bs arbitrary: m S)
  case (Cons b bs)
  from Cons.prems(2) obtain as where as: "batch_acts fo low w filters b = Inr as"
      and rest: "window_adds fo low w filters bs (fold (add_act w) as m) = Inr m'"
    by (auto simp: window_add_def and_then_Inr)
  from Cons.IH [OF ret.rep_adds [OF Cons.prems(1), of as] rest] show ?case
    by (simp add: acts_in_simps(2) [OF as] Un_assoc)
qed (simp add: acts_in_simps)

lemma worker_states_rep:
  assumes "worker_states fo low w filters workers = Inr ms" "ret_rep w m S"
  shows "ret_rep w (foldl (fold_states w) m ms) (S \<union> acts_in fo low w filters (concat workers))"
  using assms
proof (induction workers arbitrary: ms m S)
  case (Cons bs workers)
  from Cons.prems(1) obtain m1 ms1 where m1: "window_adds fo low w filters bs [] = Inr m1"
      and ms1: "worker_states fo low w filters workers = Inr ms1" and ms: "ms = m1 # ms1"
    by (auto simp: and_then_Inr)
  from window_adds_rep [OF ret.rep_new m1] have "ret_rep w m1 (acts_in fo low w filters bs)" by simp
  from Cons.IH [OF ms1 ret.rep_merge [OF Cons.prems(2) this]] show ?case
    by (simp add: ms acts_in_simps Un_assoc)
qed (simp add: acts_in_simps)

section \<open>What a cohort holds\<close>

definition in_cohort :: "act set \<Rightarrow> int \<Rightarrow> string \<Rightarrow> bool" where
  "in_cohort S c a \<longleftrightarrow> (\<exists>u. (a, c, u) \<in> S) \<and> (\<forall>(b, d, u) \<in> S. b = a \<longrightarrow> c \<le> d)"

definition user_by :: "act set \<Rightarrow> string \<Rightarrow> int \<Rightarrow> bool" where
  "user_by S a d \<longleftrightarrow> (\<exists>d' \<le> d. (a, d', True) \<in> S)"

definition came_back :: "act set \<Rightarrow> ret_key \<Rightarrow> string set" where
  "came_back S k = {a. in_cohort S (rk_cohort k) a \<and> (\<exists>u. (a, rk_cohort k + int (rk_offset k), u) \<in> S)
     \<and> rk_user k = user_by S a (rk_cohort k + int (rk_offset k))}"

lemma Min_is: "finite D \<Longrightarrow> D \<noteq> {} \<Longrightarrow> Min D = c \<longleftrightarrow> c \<in> D \<and> (\<forall>d \<in> D. c \<le> d)"
  by (metis Min_eqI Min_in Min_le)

lemma in_cohort_first: "st_rep w st (of_actor S a) \<Longrightarrow> in_cohort S c a \<longleftrightarrow> rt_first st = c"
proof -
  assume rep: "st_rep w st (of_actor S a)"
  then have "rt_first st = c \<longleftrightarrow> c \<in> fst ` of_actor S a \<and> (\<forall>d \<in> fst ` of_actor S a. c \<le> d)"
    by (simp add: st_rep_def Min_is)
  also have "\<dots> \<longleftrightarrow> in_cohort S c a" by (force simp: in_cohort_def of_actor_def)
  finally show ?thesis by simp
qed

lemma user_by_user: "st_rep w st (of_actor S a) \<Longrightarrow> d < no_user_day \<Longrightarrow> user_by S a d \<longleftrightarrow> rt_user st \<le> d"
proof -
  assume rep: "st_rep w st (of_actor S a)" and d: "d < no_user_day"
  then have "rt_user st \<le> d \<longleftrightarrow> (\<exists>x \<in> insert no_user_day (user_days (of_actor S a)). x \<le> d)"
    by (simp add: st_rep_def Min_le_iff user_days_finite)
  also have "\<dots> \<longleftrightarrow> user_by S a d" using d by (auto simp: user_by_def user_days_def of_actor_def)
  finally show ?thesis by simp
qed

lemma actor_bits_at:
  "bit_at (actor_bits w offsets first ws) x \<longleftrightarrow> x \<le> offsets \<and> first + int x \<le> rw_hi w \<and> bit_at ws (nat (first + int x - rw_lo w))"
proof -
  define P where "P off \<longleftrightarrow> first + int off \<le> rw_hi w \<and> bit_at ws (nat (first + int off - rw_lo w))" for off
  have fold: "length (foldl (\<lambda>bits off. if P off then set_bit_at off bits else bits) bs xs) = length bs
      \<and> (bit_at (foldl (\<lambda>bits off. if P off then set_bit_at off bits else bits) bs xs) x
         \<longleftrightarrow> bit_at bs x \<or> x < 64 * length bs \<and> x \<in> set xs \<and> P x)" for bs xs
    by (induction xs arbitrary: bs) (auto simp: bit_at_set)
  have "actor_bits w offsets first ws =
      foldl (\<lambda>bits off. if P off then set_bit_at off bits else bits) (replicate ((offsets + 64) div 64) 0) [0..<offsets + 1]"
    unfolding actor_bits_def P_def by (rule refl)
  moreover define n where "n = (offsets + 64) div 64"
  ultimately have "bit_at (actor_bits w offsets first ws) x \<longleftrightarrow> bit_at (replicate n 0) x \<or> x < 64 * n \<and> x \<in> set [0..<offsets + 1] \<and> P x"
    using fold [of "replicate n 0" "[0..<offsets + 1]"] by (simp only: length_replicate)
  moreover have "offsets < 64 * n"
    unfolding n_def using mult_div_mod_eq [of 64 "offsets + 64"] mod_less_divisor [of 64 "offsets + 64"] by linarith
  ultimately show ?thesis by (auto simp: bit_at_zero P_def)
qed

lemma words_cover: "(x :: int) < 64 * ((x + 64) div 64)"
proof -
  have "64 * ((x + 64) div 64) + (x + 64) mod 64 = x + 64" by (rule mult_div_mod_eq)
  moreover have "(x + 64) mod 64 < 64" by (rule pos_mod_bound) simp
  ultimately show ?thesis by (metis add_less_cancel_right add_strict_left_mono)
qed

lemma ret_rep_actor:
  assumes "ret_rep w m S"
  shows "map_of m a = Some st \<Longrightarrow> st_rep w st (of_actor S a)" "map_of m a = None \<Longrightarrow> of_actor S a = {}"
proof -
  have "case map_of m a of None \<Rightarrow> of_actor S a = {} | Some st \<Rightarrow> st_rep w st (of_actor S a)"
    using assms unfolding ret_rep_def by blast
  then show "map_of m a = Some st \<Longrightarrow> st_rep w st (of_actor S a)" "map_of m a = None \<Longrightarrow> of_actor S a = {}" by simp_all
qed

lemma tally_count: "count_of (tally ks) k = length (filter ((=) k) ks)"
proof -
  have "count_of (fold (\<lambda>k m. AList.map_default k 1 (\<lambda>n. n + 1) m) ks m) k = count_of m k + length (filter ((=) k) ks)" for m :: "('a \<times> nat) list"
  proof (induction ks arbitrary: m)
    case (Cons x ks)
    then show ?case by (auto simp: count_of_def map_of_map_default split: option.splits)
  qed simp
  then show ?thesis by (simp add: tally_def count_of_def)
qed

lemma tally_distinct: "distinct (map fst (tally ks))"
proof -
  have "distinct (map fst m) \<Longrightarrow> distinct (map fst (fold (\<lambda>k m. AList.map_default k 1 (\<lambda>n. n + 1) m) ks m))" for m :: "('a \<times> nat) list"
    by (induction ks arbitrary: m) (simp_all add: distinct_map_default)
  then show ?thesis by (simp add: tally_def)
qed

lemma count_of_filter: "distinct (map fst m) \<Longrightarrow> count_of (filter (\<lambda>(k, n). P k) m) k = (if P k then count_of m k else 0)"
  by (induction m) (auto simp: count_of_def map_of_eq_None_iff split: option.splits dest: map_of_SomeD)


definition retention_counts :: "'f float_ops \<Rightarrow> (string \<Rightarrow> string) \<Rightarrow> int \<Rightarrow> int \<Rightarrow> int \<Rightarrow> nat \<Rightarrow> cfilter list \<Rightarrow> 'f batch list list
    \<Rightarrow> filter_error + (ret_key \<times> nat) list" where
  "retention_counts fo low from to today offsets filters workers =
     and_then (retention_actors fo low from to today offsets filters workers) (\<lambda>actors. Inr (count_retention offsets actors))"

lemma st_rep_window: "st_rep w st D \<Longrightarrow> rt_window st = None \<longleftrightarrow> rt_first st < rw_lo w"
  unfolding st_rep_def by (cases "rt_window st") (simp_all only: option.case option.simps, auto)

lemma cohort_actor_keys:
  assumes w: "rw_lo w = from" and words: "rw_words w = nat ((rw_hi w - from + 64) div 64)" and hi: "rw_hi w < no_user_day"
    and rep: "st_rep w st (of_actor S a)" and days: "\<And>a d u. (a, d, u) \<in> S \<Longrightarrow> d \<le> rw_hi w"
    and actor: "cohort_actor w to offsets (a, st) = Some x"
  shows "k \<in> set (actor_keys offsets x) \<longleftrightarrow> rk_offset k \<le> offsets \<and> a \<in> came_back S k"
proof -
  from actor obtain ws where ws: "rt_window st = Some ws"
      and x: "x = \<lparr>ra_id = a, ra_cohort = rt_first st, ra_user = rt_user st, ra_active = actor_bits w offsets (rt_first st) ws\<rparr>"
    by (auto simp: cohort_actor_def split: option.splits if_splits)
  have lo: "from \<le> rt_first st" using st_rep_window [OF rep] ws w by auto
  have bits: "bit_at ws y \<longleftrightarrow> y < 64 * rw_words w \<and> from + int y \<in> fst ` of_actor S a" for y
    using rep ws unfolding st_rep_def w by simp
  have active: "active_on x (int off) \<longleftrightarrow> off \<le> offsets \<and> (\<exists>u. (a, rt_first st + int off, u) \<in> S)" for off
  proof -
    let ?d = "rt_first st + int off"
    have y: "from + int (nat (?d - from)) = ?d" using lo by simp
    have "?d \<in> fst ` of_actor S a \<longleftrightarrow> (\<exists>u. (a, ?d, u) \<in> S)" by (force simp: of_actor_def)
    moreover have "nat (?d - from) < 64 * rw_words w" if "?d \<le> rw_hi w"
    proof -
      have "rw_hi w - from < 64 * ((rw_hi w - from + 64) div 64)"
        by (rule words_cover)
      moreover have "0 \<le> rw_hi w - from" using that lo by linarith
      ultimately have "?d - from < int (64 * rw_words w)" using that by (simp add: words)
      then show ?thesis using lo by linarith
    qed
    moreover have "from \<le> ?d" using lo by simp
    ultimately show ?thesis using days [of a ?d]
      by (auto simp: active_on_def x actor_bits_at w bits y)
  qed
  have user: "ra_user x \<le> ra_cohort x + int off \<longleftrightarrow> user_by S a (rt_first st + int off)" if "(a, rt_first st + int off, u) \<in> S" for off u
    using user_by_user [OF rep, of "rt_first st + int off"] days [OF that] hi by (simp add: x)
  have "k \<in> set (actor_keys offsets x) \<longleftrightarrow> (\<exists>off \<le> offsets. active_on x (int off)
      \<and> k = \<lparr>rk_user = (ra_user x \<le> ra_cohort x + int off), rk_cohort = ra_cohort x, rk_offset = off\<rparr>)"
    by (auto simp: actor_keys_def image_iff less_Suc_eq_le simp del: upt_Suc)
  moreover have cohort: "ra_cohort x = rt_first st" by (simp add: x)
  ultimately have "k \<in> set (actor_keys offsets x) \<longleftrightarrow> (\<exists>off \<le> offsets. active_on x (int off)
      \<and> k = \<lparr>rk_user = (ra_user x \<le> ra_cohort x + int off), rk_cohort = rt_first st, rk_offset = off\<rparr>)" by simp
  also have "\<dots> \<longleftrightarrow> rk_offset k \<le> offsets \<and> a \<in> came_back S k"
    using user by (cases k) (auto simp: active came_back_def in_cohort_first [OF rep] cohort)
  finally show ?thesis .
qed

lemma actor_keys_distinct: "distinct (actor_keys offsets x)"
  by (auto simp: actor_keys_def distinct_map inj_on_def)

lemma count_once:
  assumes "distinct (map fst m)" "\<And>e. e \<in> set m \<Longrightarrow> length (filter ((=) k) (f e)) = (if P (fst e) then 1 else 0)"
  shows "length (filter ((=) k) (concat (map f m))) = card {a \<in> fst ` set m. P a}"
  using assms
proof (induction m)
  case (Cons e m)
  have "{a \<in> fst ` set (e # m). P a} = (if P (fst e) then insert (fst e) {a \<in> fst ` set m. P a} else {a \<in> fst ` set m. P a})"
    by auto
  with Cons show ?case by auto
qed simp

lemma distinct_filter_eq: "distinct ks \<Longrightarrow> length (filter ((=) k) ks) = (if k \<in> set ks then 1 else 0)"
  by (induction ks) auto

lemma concat_map_filter: "concat (map f (List.map_filter g m)) = concat (map (\<lambda>e. case g e of None \<Rightarrow> [] | Some x \<Rightarrow> f x) m)"
  by (induction m) (auto simp: List.map_filter_simps split: option.splits)

lemma window_of_fields:
  "window_of from to today offsets = Some w \<Longrightarrow> rw_lo w = from \<and> rw_words w = nat ((rw_hi w - from + 64) div 64) \<and> rw_hi w < today"
  by (auto simp: window_of_def Let_def split: if_splits)

lemma tally_of_actors:
  assumes w: "window_of from to today offsets = Some w" and today: "today \<le> no_user_day"
    and rep: "ret_rep w m S" and days: "\<And>a d u. (a, d, u) \<in> S \<Longrightarrow> d \<le> rw_hi w"
  shows "count_of (tally (concat (map (actor_keys offsets) (List.map_filter (cohort_actor w to offsets) m)))) k
    = (if from \<le> rk_cohort k \<and> rk_cohort k \<le> to \<and> rk_offset k \<le> offsets then card (came_back S k) else 0)"
proof -
  have lo: "rw_lo w = from" and words: "rw_words w = nat ((rw_hi w - from + 64) div 64)" and hi: "rw_hi w < no_user_day"
    using window_of_fields [OF w] today by auto
  define P where "P a \<longleftrightarrow> from \<le> rk_cohort k \<and> rk_cohort k \<le> to \<and> rk_offset k \<le> offsets \<and> a \<in> came_back S k" for a
  have dist: "distinct (map fst m)" using rep by (simp add: ret_rep_def)
  have st: "st_rep w (snd e) (of_actor S (fst e))" if "e \<in> set m" for e
  proof -
    from dist that have "map_of m (fst e) = Some (snd e)" by simp
    from ret_rep_actor(1) [OF rep this] show ?thesis .
  qed
  define keys_of where "keys_of e = (case cohort_actor w to offsets e of None \<Rightarrow> [] | Some x \<Rightarrow> actor_keys offsets x)" for e
  have each: "length (filter ((=) k) (keys_of e)) = (if P (fst e) then 1 else 0)" if e: "e \<in> set m" for e
  proof (cases "cohort_actor w to offsets e")
    case None
    have "\<not> (in_cohort S c (fst e) \<and> from \<le> c \<and> c \<le> to)" for c
      using None st_rep_window [OF st [OF e]] by (auto simp: in_cohort_first [OF st [OF e]] cohort_actor_def lo split: option.splits if_splits)
    then show ?thesis using None by (auto simp: P_def came_back_def keys_of_def)
  next
    case (Some x)
    have keys: "k \<in> set (actor_keys offsets x) \<longleftrightarrow> rk_offset k \<le> offsets \<and> fst e \<in> came_back S k"
      by (rule cohort_actor_keys [OF lo words hi st [OF e] days]) (use Some in \<open>simp_all\<close>)
    have "from \<le> rk_cohort k \<and> rk_cohort k \<le> to" if "fst e \<in> came_back S k"
      using that Some st_rep_window [OF st [OF e]] by (auto simp: came_back_def in_cohort_first [OF st [OF e]] cohort_actor_def lo split: option.splits if_splits)
    with keys show ?thesis using Some by (auto simp: P_def keys_of_def distinct_filter_eq [OF actor_keys_distinct])
  qed
  from count_once [where P = P, OF dist each]
  have "count_of (tally (concat (map (actor_keys offsets) (List.map_filter (cohort_actor w to offsets) m)))) k = card {a \<in> fst ` set m. P a}"
    by (simp add: tally_count concat_map_filter keys_of_def [abs_def])
  moreover have "a \<in> fst ` set m" if "a \<in> came_back S k" for a
  proof (rule ccontr)
    assume "a \<notin> fst ` set m"
    then have "map_of m a = None" by (simp add: map_of_eq_None_iff)
    from ret_rep_actor(2) [OF rep this] have "of_actor S a = {}" .
    with that show False by (auto simp: came_back_def of_actor_def)
  qed
  then have "{a \<in> fst ` set m. P a} = (if from \<le> rk_cohort k \<and> rk_cohort k \<le> to \<and> rk_offset k \<le> offsets then came_back S k else {})"
    by (auto simp: P_def)
  ultimately show ?thesis by simp
qed

text \<open>
  C8: The counts of a retention query, for any split of the events over workers and batches, are the
  numbers of actors: of the cohort whose first act is on the day, back that many days later, as users
  when first a user by then; a kind with nobody in the cohort on its first day has none.
\<close>

theorem retention_counts_actors:
  assumes "window_of from to today offsets = Some w" "today \<le> no_user_day"
    and "retention_counts fo low from to today offsets filters workers = Inr counts"
  shows "count_of counts k =
    (let S = acts_in fo low w filters (concat workers)
     in if from \<le> rk_cohort k \<and> rk_cohort k \<le> to \<and> rk_offset k \<le> offsets \<and> card (came_back S (k\<lparr>rk_offset := 0\<rparr>)) \<noteq> 0
        then card (came_back S k) else 0)"
proof -
  let ?S = "acts_in fo low w filters (concat workers)"
  from assms(3) obtain ms where ms: "worker_states fo low w filters workers = Inr ms"
      and counts: "counts = count_retention offsets (List.map_filter (cohort_actor w to offsets) (foldl (fold_states w) [] ms))"
    by (auto simp: retention_counts_def retention_actors_def assms(1) and_then_Inr)
  have rep: "ret_rep w (foldl (fold_states w) [] ms) ?S"
    using worker_states_rep [OF ms ret.rep_new] by simp
  note tally = tally_of_actors [OF assms(1,2) rep acts_in_day]
  show ?thesis unfolding counts count_retention_def Let_def
    by (subst count_of_filter [OF tally_distinct]) (simp add: tally)
qed


definition events_a :: "int batch" where
  "events_a = \<lparr>b_n = 3, b_cols = [(''day'', no_column\<lparr>c_ints := Some [12, 5, 10]\<rparr>),
     (''family'', no_column\<lparr>c_dict := [''views''], c_idx := Some [0, 0, 0]\<rparr>),
     (''actor_id'', no_column\<lparr>c_dict := [''u'', ''old''], c_idx := Some [0, 1, 0]\<rparr>),
     (''actor_kind'', no_column\<lparr>c_dict := [''user'', ''install''], c_idx := Some [0, 1, 1]\<rparr>)]\<rparr>"

definition events_b :: "int batch" where
  "events_b = \<lparr>b_n = 2, b_cols = [(''day'', no_column\<lparr>c_ints := Some [10, 11]\<rparr>),
     (''family'', no_column\<lparr>c_dict := [''product''], c_idx := Some [0, 0]\<rparr>),
     (''actor_id'', no_column\<lparr>c_dict := [''old'', ''v''], c_idx := Some [0, 1]\<rparr>),
     (''actor_kind'', no_column\<lparr>c_dict := [''user''], c_idx := Some [0, 0]\<rparr>)]\<rparr>"

theorem retention_counts_actors_witness:
  "card (came_back {(''u'', 12, True), (''old'', 5, False), (''u'', 10, False), (''old'', 10, True), (''v'', 11, True)}
      \<lparr>rk_user = False, rk_cohort = 10, rk_offset = 0\<rparr>) = 1"
proof -
  let ?w = "\<lparr>rw_lo = 10, rw_hi = 13, rw_words = 1\<rparr>"
  let ?k = "\<lparr>rk_user = False, rk_cohort = 10, rk_offset = 0\<rparr>"
  let ?counts = "[(\<lparr>rk_user = False, rk_cohort = 10, rk_offset = 0\<rparr>, 1 :: nat), (\<lparr>rk_user = True, rk_cohort = 11, rk_offset = 0\<rparr>, 1)]"
  have w: "window_of 10 11 20 2 = Some ?w" by code_simp
  have counts: "retention_counts sample_ops ascii_low 10 11 20 2 [] [[events_a], [events_b]] = Inr ?counts" by code_simp
  have a: "batch_acts sample_ops ascii_low ?w [] events_a = Inr [(''u'', 12, True), (''old'', 5, False), (''u'', 10, False)]" by code_simp
  have b: "batch_acts sample_ops ascii_low ?w [] events_b = Inr [(''old'', 10, True), (''v'', 11, True)]" by code_simp
  have acts: "acts_in sample_ops ascii_low ?w [] (concat [[events_a], [events_b]])
      = {(''u'', 12, True), (''old'', 5, False), (''u'', 10, False), (''old'', 10, True), (''v'', 11, True)}"
    using acts_in_simps(2) [OF a, of "[events_b]"] acts_in_simps(2) [OF b, of "[]"] by (simp only: acts_in_simps(1) concat.simps append.simps) auto
  have "count_of ?counts ?k = 1" by (simp add: count_of_def)
  with retention_counts_actors [OF w _ counts, of ?k] show ?thesis
    unfolding acts by (simp add: no_user_day_def Let_def split: if_splits)
qed

section \<open>The rows\<close>

text \<open>What a query prints of the counts: \<open>ratio\<close> is the quotient as text.\<close>

definition ratio_text :: "(nat \<Rightarrow> nat \<Rightarrow> string) \<Rightarrow> nat \<Rightarrow> nat \<Rightarrow> string" where
  "ratio_text show_ratio n d = (if d = 0 then ''0'' else show_ratio n d)"

definition grid_rows :: "(nat \<Rightarrow> nat \<Rightarrow> string) \<Rightarrow> string \<Rightarrow> (ret_key \<times> nat) list \<Rightarrow> string list list" where
  "grid_rows show_ratio who counts =
     (let keys = filter (\<lambda>k. who = [] \<or> rk_user k = (who = ''user'')) (map fst counts)
      in map (\<lambda>k. let size_of = count_of counts (k\<lparr>rk_offset := 0\<rparr>); n = count_of counts k
           in [format_day (rk_cohort k), if rk_user k then ''user'' else ''install'', dec_nat (rk_offset k),
               dec_nat size_of, dec_nat n, ratio_text show_ratio n size_of])
         (sort_key (\<lambda>k. (- rk_cohort k, rk_user k, rk_offset k)) keys))"

record ret_curve =
  cv_sizes :: "nat list"
  cv_back :: "nat list"
  cv_reached :: "bool list"

definition reach :: "int \<Rightarrow> nat \<Rightarrow> int \<Rightarrow> nat \<Rightarrow> ret_curve \<Rightarrow> ret_curve" where
  "reach today offsets cohort n cv =
     foldl (\<lambda>cv off. cv\<lparr>cv_sizes := (cv_sizes cv)[off := cv_sizes cv ! off + n], cv_reached := (cv_reached cv)[off := True]\<rparr>) cv
       (takeWhile (\<lambda>off. cohort + int off < today) [0..<offsets + 1])"

definition curve_count :: "bool \<Rightarrow> int \<Rightarrow> nat \<Rightarrow> ret_curve \<Rightarrow> ret_key \<times> nat \<Rightarrow> ret_curve" where
  "curve_count user today offsets cv = (\<lambda>(k, n).
     if rk_user k \<noteq> user then cv
     else let cv1 = (if rk_offset k = 0 then reach today offsets (rk_cohort k) n cv else cv)
          in if rk_cohort k + int (rk_offset k) < today
             then cv1\<lparr>cv_back := (cv_back cv1)[rk_offset k := cv_back cv1 ! rk_offset k + n]\<rparr> else cv1)"

definition curve_of :: "bool \<Rightarrow> int \<Rightarrow> nat \<Rightarrow> (ret_key \<times> nat) list \<Rightarrow> ret_curve" where
  "curve_of user today offsets counts = foldl (curve_count user today offsets)
     \<lparr>cv_sizes = replicate (offsets + 1) 0, cv_back = replicate (offsets + 1) 0, cv_reached = replicate (offsets + 1) False\<rparr> counts"

definition curve_rows :: "(nat \<Rightarrow> nat \<Rightarrow> string) \<Rightarrow> ret_curve \<Rightarrow> string list list" where
  "curve_rows show_ratio cv = map (\<lambda>off. [dec_nat off, ratio_text show_ratio (cv_back cv ! off) (cv_sizes cv ! off)])
     (filter (\<lambda>off. cv_reached cv ! off) [0..<length (cv_reached cv)])"

definition milestone_row :: "(nat \<Rightarrow> nat \<Rightarrow> string) \<Rightarrow> nat list \<Rightarrow> ret_curve \<Rightarrow> string list" where
  "milestone_row show_ratio milestones cv =
     map (\<lambda>m. if cv_reached cv ! m then ratio_text show_ratio (cv_back cv ! m) (cv_sizes cv ! m) else []) milestones"

definition retention_rows :: "(nat \<Rightarrow> nat \<Rightarrow> string) \<Rightarrow> string \<Rightarrow> string \<Rightarrow> nat list \<Rightarrow> int \<Rightarrow> nat \<Rightarrow> (ret_key \<times> nat) list \<Rightarrow> string list list" where
  "retention_rows show_ratio output who milestones today offsets counts =
     (if output = ''grid'' then grid_rows show_ratio who counts
      else let cv = curve_of (who = ''user'') today offsets counts
           in if output = ''curve'' then curve_rows show_ratio cv else [milestone_row show_ratio milestones cv])"

text \<open>The curve pools, at each offset, the cohorts that reached it before today.\<close>

lemma nth_list_add: "x < length xs \<Longrightarrow> xs[y := xs ! y + n] ! x = (xs ! x + (if x = y then n else 0) :: nat)"
  by (cases "y < length xs") (auto simp: nth_list_update)

lemma reach_at:
  assumes "length (cv_sizes cv) = offsets + 1" "length (cv_reached cv) = offsets + 1" "x \<le> offsets"
  shows "cv_sizes (reach today offsets cohort n cv) ! x = cv_sizes cv ! x + (if cohort + int x < today then n else 0)"
    and "cv_reached (reach today offsets cohort n cv) ! x \<longleftrightarrow> cv_reached cv ! x \<or> cohort + int x < today"
    and "cv_back (reach today offsets cohort n cv) = cv_back cv"
    and "length (cv_sizes (reach today offsets cohort n cv)) = offsets + 1"
    and "length (cv_reached (reach today offsets cohort n cv)) = offsets + 1"
proof -
  let ?step = "\<lambda>cv off. cv\<lparr>cv_sizes := (cv_sizes cv)[off := cv_sizes cv ! off + n], cv_reached := (cv_reached cv)[off := True]\<rparr>"
  have fold: "distinct offs \<Longrightarrow> length (cv_sizes cv) = offsets + 1 \<Longrightarrow> length (cv_reached cv) = offsets + 1 \<Longrightarrow>
      cv_sizes (foldl ?step cv offs) ! x = cv_sizes cv ! x + (if x \<in> set offs then n else 0)
      \<and> (cv_reached (foldl ?step cv offs) ! x \<longleftrightarrow> cv_reached cv ! x \<or> x \<in> set offs)
      \<and> cv_back (foldl ?step cv offs) = cv_back cv
      \<and> length (cv_sizes (foldl ?step cv offs)) = offsets + 1 \<and> length (cv_reached (foldl ?step cv offs)) = offsets + 1" for offs and cv :: ret_curve
  proof (induction offs arbitrary: cv)
    case (Cons y offs)
    have "x < length (cv_sizes cv)" "x < length (cv_reached cv)" using Cons.prems assms(3) by simp_all
    with Cons.IH [of "?step cv y"] Cons.prems show ?case
      by (auto simp: nth_list_add nth_list_update)
  qed simp
  have reached: "x \<in> set (takeWhile (\<lambda>off. cohort + int off < today) [0..<offsets + 1]) \<longleftrightarrow> cohort + int x < today"
  proof
    assume before: "cohort + int x < today"
    have "x \<in> set (takeWhile (\<lambda>off. cohort + int off < today) ([0..<x + 1] @ [x + 1..<offsets + 1]))"
      using before by (subst takeWhile_append2) auto
    moreover have "[0..<x + 1] @ [x + 1..<offsets + 1] = [0..<offsets + 1]"
      using assms(3) upt_add_eq_append [of 0 "x + 1" "offsets - x"] by simp
    ultimately show "x \<in> set (takeWhile (\<lambda>off. cohort + int off < today) [0..<offsets + 1])" by simp
  qed (auto dest: set_takeWhileD)
  have "distinct (takeWhile (\<lambda>off. cohort + int off < today) [0..<offsets + 1])" by (rule distinct_takeWhile) simp
  from fold [OF this assms(1,2)] reached
  show "cv_sizes (reach today offsets cohort n cv) ! x = cv_sizes cv ! x + (if cohort + int x < today then n else 0)"
    and "cv_reached (reach today offsets cohort n cv) ! x \<longleftrightarrow> cv_reached cv ! x \<or> cohort + int x < today"
    and "cv_back (reach today offsets cohort n cv) = cv_back cv"
    and "length (cv_sizes (reach today offsets cohort n cv)) = offsets + 1"
    and "length (cv_reached (reach today offsets cohort n cv)) = offsets + 1"
    unfolding reach_def by simp_all
qed

definition kind_counts :: "bool \<Rightarrow> nat \<Rightarrow> int \<Rightarrow> nat \<Rightarrow> (ret_key \<times> nat) list \<Rightarrow> (ret_key \<times> nat) list" where
  "kind_counts user off today x counts =
     filter (\<lambda>(k, n). rk_user k = user \<and> rk_offset k = off \<and> rk_cohort k + int x < today) counts"

lemma curve_of_at:
  assumes "x \<le> offsets"
  shows "cv_sizes (curve_of user today offsets counts) ! x = sum_list (map snd (kind_counts user 0 today x counts))
    \<and> cv_back (curve_of user today offsets counts) ! x = sum_list (map snd (kind_counts user x today x counts))
    \<and> (cv_reached (curve_of user today offsets counts) ! x \<longleftrightarrow> kind_counts user 0 today x counts \<noteq> [])"
proof -
  define sized where "sized cv \<longleftrightarrow> length (cv_sizes cv) = offsets + 1 \<and> length (cv_back cv) = offsets + 1 \<and> length (cv_reached cv) = offsets + 1" for cv :: ret_curve
  define holds where "holds cv s b r \<longleftrightarrow> cv_sizes cv ! x = s \<and> cv_back cv ! x = b \<and> (cv_reached cv ! x \<longleftrightarrow> r)" for cv :: ret_curve and s b r
  have one: "sized (curve_count user today offsets cv (k, n)) \<and> holds (curve_count user today offsets cv (k, n))
      (cv_sizes cv ! x + (if rk_user k = user \<and> rk_offset k = 0 \<and> rk_cohort k + int x < today then n else 0))
      (cv_back cv ! x + (if rk_user k = user \<and> rk_offset k = x \<and> rk_cohort k + int x < today then n else 0))
      (cv_reached cv ! x \<or> rk_user k = user \<and> rk_offset k = 0 \<and> rk_cohort k + int x < today)" if "sized cv" for cv k n
  proof -
    have lens: "length (cv_sizes cv) = offsets + 1" "length (cv_reached cv) = offsets + 1" "length (cv_back cv) = offsets + 1"
      using that by (simp_all add: sized_def)
    show ?thesis using assms lens(3)
      by (auto simp: curve_count_def Let_def sized_def holds_def lens reach_at [OF lens(1,2) assms] nth_list_add)
  qed
  have "sized cv \<Longrightarrow> holds (foldl (curve_count user today offsets) cv counts)
      (cv_sizes cv ! x + sum_list (map snd (kind_counts user 0 today x counts)))
      (cv_back cv ! x + sum_list (map snd (kind_counts user x today x counts)))
      (cv_reached cv ! x \<or> kind_counts user 0 today x counts \<noteq> [])" for cv
  proof (induction counts arbitrary: cv)
    case (Cons e counts)
    obtain k n where e: "e = (k, n)" by fastforce
    from one [OF Cons.prems, of k n] Cons.IH [of "curve_count user today offsets cv (k, n)"] show ?case
      unfolding holds_def e by (auto simp: kind_counts_def)
  qed (simp add: holds_def kind_counts_def)
  from this [of "\<lparr>cv_sizes = replicate (offsets + 1) 0, cv_back = replicate (offsets + 1) 0, cv_reached = replicate (offsets + 1) False\<rparr>"] assms
  show ?thesis unfolding curve_of_def by (simp add: sized_def holds_def del: replicate_Suc)
qed

end
