(* ===== verification/QueryValidate.thy ===== *)
theory QueryValidate
  imports Funnel
begin

text \<open>
  What a query may say (\<^verbatim>\<open>internal/native/query.go\<close>, \<^verbatim>\<open>validate.go\<close>, and the validations of
  \<^verbatim>\<open>define.go\<close>, \<^verbatim>\<open>shape.go\<close>, \<^verbatim>\<open>ever.go\<close>, \<^verbatim>\<open>funnel.go\<close> and \<^verbatim>\<open>paths.go\<close>), and the columns its answer has. A
  refusal is the path of the field it names; the rest of its message is left out. A number of a
  query is a mathematical integer, a percentile's q a real; \<open>show\<close> is \<^verbatim>\<open>strconv.FormatFloat\<close> of it.
\<close>

section \<open>Refusals\<close>

text \<open>\<^const>\<open>None\<close> accepts; the first refusal of a list of checks stands.\<close>

definition refuse :: "bool \<Rightarrow> string \<Rightarrow> string option" where
  "refuse c p = (if c then Some p else None)"

fun first_refusal :: "string option list \<Rightarrow> string option" where
  "first_refusal [] = None"
| "first_refusal (r # rs) = (case r of Some p \<Rightarrow> Some p | None \<Rightarrow> first_refusal rs)"

definition each_at :: "(nat \<Rightarrow> 'a \<Rightarrow> string option) \<Rightarrow> 'a list \<Rightarrow> string option" where
  "each_at f xs = first_refusal (map (\<lambda>i. f i (xs ! i)) [0..<length xs])"

lemma refuse_None [simp]: "refuse c p = None \<longleftrightarrow> \<not> c"
  by (simp add: refuse_def)

lemma first_refusal_None: "first_refusal rs = None \<longleftrightarrow> (\<forall>r \<in> set rs. r = None)"
  by (induction rs) (auto split: option.splits)

lemma first_refusal_Cons [simp]: "first_refusal (r # rs) = None \<longleftrightarrow> r = None \<and> first_refusal rs = None"
  by (cases r) auto

declare first_refusal.simps(2) [simp del]

lemma each_at_None [simp]: "each_at f xs = None \<longleftrightarrow> (\<forall>i < length xs. f i (xs ! i) = None)"
  by (auto simp: each_at_def first_refusal_None simp del: first_refusal_Cons)

section \<open>A query\<close>

datatype metric = Metric (m_op: string) (m_q: real) (m_column: string) (m_of: string) (m_as: string) (m_round: "int option")
  (m_where: "raw_filter list") (m_num: "metric option") (m_den: "metric option")

record def_case =
  dc_label :: string
  dc_where :: "raw_filter list"

record define_column =
  df_name :: string
  df_cases :: "def_case list"
  df_else :: string

record query =
  q_kind :: string
  q_table :: string
  q_metrics :: "metric list"
  q_where :: "raw_filter list"
  q_dims :: "string list"
  q_series :: string
  q_fill :: string
  q_define :: "define_column list"
  q_shape :: string
  q_interval :: string
  q_series_limit :: int
  q_compare :: string
  q_limit :: int
  q_other :: bool
  q_order :: string
  q_steps :: "step list"
  q_by :: string
  q_sequence :: bool
  q_depth :: int
  q_output :: string
  q_identified_by :: string
  q_offsets :: int
  q_milestones :: "int list"
  q_reserved :: bool
  q_keep :: "string list"

definition query_offsets :: "query \<Rightarrow> int" where
  "query_offsets q = (if q_offsets q = 0 then 45 else q_offsets q)"

definition default_milestones :: "int list" where "default_milestones = [7, 30, 45]"

definition query_milestones :: "query \<Rightarrow> int list" where
  "query_milestones q = (if q_milestones q = [] then default_milestones else q_milestones q)"

definition kinds :: "string list" where
  "kinds = [''stat'', ''trend'', ''breakdown'', ''retention'', ''attributes'', ''funnel'', ''paths'']"
definition retention_outputs :: "string list" where "retention_outputs = [''grid'', ''curve'', ''milestones'']"
definition identified_by :: "string list" where "identified_by = [''install'', ''user'']"
definition attribute_outputs :: "string list" where "attribute_outputs = [''values'', ''keys'']"
definition attribute_tables :: "string list" where "attribute_tables = [''product'', ''measures'', ''checks'']"
definition attribute_dimensions :: "string list" where "attribute_dimensions = [''day'', ''event_name'']"
definition attribute_ops :: "string list" where
  "attribute_ops = [''count'', ''actors'', ''users'', ''groups'', ''actors_or_null'']"
definition tables :: "string list" where
  "tables = [''events'', ''views'', ''product'', ''measures'', ''checks'', ''sessions'', ''identities'']"
definition metric_ops :: "string list" where
  "metric_ops = [''count'', ''actors'', ''users'', ''groups'', ''sum'', ''avg'', ''min'', ''max'', ''daily_sum'',
     ''daily_max'', ''daily_avg'', ''days'', ''bounces'', ''bounce_rate'', ''percentile'', ''mean'', ''weight'', ''share'', ''ratio'',
     ''actors_or_null'', ''latest'']"
definition value_columns :: "string list" where "value_columns = [''value'', ''sample_rate'', ''display_width'', ''display_height'']"
definition session_values :: "string list" where "session_values = [''duration_sec'', ''views'']"
definition identity_values :: "string list" where "identity_values = [''views'', ''events'']"
definition bound_columns :: "string list" where "bound_columns = [''day'', ''ts'', ''received_at'']"
definition session_bounds :: "string list" where "session_bounds = [''day'', ''started_at'', ''ended_at'']"
definition of_columns :: "string list" where "of_columns = [''actors'', ''users'', ''groups'']"
definition share_of_columns :: "string list" where "share_of_columns = [''count'', ''weight'']"
definition filter_ops :: "string list" where
  "filter_ops = [''eq'', ''ne'', ''in'', ''not_in'', ''contains'', ''prefix'', ''not_prefix'', ''gt'', ''gte'', ''lt'', ''lte'',
     ''is_set'', ''any_set'', ''any_of'', ''ever'', ''never'']"
definition ordered_ops :: "string list" where "ordered_ops = [''gt'', ''gte'', ''lt'', ''lte'']"
definition identity_ops :: "string list" where
  "identity_ops = [''count'', ''share'', ''ratio'', ''sum'', ''avg'', ''min'', ''max'']"
definition session_ops :: "string list" where
  "session_ops = [''count'', ''actors'', ''share'', ''ratio'', ''sum'', ''avg'', ''min'', ''max'', ''bounces'', ''bounce_rate'']"
definition bounce_ops :: "string list" where "bounce_ops = [''bounces'', ''bounce_rate'']"
definition measure_ops :: "string list" where "measure_ops = [''percentile'', ''mean'', ''weight'']"
definition daily_ops :: "string list" where "daily_ops = [''daily_sum'', ''daily_max'', ''daily_avg'', ''days'']"
definition ever_by :: "string list" where "ever_by = [''actor'', ''user'', ''group'']"
definition ever_over :: "string list" where "ever_over = [''all'', ''range'']"

section \<open>The columns of an answer\<close>

text \<open>100 times a percentile's q, as text.\<close>

definition percent :: "(real \<Rightarrow> string) \<Rightarrow> real \<Rightarrow> string" where
  "percent show q = (case cut_prefix (show q) ''0.'' of
     None \<Rightarrow> show (q * 100)
   | Some s \<Rightarrow>
       let frac = s @ replicate (2 - length s) CHR ''0''; w = dropWhile (\<lambda>c. c = CHR ''0'') (take 2 frac);
           whole = (if w = [] then ''0'' else w); rest = drop 2 frac
       in if rest \<noteq> [] then whole @ ''.'' @ rest else whole)"

definition metric_name :: "(real \<Rightarrow> string) \<Rightarrow> metric \<Rightarrow> string" where
  "metric_name show m =
     (if m_as m \<noteq> [] then m_as m
      else if m_column m \<noteq> [] then m_op m @ ''_'' @ m_column m
      else if m_of m \<noteq> [] then m_op m @ ''_'' @ m_of m
      else if m_op m = ''percentile'' then ''p'' @ percent show (m_q m)
      else m_op m)"

text \<open>A value's form, by its column: day, time or number.\<close>

definition value_type :: "metric \<Rightarrow> string" where
  "value_type m =
     (if m_op m = ''latest'' then column_type (m_column m)
      else if m_column m = ''day'' then ''day''
      else if m_column m \<in> {''ts'', ''received_at'', ''started_at'', ''ended_at''} then ''text''
      else ''number'')"

definition long_trend :: "query \<Rightarrow> bool" where
  "long_trend q \<longleftrightarrow> q_kind q = ''trend'' \<and> length (q_metrics q) > 1"

definition bucketed :: "query \<Rightarrow> bool" where
  "bucketed q \<longleftrightarrow> q_kind q = ''trend'' \<and> q_interval q \<in> {''week'', ''month''}"

definition long_shape :: "query \<Rightarrow> bool" where
  "long_shape q \<longleftrightarrow> q_shape q = ''long''"

text \<open>What the metrics, or a long answer's, add after the first columns.\<close>

definition metric_outputs :: "(real \<Rightarrow> string) \<Rightarrow> query \<Rightarrow> (string \<times> string) list" where
  "metric_outputs show q =
     (if long_shape q then (''metric'', ''text'') # (''value'', ''number'') #
        (if q_compare q = ''previous'' then [(''previous_value'', ''number'')] else [])
      else map (\<lambda>m. (metric_name show m, value_type m)) (q_metrics q)
        @ (if q_kind q = ''stat'' \<and> q_compare q = ''previous''
           then map (\<lambda>m. (''previous_'' @ metric_name show m, value_type m)) (q_metrics q) else []))"

definition outputs :: "(real \<Rightarrow> string) \<Rightarrow> query \<Rightarrow> (string \<times> string) list" where
  "outputs show q =
     (let k = q_kind q in
      if k = ''paths'' then [(''source'', ''text''), (''target'', ''text''), (''value'', ''number'')]
      else if k = ''funnel'' then [(''step'', ''text''), (''value'', ''number'')]
      else if k = ''retention'' then
        (if q_output q = ''grid'' then [(''cohort'', ''day''), (''identified_by'', ''text''), (''offset'', ''number''),
             (''size'', ''number''), (''returned'', ''number''), (''retention'', ''number'')]
         else if q_output q = ''curve'' then [(''offset'', ''number''), (''retention'', ''number'')]
         else map (\<lambda>m. (''d'' @ dec_int m, ''number'')) (query_milestones q))
      else if k = ''trend'' then
        (if long_trend q then [(''day'', ''day''), (''series'', ''text''), (''value'', ''number'')]
         else (''day'', ''day'') # (if q_series q \<noteq> [] then [(''series'', ''text'')] else []) @ metric_outputs show q)
      else if k = ''attributes'' then
        (if q_output q = ''keys'' then [(''attribute'', ''text''), (''events'', ''number''), (''values'', ''number''), (''keys_total'', ''number'')]
         else map (\<lambda>d. (d, column_type d)) (q_dims q) @ [(''attribute'', ''text''), (''value'', ''text'')] @ metric_outputs show q)
      else if k = ''breakdown'' then
        map (\<lambda>d. (d, if q_other q then ''text'' else column_type d)) (q_dims q) @ metric_outputs show q
      else metric_outputs show q)"

definition answer_columns :: "(real \<Rightarrow> string) \<Rightarrow> query \<Rightarrow> string list" where
  "answer_columns show q = map fst (outputs show q)"

definition answer_types :: "(real \<Rightarrow> string) \<Rightarrow> query \<Rightarrow> string list" where
  "answer_types show q = map snd (outputs show q)"

section \<open>Filters\<close>

definition is_defined :: "string \<Rightarrow> bool" where
  "is_defined c \<longleftrightarrow> has_prefix c ''def_''"

fun names_defined :: "raw_filter \<Rightarrow> string option" and any_defined :: "raw_filter list \<Rightarrow> string option" where
  "names_defined (RawFilter column op vs columns any inner who over) =
     (if is_defined column then Some column
      else case find is_defined columns of Some c \<Rightarrow> Some c | None \<Rightarrow> any_defined any)"
| "any_defined [] = None"
| "any_defined (f # fs) = (case names_defined f of Some c \<Rightarrow> Some c | None \<Rightarrow> any_defined fs)"

text \<open>A filter on one column, \<open>any_set\<close>, and the bounds of \<open>any_of\<close> and of \<open>ever\<close>.\<close>

definition valid_plain :: "string \<Rightarrow> string \<Rightarrow> raw_filter \<Rightarrow> string option" where
  "valid_plain table p f =
     (let c = rf_column f; op = rf_op f; vs = rf_values f; n = length vs; info = column_info table c in
      first_refusal
       [refuse (\<not> snd info) (p @ ''.column''),
        refuse (op \<notin> set filter_ops) (p @ ''.op''),
        refuse (if op = ''is_set'' then n \<noteq> 0 else if op \<in> {''in'', ''not_in''} then n < 1 else n \<noteq> 1) (p @ ''.values''),
        (if op \<in> set ordered_ops then first_refusal
           [refuse (\<not> fst info) (p @ ''.op''),
            refuse (if type_of c = TypeDay then parse_day (vs ! 0) = None else parse_int (vs ! 0) = None) (p @ ''.values'')]
         else None)])"

definition valid_any_set :: "string \<Rightarrow> string \<Rightarrow> raw_filter \<Rightarrow> string option" where
  "valid_any_set table p f =
     (let n = length (rf_columns f) in first_refusal
       [refuse (rf_column f \<noteq> []) (p @ ''.column''),
        refuse (n < 2 \<or> n > 5) (p @ ''.columns''),
        refuse (rf_values f \<noteq> []) (p @ ''.values''),
        each_at (\<lambda>j c. refuse (\<not> snd (column_info table c)) (at_index (p @ ''.columns'') j [])) (rf_columns f)])"

definition valid_any_shape :: "string \<Rightarrow> raw_filter \<Rightarrow> string option" where
  "valid_any_shape p f =
     (let n = length (rf_any f) in first_refusal
       [refuse (rf_column f \<noteq> []) (p @ ''.column''), refuse (rf_columns f \<noteq> []) (p @ ''.columns''),
        refuse (rf_values f \<noteq> []) (p @ ''.values''), refuse (n < 2 \<or> n > 10) (p @ ''.any'')])"

definition valid_ever_shape :: "string \<Rightarrow> string \<Rightarrow> raw_filter \<Rightarrow> string option" where
  "valid_ever_shape table p f =
     (let n = length (rf_where f) in first_refusal
       [refuse (rf_column f \<noteq> []) (p @ ''.column''), refuse (rf_columns f \<noteq> [] \<or> rf_any f \<noteq> []) (p @ ''.where''),
        refuse (rf_values f \<noteq> []) (p @ ''.values''), refuse (n < 1 \<or> n > 10) (p @ ''.where''),
        refuse (rf_by f \<noteq> [] \<and> rf_by f \<notin> set ever_by) (p @ ''.by''), refuse (rf_over f \<noteq> [] \<and> rf_over f \<notin> set ever_over) (p @ ''.over''),
        refuse (table = ''identities'') (p @ ''.op''), refuse (table = ''sessions'' \<and> rf_by f \<noteq> [] \<and> rf_by f \<noteq> ''actor'') (p @ ''.by'')])"

fun valid_filter :: "string \<Rightarrow> string \<Rightarrow> raw_filter \<Rightarrow> string option"
and valid_any :: "string \<Rightarrow> string \<Rightarrow> nat \<Rightarrow> raw_filter list \<Rightarrow> string option"
and valid_inner :: "string \<Rightarrow> nat \<Rightarrow> raw_filter list \<Rightarrow> string option" where
  "valid_filter table p (RawFilter column op vs cols any inner who over) =
     (let f = RawFilter column op vs cols any inner who over in
      if op = ''ever'' \<or> op = ''never'' then
        (case valid_ever_shape table p f of Some e \<Rightarrow> Some e | None \<Rightarrow> valid_inner p 0 inner)
      else if inner \<noteq> [] \<or> who \<noteq> [] \<or> over \<noteq> [] then Some (p @ ''.where'')
      else if op = ''any_of'' then (case valid_any_shape p f of Some e \<Rightarrow> Some e | None \<Rightarrow> valid_any table p 0 any)
      else if any \<noteq> [] then Some (p @ ''.any'')
      else if op = ''any_set'' then valid_any_set table p f
      else if cols \<noteq> [] then Some (p @ ''.columns'')
      else valid_plain table p f)"
| "valid_any table p j [] = None"
| "valid_any table p j (g # gs) =
     (let here = at_index (p @ ''.any'') j [] in
      if rf_op g \<in> {''any_of'', ''ever'', ''never''} then Some (here @ ''.op'')
      else case valid_filter table here g of Some e \<Rightarrow> Some e | None \<Rightarrow> valid_any table p (j + 1) gs)"
| "valid_inner p j [] = None"
| "valid_inner p j (g # gs) =
     (let here = at_index (p @ ''.where'') j [] in
      if rf_op g \<in> {''ever'', ''never''} then Some (here @ ''.op'')
      else if names_defined g \<noteq> None then Some here
      else case valid_filter ''events'' here g of Some e \<Rightarrow> Some e | None \<Rightarrow> valid_inner p (j + 1) gs)"

definition valid_where :: "string \<Rightarrow> string \<Rightarrow> raw_filter list \<Rightarrow> string option" where
  "valid_where table p fs = each_at (\<lambda>i f. valid_filter table (at_index p i []) f) fs"

section \<open>Metrics\<close>

fun not_daily :: "string \<Rightarrow> metric \<Rightarrow> string option" where
  "not_daily p (Metric op x column ofs named rnd wh num den) =
     (if op \<in> set daily_ops then Some (p @ ''.op'')
      else case (case num of Some n \<Rightarrow> not_daily (p @ ''.num'') n | None \<Rightarrow> None) of
        Some e \<Rightarrow> Some e
      | None \<Rightarrow> (case den of Some d \<Rightarrow> not_daily (p @ ''.den'') d | None \<Rightarrow> None))"

text \<open>What an op takes of column and of.\<close>

definition valid_column :: "string \<Rightarrow> string \<Rightarrow> string \<Rightarrow> bool \<Rightarrow> metric \<Rightarrow> string option" where
  "valid_column kind table p side m =
     (let op = m_op m; c = m_column m; ofs = m_of m in
      if op = ''latest'' then first_refusal
        [refuse side (p @ ''.op''), refuse (kind = ''attributes'') (p @ ''.op''), refuse (c = []) (p @ ''.column''),
         refuse (ofs \<noteq> []) (p @ ''.of''), refuse (map_of id_columns c \<noteq> None) (p @ ''.column''),
         refuse ((\<not> snd (column_info table c) \<and> c \<noteq> ''value'') \<or> c = ''bucket'') (p @ ''.column'')]
      else if op \<in> {''sum'', ''avg'', ''min'', ''max''} then
        (let others = (table \<noteq> ''sessions'' \<and> table \<noteq> ''identities'');
             bound = (op \<in> {''min'', ''max''} \<and> (table = ''sessions'' \<and> c \<in> set session_bounds \<or> others \<and> c \<in> set bound_columns))
         in first_refusal
           [refuse (c = []) (p @ ''.column''), refuse (bound \<and> side) (p @ ''.column''),
            refuse (\<not> bound \<and> table = ''sessions'' \<and> c \<notin> set session_values) (p @ ''.column''),
            refuse (\<not> bound \<and> table = ''identities'' \<and> c \<notin> set identity_values) (p @ ''.column''),
            refuse (\<not> bound \<and> others \<and> c \<notin> set value_columns) (p @ ''.column''), refuse (ofs \<noteq> []) (p @ ''.of'')])
      else if op = ''share'' then first_refusal
        [refuse (kind = ''stat'') (p @ ''.op''), refuse (ofs \<notin> set share_of_columns) (p @ ''.of''),
         refuse (ofs = ''weight'' \<and> table \<noteq> ''measures'') (p @ ''.of''), refuse (c \<noteq> []) (p @ ''.column'')]
      else if op \<in> {''daily_sum'', ''daily_max'', ''daily_avg''} then first_refusal
        [refuse (ofs = []) (p @ ''.of''), refuse (ofs \<notin> set of_columns) (p @ ''.of''), refuse (c \<noteq> []) (p @ ''.column'')]
      else first_refusal [refuse (c \<noteq> []) (p @ ''.column''), refuse (ofs \<noteq> []) (p @ ''.of'')])"

text \<open>The checks of a metric before its column, those of its ratio aside.\<close>

definition valid_op :: "string \<Rightarrow> string \<Rightarrow> string \<Rightarrow> metric \<Rightarrow> string option" where
  "valid_op kind table p m =
     (let op = m_op m in first_refusal
       [refuse (op = ''actors_or_null'' \<and> kind \<noteq> ''attributes'') (p @ ''.op''),
        refuse (table = ''sessions'' \<and> op \<notin> set session_ops) (p @ ''.op''),
        refuse (table = ''identities'' \<and> op \<notin> set identity_ops) (p @ ''.op''),
        refuse (table \<noteq> ''sessions'' \<and> op \<in> set bounce_ops) (p @ ''.op''),
        refuse (table \<noteq> ''measures'' \<and> op \<in> set measure_ops) (p @ ''.op''),
        refuse (op = ''percentile'' \<and> \<not> (m_q m > 0 \<and> m_q m < 1)) (p @ ''.q''),
        refuse (op \<noteq> ''percentile'' \<and> m_q m \<noteq> 0) (p @ ''.q''),
        (case m_round m of Some r \<Rightarrow> refuse (r < 0 \<or> r > 6) (p @ ''.round'') | None \<Rightarrow> None),
        each_at (\<lambda>j f. valid_filter table (at_index (p @ ''.where'') j []) f) (m_where m)])"

definition valid_side_shape :: "string \<Rightarrow> metric \<Rightarrow> string option" where
  "valid_side_shape sp s = first_refusal
     [refuse (m_op s = ''ratio'' \<or> m_op s = ''share'') (sp @ ''.op''), refuse (m_as s \<noteq> []) (sp @ ''.as''),
      refuse (m_round s \<noteq> None) (sp @ ''.round'')]"

fun valid_at :: "string \<Rightarrow> string \<Rightarrow> string \<Rightarrow> bool \<Rightarrow> metric \<Rightarrow> string option"
and valid_side :: "string \<Rightarrow> string \<Rightarrow> string \<Rightarrow> metric option \<Rightarrow> string option" where
  "valid_at kind table p side (Metric op x column ofs named rnd wh num den) =
     (let m = Metric op x column ofs named rnd wh num den in
      if op \<notin> set metric_ops then Some (p @ ''.op'')
      else case (if op = ''ratio'' then
               (if wh \<noteq> [] then Some (p @ ''.where'')
                else case valid_side kind table (p @ ''.num'') num of Some e \<Rightarrow> Some e
                  | None \<Rightarrow> valid_side kind table (p @ ''.den'') den)
             else refuse (num \<noteq> None \<or> den \<noteq> None) (p @ (if num = None then ''.den'' else ''.num''))) of
        Some e \<Rightarrow> Some e
      | None \<Rightarrow> first_refusal [valid_op kind table p m, valid_column kind table p side m])"
| "valid_side kind table sp None = Some sp"
| "valid_side kind table sp (Some s) =
     (case valid_side_shape sp s of Some e \<Rightarrow> Some e | None \<Rightarrow> valid_at kind table sp True s)"

definition valid_metric :: "string \<Rightarrow> string \<Rightarrow> nat \<Rightarrow> metric \<Rightarrow> string option" where
  "valid_metric kind table i m = valid_at kind table (at_index ''metrics'' i []) False m"

section \<open>Defined columns\<close>

definition is_lower :: "char \<Rightarrow> bool" where
  "is_lower c \<longleftrightarrow> 97 \<le> (of_char c :: int) \<and> (of_char c :: int) \<le> 122"

definition def_name :: "string \<Rightarrow> bool" where
  "def_name s = (case cut_prefix s ''def_'' of
     Some (c # cs) \<Rightarrow> is_lower c \<and> length cs \<le> 39 \<and> list_all (\<lambda>x. is_lower x \<or> is_digit x \<or> x = CHR ''_'') cs | _ \<Rightarrow> False)"

definition used :: "string list \<Rightarrow> string \<Rightarrow> string \<Rightarrow> string option" where
  "used names c p = refuse (is_defined c \<and> c \<notin> set names) p"

fun used_in :: "string list \<Rightarrow> string \<Rightarrow> nat \<Rightarrow> raw_filter list \<Rightarrow> string option" where
  "used_in names p i [] = None"
| "used_in names p i (RawFilter column op vs cols any inner who over # fs) =
     (let fp = at_index p i [] in
      case first_refusal [used names column (fp @ ''.column''), each_at (\<lambda>j c. used names c (at_index (fp @ ''.columns'') j [])) cols] of
        Some e \<Rightarrow> Some e
      | None \<Rightarrow> (case used_in names (fp @ ''.any'') 0 any of Some e \<Rightarrow> Some e | None \<Rightarrow> used_in names p (i + 1) fs))"

text \<open>
  A metric's sides are ranged over as a Go map, in either order: \<open>den_first\<close> says, for the metric at
  each path, whether its denominator came first.
\<close>

fun metric_used :: "(string \<Rightarrow> bool) \<Rightarrow> string list \<Rightarrow> string \<Rightarrow> metric \<Rightarrow> string option" where
  "metric_used den_first names p (Metric op x column ofs named rnd wh num den) =
     (case first_refusal [used names column (p @ ''.column''), used_in names (p @ ''.where'') 0 wh] of
        Some e \<Rightarrow> Some e
      | None \<Rightarrow>
          (let n = (case num of Some s \<Rightarrow> metric_used den_first names (p @ ''.num'') s | None \<Rightarrow> None);
               d = (case den of Some s \<Rightarrow> metric_used den_first names (p @ ''.den'') s | None \<Rightarrow> None)
           in if den_first p then first_refusal [d, n] else first_refusal [n, d]))"

definition valid_case :: "string \<Rightarrow> string \<Rightarrow> def_case \<Rightarrow> string option" where
  "valid_case table cp c = first_refusal
     [refuse (dc_label c = []) (cp @ ''.label''), refuse (dc_where c = []) (cp @ ''.where''),
      each_at (\<lambda>k f. let fp = at_index (cp @ ''.where'') k [] in first_refusal
        [refuse (rf_op f = ''ever'' \<or> rf_op f = ''never'') (fp @ ''.op''), refuse (names_defined f \<noteq> None) fp, valid_filter table fp f])
        (dc_where c)]"

definition valid_defines :: "(string \<Rightarrow> bool) \<Rightarrow> query \<Rightarrow> string option" where
  "valid_defines den_first q =
     (let names = map df_name (q_define q) in first_refusal
       [refuse (q_define q \<noteq> [] \<and> q_kind q \<notin> {''stat'', ''trend'', ''breakdown''}) ''define'',
        refuse (length (q_define q) > 5) ''define'',
        each_at (\<lambda>i d. let p = at_index ''define'' i [] in first_refusal
          [refuse (\<not> def_name (df_name d)) (p @ ''.name''), refuse (df_name d \<in> set (take i names)) (p @ ''.name''),
           refuse (length (df_cases d) < 1 \<or> length (df_cases d) > 20) (p @ ''.cases''),
           each_at (\<lambda>j c. valid_case (q_table q) (at_index (p @ ''.cases'') j []) c) (df_cases d)]) (q_define q),
        each_at (\<lambda>i d. used names d (at_index ''dimensions'' i [])) (q_dims q),
        used names (q_series q) ''series'', used_in names ''where'' 0 (q_where q),
        each_at (\<lambda>i m. metric_used den_first names (at_index ''metrics'' i []) m) (q_metrics q)])"

section \<open>The kinds\<close>

definition valid_shape :: "query \<Rightarrow> string option" where
  "valid_shape q =
     (if q_shape q = [] then None else first_refusal
       [refuse (q_shape q \<notin> {''wide'', ''long''}) ''shape'', refuse (q_kind q \<noteq> ''stat'' \<and> q_kind q \<noteq> ''breakdown'') ''shape'',
        (if long_shape q then each_at (\<lambda>i m. refuse (value_type m \<noteq> ''number'') (at_index ''metrics'' i [])) (q_metrics q) else None)])"

definition valid_retention :: "query \<Rightarrow> string option" where
  "valid_retention q =
     (let offs = query_offsets q; ms = q_milestones q in first_refusal
       [refuse (q_table q \<noteq> [] \<and> q_table q \<noteq> ''events'') ''table'', refuse (q_metrics q \<noteq> []) ''metrics'',
        refuse (q_dims q \<noteq> []) ''dimensions'', refuse (q_series q \<noteq> []) ''series'', refuse (q_series_limit q \<noteq> 0) ''series_limit'',
        refuse (q_compare q \<noteq> []) ''compare'', refuse (q_limit q \<noteq> 0) ''limit'', refuse (q_other q) ''other'',
        refuse (q_order q \<noteq> []) ''order'', refuse (q_output q \<notin> set retention_outputs) ''output'',
        refuse (q_output q = ''grid'' \<and> q_identified_by q \<noteq> [] \<and> q_identified_by q \<notin> set identified_by) ''identified_by'',
        refuse (q_output q \<noteq> ''grid'' \<and> q_identified_by q \<notin> set identified_by) ''identified_by'',
        refuse (q_offsets q < 0 \<or> q_offsets q > 90) ''offsets'',
        refuse (q_output q \<noteq> ''milestones'' \<and> ms \<noteq> []) ''milestones'', refuse (length ms > 6) ''milestones'',
        refuse (q_output q = ''milestones'' \<and> ms = [] \<and> offs < Max (set default_milestones)) ''milestones'',
        each_at (\<lambda>i m. let p = at_index ''milestones'' i [] in first_refusal
          [refuse (m < 0 \<or> m > offs) p, refuse (m \<in> set (take i ms)) p]) ms,
        valid_where ''events'' ''where'' (q_where q)])"

definition keys_table :: "query \<Rightarrow> string" where
  "keys_table q = (if q_table q = [] then ''events'' else q_table q)"

definition keys_limit :: "query \<Rightarrow> int" where
  "keys_limit q = (if q_limit q = 0 then 50 else q_limit q)"

definition takes_none :: "query \<Rightarrow> string option" where
  "takes_none q = first_refusal
     [refuse (q_series q \<noteq> []) ''series'', refuse (q_series_limit q \<noteq> 0) ''series_limit'', refuse (q_compare q \<noteq> []) ''compare'',
      refuse (q_other q) ''other'', refuse (q_identified_by q \<noteq> []) ''identified_by'', refuse (q_offsets q \<noteq> 0) ''offsets'',
      refuse (q_milestones q \<noteq> []) ''milestones'', refuse (q_limit q < 0 \<or> q_limit q > 1000) ''limit'']"

definition valid_keys :: "query \<Rightarrow> string option" where
  "valid_keys q = first_refusal
     [refuse (keys_table q \<noteq> ''events'' \<and> keys_table q \<notin> set attribute_tables) ''table'', refuse (q_metrics q \<noteq> []) ''metrics'',
      refuse (q_dims q \<noteq> []) ''dimensions'', refuse (q_reserved q) ''reserved'', refuse (q_order q \<noteq> []) ''order'', takes_none q,
      refuse (length (q_keep q) > 1000) ''keep'', valid_where (keys_table q) ''where'' (q_where q)]"

text \<open>An attributes' dimensions come in the order of \<open>attribute_dimensions\<close>, from the \<open>bound\<close>-th on.\<close>

fun index_of :: "'a \<Rightarrow> 'a list \<Rightarrow> nat option" where
  "index_of x [] = None"
| "index_of x (y # ys) = (if x = y then Some 0 else map_option Suc (index_of x ys))"

fun ordered_dims :: "nat \<Rightarrow> nat \<Rightarrow> string list \<Rightarrow> string option" where
  "ordered_dims i bound [] = None"
| "ordered_dims i bound (d # ds) = (case index_of d attribute_dimensions of
     None \<Rightarrow> Some (at_index ''dimensions'' i [])
   | Some j \<Rightarrow> if j < bound then Some ''dimensions'' else ordered_dims (i + 1) (j + 1) ds)"

definition valid_attributes :: "(real \<Rightarrow> string) \<Rightarrow> query \<Rightarrow> string option" where
  "valid_attributes show q =
     (if q_output q = ''keys'' then valid_keys q
      else let named = map (metric_name show) (q_metrics q); names = [''attribute'', ''value''] @ q_dims q in first_refusal
       [refuse (q_table q \<notin> set attribute_tables) ''table'', refuse (q_output q \<notin> set attribute_outputs) ''output'', takes_none q,
        ordered_dims 0 0 (q_dims q), refuse (q_metrics q = []) ''metrics'',
        each_at (\<lambda>i m. let p = at_index ''metrics'' i [] in first_refusal
          [refuse (m_op m \<notin> set attribute_ops) (p @ ''.op''), refuse (m_where m \<noteq> []) (p @ ''.where''),
           valid_metric ''attributes'' (q_table q) i m,
           refuse (named ! i \<in> set (take i named) \<or> named ! i \<in> set names \<or> named ! i = ''day'') (p @ ''.as'')]) (q_metrics q),
        valid_where (q_table q) ''where'' (q_where q),
        refuse (q_order q \<noteq> [] \<and> q_order q \<notin> set named \<and> q_order q \<notin> set names) ''order''])"

definition funnel_table :: "query \<Rightarrow> string" where
  "funnel_table q = (if q_table q = [] then ''events'' else q_table q)"

definition valid_step :: "string \<Rightarrow> string list \<Rightarrow> nat \<Rightarrow> step \<Rightarrow> string option" where
  "valid_step table labels i st =
     (let p = at_index ''steps'' i [] in first_refusal
       [refuse (st_label st = []) (p @ ''.label''), refuse (st_label st \<in> set (take i labels)) (p @ ''.label''),
        refuse (st_where st = []) (p @ ''.where''),
        each_at (\<lambda>j f. let fp = at_index (p @ ''.where'') j [] in first_refusal
          [refuse (rf_op f = ''ever'' \<or> rf_op f = ''never'') (fp @ ''.op''), refuse (names_defined f \<noteq> None) fp, valid_filter table fp f])
          (st_where st)])"

definition valid_funnel :: "query \<Rightarrow> string option" where
  "valid_funnel q = first_refusal
     [refuse (q_table q \<notin> {[], ''events'', ''views'', ''product''}) ''table'', refuse (q_metrics q \<noteq> []) ''metrics'',
      refuse (q_dims q \<noteq> [] \<or> q_series q \<noteq> [] \<or> q_series_limit q \<noteq> 0 \<or> q_compare q \<noteq> [] \<or> q_limit q \<noteq> 0 \<or> q_other q \<or> q_order q \<noteq> []) ''kind'',
      refuse (q_output q \<noteq> [] \<or> q_identified_by q \<noteq> [] \<or> q_offsets q \<noteq> 0 \<or> q_milestones q \<noteq> []) ''output'',
      refuse (q_by q \<noteq> [] \<and> q_by q \<notin> set ever_by) ''by'', refuse (length (q_steps q) < 2 \<or> length (q_steps q) > 10) ''steps'',
      valid_where (funnel_table q) ''where'' (q_where q),
      each_at (valid_step (funnel_table q) (map st_label (q_steps q))) (q_steps q)]"

definition paths_table :: "query \<Rightarrow> string" where
  "paths_table q = (if q_table q = [] then ''views'' else q_table q)"

definition paths_column :: "query \<Rightarrow> string" where
  "paths_column q = (if length (q_dims q) = 1 then q_dims q ! 0 else if paths_table q = ''product'' then ''event_name'' else ''path'')"

definition valid_paths :: "query \<Rightarrow> string option" where
  "valid_paths q = first_refusal
     [refuse (q_table q \<notin> {[], ''views'', ''product''}) ''table'', refuse (q_metrics q \<noteq> []) ''metrics'',
      refuse (q_series q \<noteq> [] \<or> q_series_limit q \<noteq> 0 \<or> q_compare q \<noteq> [] \<or> q_other q \<or> q_order q \<noteq> []) ''kind'',
      refuse (q_output q \<noteq> [] \<or> q_identified_by q \<noteq> [] \<or> q_offsets q \<noteq> 0 \<or> q_milestones q \<noteq> [] \<or> q_steps q \<noteq> [] \<or> q_by q \<noteq> [] \<or> q_sequence q) ''kind'',
      refuse (length (q_dims q) > 1) ''dimensions'', refuse (q_depth q \<noteq> 0 \<and> (q_depth q < 2 \<or> q_depth q > 6)) ''depth'',
      refuse (q_limit q < 0 \<or> q_limit q > 1000) ''limit'',
      refuse (length (q_dims q) = 1 \<and> (\<not> dimension_of (paths_table q) (q_dims q ! 0) \<or> q_dims q ! 0 = ''day'' \<or> is_defined (q_dims q ! 0))) ''dimensions[0]'',
      valid_where (paths_table q) ''where'' (q_where q)]"

text \<open>A stat, a trend or a breakdown.\<close>

definition valid_aggregate :: "(real \<Rightarrow> string) \<Rightarrow> query \<Rightarrow> string option" where
  "valid_aggregate show q =
     (let k = q_kind q; t = q_table q; ds = q_dims q; ms = q_metrics q; named = map (metric_name show) ms in first_refusal
       [refuse (q_output q \<noteq> []) ''output'', refuse (q_identified_by q \<noteq> []) ''identified_by'', refuse (q_offsets q \<noteq> 0) ''offsets'',
        refuse (q_milestones q \<noteq> []) ''milestones'', refuse (t \<notin> set tables) ''table'',
        each_at (\<lambda>i d. first_refusal [refuse (\<not> dimension_of t d) (at_index ''dimensions'' i []),
          refuse (d \<in> set (take i ds)) (at_index ''dimensions'' i [])]) ds,
        (if k = ''breakdown'' then refuse (length ds < 1 \<or> length ds > 3) ''dimensions'' else refuse (ds \<noteq> []) ''dimensions''),
        refuse (k = ''trend'' \<and> q_series q \<noteq> [] \<and> length ms \<noteq> 1) ''metrics'', refuse (k = ''trend'' \<and> length ms > 5) ''metrics'',
        refuse (ms = []) ''metrics'',
        each_at (\<lambda>i m. let p = at_index ''metrics'' i [] in first_refusal
          [valid_metric k t i m, refuse (long_trend q \<and> value_type m \<noteq> ''number'') (p @ ''.column''),
           refuse (m_op m = ''share'' \<and> k = ''trend'' \<and> q_series q = []) (p @ ''.op''),
           refuse (named ! i \<in> set (take i named) \<or> named ! i \<in> set ds \<or> named ! i \<in> {''series'', ''day''}) (p @ ''.as'')]) ms,
        valid_where t ''where'' (q_where q),
        refuse (q_series q \<noteq> [] \<and> (k \<noteq> ''trend'' \<or> \<not> dimension_of t (q_series q) \<or> q_series q = ''day'')) ''series'',
        refuse (q_series_limit q < 0 \<or> q_series_limit q > 50 \<or> (q_series_limit q > 0 \<and> k \<noteq> ''trend'')) ''series_limit'',
        refuse (q_series_limit q > 0 \<and> q_series q = []) ''series_limit'',
        (if q_compare q = [] then None
         else if q_compare q = ''previous'' then first_refusal
           [refuse (k \<noteq> ''stat'') ''compare'',
            each_at (\<lambda>i m. case cut_prefix (metric_name show m) ''previous_'' of
              Some rest \<Rightarrow> refuse (rest \<in> set named) (at_index ''metrics'' i ''.as'') | None \<Rightarrow> None) ms]
         else Some ''compare''),
        refuse (q_limit q < 0 \<or> q_limit q > 1000 \<or> (q_limit q > 0 \<and> k \<noteq> ''breakdown'')) ''limit'',
        refuse (q_other q \<and> k \<noteq> ''breakdown'') ''other'',
        (if q_order q \<noteq> [] then first_refusal [refuse (k \<noteq> ''breakdown'') ''order'',
           refuse (q_order q \<notin> set named \<and> q_order q \<notin> set ds) ''order''] else None)])"

definition validate :: "(real \<Rightarrow> string) \<Rightarrow> (string \<Rightarrow> bool) \<Rightarrow> query \<Rightarrow> string option" where
  "validate show den_first q =
     (let k = q_kind q in first_refusal
       [refuse (k \<notin> set kinds) ''kind'', refuse (q_reserved q \<and> k \<noteq> ''attributes'') ''reserved'',
        refuse (q_keep q \<noteq> [] \<and> (k \<noteq> ''attributes'' \<or> q_output q \<noteq> ''keys'')) ''keep'',
        refuse (q_fill q \<noteq> [] \<and> k \<noteq> ''trend'') ''fill'', refuse (q_fill q \<noteq> [] \<and> q_fill q \<noteq> ''zero'') ''fill'',
        refuse (q_interval q \<noteq> [] \<and> k \<noteq> ''trend'') ''interval'',
        refuse (q_interval q \<noteq> [] \<and> q_interval q \<notin> {''day'', ''week'', ''month''}) ''interval'',
        (if bucketed q then each_at (\<lambda>i m. not_daily (at_index ''metrics'' i []) m) (q_metrics q) else None),
        valid_defines den_first q, valid_shape q, refuse (q_depth q \<noteq> 0 \<and> k \<noteq> ''paths'') ''depth'',
        (if k \<noteq> ''funnel'' then first_refusal
           [refuse (q_steps q \<noteq> []) ''steps'', refuse (q_by q \<noteq> []) ''by'', refuse (q_sequence q) ''sequence''] else None),
        (if k = ''retention'' then valid_retention q else if k = ''attributes'' then valid_attributes show q
         else if k = ''funnel'' then valid_funnel q else if k = ''paths'' then valid_paths q else valid_aggregate show q)])"


section \<open>An accepted query's columns\<close>

lemma distinct_take: "distinct xs \<longleftrightarrow> (\<forall>i < length xs. xs ! i \<notin> set (take i xs))"
proof (induction xs rule: rev_induct)
  case (snoc x xs)
  have "(\<forall>i < length (xs @ [x]). (xs @ [x]) ! i \<notin> set (take i (xs @ [x])))
      \<longleftrightarrow> (\<forall>i < length xs. xs ! i \<notin> set (take i xs)) \<and> x \<notin> set xs"
    by (auto simp: less_Suc_eq nth_append)
  with snoc show ?case by auto
qed simp

lemma cut_prefix_append: "cut_prefix (p @ s) p = Some s"
  by (simp add: cut_prefix_def has_prefix_def)

text \<open>What an accepted stat, trend or breakdown has of names.\<close>

lemma valid_aggregate_names:
  assumes "valid_aggregate show q = None"
  shows "distinct (map (metric_name show) (q_metrics q))" "distinct (q_dims q)"
    and "set (map (metric_name show) (q_metrics q)) \<inter> (set (q_dims q) \<union> {''series'', ''day''}) = {}"
    and "d \<in> set (q_dims q) \<Longrightarrow> dimension_of (q_table q) d" "q_table q \<in> set tables"
    and "q_kind q \<noteq> ''breakdown'' \<Longrightarrow> q_dims q = []"
    and "q_compare q = ''previous'' \<Longrightarrow> n \<in> set (map (metric_name show) (q_metrics q))
      \<Longrightarrow> ''previous_'' @ n \<notin> set (map (metric_name show) (q_metrics q))"
proof -
  let ?named = "map (metric_name show) (q_metrics q)"
  have names: "?named ! i \<notin> set (take i ?named) \<and> ?named ! i \<notin> set (q_dims q) \<union> {''series'', ''day''}" if "i < length ?named" for i
    using assms that unfolding valid_aggregate_def Let_def first_refusal_Cons each_at_None by simp
  then show "distinct ?named" unfolding distinct_take by simp
  have "\<forall>i < length ?named. ?named ! i \<notin> set (q_dims q) \<union> {''series'', ''day''}" using names by blast
  then have "\<forall>n \<in> set ?named. n \<notin> set (q_dims q) \<union> {''series'', ''day''}" unfolding all_set_conv_all_nth .
  then show "set ?named \<inter> (set (q_dims q) \<union> {''series'', ''day''}) = {}" by blast
  have dims: "dimension_of (q_table q) (q_dims q ! i) \<and> q_dims q ! i \<notin> set (take i (q_dims q))" if "i < length (q_dims q)" for i
    using assms that unfolding valid_aggregate_def Let_def first_refusal_Cons each_at_None by simp
  then show "distinct (q_dims q)" unfolding distinct_take by blast
  show "d \<in> set (q_dims q) \<Longrightarrow> dimension_of (q_table q) d" using dims by (auto simp: in_set_conv_nth)
  show "q_table q \<in> set tables"
    using assms unfolding valid_aggregate_def Let_def first_refusal_Cons refuse_None by blast
  show "q_kind q \<noteq> ''breakdown'' \<Longrightarrow> q_dims q = []"
    using assms unfolding valid_aggregate_def Let_def first_refusal_Cons by simp
  show "''previous_'' @ n \<notin> set ?named" if cmp: "q_compare q = ''previous''" and n: "n \<in> set ?named"
  proof
    assume "''previous_'' @ n \<in> set ?named"
    then obtain i where i: "i < length (q_metrics q)" "metric_name show (q_metrics q ! i) = ''previous_'' @ n"
      by (auto simp: in_set_conv_nth)
    have "(case cut_prefix (metric_name show (q_metrics q ! i)) ''previous_'' of
        Some rest \<Rightarrow> refuse (rest \<in> set ?named) (at_index ''metrics'' i ''.as'') | None \<Rightarrow> None) = None"
      using assms cmp i(1) unfolding valid_aggregate_def Let_def first_refusal_Cons each_at_None by simp
    then show False unfolding i(2) cut_prefix_append using n by simp
  qed
qed

lemma valid_attributes_names:
  assumes "valid_attributes show q = None" "q_output q \<noteq> ''keys''"
  shows "distinct (q_dims q @ [''attribute'', ''value''] @ map (metric_name show) (q_metrics q))"
proof -
  let ?named = "map (metric_name show) (q_metrics q)"
  have names: "?named ! i \<notin> set (take i ?named) \<and> ?named ! i \<notin> {''attribute'', ''value''} \<union> set (q_dims q)" if "i < length ?named" for i
    using assms that unfolding valid_attributes_def Let_def by (simp add: each_at_None)
  have "distinct ?named" unfolding distinct_take using names by blast
  moreover have "\<forall>n \<in> set ?named. n \<notin> {''attribute'', ''value''} \<union> set (q_dims q)"
    unfolding all_set_conv_all_nth using names by blast
  moreover have ordered: "ordered_dims 0 0 (q_dims q) = None"
    using assms unfolding valid_attributes_def Let_def by simp
  have "ordered_dims i k ds = None \<Longrightarrow> distinct ds \<and> (\<forall>d \<in> set ds. \<exists>j \<ge> k. index_of d attribute_dimensions = Some j)" for i k ds
  proof (induction ds arbitrary: i k)
    case (Cons d ds)
    then obtain j where j: "index_of d attribute_dimensions = Some j" "k \<le> j" "ordered_dims (i + 1) (j + 1) ds = None"
      by (auto split: option.splits if_splits)
    from Cons.IH [OF j(3)] j show ?case by (auto intro: le_trans)
  qed simp
  from this [OF ordered] have "distinct (q_dims q)" "set (q_dims q) \<subseteq> {''day'', ''event_name''}"
    by (auto simp: attribute_dimensions_def split: if_splits)
  ultimately show ?thesis by auto
qed

lemma dims_not_value:
  assumes "t \<in> set tables" "dimension_of t d"
  shows "d \<notin> {''metric'', ''value'', ''previous_value''}"
proof
  assume "d \<in> {''metric'', ''value'', ''previous_value''}"
  moreover have "\<forall>t \<in> set tables. \<forall>d \<in> {''metric'', ''value'', ''previous_value''}. \<not> dimension_of t d" by code_simp
  ultimately show False using assms by blast
qed

lemma dec_digits_inj: "inj (\<lambda>m. ''d'' @ dec_int m)"
  by (auto simp: inj_def dec_int_inj)

lemma retention_columns_distinct:
  assumes "valid_retention q = None"
  shows "distinct (query_milestones q)"
proof (cases "q_milestones q = []")
  case False
  have "q_milestones q ! i \<notin> set (take i (q_milestones q))" if "i < length (q_milestones q)" for i
    using assms that unfolding valid_retention_def Let_def by (simp add: each_at_None)
  then have "distinct (q_milestones q)" unfolding distinct_take by blast
  with False show ?thesis by (simp add: query_milestones_def)
qed (simp add: query_milestones_def default_milestones_def)

lemma wide_outputs_distinct:
  assumes "valid_aggregate show q = None" "\<not> long_shape q"
  shows "distinct (map fst (metric_outputs show q))" "set (map fst (metric_outputs show q)) \<inter> set (q_dims q) = {}"
    and "q_kind q \<noteq> ''stat'' \<Longrightarrow> set (map fst (metric_outputs show q)) \<inter> {''day'', ''series''} = {}"
proof -
  let ?named = "map (metric_name show) (q_metrics q)"
  note names = valid_aggregate_names [OF assms(1)]
  have prev: "distinct (map (\<lambda>m. ''previous_'' @ metric_name show m) (q_metrics q))"
    using names(1) by (simp add: distinct_map inj_on_def)
  show "distinct (map fst (metric_outputs show q))"
  proof (cases "q_kind q = ''stat'' \<and> q_compare q = ''previous''")
    case True
    define pre where "pre = ''previous_''"
    have "x \<notin> set ?named" if "x \<in> set (map (\<lambda>m. pre @ metric_name show m) (q_metrics q))" for x
    proof -
      from that obtain m where x: "x = pre @ metric_name show m" and "m \<in> set (q_metrics q)" by auto
      then have "metric_name show m \<in> set ?named" by simp
      from names(7) [OF _ this] True show ?thesis unfolding x pre_def by simp
    qed
    then have "set ?named \<inter> set (map (\<lambda>m. pre @ metric_name show m) (q_metrics q)) = {}" by blast
    moreover have eq: "map fst (metric_outputs show q) = ?named @ map (\<lambda>m. ''previous_'' @ metric_name show m) (q_metrics q)"
      using True assms(2) by (simp add: metric_outputs_def comp_def)
    ultimately show ?thesis unfolding eq distinct_append pre_def using names(1) prev by (intro conjI)
  next
    case False
    with names(1) assms(2) show ?thesis by (auto simp: metric_outputs_def comp_def)
  qed
  show "set (map fst (metric_outputs show q)) \<inter> set (q_dims q) = {}"
    using names(3,6) assms(2) by (auto simp: metric_outputs_def)
  show "q_kind q \<noteq> ''stat'' \<Longrightarrow> set (map fst (metric_outputs show q)) \<inter> {''day'', ''series''} = {}"
    using names(3) assms(2) by (auto simp: metric_outputs_def)
qed

lemma validate_parts:
  assumes "validate show den_first q = None"
  shows "q_kind q \<in> set kinds" "valid_shape q = None" "valid_defines den_first q = None"
    and "q_kind q = ''retention'' \<Longrightarrow> valid_retention q = None"
    and "q_kind q = ''attributes'' \<Longrightarrow> valid_attributes show q = None"
    and "q_kind q = ''funnel'' \<Longrightarrow> valid_funnel q = None" "q_kind q = ''paths'' \<Longrightarrow> valid_paths q = None"
    and "q_kind q \<in> {''stat'', ''trend'', ''breakdown''} \<Longrightarrow> valid_aggregate show q = None"
proof -
  show "q_kind q \<in> set kinds" "valid_shape q = None" "valid_defines den_first q = None"
    using assms unfolding validate_def Let_def first_refusal_Cons refuse_None by blast+
  have own: "(if q_kind q = ''retention'' then valid_retention q else if q_kind q = ''attributes'' then valid_attributes show q
      else if q_kind q = ''funnel'' then valid_funnel q else if q_kind q = ''paths'' then valid_paths q else valid_aggregate show q) = None"
    using assms unfolding validate_def Let_def first_refusal_Cons by (elim conjE)
  then show "q_kind q = ''retention'' \<Longrightarrow> valid_retention q = None" "q_kind q = ''attributes'' \<Longrightarrow> valid_attributes show q = None"
    "q_kind q = ''funnel'' \<Longrightarrow> valid_funnel q = None" "q_kind q = ''paths'' \<Longrightarrow> valid_paths q = None" by simp_all
  show "q_kind q \<in> {''stat'', ''trend'', ''breakdown''} \<Longrightarrow> valid_aggregate show q = None" using own by auto
qed

lemma valid_shape_long: "valid_shape q = None \<Longrightarrow> long_shape q \<Longrightarrow> q_kind q \<in> {''stat'', ''breakdown''}"
  by (auto simp: valid_shape_def long_shape_def split: if_splits)

text \<open>
  C33: The columns of an accepted query's answer are distinct: a metric's name is no dimension's, no
  other metric's, no other metric's column over the previous range and none the kind adds itself.
\<close>

theorem answer_columns_distinct:
  assumes "validate show den_first q = None"
  shows "distinct (answer_columns show q)"
proof -
  note parts = validate_parts [OF assms]
  consider "q_kind q \<in> {''paths'', ''funnel''}" | "q_kind q = ''retention''" | "q_kind q = ''attributes''"
    | "q_kind q = ''trend''" | "q_kind q \<in> {''stat'', ''breakdown''}"
    using parts(1) by (auto simp: kinds_def)
  then show ?thesis
  proof cases
    case 1
    then show ?thesis by (auto simp: answer_columns_def outputs_def Let_def)
  next
    case 2
    have "distinct (map (\<lambda>m. ''d'' @ dec_int m) (query_milestones q))"
      using retention_columns_distinct [OF parts(4) [OF 2]] dec_digits_inj by (simp add: distinct_map inj_on_def)
    with 2 show ?thesis by (simp add: answer_columns_def outputs_def Let_def comp_def)
  next
    case 3
    then have "\<not> long_shape q" using valid_shape_long [OF parts(2)] by auto
    with 3 show ?thesis using valid_attributes_names [OF parts(5) [OF 3]]
      by (auto simp: answer_columns_def outputs_def Let_def metric_outputs_def comp_def)
  next
    case 4
    then have "\<not> long_shape q" "valid_aggregate show q = None" using valid_shape_long [OF parts(2)] parts(8) by auto
    from wide_outputs_distinct [OF this(2,1)] 4 show ?thesis
      by (auto simp: answer_columns_def outputs_def Let_def)
  next
    case 5
    then have agg: "valid_aggregate show q = None" using parts(8) by auto
    note names = valid_aggregate_names [OF agg]
    have dims: "map fst (outputs show q) = q_dims q @ map fst (metric_outputs show q)"
      using 5 names(6) by (auto simp: outputs_def comp_def Let_def)
    show ?thesis
    proof (cases "long_shape q")
      case True
      have "set (q_dims q) \<inter> {''metric'', ''value'', ''previous_value''} = {}"
        using dims_not_value [OF names(5) names(4)] by blast
      then show ?thesis using True names(2) by (auto simp: answer_columns_def dims metric_outputs_def)
    next
      case False
      from wide_outputs_distinct [OF agg False] names(2) show ?thesis by (auto simp: answer_columns_def dims)
    qed
  qed
qed


text \<open>A breakdown by path and a defined column, of the rows and of their share of views.\<close>

definition no_query :: query where
  "no_query = \<lparr>q_kind = [], q_table = [], q_metrics = [], q_where = [], q_dims = [], q_series = [], q_fill = [], q_define = [],
     q_shape = [], q_interval = [], q_series_limit = 0, q_compare = [], q_limit = 0, q_other = False, q_order = [], q_steps = [],
     q_by = [], q_sequence = False, q_depth = 0, q_output = [], q_identified_by = [], q_offsets = 0, q_milestones = [],
     q_reserved = False, q_keep = []\<rparr>"

definition count_metric :: "string \<Rightarrow> raw_filter list \<Rightarrow> metric" where
  "count_metric named wh = Metric ''count'' 0 [] [] named None wh None None"

definition share_of_views :: metric where
  "share_of_views = Metric ''ratio'' 0 [] [] ''views'' (Some 2) []
     (Some (count_metric [] [RawFilter ''family'' ''eq'' [''views''] [] [] [] [] []])) (Some (count_metric [] []))"

definition by_path :: query where
  "by_path = no_query\<lparr>q_kind := ''breakdown'', q_table := ''events'', q_dims := [''path'', ''def_recent''],
     q_metrics := [count_metric [] [], share_of_views], q_limit := 10, q_order := ''views'',
     q_define := [\<lparr>df_name = ''def_recent'', df_cases = [\<lparr>dc_label = ''yes'', dc_where = [RawFilter ''day'' ''gte'' [''2026-01-01''] [] [] [] [] []]\<rparr>], df_else = []\<rparr>],
     q_where := [RawFilter ''consent'' ''in'' [''0'', ''1''] [] [] [] [] []]\<rparr>"

theorem answer_columns_distinct_witness:
  "answer_columns (\<lambda>_. []) by_path = [''path'', ''def_recent'', ''count'', ''views''] \<and> distinct (answer_columns (\<lambda>_. []) by_path)"
proof
  show "answer_columns (\<lambda>_. []) by_path = [''path'', ''def_recent'', ''count'', ''views'']" by code_simp
  have "validate (\<lambda>_. []) (\<lambda>_. False) by_path = None" by code_simp
  then show "distinct (answer_columns (\<lambda>_. []) by_path)" by (rule answer_columns_distinct)
qed

section \<open>A long answer\<close>

text \<open>\<open>toLong\<close> of \<^verbatim>\<open>shape.go\<close>: a row per metric. An index out of range is a panic.\<close>

record answer =
  an_columns :: "string list"
  an_rows :: "string list list"
  an_truncated :: bool
  an_approximate :: "string list"

definition long_columns :: "query \<Rightarrow> string list" where
  "long_columns q = q_dims q @ [''metric'', ''value''] @ (if q_compare q = ''previous'' then [''previous_value''] else [])"

definition long_row :: "query \<Rightarrow> string list \<Rightarrow> string list \<Rightarrow> string \<Rightarrow> string list" where
  "long_row q cols r n =
     (let at_col = (\<lambda>c. r ! the (index_of c cols))
      in take (length (q_dims q)) r @ [n, at_col n] @ (if q_compare q = ''previous'' then [at_col (''previous_'' @ n)] else []))"

definition long_approximate :: "query \<Rightarrow> string list \<Rightarrow> string list \<Rightarrow> string \<Rightarrow> string list" where
  "long_approximate q names out c =
     (let v = (case cut_prefix c ''previous_'' of
            Some rest \<Rightarrow> if q_compare q = ''previous'' \<and> rest \<in> set names \<and> c \<notin> set names then ''previous_value'' else ''value''
          | None \<Rightarrow> ''value'')
      in if v \<notin> set out \<and> (v = ''previous_value'' \<or> c \<in> set names) then out @ [v] else out)"

definition to_long :: "(real \<Rightarrow> string) \<Rightarrow> query \<Rightarrow> answer \<Rightarrow> answer" where
  "to_long show q res =
     (let names = map (metric_name show) (q_metrics q)
      in \<lparr>an_columns = long_columns q,
          an_rows = concat (map (\<lambda>r. map (long_row q (an_columns res) r) names) (an_rows res)),
          an_truncated = an_truncated res,
          an_approximate = foldl (long_approximate q names) [] (an_approximate res)\<rparr>)"

text \<open>In the wide answer of an accepted query a metric's column is its own.\<close>

lemma index_of_nth: "distinct xs \<Longrightarrow> i < length xs \<Longrightarrow> index_of (xs ! i) xs = Some i"
  by (induction xs arbitrary: i) (auto simp: nth_Cons split: nat.splits)

lemma index_of_middle: "distinct (xs @ ys @ zs) \<Longrightarrow> i < length ys \<Longrightarrow> index_of (ys ! i) (xs @ ys @ zs) = Some (length xs + i)"
  using index_of_nth [of "xs @ ys @ zs" "length xs + i"] by (simp add: nth_append)

lemma long_row_of_wide:
  assumes "validate show den_first q = None" "q_kind q \<in> {''stat'', ''breakdown''}"
    and cols: "an_columns res = answer_columns show (q\<lparr>q_shape := ''wide''\<rparr>)" and i: "i < length (q_metrics q)"
  shows "take (length (q_dims q) + 2) (long_row q (an_columns res) r (metric_name show (q_metrics q ! i)))
    = take (length (q_dims q)) r @ [metric_name show (q_metrics q ! i), r ! (length (q_dims q) + i)] \<or> length r < length (q_dims q)"
proof -
  let ?named = "map (metric_name show) (q_metrics q)"
  define wide where "wide = q\<lparr>q_shape := ''wide''\<rparr>"
  have "long_trend wide = long_trend q" "q_output wide = q_output q" "q_identified_by wide = q_identified_by q" "q_offsets wide = q_offsets q"
    "q_milestones wide = q_milestones q" "q_kind wide = q_kind q" "q_table wide = q_table q" "q_dims wide = q_dims q" "q_metrics wide = q_metrics q"
    "q_series wide = q_series q" "q_where wide = q_where q" "q_series_limit wide = q_series_limit q" "q_compare wide = q_compare q"
    "q_limit wide = q_limit q" "q_other wide = q_other q" "q_order wide = q_order q"
    by (simp_all add: wide_def long_trend_def)
  then have "valid_aggregate show wide = valid_aggregate show q"
    unfolding valid_aggregate_def by (simp only:)
  moreover have "valid_aggregate show q = None" by (rule validate_parts(8) [OF assms(1)]) (use assms(2) in auto)
  ultimately have agg: "valid_aggregate show wide = None" by simp
  have wide: "\<not> long_shape wide" "q_dims wide = q_dims q" "q_metrics wide = q_metrics q" "q_kind wide = q_kind q"
    by (simp_all add: wide_def long_shape_def)
  note names = valid_aggregate_names [OF agg]
  obtain rest where outs: "map fst (metric_outputs show wide) = ?named @ rest"
    using wide by (simp add: metric_outputs_def comp_def)
  have "an_columns res = q_dims q @ map fst (metric_outputs show wide)"
    using assms(2) names(6) wide by (auto simp: cols wide_def [symmetric] answer_columns_def outputs_def Let_def comp_def)
  then have all: "an_columns res = q_dims q @ ?named @ rest" by (simp add: outs)
  moreover have "distinct (q_dims q @ ?named @ rest)"
    using wide_outputs_distinct(1,2) [OF agg wide(1)] names(2) unfolding outs wide by auto
  from index_of_middle [OF this, of i] i
  have "index_of (?named ! i) (an_columns res) = Some (length (q_dims q) + i)" by (simp add: all)
  then show ?thesis using i by (auto simp: long_row_def Let_def)
qed

section \<open>An accepted query's filters compile\<close>

text \<open>The filters on a column of their own, those inside any_of, ever and never included.\<close>

fun leaves :: "raw_filter \<Rightarrow> raw_filter list" and leaves_all :: "raw_filter list \<Rightarrow> raw_filter list" where
  "leaves (RawFilter column op vs cols any inner who over) =
     (if op = ''ever'' \<or> op = ''never'' then leaves_all inner
      else if op = ''any_of'' then leaves_all any
      else if op = ''any_set'' then []
      else [RawFilter column op vs cols any inner who over])"
| "leaves_all [] = []"
| "leaves_all (f # fs) = leaves f @ leaves_all fs"

definition readable :: "raw_filter \<Rightarrow> bool" where
  "readable f \<longleftrightarrow> type_of (rf_column f) = TypeString
     \<or> (rf_op f \<notin> {''contains'', ''prefix'', ''not_prefix''} \<and> (\<forall>v \<in> set (rf_values f). parse_value (type_of (rf_column f)) v \<noteq> None))"

lemma parse_values_all: "(\<exists>ns'. parse_values t path vs ns = Inr ns') \<longleftrightarrow> (\<forall>v \<in> set vs. parse_value t v \<noteq> None)"
  by (induction vs arbitrary: ns) (auto split: option.splits)

lemma compile_plain_reads: "(\<exists>c. compile_plain f path i = Inr c) \<longleftrightarrow> readable f"
  using parse_values_all [of "type_of (rf_column f)" "at_index path i ''.values''" "rf_values f" "[]"]
  by (auto simp: compile_plain_def readable_def Let_def and_then_Inr)

lemma compile_reads:
  "(\<exists>cs. compile_from i path fs = Inr cs) \<longleftrightarrow> (\<forall>g \<in> set (leaves_all fs). readable g)"
  "(\<exists>c. compile_one i path f = Inr c) \<longleftrightarrow> (\<forall>g \<in> set (leaves f). readable g)"
proof (induction i path fs and i path f rule: compile_from_compile_one.induct)
  case (2 i path f fs)
  then show ?case by (auto simp: and_then_Inr)
next
  case (3 i path column op vs cols any inner who over)
  then show ?case
    by (auto simp: and_then_Inr compile_plain_reads simp del: compile_from.simps)
qed simp

text \<open>Every filter on a column of its own that is part of an accepted one has passed the checks itself.\<close>

lemma valid_leaves:
  "valid_filter table p f = None \<Longrightarrow> g \<in> set (leaves f) \<Longrightarrow> \<exists>t q. valid_plain t q g = None"
  "valid_any table p j fs = None \<Longrightarrow> g \<in> set (leaves_all fs) \<Longrightarrow> \<exists>t q. valid_plain t q g = None"
  "valid_inner p j fs = None \<Longrightarrow> g \<in> set (leaves_all fs) \<Longrightarrow> \<exists>t q. valid_plain t q g = None"
proof (induction table p f and table p j fs and p j fs rule: valid_filter_valid_any_valid_inner.induct)
  case (1 table p column op vs cols any inner who over)
  then show ?case by (auto simp: Let_def split: if_splits option.splits)
next
  case (3 table p j f fs)
  then show ?case by (auto simp: Let_def split: if_splits option.splits)
next
  case (5 p j f fs)
  then show ?case by (auto simp: Let_def split: if_splits option.splits)
qed simp_all

lemma orderable_typed: "fst (column_info t c) \<Longrightarrow> snd (column_info t c) \<Longrightarrow> type_of c \<noteq> TypeString"
  by (auto simp: column_info_def type_of_def cut_prefix_def split: option.splits if_splits)

lemma valid_plain_reads:
  assumes "valid_plain t p f = None" "rf_op f \<notin> {''ever'', ''never'', ''any_of'', ''any_set''}"
  shows "readable f \<longleftrightarrow> type_of (rf_column f) = TypeString
    \<or> (rf_op f \<notin> {''contains'', ''prefix'', ''not_prefix''}
       \<and> (rf_op f \<in> {''eq'', ''ne'', ''in'', ''not_in''} \<longrightarrow> (\<forall>v \<in> set (rf_values f). parse_value (type_of (rf_column f)) v \<noteq> None)))"
proof (cases "rf_op f \<in> set ordered_ops")
  case True
  then have n: "length (rf_values f) = 1"
    using assms by (auto simp: valid_plain_def Let_def ordered_ops_def)
  have "if type_of (rf_column f) = TypeDay then parse_day (rf_values f ! 0) \<noteq> None else parse_int (rf_values f ! 0) \<noteq> None"
    using assms True by (auto simp: valid_plain_def Let_def)
  then have "parse_value (type_of (rf_column f)) (rf_values f ! 0) \<noteq> None" by (simp add: parse_value_def split: if_splits)
  moreover obtain v where "rf_values f = [v]" using n by (auto simp: length_Suc_conv)
  ultimately show ?thesis using True by (auto simp: readable_def ordered_ops_def)
next
  case False
  have "rf_op f = ''is_set'' \<Longrightarrow> rf_values f = []" using assms by (auto simp: valid_plain_def Let_def)
  moreover have "rf_op f \<in> set filter_ops" using assms by (auto simp: valid_plain_def Let_def)
  ultimately show ?thesis using False assms(2) by (auto simp: readable_def filter_ops_def ordered_ops_def)
qed

section \<open>Compiling a query\<close>

text \<open>
  \<^verbatim>\<open>compileQuery\<close> of \<^verbatim>\<open>engine.go\<close>: \<open>NilSide\<close> is the panic of a ratio without a side. Days are
  days since 1970-01-01.
\<close>

datatype compile_error = NotValid string | BadFilter filter_error | NilSide

datatype metric_spec = MetricSpec (ms_metric: metric) (ms_where: "cfilter list") (ms_num: "metric_spec option") (ms_den: "metric_spec option")

record defined_column =
  dn_name :: string
  dn_labels :: "string list"
  dn_cases :: "cfilter list list"
  dn_other :: string

record query_scan =
  qs_query :: query
  qs_filters :: "cfilter list"
  qs_metrics :: "metric_spec list"
  qs_defs :: "defined_column list"

fun bad_filter :: "filter_error + 'a \<Rightarrow> compile_error + 'a" where
  "bad_filter (Inl e) = Inl (BadFilter e)"
| "bad_filter (Inr x) = Inr x"

fun compile_metric :: "string \<Rightarrow> metric \<Rightarrow> compile_error + metric_spec" where
  "compile_metric p (Metric op x column ofs named rnd wh num den) =
     (let m = Metric op x column ofs named rnd wh num den in
      and_then (bad_filter (compile_filters wh (p @ ''.where''))) (\<lambda>cs.
        if op = ''ratio'' then
          (case num of None \<Rightarrow> Inl NilSide
           | Some n \<Rightarrow> and_then (compile_metric (p @ ''.num'') n) (\<lambda>cn.
               case den of None \<Rightarrow> Inl NilSide
               | Some d \<Rightarrow> and_then (compile_metric (p @ ''.den'') d) (\<lambda>cd. Inr (MetricSpec m cs (Some cn) (Some cd)))))
        else Inr (MetricSpec m cs None None)))"

fun each_compiled :: "(nat \<Rightarrow> 'a \<Rightarrow> 'e + 'b) \<Rightarrow> nat \<Rightarrow> 'a list \<Rightarrow> 'e + 'b list" where
  "each_compiled f i [] = Inr []"
| "each_compiled f i (x # xs) = and_then (f i x) (\<lambda>y. and_then (each_compiled f (i + 1) xs) (\<lambda>ys. Inr (y # ys)))"

definition compile_define :: "nat \<Rightarrow> define_column \<Rightarrow> compile_error + defined_column" where
  "compile_define i d =
     and_then (each_compiled (\<lambda>j c. bad_filter (compile_filters (dc_where c) (at_index (at_index ''define'' i ''.cases'') j ''.where''))) 0 (df_cases d))
       (\<lambda>cs. Inr \<lparr>dn_name = df_name d, dn_labels = map dc_label (df_cases d), dn_cases = cs, dn_other = df_else d\<rparr>)"

definition compile_query :: "(real \<Rightarrow> string) \<Rightarrow> (string \<Rightarrow> bool) \<Rightarrow> query \<Rightarrow> int \<Rightarrow> int \<Rightarrow> compile_error + query_scan" where
  "compile_query show den_first q from to = (case validate show den_first q of
     Some p \<Rightarrow> Inl (NotValid p)
   | None \<Rightarrow>
       if to < from then Inl (NotValid ''to'')
       else and_then (bad_filter (compile_filters (q_where q) ''where'')) (\<lambda>fs.
         and_then (each_compiled compile_define 0 (q_define q)) (\<lambda>ds.
           and_then (each_compiled (\<lambda>i m. compile_metric (at_index ''metrics'' i []) m) 0 (q_metrics q)) (\<lambda>ms.
             Inr \<lparr>qs_query = q, qs_filters = fs, qs_metrics = ms, qs_defs = ds\<rparr>))))"

lemma each_compiled_Inl: "each_compiled f k xs = Inl e \<Longrightarrow> \<exists>i < length xs. f (k + i) (xs ! i) = Inl e"
proof (induction xs arbitrary: k)
  case (Cons x xs)
  then consider "f k x = Inl e" | "each_compiled f (k + 1) xs = Inl e" by (auto simp: and_then_Inl)
  then show ?case
  proof cases
    case 2
    from Cons.IH [OF this] obtain i where "i < length xs" "f (k + 1 + i) (xs ! i) = Inl e" by blast
    then show ?thesis by (intro exI [of _ "Suc i"]) simp
  qed force
qed simp

lemma each_compiled_ok: "(\<exists>ys. each_compiled f k xs = Inr ys) \<longleftrightarrow> (\<forall>i < length xs. \<exists>y. f (k + i) (xs ! i) = Inr y)"
proof (induction xs arbitrary: k)
  case (Cons x xs)
  have "(\<forall>i < length (x # xs). \<exists>y. f (k + i) ((x # xs) ! i) = Inr y)
      \<longleftrightarrow> (\<exists>y. f k x = Inr y) \<and> (\<forall>i < length xs. \<exists>y. f (k + 1 + i) (xs ! i) = Inr y)"
    by (auto simp: less_Suc_eq_0_disj)
  with Cons.IH [of "k + 1"] show ?case by (auto simp: and_then_Inr)
qed simp

lemma bad_filter_Inr [simp]: "bad_filter r = Inr y \<longleftrightarrow> r = Inr y"
  by (cases r) auto

lemma compile_filters_reads: "(\<exists>cs. compile_filters fs p = Inr cs) \<longleftrightarrow> (\<forall>g \<in> set (leaves_all fs). readable g)"
  by (simp add: compile_filters_def compile_reads)

text \<open>The filters of a query on a column of their own, its metrics' and its defined columns' included.\<close>

fun metric_leaves :: "metric \<Rightarrow> raw_filter list" where
  "metric_leaves (Metric op x column ofs named rnd wh num den) = leaves_all wh
     @ (case num of Some n \<Rightarrow> metric_leaves n | None \<Rightarrow> []) @ (case den of Some d \<Rightarrow> metric_leaves d | None \<Rightarrow> [])"

definition query_leaves :: "query \<Rightarrow> raw_filter list" where
  "query_leaves q = leaves_all (q_where q)
     @ concat (map (\<lambda>d. concat (map (\<lambda>c. leaves_all (dc_where c)) (df_cases d))) (q_define q)) @ concat (map metric_leaves (q_metrics q))"

definition checked :: "raw_filter \<Rightarrow> bool" where
  "checked g \<longleftrightarrow> rf_op g \<notin> {''ever'', ''never'', ''any_of'', ''any_set''} \<and> (\<exists>t p. valid_plain t p g = None)"

lemma leaf_ops:
  "g \<in> set (leaves f) \<Longrightarrow> rf_op g \<notin> {''ever'', ''never'', ''any_of'', ''any_set''}"
  "g \<in> set (leaves_all fs) \<Longrightarrow> rf_op g \<notin> {''ever'', ''never'', ''any_of'', ''any_set''}"
  by (induction f and fs rule: leaves_leaves_all.induct) (auto split: if_splits)

lemma checked_filter: "valid_filter table p f = None \<Longrightarrow> g \<in> set (leaves f) \<Longrightarrow> checked g"
  using valid_leaves(1) leaf_ops(1) unfolding checked_def by blast

lemma leaves_all_concat: "leaves_all fs = concat (map leaves fs)"
  by (induction fs) auto

lemma checked_all: "(\<And>i. i < length fs \<Longrightarrow> \<exists>t p. valid_filter t p (fs ! i) = None) \<Longrightarrow> g \<in> set (leaves_all fs) \<Longrightarrow> checked g"
  unfolding leaves_all_concat by (auto simp: in_set_conv_nth dest: checked_filter) (metis checked_filter in_set_conv_nth)

definition metric_good :: "metric \<Rightarrow> bool" where
  "metric_good m \<longleftrightarrow> (\<forall>p. ((\<exists>c. compile_metric p m = Inr c) \<longleftrightarrow> (\<forall>g \<in> set (metric_leaves m). readable g))
     \<and> compile_metric p m \<noteq> Inl NilSide) \<and> (\<forall>g \<in> set (metric_leaves m). checked g)"

lemma bad_filter_side [simp]: "bad_filter r \<noteq> Inl NilSide"
  by (cases r) auto

lemma metric_good_ratio:
  assumes "metric_good n" "metric_good d"
  shows "metric_good (Metric ''ratio'' x column ofs named rnd [] (Some n) (Some d))"
proof -
  let ?m = "Metric ''ratio'' x column ofs named rnd [] (Some n) (Some d)"
  have ok: "(\<exists>c. compile_metric p ?m = Inr c) \<longleftrightarrow> (\<exists>c. compile_metric (p @ ''.num'') n = Inr c) \<and> (\<exists>c. compile_metric (p @ ''.den'') d = Inr c)" for p
    by (auto simp: compile_filters_def and_then_Inr)
  have nil: "compile_metric p ?m = Inl NilSide \<Longrightarrow> compile_metric (p @ ''.num'') n = Inl NilSide \<or> compile_metric (p @ ''.den'') d = Inl NilSide" for p
    by (auto simp: compile_filters_def and_then_Inl)
  have "(\<exists>c. compile_metric p n = Inr c) \<longleftrightarrow> (\<forall>g \<in> set (metric_leaves n). readable g)"
    "(\<exists>c. compile_metric p d = Inr c) \<longleftrightarrow> (\<forall>g \<in> set (metric_leaves d). readable g)" for p
    using assms by (simp_all add: metric_good_def)
  then have "(\<exists>c. compile_metric p ?m = Inr c) \<longleftrightarrow> (\<forall>g \<in> set (metric_leaves ?m). readable g)" for p
    unfolding ok by auto
  moreover have "compile_metric p ?m \<noteq> Inl NilSide" for p
    using nil assms unfolding metric_good_def by blast
  moreover have "\<forall>g \<in> set (metric_leaves ?m). checked g" using assms by (auto simp: metric_good_def)
  ultimately show ?thesis unfolding metric_good_def by blast
qed

lemma metric_good_plain:
  assumes "op \<noteq> ''ratio''" "\<And>g. g \<in> set (leaves_all wh) \<Longrightarrow> checked g"
  shows "metric_good (Metric op x column ofs named rnd wh None None)"
  using assms compile_filters_reads [of wh] unfolding metric_good_def
  by (auto simp: and_then_Inr and_then_Inl)

lemma valid_at_good:
  "valid_at kind table p side m = None \<Longrightarrow> metric_good m"
  "valid_side kind table sp s = None \<Longrightarrow> \<exists>n. s = Some n \<and> metric_good n"
proof (induction kind table p side m and kind table sp s rule: valid_at_valid_side.induct)
  case (1 kind table p side op x column ofs named rnd wh num den)
  let ?m = "Metric op x column ofs named rnd wh num den"
  have known: "op \<in> set metric_ops" using 1(3) by (auto simp: Let_def split: if_splits)
  show ?case
  proof (cases "op = ''ratio''")
    case True
    then have "wh = []" and num: "valid_side kind table (p @ ''.num'') num = None" and den: "valid_side kind table (p @ ''.den'') den = None"
      using 1(3) known by (auto simp: Let_def split: if_splits option.splits)
    obtain n where n: "num = Some n" "metric_good n" using 1(1) num True known \<open>wh = []\<close> by auto
    obtain d where d: "den = Some d" "metric_good d" using 1(2) num den True known \<open>wh = []\<close> by auto
    from metric_good_ratio [OF n(2) d(2)] show ?thesis by (simp add: True n d \<open>wh = []\<close>)
  next
    case False
    then have none: "num = None" "den = None" and op: "valid_op kind table p ?m = None"
      using 1(3) known by (auto simp: Let_def split: if_splits option.splits)
    have "\<forall>i < length wh. valid_filter table (at_index (p @ ''.where'') i []) (wh ! i) = None"
      using op by (simp add: valid_op_def Let_def)
    then have "checked g" if "g \<in> set (leaves_all wh)" for g using that by (intro checked_all [of wh]) blast+
    from metric_good_plain [OF False this] none show ?thesis by simp
  qed
next
  case (3 kind table sp s)
  then show ?case by (auto split: option.splits)
qed simp

text \<open>Every kind checks its metrics, or takes none, and its where.\<close>

lemma accepted_parts:
  assumes "validate show den_first q = None"
  shows "\<And>i. i < length (q_metrics q) \<Longrightarrow> \<exists>k t. valid_metric k t i (q_metrics q ! i) = None"
    and "\<exists>t. valid_where t ''where'' (q_where q) = None"
proof -
  consider "valid_retention q = None" | "valid_keys q = None" | "valid_attributes show q = None" "q_output q \<noteq> ''keys''"
    | "valid_funnel q = None" | "valid_paths q = None" | "valid_aggregate show q = None"
    using validate_parts [OF assms] by (fastforce simp: kinds_def valid_attributes_def)
  then have "(\<forall>i < length (q_metrics q). \<exists>k t. valid_metric k t i (q_metrics q ! i) = None)
    \<and> (\<exists>t. valid_where t ''where'' (q_where q) = None)"
  proof cases
    case 3
    then show ?thesis unfolding valid_attributes_def Let_def if_not_P [OF 3(2)] first_refusal_Cons each_at_None by blast
  next
    case 6
    then show ?thesis unfolding valid_aggregate_def Let_def first_refusal_Cons each_at_None by blast
  qed (simp_all add: valid_retention_def valid_keys_def valid_funnel_def valid_paths_def Let_def, blast+)
  then show "\<And>i. i < length (q_metrics q) \<Longrightarrow> \<exists>k t. valid_metric k t i (q_metrics q ! i) = None"
    "\<exists>t. valid_where t ''where'' (q_where q) = None" by blast+
qed


text \<open>A retention over the consenting, whose filter compiles, and one whose text operator does not.\<close>

definition sample_retention :: "string \<Rightarrow> query" where
  "sample_retention op = by_path\<lparr>q_kind := ''retention'', q_table := [], q_metrics := [], q_dims := [], q_order := [], q_limit := 0,
     q_define := [], q_output := ''grid'', q_where := [RawFilter ''consent'' op [''1''] [] [] [] [] []]\<rparr>"


end
