(* ===== verification/RetentionMemo.thy ===== *)
theory RetentionMemo
  imports Retention
begin

text \<open>
  The memo of recent retention tallies (\<^verbatim>\<open>internal/native/retention_memo.go\<close>): bounded in entries,
  bytes and age. Times and durations are in nanoseconds. The map of entries is an association list
  in the order a range over it takes; the order is new in every step of \<open>memo_reach\<close>. The scans that
  share a key (singleflight) are left out.
\<close>

record ret_tally =
  rty_today :: int
  rty_counts :: "(ret_key \<times> nat) list"

record memo_entry =
  me_query :: string
  me_at :: int
  me_tally :: ret_tally

record ret_memo =
  rm_bytes :: int
  rm_entries :: "(string \<times> memo_entry) list"

definition memo_limit :: nat where "memo_limit = 16"
definition memo_max :: int where "memo_max = 8 * 2 ^ 20"
definition memo_age :: int where "memo_age = 60 * 10 ^ 9"

definition tally_bytes :: "ret_tally \<Rightarrow> int" where
  "tally_bytes t = int (length (rty_counts t)) * 64"

definition memo_get :: "string \<Rightarrow> int \<Rightarrow> ret_memo \<Rightarrow> ret_tally option" where
  "memo_get key now m = (case map_of (rm_entries m) key of
     None \<Rightarrow> None
   | Some x \<Rightarrow> if now - me_at x \<ge> memo_age then None else Some (me_tally x))"

text \<open>Dropping a key not there is a panic, \<^const>\<open>None\<close>.\<close>

definition memo_drop :: "string \<Rightarrow> ret_memo \<Rightarrow> ret_memo option" where
  "memo_drop k m = (case map_of (rm_entries m) k of
     None \<Rightarrow> None
   | Some x \<Rightarrow> Some \<lparr>rm_bytes = rm_bytes m - tally_bytes (me_tally x), rm_entries = AList.delete k (rm_entries m)\<rparr>)"

fun memo_sweep :: "string \<Rightarrow> string \<Rightarrow> int \<Rightarrow> (string \<times> memo_entry) list \<Rightarrow> ret_memo \<Rightarrow> ret_memo option" where
  "memo_sweep q key now [] m = Some m"
| "memo_sweep q key now ((k, x) # es) m =
     (if k = key \<or> me_query x = q \<or> now - me_at x \<ge> memo_age
      then Option.bind (memo_drop k m) (memo_sweep q key now es) else memo_sweep q key now es m)"

definition oldest :: "(string \<times> memo_entry) list \<Rightarrow> string" where
  "oldest es = foldl (\<lambda>old (k, x). if old = [] \<or> me_at x < me_at (the (map_of es old)) then k else old) [] es"

text \<open>The loop that drops the oldest entry while the memo is full or too big; it might not end.\<close>

partial_function (option) memo_evict :: "int \<Rightarrow> ret_memo \<Rightarrow> ret_memo option" where
  "memo_evict n m = (if length (rm_entries m) \<ge> memo_limit \<or> rm_bytes m + n > memo_max
     then Option.bind (memo_drop (oldest (rm_entries m)) m) (memo_evict n) else Some m)"

declare memo_evict.simps [code]

definition memo_put :: "string \<Rightarrow> string \<Rightarrow> ret_tally \<Rightarrow> int \<Rightarrow> ret_memo \<Rightarrow> ret_memo option" where
  "memo_put q key t now m =
     (let n = tally_bytes t in
      if n > memo_max then Some m
      else Option.bind (memo_sweep q key now (rm_entries m) m) (\<lambda>m1. Option.bind (memo_evict n m1) (\<lambda>m2.
        Some \<lparr>rm_bytes = rm_bytes m2 + n, rm_entries = AList.update key \<lparr>me_query = q, me_at = now, me_tally = t\<rparr> (rm_entries m2)\<rparr>)))"

section \<open>The bounds\<close>

definition entries_bytes :: "(string \<times> memo_entry) list \<Rightarrow> int" where
  "entries_bytes es = sum_list (map (\<lambda>(k, x). tally_bytes (me_tally x)) es)"

definition memo_ok :: "ret_memo \<Rightarrow> bool" where
  "memo_ok m \<longleftrightarrow> distinct (map fst (rm_entries m)) \<and> rm_bytes m = entries_bytes (rm_entries m)"

lemma tally_bytes_nonneg: "0 \<le> tally_bytes t"
  by (simp add: tally_bytes_def)

lemma entries_bytes_nonneg: "0 \<le> entries_bytes es"
  by (auto simp: entries_bytes_def split_def intro!: sum_list_nonneg tally_bytes_nonneg)

lemma entries_bytes_delete:
  "distinct (map fst es) \<Longrightarrow> map_of es k = Some x \<Longrightarrow> entries_bytes (AList.delete k es) = entries_bytes es - tally_bytes (me_tally x)"
proof (induction es)
  case (Cons e es)
  show ?case
  proof (cases "fst e = k")
    case True
    then have "k \<notin> fst ` set es" using Cons.prems(1) by auto
    then have "AList.delete k es = es" by (rule AList.delete_id)
    with True Cons.prems show ?thesis by (cases e) (simp add: entries_bytes_def)
  next
    case False
    with Cons show ?thesis by (cases e) (simp add: entries_bytes_def)
  qed
qed simp

lemma memo_drop_ok:
  assumes "memo_ok m" "memo_drop k m = Some m'"
  shows "memo_ok m'" "rm_entries m' = AList.delete k (rm_entries m)"
  using assms entries_bytes_delete
  by (auto simp: memo_drop_def memo_ok_def AList.distinct_delete split: option.splits)

lemma memo_drop_some: "k \<in> fst ` set (rm_entries m) \<Longrightarrow> \<exists>m'. memo_drop k m = Some m'"
  by (auto simp: memo_drop_def map_of_eq_None_iff split: option.splits)

text \<open>A drop only takes entries away.\<close>

definition part_of :: "ret_memo \<Rightarrow> ret_memo \<Rightarrow> bool" where
  "part_of m' m \<longleftrightarrow> map_of (rm_entries m') \<subseteq>\<^sub>m map_of (rm_entries m)"

lemma part_of_refl: "part_of m m"
  by (simp add: part_of_def)

lemma part_of_trans: "part_of m2 m1 \<Longrightarrow> part_of m1 m \<Longrightarrow> part_of m2 m"
  unfolding part_of_def by (rule map_le_trans)

lemma memo_drop_part: "memo_drop k m = Some m' \<Longrightarrow> part_of m' m \<and> map_of (rm_entries m') k = None"
  by (auto simp: memo_drop_def part_of_def map_le_def AList.delete_conv' split: option.splits if_splits)

lemma memo_sweep_ok:
  assumes "memo_ok m" "distinct (map fst es)" "fst ` set es \<subseteq> fst ` set (rm_entries m)"
  shows "\<exists>m'. memo_sweep q key now es m = Some m' \<and> memo_ok m' \<and> part_of m' m
    \<and> (key \<in> fst ` set es \<or> map_of (rm_entries m) key = None \<longrightarrow> map_of (rm_entries m') key = None)"
  using assms
proof (induction es arbitrary: m)
  case Nil
  then show ?case by (auto simp: part_of_refl)
next
  case (Cons e es)
  obtain k x where e: "e = (k, x)" by fastforce
  show ?case
  proof (cases "k = key \<or> me_query x = q \<or> now - me_at x \<ge> memo_age")
    case True
    obtain m1 where m1: "memo_drop k m = Some m1" using memo_drop_some [of k m] Cons.prems(3) e by auto
    have sub: "fst ` set es \<subseteq> fst ` set (rm_entries m1)"
    proof -
      have "fst ` set (AList.delete k (rm_entries m)) = fst ` set (rm_entries m) - {k}" by (auto simp: AList.delete_eq)
      moreover have "k \<notin> fst ` set es" "fst ` set es \<subseteq> fst ` set (rm_entries m)" using Cons.prems(2,3) by (simp_all add: e)
      ultimately show ?thesis unfolding memo_drop_ok(2) [OF Cons.prems(1) m1] by (simp only: subset_Diff_insert) simp
    qed
    from Cons.IH [OF memo_drop_ok(1) [OF Cons.prems(1) m1] _ sub] Cons.prems(2)
    obtain m' where m': "memo_sweep q key now es m1 = Some m'" "memo_ok m'" "part_of m' m1"
        "key \<in> fst ` set es \<or> map_of (rm_entries m1) key = None \<longrightarrow> map_of (rm_entries m') key = None" by auto
    have none: "map_of (rm_entries m1) key = None" if "map_of (rm_entries m) key = None \<or> k = key"
    proof (rule ccontr)
      assume "map_of (rm_entries m1) key \<noteq> None"
      then have "map_of (rm_entries m1) key = map_of (rm_entries m) key"
        using memo_drop_part [OF m1] unfolding part_of_def map_le_def by blast
      with that memo_drop_part [OF m1] \<open>map_of (rm_entries m1) key \<noteq> None\<close> show False by auto
    qed
    have "part_of m' m" using part_of_trans [OF m'(3)] memo_drop_part [OF m1] by blast
    with m' none True m1 show ?thesis by (auto simp: e)
  next
    case False
    from Cons.IH [of m] Cons.prems False show ?thesis by (auto simp: e)
  qed
qed

lemma length_delete_less: "k \<in> fst ` set es \<Longrightarrow> length (AList.delete k es) < length es"
  by (auto simp: AList.delete_eq intro!: length_filter_less)

lemma oldest_key:
  assumes "es \<noteq> []"
  shows "oldest es \<in> fst ` set es"
proof -
  let ?f = "\<lambda>old (k, x). if old = [] \<or> me_at x < me_at (the (map_of es old)) then k else old"
  have fold: "old \<in> fst ` set es \<Longrightarrow> set es' \<subseteq> set es \<Longrightarrow> foldl ?f old es' \<in> fst ` set es" for old es'
  proof (induction es' arbitrary: old)
    case (Cons e es')
    have "?f old e \<in> fst ` set es" using Cons.prems by (cases e) force
    from Cons.IH [OF this] Cons.prems show ?case by simp
  qed simp
  obtain k x es1 where es: "es = (k, x) # es1" using assms by (cases es) auto
  have "oldest es = foldl ?f k es1" unfolding oldest_def by (subst (2) es) simp
  moreover have "k \<in> fst ` set es" "set es1 \<subseteq> set es" by (auto simp: es)
  ultimately show ?thesis using fold by simp
qed

text \<open>The loop ends: each turn drops an entry, and an empty memo holds no bytes.\<close>

lemma memo_evict_ok:
  assumes "memo_ok m" "n \<le> memo_max"
  shows "\<exists>m'. memo_evict n m = Some m' \<and> memo_ok m' \<and> part_of m' m \<and> length (rm_entries m') < memo_limit \<and> rm_bytes m' + n \<le> memo_max"
  using assms(1)
proof (induction "length (rm_entries m)" arbitrary: m rule: less_induct)
  case less
  show ?case
  proof (cases "length (rm_entries m) \<ge> memo_limit \<or> rm_bytes m + n > memo_max")
    case False
    then show ?thesis using less.prems by (subst memo_evict.simps) (auto simp: part_of_refl)
  next
    case True
    have "rm_entries m \<noteq> []"
    proof
      assume none: "rm_entries m = []"
      then have "rm_bytes m = 0" using less.prems by (simp add: memo_ok_def entries_bytes_def)
      with True none assms(2) show False by (simp add: memo_limit_def)
    qed
    then have key: "oldest (rm_entries m) \<in> fst ` set (rm_entries m)" by (rule oldest_key)
    then obtain m1 where m1: "memo_drop (oldest (rm_entries m)) m = Some m1" using memo_drop_some by blast
    note ok = memo_drop_ok [OF less.prems m1]
    have "length (rm_entries m1) < length (rm_entries m)"
      unfolding ok(2) using key by (rule length_delete_less)
    from less.hyps [OF this ok(1)] obtain m' where "memo_evict n m1 = Some m'" "memo_ok m'" "part_of m' m1"
        "length (rm_entries m') < memo_limit" "rm_bytes m' + n \<le> memo_max" by blast
    moreover have "part_of m1 m" using memo_drop_part [OF m1] by blast
    ultimately show ?thesis using True m1 part_of_trans by (subst memo_evict.simps) auto
  qed
qed

section \<open>Every put ends, and a get answers what was put\<close>

text \<open>What has been put: the query, the key, the tally and when.\<close>

type_synonym put_event = "string \<times> string \<times> ret_tally \<times> int"

inductive memo_reach :: "put_event set \<Rightarrow> ret_memo \<Rightarrow> bool" where
  memo_new: "memo_reach {} \<lparr>rm_bytes = 0, rm_entries = []\<rparr>"
| memo_step: "memo_reach H m \<Longrightarrow> memo_put q key t now m = Some m' \<Longrightarrow> memo_reach (insert (q, key, t, now) H) m'"
| memo_order: "memo_reach H m \<Longrightarrow> mset es = mset (rm_entries m) \<Longrightarrow> memo_reach H (m\<lparr>rm_entries := es\<rparr>)"

definition memo_bounded :: "ret_memo \<Rightarrow> bool" where
  "memo_bounded m \<longleftrightarrow> length (rm_entries m) \<le> memo_limit \<and> rm_bytes m \<le> memo_max"

definition memo_kept :: "put_event set \<Rightarrow> ret_memo \<Rightarrow> bool" where
  "memo_kept H m \<longleftrightarrow> (\<forall>key x. map_of (rm_entries m) key = Some x \<longrightarrow> (me_query x, key, me_tally x, me_at x) \<in> H)"

lemma part_of_kept: "part_of m' m \<Longrightarrow> memo_kept H m \<Longrightarrow> memo_kept H m'"
  unfolding part_of_def map_le_def memo_kept_def by (metis domI)

lemma update_new: "k \<notin> fst ` set es \<Longrightarrow> AList.update k v es = es @ [(k, v)]"
  by (induction es) auto

lemma memo_put_ok:
  assumes ok: "memo_ok m" and bounded: "memo_bounded m"
  shows "\<exists>m'. memo_put q key t now m = Some m' \<and> memo_ok m' \<and> memo_bounded m'
    \<and> (memo_kept H m \<longrightarrow> memo_kept (insert (q, key, t, now) H) m')
    \<and> (tally_bytes t \<le> memo_max \<longrightarrow> map_of (rm_entries m') key = Some \<lparr>me_query = q, me_at = now, me_tally = t\<rparr>)"
proof (cases "tally_bytes t > memo_max")
  case True
  then show ?thesis using assms by (auto simp: memo_put_def memo_kept_def)
next
  case False
  from memo_sweep_ok [OF ok, of "rm_entries m" q key now] ok obtain m1 where
      m1: "memo_sweep q key now (rm_entries m) m = Some m1" "memo_ok m1" "part_of m1 m"
      and gone: "map_of (rm_entries m1) key = None"
    by (auto simp: memo_ok_def map_of_eq_None_iff)
  from memo_evict_ok [OF m1(2), of "tally_bytes t"] False obtain m2 where
      m2: "memo_evict (tally_bytes t) m1 = Some m2" "memo_ok m2" "part_of m2 m1"
        "length (rm_entries m2) < memo_limit" "rm_bytes m2 + tally_bytes t \<le> memo_max" by auto
  have fresh: "key \<notin> fst ` set (rm_entries m2)"
    using gone m2(3) unfolding part_of_def map_le_def by (metis domI map_of_eq_None_iff not_None_eq)
  let ?x = "\<lparr>me_query = q, me_at = now, me_tally = t\<rparr>"
  have upd: "AList.update key ?x (rm_entries m2) = rm_entries m2 @ [(key, ?x)]"
    using fresh by (rule update_new)
  have put: "memo_put q key t now m = Some \<lparr>rm_bytes = rm_bytes m2 + tally_bytes t, rm_entries = rm_entries m2 @ [(key, ?x)]\<rparr>"
    using False m1(1) m2(1) by (simp add: memo_put_def upd)
  show ?thesis
  proof (intro exI [of _ "\<lparr>rm_bytes = rm_bytes m2 + tally_bytes t, rm_entries = rm_entries m2 @ [(key, ?x)]\<rparr>"] conjI impI put)
    show "memo_ok \<lparr>rm_bytes = rm_bytes m2 + tally_bytes t, rm_entries = rm_entries m2 @ [(key, ?x)]\<rparr>"
      using m2(2) fresh by (auto simp: memo_ok_def entries_bytes_def)
    show "memo_bounded \<lparr>rm_bytes = rm_bytes m2 + tally_bytes t, rm_entries = rm_entries m2 @ [(key, ?x)]\<rparr>"
      using m2(4,5) by (simp add: memo_bounded_def)
    show "map_of (rm_entries \<lparr>rm_bytes = rm_bytes m2 + tally_bytes t, rm_entries = rm_entries m2 @ [(key, ?x)]\<rparr>) key = Some ?x"
    proof -
      have "map_of (rm_entries m2) key = None" using fresh by (simp add: map_of_eq_None_iff)
      then show ?thesis by (simp add: map_add_def)
    qed
    assume "memo_kept H m"
    then have "memo_kept H m2" using part_of_kept m1(3) m2(3) by blast
    then show "memo_kept (insert (q, key, t, now) H) \<lparr>rm_bytes = rm_bytes m2 + tally_bytes t, rm_entries = rm_entries m2 @ [(key, ?x)]\<rparr>"
      by (auto simp: memo_kept_def map_add_def split: option.splits if_splits)
  qed
qed

lemma memo_reach_ok: "memo_reach H m \<Longrightarrow> memo_ok m \<and> memo_bounded m \<and> memo_kept H m"
proof (induction rule: memo_reach.induct)
  case memo_new
  then show ?case by (simp add: memo_ok_def memo_bounded_def memo_kept_def entries_bytes_def memo_limit_def memo_max_def)
next
  case (memo_step H m q key t now m')
  with memo_put_ok [of m q key t now H] show ?case by auto
next
  case (memo_order H m es)
  have "distinct (map fst es) \<longleftrightarrow> distinct (map fst (rm_entries m))"
    by (rule mset_eq_imp_distinct_iff) (simp add: memo_order.hyps(2) mset_map)
  moreover have "entries_bytes es = entries_bytes (rm_entries m)"
  proof -
    have "mset (map (\<lambda>(k, x). tally_bytes (me_tally x)) es) = mset (map (\<lambda>(k, x). tally_bytes (me_tally x)) (rm_entries m))"
      by (simp add: memo_order.hyps(2) mset_map)
    then show ?thesis unfolding entries_bytes_def by (simp only: sum_mset_sum_list [symmetric])
  qed
  moreover have "length es = length (rm_entries m)" using memo_order.hyps(2) by (rule mset_eq_length)
  moreover have "distinct (map fst es) \<Longrightarrow> map_of es = map_of (rm_entries m)"
    using calculation(1) mset_eq_setD [OF memo_order.hyps(2)] by (simp add: map_of_inject_set)
  ultimately show ?case using memo_order.IH by (auto simp: memo_ok_def memo_bounded_def memo_kept_def)
qed

text \<open>
  In every memo that can come about, whatever order its map is ranged over in, a put ends without
  a panic and leaves at most 16 entries of at most 8 MiB in all, its count of bytes exact; the tally
  put (unless too big on its own) is what a get of its key answers until a minute has passed; and
  no get ever answers a tally but one put under its key less than a minute before.
\<close>

theorem memo_put_returns:
  assumes "memo_reach H m"
  shows "\<exists>m'. memo_put q key t now m = Some m'
    \<and> length (rm_entries m') \<le> memo_limit \<and> rm_bytes m' \<le> memo_max
    \<and> rm_bytes m' = sum_list (map (\<lambda>(k, x). tally_bytes (me_tally x)) (rm_entries m'))
    \<and> (tally_bytes t \<le> memo_max \<longrightarrow> (\<forall>later. memo_get key later m' = (if later - now \<ge> memo_age then None else Some t)))
    \<and> (\<forall>k later s. memo_get k later m' = Some s \<longrightarrow>
        (\<exists>q' at_time. (q', k, s, at_time) \<in> insert (q, key, t, now) H \<and> later - at_time < memo_age))"
proof -
  from memo_reach_ok [OF assms] have m: "memo_ok m" "memo_bounded m" "memo_kept H m" by auto
  from memo_put_ok [OF m(1,2), of q key t now H] m(3) obtain m' where
      put: "memo_put q key t now m = Some m'" and ok: "memo_ok m'" "memo_bounded m'" "memo_kept (insert (q, key, t, now) H) m'"
      and own: "tally_bytes t \<le> memo_max \<longrightarrow> map_of (rm_entries m') key = Some \<lparr>me_query = q, me_at = now, me_tally = t\<rparr>" by blast
  have "\<exists>q' at_time. (q', k, s, at_time) \<in> insert (q, key, t, now) H \<and> later - at_time < memo_age"
    if "memo_get k later m' = Some s" for k later s
  proof -
    from that obtain x where "map_of (rm_entries m') k = Some x" "later - me_at x < memo_age" "me_tally x = s"
      by (auto simp: memo_get_def split: option.splits if_splits)
    with ok(3) show ?thesis unfolding memo_kept_def by blast
  qed
  with put ok own show ?thesis
    by (intro exI [of _ m']) (auto simp: memo_ok_def memo_bounded_def entries_bytes_def memo_get_def)
qed

definition one_count :: ret_tally where
  "one_count = \<lparr>rty_today = 20, rty_counts = [(\<lparr>rk_user = False, rk_cohort = 10, rk_offset = 0\<rparr>, 1)]\<rparr>"

theorem memo_put_returns_witness:
  "\<exists>m m'. memo_reach {(''q'', ''q1'', one_count, 5)} m \<and> memo_put ''q'' ''q2'' one_count 6 m = Some m'
    \<and> memo_get ''q1'' 7 m = Some one_count \<and> memo_get ''q2'' 7 m' = Some one_count"
proof -
  let ?x = "\<lparr>me_query = ''q'', me_at = 5, me_tally = one_count\<rparr>"
  let ?m = "\<lparr>rm_bytes = 64, rm_entries = [(''q1'', ?x)]\<rparr>"
  have size: "tally_bytes one_count = 64" by (simp add: tally_bytes_def one_count_def)
  have "memo_evict 64 \<lparr>rm_bytes = 0, rm_entries = []\<rparr> = Some \<lparr>rm_bytes = 0, rm_entries = []\<rparr>"
    by (subst memo_evict.simps) (simp add: memo_limit_def memo_max_def)
  then have "memo_put ''q'' ''q1'' one_count 5 \<lparr>rm_bytes = 0, rm_entries = []\<rparr> = Some ?m"
    by (simp add: memo_put_def size memo_max_def)
  from memo_step [OF memo_new this] have reach: "memo_reach {(''q'', ''q1'', one_count, 5)} ?m" by simp
  have "memo_get ''q1'' 7 ?m = Some one_count" by (simp add: memo_get_def memo_age_def)
  moreover from memo_put_returns [OF reach, of "''q''" "''q2''" one_count 6] obtain m' where
    "memo_put ''q'' ''q2'' one_count 6 ?m = Some m'"
    "tally_bytes one_count \<le> memo_max \<longrightarrow> (\<forall>later. memo_get ''q2'' later m' = (if later - 6 \<ge> memo_age then None else Some one_count))" by blast
  ultimately show ?thesis using reach size by (intro exI [of _ ?m] exI [of _ m']) (simp add: memo_max_def memo_age_def)
qed

end
