(* ===== verification/GroupTable.thy ===== *)
theory GroupTable
  imports Paths
begin

text \<open>
  The groups of an aggregation (\<^verbatim>\<open>internal/native/aggregate.go\<close>): each batch's dimension values as
  dictionary indices, its distinct tuples by a mixed-radix key, and the table, shared by the workers
  under a lock, that gives each tuple met a group. A worker's batches and the others' come in any
  order; the aggregation's memory, which the others grow and shrink meanwhile, is any number before
  each batch. The array or map of a batch's keys is a partial function of them.
\<close>

section \<open>Dimension values\<close>

record dim_val =
  dv_s :: string
  dv_n :: int
  dv_null :: bool

record dim_view =
  vw_dict :: "string list"
  vw_nums :: "int list"
  vw_idx :: "int list option"

datatype group_error = ViewError filter_error | TooManyValues

definition number_text :: "col_type \<Rightarrow> int \<Rightarrow> string" where
  "number_text typ n = (if typ = TypeDay then format_day n else dec_int n)"

fun number_rows :: "(nat \<Rightarrow> int option) \<Rightarrow> col_type \<Rightarrow> nat list \<Rightarrow> (int \<rightharpoonup> nat) \<times> string list \<times> int list \<times> int list
    \<Rightarrow> string list \<times> int list \<times> int list" where
  "number_rows val typ [] (known, dict, nums, idx) = (dict, nums, idx)"
| "number_rows val typ (i # is) (known, dict, nums, idx) = (case val i of
     None \<Rightarrow> number_rows val typ is (known, dict, nums, idx[i := - 1])
   | Some n \<Rightarrow> (case known n of
         Some x \<Rightarrow> number_rows val typ is (known, dict, nums, idx[i := int x])
       | None \<Rightarrow> number_rows val typ is (known(n \<mapsto> length dict), dict @ [number_text typ n], nums @ [n], idx[i := int (length dict)])))"

definition view_of :: "'f float_ops \<Rightarrow> (string \<Rightarrow> string) \<Rightarrow> 'f batch \<Rightarrow> string \<Rightarrow> col_type \<Rightarrow> nat list \<Rightarrow> group_error + dim_view" where
  "view_of fo low b name typ sel = (case batch_column fo low b name of
     None \<Rightarrow> Inr \<lparr>vw_dict = [], vw_nums = [], vw_idx = None\<rparr>
   | Some c \<Rightarrow>
       if typ = TypeString then (case c_idx c of
           None \<Rightarrow> Inl (ViewError (NotText name))
         | Some idx \<Rightarrow> Inr \<lparr>vw_dict = c_dict c, vw_nums = [], vw_idx = Some idx\<rparr>)
       else if (typ = TypeBucket \<and> c_floats c = None) \<or> (typ \<noteq> TypeBucket \<and> c_ints c = None) then Inl (ViewError (NotNumber name))
       else
         let val = (\<lambda>i. if typ = TypeBucket then Some (bucket_of fo (if is_null c i then None else Some (the (c_floats c) ! i)))
                      else if is_null c i then None else Some (the (c_ints c) ! i))
         in (case number_rows val typ sel (Map.empty, [], [], replicate (b_n b) 0) of
             (dict, nums, idx) \<Rightarrow> Inr \<lparr>vw_dict = dict, vw_nums = nums, vw_idx = Some idx\<rparr>))"

definition row_index :: "dim_view \<Rightarrow> nat \<Rightarrow> int" where
  "row_index v i = (case vw_idx v of None \<Rightarrow> - 1 | Some idx \<Rightarrow> idx ! i)"

text \<open>The views of the dimensions and each one's place in the key, 64 bits of which are enough or refused.\<close>

definition max_uint64 :: int where "max_uint64 = 2 ^ 64 - 1"

fun views_of :: "'f float_ops \<Rightarrow> (string \<Rightarrow> string) \<Rightarrow> 'f batch \<Rightarrow> nat list \<Rightarrow> string list \<Rightarrow> nat
    \<Rightarrow> group_error + (dim_view \<times> nat) list \<times> nat" where
  "views_of fo low b sel [] radix = Inr ([], radix)"
| "views_of fo low b sel (d # ds) radix = and_then (view_of fo low b d (type_of d) sel) (\<lambda>v.
     let r = length (vw_dict v) + 1 in
     if int radix > max_uint64 div int r then Inl TooManyValues
     else and_then (views_of fo low b sel ds (radix * r)) (\<lambda>(vs, radix_end). Inr ((v, radix) # vs, radix_end)))"

definition local_key :: "(dim_view \<times> nat) list \<Rightarrow> nat \<Rightarrow> nat" where
  "local_key vs i = sum_list (map (\<lambda>(v, mult). nat (row_index v i + 1) * mult) vs)"

text \<open>A row of each distinct key, in the order met, and each row's place among them.\<close>

fun slot_rows :: "(nat \<Rightarrow> nat) \<Rightarrow> nat list \<Rightarrow> (nat \<rightharpoonup> nat) \<Rightarrow> nat list \<Rightarrow> nat list \<times> nat list" where
  "slot_rows key [] seen first_rows = ([], first_rows)"
| "slot_rows key (i # is) seen first_rows = (case seen (key i) of
     Some s \<Rightarrow> (case slot_rows key is seen first_rows of (slots, fr) \<Rightarrow> (s # slots, fr))
   | None \<Rightarrow> (case slot_rows key is (seen(key i \<mapsto> length first_rows)) (first_rows @ [i]) of
         (slots, fr) \<Rightarrow> (length first_rows # slots, fr)))"

text \<open>A tuple and its encoding: a 0 for NULL, else a 1, the length and the text.\<close>

definition val_at :: "dim_view \<Rightarrow> nat \<Rightarrow> dim_val" where
  "val_at v i = (let x = row_index v i in
     if x < 0 then \<lparr>dv_s = [], dv_n = 0, dv_null = True\<rparr>
     else \<lparr>dv_s = vw_dict v ! nat x, dv_n = (if vw_nums v \<noteq> [] then vw_nums v ! nat x else 0), dv_null = False\<rparr>)"

fun uvarint :: "nat \<Rightarrow> string" where
  "uvarint n = (if n < 128 then [char_of n] else char_of (n mod 128 + 128) # uvarint (n div 128))"

declare uvarint.simps [simp del]

definition val_code :: "dim_val \<Rightarrow> string" where
  "val_code v = (if dv_null v then [char_of (0 :: nat)] else char_of (1 :: nat) # uvarint (length (dv_s v)) @ dv_s v)"

definition tuple_code :: "dim_val list \<Rightarrow> string" where
  "tuple_code t = concat (map val_code t)"

section \<open>The table\<close>

record agg_memory =
  am_n :: int
  am_max :: int

record group_table =
  gt_ids :: "string \<rightharpoonup> nat"
  gt_vals :: "dim_val list list"
  gt_max :: nat
  gt_dropped :: bool

definition new_table :: "nat \<Rightarrow> group_table" where
  "new_table cap = \<lparr>gt_ids = Map.empty, gt_vals = [], gt_max = cap, gt_dropped = False\<rparr>"

definition memory_over :: "agg_memory \<Rightarrow> bool" where
  "memory_over m \<longleftrightarrow> am_n m > am_max m"

definition group_bytes :: "string \<Rightarrow> dim_val list \<Rightarrow> int" where
  "group_bytes k t = 2 * int (length k) + 48 + int (length t) * 32"

fun resolve_tuples :: "(string \<times> dim_val list) list \<Rightarrow> group_table \<Rightarrow> agg_memory \<Rightarrow> int list \<times> group_table \<times> agg_memory" where
  "resolve_tuples [] t mem = ([], t, mem)"
| "resolve_tuples ((k, tuple) # rest) t mem = (case gt_ids t k of
     Some g \<Rightarrow> (case resolve_tuples rest t mem of (gs, t', mem') \<Rightarrow> (int g # gs, t', mem'))
   | None \<Rightarrow>
       if length (gt_vals t) \<ge> gt_max t \<or> memory_over mem
       then (case resolve_tuples rest (t\<lparr>gt_dropped := True\<rparr>) mem of (gs, t', mem') \<Rightarrow> (- 1 # gs, t', mem'))
       else (let g = length (gt_vals t) in
         case resolve_tuples rest (t\<lparr>gt_ids := (gt_ids t)(k \<mapsto> g), gt_vals := gt_vals t @ [tuple]\<rparr>)
                (mem\<lparr>am_n := am_n mem + group_bytes k tuple\<rparr>) of (gs, t', mem') \<Rightarrow> (int g # gs, t', mem')))"

text \<open>Each selected row's group, and the largest; without dimensions (no table) every row is in group 0.\<close>

definition groups_of :: "'f float_ops \<Rightarrow> (string \<Rightarrow> string) \<Rightarrow> string list \<Rightarrow> 'f batch \<Rightarrow> nat list \<Rightarrow> group_table option \<Rightarrow> agg_memory
    \<Rightarrow> group_error + int list \<times> int \<times> group_table option \<times> agg_memory" where
  "groups_of fo low dims b sel table mem = (case table of
     None \<Rightarrow> Inr (map (\<lambda>_. 0) sel, 0, None, mem)
   | Some t \<Rightarrow> and_then (views_of fo low b sel dims 1) (\<lambda>(vs, radix).
       case slot_rows (local_key vs) sel Map.empty [] of (slots, first_rows) \<Rightarrow>
         let tuples = map (\<lambda>i. map (\<lambda>(v, m). val_at v i) vs) first_rows in
         case resolve_tuples (map (\<lambda>tuple. (tuple_code tuple, tuple)) tuples) t mem of (resolved, t', mem') \<Rightarrow>
           let gids = map (\<lambda>s. resolved ! s) slots
           in Inr (gids, foldl max (- 1) gids, Some t', mem')))"

text \<open>A scan's batches, each with its selected rows and the memory held when its groups are resolved.\<close>

fun group_batches :: "'f float_ops \<Rightarrow> (string \<Rightarrow> string) \<Rightarrow> string list \<Rightarrow> ('f batch \<times> nat list \<times> agg_memory) list \<Rightarrow> group_table
    \<Rightarrow> group_error + int list list \<times> group_table" where
  "group_batches fo low dims [] t = Inr ([], t)"
| "group_batches fo low dims ((b, sel, mem) # rest) t = and_then (groups_of fo low dims b sel (Some t) mem) (\<lambda>(gids, gmax, t1, mem1).
     and_then (group_batches fo low dims rest (the t1)) (\<lambda>(gs, t2). Inr (gids # gs, t2)))"

section \<open>Encodings tell tuples apart\<close>

lemma uvarint_cancel: "uvarint m @ x = uvarint n @ y \<longleftrightarrow> m = n \<and> x = y"
proof
  show "uvarint m @ x = uvarint n @ y \<Longrightarrow> m = n \<and> x = y"
  proof (induction m arbitrary: n rule: uvarint.induct)
    case (1 m)
    have low: "k < 256 \<Longrightarrow> l < 256 \<Longrightarrow> char_of k = (char_of l :: char) \<longleftrightarrow> k = l" for k l :: nat
      by (metis mod_less of_char_of)
    have digit: "k mod 128 + 128 < (256 :: nat)" for k by (simp add: add.commute)
    show ?case
    proof (cases "m < 128")
      case True
      show ?thesis
      proof (cases "n < 128")
        case True
        with \<open>m < 128\<close> 1(2) low [of m n] show ?thesis by (simp add: uvarint.simps [of m] uvarint.simps [of n])
      next
        case False
        with \<open>m < 128\<close> 1(2) low [of m "n mod 128 + 128"] digit [of n] show ?thesis by (simp add: uvarint.simps [of m] uvarint.simps [of n])
      qed
    next
      case False
      show ?thesis
      proof (cases "n < 128")
        case True
        with \<open>\<not> m < 128\<close> 1(2) low [of "m mod 128 + 128" n] digit [of m] show ?thesis by (simp add: uvarint.simps [of m] uvarint.simps [of n])
      next
        case n: False
        with False 1(2) low [of "m mod 128 + 128" "n mod 128 + 128"] digit have
          "m mod 128 = n mod 128" "uvarint (m div 128) @ x = uvarint (n div 128) @ y"
          by (simp_all add: uvarint.simps [of m] uvarint.simps [of n])
        with 1(1) [OF False, of "n div 128"] show ?thesis by (metis mult_div_mod_eq)
      qed
    qed
  qed
qed simp

text \<open>What tells values of a dimension apart: NULL, or the text.\<close>

definition val_text :: "dim_val \<Rightarrow> string option" where
  "val_text v = (if dv_null v then None else Some (dv_s v))"

lemma val_code_cancel: "val_code u @ x = val_code v @ y \<longleftrightarrow> val_text u = val_text v \<and> x = y"
proof -
  have "char_of (0 :: nat) \<noteq> (char_of (1 :: nat) :: char)" by (simp add: char_of_def bit_0)
  then show ?thesis
    by (auto simp: val_code_def val_text_def uvarint_cancel append_eq_append_conv)
qed

lemma tuple_code_inj: "length s = length t \<Longrightarrow> tuple_code s = tuple_code t \<longleftrightarrow> map val_text s = map val_text t"
proof -
  have "length s = length t \<Longrightarrow> tuple_code s @ x = tuple_code t @ y \<longleftrightarrow> map val_text s = map val_text t \<and> x = y" for x y
    by (induction s t rule: list_induct2) (auto simp: tuple_code_def val_code_cancel)
  from this [of "[]" "[]"] show "length s = length t \<Longrightarrow> ?thesis" by simp
qed


section \<open>A view holds the rows' texts\<close>

text \<open>The text of a dimension in a row: NULL, the text, or the number or day as text.\<close>

definition dim_text :: "'f float_ops \<Rightarrow> (string \<Rightarrow> string) \<Rightarrow> 'f batch \<Rightarrow> string \<Rightarrow> nat \<Rightarrow> string option" where
  "dim_text fo low b d i = (case type_of d of
     TypeString \<Rightarrow> (case row_cell fo low b d i of Text s \<Rightarrow> Some s | _ \<Rightarrow> None)
   | TypeBucket \<Rightarrow> Some (dec_int (bucket_of fo (case row_cell fo low b d i of Float x \<Rightarrow> Some x | _ \<Rightarrow> None)))
   | t \<Rightarrow> (case row_cell fo low b d i of Num n \<Rightarrow> Some (number_text t n) | _ \<Rightarrow> None))"

definition view_ok :: "(nat \<Rightarrow> string option) \<Rightarrow> nat list \<Rightarrow> dim_view \<Rightarrow> bool" where
  "view_ok val sel v \<longleftrightarrow> (\<forall>i \<in> set sel. row_index v i < int (length (vw_dict v)) \<and> val_text (val_at v i) = val i)"

lemma number_rows_ok:
  assumes "number_rows val typ js (known, map (number_text typ) nums, nums, idx) = (dict', nums', idx')"
    and "\<And>n x. known n = Some x \<longleftrightarrow> x < length nums \<and> nums ! x = n" "\<forall>j \<in> set js. j < length idx"
  shows "dict' = map (number_text typ) nums' \<and> (\<exists>more. nums' = nums @ more) \<and> length idx' = length idx
    \<and> (\<forall>j < length idx. j \<notin> set js \<longrightarrow> idx' ! j = idx ! j)
    \<and> (\<forall>j \<in> set js. case val j of None \<Rightarrow> idx' ! j = - 1
        | Some n \<Rightarrow> 0 \<le> idx' ! j \<and> nat (idx' ! j) < length nums' \<and> nums' ! nat (idx' ! j) = n)"
  using assms
proof (induction js arbitrary: known nums idx)
  case (Cons i js)
  have later: "(case val j of None \<Rightarrow> y = - 1 | Some n \<Rightarrow> 0 \<le> y \<and> nat y < length nums' \<and> nums' ! nat y = n)"
    if "nums' = nums1 @ more" "case val j of None \<Rightarrow> y = - 1 | Some n \<Rightarrow> 0 \<le> y \<and> nat y < length nums1 \<and> nums1 ! nat y = n" for j y nums1 more
    using that by (auto simp: nth_append split: option.splits)
  have step: "?case" if
      r: "number_rows val typ js (known1, map (number_text typ) nums1, nums1, idx[i := y]) = (dict', nums', idx')"
      and known1: "\<And>n x. known1 n = Some x \<longleftrightarrow> x < length nums1 \<and> nums1 ! x = n"
      and more: "nums1 = nums @ more1"
      and y: "case val i of None \<Rightarrow> y = - 1 | Some n \<Rightarrow> 0 \<le> y \<and> nat y < length nums1 \<and> nums1 ! nat y = n" for known1 nums1 more1 y
  proof -
    have "\<forall>j \<in> set js. j < length (idx[i := y])" using Cons.prems(3) by simp
    note IH = Cons.IH [OF r known1 this]
    then obtain more2 where nums': "nums' = nums1 @ more2" by blast
    have "i < length idx" using Cons.prems(3) by simp
    have "case val i of None \<Rightarrow> idx' ! i = - 1 | Some n \<Rightarrow> 0 \<le> idx' ! i \<and> nat (idx' ! i) < length nums' \<and> nums' ! nat (idx' ! i) = n"
    proof (cases "i \<in> set js")
      case True
      with IH show ?thesis by blast
    next
      case False
      then have "idx' ! i = y" using IH \<open>i < length idx\<close> by simp
      with later [OF nums' y] show ?thesis by (simp only:)
    qed
    moreover have "nums' = nums @ (more1 @ more2)" by (simp add: nums' more)
    ultimately show ?thesis using IH by auto
  qed
  show ?case
  proof (cases "val i")
    case None
    show ?thesis by (rule step [of known nums "- 1" "[]"]) (use Cons.prems(1,2) None in auto)
  next
    case (Some n)
    show ?thesis
    proof (cases "known n")
      case (Some x)
      then have "x < length nums" "nums ! x = n" using Cons.prems(2) by auto
      with Cons.prems(1,2) Some \<open>val i = Some n\<close> show ?thesis by (intro step [of known nums "int x" "[]"]) auto
    next
      case None
      have new: "n \<notin> set nums"
      proof
        assume "n \<in> set nums"
        then obtain x where "x < length nums" "nums ! x = n" by (auto simp: in_set_conv_nth)
        then have "known n = Some x" using Cons.prems(2) by simp
        with None show False by simp
      qed
      show ?thesis
      proof (rule step [of "known(n \<mapsto> length nums)" "nums @ [n]" "int (length nums)" "[n]"])
        show "(known(n \<mapsto> length nums)) k = Some x \<longleftrightarrow> x < length (nums @ [n]) \<and> (nums @ [n]) ! x = k" for k x
          using Cons.prems(2) [of k x] new by (auto simp: nth_append less_Suc_eq)
      qed (use Cons.prems(1) None \<open>val i = Some n\<close> in auto)
    qed
  qed
qed simp

lemma view_of_ok:
  assumes ok: "batch_ok b" and sel: "\<forall>i \<in> set sel. i < b_n b" and v: "view_of fo low b d (type_of d) sel = Inr v"
  shows "view_ok (dim_text fo low b d) sel v"
proof (cases "batch_column fo low b d")
  case None
  from batch_column_none [OF None] have "row_cell fo low b d i = Null" "d \<noteq> ''bucket''" for i by auto
  then have "dim_text fo low b d i = None" for i by (auto simp: dim_text_def type_bucket split: col_type.splits)
  with None v show ?thesis by (auto simp: view_of_def view_ok_def row_index_def val_at_def val_text_def Let_def)
next
  case (Some c)
  note cells = batch_column_cells [OF ok Some]
  have cell: "row_cell fo low b d i = cell_at c i" if "i \<in> set sel" for i using cells sel that by auto
  show ?thesis
  proof (cases "type_of d = TypeString")
    case True
    then obtain idx where idx: "c_idx c = Some idx" and v': "v = \<lparr>vw_dict = c_dict c, vw_nums = [], vw_idx = Some idx\<rparr>"
      using v Some by (auto simp: view_of_def split: option.splits)
    have "length idx = b_n b \<and> (\<forall>x \<in> set idx. x < int (length (c_dict c)))" using cells idx by (simp add: column_ok_def)
    then have "row_index v i < int (length (vw_dict v)) \<and> val_text (val_at v i) = dim_text fo low b d i" if "i \<in> set sel" for i
      using that sel cell [OF that] True idx
      by (auto simp: v' row_index_def val_at_def val_text_def dim_text_def cell_at_def Let_def)
    then show ?thesis by (simp add: view_ok_def)
  next
    case False
    define val where "val i = (if type_of d = TypeBucket then Some (bucket_of fo (if is_null c i then None else Some (the (c_floats c) ! i)))
                      else if is_null c i then None else Some (the (c_ints c) ! i))" for i
    obtain dict nums idx where r: "number_rows val (type_of d) sel (Map.empty, [], [], replicate (b_n b) 0) = (dict, nums, idx)"
      by (metis prod_cases3)
    have typed: "if type_of d = TypeBucket then c_floats c \<noteq> None else c_ints c \<noteq> None"
      using v Some False by (auto simp: view_of_def split: if_splits)
    have v': "v = \<lparr>vw_dict = dict, vw_nums = nums, vw_idx = Some idx\<rparr>"
      using v Some False typed r by (auto simp: view_of_def val_def [abs_def] Let_def split: if_splits)
    from number_rows_ok [of val "type_of d" sel Map.empty "[]" "replicate (b_n b) 0" dict nums idx] r sel
    have dict: "dict = map (number_text (type_of d)) nums"
      and rows: "\<forall>j \<in> set sel. case val j of None \<Rightarrow> idx ! j = - 1 | Some n \<Rightarrow> 0 \<le> idx ! j \<and> nat (idx ! j) < length nums \<and> nums ! nat (idx ! j) = n"
      by auto
    have texts: "dim_text fo low b d i = map_option (number_text (type_of d)) (val i)" if "i \<in> set sel" for i
    proof (cases "type_of d = TypeBucket")
      case True
      then have "c_idx c = None" "c_ints c = None" "c_floats c \<noteq> None" using typed cells by (auto simp: column_ok_def)
      then show ?thesis using True cell [OF that] by (auto simp: dim_text_def val_def number_text_def cell_at_def)
    next
      case nb: False
      then have "c_idx c = None" "c_ints c \<noteq> None" using typed cells by (auto simp: column_ok_def)
      then show ?thesis using nb False cell [OF that] by (cases "type_of d") (auto simp: dim_text_def val_def cell_at_def)
    qed
    have "row_index v i < int (length (vw_dict v)) \<and> val_text (val_at v i) = dim_text fo low b d i" if i: "i \<in> set sel" for i
    proof (cases "val i")
      case None
      then have "idx ! i = - 1" using rows i by auto
      then show ?thesis using texts [OF i] None by (simp add: v' row_index_def val_at_def val_text_def Let_def)
    next
      case (Some n)
      then have "0 \<le> idx ! i" "nat (idx ! i) < length nums" "nums ! nat (idx ! i) = n" using rows i by auto
      then show ?thesis using texts [OF i] Some by (simp add: v' row_index_def val_at_def val_text_def Let_def dict)
    qed
    then show ?thesis by (simp add: view_ok_def)
  qed
qed


section \<open>A batch's keys tell its rows' tuples apart\<close>

text \<open>The key as mixed-radix digits: a view's index plus one, below the size of its dictionary plus one.\<close>

fun digits :: "(dim_view \<times> nat) list \<Rightarrow> nat \<Rightarrow> nat" where
  "digits [] i = 0"
| "digits ((v, m) # vs) i = nat (row_index v i + 1) + (length (vw_dict v) + 1) * digits vs i"

lemma views_of_digits:
  assumes "views_of fo low b sel ds radix = Inr (vs, radix_end)"
  shows "local_key vs i = radix * digits vs i" "radix_end = radix * prod_list (map (\<lambda>(v, m). length (vw_dict v) + 1) vs)" "length vs = length ds"
    and "\<forall>k < length ds. view_of fo low b (ds ! k) (type_of (ds ! k)) sel = Inr (fst (vs ! k))"
proof -
  have "local_key vs i = radix * digits vs i \<and> radix_end = radix * prod_list (map (\<lambda>(v, m). length (vw_dict v) + 1) vs) \<and> length vs = length ds
      \<and> (\<forall>k < length ds. view_of fo low b (ds ! k) (type_of (ds ! k)) sel = Inr (fst (vs ! k)))"
    using assms
  proof (induction ds arbitrary: radix vs)
    case (Cons d ds)
    obtain v vs' where v: "view_of fo low b d (type_of d) sel = Inr v" and vs: "vs = (v, radix) # vs'"
        and r: "views_of fo low b sel ds (radix * (length (vw_dict v) + 1)) = Inr (vs', radix_end)"
      using Cons.prems by (auto simp: and_then_Inr Let_def split: if_splits)
    from Cons.IH [OF r] v show ?case
      by (auto simp: vs local_key_def algebra_simps nth_Cons split: nat.splits)
  qed (simp add: local_key_def)
  then show "local_key vs i = radix * digits vs i" "radix_end = radix * prod_list (map (\<lambda>(v, m). length (vw_dict v) + 1) vs)" "length vs = length ds"
    "\<forall>k < length ds. view_of fo low b (ds ! k) (type_of (ds ! k)) sel = Inr (fst (vs ! k))" by blast+
qed

lemma mixed_digits:
  assumes "(a :: nat) + r * b = c + r * d" "a < r" "c < r"
  shows "a = c \<and> b = d"
proof -
  have "a = (a + r * b) mod r" "c = (c + r * d) mod r" using assms(2,3) by simp_all
  then have "a = c" using assms(1) by metis
  with assms show ?thesis by auto
qed

lemma digits_tell:
  assumes "\<forall>(v, m) \<in> set vs. row_index v i < int (length (vw_dict v)) \<and> row_index v j < int (length (vw_dict v))"
    and "digits vs i = digits vs j"
  shows "map (\<lambda>(v, m). val_at v i) vs = map (\<lambda>(v, m). val_at v j) vs"
  using assms
proof (induction vs)
  case (Cons p vs)
  obtain v m where p: "p = (v, m)" by fastforce
  have "nat (row_index v i + 1) < length (vw_dict v) + 1" "nat (row_index v j + 1) < length (vw_dict v) + 1"
    using Cons.prems(1) by (auto simp: p)
  from mixed_digits [OF _ this, of "digits vs i" "digits vs j"] Cons.prems(2)
  have "nat (row_index v i + 1) = nat (row_index v j + 1)" "digits vs i = digits vs j" by (simp_all add: p)
  moreover have "row_index v i = row_index v j \<or> row_index v i < 0 \<and> row_index v j < 0" using calculation(1) by linarith
  then have "val_at v i = val_at v j" by (auto simp: val_at_def Let_def)
  ultimately show ?case using Cons.IH Cons.prems(1) by (simp add: p)
qed simp

text \<open>The key indexes the dense array of \<open>radix_end\<close> entries.\<close>

lemma digits_bound:
  "\<forall>(v, m) \<in> set vs. row_index v i < int (length (vw_dict v)) \<Longrightarrow> digits vs i < prod_list (map (\<lambda>(v, m). length (vw_dict v) + 1) vs)"
proof (induction vs)
  case (Cons p vs)
  obtain v m where p: "p = (v, m)" by fastforce
  have "row_index v i < int (length (vw_dict v))" using Cons.prems by (simp add: p)
  then have "nat (row_index v i + 1) \<le> length (vw_dict v)" by linarith
  moreover have "digits vs i < prod_list (map (\<lambda>(v, m). length (vw_dict v) + 1) vs)" using Cons by (simp add: p)
  then have "(length (vw_dict v) + 1) * (digits vs i + 1) \<le> (length (vw_dict v) + 1) * prod_list (map (\<lambda>(v, m). length (vw_dict v) + 1) vs)"
    by (intro mult_le_mono2) simp
  ultimately show ?case by (simp add: p algebra_simps)
qed simp

lemma slot_rows_ok:
  assumes "slot_rows key js seen fr = (slots, fr')" "\<forall>k s. seen k = Some s \<longrightarrow> s < length fr \<and> key (fr ! s) = k"
  shows "length slots = length js \<and> (\<exists>more. fr' = fr @ more \<and> set more \<subseteq> set js)
    \<and> (\<forall>k < length js. slots ! k < length fr' \<and> key (fr' ! (slots ! k)) = key (js ! k))"
  using assms
proof (induction js arbitrary: seen fr slots)
  case (Cons j js)
  show ?case
  proof (cases "seen (key j)")
    case (Some s)
    then obtain slots' where r: "slot_rows key js seen fr = (slots', fr')" and slots: "slots = s # slots'"
      using Cons.prems(1) by (auto split: prod.splits)
    from Cons.prems(2) Some have s: "s < length fr" "key (fr ! s) = key j" by auto
    from Cons.IH [OF r Cons.prems(2)] s show ?thesis
      by (auto simp: slots nth_Cons nth_append split: nat.splits)
  next
    case None
    then obtain slots' where r: "slot_rows key js (seen(key j \<mapsto> length fr)) (fr @ [j]) = (slots', fr')" and slots: "slots = length fr # slots'"
      using Cons.prems(1) by (auto split: prod.splits)
    have "\<forall>k s. (seen(key j \<mapsto> length fr)) k = Some s \<longrightarrow> s < length (fr @ [j]) \<and> key ((fr @ [j]) ! s) = k"
      using Cons.prems(2) by (auto simp: nth_append less_Suc_eq)
    from Cons.IH [OF r this] obtain more where "length slots' = length js" "fr' = fr @ [j] @ more" "set more \<subseteq> set js"
        "\<forall>k < length js. slots' ! k < length fr' \<and> key (fr' ! (slots' ! k)) = key (js ! k)" by auto
    then show ?thesis by (auto simp: slots nth_Cons nth_append split: nat.splits)
  qed
qed simp

section \<open>The table tells tuples apart\<close>

definition groups_ok :: "nat \<Rightarrow> group_table \<Rightarrow> bool" where
  "groups_ok width t \<longleftrightarrow> (\<forall>v \<in> set (gt_vals t). length v = width) \<and> length (gt_vals t) \<le> gt_max t
     \<and> (\<forall>k g. gt_ids t k = Some g \<longrightarrow> g < length (gt_vals t) \<and> tuple_code (gt_vals t ! g) = k)
     \<and> (\<forall>g < length (gt_vals t). gt_ids t (tuple_code (gt_vals t ! g)) = Some g)"

lemma groups_ok_insert:
  assumes ok: "groups_ok width t" and v: "length v = width" and none: "gt_ids t (tuple_code v) = None" and room: "length (gt_vals t) < gt_max t"
  shows "groups_ok width (t\<lparr>gt_ids := (gt_ids t)(tuple_code v \<mapsto> length (gt_vals t)), gt_vals := gt_vals t @ [v]\<rparr>)"
proof -
  have ids: "gt_ids t k = Some g \<Longrightarrow> g < length (gt_vals t) \<and> tuple_code (gt_vals t ! g) = k" for k g using ok by (simp add: groups_ok_def)
  have inverse: "g < length (gt_vals t) \<Longrightarrow> gt_ids t (tuple_code (gt_vals t ! g)) = Some g" for g using ok by (simp add: groups_ok_def)
  have other: "g < length (gt_vals t) \<Longrightarrow> tuple_code (gt_vals t ! g) \<noteq> tuple_code v" for g using inverse [of g] none by auto
  have "g < length (gt_vals t @ [v]) \<and> tuple_code ((gt_vals t @ [v]) ! g) = k"
    if "((gt_ids t)(tuple_code v \<mapsto> length (gt_vals t))) k = Some g" for k g
  proof (cases "k = tuple_code v")
    case True
    with that have "g = length (gt_vals t)" by simp
    with True show ?thesis by simp
  next
    case False
    with that have "gt_ids t k = Some g" by simp
    from ids [OF this] show ?thesis by (simp add: nth_append)
  qed
  moreover have "((gt_ids t)(tuple_code v \<mapsto> length (gt_vals t))) (tuple_code ((gt_vals t @ [v]) ! g)) = Some g"
    if "g < length (gt_vals t @ [v])" for g
  proof (cases "g < length (gt_vals t)")
    case True
    then show ?thesis using inverse [OF True] other [OF True] by (simp add: nth_append)
  next
    case False
    then have "g = length (gt_vals t)" using that by simp
    then show ?thesis by simp
  qed
  ultimately show ?thesis using ok v room unfolding groups_ok_def by simp
qed

text \<open>A row's group: tracked under the tuple, or dropped.\<close>

definition in_group :: "group_table \<Rightarrow> string option list \<Rightarrow> int \<Rightarrow> bool" where
  "in_group t key g \<longleftrightarrow> g = - 1 \<and> gt_dropped t \<or> 0 \<le> g \<and> nat g < length (gt_vals t) \<and> map val_text (gt_vals t ! nat g) = key"

definition grows :: "group_table \<Rightarrow> group_table \<Rightarrow> bool" where
  "grows t t' \<longleftrightarrow> (\<exists>more. gt_vals t' = gt_vals t @ more) \<and> gt_max t' = gt_max t \<and> (gt_dropped t \<longrightarrow> gt_dropped t')"

lemma grows_refl: "grows t t"
  by (simp add: grows_def)

lemma grows_trans: "grows t t1 \<Longrightarrow> grows t1 t2 \<Longrightarrow> grows t t2"
  by (auto simp: grows_def)

lemma in_group_grows: "grows t t' \<Longrightarrow> in_group t key g \<Longrightarrow> in_group t' key g"
  by (auto simp: grows_def in_group_def nth_append)

lemma resolve_tuples_ok:
  assumes "resolve_tuples (map (\<lambda>tuple. (tuple_code tuple, tuple)) tuples) t mem = (gs, t', mem')"
    and "groups_ok width t" "\<forall>v \<in> set tuples. length v = width"
  shows "groups_ok width t' \<and> grows t t' \<and> length gs = length tuples
    \<and> (\<forall>k < length tuples. in_group t' (map val_text (tuples ! k)) (gs ! k))"
  using assms
proof (induction tuples arbitrary: t mem gs)
  case (Cons v tuples)
  have step: ?case if r: "resolve_tuples (map (\<lambda>tuple. (tuple_code tuple, tuple)) tuples) t1 mem1 = (gs1, t', mem')"
      and gs: "gs = g # gs1" and t1: "groups_ok width t1" "grows t t1" "in_group t1 (map val_text v) g" for t1 mem1 gs1 g
  proof -
    from Cons.IH [OF r t1(1)] Cons.prems(3) have IH: "groups_ok width t'" "grows t1 t'" "length gs1 = length tuples"
      "\<forall>k < length tuples. in_group t' (map val_text (tuples ! k)) (gs1 ! k)" by auto
    then show ?thesis using grows_trans [OF t1(2) IH(2)] in_group_grows [OF IH(2) t1(3)]
      by (auto simp: gs nth_Cons split: nat.splits)
  qed
  show ?case
  proof (cases "gt_ids t (tuple_code v)")
    case (Some g)
    then have g: "g < length (gt_vals t)" "tuple_code (gt_vals t ! g) = tuple_code v" using Cons.prems(2) by (auto simp: groups_ok_def)
    then have "length (gt_vals t ! g) = length v" using Cons.prems(2,3) by (simp add: groups_ok_def)
    from tuple_code_inj [OF this] g have "in_group t (map val_text v) (int g)" by (simp add: in_group_def)
    moreover obtain gs1 where "resolve_tuples (map (\<lambda>tuple. (tuple_code tuple, tuple)) tuples) t mem = (gs1, t', mem')" "gs = int g # gs1"
      using Some Cons.prems(1) by (auto split: prod.splits)
    ultimately show ?thesis using step [of t mem gs1 "int g"] Cons.prems(2) grows_refl by blast
  next
    case None
    show ?thesis
    proof (cases "length (gt_vals t) \<ge> gt_max t \<or> memory_over mem")
      case True
      let ?t1 = "t\<lparr>gt_dropped := True\<rparr>"
      have "groups_ok width ?t1" using Cons.prems(2) by (simp add: groups_ok_def)
      moreover have "grows t ?t1" "in_group ?t1 (map val_text v) (- 1)" by (simp_all add: grows_def in_group_def)
      moreover obtain gs1 where "resolve_tuples (map (\<lambda>tuple. (tuple_code tuple, tuple)) tuples) ?t1 mem = (gs1, t', mem')" "gs = - 1 # gs1"
        using True None Cons.prems(1) by (auto split: prod.splits)
      ultimately show ?thesis using step [of ?t1 mem gs1 "- 1"] by blast
    next
      case False
      let ?t1 = "t\<lparr>gt_ids := (gt_ids t)(tuple_code v \<mapsto> length (gt_vals t)), gt_vals := gt_vals t @ [v]\<rparr>"
      have "groups_ok width ?t1" by (rule groups_ok_insert [OF Cons.prems(2) _ None]) (use Cons.prems(3) False in auto)
      moreover have "grows t ?t1" "in_group ?t1 (map val_text v) (int (length (gt_vals t)))"
        by (simp_all add: grows_def in_group_def)
      moreover obtain gs1 where "resolve_tuples (map (\<lambda>tuple. (tuple_code tuple, tuple)) tuples) ?t1
          (mem\<lparr>am_n := am_n mem + group_bytes (tuple_code v) v\<rparr>) = (gs1, t', mem')" "gs = int (length (gt_vals t)) # gs1"
        using False None Cons.prems(1) by (auto simp: Let_def split: prod.splits)
      ultimately show ?thesis using step [of ?t1 _ gs1 "int (length (gt_vals t))"] by blast
    qed
  qed
qed (simp add: grows_refl)

section \<open>Groups are tuples\<close>

text \<open>A row's tuple, as text.\<close>

definition row_tuple :: "'f float_ops \<Rightarrow> (string \<Rightarrow> string) \<Rightarrow> 'f batch \<Rightarrow> string list \<Rightarrow> nat \<Rightarrow> string option list" where
  "row_tuple fo low b dims i = map (\<lambda>d. dim_text fo low b d i) dims"

lemma groups_of_ok:
  assumes ok: "batch_ok b" and sel: "\<forall>i \<in> set sel. i < b_n b"
    and g: "groups_of fo low dims b sel (Some t) mem = Inr (gids, gmax, t1, mem1)" and t: "groups_ok (length dims) t"
  shows "\<exists>t'. t1 = Some t' \<and> groups_ok (length dims) t' \<and> grows t t' \<and> length gids = length sel
    \<and> (\<forall>k < length sel. in_group t' (row_tuple fo low b dims (sel ! k)) (gids ! k))"
proof -
  obtain vs radix slots fr resolved t' where
      vs: "views_of fo low b sel dims 1 = Inr (vs, radix)" and slots: "slot_rows (local_key vs) sel Map.empty [] = (slots, fr)"
      and r: "resolve_tuples (map (\<lambda>tuple. (tuple_code tuple, tuple)) (map (\<lambda>i. map (\<lambda>(v, m). val_at v i) vs) fr)) t mem = (resolved, t', mem1)"
      and out: "gids = map (\<lambda>s. resolved ! s) slots" "t1 = Some t'"
  proof -
    from g obtain vs radix where vs: "views_of fo low b sel dims 1 = Inr (vs, radix)"
      by (auto simp: groups_of_def and_then_Inr)
    obtain slots fr where slots: "slot_rows (local_key vs) sel Map.empty [] = (slots, fr)" by fastforce
    obtain resolved t' mem' where r: "resolve_tuples (map (\<lambda>tuple. (tuple_code tuple, tuple)) (map (\<lambda>i. map (\<lambda>(v, m). val_at v i) vs) fr)) t mem = (resolved, t', mem')"
      by (rule prod_cases3)
    from g have "gids = map (\<lambda>s. resolved ! s) slots" "t1 = Some t'" "mem' = mem1"
      unfolding groups_of_def option.case vs and_then.simps prod.case slots Let_def r by simp_all
    with that vs slots r show thesis by blast
  qed
  note views = views_of_digits [OF vs]
  have view: "view_ok (dim_text fo low b (dims ! k)) sel (fst (vs ! k))" if "k < length dims" for k
    using view_of_ok [OF ok sel] views(4) that by blast
  have inside: "row_index v i < int (length (vw_dict v))" if "(v, m) \<in> set vs" "i \<in> set sel" for v m i
  proof -
    from that(1) obtain k where "k < length vs" "vs ! k = (v, m)" by (auto simp: in_set_conv_nth)
    with view [of k] views(3) that(2) show ?thesis by (auto simp: view_ok_def)
  qed
  have texts: "map val_text (map (\<lambda>(v, m). val_at v i) vs) = row_tuple fo low b dims i" if "i \<in> set sel" for i
    using view views(3) that by (auto simp: list_eq_iff_nth_eq row_tuple_def view_ok_def split_def)
  from slot_rows_ok [OF slots] have lens: "length slots = length sel" and fr: "set fr \<subseteq> set sel"
    and same: "\<And>k. k < length sel \<Longrightarrow> slots ! k < length fr \<and> local_key vs (fr ! (slots ! k)) = local_key vs (sel ! k)" by auto
  have "\<forall>v \<in> set (map (\<lambda>i. map (\<lambda>(v, m). val_at v i) vs) fr). length v = length dims" using views(3) by auto
  from resolve_tuples_ok [OF r t this]
  have t': "groups_ok (length dims) t'" "grows t t'" "length resolved = length fr"
    and res: "\<And>s. s < length fr \<Longrightarrow> in_group t' (map val_text (map (\<lambda>(v, m). val_at v (fr ! s)) vs)) (resolved ! s)" by auto
  have "in_group t' (row_tuple fo low b dims (sel ! k)) (gids ! k)" if k: "k < length sel" for k
  proof -
    let ?f = "fr ! (slots ! k)"
    have f: "?f \<in> set sel" "sel ! k \<in> set sel" using same [OF k] fr k by auto
    have "digits vs ?f = digits vs (sel ! k)" using same [OF k] views(1) by simp
    moreover have "\<forall>(v, m) \<in> set vs. row_index v ?f < int (length (vw_dict v)) \<and> row_index v (sel ! k) < int (length (vw_dict v))"
      using inside f by blast
    ultimately have "map (\<lambda>(v, m). val_at v ?f) vs = map (\<lambda>(v, m). val_at v (sel ! k)) vs" by (intro digits_tell)
    with res [of "slots ! k"] same [OF k] texts [OF f(2)] show ?thesis using k lens by (simp add: out)
  qed
  with t' lens out show ?thesis by auto
qed

lemma group_batches_ok:
  assumes "group_batches fo low dims bs t = Inr (gs, t')" "groups_ok (length dims) t"
    and "\<forall>(b, sel, mem) \<in> set bs. batch_ok b \<and> (\<forall>i \<in> set sel. i < b_n b)"
  shows "groups_ok (length dims) t' \<and> grows t t' \<and> length gs = length bs \<and> (\<forall>x < length bs. case bs ! x of (b, sel, mem) \<Rightarrow>
     length (gs ! x) = length sel \<and> (\<forall>k < length sel. in_group t' (row_tuple fo low b dims (sel ! k)) (gs ! x ! k)))"
  using assms
proof (induction bs arbitrary: t gs)
  case (Cons e bs)
  obtain b sel mem where e: "e = (b, sel, mem)" by (metis prod_cases3)
  obtain gids gmax t1 mem1 gs1 where g: "groups_of fo low dims b sel (Some t) mem = Inr (gids, gmax, t1, mem1)"
      and r: "group_batches fo low dims bs (the t1) = Inr (gs1, t')" and gs: "gs = gids # gs1"
    using Cons.prems(1) by (auto simp: e and_then_Inr)
  have b: "batch_ok b" "\<forall>i \<in> set sel. i < b_n b" using Cons.prems(3) by (auto simp: e)
  from groups_of_ok [OF b g Cons.prems(2)] obtain t2 where t2: "t1 = Some t2" "groups_ok (length dims) t2" "grows t t2" "length gids = length sel"
      "\<forall>k < length sel. in_group t2 (row_tuple fo low b dims (sel ! k)) (gids ! k)" by blast
  from Cons.IH [OF r] t2(1,2) Cons.prems(3) have IH: "groups_ok (length dims) t'" "grows t2 t'" "length gs1 = length bs"
    "\<And>x. x < length bs \<Longrightarrow> case bs ! x of (b, sel, mem) \<Rightarrow>
       length (gs1 ! x) = length sel \<and> (\<forall>k < length sel. in_group t' (row_tuple fo low b dims (sel ! k)) (gs1 ! x ! k))" by auto
  have "case (e # bs) ! x of (b, sel, mem) \<Rightarrow> length (gs ! x) = length sel \<and> (\<forall>k < length sel. in_group t' (row_tuple fo low b dims (sel ! k)) (gs ! x ! k))"
    if "x < length (e # bs)" for x
  proof (cases x)
    case 0
    then show ?thesis using t2(4,5) in_group_grows [OF IH(2)] by (simp add: e gs)
  next
    case (Suc y)
    with that IH(4) [of y] show ?thesis by (simp add: gs)
  qed
  with IH grows_trans [OF t2(3) IH(2)] show ?case by (simp add: gs)
qed (simp add: grows_refl)

lemma groups_told:
  assumes "groups_ok width t" "length key = width" "length key' = width" "in_group t key g" "in_group t key' g'" "0 \<le> g" "0 \<le> g'"
  shows "g = g' \<longleftrightarrow> key = key'"
proof -
  have g: "nat g < length (gt_vals t)" "map val_text (gt_vals t ! nat g) = key" using assms(4,6) by (auto simp: in_group_def)
  have g': "nat g' < length (gt_vals t)" "map val_text (gt_vals t ! nat g') = key'" using assms(5,7) by (auto simp: in_group_def)
  have len: "length (gt_vals t ! nat g) = length (gt_vals t ! nat g')" using assms(1) g g' by (simp add: groups_ok_def)
  have ids: "gt_ids t (tuple_code (gt_vals t ! nat g)) = Some (nat g)" "gt_ids t (tuple_code (gt_vals t ! nat g')) = Some (nat g')"
    using assms(1) g(1) g'(1) by (simp_all add: groups_ok_def)
  have "key = key' \<longleftrightarrow> tuple_code (gt_vals t ! nat g) = tuple_code (gt_vals t ! nat g')"
    using tuple_code_inj [OF len] g(2) g'(2) by simp
  also have "\<dots> \<longleftrightarrow> nat g = nat g'" using ids by (metis option.inject)
  finally show ?thesis using assms(6,7) by (simp add: eq_nat_nat_iff)
qed

text \<open>
  C4: Over any batches, in whatever order the workers resolve them and whatever memory is held, two
  tracked rows are in one group exactly when they have the same tuple of dimension values, a NULL
  like no text; a group's values are its rows' tuple; the groups are no more than the cap; and a
  row is left out only when the table says that it dropped some.
\<close>

theorem groups_are_tuples:
  fixes bs :: "('f batch \<times> nat list \<times> agg_memory) list"
  assumes "group_batches fo low dims bs (new_table cap) = Inr (gs, t)"
    and "\<forall>(b, sel, mem) \<in> set bs. batch_ok b \<and> (\<forall>i \<in> set sel. i < b_n b)"
    and x: "x < length bs" "bs ! x = (b, sel, mem)" "k < length sel" and y: "y < length bs" "bs ! y = (b', sel', mem')" "l < length sel'"
  shows "(0 \<le> gs ! x ! k \<and> 0 \<le> gs ! y ! l \<longrightarrow>
      (gs ! x ! k = gs ! y ! l \<longleftrightarrow> row_tuple fo low b dims (sel ! k) = row_tuple fo low b' dims (sel' ! l)))
    \<and> (if 0 \<le> gs ! x ! k then nat (gs ! x ! k) < length (gt_vals t)
         \<and> map val_text (gt_vals t ! nat (gs ! x ! k)) = row_tuple fo low b dims (sel ! k) else gt_dropped t)
    \<and> length (gt_vals t) \<le> cap"
proof -
  have "groups_ok (length dims) (new_table cap)" by (simp add: groups_ok_def new_table_def)
  note ok = group_batches_ok [OF assms(1) this assms(2)]
  have t: "groups_ok (length dims) t" using ok by (elim conjE)
  have "grows (new_table cap) t" using ok by (elim conjE)
  then have cap: "gt_max t = cap" by (simp add: grows_def new_table_def)
  have "\<forall>x < length bs. case bs ! x of (b, sel, mem) \<Rightarrow>
     length (gs ! x) = length sel \<and> (\<forall>k < length sel. in_group t (row_tuple fo low b dims (sel ! k)) (gs ! x ! k))"
    using ok by (elim conjE)
  then have rows: "x < length bs \<Longrightarrow> case bs ! x of (b, sel, mem) \<Rightarrow>
       length (gs ! x) = length sel \<and> (\<forall>k < length sel. in_group t (row_tuple fo low b dims (sel ! k)) (gs ! x ! k))" for x
    by (elim allE impE)
  have gx: "in_group t (row_tuple fo low b dims (sel ! k)) (gs ! x ! k)" using rows [OF x(1)] x by simp
  have gy: "in_group t (row_tuple fo low b' dims (sel' ! l)) (gs ! y ! l)" using rows [OF y(1)] y by simp
  have "0 \<le> gs ! x ! k \<and> 0 \<le> gs ! y ! l \<longrightarrow>
      (gs ! x ! k = gs ! y ! l \<longleftrightarrow> row_tuple fo low b dims (sel ! k) = row_tuple fo low b' dims (sel' ! l))"
    using groups_told [OF t _ _ gx gy] by (simp add: row_tuple_def)
  with gx t cap show ?thesis by (auto simp: in_group_def groups_ok_def)
qed

definition two_batches :: "(int batch \<times> nat list \<times> agg_memory) list" where
  "two_batches = [(\<lparr>b_n = 3, b_cols = [(''path'', no_column\<lparr>c_dict := [''/a'', ''/b''], c_idx := Some [1, 0, - 1]\<rparr>),
       (''consent'', no_column\<lparr>c_ints := Some [1, 1, 0]\<rparr>)]\<rparr>, [0, 1, 2], \<lparr>am_n = 0, am_max = 1000\<rparr>),
     (\<lparr>b_n = 2, b_cols = [(''path'', no_column\<lparr>c_dict := [''/b'', ''/a''], c_idx := Some [0, 1]\<rparr>),
       (''consent'', no_column\<lparr>c_ints := Some [1, 0]\<rparr>)]\<rparr>, [0, 1], \<lparr>am_n = 500, am_max = 1000\<rparr>)]"

theorem groups_are_tuples_witness:
  "map_option fst (case group_batches sample_ops ascii_low [''path'', ''consent''] two_batches (new_table 3) of Inr r \<Rightarrow> Some r | Inl e \<Rightarrow> None)
    = Some [[0, 1, 2], [0, - 1]]
   \<and> row_tuple sample_ops ascii_low (fst (two_batches ! 0)) [''path'', ''consent''] 0 = row_tuple sample_ops ascii_low (fst (two_batches ! 1)) [''path'', ''consent''] 0"
proof -
  let ?dims = "[''path'', ''consent'']"
  have run: "case group_batches sample_ops ascii_low ?dims two_batches (new_table 3) of Inr r \<Rightarrow> fst r = [[0, 1, 2], [0, - 1]] | Inl e \<Rightarrow> False"
    by code_simp
  then obtain t where t: "group_batches sample_ops ascii_low ?dims two_batches (new_table 3) = Inr ([[0, 1, 2], [0, - 1]], t)"
    by (auto split: sum.splits)
  have ok: "\<forall>(b, sel, mem) \<in> set two_batches. batch_ok b \<and> (\<forall>i \<in> set sel. i < b_n b)"
    by (simp add: two_batches_def batch_ok_def column_ok_def no_column_def)
  have x: "0 < length two_batches" "two_batches ! 0 = (fst (two_batches ! 0), [0, 1, 2], \<lparr>am_n = 0, am_max = 1000\<rparr>)" "0 < length [0 :: nat, 1, 2]"
    by (simp_all add: two_batches_def)
  have y: "1 < length two_batches" "two_batches ! 1 = (fst (two_batches ! 1), [0, 1], \<lparr>am_n = 500, am_max = 1000\<rparr>)" "0 < length [0 :: nat, 1]"
    by (simp_all add: two_batches_def)
  from groups_are_tuples [OF t ok x y] show ?thesis using t by simp
qed

end
