(* ===== verification/AggCells.thy ===== *)
theory AggCells
  imports Prelude HllSketch
begin

text \<open>
  What the partials of an aggregation have in common (\<^verbatim>\<open>internal/native/aggregate.go\<close>,
  \<^verbatim>\<open>merged.go\<close>): arrays of cells, grown with empty cells, in which each row's cell takes the row's
  observation, and which are merged cell by cell. The locale \<open>cell_counter\<close> states what a cell
  promises, that it stands for the multiset of the observations it took whatever their order, and
  lifts it once to the arrays of the workers and their merge. A cell out of an array's bounds is
  Go's panic.
\<close>

section \<open>Arrays\<close>

fun each_row :: "('r \<Rightarrow> 's \<Rightarrow> 'e + 's) \<Rightarrow> 'r list \<Rightarrow> 's \<Rightarrow> 'e + 's" where
  "each_row f [] s = Inr s"
| "each_row f (r # rs) s = and_then (f r s) (each_row f rs)"

fun each_pair :: "('a \<Rightarrow> 'b \<Rightarrow> 'e + 'c) \<Rightarrow> 'a list \<Rightarrow> 'b list \<Rightarrow> 'e + 'c list" where
  "each_pair f (x # xs) (y # ys) = and_then (f x y) (\<lambda>z. and_then (each_pair f xs ys) (\<lambda>zs. Inr (z # zs)))"
| "each_pair f _ _ = Inr []"

fun each_some :: "('a \<Rightarrow> 'b option) \<Rightarrow> 'a list \<Rightarrow> 'b list option" where
  "each_some f [] = Some []"
| "each_some f (x # xs) = Option.bind (f x) (\<lambda>y. map_option (Cons y) (each_some f xs))"

definition grow_to :: "'c \<Rightarrow> 'c list \<Rightarrow> nat \<Rightarrow> 'c list" where
  "grow_to zero s n = (if length s \<ge> n then s else s @ replicate (n - length s) zero)"

definition at_cell :: "'e \<Rightarrow> int \<Rightarrow> ('c \<Rightarrow> 'c) \<Rightarrow> 'c list \<Rightarrow> 'e + 'c list" where
  "at_cell panic x f cs = (if 0 \<le> x \<and> x < int (length cs) then Inr (cs[nat x := f (cs ! nat x)]) else Inl panic)"

text \<open>The cells of \<open>src\<close> up to \<open>dst\<close>'s length, folded into \<open>dst\<close>'s.\<close>

definition join_cells :: "('c \<Rightarrow> 'c \<Rightarrow> 'c) \<Rightarrow> 'c list \<Rightarrow> 'c list \<Rightarrow> 'c list" where
  "join_cells join dst src = map2 join dst (take (length dst) src) @ drop (length src) dst"

text \<open>The parts' arrays, in turn, folded into the merged one; a part before its first batch has none.\<close>

definition merge_arrays :: "('p \<Rightarrow> 'c list list) \<Rightarrow> ('c \<Rightarrow> 'c \<Rightarrow> 'c) list \<Rightarrow> 'c \<Rightarrow> nat \<Rightarrow> 'p list \<Rightarrow> 'c list list" where
  "merge_arrays field joins zero n parts =
     map (\<lambda>k. fold (\<lambda>p dst. if k < length (field p) then join_cells (joins ! k) dst (field p ! k) else dst) parts (replicate n zero))
       [0..<length joins]"

lemma grow_to_length [simp]: "length (grow_to zero s n) = max (length s) n"
  by (simp add: grow_to_def)

lemma grow_to_nth: "x < max (length s) n \<Longrightarrow> grow_to zero s n ! x = (if x < length s then s ! x else zero)"
  by (auto simp: grow_to_def nth_append)

lemma at_cell_Inr: "at_cell panic x f cs = Inr cs' \<longleftrightarrow> 0 \<le> x \<and> x < int (length cs) \<and> cs' = cs[nat x := f (cs ! nat x)]"
  by (auto simp: at_cell_def)

lemma join_cells_length [simp]: "length (join_cells join dst src) = length dst"
  by (simp add: join_cells_def)

lemma join_cells_nth:
  "x < length dst \<Longrightarrow> join_cells join dst src ! x = (if x < length src then join (dst ! x) (src ! x) else dst ! x)"
  by (auto simp: join_cells_def nth_append)

lemma merge_arrays_length: "k < length joins \<Longrightarrow> length (merge_arrays field joins zero n parts ! k) = n"
proof -
  have "length (fold (\<lambda>p dst. if j < length (field p) then join_cells (joins ! j) dst (field p ! j) else dst) ps d) = length d" for j ps d
    by (induction ps arbitrary: d) auto
  then show "k < length joins \<Longrightarrow> ?thesis" by (simp add: merge_arrays_def cong: if_cong)
qed

lemma each_row_append: "each_row f (rs @ qs) s = and_then (each_row f rs s) (each_row f qs)"
proof (induction rs arbitrary: s)
  case (Cons r rs)
  then show ?case by (cases "f r s") auto
qed (cases "each_row f qs s"; simp)

lemma each_pair_Inr: "length xs = length ys \<Longrightarrow> each_pair f xs ys = Inr zs
    \<longleftrightarrow> length zs = length xs \<and> (\<forall>k < length xs. f (xs ! k) (ys ! k) = Inr (zs ! k))"
proof (induction xs ys arbitrary: zs rule: list_induct2)
  case (Cons x xs y ys)
  show ?case
  proof (cases zs)
    case Nil
    then show ?thesis by (auto simp: and_then_Inr)
  next
    case (Cons z zs')
    have "each_pair f (x # xs) (y # ys) = Inr zs \<longleftrightarrow> f x y = Inr z \<and> each_pair f xs ys = Inr zs'"
      by (auto simp: and_then_Inr Cons)
    with Cons.IH [of zs'] show ?thesis by (auto simp: Cons less_Suc_eq_0_disj)
  qed
qed auto

lemma each_pair_length: "each_pair f xs ys = Inr zs \<Longrightarrow> length xs = length ys \<Longrightarrow> length zs = length xs"
  by (simp add: each_pair_Inr)

section \<open>Observations by cell\<close>

definition obs_at :: "(nat \<times> 'o) multiset \<Rightarrow> nat \<Rightarrow> 'o multiset" where
  "obs_at M x = image_mset snd (filter_mset (\<lambda>p. fst p = x) M)"

lemma obs_at_simps [simp]:
  "obs_at {#} x = {#}"
  "obs_at (add_mset p M) x = (if fst p = x then add_mset (snd p) (obs_at M x) else obs_at M x)"
  "obs_at (M + N) x = obs_at M x + obs_at N x"
  by (simp_all add: obs_at_def)

text \<open>
  The interface of a cell: \<open>rep c M\<close> says that cell \<open>c\<close> stands for the observations \<open>M\<close>.
\<close>

locale cell_counter =
  fixes rep :: "'c \<Rightarrow> 'o multiset \<Rightarrow> bool"
    and zero :: 'c
    and add :: "'o \<Rightarrow> 'c \<Rightarrow> 'c"
    and join :: "'c \<Rightarrow> 'c \<Rightarrow> 'c"
  assumes rep_zero: "rep zero {#}"
    and rep_add: "rep c M \<Longrightarrow> rep (add x c) (add_mset x M)"
    and rep_join: "rep c M \<Longrightarrow> rep d N \<Longrightarrow> rep (join c d) (M + N)"
begin

definition cells_rep :: "'c list \<Rightarrow> (nat \<times> 'o) multiset \<Rightarrow> bool" where
  "cells_rep cs M \<longleftrightarrow> (\<forall>x < length cs. rep (cs ! x) (obs_at M x)) \<and> (\<forall>p \<in># M. fst p < length cs)"

lemma cells_rep_none: "cells_rep cs M \<Longrightarrow> length cs \<le> x \<Longrightarrow> obs_at M x = {#}"
proof -
  assume "cells_rep cs M" "length cs \<le> x"
  then have "\<forall>p \<in># M. fst p \<noteq> x" by (auto simp: cells_rep_def)
  then have "filter_mset (\<lambda>p. fst p = x) M = {#}" by (induction M) auto
  then show ?thesis by (simp add: obs_at_def)
qed

lemma cells_rep_zero: "cells_rep (replicate n zero) {#}"
  by (simp add: cells_rep_def rep_zero)

lemma cells_rep_grow:
  assumes "cells_rep cs M"
  shows "cells_rep (grow_to zero cs n) M"
proof -
  have "rep (grow_to zero cs n ! x) (obs_at M x)" if "x < max (length cs) n" for x
  proof (cases "x < length cs")
    case False
    then have "obs_at M x = {#}" using cells_rep_none [OF assms] by simp
    then show ?thesis using that False by (simp add: grow_to_nth rep_zero)
  qed (use assms that in \<open>simp add: cells_rep_def grow_to_nth\<close>)
  with assms show ?thesis by (fastforce simp: cells_rep_def)
qed

lemma cells_rep_at:
  assumes "cells_rep cs M" "at_cell panic x (add ob) cs = Inr cs'"
  shows "cells_rep cs' (add_mset (nat x, ob) M) \<and> length cs' = length cs"
  using assms rep_add by (auto simp: cells_rep_def at_cell_Inr nth_list_update)

lemma cells_rep_each:
  assumes "cells_rep cs M" "each_row (\<lambda>r. at_cell panic (f r) (add (g r))) rs cs = Inr cs'"
  shows "cells_rep cs' (M + image_mset (\<lambda>r. (nat (f r), g r)) (mset rs)) \<and> length cs' = length cs"
  using assms
proof (induction rs arbitrary: cs M)
  case (Cons r rs)
  obtain cs1 where r: "at_cell panic (f r) (add (g r)) cs = Inr cs1" "each_row (\<lambda>r. at_cell panic (f r) (add (g r))) rs cs1 = Inr cs'"
    using Cons.prems(2) by (auto simp: and_then_Inr)
  from cells_rep_at [OF Cons.prems(1) r(1)] Cons.IH [OF _ r(2)] show ?case by force
qed simp

lemma cells_rep_join:
  assumes "cells_rep dst M" "cells_rep src N" "\<forall>p \<in># N. fst p < length dst"
  shows "cells_rep (join_cells join dst src) (M + N)"
proof -
  have "rep (join_cells join dst src ! x) (obs_at (M + N) x)" if "x < length dst" for x
  proof (cases "x < length src")
    case False
    then have "obs_at N x = {#}" using cells_rep_none [OF assms(2)] by simp
    then show ?thesis using assms(1) that False by (simp add: join_cells_nth cells_rep_def)
  qed (use assms that in \<open>simp add: cells_rep_def join_cells_nth rep_join\<close>)
  with assms show ?thesis by (auto simp: cells_rep_def)
qed

text \<open>The workers' arrays, folded into an array of empty cells.\<close>

lemma cells_rep_merge:
  assumes "list_all2 cells_rep parts Ms" "\<forall>N \<in> set Ms. \<forall>p \<in># N. fst p < length dst" "cells_rep dst M"
  shows "cells_rep (fold (\<lambda>src dst. join_cells join dst src) parts dst) (M + \<Sum>\<^sub># (mset Ms))"
  using assms
proof (induction parts Ms arbitrary: dst M rule: list_all2_induct)
  case (Cons src parts N Ms)
  have "cells_rep (join_cells join dst src) (M + N)" using Cons.prems Cons.hyps by (intro cells_rep_join) auto
  from Cons.IH [OF _ this] Cons.prems(1) show ?case by (simp add: union_assoc)
qed simp

text \<open>Cells read out together.\<close>

lemma rep_joins:
  assumes "cells_rep cs M" "\<forall>x \<in> set xs. x < length cs" "rep c K"
  shows "rep (fold (\<lambda>x st. join st (cs ! x)) xs c) (K + sum_list (map (obs_at M) xs))"
  using assms(2,3)
proof (induction xs arbitrary: c K)
  case (Cons x xs)
  have "rep (join c (cs ! x)) (K + obs_at M x)" using Cons.prems assms(1) by (intro rep_join) (auto simp: cells_rep_def)
  from Cons.IH [OF _ this] Cons.prems(1) show ?case by (simp add: add.assoc)
qed simp

text \<open>A part's array of one kind and index; a part before its first batch has none.\<close>

definition part_rep :: "('p \<Rightarrow> 'c list list) \<Rightarrow> nat \<Rightarrow> 'p \<Rightarrow> (nat \<times> 'o) multiset \<Rightarrow> bool" where
  "part_rep field k p M \<longleftrightarrow> (if k < length (field p) then cells_rep (field p ! k) M else M = {#})"

lemma merge_arrays_rep:
  assumes parts: "list_all2 (part_rep field k) parts Ms" and k: "k < length joins" "joins ! k = join"
    and len: "\<forall>N \<in> set Ms. \<forall>p \<in># N. fst p < len"
  shows "cells_rep (merge_arrays field joins zero len parts ! k) (sum_list Ms)"
proof -
  let ?f = "\<lambda>p dst. if k < length (field p) then join_cells join dst (field p ! k) else dst"
  have "cells_rep (fold ?f parts dst) (M + sum_list Ms)" if "length dst = len" "cells_rep dst M" for dst M
    using parts len that
  proof (induction parts Ms arbitrary: dst M rule: list_all2_induct)
    case (Cons p ps N Ms)
    have "cells_rep (?f p dst) (M + N)"
    proof (cases "k < length (field p)")
      case True
      then show ?thesis using Cons.hyps(1) Cons.prems by (auto simp: part_rep_def intro!: cells_rep_join)
    qed (use Cons.hyps(1) Cons.prems in \<open>simp add: part_rep_def\<close>)
    moreover have "length (?f p dst) = len" using Cons.prems(2) by simp
    ultimately show ?case using Cons.IH [of "?f p dst" "M + N"] Cons.prems(1) by (simp add: add.assoc)
  qed simp
  from this [of "replicate len zero" "{#}"] cells_rep_zero [of len]
  have "cells_rep (fold ?f parts (replicate len zero)) (sum_list Ms)" by simp
  moreover have "[0..<length joins] ! k = k" using k(1) by simp
  ultimately show ?thesis using k by (simp add: merge_arrays_def cong: if_cong)
qed

end

section \<open>Counts\<close>

interpretation counts: cell_counter "\<lambda>n (M :: 'o multiset). n = size M" "0 :: nat" "\<lambda>_. Suc" "(+)"
  by unfold_locales simp_all

text \<open>A counter of a set is one of the multiset of what it was given.\<close>

context union_counter
begin

lemma counts_multiset: "cell_counter (\<lambda>s M. rep s (set_mset M)) new add merge"
  by unfold_locales (simp_all add: rep_new rep_add rep_merge)

end

end
