(* ===== verification/AggParts.thy ===== *)
theory AggParts
  imports AggCells GroupTable DaySets QueryValidate
begin

text \<open>
  The workers' partials of an aggregation (\<^verbatim>\<open>internal/native/aggregate.go\<close>,
  \<^verbatim>\<open>latest.go\<close>): the plan an aggregation's metrics resolve to, the arrays a worker holds
  and how they grow, and adding a batch to them. The parallel arrays of a part that grow together
  are one list of cells. A panic (an index out of range, a nil pointer) and a probe that would not
  end are errors of their own. What the code takes from outside is the record \<open>lib\<close>: the
  arithmetic of floats and how they print, parse and round (\<open>lb_places\<close>: none when
  rounding gives no number), a bucket's value (\<open>lb_bucket\<close>), the estimate of a sketch, the hash of \<^verbatim>\<open>maphash\<close>, the capacity
  \<^verbatim>\<open>append\<close> gives, and the quoting of \<^verbatim>\<open>strconv.Quote\<close>.
\<close>

record 'f lib =
  lb_ops :: "'f float_ops"
  lb_low :: "string \<Rightarrow> string"
  lb_add :: "'f \<Rightarrow> 'f \<Rightarrow> 'f"
  lb_div :: "'f \<Rightarrow> 'f \<Rightarrow> 'f"
  lb_mul :: "'f \<Rightarrow> 'f \<Rightarrow> 'f"
  lb_less :: "'f \<Rightarrow> 'f \<Rightarrow> bool"
  lb_eq :: "'f \<Rightarrow> 'f \<Rightarrow> bool"
  lb_text :: "'f \<Rightarrow> string"
  lb_parse :: "string \<Rightarrow> 'f option"
  lb_compare :: "'f \<Rightarrow> 'f \<Rightarrow> int"
  lb_hash :: "string \<Rightarrow> 64 word"
  lb_cap :: "nat \<Rightarrow> nat"
  lb_quote :: "string \<Rightarrow> string"
  lb_estimate :: "nat list \<Rightarrow> nat"
  lb_real :: "real \<Rightarrow> 'f"
  lb_bucket :: "int \<Rightarrow> 'f"
  lb_places :: "int \<Rightarrow> 'f \<Rightarrow> 'f option"
  lb_show :: "real \<Rightarrow> string"

datatype agg_error = Grouping group_error | Filtering filter_error | Missing string | DayOutside
  | TooLarge int int | Panics | Hangs

section \<open>The plan\<close>

datatype value_form = FormNumber | FormDay | FormTime

definition bound_form :: "string \<Rightarrow> value_form" where
  "bound_form c = (if c = ''day'' then FormDay
     else if c \<in> {''ts'', ''received_at'', ''started_at'', ''ended_at''} then FormTime else FormNumber)"

definition days_col :: string where "days_col = []"

definition distinct_of :: "string \<Rightarrow> string" where
  "distinct_of op = (if op = ''actors'' then ''actor_id'' else if op = ''users'' then ''user_id''
     else if op = ''groups'' then ''group_id'' else if op = ''attr_values'' then ''value'' else [])"

record distinct_col =
  di_name :: string
  di_mask :: nat
  di_set :: bool
  di_day :: bool

record num_col =
  nm_name :: string
  nm_mask :: nat
  nm_float :: bool
  nm_form :: value_form

record msr_col =
  mr_mask :: nat
  mr_hist :: bool

record latest_col =
  la_name :: string
  la_mask :: nat

text \<open>\<open>agg\<close>, less what its workers change; \<open>ap_grouped\<close> says that it has a table of groups.\<close>

record agg_plan =
  ap_filters :: "cfilter list"
  ap_masks :: "cfilter list list"
  ap_dims :: "string list"
  ap_cap :: nat
  ap_from :: int
  ap_ndays :: nat
  ap_nd :: nat
  ap_buckets :: "nat list option"
  ap_starts :: "int list option"
  ap_defs :: "defined_column list"
  ap_nums :: "num_col list"
  ap_distinct :: "distinct_col list"
  ap_bounces :: bool
  ap_msrs :: "msr_col list"
  ap_latests :: "latest_col list"
  ap_max :: int

record agg_options =
  ao_metrics :: "metric_spec list"
  ao_filters :: "cfilter list"
  ao_dims :: "string list"
  ao_per_day :: bool
  ao_sets :: bool
  ao_from :: int
  ao_ndays :: nat
  ao_max_groups :: nat
  ao_max_bytes :: int
  ao_buckets :: "nat list option"
  ao_starts :: "int list option"
  ao_defs :: "defined_column list"

text \<open>A metric resolved against the plan; its indices are \<open>None\<close> where the code has -1.\<close>

datatype resolved = Resolved (re_metric: metric) (re_mask: nat) (re_num: "nat option") (re_distinct: "nat option")
  (re_msr: "nat option") (re_latest: "nat option") (re_sides: "(resolved \<times> resolved) option")

fun filters_key :: "(string \<Rightarrow> string) \<Rightarrow> raw_filter list \<Rightarrow> string" and filter_key :: "(string \<Rightarrow> string) \<Rightarrow> raw_filter \<Rightarrow> string" where
  "filters_key quote [] = []"
| "filters_key quote (f # fs) = filter_key quote f @ filters_key quote fs"
| "filter_key quote (RawFilter column op values columns any inner who over) =
     quote column @ quote op @ concat (map quote columns)
     @ (if any \<noteq> [] then ''('' @ filters_key quote any @ '')'' else [])
     @ (if inner \<noteq> [] then quote who @ quote over @ ''{'' @ filters_key quote inner @ ''}'' else [])
     @ ''|'' @ concat (map quote values) @ '';''"

text \<open>The plan with its masks by key, and its columns by name and mask, met so far.\<close>

record planning =
  pg_plan :: agg_plan
  pg_masks :: "string \<rightharpoonup> nat"
  pg_nums :: "string \<times> nat \<rightharpoonup> nat"
  pg_dist :: "string \<times> nat \<rightharpoonup> nat"

definition mask_for :: "(string \<Rightarrow> string) \<Rightarrow> metric \<Rightarrow> cfilter list \<Rightarrow> planning \<Rightarrow> nat \<times> planning" where
  "mask_for quote m cs g = (let key = filters_key quote (m_where m) in case pg_masks g key of
     Some i \<Rightarrow> (i, g)
   | None \<Rightarrow> (let i = length (ap_masks (pg_plan g)) in
       (i, g\<lparr>pg_masks := (pg_masks g)(key \<mapsto> i), pg_plan := (pg_plan g)\<lparr>ap_masks := ap_masks (pg_plan g) @ [cs]\<rparr>\<rparr>)))"

definition dist_for :: "string \<Rightarrow> nat \<Rightarrow> planning \<Rightarrow> nat \<times> planning" where
  "dist_for column mk g = (case pg_dist g (column, mk) of
     Some i \<Rightarrow> (i, g)
   | None \<Rightarrow> (let i = length (ap_distinct (pg_plan g)) in
       (i, g\<lparr>pg_dist := (pg_dist g)((column, mk) \<mapsto> i),
             pg_plan := (pg_plan g)\<lparr>ap_distinct := ap_distinct (pg_plan g)
               @ [\<lparr>di_name = column, di_mask = mk, di_set = False, di_day = False\<rparr>]\<rparr>\<rparr>)))"

definition mark_dist :: "bool \<Rightarrow> bool \<Rightarrow> nat \<Rightarrow> planning \<Rightarrow> planning" where
  "mark_dist sets days i g = g\<lparr>pg_plan := (pg_plan g)\<lparr>ap_distinct := (ap_distinct (pg_plan g))
     [i := (ap_distinct (pg_plan g) ! i)\<lparr>di_set := di_set (ap_distinct (pg_plan g) ! i) \<or> sets,
                                        di_day := di_day (ap_distinct (pg_plan g) ! i) \<or> days\<rparr>]\<rparr>\<rparr>"

definition num_for :: "string \<Rightarrow> nat \<Rightarrow> planning \<Rightarrow> nat \<times> planning" where
  "num_for column mk g = (case pg_nums g (column, mk) of
     Some i \<Rightarrow> (i, g)
   | None \<Rightarrow> (let i = length (ap_nums (pg_plan g)) in
       (i, g\<lparr>pg_nums := (pg_nums g)((column, mk) \<mapsto> i),
             pg_plan := (pg_plan g)\<lparr>ap_nums := ap_nums (pg_plan g)
               @ [\<lparr>nm_name = column, nm_mask = mk, nm_float = (column = ''value'' \<or> column = ''sample_rate''), nm_form = bound_form column\<rparr>]\<rparr>\<rparr>)))"

definition latest_for :: "string \<Rightarrow> nat \<Rightarrow> planning \<Rightarrow> nat \<times> planning" where
  "latest_for column mk g = (let l = \<lparr>la_name = column, la_mask = mk\<rparr> in case index_of l (ap_latests (pg_plan g)) of
     Some i \<Rightarrow> (i, g)
   | None \<Rightarrow> (length (ap_latests (pg_plan g)), g\<lparr>pg_plan := (pg_plan g)\<lparr>ap_latests := ap_latests (pg_plan g) @ [l]\<rparr>\<rparr>))"

definition msr_for :: "nat \<Rightarrow> bool \<Rightarrow> planning \<Rightarrow> nat \<times> planning" where
  "msr_for mk hist g =
     (let ms = ap_msrs (pg_plan g);
          i = (case index_of mk (map mr_mask ms) of Some i \<Rightarrow> i | None \<Rightarrow> length ms);
          ms1 = (if i < length ms then ms else ms @ [\<lparr>mr_mask = mk, mr_hist = False\<rparr>])
      in (i, g\<lparr>pg_plan := (pg_plan g)\<lparr>ap_msrs := (if hist then ms1[i := (ms1 ! i)\<lparr>mr_hist := True\<rparr>] else ms1)\<rparr>\<rparr>))"

text \<open>A metric but a ratio.\<close>

definition resolve_plain :: "(string \<Rightarrow> string) \<Rightarrow> bool \<Rightarrow> bool \<Rightarrow> metric \<Rightarrow> cfilter list \<Rightarrow> planning \<Rightarrow> resolved \<times> planning" where
  "resolve_plain quote per_day sets m cs g0 = (case mask_for quote m cs g0 of (mk, g) \<Rightarrow>
     let op = m_op m in
     if op = ''latest'' then
       (case latest_for (m_column m) mk g of (i, g1) \<Rightarrow> (Resolved m mk None None None (Some i) None, g1))
     else if op \<in> {''sum'', ''avg'', ''min'', ''max''} then
       (case num_for (m_column m) mk g of (i, g1) \<Rightarrow> (Resolved m mk (Some i) None None None None, g1))
     else if op \<in> {''actors'', ''users'', ''groups'', ''attr_values''} then
       (case dist_for (distinct_of op) mk g of (i, g1) \<Rightarrow>
          (Resolved m mk None (Some i) None None None, mark_dist (\<not> per_day \<or> sets) per_day i g1))
     else if op \<in> {''daily_sum'', ''daily_max'', ''daily_avg''} then
       (case dist_for (distinct_of (m_of m)) mk g of (i, g1) \<Rightarrow>
          (Resolved m mk None (Some i) None None None, mark_dist False True i g1))
     else if op = ''days'' then
       (case dist_for days_col mk g of (i, g1) \<Rightarrow> (Resolved m mk None (Some i) None None None, mark_dist False True i g1))
     else if op \<in> {''bounces'', ''bounce_rate''} then
       (Resolved m mk None None None None None, g\<lparr>pg_plan := (pg_plan g)\<lparr>ap_bounces := True\<rparr>\<rparr>)
     else if op \<in> {''percentile'', ''mean'', ''weight''} \<or> op = ''share'' \<and> m_of m = ''weight'' then
       (case msr_for mk (op = ''percentile'') g of (i, g1) \<Rightarrow> (Resolved m mk None None (Some i) None None, g1))
     else (Resolved m mk None None None None None, g))"

fun resolve_metric :: "(string \<Rightarrow> string) \<Rightarrow> bool \<Rightarrow> bool \<Rightarrow> metric_spec \<Rightarrow> planning \<Rightarrow> agg_error + resolved \<times> planning" where
  "resolve_metric quote per_day sets (MetricSpec m cs num den) g =
     (if m_op m = ''ratio'' then
        (case num of None \<Rightarrow> Inl Panics
         | Some n \<Rightarrow> (case den of None \<Rightarrow> Inl Panics
             | Some d \<Rightarrow> and_then (resolve_metric quote per_day sets n g) (\<lambda>(rn, g1).
                 and_then (resolve_metric quote per_day sets d g1) (\<lambda>(rd, g2).
                   Inr (Resolved m 0 None None None None (Some (rn, rd)), g2)))))
      else Inr (resolve_plain quote per_day sets m cs g))"

fun resolve_metrics :: "(string \<Rightarrow> string) \<Rightarrow> bool \<Rightarrow> bool \<Rightarrow> metric_spec list \<Rightarrow> planning \<Rightarrow> agg_error + resolved list \<times> planning" where
  "resolve_metrics quote per_day sets [] g = Inr ([], g)"
| "resolve_metrics quote per_day sets (m # ms) g = and_then (resolve_metric quote per_day sets m g) (\<lambda>(r, g1).
     and_then (resolve_metrics quote per_day sets ms g1) (\<lambda>(rs, g2). Inr (r # rs, g2)))"

definition trend_cells :: nat where "trend_cells = 10"

definition empty_plan :: "agg_options \<Rightarrow> agg_plan" where
  "empty_plan o1 =
     \<lparr>ap_filters = ao_filters o1, ap_masks = [[]], ap_dims = ao_dims o1,
      ap_cap = (let limit = (if ao_per_day o1 then min (ao_max_groups o1) (trend_cells * ao_max_groups o1 div ao_ndays o1) else ao_max_groups o1)
                in max 1 limit),
      ap_from = ao_from o1, ap_ndays = ao_ndays o1, ap_nd = (if ao_per_day o1 then ao_ndays o1 else 1),
      ap_buckets = ao_buckets o1, ap_starts = ao_starts o1, ap_defs = ao_defs o1,
      ap_nums = [], ap_distinct = [], ap_bounces = False, ap_msrs = [], ap_latests = [], ap_max = ao_max_bytes o1\<rparr>"

definition new_agg :: "(string \<Rightarrow> string) \<Rightarrow> agg_options \<Rightarrow> agg_error + resolved list \<times> agg_plan" where
  "new_agg quote o1 = and_then (resolve_metrics quote (ao_per_day o1) (ao_sets o1) (ao_metrics o1)
       \<lparr>pg_plan = empty_plan o1, pg_masks = [[] \<mapsto> 0], pg_nums = Map.empty, pg_dist = Map.empty\<rparr>)
     (\<lambda>(rs, g). Inr (rs, pg_plan g))"

text \<open>The table of groups, of an aggregation with dimensions.\<close>

definition plan_table :: "agg_plan \<Rightarrow> group_table option" where
  "plan_table a = (if ap_dims a = [] then None else Some (new_table (ap_cap a)))"

definition cell_day :: "agg_plan \<Rightarrow> int \<Rightarrow> int" where
  "cell_day a d = (let off = d - ap_from a in case ap_buckets a of
     None \<Rightarrow> off
   | Some bs \<Rightarrow> if off < 0 \<or> off \<ge> int (length bs) then - 1 else int (bs ! nat off))"

definition day_of :: "agg_plan \<Rightarrow> nat \<Rightarrow> int" where
  "day_of a d = (case ap_starts a of Some ss \<Rightarrow> ss ! d | None \<Rightarrow> ap_from a + int d)"

section \<open>A worker's partials\<close>

record 'v bounds =
  bd_sum :: 'v
  bd_lo :: 'v
  bd_hi :: 'v

text \<open>\<open>foldBounds\<close>, for a type's addition and order; 64-bit addition wraps.\<close>

definition fold_bounds :: "('v \<Rightarrow> 'v \<Rightarrow> 'v) \<Rightarrow> ('v \<Rightarrow> 'v \<Rightarrow> bool) \<Rightarrow> 'v bounds \<Rightarrow> 'v bounds \<Rightarrow> bool \<Rightarrow> 'v bounds" where
  "fold_bounds add lt d s first =
     \<lparr>bd_sum = add (bd_sum d) (bd_sum s),
      bd_lo = (if first \<or> lt (bd_lo s) (bd_lo d) then bd_lo s else bd_lo d),
      bd_hi = (if first \<or> lt (bd_hi d) (bd_hi s) then bd_hi s else bd_hi d)\<rparr>"

definition add64 :: "int \<Rightarrow> int \<Rightarrow> int" where
  "add64 x y = signed_take_bit 63 (x + y)"

record 'f num_cell =
  nc_n :: nat
  nc_int :: "int bounds"
  nc_float :: "'f bounds"

definition zero_num :: "'f float_ops \<Rightarrow> 'f num_cell" where
  "zero_num fo = \<lparr>nc_n = 0, nc_int = \<lparr>bd_sum = 0, bd_lo = 0, bd_hi = 0\<rparr>,
     nc_float = \<lparr>bd_sum = fo_zero fo, bd_lo = fo_zero fo, bd_hi = fo_zero fo\<rparr>\<rparr>"

record 'f msr_cell =
  mc_wn :: nat
  mc_sn :: nat
  mc_w :: 'f
  mc_s :: 'f

definition zero_msr :: "'f float_ops \<Rightarrow> 'f msr_cell" where
  "zero_msr fo = \<lparr>mc_wn = 0, mc_sn = 0, mc_w = fo_zero fo, mc_s = fo_zero fo\<rparr>"

type_synonym 'f hist = "((int \<times> int) \<times> 'f) list"

record latest_cell =
  lc_ts :: int
  lc_val :: string
  lc_set :: bool

definition zero_latest :: latest_cell where
  "zero_latest = \<lparr>lc_ts = 0, lc_val = [], lc_set = False\<rparr>"

text \<open>No counts at all are the part before its first batch.\<close>

record 'f part =
  pt_count :: "nat list list"
  pt_bounces :: "nat list list"
  pt_nums :: "'f num_cell list list"
  pt_msrs :: "('f msr_cell list \<times> 'f hist) list"
  pt_latest :: "latest_cell list list"
  pt_sets :: "dset list list"
  pt_days :: "day_set list list"
  pt_grew :: int

definition new_part :: "'f part" where
  "new_part = \<lparr>pt_count = [], pt_bounces = [], pt_nums = [], pt_msrs = [], pt_latest = [], pt_sets = [], pt_days = [], pt_grew = 0\<rparr>"

definition day_set_bytes :: int where "day_set_bytes = 64"
definition hist_key_bytes :: int where "hist_key_bytes = 72"

definition cell_bytes :: "agg_plan \<Rightarrow> int" where
  "cell_bytes a = int (8 * length (ap_masks a) * (1 + (if ap_bounces a then 1 else 0))
     + 32 * length (ap_nums a) + 32 * length (ap_msrs a) + 48 * length (ap_latests a))"

definition group_cell_bytes :: "agg_plan \<Rightarrow> int" where
  "group_cell_bytes a = sum_list (map (\<lambda>d. if di_set d then 48 else 0) (ap_distinct a))"

definition have_cells :: "'f part \<Rightarrow> nat" where
  "have_cells p = (if pt_count p = [] then 0 else length (hd (pt_count p)))"

text \<open>The empty arrays of a part, made when it first grows.\<close>

definition first_grown :: "agg_plan \<Rightarrow> bool \<Rightarrow> 'f part \<Rightarrow> 'f part" where
  "first_grown a grouped p = (if pt_count p \<noteq> [] then p else
     p\<lparr>pt_count := map (\<lambda>_. []) (ap_masks a),
       pt_bounces := (if ap_bounces a then map (\<lambda>_. []) (ap_masks a) else []),
       pt_nums := map (\<lambda>_. []) (ap_nums a),
       pt_msrs := map (\<lambda>_. ([], [])) (ap_msrs a),
       pt_latest := map (\<lambda>_. []) (ap_latests a),
       pt_sets := map (\<lambda>_. []) (ap_distinct a),
       pt_days := map (\<lambda>d. if di_day d then replicate (ap_ndays a) (empty_day grouped) else []) (ap_distinct a),
       pt_grew := pt_grew p + int (length (filter di_day (ap_distinct a))) * int (ap_ndays a) * day_set_bytes\<rparr>)"

definition grow_part :: "'f float_ops \<Rightarrow> agg_plan \<Rightarrow> bool \<Rightarrow> nat \<Rightarrow> 'f part \<Rightarrow> 'f part" where
  "grow_part fo a grouped groups p =
     (let have = have_cells p; cells = max (groups * ap_nd a) (2 * have) in
      if have \<ge> groups * ap_nd a then p
      else let p1 = first_grown a grouped p in
        p1\<lparr>pt_count := map (\<lambda>cs. grow_to 0 cs cells) (pt_count p1),
           pt_bounces := map (\<lambda>cs. grow_to 0 cs cells) (pt_bounces p1),
           pt_nums := map (\<lambda>cs. grow_to (zero_num fo) cs cells) (pt_nums p1),
           pt_msrs := map (\<lambda>(cs, h). (grow_to (zero_msr fo) cs cells, h)) (pt_msrs p1),
           pt_latest := map (\<lambda>cs. grow_to zero_latest cs cells) (pt_latest p1),
           pt_sets := map2 (\<lambda>d ss. if di_set d then grow_to empty_dset ss (cells div ap_nd a) else ss) (ap_distinct a) (pt_sets p1),
           pt_grew := pt_grew p1 + int (cells - have) * cell_bytes a + int (cells - have) div int (ap_nd a) * group_cell_bytes a\<rparr>)"

section \<open>Adding a batch\<close>

text \<open>The rows each loop takes: of a tracked group, and of the mask, each with its group.\<close>

definition kept :: "int list \<Rightarrow> nat list \<Rightarrow> bool list option \<Rightarrow> (int \<times> nat) list" where
  "kept gids sel keep = filter (\<lambda>(g, i). 0 \<le> g \<and> (case keep of None \<Rightarrow> True | Some ks \<Rightarrow> ks ! i)) (zip gids sel)"

definition cell_of :: "agg_plan \<Rightarrow> int list \<Rightarrow> int \<times> nat \<Rightarrow> int" where
  "cell_of a days r = (case r of (g, i) \<Rightarrow> if ap_nd a = 1 then g else g * int (ap_nd a) + cell_day a (days ! i))"

definition count_rows :: "(int \<times> nat \<Rightarrow> int) \<Rightarrow> (int \<times> nat) list \<Rightarrow> nat list \<Rightarrow> agg_error + nat list" where
  "count_rows cell rows cs = each_row (\<lambda>r. at_cell Panics (cell r) Suc) rows cs"

definition one_view :: "'f column \<Rightarrow> nat \<Rightarrow> bool" where
  "one_view c i \<longleftrightarrow> \<not> is_null c i \<and> the (c_ints c) ! i = 1"

text \<open>A numeric column's value of a row that has one: an integer, or a float.\<close>

definition num_value :: "'f float_ops \<Rightarrow> num_col \<Rightarrow> 'f column \<Rightarrow> nat \<Rightarrow> (int + 'f) option" where
  "num_value fo n c i =
     (if nm_float n then (case c_floats c of Some fs \<Rightarrow> Some (Inr (fs ! i))
        | None \<Rightarrow> map_option (\<lambda>ns. Inr (fo_of_int fo (ns ! i))) (c_ints c))
      else (case c_ints c of Some ns \<Rightarrow> Some (Inl (ns ! i)) | None \<Rightarrow> map_option (\<lambda>ts. Inl (ts ! i)) (c_times c)))"

definition num_add :: "'f lib \<Rightarrow> value_form \<Rightarrow> int + 'f \<Rightarrow> 'f num_cell \<Rightarrow> 'f num_cell" where
  "num_add L form v c = (case v of
     Inl n \<Rightarrow> c\<lparr>nc_n := nc_n c + 1,
       nc_int := fold_bounds add64 (<) (nc_int c) \<lparr>bd_sum = (if form = FormNumber then n else 0), bd_lo = n, bd_hi = n\<rparr> (nc_n c = 0)\<rparr>
   | Inr x \<Rightarrow> c\<lparr>nc_n := nc_n c + 1,
       nc_float := fold_bounds (lb_add L) (lb_less L) (nc_float c) \<lparr>bd_sum = x, bd_lo = x, bd_hi = x\<rparr> (nc_n c = 0)\<rparr>)"

definition num_row :: "'f lib \<Rightarrow> num_col \<Rightarrow> 'f column \<Rightarrow> (int \<times> nat \<Rightarrow> int) \<Rightarrow> int \<times> nat \<Rightarrow> 'f num_cell list \<Rightarrow> agg_error + 'f num_cell list" where
  "num_row L n c cell r cs = (case num_value (lb_ops L) n c (snd r) of
     Some v \<Rightarrow> at_cell Panics (cell r) (num_add L (nm_form n) v) cs
   | None \<Rightarrow> and_then (at_cell Panics (cell r) id cs) (\<lambda>_. Inl (Filtering (NotNumber (nm_name n)))))"

definition add_num :: "'f lib \<Rightarrow> 'f batch \<Rightarrow> (bool list option \<Rightarrow> (int \<times> nat) list) \<Rightarrow> bool list option list \<Rightarrow> (int \<times> nat \<Rightarrow> int)
    \<Rightarrow> num_col \<Rightarrow> 'f num_cell list \<Rightarrow> agg_error + 'f num_cell list" where
  "add_num L b rows pass cell n cs = (case cols_of (lb_low L) b (nm_name n) of
     None \<Rightarrow> Inr cs
   | Some c \<Rightarrow> each_row (num_row L n c cell) (filter (\<lambda>r. \<not> is_null c (snd r)) (rows (pass ! nm_mask n))) cs)"

text \<open>The measures: a row's weight, and its value.\<close>

definition msr_add :: "'f lib \<Rightarrow> 'f \<times> 'f option \<Rightarrow> 'f msr_cell \<Rightarrow> 'f msr_cell" where
  "msr_add L ob c = (case ob of (rate, v) \<Rightarrow>
     let c1 = c\<lparr>mc_wn := mc_wn c + 1, mc_w := lb_add L (mc_w c) (lb_div L (fo_of_int (lb_ops L) 1) rate)\<rparr>
     in (case v of None \<Rightarrow> c1 | Some x \<Rightarrow> c1\<lparr>mc_sn := mc_sn c + 1, mc_s := lb_add L (mc_s c) (lb_div L x rate)\<rparr>))"

text \<open>A weight added at a key of a histogram; a key it lacks is added.\<close>

definition hist_add :: "'f lib \<Rightarrow> int \<times> int \<Rightarrow> 'f \<Rightarrow> 'f hist \<Rightarrow> 'f hist" where
  "hist_add L key w h = AList.update key (lb_add L (case map_of h key of Some v \<Rightarrow> v | None \<Rightarrow> fo_zero (lb_ops L)) w) h"

definition msr_row :: "'f lib \<Rightarrow> 'f column option \<Rightarrow> 'f column \<Rightarrow> bool \<Rightarrow> (int \<times> nat \<Rightarrow> int) \<Rightarrow> int \<times> nat
    \<Rightarrow> ('f msr_cell list \<times> 'f hist) \<times> int \<Rightarrow> agg_error + ('f msr_cell list \<times> 'f hist) \<times> int" where
  "msr_row L val rate hist cell r st = (case st of ((cs, h), grew) \<Rightarrow> (case value_at (lb_ops L) (Some rate) (snd r) of
     None \<Rightarrow> Inr st
   | Some x \<Rightarrow>
       let v = value_at (lb_ops L) val (snd r); key = (cell r, bucket_of (lb_ops L) v) in
       and_then (at_cell Panics (cell r) (msr_add L (x, v)) cs) (\<lambda>cs1.
         if hist then Inr ((cs1, hist_add L key (lb_div L (fo_of_int (lb_ops L) 1) x) h),
                           (if map_of h key = None then grew + hist_key_bytes else grew))
         else Inr ((cs1, h), grew))))"

definition not_numeric :: "'f column option \<Rightarrow> bool" where
  "not_numeric c \<longleftrightarrow> (case c of None \<Rightarrow> False | Some c \<Rightarrow> c_floats c = None \<and> c_ints c = None)"

fun add_each_msr :: "'f lib \<Rightarrow> 'f column option \<Rightarrow> 'f column \<Rightarrow> (bool list option \<Rightarrow> (int \<times> nat) list) \<Rightarrow> bool list option list
    \<Rightarrow> (int \<times> nat \<Rightarrow> int) \<Rightarrow> (msr_col \<times> 'f msr_cell list \<times> 'f hist) list \<Rightarrow> int \<Rightarrow> agg_error + ('f msr_cell list \<times> 'f hist) list \<times> int" where
  "add_each_msr L val rate rows pass cell [] grew = Inr ([], grew)"
| "add_each_msr L val rate rows pass cell ((m, csh) # ms) grew =
     and_then (each_row (msr_row L val rate (mr_hist m) cell) (rows (pass ! mr_mask m)) (csh, grew)) (\<lambda>(csh1, grew1).
       and_then (add_each_msr L val rate rows pass cell ms grew1) (\<lambda>(rest, grew2). Inr (csh1 # rest, grew2)))"

definition add_measures :: "'f lib \<Rightarrow> agg_plan \<Rightarrow> 'f batch \<Rightarrow> (bool list option \<Rightarrow> (int \<times> nat) list) \<Rightarrow> bool list option list
    \<Rightarrow> (int \<times> nat \<Rightarrow> int) \<Rightarrow> 'f part \<Rightarrow> agg_error + 'f part" where
  "add_measures L a b rows pass cell p =
     (let val = cols_of (lb_low L) b ''value''; rate = cols_of (lb_low L) b ''sample_rate'' in
      if ap_msrs a = [] then Inr p
      else if not_numeric val then Inl (Filtering (NotNumber ''value''))
      else if not_numeric rate then Inl (Filtering (NotNumber ''sample_rate''))
      else case rate of None \<Rightarrow> Inr p
        | Some r \<Rightarrow> and_then (add_each_msr L val r rows pass cell (zip (ap_msrs a) (pt_msrs p)) (pt_grew p)) (\<lambda>(ms, grew).
            Inr (p\<lparr>pt_msrs := ms, pt_grew := grew\<rparr>)))"

text \<open>The latest value by time, a tie by the greater value.\<close>

definition cmp_latest :: "'f lib \<Rightarrow> string \<Rightarrow> string \<Rightarrow> bool \<Rightarrow> int" where
  "cmp_latest L x y num =
     (if num \<and> x \<noteq> [] \<and> y \<noteq> [] then
        (case (lb_parse L x, lb_parse L y) of (Some u, Some v) \<Rightarrow> lb_compare L u v | _ \<Rightarrow> compare x y)
      else compare x y)"

definition later :: "'f lib \<Rightarrow> bool \<Rightarrow> int \<times> string \<Rightarrow> int \<times> string \<Rightarrow> bool" where
  "later L num new old = (if fst new \<noteq> fst old then fst new > fst old else cmp_latest L (snd new) (snd old) num > 0)"

definition put_latest :: "'f lib \<Rightarrow> bool \<Rightarrow> int \<times> string \<Rightarrow> latest_cell \<Rightarrow> latest_cell" where
  "put_latest L num new c = (if lc_set c \<and> \<not> later L num new (lc_ts c, lc_val c) then c
     else \<lparr>lc_ts = fst new, lc_val = snd new, lc_set = True\<rparr>)"

definition latest_numeric :: "latest_col \<Rightarrow> bool" where
  "latest_numeric l \<longleftrightarrow> column_type (la_name l) = ''number''"

definition empty_counts :: "latest_col \<Rightarrow> bool" where
  "empty_counts l \<longleftrightarrow> la_name l = ''value''"

text \<open>What a row says of a latest column: its time and value, or nothing.\<close>

definition latest_obs :: "'f lib \<Rightarrow> latest_col \<Rightarrow> 'f column \<Rightarrow> 'f column option \<Rightarrow> nat \<Rightarrow> (int \<times> string) option" where
  "latest_obs L l ts c i =
     (if is_null ts i then None
      else case latest_text (lb_text L) c i (type_of (la_name l)) of
          Some v \<Rightarrow> Some (the (c_times ts) ! i, v)
        | None \<Rightarrow> if empty_counts l then Some (the (c_times ts) ! i, []) else None)"

definition latest_row :: "'f lib \<Rightarrow> latest_col \<Rightarrow> 'f column \<Rightarrow> 'f column option \<Rightarrow> (int \<times> nat \<Rightarrow> int) \<Rightarrow> int \<times> nat
    \<Rightarrow> latest_cell list \<times> int \<Rightarrow> agg_error + latest_cell list \<times> int" where
  "latest_row L l ts c cell r st = (case latest_obs L l ts c (snd r) of
     None \<Rightarrow> Inr st
   | Some new \<Rightarrow> and_then (at_cell Panics (cell r) (put_latest L (latest_numeric l) new) (fst st)) (\<lambda>cs.
       Inr (cs, (let old = fst st ! nat (cell r) in
         if lc_set old \<and> \<not> later L (latest_numeric l) new (lc_ts old, lc_val old) then snd st
         else snd st + (int (length (snd new)) - int (length (lc_val old)))))))"

fun add_each_latest :: "'f lib \<Rightarrow> 'f batch \<Rightarrow> 'f column \<Rightarrow> (bool list option \<Rightarrow> (int \<times> nat) list) \<Rightarrow> bool list option list
    \<Rightarrow> (int \<times> nat \<Rightarrow> int) \<Rightarrow> (latest_col \<times> latest_cell list) list \<Rightarrow> int \<Rightarrow> agg_error + latest_cell list list \<times> int" where
  "add_each_latest L b ts rows pass cell [] grew = Inr ([], grew)"
| "add_each_latest L b ts rows pass cell ((l, cs) # ls) grew =
     (let c = batch_column (lb_ops L) (lb_low L) b (la_name l) in
      and_then (if c = None \<and> \<not> empty_counts l then Inr (cs, grew)
                else each_row (latest_row L l ts c cell) (rows (pass ! la_mask l)) (cs, grew)) (\<lambda>(cs1, grew1).
        and_then (add_each_latest L b ts rows pass cell ls grew1) (\<lambda>(rest, grew2). Inr (cs1 # rest, grew2))))"

definition add_latest :: "'f lib \<Rightarrow> agg_plan \<Rightarrow> 'f batch \<Rightarrow> (bool list option \<Rightarrow> (int \<times> nat) list) \<Rightarrow> bool list option list
    \<Rightarrow> (int \<times> nat \<Rightarrow> int) \<Rightarrow> 'f part \<Rightarrow> agg_error + 'f part" where
  "add_latest L a b rows pass cell p =
     (if ap_latests a = [] then Inr p
      else case cols_of (lb_low L) b ''ts'' of None \<Rightarrow> Inr p
        | Some ts \<Rightarrow> if c_times ts = None then Inr p
            else and_then (add_each_latest L b ts rows pass cell (zip (ap_latests a) (pt_latest p)) (pt_grew p)) (\<lambda>(ls, grew).
              Inr (p\<lparr>pt_latest := ls, pt_grew := grew\<rparr>)))"

section \<open>Distinct ids\<close>

text \<open>
  The whole-range key of an id: 32 bits of its hash above the fingerprint a sketch takes. Only the
  dictionary's entries that the tracked rows use are hashed; \<open>seen\<close> holds the cell, plus one, an entry
  was last added to the days' keys for, and \<open>prev\<close> the cell whose NULL key was added last.
\<close>

definition range_key :: "64 word \<Rightarrow> 32 word \<Rightarrow> 64 word" where
  "range_key h f = (push_bit 32 (drop_bit 32 h)) OR ucast f"

definition id_at :: "'f column option \<Rightarrow> nat \<Rightarrow> int" where
  "id_at c i = (case c of None \<Rightarrow> - 1 | Some c \<Rightarrow> the (c_idx c) ! i)"

definition entry_hashes :: "'f lib \<Rightarrow> 'f column option \<Rightarrow> (int \<times> nat) list \<Rightarrow> (64 word \<times> 64 word) list" where
  "entry_hashes L c rows = (case c of None \<Rightarrow> []
   | Some d \<Rightarrow> map (\<lambda>(x, s). if int x \<in> set (map (\<lambda>r. id_at c (snd r)) rows)
       then (lb_hash L s, range_key (lb_hash L s) (fingerprint s)) else (0, 0)) (enumerate 0 (c_dict d)))"

record ids_state =
  is_sets :: "dset list"
  is_days :: "day_set list"
  is_seen :: "nat list"
  is_prev :: "nat option"
  is_grew :: int

definition set_row :: "'f lib \<Rightarrow> (64 word \<times> 64 word) list \<Rightarrow> int \<Rightarrow> int \<Rightarrow> ids_state \<Rightarrow> agg_error + ids_state" where
  "set_row L hs g x s =
     and_then (at_cell Panics g (\<lambda>c. snd (dset_add (lb_cap L) (snd (hs ! nat x)) c)) (is_sets s)) (\<lambda>cs.
       Inr (s\<lparr>is_sets := cs, is_grew := is_grew s + fst (dset_add (lb_cap L) (snd (hs ! nat x)) (is_sets s ! nat g))\<rparr>))"

definition day_key :: "nat \<Rightarrow> 32 word \<Rightarrow> 64 word \<Rightarrow> ids_state \<Rightarrow> agg_error + ids_state" where
  "day_key d g h s = (case ds_add g h (is_days s ! d) of
     None \<Rightarrow> Inl Hangs
   | Some (n, ds) \<Rightarrow> Inr (s\<lparr>is_days := (is_days s)[d := ds], is_grew := is_grew s + n\<rparr>))"

definition day_row :: "agg_plan \<Rightarrow> (64 word \<times> 64 word) list \<Rightarrow> int \<Rightarrow> int \<Rightarrow> int \<Rightarrow> ids_state \<Rightarrow> agg_error + ids_state" where
  "day_row a hs g x d s =
     (if d < 0 \<or> d \<ge> int (length (is_days s)) then Inl DayOutside
      else let cell = nat g * ap_ndays a + nat d in
        if x < 0 then
          (if is_prev s = Some cell then Inr s
           else map_sum id (\<lambda>s1. s1\<lparr>is_prev := Some cell\<rparr>) (day_key (nat d) (word_of_int g) null_key s))
        else if is_seen s ! nat x = cell + 1 then Inr s
        else map_sum id (\<lambda>s1. s1\<lparr>is_seen := (is_seen s)[nat x := cell + 1]\<rparr>)
               (day_key (nat d) (word_of_int g) (id_key (fst (hs ! nat x))) s))"

definition id_row :: "'f lib \<Rightarrow> agg_plan \<Rightarrow> distinct_col \<Rightarrow> 'f column option \<Rightarrow> (64 word \<times> 64 word) list \<Rightarrow> int list
    \<Rightarrow> int \<times> nat \<Rightarrow> ids_state \<Rightarrow> agg_error + ids_state" where
  "id_row L a d c hs days r s = (case r of (g, i) \<Rightarrow>
     let x = id_at c i in
     and_then (if di_set d \<and> 0 \<le> x then set_row L hs g x s else Inr s) (\<lambda>s1.
       if di_day d then day_row a hs g x (cell_day a (days ! i)) s1 else Inr s1))"

definition add_distinct :: "'f lib \<Rightarrow> agg_plan \<Rightarrow> 'f batch \<Rightarrow> (bool list option \<Rightarrow> (int \<times> nat) list) \<Rightarrow> bool list option list \<Rightarrow> int list
    \<Rightarrow> distinct_col \<Rightarrow> dset list \<times> day_set list \<Rightarrow> int \<Rightarrow> agg_error + (dset list \<times> day_set list) \<times> int" where
  "add_distinct L a b rows pass days d sd grew =
     (let c = cols_of (lb_low L) b (di_name d) in
      if (case c of None \<Rightarrow> False | Some c \<Rightarrow> c_idx c = None) then Inl (Filtering (NotText (di_name d)))
      else let rs = rows (pass ! di_mask d); hs = entry_hashes L c rs in
        and_then (each_row (id_row L a d c hs days) rs
            \<lparr>is_sets = fst sd, is_days = snd sd, is_seen = replicate (length hs) 0, is_prev = None, is_grew = grew\<rparr>) (\<lambda>s.
          Inr ((is_sets s, is_days s), is_grew s)))"

fun add_each_distinct :: "'f lib \<Rightarrow> agg_plan \<Rightarrow> 'f batch \<Rightarrow> (bool list option \<Rightarrow> (int \<times> nat) list) \<Rightarrow> bool list option list \<Rightarrow> int list
    \<Rightarrow> (distinct_col \<times> dset list \<times> day_set list) list \<Rightarrow> int \<Rightarrow> agg_error + (dset list \<times> day_set list) list \<times> int" where
  "add_each_distinct L a b rows pass days [] grew = Inr ([], grew)"
| "add_each_distinct L a b rows pass days ((d, sd) # ds) grew =
     and_then (add_distinct L a b rows pass days d sd grew) (\<lambda>(sd1, grew1).
       and_then (add_each_distinct L a b rows pass days ds grew1) (\<lambda>(rest, grew2). Inr (sd1 # rest, grew2)))"

section \<open>A whole batch\<close>

text \<open>Each mask's rows, \<open>None\<close> for the first: every row.\<close>

fun mask_rows :: "'f lib \<Rightarrow> 'f batch \<Rightarrow> cfilter list list \<Rightarrow> agg_error + bool list option list" where
  "mask_rows L b [] = Inr []"
| "mask_rows L b (fs # fss) = and_then (map_sum Filtering id (pass_rows (lb_ops L) (lb_low L) b fs)) (\<lambda>keep.
     and_then (mask_rows L b fss) (\<lambda>rest. Inr (Some keep # rest)))"

definition add_counts :: "agg_plan \<Rightarrow> 'f column option \<Rightarrow> (bool list option \<Rightarrow> (int \<times> nat) list) \<Rightarrow> bool list option list
    \<Rightarrow> (int \<times> nat \<Rightarrow> int) \<Rightarrow> 'f part \<Rightarrow> agg_error + 'f part" where
  "add_counts a views rows pass cell p =
     and_then (each_pair (\<lambda>keep cs. count_rows cell (rows keep) cs) pass (pt_count p)) (\<lambda>count.
       and_then (case views of None \<Rightarrow> Inr (pt_bounces p)
         | Some v \<Rightarrow> each_pair (\<lambda>keep cs. count_rows cell (filter (\<lambda>r. one_view v (snd r)) (rows keep)) cs) pass (pt_bounces p)) (\<lambda>bounces.
         Inr (p\<lparr>pt_count := count, pt_bounces := bounces\<rparr>)))"

definition add_rows :: "'f lib \<Rightarrow> agg_plan \<Rightarrow> 'f batch \<Rightarrow> int list \<Rightarrow> 'f column option \<Rightarrow> bool list option list
    \<Rightarrow> (bool list option \<Rightarrow> (int \<times> nat) list) \<Rightarrow> 'f part \<Rightarrow> agg_error + 'f part" where
  "add_rows L a b days views pass rows p0 =
     (let cell = cell_of a days in
      and_then (add_counts a views rows pass cell p0) (\<lambda>p1.
      and_then (each_pair (add_num L b rows pass cell) (ap_nums a) (pt_nums p1)) (\<lambda>nums.
      and_then (add_measures L a b rows pass cell (p1\<lparr>pt_nums := nums\<rparr>)) (\<lambda>p2.
      and_then (add_latest L a b rows pass cell p2) (\<lambda>p3.
      and_then (add_each_distinct L a b rows pass days (zip (ap_distinct a) (zip (pt_sets p3) (pt_days p3))) (pt_grew p3)) (\<lambda>(sds, grew).
        Inr (p3\<lparr>pt_sets := map fst sds, pt_days := map snd sds, pt_grew := grew\<rparr>)))))))"

definition views_column :: "'f lib \<Rightarrow> agg_plan \<Rightarrow> 'f batch \<Rightarrow> agg_error + 'f column option" where
  "views_column L a b =
     (if \<not> ap_bounces a then Inr None
      else case cols_of (lb_low L) b ''views'' of
          None \<Rightarrow> Inl (Missing ''views'')
        | Some c \<Rightarrow> if c_ints c = None then Inl (Missing ''views'') else Inr (Some c))"

definition day_column :: "'f lib \<Rightarrow> 'f batch \<Rightarrow> agg_error + int list" where
  "day_column L b = (case cols_of (lb_low L) b ''day'' of
     None \<Rightarrow> Inl (Missing ''day'')
   | Some c \<Rightarrow> (case c_ints c of None \<Rightarrow> Inl (Missing ''day'') | Some ns \<Rightarrow> Inr ns))"

definition add_batch :: "'f lib \<Rightarrow> agg_plan \<Rightarrow> 'f batch \<Rightarrow> 'f part \<Rightarrow> group_table option \<Rightarrow> agg_memory
    \<Rightarrow> agg_error + 'f part \<times> group_table option \<times> agg_memory" where
  "add_batch L a b p table mem =
     and_then (map_sum Filtering id (select_rows (lb_ops L) (lb_low L) b (ap_filters a))) (\<lambda>sel.
       if sel = [] then Inr (p, table, mem)
       else and_then (map_sum Grouping id (groups_of (lb_ops L) (lb_low L) (ap_dims a) b sel table mem)) (\<lambda>(gids, gmax, table1, mem1).
         if gmax < 0 then Inr (p, table1, mem1)
         else let p1 = grow_part (lb_ops L) a (table \<noteq> None) (nat gmax + 1) p in
           and_then (day_column L b) (\<lambda>days.
           and_then (mask_rows L b (tl (ap_masks a))) (\<lambda>pass.
           and_then (views_column L a b) (\<lambda>views.
           and_then (add_rows L a b days views (None # pass) (kept gids sel) p1) (\<lambda>p2.
             Inr (p2, table1, mem1)))))))"

text \<open>The query's defined columns: per row, the label of the first case it passes.\<close>

fun case_rows :: "'f lib \<Rightarrow> 'f batch \<Rightarrow> cfilter list list \<Rightarrow> agg_error + bool list list" where
  "case_rows L b [] = Inr []"
| "case_rows L b (fs # fss) = and_then (map_sum Filtering id (pass_rows (lb_ops L) (lb_low L) b fs)) (\<lambda>keep.
     and_then (case_rows L b fss) (\<lambda>rest. Inr (keep # rest)))"

definition label_at :: "string list \<Rightarrow> bool list list \<Rightarrow> string \<Rightarrow> nat \<Rightarrow> string option" where
  "label_at labels pass other i = (case find (\<lambda>j. pass ! j ! i) [0..<length pass] of
     Some j \<Rightarrow> Some (labels ! j)
   | None \<Rightarrow> if other \<noteq> [] then Some other else None)"

fun with_defined :: "'f lib \<Rightarrow> 'f batch \<Rightarrow> defined_column list \<Rightarrow> (string \<times> 'f column) list \<Rightarrow> agg_error + 'f batch" where
  "with_defined L b [] cols = Inr (b\<lparr>b_cols := cols\<rparr>)"
| "with_defined L b (d # ds) cols = and_then (case_rows L b (dn_cases d)) (\<lambda>pass.
     with_defined L b ds (AList.update (dn_name d) (text_column (b_n b) (label_at (dn_labels d) pass (dn_other d))) cols))"

text \<open>\<open>checkMemory\<close>: the bytes held, against the bound.\<close>

definition check_memory :: "bool \<Rightarrow> agg_memory \<Rightarrow> agg_error + agg_memory" where
  "check_memory grouped mem = (let limit = (if grouped then 2 * am_max mem else am_max mem) in
     if am_n mem > limit then Inl (TooLarge (am_n mem) limit) else Inr mem)"

definition charge :: "bool \<Rightarrow> int \<Rightarrow> agg_memory \<Rightarrow> agg_error + agg_memory" where
  "charge grouped n mem = (let mem1 = mem\<lparr>am_n := am_n mem + n\<rparr> in if n > 0 then check_memory grouped mem1 else Inr mem1)"

definition agg_add :: "'f lib \<Rightarrow> agg_plan \<Rightarrow> 'f batch \<Rightarrow> 'f part \<Rightarrow> group_table option \<Rightarrow> agg_memory
    \<Rightarrow> agg_error + 'f part \<times> group_table option \<times> agg_memory" where
  "agg_add L a b p table mem =
     and_then (if ap_defs a = [] then Inr b else with_defined L b (ap_defs a) (b_cols b)) (\<lambda>b1.
       and_then (add_batch L a b1 (p\<lparr>pt_grew := 0\<rparr>) table mem) (\<lambda>(p1, table1, mem1).
         and_then (check_memory (table1 \<noteq> None) (mem1\<lparr>am_n := am_n mem1 + pt_grew p1\<rparr>)) (\<lambda>mem2.
           Inr (p1, table1, mem2))))"

text \<open>\<open>heavy\<close>: whether the memory follows the ids or the samples rather than the groups.\<close>

definition heavy :: "agg_plan \<Rightarrow> bool" where
  "heavy a \<longleftrightarrow> (\<exists>d \<in> set (ap_distinct a). di_name d \<noteq> days_col) \<or> (\<exists>m \<in> set (ap_msrs a). mr_hist m)"

text \<open>
  A scan: batches given to workers, each with the bytes held when it is added, which the other workers
  and the scan's own charges change meanwhile.
\<close>

fun agg_adds :: "'f lib \<Rightarrow> agg_plan \<Rightarrow> (nat \<times> 'f batch \<times> int) list \<Rightarrow> 'f part list \<times> group_table option
    \<Rightarrow> agg_error + 'f part list \<times> group_table option" where
  "agg_adds L a [] st = Inr st"
| "agg_adds L a ((w, b, held) # bs) (parts, table) =
     and_then (agg_add L a b (parts ! w) table \<lparr>am_n = held, am_max = ap_max a\<rparr>) (\<lambda>(p, table1, mem).
       agg_adds L a bs (parts[w := p], table1))"

end
