(* ===== verification/AggMerge.thy ===== *)
theory AggMerge
  imports AggParts
begin

text \<open>
  Putting the workers' partials together and computing a metric from them
  (\<^verbatim>\<open>internal/native/merged.go\<close>, \<^verbatim>\<open>latest.go\<close>,
  \<^verbatim>\<open>value.go\<close>). A day of the range is \<open>Some\<close> of its cell, the whole range \<open>None\<close> (the code's
  -1). The cache of share totals, which holds what it is asked to compute, is left out. A probe that
  would not end is \<open>None\<close>, or the error \<open>Hangs\<close>.
\<close>

section \<open>Values\<close>

record 'f metric_value =
  vl_null :: bool
  vl_int :: bool
  vl_approx :: bool
  vl_form :: value_form
  vl_i :: int
  vl_f :: 'f
  vl_text :: bool
  vl_s :: string

definition null_value :: "'f lib \<Rightarrow> 'f metric_value" where
  "null_value L = \<lparr>vl_null = True, vl_int = False, vl_approx = False, vl_form = FormNumber, vl_i = 0, vl_f = fo_zero (lb_ops L), vl_text = False, vl_s = []\<rparr>"

definition int_value :: "'f lib \<Rightarrow> int \<Rightarrow> 'f metric_value" where
  "int_value L n = (null_value L)\<lparr>vl_null := False, vl_int := True, vl_i := n\<rparr>"

definition float_value :: "'f lib \<Rightarrow> 'f \<Rightarrow> 'f metric_value" where
  "float_value L x = (null_value L)\<lparr>vl_null := False, vl_f := x\<rparr>"

text \<open>A time in microseconds as RFC 3339 in UTC, its fraction without trailing zeros.\<close>

definition digits_to :: "nat \<Rightarrow> int \<Rightarrow> string" where
  "digits_to n x = (let s = dec_int x in replicate (n - length s) CHR ''0'' @ s)"

definition format_time :: "int \<Rightarrow> string" where
  "format_time t =
     (let secs = t div 1000000; micros = t mod 1000000; day = secs div 86400; s = secs mod 86400;
          frac = rev (dropWhile (\<lambda>c. c = CHR ''0'') (rev (digits_to 6 micros)))
      in format_day day @ ''T'' @ two_digits (s div 3600) @ '':'' @ two_digits (s div 60 mod 60) @ '':'' @ two_digits (s mod 60)
         @ (if frac = [] then [] else ''.'' @ frac) @ ''Z'')"

definition value_string :: "'f lib \<Rightarrow> 'f metric_value \<Rightarrow> string" where
  "value_string L v =
     (if vl_null v then []
      else if vl_text v then vl_s v
      else if vl_form v = FormDay then format_day (vl_i v)
      else if vl_form v = FormTime then format_time (vl_i v)
      else if vl_int v then dec_int (vl_i v)
      else lb_text L (vl_f v))"

definition round_value :: "'f lib \<Rightarrow> int option \<Rightarrow> 'f metric_value \<Rightarrow> 'f metric_value" where
  "round_value L places v = (case places of
     None \<Rightarrow> v
   | Some n \<Rightarrow> if vl_null v \<or> vl_int v then v
       else (case lb_places L n (vl_f v) of Some x \<Rightarrow> v\<lparr>vl_f := x\<rparr> | None \<Rightarrow> v))"

definition num_of :: "'f lib \<Rightarrow> 'f metric_value \<Rightarrow> 'f" where
  "num_of L v = (if vl_int v then fo_of_int (lb_ops L) (vl_i v) else vl_f v)"

definition cmp_desc :: "'f lib \<Rightarrow> 'f metric_value \<Rightarrow> 'f metric_value \<Rightarrow> int" where
  "cmp_desc L x y =
     (if vl_null x \<or> vl_null y then compare (bool_int (vl_null x)) (bool_int (vl_null y))
      else if vl_int x \<and> vl_int y then compare (vl_i y) (vl_i x)
      else if vl_text x \<or> vl_text y then
        (let c = compare (bool_int (vl_text x)) (bool_int (vl_text y)) in if c \<noteq> 0 then c else compare (vl_s y) (vl_s x))
      else lb_compare L (num_of L y) (num_of L x))"

definition cmp_dim :: "col_type \<Rightarrow> dim_val \<Rightarrow> dim_val \<Rightarrow> int" where
  "cmp_dim typ x y =
     (if dv_null x \<or> dv_null y then compare (bool_int (dv_null x)) (bool_int (dv_null y))
      else if typ = TypeInt \<or> typ = TypeBucket then compare (dv_n x) (dv_n y)
      else compare (dv_s x) (dv_s y))"

section \<open>The merge\<close>

definition num_join :: "'f lib \<Rightarrow> bool \<Rightarrow> 'f num_cell \<Rightarrow> 'f num_cell \<Rightarrow> 'f num_cell" where
  "num_join L float c d =
     (if nc_n d = 0 then c
      else if float then c\<lparr>nc_n := nc_n c + nc_n d, nc_float := fold_bounds (lb_add L) (lb_less L) (nc_float c) (nc_float d) (nc_n c = 0)\<rparr>
      else c\<lparr>nc_n := nc_n c + nc_n d, nc_int := fold_bounds add64 (<) (nc_int c) (nc_int d) (nc_n c = 0)\<rparr>)"

definition msr_join :: "'f lib \<Rightarrow> 'f msr_cell \<Rightarrow> 'f msr_cell \<Rightarrow> 'f msr_cell" where
  "msr_join L c d =
     (if mc_wn d = 0 then c
      else \<lparr>mc_wn = mc_wn c + mc_wn d, mc_sn = mc_sn c + mc_sn d, mc_w = lb_add L (mc_w c) (mc_w d), mc_s = lb_add L (mc_s c) (mc_s d)\<rparr>)"

definition latest_join :: "'f lib \<Rightarrow> bool \<Rightarrow> latest_cell \<Rightarrow> latest_cell \<Rightarrow> latest_cell" where
  "latest_join L num c d = (if lc_set d \<and> (\<not> lc_set c \<or> later L num (lc_ts d, lc_val d) (lc_ts c, lc_val c)) then d else c)"

definition hist_join :: "'f lib \<Rightarrow> nat \<Rightarrow> 'f hist \<Rightarrow> 'f hist \<Rightarrow> 'f hist" where
  "hist_join L cells h src = fold (\<lambda>(k, w) h. if fst k < int cells then hist_add L k w h else h) src h"

record 'f merged =
  mg_table :: "group_table option"
  mg_groups :: nat
  mg_count :: "nat list list"
  mg_bounces :: "nat list list"
  mg_nums :: "'f num_cell list list"
  mg_msrs :: "'f msr_cell list list"
  mg_latest :: "latest_cell list list"
  mg_hists :: "'f hist list"
  mg_sets :: "dset list list"
  mg_days :: "day_set list list"
  mg_runs :: "(nat \<times> nat) list list"
  mg_parts :: "nat list list"
  mg_part_of :: "nat list option"

definition merge_hists :: "'f lib \<Rightarrow> nat \<Rightarrow> msr_col list \<Rightarrow> 'f part list \<Rightarrow> 'f hist list" where
  "merge_hists L cells ms parts =
     map (\<lambda>k. if mr_hist (ms ! k)
        then sort_key fst (fold (\<lambda>p h. if k < length (pt_msrs p) then hist_join L cells h (snd (pt_msrs p ! k)) else h) parts [])
        else []) [0..<length ms]"

fun merge_days :: "'f part list \<Rightarrow> nat \<Rightarrow> nat \<Rightarrow> distinct_col list \<Rightarrow> day_set list list option" where
  "merge_days parts ndays j [] = Some []"
| "merge_days parts ndays j (d # ds) =
     Option.bind (if di_day d then each_some (\<lambda>day. merge_sets (map (\<lambda>p. pt_days p ! j ! day) (filter (\<lambda>p. pt_days p \<noteq> []) parts))) [0..<ndays]
                  else Some [])
       (\<lambda>days. map_option (Cons days) (merge_days parts ndays (j + 1) ds))"

definition agg_merge :: "'f lib \<Rightarrow> agg_plan \<Rightarrow> 'f part list \<times> group_table option \<Rightarrow> 'f merged option" where
  "agg_merge L a st = (case st of (parts, table) \<Rightarrow>
     let groups = (case table of None \<Rightarrow> 1 | Some t \<Rightarrow> length (gt_vals t)); cells = groups * ap_nd a in
     map_option (\<lambda>days.
       \<lparr>mg_table = table, mg_groups = groups,
        mg_count = merge_arrays pt_count (map (\<lambda>_. (+)) (ap_masks a)) 0 cells parts,
        mg_bounces = (if ap_bounces a then merge_arrays pt_bounces (map (\<lambda>_. (+)) (ap_masks a)) 0 cells parts else []),
        mg_nums = merge_arrays pt_nums (map (\<lambda>n. num_join L (nm_float n)) (ap_nums a)) (zero_num (lb_ops L)) cells parts,
        mg_msrs = merge_arrays (\<lambda>p. map fst (pt_msrs p)) (map (\<lambda>_. msr_join L) (ap_msrs a)) (zero_msr (lb_ops L)) cells parts,
        mg_latest = merge_arrays pt_latest (map (\<lambda>l. latest_join L (latest_numeric l)) (ap_latests a)) zero_latest cells parts,
        mg_hists = merge_hists L cells (ap_msrs a) parts,
        mg_sets = map (\<lambda>j. if di_set (ap_distinct a ! j)
            then merge_arrays pt_sets (map (\<lambda>_. dset_merge (lb_cap L)) (ap_distinct a)) empty_dset groups parts ! j else [])
          [0..<length (ap_distinct a)],
        mg_days = days,
        mg_runs = map (\<lambda>(d, ds). if di_day d then runs_of ds else []) (zip (ap_distinct a) days),
        mg_parts = [], mg_part_of = None\<rparr>)
       (merge_days parts (ap_ndays a) 0 (ap_distinct a)))"

text \<open>\<open>partitionBy\<close>: the groups by their first dimension's value, in the order met.\<close>

fun partition_from :: "dim_val list \<Rightarrow> nat \<Rightarrow> (dim_val \<rightharpoonup> nat) \<Rightarrow> nat list list \<Rightarrow> nat list \<Rightarrow> nat list list \<times> nat list" where
  "partition_from [] g ids parts part_of = (parts, part_of)"
| "partition_from (v # vs) g ids parts part_of = (case ids v of
     Some i \<Rightarrow> partition_from vs (g + 1) ids (parts[i := parts ! i @ [g]]) (part_of @ [i])
   | None \<Rightarrow> partition_from vs (g + 1) (ids(v \<mapsto> length parts)) (parts @ [[g]]) (part_of @ [length parts]))"

definition partition_by :: "'f merged \<Rightarrow> 'f merged" where
  "partition_by m = (case partition_from (map hd (take (mg_groups m) (gt_vals (the (mg_table m))))) 0 Map.empty [] [] of
     (parts, part_of) \<Rightarrow> m\<lparr>mg_parts := parts, mg_part_of := Some part_of\<rparr>)"

section \<open>Metrics\<close>

definition cells_of :: "agg_plan \<Rightarrow> 'f merged \<Rightarrow> nat \<Rightarrow> nat option \<Rightarrow> nat list" where
  "cells_of a m g day =
     (if g \<ge> mg_groups m then []
      else case day of Some d \<Rightarrow> [g * ap_nd a + d] | None \<Rightarrow> [g * ap_nd a..<(g + 1) * ap_nd a])"

definition mask_count :: "agg_plan \<Rightarrow> 'f merged \<Rightarrow> nat \<Rightarrow> nat \<Rightarrow> nat option \<Rightarrow> nat" where
  "mask_count a m k g day = sum_list (map (\<lambda>x. mg_count m ! k ! x) (cells_of a m g day))"

fun metric_rows :: "agg_plan \<Rightarrow> 'f merged \<Rightarrow> resolved \<Rightarrow> nat \<Rightarrow> nat option \<Rightarrow> nat" where
  "metric_rows a m (Resolved mt k x y z l (Some (n, d))) g day = metric_rows a m n g day + metric_rows a m d g day"
| "metric_rows a m (Resolved mt k x y z l None) g day = mask_count a m k g day"

definition counted_ops :: "string list" where
  "counted_ops = [''count'', ''actors'', ''users'', ''groups'', ''bounces'', ''weight'', ''daily_sum'', ''daily_max'', ''daily_avg'', ''days'']"

definition group_cells :: "agg_plan \<Rightarrow> 'f merged \<Rightarrow> nat list \<Rightarrow> nat option \<Rightarrow> nat list" where
  "group_cells a m gs day = concat (map (\<lambda>g. cells_of a m g day) gs)"

definition eval_num :: "'f lib \<Rightarrow> agg_plan \<Rightarrow> 'f merged \<Rightarrow> string \<Rightarrow> nat \<Rightarrow> nat list \<Rightarrow> nat option \<Rightarrow> 'f metric_value" where
  "eval_num L a m op j gs day =
     (let n = ap_nums a ! j; float = nm_float n;
          c = fold (\<lambda>x st. num_join L float st (mg_nums m ! j ! x)) (group_cells a m gs day) (zero_num (lb_ops L))
      in if nc_n c = 0 then null_value L
         else if op = ''avg'' \<and> float then float_value L (lb_div L (bd_sum (nc_float c)) (fo_of_int (lb_ops L) (int (nc_n c))))
         else if op = ''avg'' then float_value L (lb_div L (fo_of_int (lb_ops L) (bd_sum (nc_int c))) (fo_of_int (lb_ops L) (int (nc_n c))))
         else if float \<and> op = ''sum'' then float_value L (bd_sum (nc_float c))
         else if float \<and> op = ''min'' then float_value L (bd_lo (nc_float c))
         else if float then float_value L (bd_hi (nc_float c))
         else if op = ''sum'' then int_value L (bd_sum (nc_int c))
         else if op = ''min'' then (int_value L (bd_lo (nc_int c)))\<lparr>vl_form := nm_form n\<rparr>
         else (int_value L (bd_hi (nc_int c)))\<lparr>vl_form := nm_form n\<rparr>)"

definition latest_of :: "'f lib \<Rightarrow> agg_plan \<Rightarrow> 'f merged \<Rightarrow> nat \<Rightarrow> nat list \<Rightarrow> nat option \<Rightarrow> 'f metric_value" where
  "latest_of L a m j gs day =
     (let num = latest_numeric (ap_latests a ! j);
          c = fold (\<lambda>x st. latest_join L num st (mg_latest m ! j ! x)) (group_cells a m gs day) zero_latest
      in if \<not> lc_set c \<or> lc_val c = [] then null_value L
         else if num then
           (case parse_int (lc_val c) of Some n \<Rightarrow> int_value L n
            | None \<Rightarrow> (case lb_parse L (lc_val c) of Some x \<Rightarrow> float_value L x
                | None \<Rightarrow> (null_value L)\<lparr>vl_null := False, vl_text := True, vl_s := lc_val c\<rparr>))
         else (null_value L)\<lparr>vl_null := False, vl_text := True, vl_s := lc_val c\<rparr>)"

definition share_of :: "'f lib \<Rightarrow> agg_plan \<Rightarrow> 'f merged \<Rightarrow> resolved \<Rightarrow> nat list \<Rightarrow> nat option \<Rightarrow> 'f" where
  "share_of L a m r gs day =
     (if m_of (re_metric r) \<noteq> ''weight'' then fo_of_int (lb_ops L) (int (sum_list (map (\<lambda>g. mask_count a m (re_mask r) g day) gs)))
      else fold (\<lambda>x w. lb_add L w (mc_w (mg_msrs m ! the (re_msr r) ! x))) (group_cells a m gs day) (fo_zero (lb_ops L)))"

definition share_total :: "'f lib \<Rightarrow> agg_plan \<Rightarrow> 'f merged \<Rightarrow> resolved \<Rightarrow> nat option \<Rightarrow> nat option \<Rightarrow> 'f" where
  "share_total L a m r part day = share_of L a m r (case part of Some i \<Rightarrow> mg_parts m ! i | None \<Rightarrow> [0..<mg_groups m]) day"

text \<open>\<open>percentile\<close>: a histogram is sorted by cell, then bucket.\<close>

definition cell_entries :: "'f hist \<Rightarrow> nat \<Rightarrow> (int \<times> 'f) list" where
  "cell_entries h x = map (\<lambda>(k, w). (snd k, w)) (takeWhile (\<lambda>(k, w). fst k = int x) (dropWhile (\<lambda>(k, w). fst k < int x) h))"

fun add_buckets :: "'f lib \<Rightarrow> (int \<times> 'f) list \<Rightarrow> (int \<times> 'f) list" where
  "add_buckets L ((b, w) # (c, v) # bs) = (if b = c then add_buckets L ((b, lb_add L w v) # bs) else (b, w) # add_buckets L ((c, v) # bs))"
| "add_buckets L bs = bs"

fun first_reaching :: "'f lib \<Rightarrow> 'f \<Rightarrow> 'f \<Rightarrow> (int \<times> 'f) list \<Rightarrow> int option" where
  "first_reaching L goal run [] = None"
| "first_reaching L goal run ((b, w) # bs) =
     (let run1 = lb_add L run w in if lb_less L goal run1 \<or> lb_eq L run1 goal then Some b else first_reaching L goal run1 bs)"

definition percentile :: "'f lib \<Rightarrow> agg_plan \<Rightarrow> 'f merged \<Rightarrow> resolved \<Rightarrow> nat list \<Rightarrow> nat option \<Rightarrow> 'f metric_value" where
  "percentile L a m r gs day =
     (let found = filter (\<lambda>es. es \<noteq> []) (map (cell_entries (mg_hists m ! the (re_msr r))) (group_cells a m gs day));
          bs = (if length found > 1 then add_buckets L (sort_key fst (concat found)) else concat found);
          total = fold (\<lambda>(b, w) t. lb_add L t w) bs (fo_zero (lb_ops L))
      in if bs = [] then null_value L
         else case first_reaching L (lb_mul L (lb_real L (m_q (re_metric r))) total) (fo_zero (lb_ops L)) bs of
             Some b \<Rightarrow> float_value L (lb_bucket L b)
           | None \<Rightarrow> null_value L)"

text \<open>Per-day distinct counts: runs are sorted by cell.\<close>

definition runs_from :: "(nat \<times> nat) list \<Rightarrow> nat \<Rightarrow> (nat \<times> nat) list" where
  "runs_from runs c = dropWhile (\<lambda>r. fst r < c) runs"

definition day_count :: "agg_plan \<Rightarrow> 'f merged \<Rightarrow> nat \<Rightarrow> nat \<Rightarrow> nat \<Rightarrow> nat" where
  "day_count a m j g d = (let c = g * ap_ndays a + d in case runs_from (mg_runs m ! j) c of
     r # _ \<Rightarrow> if fst r = c then snd r else 0 | [] \<Rightarrow> 0)"

definition has_day :: "agg_plan \<Rightarrow> 'f merged \<Rightarrow> nat \<Rightarrow> nat \<Rightarrow> nat \<Rightarrow> bool" where
  "has_day a m j g d = (let c = g * ap_ndays a + d in case runs_from (mg_runs m ! j) c of
     r # _ \<Rightarrow> fst r = c | [] \<Rightarrow> False)"

definition group_days :: "agg_plan \<Rightarrow> 'f merged \<Rightarrow> nat \<Rightarrow> nat \<Rightarrow> nat list" where
  "group_days a m j g = map snd (takeWhile (\<lambda>r. fst r < (g + 1) * ap_ndays a) (runs_from (mg_runs m ! j) (g * ap_ndays a)))"

text \<open>A day's ids of several groups together; nothing when none of them has rows.\<close>

definition union_day :: "'f merged \<Rightarrow> nat list \<Rightarrow> day_set \<Rightarrow> nat list option" where
  "union_day m gs s =
     (let ks = filter (\<lambda>k. unat (fst k) \<in> set gs \<and> unat (fst k) < mg_groups m) (ds_each s) in
      if ks = [] then Some []
      else map_option (\<lambda>r. [ds_n (snd r)]) (ds_adds (map (\<lambda>k. (0, snd k)) (filter (\<lambda>k. snd k \<noteq> null_key) ks)) (0, empty_day False)))"

fun union_days :: "'f merged \<Rightarrow> nat list \<Rightarrow> day_set list \<Rightarrow> nat list option" where
  "union_days m gs [] = Some []"
| "union_days m gs (s # ss) = Option.bind (union_day m gs s) (\<lambda>n. map_option ((@) n) (union_days m gs ss))"

definition distinct_metric :: "'f lib \<Rightarrow> agg_plan \<Rightarrow> 'f merged \<Rightarrow> nat \<Rightarrow> nat list \<Rightarrow> nat option \<Rightarrow> 'f metric_value" where
  "distinct_metric L a m j gs day =
     (let counted = (\<lambda>s. case dset_count (lb_estimate L) s of (n, approx) \<Rightarrow> (int_value L (int n))\<lparr>vl_approx := approx\<rparr>) in
      case day of
        Some d \<Rightarrow> int_value L (int (day_count a m j (hd gs) d))
      | None \<Rightarrow>
          if length gs = 1 then (if hd gs \<ge> mg_groups m then int_value L 0 else counted (mg_sets m ! j ! hd gs))
          else counted (fold (\<lambda>g u. dset_merge (lb_cap L) u (mg_sets m ! j ! g)) gs empty_dset))"

definition daily_metric :: "'f lib \<Rightarrow> agg_plan \<Rightarrow> 'f merged \<Rightarrow> string \<Rightarrow> nat \<Rightarrow> nat list \<Rightarrow> nat option \<Rightarrow> 'f metric_value option" where
  "daily_metric L a m op j gs day =
     Option.bind (case day of Some d \<Rightarrow> Some [day_count a m j (hd gs) d]
       | None \<Rightarrow> if length gs = 1 then Some (group_days a m j (hd gs)) else union_days m gs (mg_days m ! j)) (\<lambda>days.
       Some (if op = ''days'' then
               int_value L (case day of Some d \<Rightarrow> (if has_day a m j (hd gs) d then 1 else 0) | None \<Rightarrow> int (length days))
             else if days = [] then null_value L
             else if op = ''daily_sum'' then int_value L (int (sum_list days))
             else if op = ''daily_max'' then int_value L (int (Max (set days)))
             else float_value L (lb_div L (fo_of_int (lb_ops L) (int (sum_list days))) (fo_of_int (lb_ops L) (int (length days))))))"

definition measure_metric :: "'f lib \<Rightarrow> agg_plan \<Rightarrow> 'f merged \<Rightarrow> string \<Rightarrow> nat \<Rightarrow> nat list \<Rightarrow> nat option \<Rightarrow> 'f metric_value" where
  "measure_metric L a m op j gs day =
     (let c = fold (\<lambda>x st. \<lparr>mc_wn = mc_wn st + mc_wn (mg_msrs m ! j ! x), mc_sn = mc_sn st + mc_sn (mg_msrs m ! j ! x),
            mc_w = lb_add L (mc_w st) (mc_w (mg_msrs m ! j ! x)), mc_s = lb_add L (mc_s st) (mc_s (mg_msrs m ! j ! x))\<rparr>)
          (group_cells a m gs day) (zero_msr (lb_ops L))
      in if mc_wn c = 0 \<or> (op = ''mean'' \<and> mc_sn c = 0) then null_value L
         else if op = ''weight'' then float_value L (mc_w c)
         else float_value L (lb_div L (mc_s c) (mc_w c)))"

definition bounce_metric :: "'f lib \<Rightarrow> agg_plan \<Rightarrow> 'f merged \<Rightarrow> string \<Rightarrow> nat \<Rightarrow> nat list \<Rightarrow> nat option \<Rightarrow> 'f metric_value" where
  "bounce_metric L a m op k gs day =
     (let n = sum_list (map (\<lambda>g. mask_count a m k g day) gs); b = sum_list (map (\<lambda>x. mg_bounces m ! k ! x) (group_cells a m gs day))
      in if op = ''bounces'' then int_value L (int b)
         else if n = 0 then null_value L
         else float_value L (lb_div L (fo_of_int (lb_ops L) (int b)) (fo_of_int (lb_ops L) (int n))))"

definition share_metric :: "'f lib \<Rightarrow> agg_plan \<Rightarrow> 'f merged \<Rightarrow> resolved \<Rightarrow> nat list \<Rightarrow> nat option \<Rightarrow> bool \<Rightarrow> 'f metric_value" where
  "share_metric L a m r gs day whole =
     (let part = (case mg_part_of m of Some ps \<Rightarrow> if \<not> whole \<and> gs \<noteq> [] then Some (ps ! hd gs) else None | None \<Rightarrow> None);
          total = share_total L a m r part day
      in if lb_eq L total (fo_zero (lb_ops L)) then null_value L else float_value L (lb_div L (share_of L a m r gs day) total))"

definition ratio_value :: "'f lib \<Rightarrow> string \<Rightarrow> 'f metric_value \<Rightarrow> 'f metric_value \<Rightarrow> 'f metric_value" where
  "ratio_value L op num0 den =
     (let zero = fo_zero (lb_ops L);
          num = (if vl_null num0 \<and> op \<in> set counted_ops \<and> \<not> vl_null den \<and> lb_less L zero (num_of L den) then int_value L 0 else num0)
      in if vl_null num \<or> vl_null den \<or> lb_eq L (num_of L den) zero then null_value L
         else (float_value L (lb_div L (num_of L num) (num_of L den)))\<lparr>vl_approx := vl_approx num \<or> vl_approx den\<rparr>)"

definition plain_metric :: "'f lib \<Rightarrow> agg_plan \<Rightarrow> 'f merged \<Rightarrow> resolved \<Rightarrow> nat list \<Rightarrow> nat option \<Rightarrow> bool \<Rightarrow> 'f metric_value option" where
  "plain_metric L a m r gs day whole = (let op = m_op (re_metric r) in
     if op = ''share'' then Some (share_metric L a m r gs day whole)
     else if op = ''count'' then Some (int_value L (int (sum_list (map (\<lambda>g. mask_count a m (re_mask r) g day) gs))))
     else if op \<in> {''sum'', ''avg'', ''min'', ''max''} then Some (eval_num L a m op (the (re_num r)) gs day)
     else if op = ''latest'' then Some (latest_of L a m (the (re_latest r)) gs day)
     else if op = ''percentile'' then Some (percentile L a m r gs day)
     else if op \<in> {''mean'', ''weight''} then Some (measure_metric L a m op (the (re_msr r)) gs day)
     else if op \<in> {''bounces'', ''bounce_rate''} then Some (bounce_metric L a m op (re_mask r) gs day)
     else if op \<in> {''actors'', ''users'', ''groups'', ''attr_values''} then Some (distinct_metric L a m (the (re_distinct r)) gs day)
     else daily_metric L a m op (the (re_distinct r)) gs day)"

fun compute_raw :: "'f lib \<Rightarrow> agg_plan \<Rightarrow> 'f merged \<Rightarrow> resolved \<Rightarrow> nat list \<Rightarrow> nat option \<Rightarrow> bool \<Rightarrow> 'f metric_value option" where
  "compute_raw L a m (Resolved mt k x y z l (Some (n, d))) gs day whole =
     Option.bind (compute_raw L a m n gs day whole) (\<lambda>num.
       map_option (ratio_value L (m_op (re_metric n)) num) (compute_raw L a m d gs day whole))"
| "compute_raw L a m (Resolved mt k x y z l None) gs day whole = plain_metric L a m (Resolved mt k x y z l None) gs day whole"

definition compute_metric :: "'f lib \<Rightarrow> agg_plan \<Rightarrow> 'f merged \<Rightarrow> resolved \<Rightarrow> nat list \<Rightarrow> nat option \<Rightarrow> 'f metric_value option" where
  "compute_metric L a m r gs day = map_option (round_value L (m_round (re_metric r))) (compute_raw L a m r gs day False)"

definition compute_other :: "'f lib \<Rightarrow> agg_plan \<Rightarrow> 'f merged \<Rightarrow> resolved \<Rightarrow> nat list \<Rightarrow> 'f metric_value option" where
  "compute_other L a m r gs = map_option (round_value L (m_round (re_metric r))) (compute_raw L a m r gs None True)"

end
