(* ===== verification/AggAnswer.thy ===== *)
theory AggAnswer
  imports AggMerge
begin

text \<open>
  Answers of a stat, a trend and a breakdown from their aggregations (\<^verbatim>\<open>internal/native/engine.go\<close>):
  the aggregations a query takes, the weeks and months of a trend, the ranking of series and groups,
  and the rows. \<^verbatim>\<open>slices.SortFunc\<close> is a sort by the comparison; the batches a scan reads are given,
  each with the worker that takes it and the bytes held then. A civil date is its days since
  1970-01-01.
\<close>

section \<open>Sorting by a comparison\<close>

fun insert_cmp :: "('a \<Rightarrow> 'a \<Rightarrow> int) \<Rightarrow> 'a \<Rightarrow> 'a list \<Rightarrow> 'a list" where
  "insert_cmp cmp x [] = [x]"
| "insert_cmp cmp x (y # ys) = (if cmp x y \<le> 0 then x # y # ys else y # insert_cmp cmp x ys)"

definition sort_cmp :: "('a \<Rightarrow> 'a \<Rightarrow> int) \<Rightarrow> 'a list \<Rightarrow> 'a list" where
  "sort_cmp cmp xs = foldr (insert_cmp cmp) xs []"

section \<open>The aggregations of a query\<close>

record agg_spec =
  sp_from :: int
  sp_to :: int
  sp_dims :: "string list"
  sp_per_day :: bool
  sp_sets :: bool

definition agg_specs :: "query \<Rightarrow> int \<Rightarrow> int \<Rightarrow> agg_spec list" where
  "agg_specs q from to =
     (if q_kind q = ''stat'' then
        \<lparr>sp_from = from, sp_to = to, sp_dims = [], sp_per_day = False, sp_sets = False\<rparr>
        # (if q_compare q = ''previous'' then
             (let days = to - from + 1 in [\<lparr>sp_from = from - days, sp_to = from - 1, sp_dims = [], sp_per_day = False, sp_sets = False\<rparr>])
           else [])
      else if q_kind q = ''trend'' then
        (let dims = (if q_series q \<noteq> [] then [q_series q] else []) in
         [\<lparr>sp_from = from, sp_to = to, sp_dims = dims, sp_per_day = True, sp_sets = dims \<noteq> []\<rparr>])
      else [\<lparr>sp_from = from, sp_to = to, sp_dims = q_dims q, sp_per_day = False, sp_sets = False\<rparr>])"

text \<open>The first day of the week, from Monday, or of the month; 1970-01-01 was a Thursday.\<close>

definition bucket_start :: "string \<Rightarrow> int \<Rightarrow> int" where
  "bucket_start interval d =
     (if interval = ''month'' then (case civil_of d of (y, m, _) \<Rightarrow> epoch_day y m 1)
      else d - ((d + 4) mod 7 + 6) mod 7)"

fun buckets_from :: "string \<Rightarrow> int list \<Rightarrow> nat list \<Rightarrow> int list \<Rightarrow> nat list \<times> int list" where
  "buckets_from interval [] index starts = (index, starts)"
| "buckets_from interval (d # ds) index starts =
     (let e = bucket_start interval d; starts1 = (if starts = [] \<or> last starts \<noteq> e then starts @ [e] else starts)
      in buckets_from interval ds (index @ [length starts1 - 1]) starts1)"

definition trend_buckets :: "int \<Rightarrow> int \<Rightarrow> string \<Rightarrow> nat list \<times> int list" where
  "trend_buckets from to interval = buckets_from interval [from..to] [] []"

record engine_bounds =
  eb_workers :: nat
  eb_groups :: nat
  eb_bytes :: int

definition agg_options_of :: "engine_bounds \<Rightarrow> query_scan \<Rightarrow> agg_spec \<Rightarrow> agg_options" where
  "agg_options_of e s sp =
     (let bucket = sp_per_day sp \<and> bucketed (qs_query s);
          bs = trend_buckets (sp_from sp) (sp_to sp) (q_interval (qs_query s))
      in \<lparr>ao_metrics = qs_metrics s, ao_filters = qs_filters s, ao_dims = sp_dims sp, ao_per_day = sp_per_day sp, ao_sets = sp_sets sp,
          ao_from = sp_from sp, ao_ndays = (if bucket then length (snd bs) else nat (sp_to sp - sp_from sp + 1)),
          ao_max_groups = eb_groups e, ao_max_bytes = eb_bytes e,
          ao_buckets = (if bucket then Some (fst bs) else None), ao_starts = (if bucket then Some (snd bs) else None),
          ao_defs = qs_defs s\<rparr>)"

text \<open>What a scan reads for an aggregation, and the identity columns it adds.\<close>

definition defined_columns :: "defined_column list \<Rightarrow> string list" where
  "defined_columns defs = concat (map (\<lambda>d. concat (map (\<lambda>fs. concat (map columns_of fs)) (dn_cases d))) defs)"

definition agg_columns :: "agg_plan \<Rightarrow> string list" where
  "agg_columns a =
     (let add = (\<lambda>c cols. append_new cols (read_columns c)); plain = (\<lambda>c cols. append_new cols [c]);
          c1 = fold add (filter (\<lambda>c. \<not> is_defined c) (concat (map columns_of (concat (ap_filters a # ap_masks a))))) [''day''];
          c2 = fold add (filter (\<lambda>c. \<not> is_defined c) (ap_dims a)) c1;
          c3 = fold add (defined_columns (ap_defs a)) c2;
          c4 = fold plain (map nm_name (ap_nums a)) c3;
          c5 = fold plain (filter (\<lambda>c. c \<noteq> days_col) (map di_name (ap_distinct a))) c4;
          c6 = (if ap_bounces a then append_new c5 [''views''] else c5);
          c7 = (if ap_latests a \<noteq> [] then fold add (filter (\<lambda>c. \<not> is_defined c) (map la_name (ap_latests a))) (append_new c6 [''ts'']) else c6)
      in if ap_msrs a \<noteq> [] then append_new c7 [''value'', ''sample_rate''] else c7)"

fun spec_wheres :: "metric_spec \<Rightarrow> cfilter list list" where
  "spec_wheres (MetricSpec m cs (Some n) (Some d)) = cs # spec_wheres n @ spec_wheres d"
| "spec_wheres (MetricSpec m cs _ _) = [cs]"

definition identity_columns_of :: "query_scan \<Rightarrow> string list \<Rightarrow> string list" where
  "identity_columns_of s dims =
     append_new [] (filter (\<lambda>c. map_of id_columns c \<noteq> None)
       (concat (map columns_of (concat (qs_filters s # concat (map spec_wheres (qs_metrics s))))) @ dims @ defined_columns (qs_defs s)))"

definition needs_names :: "string list \<Rightarrow> bool" where
  "needs_names cols \<longleftrightarrow> (\<exists>c \<in> set cols. case map_of id_columns c of Some (_, _, g) \<Rightarrow> g = IdLabel | None \<Rightarrow> False)"

text \<open>The family filter of a table: any (\<open>[]\<close>), any but checks, or one.\<close>

definition not_checks :: string where "not_checks = ''!checks''"

definition fam_match :: "string \<Rightarrow> string \<Rightarrow> bool" where
  "fam_match want got = (if want = [] then True else if want = not_checks then got \<noteq> ''checks'' else got = want)"

definition rule_family :: "string \<Rightarrow> string" where
  "rule_family fam = (if fam = not_checks then [] else fam)"

definition table_family :: "query \<Rightarrow> string" where
  "table_family q = (if q_table q = ''events'' then not_checks else q_table q)"

section \<open>Rows\<close>

text \<open>A merged aggregation, with its plan and its metrics resolved.\<close>

record 'f aggregated =
  ag_plan :: agg_plan
  ag_merged :: "'f merged"
  ag_metrics :: "resolved list"

definition out_answer :: "(string \<times> bool) list \<Rightarrow> string list list \<Rightarrow> bool \<Rightarrow> answer" where
  "out_answer cols rows truncated =
     \<lparr>an_columns = map fst cols, an_rows = rows, an_truncated = truncated, an_approximate = map fst (filter snd cols)\<rparr>"

definition spec_name :: "'f lib \<Rightarrow> resolved \<Rightarrow> string" where
  "spec_name L r = metric_name (lb_show L) (re_metric r)"

definition stat_cells :: "'f lib \<Rightarrow> string \<Rightarrow> 'f aggregated \<Rightarrow> ((string \<times> bool) \<times> string) list option" where
  "stat_cells L prefix x = each_some (\<lambda>r. map_option (\<lambda>v. ((prefix @ spec_name L r, vl_approx v), value_string L v))
     (compute_metric L (ag_plan x) (ag_merged x) r [0] None)) (ag_metrics x)"

fun stat_answer :: "'f lib \<Rightarrow> 'f aggregated list \<Rightarrow> answer option" where
  "stat_answer L [] = Some (out_answer [] [[]] False)"
| "stat_answer L (x # xs) = Option.bind (stat_cells L [] x) (\<lambda>first.
     map_option (\<lambda>others. let cells = first @ concat others in out_answer (map fst cells) [map snd cells] False)
       (each_some (stat_cells L ''previous_'') xs))"

definition dim_label :: "dim_val \<Rightarrow> string" where
  "dim_label v = (if dv_null v then [] else dv_s v)"

definition group_vals :: "'f merged \<Rightarrow> nat \<Rightarrow> dim_val list" where
  "group_vals m g = gt_vals (the (mg_table m)) ! g"

definition rank_groups :: "'f lib \<Rightarrow> 'f aggregated \<Rightarrow> resolved \<Rightarrow> (nat \<Rightarrow> nat \<Rightarrow> int) \<Rightarrow> nat list option" where
  "rank_groups L x r tie =
     map_option (\<lambda>rank. sort_cmp (\<lambda>g h. let c = cmp_desc L (rank ! g) (rank ! h) in if c \<noteq> 0 then c else tie g h) [0..<mg_groups (ag_merged x)])
       (each_some (\<lambda>g. compute_metric L (ag_plan x) (ag_merged x) r [g] None) [0..<mg_groups (ag_merged x)])"

text \<open>A trend's series: the best of its first metric, then by value.\<close>

definition trend_series :: "'f lib \<Rightarrow> query \<Rightarrow> 'f aggregated \<Rightarrow> nat list option" where
  "trend_series L q x =
     (case ap_dims (ag_plan x) of
        [] \<Rightarrow> Some [0]
      | d # _ \<Rightarrow>
          let tie = (\<lambda>g h. cmp_dim (type_of d) (hd (group_vals (ag_merged x) g)) (hd (group_vals (ag_merged x) h)));
              limit = (if q_series_limit q = 0 then 5 else nat (q_series_limit q))
          in map_option (\<lambda>gs. sort_cmp tie (take limit gs)) (rank_groups L x (hd (ag_metrics x)) tie))"

definition trend_value :: "'f lib \<Rightarrow> bool \<Rightarrow> 'f aggregated \<Rightarrow> resolved \<Rightarrow> nat \<Rightarrow> nat \<Rightarrow> string option" where
  "trend_value L fill x r g d = map_option
     (\<lambda>v. if fill \<and> vl_null v \<and> m_op (re_metric r) \<in> set counted_ops then ''0'' else value_string L v)
     (compute_metric L (ag_plan x) (ag_merged x) r [g] (Some d))"

definition long_day :: "'f lib \<Rightarrow> bool \<Rightarrow> 'f aggregated \<Rightarrow> nat \<Rightarrow> string list list option" where
  "long_day L fill x d = each_some (\<lambda>r. map_option (\<lambda>v. [format_day (day_of (ag_plan x) d), spec_name L r, v]) (trend_value L fill x r 0 d))
     (filter (\<lambda>r. fill \<or> metric_rows (ag_plan x) (ag_merged x) r 0 (Some d) > 0) (ag_metrics x))"

definition series_day :: "'f lib \<Rightarrow> bool \<Rightarrow> 'f aggregated \<Rightarrow> nat list \<Rightarrow> nat \<Rightarrow> string list list option" where
  "series_day L fill x series d = each_some (\<lambda>g. map_option (\<lambda>v. format_day (day_of (ag_plan x) d)
       # (if ap_dims (ag_plan x) \<noteq> [] then [dim_label (hd (group_vals (ag_merged x) g))] else []) @ [v])
       (trend_value L fill x (hd (ag_metrics x)) g d))
     (filter (\<lambda>g. fill \<or> mask_count (ag_plan x) (ag_merged x) 0 g (Some d) \<noteq> 0) series)"

definition trend_answer :: "'f lib \<Rightarrow> query \<Rightarrow> 'f aggregated \<Rightarrow> answer option" where
  "trend_answer L q x =
     (let a = ag_plan x; long = length (ag_metrics x) > 1; fill = q_fill q = ''zero'';
          cols = ''day'' # (if ap_dims a \<noteq> [] then [''series''] else [])
            @ (if long then [''series'', ''value''] else [spec_name L (hd (ag_metrics x))])
      in Option.bind (trend_series L q x) (\<lambda>series.
           map_option (\<lambda>rows. out_answer (map (\<lambda>c. (c, False)) cols) (concat rows)
               (case mg_table (ag_merged x) of None \<Rightarrow> False | Some t \<Rightarrow> gt_dropped t))
             (each_some (if long then long_day L fill x else series_day L fill x series) [0..<ap_ndays a])))"

fun by_dims :: "col_type list \<Rightarrow> dim_val list \<Rightarrow> dim_val list \<Rightarrow> int" where
  "by_dims (t # ts) (u # us) (v # vs) = (let c = cmp_dim t u v in if c \<noteq> 0 then c else by_dims ts us vs)"
| "by_dims _ _ _ = 0"

definition metric_cells :: "('f lib \<Rightarrow> resolved \<Rightarrow> 'f metric_value option) \<Rightarrow> 'f lib \<Rightarrow> resolved list \<Rightarrow> (string \<times> bool) list option" where
  "metric_cells compute L ms = each_some (\<lambda>r. map_option (\<lambda>v. (value_string L v, vl_approx v)) (compute L r)) ms"

text \<open>The groups in the query's order: by a dimension, or by a metric, the first unless it is named.\<close>

definition last_named :: "'f lib \<Rightarrow> string \<Rightarrow> resolved list \<Rightarrow> nat" where
  "last_named L name ms = foldl (\<lambda>k i. if spec_name L (ms ! i) = name then i else k) 0 [0..<length ms]"

definition breakdown_order :: "'f lib \<Rightarrow> query \<Rightarrow> 'f aggregated \<Rightarrow> nat list option" where
  "breakdown_order L q x =
     (let m = ag_merged x; types = map type_of (ap_dims (ag_plan x));
          ties = (\<lambda>g h. by_dims types (group_vals m g) (group_vals m h))
      in case index_of (q_order q) (q_dims q) of
           Some j \<Rightarrow> Some (sort_cmp (\<lambda>g h. let c = cmp_dim (types ! j) (group_vals m g ! j) (group_vals m h ! j) in
               if c \<noteq> 0 then c else ties g h) [0..<mg_groups m])
         | None \<Rightarrow> rank_groups L x (ag_metrics x ! last_named L (q_order q) (ag_metrics x)) ties)"

definition breakdown_answer :: "'f lib \<Rightarrow> query \<Rightarrow> 'f aggregated \<Rightarrow> answer option" where
  "breakdown_answer L q x0 =
     (let ms = ag_metrics x0; a = ag_plan x0;
          m = (if length (ap_dims a) > 1 \<and> (\<exists>r \<in> set ms. m_op (re_metric r) = ''share'') then partition_by (ag_merged x0) else ag_merged x0);
          x = x0\<lparr>ag_merged := m\<rparr>;
          limit0 = (if q_limit q = 0 then 20 else nat (q_limit q))
      in Option.bind (breakdown_order L q x) (\<lambda>gs.
           let limit = (if q_other q \<and> length gs = limit0 + 1 then limit0 + 1 else limit0);
               top = take limit gs; rest = drop limit gs in
           Option.bind (each_some (\<lambda>g. metric_cells (\<lambda>L r. compute_metric L a m r [g] None) L ms) top) (\<lambda>cells.
           Option.bind (if q_other q \<and> rest \<noteq> [] then map_option (\<lambda>c. [c]) (metric_cells (\<lambda>L r. compute_other L a m r rest) L ms) else Some []) (\<lambda>other.
             let approx = map (\<lambda>i. \<exists>c \<in> set (cells @ other). snd (c ! i)) [0..<length ms]
             in Some (out_answer (map (\<lambda>d. (d, False)) (q_dims q) @ zip (map (spec_name L) ms) approx)
                  (map2 (\<lambda>g c. map dim_label (group_vals m g) @ map fst c) top cells
                   @ map (\<lambda>c. map (\<lambda>_. ''Other'') (ap_dims a) @ map fst c) other)
                  (gt_dropped (the (mg_table m))))))))"

definition result_of :: "'f lib \<Rightarrow> query \<Rightarrow> 'f aggregated list \<Rightarrow> answer option" where
  "result_of L q xs = map_option (\<lambda>res. if long_shape q then to_long (lb_show L) q res else res)
     (if q_kind q = ''stat'' then stat_answer L xs
      else if q_kind q = ''trend'' then trend_answer L q (hd xs) else breakdown_answer L q (hd xs))"

section \<open>A query over its batches\<close>

text \<open>An aggregation over a scan's batches, the parts and the table empty at first.\<close>

definition aggregate :: "'f lib \<Rightarrow> engine_bounds \<Rightarrow> query_scan \<Rightarrow> agg_spec \<Rightarrow> (nat \<times> 'f batch \<times> int) list \<Rightarrow> agg_error + 'f aggregated" where
  "aggregate L e s sp bs =
     and_then (new_agg (lb_quote L) (agg_options_of e s sp)) (\<lambda>(rs, a).
       and_then (agg_adds L a bs (replicate (eb_workers e) new_part, plan_table a)) (\<lambda>st.
         case agg_merge L a st of None \<Rightarrow> Inl Hangs | Some m \<Rightarrow> Inr \<lparr>ag_plan = a, ag_merged = m, ag_metrics = rs\<rparr>))"

fun aggregate_all :: "'f lib \<Rightarrow> engine_bounds \<Rightarrow> query_scan \<Rightarrow> agg_spec list \<Rightarrow> (agg_spec \<Rightarrow> (nat \<times> 'f batch \<times> int) list)
    \<Rightarrow> agg_error + 'f aggregated list" where
  "aggregate_all L e s [] scan = Inr []"
| "aggregate_all L e s (sp # sps) scan = and_then (aggregate L e s sp (scan sp)) (\<lambda>x.
     and_then (aggregate_all L e s sps scan) (\<lambda>xs. Inr (x # xs)))"

definition answer_query :: "'f lib \<Rightarrow> engine_bounds \<Rightarrow> query_scan \<Rightarrow> int \<Rightarrow> int \<Rightarrow> (agg_spec \<Rightarrow> (nat \<times> 'f batch \<times> int) list) \<Rightarrow> agg_error + answer" where
  "answer_query L e s from to scan =
     and_then (aggregate_all L e s (agg_specs (qs_query s) from to) scan) (\<lambda>xs.
       case result_of L (qs_query s) xs of None \<Rightarrow> Inl Hangs | Some res \<Rightarrow> Inr res)"

end
