(* ===== verification/AggCounts.thy ===== *)
theory AggCounts
  imports AggAnswer
begin

text \<open>
  What an aggregation counts. Whatever workers its batches go to, in whatever order, each part's
  arrays stand for the rows it was given, and the merged ones for all of them: a cell holds the rows
  of its group and day that pass its mask.
\<close>

section \<open>The rows of a part\<close>

text \<open>A tracked row: its batch, its group and its place.\<close>

type_synonym 'f row = "'f batch \<times> int \<times> nat"

definition row_passes :: "'f lib \<Rightarrow> 'f batch \<Rightarrow> nat \<Rightarrow> cfilter list \<Rightarrow> bool" where
  "row_passes L b i fs \<longleftrightarrow> list_all (passes (lb_ops L) (lb_low L) b i) fs"

definition days_of :: "'f lib \<Rightarrow> 'f batch \<Rightarrow> int list" where
  "days_of L b = (case day_column L b of Inr ns \<Rightarrow> ns | Inl e \<Rightarrow> [])"

definition cell_index :: "agg_plan \<Rightarrow> 'f lib \<Rightarrow> 'f row \<Rightarrow> nat" where
  "cell_index a L r = (case r of (b, g, i) \<Rightarrow> nat (cell_of a (days_of L b) (g, i)))"

text \<open>The observations of the rows \<open>P\<close> takes.\<close>

definition row_obs :: "agg_plan \<Rightarrow> 'f lib \<Rightarrow> ('f row \<Rightarrow> 'o option) \<Rightarrow> 'f row list \<Rightarrow> (nat \<times> 'o) multiset" where
  "row_obs a L ob R = mset (map (\<lambda>r. (cell_index a L r, the (ob r))) (filter (\<lambda>r. ob r \<noteq> None) R))"

lemma row_obs_append: "row_obs a L ob (R @ S) = row_obs a L ob R + row_obs a L ob S"
  by (simp add: row_obs_def)

lemma row_obs_Nil [simp]: "row_obs a L ob [] = {#}"
  by (simp add: row_obs_def)

text \<open>The rows a batch adds to its part.\<close>

definition batch_rows :: "'f batch \<Rightarrow> int list \<Rightarrow> nat list \<Rightarrow> 'f row list" where
  "batch_rows b gids sel = map (Pair b) (kept gids sel None)"

lemma kept_mask: "kept gids sel (Some ks) = filter (\<lambda>r. ks ! snd r) (kept gids sel None)"
  by (simp add: kept_def split_def conj_commute)

lemma kept_inside: "r \<in> set (kept gids sel None) \<Longrightarrow> 0 \<le> fst r \<and> snd r \<in> set sel"
  by (auto simp: kept_def dest: set_zip_rightD)

text \<open>A loop over the rows of a batch adds their observations.\<close>

lemma row_obs_batch:
  assumes "\<And>r. r \<in> set (kept gids sel None) \<Longrightarrow> ob (b, r) = (if Q r then Some (g r) else None)" and "day_column L b = Inr days"
  shows "row_obs a L ob (batch_rows b gids sel)
    = image_mset (\<lambda>r. (nat (cell_of a days r), g r)) (mset (filter Q (kept gids sel None)))"
proof -
  have "filter (\<lambda>r. ob r \<noteq> None) (map (Pair b) (kept gids sel None)) = map (Pair b) (filter Q (kept gids sel None))"
    using assms(1) by (auto simp: filter_map intro!: arg_cong [where f = "map (Pair b)"] filter_cong split: if_splits)
  moreover have "map (\<lambda>r. (cell_index a L r, the (ob r))) (map (Pair b) (filter Q (kept gids sel None)))
      = map (\<lambda>r. (nat (cell_of a days r), g r)) (filter Q (kept gids sel None))"
    using assms by (auto simp: cell_index_def days_of_def)
  ultimately show ?thesis by (simp only: row_obs_def batch_rows_def mset_map [symmetric] mset_filter [symmetric])
qed

section \<open>A batch is added whole\<close>

lemma grow_first:
  assumes "pt_count (grow_part fo a grouped (Suc n) p) = []" "ap_masks a \<noteq> []" "0 < ap_nd a"
  shows False
  using assms by (auto simp: grow_part_def first_grown_def have_cells_def Let_def split: if_splits)

lemma add_batch_parts:
  assumes "add_batch L a b p table mem = Inr (p', table', mem')"
  shows "\<exists>sel. select_rows (lb_ops L) (lb_low L) b (ap_filters a) = Inr sel \<and>
    ((sel = [] \<and> p' = p \<and> table' = table)
     \<or> (\<exists>gids gmax. groups_of (lb_ops L) (lb_low L) (ap_dims a) b sel table mem = Inr (gids, gmax, table', mem') \<and>
          (if gmax < 0 then p' = p
           else \<exists>days pass views. day_column L b = Inr days \<and> mask_rows L b (tl (ap_masks a)) = Inr pass \<and> views_column L a b = Inr views
             \<and> add_rows L a b days views (None # pass) (kept gids sel) (grow_part (lb_ops L) a (table \<noteq> None) (Suc (nat gmax)) p) = Inr p')))"
proof -
  have lift: "map_sum f id x = Inr y \<longleftrightarrow> x = Inr y" for f :: "'x \<Rightarrow> 'y" and x and y :: 'z by (cases x) auto
  obtain sel where sel: "select_rows (lb_ops L) (lb_low L) b (ap_filters a) = Inr sel"
    using assms by (auto simp: add_batch_def and_then_Inr lift)
  show ?thesis
  proof (cases "sel = []")
    case True
    then show ?thesis using assms sel by (auto simp: add_batch_def)
  next
    case False
    obtain gids gmax t1 m1 where g: "groups_of (lb_ops L) (lb_low L) (ap_dims a) b sel table mem = Inr (gids, gmax, t1, m1)"
      using assms sel False by (auto simp: add_batch_def and_then_Inr lift)
    then have t1: "t1 = table'" "m1 = mem'"
      using assms sel False by (auto simp: add_batch_def and_then_Inr lift Let_def split: if_splits)
    have "if gmax < 0 then p' = p
           else \<exists>days pass views. day_column L b = Inr days \<and> mask_rows L b (tl (ap_masks a)) = Inr pass \<and> views_column L a b = Inr views
             \<and> add_rows L a b days views (None # pass) (kept gids sel) (grow_part (lb_ops L) a (table \<noteq> None) (Suc (nat gmax)) p) = Inr p'"
      using assms sel False g by (auto simp: add_batch_def and_then_Inr lift Let_def split: if_splits)
    with sel g show ?thesis unfolding t1 by blast
  qed
qed

text \<open>The rows a mask keeps are those that pass its filters.\<close>

lemma passed_bits:
  assumes "batch_ok b" "list_all compiled_ok fs" "pass_rows fo low b fs = Inr keep"
  shows "keep = row_bits (b_n b) (\<lambda>i. list_all (passes fo low b i) fs)"
  using pass_from_rows [OF assms(1,2), of fo low "\<lambda>_. True"] assms(3) by (auto simp: pass_rows_def replicate_bits)

lemma mask_rows_bits:
  assumes "batch_ok b" "\<forall>fs \<in> set fss. list_all compiled_ok fs" "mask_rows L b fss = Inr pass"
  shows "pass = map (\<lambda>fs. Some (row_bits (b_n b) (\<lambda>i. row_passes L b i fs))) fss"
  using assms(2,3)
proof (induction fss arbitrary: pass)
  case (Cons fs fss)
  obtain keep rest where k: "pass_rows (lb_ops L) (lb_low L) b fs = Inr keep" "mask_rows L b fss = Inr rest" "pass = Some keep # rest"
    using Cons.prems by (cases "pass_rows (lb_ops L) (lb_low L) b fs") (auto simp: and_then_Inr)
  then show ?case using Cons passed_bits [OF assms(1) _ k(1)] by (simp add: row_passes_def)
qed simp

definition plan_ok :: "agg_plan \<Rightarrow> bool" where
  "plan_ok a \<longleftrightarrow> ap_masks a \<noteq> [] \<and> hd (ap_masks a) = [] \<and> 0 < ap_nd a \<and> list_all compiled_ok (ap_filters a)
     \<and> (\<forall>fs \<in> set (ap_masks a). list_all compiled_ok fs)
     \<and> (\<forall>n \<in> set (ap_nums a). nm_mask n < length (ap_masks a)) \<and> (\<forall>n \<in> set (ap_distinct a). di_mask n < length (ap_masks a))
     \<and> (\<forall>n \<in> set (ap_msrs a). mr_mask n < length (ap_masks a)) \<and> (\<forall>n \<in> set (ap_latests a). la_mask n < length (ap_masks a))"

lemma mask_kept:
  assumes ok: "plan_ok a" "batch_ok b" and pass: "mask_rows L b (tl (ap_masks a)) = Inr pass" and sel: "\<forall>i \<in> set sel. i < b_n b"
    and k: "k < length (ap_masks a)"
  shows "kept gids sel ((None # pass) ! k) = filter (\<lambda>r. row_passes L b (snd r) (ap_masks a ! k)) (kept gids sel None)"
proof -
  have masks: "ap_masks a = [] # tl (ap_masks a)" using ok(1) by (metis plan_ok_def list.collapse)
  have "\<forall>fs \<in> set (tl (ap_masks a)). list_all compiled_ok fs" using ok(1) by (auto simp: plan_ok_def dest: list.set_sel(2))
  note p = mask_rows_bits [OF ok(2) this pass]
  show ?thesis
  proof (cases k)
    case 0
    have "ap_masks a ! 0 = []" using masks by (metis nth_Cons_0)
    then show ?thesis by (simp add: 0 row_passes_def)
  next
    case (Suc j)
    have nth: "ap_masks a ! k = tl (ap_masks a) ! j" using masks Suc by (metis nth_Cons_Suc)
    have "j < length (tl (ap_masks a))" using k Suc by simp
    then have "(None # pass) ! k = Some (row_bits (b_n b) (\<lambda>i. row_passes L b i (ap_masks a ! k)))" by (simp add: Suc p nth [symmetric, unfolded Suc])
    then show ?thesis using sel by (auto simp: kept_mask row_bits_def dest: kept_inside intro!: filter_cong)
  qed
qed

lemma pass_length: "mask_rows L b fss = Inr pass \<Longrightarrow> length pass = length fss"
  by (induction fss arbitrary: pass) (auto simp: and_then_Inr)

text \<open>Adding rows, kind by kind.\<close>

lemma add_rows_parts:
  assumes "add_rows L a b days views pass rows p = Inr p'"
  shows "each_pair (\<lambda>keep cs. count_rows (cell_of a days) (rows keep) cs) pass (pt_count p) = Inr (pt_count p')"
    and "(case views of None \<Rightarrow> Inr (pt_bounces p) | Some v \<Rightarrow> each_pair (\<lambda>keep cs. count_rows (cell_of a days) (filter (\<lambda>r. one_view v (snd r)) (rows keep)) cs) pass (pt_bounces p))
      = Inr (pt_bounces p')"
    and "each_pair (add_num L b rows pass (cell_of a days)) (ap_nums a) (pt_nums p) = Inr (pt_nums p')"
    and "\<exists>p2. pt_msrs p2 = pt_msrs p \<and> (\<exists>p3. add_measures L a b rows pass (cell_of a days) p2 = Inr p3 \<and> pt_msrs p' = pt_msrs p3)"
    and "\<exists>p2. pt_latest p2 = pt_latest p \<and> (\<exists>p3. add_latest L a b rows pass (cell_of a days) p2 = Inr p3 \<and> pt_latest p' = pt_latest p3)"
    and "\<exists>n n' sds. add_each_distinct L a b rows pass days (zip (ap_distinct a) (zip (pt_sets p) (pt_days p))) n = Inr (sds, n')
      \<and> pt_sets p' = map fst sds \<and> pt_days p' = map snd sds"
proof -
  obtain p1 nums p2 p3 sds n where
      p1: "add_counts a views rows pass (cell_of a days) p = Inr p1"
      and nums: "each_pair (add_num L b rows pass (cell_of a days)) (ap_nums a) (pt_nums p1) = Inr nums"
      and p2: "add_measures L a b rows pass (cell_of a days) (p1\<lparr>pt_nums := nums\<rparr>) = Inr p2"
      and p3: "add_latest L a b rows pass (cell_of a days) p2 = Inr p3"
      and sds: "add_each_distinct L a b rows pass days (zip (ap_distinct a) (zip (pt_sets p3) (pt_days p3))) (pt_grew p3) = Inr (sds, n)"
      and p': "p' = p3\<lparr>pt_sets := map fst sds, pt_days := map snd sds, pt_grew := n\<rparr>"
    using assms by (auto simp: add_rows_def and_then_Inr Let_def)
  have f1: "pt_nums p1 = pt_nums p" "pt_msrs p1 = pt_msrs p" "pt_latest p1 = pt_latest p" "pt_sets p1 = pt_sets p" "pt_days p1 = pt_days p"
    using p1 by (auto simp: add_counts_def and_then_Inr)
  have f2: "pt_count p2 = pt_count p1" "pt_bounces p2 = pt_bounces p1" "pt_nums p2 = nums" "pt_latest p2 = pt_latest p1" "pt_sets p2 = pt_sets p1" "pt_days p2 = pt_days p1"
    using p2 by (auto simp: add_measures_def Let_def and_then_Inr split: if_splits option.splits)
  have f3: "pt_count p3 = pt_count p2" "pt_bounces p3 = pt_bounces p2" "pt_nums p3 = pt_nums p2" "pt_msrs p3 = pt_msrs p2" "pt_sets p3 = pt_sets p2" "pt_days p3 = pt_days p2"
    using p3 by (auto simp: add_latest_def Let_def and_then_Inr split: if_splits option.splits)
  show "each_pair (\<lambda>keep cs. count_rows (cell_of a days) (rows keep) cs) pass (pt_count p) = Inr (pt_count p')"
    and "(case views of None \<Rightarrow> Inr (pt_bounces p) | Some v \<Rightarrow> each_pair (\<lambda>keep cs. count_rows (cell_of a days) (filter (\<lambda>r. one_view v (snd r)) (rows keep)) cs) pass (pt_bounces p))
      = Inr (pt_bounces p')"
    using p1 by (auto simp: add_counts_def and_then_Inr p' f3 f2 split: option.splits)
  show "each_pair (add_num L b rows pass (cell_of a days)) (ap_nums a) (pt_nums p) = Inr (pt_nums p')"
    using nums by (simp add: p' f3 f2 f1)
  show "\<exists>p2. pt_msrs p2 = pt_msrs p \<and> (\<exists>p3. add_measures L a b rows pass (cell_of a days) p2 = Inr p3 \<and> pt_msrs p' = pt_msrs p3)"
    by (intro exI [of _ "p1\<lparr>pt_nums := nums\<rparr>"] conjI exI [of _ p2]) (simp_all add: p2 p' f3 f1)
  show "\<exists>p2. pt_latest p2 = pt_latest p \<and> (\<exists>p3. add_latest L a b rows pass (cell_of a days) p2 = Inr p3 \<and> pt_latest p' = pt_latest p3)"
    by (intro exI [of _ p2] conjI exI [of _ p3]) (simp_all add: p3 p' f2 f1)
  show "\<exists>n n' sds. add_each_distinct L a b rows pass days (zip (ap_distinct a) (zip (pt_sets p) (pt_days p))) n = Inr (sds, n')
      \<and> pt_sets p' = map fst sds \<and> pt_days p' = map snd sds"
    using sds by (intro exI [of _ "pt_grew p3"] exI [of _ n] exI [of _ sds]) (simp add: p' f3 f2 f1)
qed

section \<open>The rows a part was given\<close>

text \<open>How a part comes about: fresh, then grown and given a batch at a time.\<close>

inductive part_of_rows :: "'f lib \<Rightarrow> agg_plan \<Rightarrow> bool \<Rightarrow> 'f part \<Rightarrow> 'f row list \<Rightarrow> bool" for L a grouped where
  fresh: "part_of_rows L a grouped new_part []"
| idle: "part_of_rows L a grouped p R \<Longrightarrow> part_of_rows L a grouped (p\<lparr>pt_grew := n\<rparr>) R"
| batch: "part_of_rows L a grouped p R \<Longrightarrow> batch_ok b \<Longrightarrow> \<forall>i \<in> set sel. i < b_n b \<Longrightarrow> day_column L b = Inr days
    \<Longrightarrow> mask_rows L b (tl (ap_masks a)) = Inr pass \<Longrightarrow> views_column L a b = Inr views
    \<Longrightarrow> add_rows L a b days views (None # pass) (kept gids sel) (grow_part (lb_ops L) a grouped (Suc groups) p) = Inr p'
    \<Longrightarrow> part_of_rows L a grouped p' (R @ batch_rows b gids sel)"

text \<open>The arrays a part has.\<close>

definition started :: "agg_plan \<Rightarrow> 'f part \<Rightarrow> bool" where
  "started a p \<longleftrightarrow> length (pt_count p) = length (ap_masks a) \<and> length (pt_bounces p) = (if ap_bounces a then length (ap_masks a) else 0)
     \<and> length (pt_nums p) = length (ap_nums a) \<and> length (pt_msrs p) = length (ap_msrs a) \<and> length (pt_latest p) = length (ap_latests a)
     \<and> length (pt_sets p) = length (ap_distinct a) \<and> length (pt_days p) = length (ap_distinct a)"

definition unstarted :: "'f part \<Rightarrow> bool" where
  "unstarted p \<longleftrightarrow> p\<lparr>pt_grew := 0\<rparr> = new_part"

lemma unstarted_fields: "unstarted p \<Longrightarrow> pt_count p = [] \<and> pt_bounces p = [] \<and> pt_nums p = [] \<and> pt_msrs p = [] \<and> pt_latest p = [] \<and> pt_sets p = [] \<and> pt_days p = []"
  by (cases p) (simp add: unstarted_def new_part_def)

lemma grow_started:
  assumes "plan_ok a" "started a p \<or> unstarted p"
  shows "started a (grow_part fo a grouped (Suc n) p)"
proof (cases "pt_count p = []")
  case True
  have "ap_masks a \<noteq> []" "0 < ap_nd a" using assms(1) by (auto simp: plan_ok_def)
  then show ?thesis using True by (auto simp: grow_part_def first_grown_def started_def have_cells_def Let_def)
next
  case False
  then have "started a p" using assms(2) unstarted_fields by blast
  then show ?thesis using False by (auto simp: grow_part_def first_grown_def started_def Let_def)
qed

lemma add_each_msr_length: "add_each_msr L val rate rows pass cell ms n = Inr (out, n') \<Longrightarrow> length out = length ms"
  by (induction L val rate rows pass cell ms n arbitrary: out n' rule: add_each_msr.induct) (auto simp: and_then_Inr)

lemma add_each_latest_length: "add_each_latest L b ts rows pass cell ls n = Inr (out, n') \<Longrightarrow> length out = length ls"
  by (induction L b ts rows pass cell ls n arbitrary: out n' rule: add_each_latest.induct) (auto simp: and_then_Inr Let_def)

lemma add_each_distinct_length: "add_each_distinct L a b rows pass days ds n = Inr (out, n') \<Longrightarrow> length out = length ds"
  by (induction L a b rows pass days ds n arbitrary: out n' rule: add_each_distinct.induct) (auto simp: and_then_Inr)

lemma add_rows_started:
  assumes "add_rows L a b days views (None # pass) rows p = Inr p'" "started a p" "plan_ok a"
    and "mask_rows L b (tl (ap_masks a)) = Inr pass" "views_column L a b = Inr views"
  shows "started a p'"
proof -
  note parts = add_rows_parts [OF assms(1)]
  have masks: "length (None # pass) = length (ap_masks a)" using pass_length [OF assms(4)] assms(3) by (simp add: plan_ok_def)
  have "length (pt_count p') = length (ap_masks a)"
    using each_pair_length [OF parts(1)] masks assms(2) by (simp add: started_def)
  moreover have "length (pt_bounces p') = (if ap_bounces a then length (ap_masks a) else 0)"
  proof (cases views)
    case None
    then have "\<not> ap_bounces a" using assms(5) by (auto simp: views_column_def split: if_splits option.splits)
    then show ?thesis using parts(2) None assms(2) by (simp add: started_def)
  next
    case (Some v)
    then have "ap_bounces a" using assms(5) by (auto simp: views_column_def split: if_splits)
    then show ?thesis using each_pair_length [of _ "None # pass" "pt_bounces p" "pt_bounces p'"] parts(2) Some masks assms(2) by (auto simp: started_def)
  qed
  moreover have "length (pt_nums p') = length (ap_nums a)"
    using each_pair_length [OF parts(3)] assms(2) by (simp add: started_def)
  moreover have "length (pt_msrs p') = length (ap_msrs a)"
    using parts(4) assms(2) by (auto simp: started_def add_measures_def Let_def and_then_Inr dest: add_each_msr_length split: if_splits option.splits)
  moreover have "length (pt_latest p') = length (ap_latests a)"
    using parts(5) assms(2) by (auto simp: started_def add_latest_def Let_def and_then_Inr dest: add_each_latest_length split: if_splits option.splits)
  moreover have "length (pt_sets p') = length (ap_distinct a)" "length (pt_days p') = length (ap_distinct a)"
    using parts(6) assms(2) by (auto simp: started_def dest: add_each_distinct_length)
  ultimately show ?thesis by (simp add: started_def)
qed

lemma part_started:
  assumes "part_of_rows L a grouped p R" "plan_ok a"
  shows "started a p \<or> unstarted p \<and> R = []"
  using assms(1)
proof induction
  case fresh
  then show ?case by (simp add: unstarted_def new_part_def)
next
  case (idle p R n)
  then show ?case by (auto simp: started_def unstarted_def)
next
  case (batch p R b sel days pass views gids groups p')
  have "started a (grow_part (lb_ops L) a grouped (Suc groups) p)" using grow_started [OF assms(2)] batch.IH by blast
  from add_rows_started [OF batch.hyps(7) this assms(2) batch.hyps(5,6)] show ?case ..
qed

text \<open>Growing adds empty cells.\<close>

lemma grow_fields:
  assumes "plan_ok a" "started a p \<or> unstarted p"
  shows "\<exists>cells. (\<forall>k < length (ap_masks a). pt_count (grow_part fo a grouped (Suc n) p) ! k = grow_to 0 (if pt_count p = [] then [] else pt_count p ! k) cells)
    \<and> (ap_bounces a \<longrightarrow> (\<forall>k < length (ap_masks a). pt_bounces (grow_part fo a grouped (Suc n) p) ! k = grow_to 0 (if pt_count p = [] then [] else pt_bounces p ! k) cells))
    \<and> (\<forall>j < length (ap_nums a). pt_nums (grow_part fo a grouped (Suc n) p) ! j = grow_to (zero_num fo) (if pt_count p = [] then [] else pt_nums p ! j) cells)
    \<and> (\<forall>j < length (ap_msrs a). fst (pt_msrs (grow_part fo a grouped (Suc n) p) ! j) = grow_to (zero_msr fo) (if pt_count p = [] then [] else fst (pt_msrs p ! j)) cells)
    \<and> (\<forall>j < length (ap_latests a). pt_latest (grow_part fo a grouped (Suc n) p) ! j = grow_to zero_latest (if pt_count p = [] then [] else pt_latest p ! j) cells)
    \<and> (\<forall>j < length (ap_distinct a). di_set (ap_distinct a ! j) \<longrightarrow>
         pt_sets (grow_part fo a grouped (Suc n) p) ! j = grow_to empty_dset (if pt_count p = [] then [] else pt_sets p ! j) (cells div ap_nd a))
    \<and> (\<forall>j < length (ap_distinct a). di_day (ap_distinct a ! j) \<longrightarrow>
         pt_days (grow_part fo a grouped (Suc n) p) ! j = (if pt_count p = [] then replicate (ap_ndays a) (empty_day grouped) else pt_days p ! j))"
proof -
  have pos: "ap_masks a \<noteq> []" "0 < ap_nd a" using assms(1) by (auto simp: plan_ok_def)
  have zero: "grow_to z s 0 = s" for z :: 'z and s by (simp add: grow_to_def)
  show ?thesis
  proof (cases "pt_count p = []")
    case True
    have "Suc n * ap_nd a \<noteq> 0" using pos by simp
    then have p: "grow_part fo a grouped (Suc n) p = (let cells = max (Suc n * ap_nd a) 0; p1 = first_grown a grouped p in
        p1\<lparr>pt_count := map (\<lambda>cs. grow_to 0 cs cells) (pt_count p1), pt_bounces := map (\<lambda>cs. grow_to 0 cs cells) (pt_bounces p1),
           pt_nums := map (\<lambda>cs. grow_to (zero_num fo) cs cells) (pt_nums p1), pt_msrs := map (\<lambda>(cs, h). (grow_to (zero_msr fo) cs cells, h)) (pt_msrs p1),
           pt_latest := map (\<lambda>cs. grow_to zero_latest cs cells) (pt_latest p1),
           pt_sets := map2 (\<lambda>d ss. if di_set d then grow_to empty_dset ss (cells div ap_nd a) else ss) (ap_distinct a) (pt_sets p1),
           pt_grew := pt_grew p1 + int (cells - 0) * cell_bytes a + int (cells - 0) div int (ap_nd a) * group_cell_bytes a\<rparr>)"
      using True pos by (simp add: grow_part_def have_cells_def Let_def cong: if_cong)
    show ?thesis by (rule exI [of _ "Suc n * ap_nd a"]) (simp add: p True first_grown_def Let_def)
  next
    case False
    then have st: "started a p" using assms(2) unstarted_fields by blast
    have first: "first_grown a grouped p = p" using False by (simp add: first_grown_def)
    show ?thesis
    proof (cases "have_cells p \<ge> Suc n * ap_nd a")
      case True
      then have "grow_part fo a grouped (Suc n) p = p" by (simp add: grow_part_def Let_def)
      then show ?thesis using False by (intro exI [of _ 0]) (simp add: zero)
    next
      case small: False
      show ?thesis
        by (rule exI [of _ "max (Suc n * ap_nd a) (2 * have_cells p)"])
          (use small False st in \<open>simp add: grow_part_def first Let_def started_def split_def\<close>)
    qed
  qed
qed


section \<open>Counts\<close>

definition count_ob :: "'f lib \<Rightarrow> agg_plan \<Rightarrow> nat \<Rightarrow> 'f row \<Rightarrow> unit option" where
  "count_ob L a k r = (case r of (b, g, i) \<Rightarrow> if row_passes L b i (ap_masks a ! k) then Some () else None)"

lemma count_rows_rep:
  assumes "count_rows cell rows cs = Inr cs'" "counts.cells_rep cs M"
  shows "counts.cells_rep cs' (M + image_mset (\<lambda>r. (nat (cell r), ob r)) (mset rows))"
  using counts.cells_rep_each [OF assms(2), where panic = Panics and f = cell and g = ob and rs = rows and cs' = cs'] assms(1) by (simp add: count_rows_def)

lemma each_pair_nth:
  "each_pair f xs ys = Inr zs \<Longrightarrow> length xs = length ys \<Longrightarrow> k < length xs \<Longrightarrow> f (xs ! k) (ys ! k) = Inr (zs ! k)"
  by (simp add: each_pair_Inr)

lemma part_counts:
  assumes "part_of_rows L a grouped p R" "plan_ok a" "started a p" "k < length (ap_masks a)"
  shows "counts.cells_rep (pt_count p ! k) (row_obs a L (count_ob L a k) R)"
  using assms(1,3)
proof induction
  case fresh
  then show ?case using assms(2) by (simp add: started_def new_part_def plan_ok_def)
next
  case (idle p R n)
  then show ?case by (simp add: started_def)
next
  case (batch p R b sel days pass views gids groups p')
  let ?g = "grow_part (lb_ops L) a grouped (Suc groups) p"
  note before = part_started [OF batch.hyps(1) assms(2)]
  obtain cells where cells: "pt_count ?g ! k = grow_to 0 (if pt_count p = [] then [] else pt_count p ! k) cells"
    using grow_fields [OF assms(2), of p "lb_ops L" grouped groups] before assms(4) by blast
  have grown: "counts.cells_rep (pt_count ?g ! k) (row_obs a L (count_ob L a k) R)"
  proof (cases "pt_count p = []")
    case True
    then have "R = []" using before assms(2) by (auto simp: started_def plan_ok_def)
    then show ?thesis using counts.cells_rep_grow [OF counts.cells_rep_zero [of 0], of cells] by (simp add: cells True)
  next
    case False
    then have "started a p" using before unstarted_fields by blast
    from counts.cells_rep_grow [OF batch.IH [OF this], of cells] show ?thesis by (simp add: cells False)
  qed
  have lens: "length (None # pass) = length (pt_count ?g)" "k < length (None # pass)"
    using pass_length [OF batch.hyps(5)] grow_started [OF assms(2), of p "lb_ops L" grouped groups] before assms(2,4)
    by (auto simp: started_def plan_ok_def)
  have "count_rows (cell_of a days) (kept gids sel ((None # pass) ! k)) (pt_count ?g ! k) = Inr (pt_count p' ! k)"
    using each_pair_nth [OF add_rows_parts(1) [OF batch.hyps(7)] lens] .
  from count_rows_rep [OF this grown, of "\<lambda>_. ()"]
  have "counts.cells_rep (pt_count p' ! k) (row_obs a L (count_ob L a k) R
      + image_mset (\<lambda>r. (nat (cell_of a days r), ())) (mset (filter (\<lambda>r. row_passes L b (snd r) (ap_masks a ! k)) (kept gids sel None))))"
    by (simp only: mask_kept [OF assms(2) batch.hyps(2,5,3) assms(4)])
  moreover have "row_obs a L (count_ob L a k) (batch_rows b gids sel)
      = image_mset (\<lambda>r. (nat (cell_of a days r), ())) (mset (filter (\<lambda>r. row_passes L b (snd r) (ap_masks a ! k)) (kept gids sel None)))"
    by (rule row_obs_batch [OF _ batch.hyps(4)]) (simp add: count_ob_def split_def)
  ultimately show ?case by (simp only: row_obs_append)
qed


section \<open>The rows of a run\<close>

definition seen_batch :: "'f lib \<Rightarrow> agg_plan \<Rightarrow> 'f batch \<Rightarrow> 'f batch" where
  "seen_batch L a b = (if ap_defs a = [] then b else case with_defined L b (ap_defs a) (b_cols b) of Inr b1 \<Rightarrow> b1 | Inl e \<Rightarrow> b)"

definition selected_rows :: "'f lib \<Rightarrow> agg_plan \<Rightarrow> 'f batch \<Rightarrow> ('f batch \<times> nat) list" where
  "selected_rows L a b = (let b1 = seen_batch L a b in map (Pair b1) (filter (\<lambda>i. row_passes L b1 i (ap_filters a)) [0..<b_n b1]))"

definition run_rows :: "'f lib \<Rightarrow> agg_plan \<Rightarrow> (nat \<times> 'f batch \<times> int) list \<Rightarrow> ('f batch \<times> nat) list" where
  "run_rows L a bs = concat (map (\<lambda>(w, b, held). selected_rows L a b) bs)"

lemma with_defined_ok:
  assumes "with_defined L b ds cols = Inr b1" "distinct (map fst cols)" "\<forall>(k, c) \<in> set cols. column_ok (b_n b) c"
  shows "batch_ok b1 \<and> b_n b1 = b_n b"
  using assms
proof (induction L b ds cols rule: with_defined.induct)
  case (2 L b d ds cols)
  obtain pass where pass: "case_rows L b (dn_cases d) = Inr pass"
    and r: "with_defined L b ds (AList.update (dn_name d) (text_column (b_n b) (label_at (dn_labels d) pass (dn_other d))) cols) = Inr b1"
    using "2.prems"(1) by (auto simp: and_then_Inr)
  have "\<forall>(k, c) \<in> set (AList.update (dn_name d) (text_column (b_n b) (label_at (dn_labels d) pass (dn_other d))) cols). column_ok (b_n b) c"
  proof -
    have "set (AList.update k v xs) \<subseteq> insert (k, v) (set xs)" for k :: string and v :: "'a column" and xs
      by (induction xs) auto
    then show ?thesis using "2.prems"(3) text_column_ok by (fastforce simp del: AList.update.simps)
  qed
  with "2.IH" [OF r] "2.prems"(2) show ?case by (simp add: distinct_update)
qed (auto simp: batch_ok_def)

lemma seen_batch_ok: "batch_ok b \<Longrightarrow> batch_ok (seen_batch L a b)"
proof (cases "ap_defs a = []")
  case False
  assume b: "batch_ok b"
  show ?thesis
  proof (cases "with_defined L b (ap_defs a) (b_cols b)")
    case (Inr b1)
    from with_defined_ok [OF this] b [unfolded batch_ok_def] have "batch_ok b1" by blast
    with False Inr show ?thesis by (simp add: seen_batch_def)
  qed (use False b in \<open>simp add: seen_batch_def\<close>)
qed (simp add: seen_batch_def)

text \<open>A row is in the group of its tuple.\<close>

definition row_in :: "'f lib \<Rightarrow> agg_plan \<Rightarrow> group_table option \<Rightarrow> 'f row \<Rightarrow> bool" where
  "row_in L a table r = (case r of (b, g, i) \<Rightarrow> batch_ok b \<and> i < b_n b \<and> row_passes L b i (ap_filters a) \<and> 0 \<le> g
     \<and> (case table of None \<Rightarrow> g = 0 | Some t \<Rightarrow> in_group t (row_tuple (lb_ops L) (lb_low L) b (ap_dims a) i) g))"

definition table_ok' :: "agg_plan \<Rightarrow> group_table option \<Rightarrow> bool" where
  "table_ok' a table \<longleftrightarrow> (case table of None \<Rightarrow> True | Some t \<Rightarrow> groups_ok (length (ap_dims a)) t)"

definition table_grows :: "group_table option \<Rightarrow> group_table option \<Rightarrow> bool" where
  "table_grows table table' = (case (table, table') of (None, None) \<Rightarrow> True | (Some t, Some t') \<Rightarrow> grows t t' | _ \<Rightarrow> False)"

definition table_dropped :: "group_table option \<Rightarrow> bool" where
  "table_dropped table = (case table of None \<Rightarrow> False | Some t \<Rightarrow> gt_dropped t)"

lemma table_grows_refl: "table_grows t t"
  by (simp add: table_grows_def grows_refl split: option.splits)

lemma table_grows_trans: "table_grows t t1 \<Longrightarrow> table_grows t1 t2 \<Longrightarrow> table_grows t t2"
  by (auto simp: table_grows_def dest: grows_trans split: option.splits)

lemma table_grows_dropped: "table_grows t t1 \<Longrightarrow> table_dropped t \<Longrightarrow> table_dropped t1"
  by (auto simp: table_grows_def table_dropped_def grows_def split: option.splits)

lemma row_in_grows: "table_grows t t1 \<Longrightarrow> row_in L a t r \<Longrightarrow> row_in L a t1 r"
  by (auto simp: table_grows_def row_in_def dest: in_group_grows split: option.splits)

lemma groups_of_rows:
  assumes "groups_of fo low dims b sel table mem = Inr (gids, gmax, table', mem')" "batch_ok b" "\<forall>i \<in> set sel. i < b_n b"
    and "table = None \<or> (\<exists>t. table = Some t \<and> groups_ok (length dims) t)"
  shows "table_grows table table' \<and> length gids = length sel \<and> (table' = None \<or> (\<exists>t. table' = Some t \<and> groups_ok (length dims) t))
    \<and> (\<forall>k < length sel. case table' of None \<Rightarrow> gids ! k = 0 | Some t \<Rightarrow> in_group t (row_tuple fo low b dims (sel ! k)) (gids ! k))
    \<and> (\<forall>g \<in> set gids. g \<le> gmax)"
proof -
  have fold: "m \<le> foldl max m gs \<and> (\<forall>g \<in> set gs. g \<le> foldl max m gs)" for m :: int and gs
    by (induction gs arbitrary: m) (auto, (meson max.boundedE order_trans)+)
  show ?thesis
  proof (cases table)
    case None
    then show ?thesis using assms(1) by (auto simp: groups_of_def table_grows_def)
  next
    case (Some t)
    then have t: "groups_ok (length dims) t" using assms(4) by simp
    obtain vs radix where vs: "views_of fo low b sel dims 1 = Inr (vs, radix)"
      using assms(1) Some by (auto simp: groups_of_def and_then_Inr)
    obtain slots fr where slots: "slot_rows (local_key vs) sel Map.empty [] = (slots, fr)" by fastforce
    obtain resolved t1 mem1 where r: "resolve_tuples (map (\<lambda>tuple. (tuple_code tuple, tuple)) (map (\<lambda>i. map (\<lambda>(v, m). val_at v i) vs) fr)) t mem = (resolved, t1, mem1)"
      by (rule prod_cases3)
    have "gmax = foldl max (- 1) gids"
      using assms(1) unfolding groups_of_def Some option.case vs and_then.simps prod.case slots Let_def r by auto
    then have "\<forall>g \<in> set gids. g \<le> gmax" using fold by blast
    with groups_of_ok [OF assms(2,3) assms(1) [unfolded Some] t] show ?thesis by (auto simp: table_grows_def Some)
  qed
qed

text \<open>A batch's rows, tracked or dropped.\<close>

lemma kept_rows:
  assumes "length gids = length sel"
  shows "map snd (kept gids sel None) = map snd (filter (\<lambda>p. 0 \<le> fst p) (zip gids sel))"
    and "(\<forall>g \<in> set gids. 0 \<le> g) \<Longrightarrow> map snd (kept gids sel None) = sel"
    and "mset (map snd (kept gids sel None)) \<subseteq># mset sel"
    and "p \<in> set (kept gids sel None) \<Longrightarrow> \<exists>k < length sel. p = (gids ! k, sel ! k) \<and> 0 \<le> gids ! k"
proof -
  show 1: "map snd (kept gids sel None) = map snd (filter (\<lambda>p. 0 \<le> fst p) (zip gids sel))" by (simp add: kept_def split_def)
  have "filter (\<lambda>p. 0 \<le> fst p) (zip gids sel) = zip gids sel" if "\<forall>g \<in> set gids. 0 \<le> g"
    using that by (intro filter_True) (auto dest: set_zip_leftD)
  then show "(\<forall>g \<in> set gids. 0 \<le> g) \<Longrightarrow> map snd (kept gids sel None) = sel" using assms by (simp add: 1)
  have "mset (map snd (filter (\<lambda>p. 0 \<le> fst p) (zip gids sel))) \<subseteq># mset (map snd (zip gids sel))"
    by (metis image_mset_subseteq_mono mset_filter mset_map multiset_filter_subset)
  then show "mset (map snd (kept gids sel None)) \<subseteq># mset sel" using assms by (simp add: 1)
  show "p \<in> set (kept gids sel None) \<Longrightarrow> \<exists>k < length sel. p = (gids ! k, sel ! k) \<and> 0 \<le> gids ! k"
    using assms by (fastforce simp: kept_def set_zip)
qed

text \<open>What a batch adds to its part.\<close>

lemma agg_add_rows:
  assumes add: "agg_add L a b p table mem = Inr (p', table', mem')" and plan: "plan_ok a" and b: "batch_ok b"
    and part: "part_of_rows L a (table \<noteq> None) p R" and table: "table = None \<or> (\<exists>t. table = Some t \<and> groups_ok (length (ap_dims a)) t)"
  shows "\<exists>N. part_of_rows L a (table' \<noteq> None) p' (R @ N) \<and> (table' = None \<or> (\<exists>t. table' = Some t \<and> groups_ok (length (ap_dims a)) t))
    \<and> table_grows table table' \<and> (\<forall>r \<in> set N. row_in L a table' r)
    \<and> mset (map (\<lambda>(b, g, i). (b, i)) N) \<subseteq># mset (selected_rows L a b)
    \<and> (\<not> table_dropped table' \<longrightarrow> map (\<lambda>(b, g, i). (b, i)) N = selected_rows L a b)"
proof -
  define b1 where "b1 = seen_batch L a b"
  have b1: "batch_ok b1" using seen_batch_ok [OF b] by (simp add: b1_def)
  obtain m1 where add1: "add_batch L a b1 (p\<lparr>pt_grew := 0\<rparr>) table mem = Inr (p', table', m1)"
    using add by (auto simp: agg_add_def and_then_Inr b1_def seen_batch_def check_memory_def Let_def split: if_splits)
  have part0: "part_of_rows L a (table \<noteq> None) (p\<lparr>pt_grew := 0\<rparr>) R" by (rule part_of_rows.idle [OF part])
  define sel where "sel = filter (\<lambda>i. row_passes L b1 i (ap_filters a)) [0..<b_n b1]"
  have rows: "selected_rows L a b = map (Pair b1) sel" by (simp add: selected_rows_def sel_def b1_def Let_def)
  have inside: "\<forall>i \<in> set sel. i < b_n b1" by (auto simp: sel_def)
  obtain sel1 where sel1: "select_rows (lb_ops L) (lb_low L) b1 (ap_filters a) = Inr sel1" and cases:
    "(sel1 = [] \<and> p' = p\<lparr>pt_grew := 0\<rparr> \<and> table' = table)
     \<or> (\<exists>gids gmax. groups_of (lb_ops L) (lb_low L) (ap_dims a) b1 sel1 table mem = Inr (gids, gmax, table', m1) \<and>
          (if gmax < 0 then p' = p\<lparr>pt_grew := 0\<rparr>
           else \<exists>days pass views. day_column L b1 = Inr days \<and> mask_rows L b1 (tl (ap_masks a)) = Inr pass \<and> views_column L a b1 = Inr views
             \<and> add_rows L a b1 days views (None # pass) (kept gids sel1) (grow_part (lb_ops L) a (table \<noteq> None) (Suc (nat gmax)) (p\<lparr>pt_grew := 0\<rparr>)) = Inr p'))"
    using add_batch_parts [OF add1] by blast
  have "sel1 = sel" using select_rows_ok [OF b1, of "ap_filters a" "lb_ops L" "lb_low L"] sel1 plan
    by (auto simp: plan_ok_def sel_def row_passes_def)
  note cases = cases [unfolded this]
  show ?thesis
  proof (cases "sel = []")
    case True
    then have "p' = p\<lparr>pt_grew := 0\<rparr> \<and> table' = table \<or> (\<exists>gids gmax. groups_of (lb_ops L) (lb_low L) (ap_dims a) b1 [] table mem = Inr (gids, gmax, table', m1) \<and> True)"
      using cases by auto
    moreover have "p' = p\<lparr>pt_grew := 0\<rparr> \<and> table' = table" using add1 sel1 \<open>sel1 = sel\<close> True by (simp add: add_batch_def)
    ultimately show ?thesis using part0 table table_grows_refl rows True by (intro exI [of _ "[]"]) simp
  next
    case False
    then obtain gids gmax where g: "groups_of (lb_ops L) (lb_low L) (ap_dims a) b1 sel table mem = Inr (gids, gmax, table', m1)" and next_part:
      "if gmax < 0 then p' = p\<lparr>pt_grew := 0\<rparr>
           else \<exists>days pass views. day_column L b1 = Inr days \<and> mask_rows L b1 (tl (ap_masks a)) = Inr pass \<and> views_column L a b1 = Inr views
             \<and> add_rows L a b1 days views (None # pass) (kept gids sel) (grow_part (lb_ops L) a (table \<noteq> None) (Suc (nat gmax)) (p\<lparr>pt_grew := 0\<rparr>)) = Inr p'"
      using cases by blast
    from groups_of_rows [OF g b1 inside table] have grown: "table_grows table table'" and len: "length gids = length sel"
      and table': "table' = None \<or> (\<exists>t. table' = Some t \<and> groups_ok (length (ap_dims a)) t)"
      and at_row: "\<And>k. k < length sel \<Longrightarrow> case table' of None \<Rightarrow> gids ! k = 0 | Some t \<Rightarrow> in_group t (row_tuple (lb_ops L) (lb_low L) b1 (ap_dims a) (sel ! k)) (gids ! k)"
      and least: "\<forall>g \<in> set gids. g \<le> gmax" by auto
    have same: "(table' \<noteq> None) = (table \<noteq> None)" using grown by (auto simp: table_grows_def split: option.splits)
    let ?N = "batch_rows b1 gids sel"
    have "part_of_rows L a (table \<noteq> None) p' (R @ ?N)"
    proof (cases "gmax < 0")
      case True
      then have "\<forall>g \<in> set gids. g < 0" using least by auto
      then have "kept gids sel None = []" by (force simp: kept_def filter_empty_conv dest: set_zip_leftD)
      then show ?thesis using part0 next_part True by (simp add: batch_rows_def)
    next
      case False
      then show ?thesis using next_part part_of_rows.batch [OF part0 b1 inside] by auto
    qed
    moreover have "row_in L a table' r" if r: "r \<in> set ?N" for r
    proof -
      obtain q where q: "q \<in> set (kept gids sel None)" "r = (b1, q)" using r by (auto simp: batch_rows_def)
      from kept_rows(4) [OF len q(1)] obtain k where k: "k < length sel" "r = (b1, gids ! k, sel ! k)" "0 \<le> gids ! k" using q(2) by auto
      have "sel ! k \<in> set sel" using k(1) by simp
      then have "sel ! k < b_n b1" "row_passes L b1 (sel ! k) (ap_filters a)" by (auto simp: sel_def)
      then show ?thesis using at_row [OF k(1)] k(3) b1 by (simp add: row_in_def k(2))
    qed
    moreover have N: "map (\<lambda>(b, g, i). (b, i)) ?N = map (Pair b1) (map snd (kept gids sel None))" by (simp add: batch_rows_def split_def)
    moreover have "mset (map (Pair b1) (map snd (kept gids sel None))) \<subseteq># mset (map (Pair b1) sel)"
      using kept_rows(3) [OF len] by (metis image_mset_subseteq_mono mset_map)
    moreover have "map (Pair b1) (map snd (kept gids sel None)) = map (Pair b1) sel" if "\<not> table_dropped table'"
    proof -
      have "\<forall>g \<in> set gids. 0 \<le> g"
      proof
        fix g assume "g \<in> set gids"
        then obtain k where "k < length sel" "g = gids ! k" using len by (auto simp: in_set_conv_nth)
        with at_row [of k] that show "0 \<le> g" by (auto simp: table_dropped_def in_group_def split: option.splits)
      qed
      from kept_rows(2) [OF len this] show ?thesis by simp
    qed
    ultimately show ?thesis using grown table' same by (intro exI [of _ ?N]) (simp only: rows N, blast)
  qed
qed


lemma mset_concat_add: "w < length Rs \<Longrightarrow> mset (concat (Rs[w := Rs ! w @ N])) = mset (concat Rs) + mset N"
proof (induction Rs arbitrary: w)
  case (Cons R Rs)
  then show ?case by (cases w) (simp_all add: ac_simps)
qed simp

definition table_fits :: "agg_plan \<Rightarrow> group_table option \<Rightarrow> bool" where
  "table_fits a table \<longleftrightarrow> table = None \<or> (\<exists>t. table = Some t \<and> groups_ok (length (ap_dims a)) t)"

lemma agg_adds_rows:
  assumes "agg_adds L a bs (parts, table) = Inr (parts', table')" "plan_ok a" "\<forall>(w, b, held) \<in> set bs. w < length parts \<and> batch_ok b"
    and "list_all2 (part_of_rows L a (table \<noteq> None)) parts Rs" "table_fits a table"
  shows "\<exists>Rs' N. list_all2 (part_of_rows L a (table' \<noteq> None)) parts' Rs' \<and> table_fits a table' \<and> table_grows table table'
    \<and> mset (concat Rs') = mset (concat Rs) + mset N \<and> (\<forall>r \<in> set N. row_in L a table' r)
    \<and> mset (map (\<lambda>(b, g, i). (b, i)) N) \<subseteq># mset (run_rows L a bs)
    \<and> (\<not> table_dropped table' \<longrightarrow> mset (map (\<lambda>(b, g, i). (b, i)) N) = mset (run_rows L a bs))"
  using assms
proof (induction bs arbitrary: parts table Rs)
  case Nil
  then show ?case by (intro exI [of _ Rs] exI [of _ "[]"]) (simp add: table_grows_refl run_rows_def)
next
  case (Cons e bs)
  obtain w b held where e: "e = (w, b, held)" by (rule prod_cases3)
  obtain p t1 mem where add: "agg_add L a b (parts ! w) table \<lparr>am_n = held, am_max = ap_max a\<rparr> = Inr (p, t1, mem)"
      and rest: "agg_adds L a bs (parts[w := p], t1) = Inr (parts', table')"
    using Cons.prems(1) by (auto simp: e and_then_Inr)
  have w: "w < length parts" "batch_ok b" using Cons.prems(3) by (auto simp: e)
  have lens: "length Rs = length parts" using Cons.prems(4) by (simp add: list_all2_lengthD)
  have part: "part_of_rows L a (table \<noteq> None) (parts ! w) (Rs ! w)" using Cons.prems(4) w(1) by (rule list_all2_nthD)
  from agg_add_rows [OF add Cons.prems(2) w(2) part Cons.prems(5) [unfolded table_fits_def]] obtain N1 where
    N1: "part_of_rows L a (t1 \<noteq> None) p (Rs ! w @ N1)" "table_fits a t1" "table_grows table t1" "\<forall>r \<in> set N1. row_in L a t1 r"
      "mset (map (\<lambda>(b, g, i). (b, i)) N1) \<subseteq># mset (selected_rows L a b)"
      "\<not> table_dropped t1 \<longrightarrow> map (\<lambda>(b, g, i). (b, i)) N1 = selected_rows L a b"
    unfolding table_fits_def by blast
  have same: "(t1 \<noteq> None) = (table \<noteq> None)" using N1(3) by (auto simp: table_grows_def split: option.splits)
  have parts1: "list_all2 (part_of_rows L a (t1 \<noteq> None)) (parts[w := p]) (Rs[w := Rs ! w @ N1])"
    using Cons.prems(4) N1(1) unfolding same by (rule list_all2_update_cong)
  have "\<forall>(v, c, held) \<in> set bs. v < length (parts[w := p]) \<and> batch_ok c" using Cons.prems(3) by auto
  from Cons.IH [OF rest Cons.prems(2) this parts1 N1(2)] obtain Rs' N where
    R: "list_all2 (part_of_rows L a (table' \<noteq> None)) parts' Rs'" "table_fits a table'" "table_grows t1 table'"
      "mset (concat Rs') = mset (concat (Rs[w := Rs ! w @ N1])) + mset N" "\<forall>r \<in> set N. row_in L a table' r"
      "mset (map (\<lambda>(b, g, i). (b, i)) N) \<subseteq># mset (run_rows L a bs)"
      "\<not> table_dropped table' \<longrightarrow> mset (map (\<lambda>(b, g, i). (b, i)) N) = mset (run_rows L a bs)" by blast
  have run: "run_rows L a (e # bs) = selected_rows L a b @ run_rows L a bs" by (simp add: run_rows_def e)
  have "mset (concat Rs') = mset (concat Rs) + mset (N1 @ N)"
    using R(4) mset_concat_add [of w Rs N1] w(1) lens by (simp add: ac_simps)
  moreover have "\<forall>r \<in> set (N1 @ N). row_in L a table' r" using N1(4) R(5) row_in_grows [OF R(3)] unfolding set_append by blast
  moreover have "mset (map (\<lambda>(b, g, i). (b, i)) (N1 @ N)) \<subseteq># mset (run_rows L a (e # bs))"
    unfolding run map_append mset_append by (rule subset_mset.add_mono [OF N1(5) R(6)])
  moreover have "mset (map (\<lambda>(b, g, i). (b, i)) (N1 @ N)) = mset (run_rows L a (e # bs))" if "\<not> table_dropped table'"
  proof -
    have "\<not> table_dropped t1" using that table_grows_dropped [OF R(3)] by blast
    then show ?thesis using N1(6) R(7) that by (simp add: run)
  qed
  ultimately show ?case using R(1,2) table_grows_trans [OF N1(3) R(3)] by blast
qed


section \<open>Cells are groups and days\<close>

definition groups_in_table :: "group_table option \<Rightarrow> nat" where
  "groups_in_table table = (case table of None \<Rightarrow> 1 | Some t \<Rightarrow> length (gt_vals t))"

text \<open>The cell of a row's day within its group; a row whose day the aggregation has.\<close>

definition row_day :: "agg_plan \<Rightarrow> 'f lib \<Rightarrow> 'f batch \<Rightarrow> nat \<Rightarrow> nat" where
  "row_day a L b i = (if ap_nd a = 1 then 0 else nat (cell_day a (days_of L b ! i)))"

definition day_inside :: "agg_plan \<Rightarrow> 'f lib \<Rightarrow> 'f batch \<Rightarrow> nat \<Rightarrow> bool" where
  "day_inside a L b i \<longleftrightarrow> ap_nd a = 1 \<or> 0 \<le> cell_day a (days_of L b ! i) \<and> cell_day a (days_of L b ! i) < int (ap_nd a)"

lemma row_day_less: "day_inside a L b i \<Longrightarrow> 0 < ap_nd a \<Longrightarrow> row_day a L b i < ap_nd a"
  by (auto simp: day_inside_def row_day_def)

lemma cell_index_of: "0 \<le> g \<Longrightarrow> day_inside a L b i \<Longrightarrow> cell_index a L (b, g, i) = nat g * ap_nd a + row_day a L b i"
  by (auto simp: cell_index_def cell_of_def row_day_def day_inside_def nat_add_distrib nat_mult_distrib)

lemma group_cell: "d < nd \<Longrightarrow> d' < nd \<Longrightarrow> g * nd + d = g' * nd + d' \<longleftrightarrow> g = g' \<and> d = (d' :: nat)"
proof
  assume d: "d < nd" "d' < nd" and e: "g * nd + d = g' * nd + d'"
  have "(g * nd + d) div nd = g" "(g' * nd + d') div nd = g'" using d by simp_all
  with e show "g = g' \<and> d = d'" by simp
qed simp

lemma row_group_less: "row_in L a table (b, g, i) \<Longrightarrow> nat g < groups_in_table table"
  by (auto simp: row_in_def groups_in_table_def in_group_def split: option.splits)

lemma cell_less: "g < n \<Longrightarrow> d < nd \<Longrightarrow> g * nd + d < n * (nd :: nat)"
proof -
  assume "g < n" "d < nd"
  then have "g * nd + d < (g + 1) * nd" by simp
  also have "\<dots> \<le> n * nd" using \<open>g < n\<close> by (intro mult_le_mono1) simp
  finally show ?thesis .
qed

text \<open>Rows whose observations are in range.\<close>

definition rows_inside :: "'f lib \<Rightarrow> agg_plan \<Rightarrow> group_table option \<Rightarrow> 'f row list \<Rightarrow> bool" where
  "rows_inside L a table N \<longleftrightarrow> (\<forall>(b, g, i) \<in> set N. row_in L a table (b, g, i) \<and> day_inside a L b i)"

lemma rows_inside_day: "rows_inside L a table N \<Longrightarrow> plan_ok a \<Longrightarrow> r \<in> set N \<Longrightarrow> row_day a L (fst r) (snd (snd r)) < ap_nd a"
  using row_day_less [of a L "fst r" "snd (snd r)"] by (auto simp: rows_inside_def plan_ok_def)

lemma row_obs_inside:
  assumes "rows_inside L a table N" "0 < ap_nd a" "q \<in># row_obs a L ob N"
  shows "fst q < groups_in_table table * ap_nd a"
proof -
  obtain b g i where r: "(b, g, i) \<in> set N" "fst q = cell_index a L (b, g, i)" using assms(3) by (force simp: row_obs_def)
  then have h: "row_in L a table (b, g, i)" "day_inside a L b i" "0 \<le> g" using assms(1) by (auto simp: rows_inside_def row_in_def)
  from cell_less [OF row_group_less [OF h(1)] row_day_less [OF h(2) assms(2)]] show ?thesis using h by (simp add: r(2) cell_index_of)
qed

lemma obs_at_cell:
  assumes "rows_inside L a table N" "d < ap_nd a"
  shows "obs_at (row_obs a L ob N) (g * ap_nd a + d)
    = mset (map (\<lambda>r. the (ob r)) (filter (\<lambda>(b, h, i). ob (b, h, i) \<noteq> None \<and> nat h = g \<and> row_day a L b i = d) N))"
proof -
  have "cell_index a L (b, h, i) = g * ap_nd a + d \<longleftrightarrow> nat h = g \<and> row_day a L b i = d" if "(b, h, i) \<in> set N" for b h i
  proof -
    have "0 \<le> h" "day_inside a L b i" using assms(1) that by (auto simp: rows_inside_def row_in_def)
    then show ?thesis using group_cell [OF row_day_less assms(2)] assms(2) by (simp add: cell_index_of)
  qed
  then have "filter (\<lambda>r. ob r \<noteq> None \<and> cell_index a L r = g * ap_nd a + d) N
      = filter (\<lambda>(b, h, i). ob (b, h, i) \<noteq> None \<and> nat h = g \<and> row_day a L b i = d) N"
    by (intro filter_cong) auto
  moreover have "obs_at (row_obs a L ob N) x = mset (map (\<lambda>r. the (ob r)) (filter (\<lambda>r. ob r \<noteq> None \<and> cell_index a L r = x) N))" for x
    by (induction N) (auto simp: row_obs_def)
  ultimately show ?thesis by (simp only:)
qed

text \<open>All days of a group.\<close>

lemma sum_days:
  assumes "\<forall>r \<in> set N. f r < (n :: nat)"
  shows "(\<Sum>d\<leftarrow>[0..<n]. length (filter (\<lambda>r. P r \<and> f r = d) N)) = length (filter P N)"
  using assms
proof (induction N)
  case (Cons r N)
  have one: "(\<Sum>d\<leftarrow>[0..<n]. length (filter (\<lambda>r. P r \<and> f r = d) (r # N)))
      = (\<Sum>d\<leftarrow>[0..<n]. length (filter (\<lambda>r. P r \<and> f r = d) N)) + (\<Sum>d\<leftarrow>[0..<n]. if P r \<and> f r = d then 1 else 0)"
    unfolding sum_list_addf [symmetric] by (intro arg_cong [where f = sum_list] map_cong) auto
  have "(\<Sum>d\<leftarrow>[0..<n]. if P r \<and> f r = d then 1 else 0) = (if P r then 1 else 0 :: nat)"
    using Cons.prems by (auto simp: interv_sum_list_conv_sum_set_nat)
  with one Cons show ?case by simp
qed simp


section \<open>The merged counts\<close>

lemma agg_merge_fields:
  assumes "agg_merge L a (parts, table) = Some m"
  defines "n \<equiv> groups_in_table table"
  shows "mg_table m = table" "mg_groups m = n"
    and "mg_count m = merge_arrays pt_count (map (\<lambda>_. (+)) (ap_masks a)) 0 (n * ap_nd a) parts"
    and "mg_bounces m = (if ap_bounces a then merge_arrays pt_bounces (map (\<lambda>_. (+)) (ap_masks a)) 0 (n * ap_nd a) parts else [])"
    and "mg_nums m = merge_arrays pt_nums (map (\<lambda>n. num_join L (nm_float n)) (ap_nums a)) (zero_num (lb_ops L)) (n * ap_nd a) parts"
    and "mg_latest m = merge_arrays pt_latest (map (\<lambda>l. latest_join L (latest_numeric l)) (ap_latests a)) zero_latest (n * ap_nd a) parts"
    and "mg_sets m = map (\<lambda>j. if di_set (ap_distinct a ! j)
            then merge_arrays pt_sets (map (\<lambda>_. dset_merge (lb_cap L)) (ap_distinct a)) empty_dset n parts ! j else []) [0..<length (ap_distinct a)]"
    and "merge_days parts (ap_ndays a) 0 (ap_distinct a) = Some (mg_days m)"
    and "mg_runs m = map (\<lambda>(d, ds). if di_day d then runs_of ds else []) (zip (ap_distinct a) (mg_days m))"
    and "mg_part_of m = None"
  using assms by (auto simp: agg_merge_def Let_def groups_in_table_def)

lemma row_obs_parts: "mset (concat Rs) = mset N \<Longrightarrow> sum_list (map (\<lambda>R. row_obs a L ob R) Rs) = row_obs a L ob N"
proof -
  have "sum_list (map (\<lambda>R. row_obs a L ob R) Rs) = row_obs a L ob (concat Rs)" by (induction Rs) (simp_all add: row_obs_append)
  moreover assume "mset (concat Rs) = mset N"
  then have "row_obs a L ob (concat Rs) = row_obs a L ob N" by (simp add: row_obs_def)
  ultimately show ?thesis by simp
qed

text \<open>A whole scan: its parts' rows, and what they are.\<close>

definition plan_run :: "'f lib \<Rightarrow> agg_plan \<Rightarrow> nat \<Rightarrow> (nat \<times> 'f batch \<times> int) list \<Rightarrow> agg_error + 'f part list \<times> group_table option" where
  "plan_run L a workers bs = agg_adds L a bs (replicate workers new_part, plan_table a)"

definition run_ok :: "'f lib \<Rightarrow> agg_plan \<Rightarrow> nat \<Rightarrow> (nat \<times> 'f batch \<times> int) list \<Rightarrow> bool" where
  "run_ok L a workers bs \<longleftrightarrow> plan_ok a \<and> (\<forall>(w, b, held) \<in> set bs. w < workers \<and> batch_ok b)
     \<and> (\<forall>(b, i) \<in> set (run_rows L a bs). day_inside a L b i)"

lemma plan_run_rows:
  assumes "run_ok L a workers bs" "plan_run L a workers bs = Inr (parts, table)"
  shows "\<exists>Rs N. list_all2 (part_of_rows L a (table \<noteq> None)) parts Rs \<and> mset (concat Rs) = mset N \<and> rows_inside L a table N \<and> table_fits a table
    \<and> mset (map (\<lambda>(b, g, i). (b, i)) N) \<subseteq># mset (run_rows L a bs)
    \<and> (\<not> table_dropped table \<longrightarrow> mset (map (\<lambda>(b, g, i). (b, i)) N) = mset (run_rows L a bs)) \<and> (table = None \<longleftrightarrow> ap_dims a = [])"
proof -
  have fresh: "list_all2 (part_of_rows L a (plan_table a \<noteq> None)) (replicate workers new_part) (replicate workers [])"
    by (simp add: list_all2_conv_all_nth part_of_rows.fresh)
  have fits: "table_fits a (plan_table a)" by (simp add: table_fits_def plan_table_def groups_ok_def new_table_def)
  have ok: "plan_ok a" "\<forall>(w, b, held) \<in> set bs. w < length (replicate workers new_part) \<and> batch_ok b" using assms(1) by (auto simp: run_ok_def)
  from agg_adds_rows [OF assms(2) [unfolded plan_run_def] ok fresh fits] obtain Rs N where
    R: "list_all2 (part_of_rows L a (table \<noteq> None)) parts Rs" "table_fits a table" "table_grows (plan_table a) table"
      "mset (concat Rs) = mset N" "\<forall>r \<in> set N. row_in L a table r"
      "mset (map (\<lambda>(b, g, i). (b, i)) N) \<subseteq># mset (run_rows L a bs)"
      "\<not> table_dropped table \<longrightarrow> mset (map (\<lambda>(b, g, i). (b, i)) N) = mset (run_rows L a bs)" by auto
  have "rows_inside L a table N"
  proof -
    have "day_inside a L b i" if "(b, g, i) \<in> set N" for b g i
    proof -
      have "(b, i) \<in># mset (map (\<lambda>(b, g, i). (b, i)) N)" using that by force
      from mset_subset_eqD [OF R(6) this] have "(b, i) \<in> set (run_rows L a bs)" by simp
      then show ?thesis using assms(1) by (auto simp: run_ok_def)
    qed
    then show ?thesis using R(5) by (auto simp: rows_inside_def)
  qed
  moreover have "table = None \<longleftrightarrow> ap_dims a = []" using R(3) by (auto simp: table_grows_def plan_table_def split: option.splits if_splits)
  ultimately show ?thesis using R by blast
qed

text \<open>The observations of the parts, by kind, are within the merged cells.\<close>

lemma parts_within:
  assumes "mset (concat Rs) = mset N" "rows_inside L a table N" "0 < ap_nd a"
  shows "\<forall>M \<in> set (map (row_obs a L ob) Rs). \<forall>q \<in># M. fst q < groups_in_table table * ap_nd a"
proof -
  have "rows_inside L a table R" if "R \<in> set Rs" for R
  proof -
    have "set R \<subseteq> set N" using that mset_eq_setD [OF assms(1)] by auto
    then show ?thesis using assms(2) by (auto simp: rows_inside_def)
  qed
  then have "\<forall>R \<in> set Rs. \<forall>q \<in># row_obs a L ob R. fst q < groups_in_table table * ap_nd a" using row_obs_inside [OF _ assms(3)] by blast
  then show ?thesis by simp
qed

lemma merged_counts:
  assumes m: "agg_merge L a (parts, table) = Some m" and parts: "list_all2 (part_of_rows L a grouped) parts Rs" "mset (concat Rs) = mset N"
    and inside: "rows_inside L a table N" and plan: "plan_ok a" and k: "k < length (ap_masks a)"
  shows "counts.cells_rep (mg_count m ! k) (row_obs a L (count_ob L a k) N) \<and> length (mg_count m ! k) = groups_in_table table * ap_nd a"
proof -
  have pos: "0 < ap_nd a" using plan by (simp add: plan_ok_def)
  have part: "counts.part_rep pt_count k p (row_obs a L (count_ob L a k) R)" if "part_of_rows L a grouped p R" for p R
    using part_started [OF that plan] part_counts [OF that plan _ k] unstarted_fields [of p] k
    by (auto simp: counts.part_rep_def started_def)
  have "list_all2 (counts.part_rep pt_count k) parts (map (row_obs a L (count_ob L a k)) Rs)"
    using parts(1) by (auto simp: list_all2_map2 elim!: list_all2_mono part)
  from counts.merge_arrays_rep [OF this, of "map (\<lambda>_. (+)) (ap_masks a)" "groups_in_table table * ap_nd a"]
    parts_within [OF parts(2) inside pos, of "count_ob L a k"] k
  have "counts.cells_rep (mg_count m ! k) (sum_list (map (row_obs a L (count_ob L a k)) Rs))"
    by (simp add: agg_merge_fields [OF m])
  moreover have "length (mg_count m ! k) = groups_in_table table * ap_nd a" using k by (simp add: agg_merge_fields [OF m] merge_arrays_length)
  ultimately show ?thesis by (simp add: row_obs_parts [OF parts(2)])
qed

text \<open>The rows a group's cells of a day, or of every day, stand for.\<close>

definition rows_of_cell :: "'f lib \<Rightarrow> agg_plan \<Rightarrow> 'f row list \<Rightarrow> nat \<Rightarrow> nat option \<Rightarrow> 'f row list" where
  "rows_of_cell L a N g day = filter (\<lambda>(b, h, i). nat h = g \<and> (case day of None \<Rightarrow> True | Some d \<Rightarrow> row_day a L b i = d)) N"

lemma mask_count_rows:
  assumes "agg_merge L a (parts, table) = Some m" "list_all2 (part_of_rows L a grouped) parts Rs" "mset (concat Rs) = mset N"
    and inside: "rows_inside L a table N" and plan: "plan_ok a" "k < length (ap_masks a)" and g: "g < groups_in_table table"
    and day: "\<forall>d. day = Some d \<longrightarrow> d < ap_nd a"
  shows "mask_count a m k g day = length (filter (\<lambda>(b, h, i). row_passes L b i (ap_masks a ! k)) (rows_of_cell L a N g day))"
proof -
  let ?P = "\<lambda>(b, h, i). row_passes L b i (ap_masks a ! k)"
  note merged = merged_counts [OF assms(1-3) inside plan]
  have groups: "mg_groups m = groups_in_table table" using agg_merge_fields [OF assms(1)] by simp
  have cell: "mg_count m ! k ! (g * ap_nd a + d) = length (filter (\<lambda>r. (?P r \<and> nat (fst (snd r)) = g) \<and> row_day a L (fst r) (snd (snd r)) = d) N)"
    if "d < ap_nd a" for d
  proof -
    have "g * ap_nd a + d < length (mg_count m ! k)" using merged cell_less [OF g that] by simp
    then have "mg_count m ! k ! (g * ap_nd a + d) = size (obs_at (row_obs a L (count_ob L a k) N) (g * ap_nd a + d))"
      using merged by (simp add: counts.cells_rep_def)
    then have "mg_count m ! k ! (g * ap_nd a + d)
        = length (filter (\<lambda>(b, h, i). count_ob L a k (b, h, i) \<noteq> None \<and> nat h = g \<and> row_day a L b i = d) N)"
      by (simp only: obs_at_cell [OF inside that] size_mset length_map)
    also have "filter (\<lambda>(b, h, i). count_ob L a k (b, h, i) \<noteq> None \<and> nat h = g \<and> row_day a L b i = d) N
        = filter (\<lambda>r. (?P r \<and> nat (fst (snd r)) = g) \<and> row_day a L (fst r) (snd (snd r)) = d) N"
      by (rule filter_cong) (auto simp: count_ob_def)
    finally show ?thesis .
  qed
  show ?thesis
  proof (cases day)
    case None
    have "mask_count a m k g day = sum_list (map (\<lambda>x. mg_count m ! k ! x) [g * ap_nd a..<(g + 1) * ap_nd a])"
      using g groups by (simp add: mask_count_def cells_of_def None)
    also have "[g * ap_nd a..<(g + 1) * ap_nd a] = map (\<lambda>d. g * ap_nd a + d) [0..<ap_nd a]"
      by (rule nth_equalityI) simp_all
    also have "sum_list (map (\<lambda>x. mg_count m ! k ! x) (map (\<lambda>d. g * ap_nd a + d) [0..<ap_nd a]))
        = (\<Sum>d\<leftarrow>[0..<ap_nd a]. length (filter (\<lambda>r. (?P r \<and> nat (fst (snd r)) = g) \<and> row_day a L (fst r) (snd (snd r)) = d) N))"
      unfolding map_map comp_def by (intro arg_cong [where f = sum_list] map_cong) (auto simp: cell)
    also have "\<dots> = length (filter (\<lambda>r. ?P r \<and> nat (fst (snd r)) = g) N)"
      by (intro sum_days ballI rows_inside_day [OF inside plan(1)])
    finally show ?thesis by (simp add: rows_of_cell_def None split_def conj_commute)
  next
    case (Some d)
    then show ?thesis using cell [of d] day g groups
      by (simp add: mask_count_def cells_of_def rows_of_cell_def split_def conj_ac)
  qed
qed


text \<open>A tracked row's group is the one with its tuple.\<close>

definition in_group_of :: "'f lib \<Rightarrow> agg_plan \<Rightarrow> group_table option \<Rightarrow> nat \<Rightarrow> 'f batch \<Rightarrow> nat \<Rightarrow> bool" where
  "in_group_of L a table g b i \<longleftrightarrow> (case table of None \<Rightarrow> True
     | Some t \<Rightarrow> row_tuple (lb_ops L) (lb_low L) b (ap_dims a) i = map val_text (gt_vals t ! g))"

definition in_cell :: "'f lib \<Rightarrow> agg_plan \<Rightarrow> group_table option \<Rightarrow> nat \<Rightarrow> nat option \<Rightarrow> 'f batch \<Rightarrow> nat \<Rightarrow> bool" where
  "in_cell L a table g day b i \<longleftrightarrow> in_group_of L a table g b i \<and> (case day of None \<Rightarrow> True | Some d \<Rightarrow> row_day a L b i = d)"

lemma row_group_iff:
  assumes r: "row_in L a table (b, h, i)" and fits: "table_fits a table" and g: "g < groups_in_table table"
  shows "nat h = g \<longleftrightarrow> in_group_of L a table g b i"
proof (cases table)
  case None
  then show ?thesis using r g by (auto simp: row_in_def in_group_of_def groups_in_table_def)
next
  case (Some t)
  then have t: "groups_ok (length (ap_dims a)) t" using fits by (auto simp: table_fits_def)
  let ?key = "row_tuple (lb_ops L) (lb_low L) b (ap_dims a) i"
  have h: "in_group t ?key h" "0 \<le> h" using r Some by (auto simp: row_in_def)
  have gt: "g < length (gt_vals t)" using g Some by (simp add: groups_in_table_def)
  then have g': "in_group t (map val_text (gt_vals t ! g)) (int g)" by (simp add: in_group_def)
  have "length (map val_text (gt_vals t ! g)) = length (ap_dims a)" using t gt by (auto simp: groups_ok_def)
  moreover have "length ?key = length (ap_dims a)" by (simp add: row_tuple_def)
  ultimately have "h = int g \<longleftrightarrow> ?key = map val_text (gt_vals t ! g)"
    using groups_told [OF t _ _ h(1) g' h(2)] by simp
  then show ?thesis using h(2) by (auto simp: in_group_of_def Some)
qed

text \<open>The rows of a cell, as the scan gives them.\<close>

lemma rows_of_cell_run:
  assumes inside: "rows_inside L a table N" and fits: "table_fits a table" and g: "g < groups_in_table table"
    and all: "mset (map (\<lambda>(b, g, i). (b, i)) N) = mset (run_rows L a bs)"
  shows "mset (map (\<lambda>(b, h, i). (b, i)) (rows_of_cell L a N g day)) = mset (filter (\<lambda>(b, i). in_cell L a table g day b i) (run_rows L a bs))"
proof -
  have "rows_of_cell L a N g day = filter ((\<lambda>(b, i). in_cell L a table g day b i) \<circ> (\<lambda>(b, h, i). (b, i))) N"
    unfolding rows_of_cell_def
  proof (rule filter_cong [OF refl])
    fix r assume r: "r \<in> set N"
    obtain b h i where bhi: "r = (b, h, i)" by (rule prod_cases3)
    have "row_in L a table (b, h, i)" using r inside by (auto simp: rows_inside_def bhi)
    from row_group_iff [OF this fits g] show "(case r of (b, h, i) \<Rightarrow> nat h = g \<and> (case day of None \<Rightarrow> True | Some d \<Rightarrow> row_day a L b i = d))
        = ((\<lambda>(b, i). in_cell L a table g day b i) \<circ> (\<lambda>(b, h, i). (b, i))) r"
      by (simp add: bhi in_cell_def)
  qed
  then have "map (\<lambda>(b, h, i). (b, i)) (rows_of_cell L a N g day) = filter (\<lambda>(b, i). in_cell L a table g day b i) (map (\<lambda>(b, h, i). (b, i)) N)"
    by (simp add: filter_map)
  then show ?thesis using all by (simp only: mset_filter)
qed

text \<open>
  C1: However a scan's batches are given to the workers and interleaved, and whatever memory is held
  meanwhile, the merged aggregation counts, for each group, day and mask, exactly the rows of the
  batches that pass the filters and the mask's, have the group's dimension values and are of the day,
  unless its table says that it dropped groups.
\<close>

theorem merged_counts_are_rows:
  assumes "run_ok L a workers bs" and "plan_run L a workers bs = Inr (parts, table)" and "agg_merge L a (parts, table) = Some m"
    and "\<not> table_dropped table" and "k < length (ap_masks a)" and "g < mg_groups m" and "\<forall>d. day = Some d \<longrightarrow> d < ap_nd a"
  shows "mask_count a m k g day
    = length (filter (\<lambda>(b, i). in_cell L a table g day b i \<and> row_passes L b i (ap_masks a ! k)) (run_rows L a bs))"
proof -
  from plan_run_rows [OF assms(1,2)] assms(4) obtain Rs N where
    R: "list_all2 (part_of_rows L a (table \<noteq> None)) parts Rs" "mset (concat Rs) = mset N" "rows_inside L a table N" "table_fits a table"
      "mset (map (\<lambda>(b, g, i). (b, i)) N) = mset (run_rows L a bs)" by blast
  have plan: "plan_ok a" using assms(1) by (simp add: run_ok_def)
  have g: "g < groups_in_table table" using assms(6) agg_merge_fields(2) [OF assms(3)] by simp
  let ?P = "\<lambda>(b, i). row_passes L b i (ap_masks a ! k)"
  have "mask_count a m k g day = length (filter (\<lambda>(b, h, i). row_passes L b i (ap_masks a ! k)) (rows_of_cell L a N g day))"
    by (rule mask_count_rows [OF assms(3) R(1-3) plan assms(5) g assms(7)])
  also have "\<dots> = length (filter ?P (map (\<lambda>(b, h, i). (b, i)) (rows_of_cell L a N g day)))"
    by (simp add: filter_map comp_def split_def)
  also have "\<dots> = size (filter_mset ?P (mset (map (\<lambda>(b, h, i). (b, i)) (rows_of_cell L a N g day))))"
    by (metis mset_filter size_mset)
  also have "\<dots> = length (filter ?P (filter (\<lambda>(b, i). in_cell L a table g day b i) (run_rows L a bs)))"
    unfolding rows_of_cell_run [OF R(3,4) g R(5)] by (metis mset_filter size_mset)
  finally show ?thesis by (simp add: split_def conj_commute)
qed

text \<open>Two workers, three batches, two groups, two days.\<close>

definition sample_lib :: "int lib" where
  "sample_lib = \<lparr>lb_ops = sample_ops, lb_low = ascii_low, lb_add = (+), lb_div = (\<lambda>x y. x div y), lb_mul = (*), lb_less = (<), lb_eq = (=),
     lb_text = dec_int, lb_parse = parse_int, lb_compare = compare, lb_hash = (\<lambda>s. of_nat (length s)), lb_cap = (\<lambda>n. 2 * n), lb_quote = (\<lambda>s. s),
     lb_estimate = length, lb_real = (\<lambda>_. 0), lb_bucket = (\<lambda>n. n), lb_places = (\<lambda>_ x. Some x), lb_show = (\<lambda>_. [])\<rparr>"

definition sample_plan :: agg_plan where
  "sample_plan = \<lparr>ap_filters = [], ap_masks = [[], [CFilter ''path'' None [] [] None TypeString ''ne'' [''/a''] ''/a'' [] 0]], ap_dims = [''country''],
     ap_cap = 5, ap_from = 100, ap_ndays = 2, ap_nd = 2, ap_buckets = None, ap_starts = None, ap_defs = [],
     ap_nums = [\<lparr>nm_name = ''duration'', nm_mask = 1, nm_float = False, nm_form = FormNumber\<rparr>], ap_distinct = [], ap_bounces = False,
     ap_msrs = [], ap_latests = [], ap_max = 100000\<rparr>"

definition run_batch :: "int list \<Rightarrow> int list \<Rightarrow> int list \<Rightarrow> int list \<Rightarrow> bool list \<Rightarrow> int batch" where
  "run_batch days pages lands durations nulls = \<lparr>b_n = length days, b_cols = [(''day'', no_column\<lparr>c_ints := Some days\<rparr>),
     (''path'', no_column\<lparr>c_dict := [''/a'', ''/b''], c_idx := Some pages\<rparr>), (''country'', no_column\<lparr>c_dict := [''NO'', ''SE''], c_idx := Some lands\<rparr>),
     (''duration'', no_column\<lparr>c_ints := Some durations, c_null := Some nulls\<rparr>)]\<rparr>"

definition sample_run :: "(nat \<times> int batch \<times> int) list" where
  "sample_run = [(1, run_batch [100, 101, 101] [0, 1, 1] [0, 0, 1] [5, 7, 11] [False, False, False], 0),
     (0, run_batch [101, 100] [1, 1] [1, 0] [- 3, 9] [False, True], 700), (1, run_batch [101] [1] [0] [40] [False], 300)]"

lemma sample_run_ok: "run_ok sample_lib sample_plan 2 sample_run"
proof -
  have "plan_ok sample_plan" by (simp add: plan_ok_def sample_plan_def)
  moreover have "batch_ok (run_batch ds ps cs us ns)"
    if "length ps = length ds" "length cs = length ds" "length us = length ds" "length ns = length ds" "\<forall>i \<in> set (ps @ cs). i < 2" for ds ps cs us ns
    using that by (simp add: batch_ok_def run_batch_def column_ok_def no_column_def list_all_iff)
  then have "\<forall>(w, b, held) \<in> set sample_run. w < 2 \<and> batch_ok b" by (simp add: sample_run_def)
  moreover have "list_all (\<lambda>(b, i). day_inside sample_plan sample_lib b i) (run_rows sample_lib sample_plan sample_run)" by code_simp
  ultimately show ?thesis by (simp add: run_ok_def list_all_iff)
qed

definition run_result :: "('f merged \<Rightarrow> group_table \<Rightarrow> bool) \<Rightarrow> agg_error + 'f part list \<times> group_table option \<Rightarrow> 'f lib \<Rightarrow> agg_plan \<Rightarrow> bool" where
  "run_result P r L a = (case r of Inr (parts, Some t) \<Rightarrow> (case agg_merge L a (parts, Some t) of Some m \<Rightarrow> P m t | None \<Rightarrow> False) | _ \<Rightarrow> False)"

lemma run_resultD:
  "run_result P r L a \<Longrightarrow> \<exists>parts t m. r = Inr (parts, Some t) \<and> agg_merge L a (parts, Some t) = Some m \<and> P m t"
  by (auto simp: run_result_def split: sum.splits option.splits)

lemma sample_run_merged: "run_result (\<lambda>m t. \<not> gt_dropped t \<and> mg_groups m = 2 \<and> map (map val_text) (gt_vals t) = [[Some ''NO''], [Some ''SE'']])
    (plan_run sample_lib sample_plan 2 sample_run) sample_lib sample_plan"
  by code_simp

theorem merged_counts_are_rows_witness:
  "\<exists>parts table m. plan_run sample_lib sample_plan 2 sample_run = Inr (parts, table) \<and> agg_merge sample_lib sample_plan (parts, table) = Some m
     \<and> mask_count sample_plan m 1 0 (Some 1) = 2"
proof -
  from run_resultD [OF sample_run_merged] obtain parts t m where
    r: "plan_run sample_lib sample_plan 2 sample_run = Inr (parts, Some t)" "agg_merge sample_lib sample_plan (parts, Some t) = Some m"
      "\<not> gt_dropped t" "mg_groups m = 2" "map (map val_text) (gt_vals t) = [[Some ''NO''], [Some ''SE'']]" by (elim exE conjE)
  have nt: "length (gt_vals t) = 2" using r(5) by (metis length_map length_Cons list.size(3) numeral_2_eq_2)
  then have "map val_text (gt_vals t ! 0) = [Some ''NO'']" using r(5) nth_map [of 0 "gt_vals t" "map val_text"] by simp
  moreover have "length (filter (\<lambda>(b, i). (row_tuple (lb_ops sample_lib) (lb_low sample_lib) b (ap_dims sample_plan) i = [Some ''NO'']
      \<and> row_day sample_plan sample_lib b i = 1) \<and> row_passes sample_lib b i (ap_masks sample_plan ! 1)) (run_rows sample_lib sample_plan sample_run)) = 2"
    by code_simp
  moreover have "\<not> table_dropped (Some t)" "1 < length (ap_masks sample_plan)" "0 < mg_groups m" "\<forall>d. Some 1 = Some d \<longrightarrow> d < ap_nd sample_plan"
    using r(3,4) by (simp_all add: table_dropped_def sample_plan_def)
  ultimately have "mask_count sample_plan m 1 0 (Some 1) = 2"
    using merged_counts_are_rows [OF sample_run_ok r(1,2), of 1 0 "Some 1"] by (simp add: in_cell_def in_group_of_def)
  with r show ?thesis by blast
qed

end
