(* ===== verification/AggNumbers.thy ===== *)
theory AggNumbers
  imports AggCounts
begin

text \<open>
  What an aggregation's numbers are: the sum, minimum and maximum of an integer column over the rows
  of any groups, the sum modulo \<open>2 ^ 64\<close> as Go's wraps; and its latest texts.
\<close>

section \<open>Rows of several groups\<close>

definition rows_of_cells :: "'f lib \<Rightarrow> agg_plan \<Rightarrow> 'f row list \<Rightarrow> nat list \<Rightarrow> nat option \<Rightarrow> 'f row list" where
  "rows_of_cells L a N gs day = filter (\<lambda>(b, h, i). nat h \<in> set gs \<and> (case day of None \<Rightarrow> True | Some d \<Rightarrow> row_day a L b i = d)) N"

definition obs_list :: "('r \<Rightarrow> 'o option) \<Rightarrow> 'r list \<Rightarrow> 'o multiset" where
  "obs_list ob rs = mset (map (\<lambda>r. the (ob r)) (filter (\<lambda>r. ob r \<noteq> None) rs))"

lemma obs_list_simps [simp]:
  "obs_list ob [] = {#}"
  "obs_list ob (r # rs) = (case ob r of Some x \<Rightarrow> add_mset x (obs_list ob rs) | None \<Rightarrow> obs_list ob rs)"
  by (simp_all add: obs_list_def split: option.split)

lemma sum_days_mset:
  assumes "\<forall>r \<in> set N. f r < (n :: nat)"
  shows "(\<Sum>d\<leftarrow>[0..<n]. obs_list ob (filter (\<lambda>r. P r \<and> f r = d) N)) = obs_list ob (filter P N)"
  using assms
proof (induction N)
  case (Cons r N)
  let ?one = "obs_list ob (filter P [r])"
  have "(\<Sum>d\<leftarrow>[0..<n]. obs_list ob (filter (\<lambda>r. P r \<and> f r = d) (r # N)))
      = (\<Sum>d\<leftarrow>[0..<n]. obs_list ob (filter (\<lambda>r. P r \<and> f r = d) N)) + (\<Sum>d\<leftarrow>[0..<n]. if f r = d then ?one else {#})"
    unfolding sum_list_addf [symmetric] by (intro arg_cong [where f = sum_list] map_cong) (auto split: option.split)
  moreover have "(\<Sum>d\<leftarrow>[0..<n]. if f r = d then ?one else {#}) = ?one"
    using Cons.prems by (simp add: interv_sum_list_conv_sum_set_nat)
  ultimately show ?case using Cons by (auto split: option.split)
qed simp

lemma obs_at_list:
  assumes "rows_inside L a table N" "d < ap_nd a"
  shows "obs_at (row_obs a L ob N) (g * ap_nd a + d) = obs_list ob (filter (\<lambda>r. nat (fst (snd r)) = g \<and> row_day a L (fst r) (snd (snd r)) = d) N)"
  unfolding obs_at_cell [OF assms] obs_list_def filter_filter by (intro arg_cong [where f = mset] arg_cong [where f = "map (\<lambda>r. the (ob r))"] filter_cong) auto

lemma cells_obs:
  assumes inside: "rows_inside L a table N" and plan: "plan_ok a" and g: "g < mg_groups m" and day: "\<forall>d. day = Some d \<longrightarrow> d < ap_nd a"
  shows "sum_list (map (obs_at (row_obs a L ob N)) (cells_of a m g day)) = obs_list ob (rows_of_cells L a N [g] day)"
proof (cases day)
  case None
  have "[g * ap_nd a..<(g + 1) * ap_nd a] = map (\<lambda>d. g * ap_nd a + d) [0..<ap_nd a]" by (rule nth_equalityI) simp_all
  then have "sum_list (map (obs_at (row_obs a L ob N)) (cells_of a m g day))
      = (\<Sum>d\<leftarrow>[0..<ap_nd a]. obs_at (row_obs a L ob N) (g * ap_nd a + d))"
    using g by (simp add: cells_of_def None comp_def)
  also have "\<dots> = (\<Sum>d\<leftarrow>[0..<ap_nd a]. obs_list ob (filter (\<lambda>r. nat (fst (snd r)) = g \<and> row_day a L (fst r) (snd (snd r)) = d) N))"
    by (intro arg_cong [where f = sum_list] map_cong) (auto simp: obs_at_list [OF inside])
  also have "\<dots> = obs_list ob (filter (\<lambda>r. nat (fst (snd r)) = g) N)"
    by (intro sum_days_mset ballI rows_inside_day [OF inside plan])
  finally show ?thesis by (simp add: rows_of_cells_def None split_def)
next
  case (Some d)
  then show ?thesis using g day obs_at_list [OF inside, of d ob g] by (simp add: cells_of_def rows_of_cells_def split_def)
qed

lemma group_cells_obs:
  assumes inside: "rows_inside L a table N" and plan: "plan_ok a" and gs: "\<forall>g \<in> set gs. g < mg_groups m" "distinct gs"
    and day: "\<forall>d. day = Some d \<longrightarrow> d < ap_nd a"
  shows "sum_list (map (obs_at (row_obs a L ob N)) (group_cells a m gs day)) = obs_list ob (rows_of_cells L a N gs day)"
  using gs
proof (induction gs)
  case Nil
  then show ?case by (simp add: group_cells_def rows_of_cells_def split_def)
next
  case (Cons g gs)
  have "obs_list ob (rows_of_cells L a N (g # gs) day) = obs_list ob (rows_of_cells L a N [g] day) + obs_list ob (rows_of_cells L a N gs day)"
    using Cons.prems(2) by (induction N) (auto simp: rows_of_cells_def split: option.split)
  then show ?case using Cons cells_obs [OF inside plan _ day, of g m ob] by (simp add: group_cells_def)
qed

lemma group_cells_within:
  assumes "plan_ok a" "\<forall>g \<in> set gs. g < mg_groups m" "\<forall>d. day = Some d \<longrightarrow> d < ap_nd a"
  shows "\<forall>x \<in> set (group_cells a m gs day). x < mg_groups m * ap_nd a"
proof
  fix x assume "x \<in> set (group_cells a m gs day)"
  then obtain g where g: "g \<in> set gs" "x \<in> set (cells_of a m g day)" by (auto simp: group_cells_def)
  then have gm: "g < mg_groups m" using assms(2) by blast
  have "(g + 1) * ap_nd a \<le> mg_groups m * ap_nd a" using gm by (intro mult_le_mono1) simp
  then show "x < mg_groups m * ap_nd a" using g gm assms(3) cell_less [OF gm] by (auto simp: cells_of_def split: option.splits)
qed

text \<open>The rows of the cells, as the scan gives them.\<close>

definition in_cells :: "'f lib \<Rightarrow> agg_plan \<Rightarrow> group_table option \<Rightarrow> nat list \<Rightarrow> nat option \<Rightarrow> 'f batch \<Rightarrow> nat \<Rightarrow> bool" where
  "in_cells L a table gs day b i \<longleftrightarrow> (\<exists>g \<in> set gs. in_cell L a table g day b i)"

lemma obs_list_run:
  assumes inside: "rows_inside L a table N" and fits: "table_fits a table" and gs: "\<forall>g \<in> set gs. g < groups_in_table table"
    and all: "mset (map (\<lambda>(b, g, i). (b, i)) N) = mset (run_rows L a bs)" and ob: "\<And>b g i. ob (b, g, i) = ob1 (b, i)"
  shows "obs_list ob (rows_of_cells L a N gs day) = obs_list ob1 (filter (\<lambda>(b, i). in_cells L a table gs day b i) (run_rows L a bs))"
proof -
  have "rows_of_cells L a N gs day = filter ((\<lambda>(b, i). in_cells L a table gs day b i) \<circ> (\<lambda>(b, h, i). (b, i))) N"
    unfolding rows_of_cells_def
  proof (rule filter_cong [OF refl])
    fix r assume r: "r \<in> set N"
    obtain b h i where bhi: "r = (b, h, i)" by (rule prod_cases3)
    have "row_in L a table (b, h, i)" using r inside by (auto simp: rows_inside_def bhi)
    then have "nat h = g \<longleftrightarrow> in_group_of L a table g b i" if "g \<in> set gs" for g using row_group_iff [OF _ fits] gs that by blast
    then show "(case r of (b, h, i) \<Rightarrow> nat h \<in> set gs \<and> (case day of None \<Rightarrow> True | Some d \<Rightarrow> row_day a L b i = d))
        = ((\<lambda>(b, i). in_cells L a table gs day b i) \<circ> (\<lambda>(b, h, i). (b, i))) r"
      by (auto simp: bhi in_cell_def in_cells_def)
  qed
  then have cells: "map (\<lambda>(b, h, i). (b, i)) (rows_of_cells L a N gs day) = filter (\<lambda>(b, i). in_cells L a table gs day b i) (map (\<lambda>(b, h, i). (b, i)) N)"
    by (simp add: filter_map)
  have "obs_list ob rs = obs_list ob1 (map (\<lambda>(b, h, i). (b, i)) rs)" for rs
    by (induction rs) (auto simp: ob split: option.split)
  moreover have "mset xs = mset ys \<Longrightarrow> obs_list ob1 xs = obs_list ob1 ys" for xs ys by (simp add: obs_list_def)
  moreover have "mset (map (\<lambda>(b, h, i). (b, i)) (rows_of_cells L a N gs day)) = mset (filter (\<lambda>(b, i). in_cells L a table gs day b i) (run_rows L a bs))"
    unfolding cells using all by (simp only: mset_filter)
  ultimately show ?thesis by metis
qed

section \<open>Integer columns\<close>

definition int_rep :: "value_form \<Rightarrow> 'f num_cell \<Rightarrow> int multiset \<Rightarrow> bool" where
  "int_rep form c M \<longleftrightarrow> nc_n c = size M \<and> bd_sum (nc_int c) = signed_take_bit 63 (if form = FormNumber then \<Sum>\<^sub># M else 0)
     \<and> (M \<noteq> {#} \<longrightarrow> bd_lo (nc_int c) = Min_mset M \<and> bd_hi (nc_int c) = Max_mset M)"

lemma add64_take: "add64 (signed_take_bit 63 x) (signed_take_bit 63 y) = signed_take_bit 63 (x + y)"
  by (simp add: add64_def signed_take_bit_add)

lemma add64_right: "add64 (signed_take_bit 63 x) y = signed_take_bit 63 (x + y)"
  by (metis add64_def add64_take signed_take_bit_add signed_take_bit_signed_take_bit min.idem)

lemma int_rep_parts:
  assumes "int_rep form c M" "M \<noteq> {#}"
  obtains lo hi where "Min_mset M = lo" "Max_mset M = hi" "bd_lo (nc_int c) = lo" "bd_hi (nc_int c) = hi" "nc_n c = size M" "nc_n c \<noteq> 0"
    "bd_sum (nc_int c) = signed_take_bit 63 (if form = FormNumber then \<Sum>\<^sub># M else 0)"
  using assms by (simp add: int_rep_def)

lemma int_rep_add: "int_rep form c M \<Longrightarrow> int_rep form (num_add L form (Inl v) c) (add_mset v M)"
proof (cases "M = {#}")
  case True
  assume "int_rep form c M"
  with True show ?thesis by (simp add: int_rep_def num_add_def fold_bounds_def add64_def)
next
  case False
  assume c: "int_rep form c M"
  from int_rep_parts [OF c False] obtain lo hi where p: "Min_mset M = lo" "Max_mset M = hi" "bd_lo (nc_int c) = lo" "bd_hi (nc_int c) = hi"
    "nc_n c = size M" "nc_n c \<noteq> 0" "bd_sum (nc_int c) = signed_take_bit 63 (if form = FormNumber then \<Sum>\<^sub># M else 0)" .
  have "Min_mset (add_mset v M) = min v lo" "Max_mset (add_mset v M) = max v hi" using False p(1,2) by simp_all
  moreover have "nc_int (num_add L form (Inl v) c) = \<lparr>bd_sum = signed_take_bit 63 (if form = FormNumber then v + \<Sum>\<^sub># M else 0),
      bd_lo = min v lo, bd_hi = max v hi\<rparr>"
    using p(3-7) by (auto simp: num_add_def fold_bounds_def add64_right add.commute min_def max_def)
  moreover have "nc_n (num_add L form (Inl v) c) = size (add_mset v M)" by (simp add: num_add_def p(5))
  ultimately show ?thesis by (simp only: int_rep_def) simp
qed

lemma int_rep_join: "int_rep form c M \<Longrightarrow> int_rep form d N \<Longrightarrow> int_rep form (num_join L False c d) (M + N)"
proof (cases "M = {#} \<or> N = {#}")
  case True
  assume "int_rep form c M" "int_rep form d N"
  with True show ?thesis by (auto simp: int_rep_def num_join_def fold_bounds_def add64_def)
next
  case False
  assume c: "int_rep form c M" and d: "int_rep form d N"
  from False have ne: "M \<noteq> {#}" "N \<noteq> {#}" by auto
  from int_rep_parts [OF c ne(1)] obtain lo hi where p: "Min_mset M = lo" "Max_mset M = hi" "bd_lo (nc_int c) = lo" "bd_hi (nc_int c) = hi"
    "nc_n c = size M" "nc_n c \<noteq> 0" "bd_sum (nc_int c) = signed_take_bit 63 (if form = FormNumber then \<Sum>\<^sub># M else 0)" .
  from int_rep_parts [OF d ne(2)] obtain lo' hi' where q: "Min_mset N = lo'" "Max_mset N = hi'" "bd_lo (nc_int d) = lo'" "bd_hi (nc_int d) = hi'"
    "nc_n d = size N" "nc_n d \<noteq> 0" "bd_sum (nc_int d) = signed_take_bit 63 (if form = FormNumber then \<Sum>\<^sub># N else 0)" .
  have "Min_mset (M + N) = min lo lo'" "Max_mset (M + N) = max hi hi'" using ne p(1,2) q(1,2) by (simp_all add: Min_Un Max_Un)
  moreover have "nc_int (num_join L False c d) = \<lparr>bd_sum = signed_take_bit 63 (if form = FormNumber then \<Sum>\<^sub># M + \<Sum>\<^sub># N else 0),
      bd_lo = min lo lo', bd_hi = max hi hi'\<rparr>"
    using p(3-7) q(3-7) by (auto simp: num_join_def fold_bounds_def add64_take min_def max_def)
  moreover have "nc_n (num_join L False c d) = size (M + N)" using q(6) by (simp add: num_join_def p(5) q(5))
  ultimately show ?thesis by (simp only: int_rep_def) simp
qed

interpretation ints: cell_counter "int_rep form" "zero_num fo" "\<lambda>v. num_add L form (Inl v)" "num_join L False" for form fo and L :: "'f lib"
  by unfold_locales (simp_all add: int_rep_add int_rep_join, simp add: int_rep_def zero_num_def)

text \<open>The value a row gives an integer column.\<close>

definition row_int :: "'f lib \<Rightarrow> num_col \<Rightarrow> 'f batch \<Rightarrow> nat \<Rightarrow> int option" where
  "row_int L n b i = (case cols_of (lb_low L) b (nm_name n) of
     None \<Rightarrow> None
   | Some c \<Rightarrow> if is_null c i then None else (case num_value (lb_ops L) n c i of Some (Inl v) \<Rightarrow> Some v | _ \<Rightarrow> None))"

definition int_ob :: "'f lib \<Rightarrow> agg_plan \<Rightarrow> num_col \<Rightarrow> 'f batch \<times> nat \<Rightarrow> int option" where
  "int_ob L a n r = (if row_passes L (fst r) (snd r) (ap_masks a ! nm_mask n) then row_int L n (fst r) (snd r) else None)"

definition row_place :: "'f row \<Rightarrow> 'f batch \<times> nat" where
  "row_place r = (fst r, snd (snd r))"

lemma obs_list_ints:
  "obs_list (int_ob L a n) (filter (\<lambda>(b, i). P b i) rs)
    = mset (List.map_filter (\<lambda>(b, i). row_int L n b i) (filter (\<lambda>(b, i). P b i \<and> row_passes L b i (ap_masks a ! nm_mask n)) rs))"
  by (induction rs) (auto simp: map_filter_simps int_ob_def split: option.splits)

lemma int_value_at: "\<not> nm_float n \<Longrightarrow> num_value fo n c i = None \<or> (\<exists>v. num_value fo n c i = Some (Inl v))"
  by (auto simp: num_value_def split: option.splits)

lemma num_rows_each:
  assumes "each_row (num_row L n c cell) rs cs = Inr cs'" "\<not> nm_float n"
  shows "each_row (\<lambda>r. at_cell Panics (cell r) (num_add L (nm_form n) (Inl (projl (the (num_value (lb_ops L) n c (snd r))))))) rs cs = Inr cs'
    \<and> (\<forall>r \<in> set rs. \<exists>v. num_value (lb_ops L) n c (snd r) = Some (Inl v))"
  using assms(1)
proof (induction rs arbitrary: cs)
  case (Cons r rs)
  obtain cs1 where r: "num_row L n c cell r cs = Inr cs1" "each_row (num_row L n c cell) rs cs1 = Inr cs'"
    using Cons.prems by (auto simp: and_then_Inr)
  from int_value_at [OF assms(2), of "lb_ops L" c "snd r"] consider "num_value (lb_ops L) n c (snd r) = None"
    | v where "num_value (lb_ops L) n c (snd r) = Some (Inl v)" by (elim disjE exE)
  then show ?case
  proof cases
    case 1
    then show ?thesis using r(1) by (auto simp: num_row_def and_then_Inr)
  next
    case 2
    then show ?thesis using r(1) Cons.IH [OF r(2)] by (simp add: num_row_def)
  qed
qed simp

lemma part_ints:
  assumes "part_of_rows L a grouped p R" "plan_ok a" "started a p" "j < length (ap_nums a)" "\<not> nm_float (ap_nums a ! j)"
  shows "ints.cells_rep (nm_form (ap_nums a ! j)) (pt_nums p ! j) (row_obs a L (\<lambda>r. int_ob L a (ap_nums a ! j) (row_place r)) R)"
  using assms(1,3)
proof induction
  case fresh
  then show ?case using assms(2) by (simp add: started_def new_part_def plan_ok_def)
next
  case (idle p R n)
  then show ?case by (simp add: started_def)
next
  case (batch p R b sel days pass views gids groups p')
  let ?g = "grow_part (lb_ops L) a grouped (Suc groups) p" and ?n = "ap_nums a ! j"
  let ?form = "nm_form ?n" and ?ob = "\<lambda>r. int_ob L a ?n (row_place r)"
  note before = part_started [OF batch.hyps(1) assms(2)]
  obtain cells where cells: "pt_nums ?g ! j = grow_to (zero_num (lb_ops L)) (if pt_count p = [] then [] else pt_nums p ! j) cells"
    using grow_fields [OF assms(2), of p "lb_ops L" grouped groups] before assms(4) by blast
  have grown: "ints.cells_rep ?form (pt_nums ?g ! j) (row_obs a L ?ob R)"
  proof (cases "pt_count p = []")
    case True
    then have "R = []" using before assms(2) by (auto simp: started_def plan_ok_def)
    then show ?thesis using ints.cells_rep_grow [OF ints.cells_rep_zero [where n = 0], where n = cells] by (simp add: cells True)
  next
    case False
    then have "started a p" using before unstarted_fields by blast
    from ints.cells_rep_grow [OF batch.IH [OF this], where n = cells] show ?thesis by (simp add: cells False comp_def)
  qed
  have lens: "length (ap_nums a) = length (pt_nums ?g)"
    using grow_started [OF assms(2), of p "lb_ops L" grouped groups] before by (auto simp: started_def)
  have mk: "nm_mask ?n < length (ap_masks a)" using assms(2,4) by (simp add: plan_ok_def)
  note kept = mask_kept [OF assms(2) batch.hyps(2,5,3) mk, of gids]
  have add: "add_num L b (kept gids sel) (None # pass) (cell_of a days) ?n (pt_nums ?g ! j) = Inr (pt_nums p' ! j)"
    using each_pair_nth [OF add_rows_parts(3) [OF batch.hyps(7)] lens assms(4)] .
  show ?case
  proof (cases "cols_of (lb_low L) b (nm_name ?n)")
    case None
    then have "row_obs a L ?ob (batch_rows b gids sel) = {#}"
      by (simp add: row_obs_def batch_rows_def filter_empty_conv int_ob_def row_place_def row_int_def)
    then show ?thesis using add grown None by (simp add: add_num_def row_obs_append)
  next
    case (Some c)
    let ?Q = "\<lambda>r. row_passes L b (snd r) (ap_masks a ! nm_mask ?n) \<and> \<not> is_null c (snd r)"
    let ?v = "\<lambda>r :: int \<times> nat. projl (the (num_value (lb_ops L) ?n c (snd r)))"
    have "each_row (num_row L ?n c (cell_of a days)) (filter ?Q (kept gids sel None)) (pt_nums ?g ! j) = Inr (pt_nums p' ! j)"
      using add by (simp add: add_num_def Some kept conj_commute)
    from num_rows_each [OF this assms(5)] have
      each: "each_row (\<lambda>r. at_cell Panics (cell_of a days r) (num_add L ?form (Inl (?v r)))) (filter ?Q (kept gids sel None)) (pt_nums ?g ! j) = Inr (pt_nums p' ! j)"
      and ints: "\<forall>r \<in> set (filter ?Q (kept gids sel None)). \<exists>v. num_value (lb_ops L) ?n c (snd r) = Some (Inl v)" by auto
    have "row_obs a L ?ob (batch_rows b gids sel)
        = image_mset (\<lambda>r. (nat (cell_of a days r), ?v r)) (mset (filter ?Q (kept gids sel None)))"
    proof (rule row_obs_batch [OF _ batch.hyps(4)])
      fix r assume r: "r \<in> set (kept gids sel None)"
      show "?ob (b, r) = (if ?Q r then Some (?v r) else None)"
      proof (cases "?Q r")
        case True
        with r have "r \<in> set (filter ?Q (kept gids sel None))" by simp
        from bspec [OF ints this] show ?thesis using True by (auto simp: int_ob_def row_place_def row_int_def Some)
      qed (simp add: int_ob_def row_place_def row_int_def Some)
    qed
    with ints.cells_rep_each [OF grown each] show ?thesis by (simp only: row_obs_append)
  qed
qed

lemma merged_ints:
  assumes m: "agg_merge L a (parts, table) = Some m" and parts: "list_all2 (part_of_rows L a grouped) parts Rs" "mset (concat Rs) = mset N"
    and inside: "rows_inside L a table N" and plan: "plan_ok a" and j: "j < length (ap_nums a)" "\<not> nm_float (ap_nums a ! j)"
  shows "ints.cells_rep (nm_form (ap_nums a ! j)) (mg_nums m ! j) (row_obs a L (\<lambda>r. int_ob L a (ap_nums a ! j) (row_place r)) N)
    \<and> length (mg_nums m ! j) = groups_in_table table * ap_nd a"
proof -
  let ?form = "nm_form (ap_nums a ! j)" and ?ob = "\<lambda>r. int_ob L a (ap_nums a ! j) (row_place r)"
  have pos: "0 < ap_nd a" using plan by (simp add: plan_ok_def)
  have part: "ints.part_rep ?form pt_nums j p (row_obs a L ?ob R)" if "part_of_rows L a grouped p R" for p R
    using part_started [OF that plan] part_ints [OF that plan _ j] unstarted_fields [of p] j(1)
    by (auto simp: ints.part_rep_def started_def)
  have "list_all2 (ints.part_rep ?form pt_nums j) parts (map (row_obs a L ?ob) Rs)"
    using parts(1) by (auto simp: list_all2_map2 elim!: list_all2_mono part)
  from ints.merge_arrays_rep [OF this, of "map (\<lambda>n. num_join L (nm_float n)) (ap_nums a)" L "groups_in_table table * ap_nd a" "lb_ops L"]
    parts_within [OF parts(2) inside pos, of ?ob] j
  have "ints.cells_rep ?form (mg_nums m ! j) (sum_list (map (row_obs a L ?ob) Rs))"
    by (simp add: agg_merge_fields [OF m])
  moreover have "length (mg_nums m ! j) = groups_in_table table * ap_nd a" using j by (simp add: agg_merge_fields [OF m] merge_arrays_length)
  ultimately show ?thesis by (simp add: row_obs_parts [OF parts(2)])
qed

text \<open>
  C3: A sum, minimum or maximum of an integer column over any groups and day of a merged
  aggregation is that of the column's values, not NULL, in the batches' rows of those cells that pass
  the filters and the metric's, whatever workers took them in whatever order: the sum as 64 bits wrap,
  the bounds exact, NULL when no row has a value.
\<close>

theorem merged_numbers_are_rows:
  assumes "run_ok L a workers bs" and "plan_run L a workers bs = Inr (parts, table)" and "agg_merge L a (parts, table) = Some m"
    and "\<not> table_dropped table" and "j < length (ap_nums a)" "\<not> nm_float (ap_nums a ! j)" and "op \<in> {''sum'', ''min'', ''max''}"
    and "\<forall>g \<in> set gs. g < mg_groups m" "distinct gs" and "\<forall>d. day = Some d \<longrightarrow> d < ap_nd a"
    and "vs = List.map_filter (\<lambda>(b, i). row_int L (ap_nums a ! j) b i)
      (filter (\<lambda>(b, i). in_cells L a table gs day b i \<and> row_passes L b i (ap_masks a ! nm_mask (ap_nums a ! j))) (run_rows L a bs))"
  shows "eval_num L a m op j gs day =
     (if vs = [] then null_value L
      else if op = ''sum'' then int_value L (signed_take_bit 63 (if nm_form (ap_nums a ! j) = FormNumber then sum_list vs else 0))
      else (int_value L (if op = ''min'' then Min (set vs) else Max (set vs)))\<lparr>vl_form := nm_form (ap_nums a ! j)\<rparr>)"
proof -
  from plan_run_rows [OF assms(1,2)] assms(4) obtain Rs N where
    R: "list_all2 (part_of_rows L a (table \<noteq> None)) parts Rs" "mset (concat Rs) = mset N" "rows_inside L a table N" "table_fits a table"
      "mset (map (\<lambda>(b, g, i). (b, i)) N) = mset (run_rows L a bs)" by blast
  have plan: "plan_ok a" using assms(1) by (simp add: run_ok_def)
  let ?n = "ap_nums a ! j"
  have groups: "mg_groups m = groups_in_table table" using agg_merge_fields(2) [OF assms(3)] .
  have "\<forall>x \<in> set (group_cells a m gs day). x < length (mg_nums m ! j)"
    using merged_ints [OF assms(3) R(1-3) plan assms(5,6)] group_cells_within [OF plan assms(8,10)] groups by simp
  from ints.rep_joins [OF _ this ints.rep_zero, of "nm_form ?n" _ L "lb_ops L"] merged_ints [OF assms(3) R(1-3) plan assms(5,6)]
  have "int_rep (nm_form ?n) (fold (\<lambda>x st. num_join L False st (mg_nums m ! j ! x)) (group_cells a m gs day) (zero_num (lb_ops L)))
      (sum_list (map (obs_at (row_obs a L (\<lambda>r. int_ob L a ?n (row_place r)) N)) (group_cells a m gs day)))" by simp
  also have "sum_list (map (obs_at (row_obs a L (\<lambda>r. int_ob L a ?n (row_place r)) N)) (group_cells a m gs day))
      = obs_list (int_ob L a ?n) (filter (\<lambda>(b, i). in_cells L a table gs day b i) (run_rows L a bs))"
    unfolding group_cells_obs [OF R(3) plan assms(8,9,10)]
    by (rule obs_list_run [OF R(3,4) _ R(5)]) (use assms(8) groups in \<open>simp_all add: row_place_def\<close>)
  also have "\<dots> = mset vs"
    unfolding assms(11) by (rule obs_list_ints)
  finally have rep: "int_rep (nm_form ?n) (fold (\<lambda>x st. num_join L False st (mg_nums m ! j ! x)) (group_cells a m gs day) (zero_num (lb_ops L))) (mset vs)" .
  have float: "nm_float ?n = False" using assms(6) by simp
  show ?thesis
  proof (cases "vs = []")
    case True
    with rep have "nc_n (fold (\<lambda>x st. num_join L False st (mg_nums m ! j ! x)) (group_cells a m gs day) (zero_num (lb_ops L))) = 0"
      by (simp add: int_rep_def)
    then show ?thesis by (simp add: eval_num_def float True Let_def)
  next
    case False
    then have "mset vs \<noteq> {#}" by simp
    from int_rep_parts [OF rep this] obtain lo hi where p: "Min_mset (mset vs) = lo" "Max_mset (mset vs) = hi"
      "bd_lo (nc_int (fold (\<lambda>x st. num_join L False st (mg_nums m ! j ! x)) (group_cells a m gs day) (zero_num (lb_ops L)))) = lo"
      "bd_hi (nc_int (fold (\<lambda>x st. num_join L False st (mg_nums m ! j ! x)) (group_cells a m gs day) (zero_num (lb_ops L)))) = hi"
      "nc_n (fold (\<lambda>x st. num_join L False st (mg_nums m ! j ! x)) (group_cells a m gs day) (zero_num (lb_ops L))) \<noteq> 0"
      "bd_sum (nc_int (fold (\<lambda>x st. num_join L False st (mg_nums m ! j ! x)) (group_cells a m gs day) (zero_num (lb_ops L))))
        = signed_take_bit 63 (if nm_form ?n = FormNumber then \<Sum>\<^sub># (mset vs) else 0)" by metis
    show ?thesis using assms(7) False p by (auto simp: eval_num_def float Let_def sum_mset_sum_list)
  qed
qed

theorem merged_numbers_are_rows_witness:
  "\<exists>parts table m. plan_run sample_lib sample_plan 2 sample_run = Inr (parts, table) \<and> agg_merge sample_lib sample_plan (parts, table) = Some m
     \<and> eval_num sample_lib sample_plan m ''sum'' 0 [1, 0] None = int_value sample_lib 55"
proof -
  from run_resultD [OF sample_run_merged] obtain parts t m where
    r: "plan_run sample_lib sample_plan 2 sample_run = Inr (parts, Some t)" "agg_merge sample_lib sample_plan (parts, Some t) = Some m"
      "\<not> gt_dropped t" "mg_groups m = 2" "map (map val_text) (gt_vals t) = [[Some ''NO''], [Some ''SE'']]" by (elim exE conjE)
  have nt: "length (gt_vals t) = 2" using r(5) by (metis length_map length_Cons list.size(3) numeral_2_eq_2)
  then have t: "map val_text (gt_vals t ! 0) = [Some ''NO'']" "map val_text (gt_vals t ! 1) = [Some ''SE'']"
    using r(5) nth_map [of 0 "gt_vals t" "map val_text"] nth_map [of 1 "gt_vals t" "map val_text"] by simp_all
  have "List.map_filter (\<lambda>(b, i). row_int sample_lib (ap_nums sample_plan ! 0) b i) (filter (\<lambda>(b, i).
      (row_tuple (lb_ops sample_lib) (lb_low sample_lib) b (ap_dims sample_plan) i = [Some ''SE'']
       \<or> row_tuple (lb_ops sample_lib) (lb_low sample_lib) b (ap_dims sample_plan) i = [Some ''NO''])
      \<and> row_passes sample_lib b i (ap_masks sample_plan ! nm_mask (ap_nums sample_plan ! 0))) (run_rows sample_lib sample_plan sample_run))
    = [7, 11, - 3, 40]" by code_simp
  then have vs: "[7, 11, - 3, 40] = List.map_filter (\<lambda>(b, i). row_int sample_lib (ap_nums sample_plan ! 0) b i)
      (filter (\<lambda>(b, i). in_cells sample_lib sample_plan (Some t) [1, 0] None b i
        \<and> row_passes sample_lib b i (ap_masks sample_plan ! nm_mask (ap_nums sample_plan ! 0))) (run_rows sample_lib sample_plan sample_run))"
    by (simp add: in_cells_def in_cell_def in_group_of_def t [simplified])
  have h: "\<not> table_dropped (Some t)" "0 < length (ap_nums sample_plan)" "\<not> nm_float (ap_nums sample_plan ! 0)" "''sum'' \<in> {''sum'', ''min'', ''max''}"
      "\<forall>g \<in> set [1, 0]. g < mg_groups m" "distinct [1, 0 :: nat]" "\<forall>d. None = Some d \<longrightarrow> d < ap_nd sample_plan"
    using r(3,4) by (simp_all add: table_dropped_def sample_plan_def)
  have "nm_form (ap_nums sample_plan ! 0) = FormNumber" by (simp add: sample_plan_def)
  moreover have "signed_take_bit 63 (sum_list [7, 11, - 3, 40]) = (55 :: int)" by code_simp
  ultimately have "eval_num sample_lib sample_plan m ''sum'' 0 [1, 0] None = int_value sample_lib 55"
    unfolding merged_numbers_are_rows [OF sample_run_ok r(1,2) h vs] by (simp only: if_True simp_thms list.distinct if_False)
  with r show ?thesis by blast
qed

end
