(* ===== verification/Turns.thy ===== *)
theory Turns
  imports Prelude "HOL-Library.Sublist"
begin

text \<open>
  The turns of the query engine (\<^verbatim>\<open>weighted\<close> of \<^verbatim>\<open>internal/native/many.go\<close>,
  \<^verbatim>\<open>turnFor\<close> of \<^verbatim>\<open>engine.go\<close>): a counting semaphore whose units are taken
  several at once, its waiters served in order. Each section under its lock is a function of its
  state; the goroutines around it, which may give up at any moment, are a step relation over all
  interleavings of those sections. Shown: the units held are never more than there are, nobody
  overtakes an earlier waiter, no wake-up is lost, and all goroutines end.
\<close>

section \<open>The semaphore\<close>

text \<open>A waiter is its goroutine with its units; its channel is closed when the goroutine is in \<open>tu_ready\<close>.\<close>

record turns =
  tu_size :: nat
  tu_free :: int
  tu_waiters :: "(nat \<times> nat) list"
  tu_ready :: "nat set"

definition new_turns :: "nat \<Rightarrow> turns" where
  "new_turns n = \<lparr>tu_size = n, tu_free = int n, tu_waiters = [], tu_ready = {}\<rparr>"

fun serve_from :: "int \<Rightarrow> (nat \<times> nat) list \<Rightarrow> nat set \<Rightarrow> int \<times> (nat \<times> nat) list \<times> nat set" where
  "serve_from free [] ready = (free, [], ready)"
| "serve_from free ((g, n) # ws) ready =
     (if int n \<le> free then serve_from (free - int n) ws (insert g ready) else (free, (g, n) # ws, ready))"

definition serve :: "turns \<Rightarrow> turns" where
  "serve w = (case serve_from (tu_free w) (tu_waiters w) (tu_ready w) of (free, ws, ready) \<Rightarrow>
     w\<lparr>tu_free := free, tu_waiters := ws, tu_ready := ready\<rparr>)"

text \<open>Taking units: at once, or by waiting.\<close>

definition acquire :: "nat \<Rightarrow> nat \<Rightarrow> turns \<Rightarrow> bool \<times> turns" where
  "acquire g n w = (if int n \<le> tu_free w \<and> tu_waiters w = [] then (True, w\<lparr>tu_free := tu_free w - int n\<rparr>)
     else (False, w\<lparr>tu_waiters := tu_waiters w @ [(g, n)]\<rparr>))"

text \<open>A waiter whose context is done; served meanwhile, it gives its units back.\<close>

definition give_up :: "nat \<Rightarrow> nat \<Rightarrow> turns \<Rightarrow> turns" where
  "give_up g n w = (if g \<in> tu_ready w then serve (w\<lparr>tu_free := tu_free w + int n\<rparr>)
     else serve (w\<lparr>tu_waiters := filter (\<lambda>x. fst x \<noteq> g) (tu_waiters w)\<rparr>))"

definition release :: "nat \<Rightarrow> turns \<Rightarrow> turns" where
  "release n w = serve (w\<lparr>tu_free := tu_free w + int n\<rparr>)"

text \<open>What a turn of some weight takes.\<close>

definition turn_weight :: "nat \<Rightarrow> int \<Rightarrow> nat" where
  "turn_weight slots weight = nat (min (max 1 weight) (int slots))"

text \<open>
  The attempts of a turn: run again when a file is gone, after a pause, while \<open>left\<close> more are
  allowed; \<open>stop\<close> says that the context ended in a pause. Times are in milliseconds.
\<close>

datatype 'e attempt = Ended "'e option" | FileGone | Stopped

definition max_attempts :: nat where "max_attempts = 10"
definition retry_backoff :: nat where "retry_backoff = 50"
definition retry_backoff_max :: nat where "retry_backoff_max = 1000"

primrec attempts :: "(nat \<Rightarrow> 'e attempt) \<Rightarrow> (nat \<Rightarrow> bool) \<Rightarrow> nat \<Rightarrow> nat \<Rightarrow> nat list \<times> 'e attempt" where
  "attempts once stop 0 backoff = ([], once 0)"
| "attempts once stop (Suc left) backoff =
     (if once (Suc left) \<noteq> FileGone then ([], once (Suc left))
      else if stop (Suc left) then ([backoff], Stopped)
      else case attempts once stop left (min (backoff * 2) retry_backoff_max) of (pauses, res) \<Rightarrow> (backoff # pauses, res))"

definition turn_attempts :: "(nat \<Rightarrow> 'e attempt) \<Rightarrow> (nat \<Rightarrow> bool) \<Rightarrow> nat list \<times> 'e attempt" where
  "turn_attempts once stop = attempts once stop (max_attempts - 1) retry_backoff"

section \<open>The goroutines\<close>

text \<open>A goroutine that will ask for units, waits for them, holds them, or is done.\<close>

datatype goroutine = Outside nat | Waits nat | Holds nat | Gone

type_synonym turns_sys = "turns \<times> goroutine list"

inductive turns_step :: "turns_sys \<Rightarrow> turns_sys \<Rightarrow> bool" where
  refused: "g < length gs \<Longrightarrow> gs ! g = Outside n \<Longrightarrow> turns_step (w, gs) (w, gs[g := Gone])"
| arrives: "g < length gs \<Longrightarrow> gs ! g = Outside n \<Longrightarrow> acquire g n w = (got, w')
    \<Longrightarrow> turns_step (w, gs) (w', gs[g := (if got then Holds n else Waits n)])"
| wakes: "g < length gs \<Longrightarrow> gs ! g = Waits n \<Longrightarrow> g \<in> tu_ready w \<Longrightarrow> turns_step (w, gs) (w, gs[g := Holds n])"
| leaves: "g < length gs \<Longrightarrow> gs ! g = Waits n \<Longrightarrow> turns_step (w, gs) (give_up g n w, gs[g := Gone])"
| finishes: "g < length gs \<Longrightarrow> gs ! g = Holds n \<Longrightarrow> turns_step (w, gs) (release n w, gs[g := Gone])"

inductive turns_reach :: "nat \<Rightarrow> int list \<Rightarrow> turns_sys \<Rightarrow> bool" for slots weights where
  start: "turns_reach slots weights (new_turns slots, map (\<lambda>x. Outside (turn_weight slots x)) weights)"
| step: "turns_reach slots weights s \<Longrightarrow> turns_step s s' \<Longrightarrow> turns_reach slots weights s'"

section \<open>The invariant\<close>

definition held_units :: "goroutine \<Rightarrow> nat" where
  "held_units x = (case x of Holds n \<Rightarrow> n | _ \<Rightarrow> 0)"

definition taken_units :: "nat set \<Rightarrow> nat \<Rightarrow> goroutine \<Rightarrow> nat" where
  "taken_units ready g x = (case x of Holds n \<Rightarrow> n | Waits n \<Rightarrow> if g \<in> ready then n else 0 | _ \<Rightarrow> 0)"

definition taken :: "nat set \<Rightarrow> goroutine list \<Rightarrow> nat" where
  "taken ready gs = (\<Sum>g < length gs. taken_units ready g (gs ! g))"

definition queue_ok :: "turns \<Rightarrow> goroutine list \<Rightarrow> bool" where
  "queue_ok w gs \<longleftrightarrow> distinct (map fst (tu_waiters w))
     \<and> (\<forall>g n. (g, n) \<in> set (tu_waiters w) \<longrightarrow> g < length gs \<and> gs ! g = Waits n \<and> g \<notin> tu_ready w)
     \<and> (\<forall>g < length gs. \<forall>n. gs ! g = Waits n \<longrightarrow> g \<in> tu_ready w \<or> (g, n) \<in> set (tu_waiters w))
     \<and> (\<forall>g < length gs. \<forall>n. gs ! g = Outside n \<longrightarrow> g \<notin> tu_ready w)
     \<and> (\<forall>g < length gs. \<forall>n. gs ! g = Outside n \<or> gs ! g = Waits n \<longrightarrow> n \<le> tu_size w)"

definition turns_ok :: "turns \<Rightarrow> goroutine list \<Rightarrow> bool" where
  "turns_ok w gs \<longleftrightarrow> queue_ok w gs \<and> 0 \<le> tu_free w \<and> tu_free w + int (taken (tu_ready w) gs) = int (tu_size w)
     \<and> (tu_waiters w \<noteq> [] \<longrightarrow> tu_free w < int (snd (hd (tu_waiters w))))"

lemma queue_okD:
  assumes "queue_ok w gs"
  shows "distinct (map fst (tu_waiters w))" "\<forall>g n. (g, n) \<in> set (tu_waiters w) \<longrightarrow> g < length gs \<and> gs ! g = Waits n \<and> g \<notin> tu_ready w"
    "\<forall>g < length gs. \<forall>n. gs ! g = Waits n \<longrightarrow> g \<in> tu_ready w \<or> (g, n) \<in> set (tu_waiters w)"
    "\<forall>g < length gs. \<forall>n. gs ! g = Outside n \<longrightarrow> g \<notin> tu_ready w"
    "\<forall>g < length gs. \<forall>n. gs ! g = Outside n \<or> gs ! g = Waits n \<longrightarrow> n \<le> tu_size w"
  using assms unfolding queue_ok_def by blast+

lemma serve_from_prefix:
  "serve_from free ws ready = (free', ws', ready') \<Longrightarrow>
   \<exists>served. ws = served @ ws' \<and> ready' = ready \<union> fst ` set served \<and> free' = free - int (sum_list (map snd served))
     \<and> (0 \<le> free \<longrightarrow> 0 \<le> free') \<and> (ws' \<noteq> [] \<longrightarrow> free' < int (snd (hd ws')))"
proof (induction free ws ready rule: serve_from.induct)
  case (2 free g n ws ready)
  show ?case
  proof (cases "int n \<le> free")
    case True
    with 2 obtain served where s: "ws = served @ ws'" "ready' = insert g ready \<union> fst ` set served"
      "free' = free - int n - int (sum_list (map snd served))" "0 \<le> free'"
      "ws' \<noteq> [] \<longrightarrow> free' < int (snd (hd ws'))" by auto
    show ?thesis
      by (intro exI [of _ "(g, n) # served"] conjI impI) (use s in simp_all)
  qed (use 2 in auto)
qed simp

lemma taken_update:
  assumes "g < length gs"
  shows "taken ready (gs[g := x]) + taken_units ready g (gs ! g) = taken ready gs + taken_units ready g x"
proof -
  have "taken ready (gs[g := x]) = taken_units ready g x + (\<Sum>h \<in> {..<length gs} - {g}. taken_units ready h (gs ! h))"
    using assms sum.remove [of "{..<length gs}" g "\<lambda>h. taken_units ready h (gs[g := x] ! h)"] by (simp add: taken_def)
  moreover have "taken ready gs = taken_units ready g (gs ! g) + (\<Sum>h \<in> {..<length gs} - {g}. taken_units ready h (gs ! h))"
    using assms sum.remove [of "{..<length gs}" g "\<lambda>h. taken_units ready h (gs ! h)"] by (simp add: taken_def)
  ultimately show ?thesis by simp
qed

lemma taken_served:
  assumes "distinct (map fst served)" "\<forall>g n. (g, n) \<in> set served \<longrightarrow> g < length gs \<and> gs ! g = Waits n \<and> g \<notin> ready"
  shows "taken (ready \<union> fst ` set served) gs = taken ready gs + sum_list (map snd served)"
  using assms
proof (induction served)
  case (Cons x served)
  obtain g n where x: "x = (g, n)" by force
  let ?r = "ready \<union> fst ` set served"
  have g: "g < length gs" "gs ! g = Waits n" "g \<notin> ?r" using Cons.prems by (auto simp: x)
  have "taken (insert g ?r) gs = taken_units (insert g ?r) g (gs ! g) + (\<Sum>h \<in> {..<length gs} - {g}. taken_units (insert g ?r) h (gs ! h))"
    using g(1) sum.remove [of "{..<length gs}" g "\<lambda>h. taken_units (insert g ?r) h (gs ! h)"] by (simp add: taken_def)
  also have "(\<Sum>h \<in> {..<length gs} - {g}. taken_units (insert g ?r) h (gs ! h)) = (\<Sum>h \<in> {..<length gs} - {g}. taken_units ?r h (gs ! h))"
    by (intro sum.cong) (auto simp: taken_units_def split: goroutine.splits)
  also have "taken_units (insert g ?r) g (gs ! g) + \<dots> = n + taken ?r gs"
    using g sum.remove [of "{..<length gs}" g "\<lambda>h. taken_units ?r h (gs ! h)"] by (simp add: taken_def taken_units_def)
  also have "taken ?r gs = taken ready gs + sum_list (map snd served)"
  proof (rule Cons.IH)
    show "distinct (map fst served)" using Cons.prems(1) by simp
    show "\<forall>g n. (g, n) \<in> set served \<longrightarrow> g < length gs \<and> gs ! g = Waits n \<and> g \<notin> ready" using Cons.prems(2) by simp
  qed
  finally show ?case by (simp add: x)
qed simp

lemma serve_ok:
  assumes "queue_ok w gs" "0 \<le> tu_free w" "tu_free w + int (taken (tu_ready w) gs) = int (tu_size w)"
  shows "turns_ok (serve w) gs"
proof -
  obtain free' ws' ready' where s: "serve_from (tu_free w) (tu_waiters w) (tu_ready w) = (free', ws', ready')" by (metis prod_cases3)
  from serve_from_prefix [OF this] obtain served where p: "tu_waiters w = served @ ws'" "ready' = tu_ready w \<union> fst ` set served"
    "free' = tu_free w - int (sum_list (map snd served))" "0 \<le> free'" "ws' \<noteq> [] \<longrightarrow> free' < int (snd (hd ws'))" using assms(2) by auto
  have sw: "serve w = w\<lparr>tu_free := free', tu_waiters := ws', tu_ready := ready'\<rparr>" by (simp add: serve_def s)
  have q: "distinct (map fst served)" "\<forall>g n. (g, n) \<in> set served \<longrightarrow> g < length gs \<and> gs ! g = Waits n \<and> g \<notin> tu_ready w"
    using assms(1) p(1) by (auto simp: queue_ok_def)
  have "taken ready' gs = taken (tu_ready w) gs + sum_list (map snd served)" using taken_served [OF q] p(2) by simp
  moreover have "queue_ok (serve w) gs"
  proof -
    note w = queue_okD [OF assms(1), unfolded p(1)]
    have other: "g \<notin> fst ` set served" if "(g, n) \<in> set ws'" for g n using w(1) that by force
    have "\<forall>g n. (g, n) \<in> set ws' \<longrightarrow> g < length gs \<and> gs ! g = Waits n \<and> g \<notin> ready'" using w(2) other by (auto simp: p(2))
    moreover have "g \<in> ready' \<or> (g, n) \<in> set ws'" if "g < length gs" "gs ! g = Waits n" for g n
    proof -
      from w(3) that have "g \<in> tu_ready w \<or> (g, n) \<in> set served \<or> (g, n) \<in> set ws'" by auto
      then show ?thesis by (force simp: p(2))
    qed
    moreover have "g \<notin> ready'" if "g < length gs" "gs ! g = Outside n" for g n
    proof -
      have "(g, m) \<notin> set served" for m using w(2) that(2) by auto
      then have "g \<notin> fst ` set served" by auto
      then show ?thesis using w(4) that by (auto simp: p(2))
    qed
    ultimately show ?thesis using w(1,5) by (simp add: queue_ok_def sw)
  qed
  ultimately show ?thesis using assms(3) p(3-5) by (simp add: turns_ok_def sw)
qed

lemma turns_okD:
  assumes "turns_ok w gs"
  shows "queue_ok w gs" "0 \<le> tu_free w" "tu_free w + int (taken (tu_ready w) gs) = int (tu_size w)"
    "tu_waiters w \<noteq> [] \<longrightarrow> tu_free w < int (snd (hd (tu_waiters w)))"
  using assms by (simp_all add: turns_ok_def)

lemma serve_size [simp]: "tu_size (serve w) = tu_size w"
  by (simp add: serve_def split: prod.split)

lemma queue_leaves:
  assumes "queue_ok w gs" "g < length gs" "x = Gone \<or> (\<exists>n. x = Holds n)"
  shows "queue_ok (w\<lparr>tu_waiters := filter (\<lambda>y. fst y \<noteq> g) (tu_waiters w)\<rparr>) (gs[g := x])"
proof -
  have "distinct (map fst (filter (\<lambda>y. fst y \<noteq> g) (tu_waiters w)))"
    using assms(1) by (simp add: queue_ok_def distinct_map_filter)
  then show ?thesis using assms by (auto simp: queue_ok_def nth_list_update)
qed

lemma queue_without: "queue_ok w gs \<Longrightarrow> g < length gs \<Longrightarrow> g \<in> tu_ready w \<or> \<not> (\<exists>n. gs ! g = Waits n) \<Longrightarrow> filter (\<lambda>y. fst y \<noteq> g) (tu_waiters w) = tu_waiters w"
proof -
  assume q: "queue_ok w gs" "g < length gs" and g: "g \<in> tu_ready w \<or> \<not> (\<exists>n. gs ! g = Waits n)"
  have "(g, n) \<notin> set (tu_waiters w)" for n using queue_okD(2) [OF q(1)] g by blast
  then show ?thesis by (force simp: filter_id_conv)
qed

text \<open>Every step keeps it.\<close>

lemma turns_step_ok:
  assumes "turns_step s s'" "case s of (w, gs) \<Rightarrow> turns_ok w gs"
  shows "case s' of (w, gs) \<Rightarrow> turns_ok w gs"
  using assms
proof cases
  case (refused g gs n w)
  then have ok: "turns_ok w gs" using assms(2) by simp
  note p = turns_okD [OF ok]
  have "queue_ok w (gs[g := Gone])" using queue_leaves [OF p(1) refused(3), of Gone] refused(4) queue_without [OF p(1) refused(3)] by simp
  then show ?thesis using refused p taken_update [OF refused(3), of "tu_ready w" Gone] by (simp add: turns_ok_def taken_units_def)
next
  case (arrives g gs n w got w')
  then have ok: "turns_ok w gs" using assms(2) by simp
  note p = turns_okD [OF ok]
  have new: "g \<notin> tu_ready w" "g \<notin> fst ` set (tu_waiters w)" "n \<le> tu_size w" using p(1) arrives(3,4) by (force simp: queue_ok_def)+
  show ?thesis
  proof (cases got)
    case True
    then have w': "w' = w\<lparr>tu_free := tu_free w - int n\<rparr>" "int n \<le> tu_free w" "tu_waiters w = []" using arrives(5) by (auto simp: acquire_def split: if_splits)
    have "queue_ok w' (gs[g := Holds n])" using queue_leaves [OF p(1) arrives(3), of "Holds n"] w' by (simp add: queue_ok_def)
    then show ?thesis using arrives True p w' taken_update [OF arrives(3), of "tu_ready w" "Holds n"] by (simp add: turns_ok_def taken_units_def)
  next
    case False
    then have w': "w' = w\<lparr>tu_waiters := tu_waiters w @ [(g, n)]\<rparr>" "\<not> (int n \<le> tu_free w \<and> tu_waiters w = [])"
      using arrives(5) by (auto simp: acquire_def split: if_splits)
    have "queue_ok w' (gs[g := Waits n])" unfolding queue_ok_def w'(1)
    proof (intro conjI)
      note q = queue_okD [OF p(1)]
      have "h \<noteq> g" if "(h, m) \<in> set (tu_waiters w)" for h m using new(2) that by force
      then show "\<forall>h m. (h, m) \<in> set (tu_waiters (w\<lparr>tu_waiters := tu_waiters w @ [(g, n)]\<rparr>)) \<longrightarrow> h < length (gs[g := Waits n]) \<and> gs[g := Waits n] ! h = Waits m
          \<and> h \<notin> tu_ready (w\<lparr>tu_waiters := tu_waiters w @ [(g, n)]\<rparr>)"
        using q(2) new(1) arrives(3) by (auto simp: nth_list_update)
    qed (use queue_okD [OF p(1)] new arrives(3) in \<open>auto simp: nth_list_update\<close>)
    moreover have "tu_free w' < int (snd (hd (tu_waiters w')))" using p(4) w' by (cases "tu_waiters w") auto
    ultimately show ?thesis using arrives False p w'(1) new taken_update [OF arrives(3), of "tu_ready w" "Waits n"] by (simp add: turns_ok_def taken_units_def)
  qed
next
  case (wakes g gs n w)
  then have ok: "turns_ok w gs" using assms(2) by simp
  note p = turns_okD [OF ok]
  have "queue_ok w (gs[g := Holds n])" using queue_leaves [OF p(1) wakes(3), of "Holds n"] wakes(4,5) queue_without [OF p(1) wakes(3)] by simp
  then show ?thesis using wakes p taken_update [OF wakes(3), of "tu_ready w" "Holds n"] by (simp add: turns_ok_def taken_units_def)
next
  case (leaves g gs n w)
  then have ok: "turns_ok w gs" using assms(2) by simp
  note p = turns_okD [OF ok]
  have q: "queue_ok (w\<lparr>tu_waiters := filter (\<lambda>y. fst y \<noteq> g) (tu_waiters w)\<rparr>) (gs[g := Gone])"
    using queue_leaves [OF p(1) leaves(3), of Gone] leaves(4) by simp
  note taken = taken_update [OF leaves(3), of "tu_ready w" Gone]
  show ?thesis
  proof (cases "g \<in> tu_ready w")
    case True
    then have "queue_ok (w\<lparr>tu_free := tu_free w + int n\<rparr>) (gs[g := Gone])" using q queue_without [OF p(1) leaves(3)] by (simp add: queue_ok_def)
    from serve_ok [OF this] show ?thesis using leaves True p taken by (simp add: give_up_def taken_units_def)
  next
    case False
    from serve_ok [OF q] show ?thesis using leaves False p taken by (simp add: give_up_def taken_units_def)
  qed
next
  case (finishes g gs n w)
  then have ok: "turns_ok w gs" using assms(2) by simp
  note p = turns_okD [OF ok]
  have "queue_ok (w\<lparr>tu_free := tu_free w + int n\<rparr>) (gs[g := Gone])"
    using queue_leaves [OF p(1) finishes(3), of Gone] finishes(4) queue_without [OF p(1) finishes(3)] by (simp add: queue_ok_def)
  from serve_ok [OF this] show ?thesis using finishes p taken_update [OF finishes(3), of "tu_ready w" Gone] by (simp add: release_def taken_units_def)
qed

lemma turns_reach_ok: "turns_reach slots weights s \<Longrightarrow> (case s of (w, gs) \<Rightarrow> turns_ok w gs \<and> tu_size w = slots \<and> length gs = length weights)"
proof (induction rule: turns_reach.induct)
  case start
  have "turn_weight slots x \<le> slots" for x by (simp add: turn_weight_def)
  then have "queue_ok (new_turns slots) (map (\<lambda>x. Outside (turn_weight slots x)) weights)" by (simp add: queue_ok_def new_turns_def)
  then show ?case by (simp add: turns_ok_def new_turns_def taken_def taken_units_def)
next
  case (step s s')
  then have "case s' of (w, gs) \<Rightarrow> turns_ok w gs" using turns_step_ok [OF step(2)] by (auto split: prod.splits)
  moreover have "case s of (w, gs) \<Rightarrow> case s' of (w', gs') \<Rightarrow> tu_size w' = tu_size w \<and> length gs' = length gs"
    using step(2) by cases (auto simp: give_up_def release_def acquire_def split: if_splits)
  ultimately show ?case using step(3) by (auto split: prod.splits)
qed

section \<open>Properties\<close>

lemma taken_0: "taken ready gs = 0 \<longleftrightarrow> (\<forall>g < length gs. taken_units ready g (gs ! g) = 0)"
  by (auto simp: taken_def)

lemma held_taken: "sum_list (map held_units gs) \<le> taken ready gs"
proof -
  have "sum_list (map held_units gs) = (\<Sum>g < length gs. held_units (gs ! g))" by (simp add: sum_list_sum_nth atLeast0LessThan)
  also have "\<dots> \<le> taken ready gs" unfolding taken_def by (intro sum_mono) (simp add: held_units_def taken_units_def split: goroutine.split)
  finally show ?thesis .
qed

text \<open>
  C10: Whatever the interleaving, and whichever waiters give up, the units the running goroutines hold
  are never more than the semaphore has; its free units with those taken are all of them; and its
  first waiter is left waiting only while its units are not free, so no wake-up is lost.
\<close>

theorem turns_within_size:
  assumes "turns_reach slots weights (w, gs)"
  shows "sum_list (map held_units gs) \<le> slots \<and> tu_free w + int (taken (tu_ready w) gs) = int slots
    \<and> (tu_waiters w \<noteq> [] \<longrightarrow> tu_free w < int (snd (hd (tu_waiters w))))"
proof -
  have ok: "turns_ok w gs" "tu_size w = slots" using turns_reach_ok [OF assms] by auto
  note p = turns_okD [OF ok(1)]
  have "sum_list (map held_units gs) \<le> taken (tu_ready w) gs" by (rule held_taken)
  then show ?thesis using p(2,3,4) ok(2) by simp
qed

lemma sample_turns: "turns_reach 3 [2, 2, 1] (\<lparr>tu_size = 3, tu_free = 1, tu_waiters = [(1, 2)], tu_ready = {}\<rparr>, [Holds 2, Waits 2, Outside 1])"
proof -
  have "turns_reach 3 [2, 2, 1] (new_turns 3, [Outside 2, Outside 2, Outside 1])"
    using turns_reach.start [of 3 "[2, 2, 1]"] by (simp add: turn_weight_def)
  moreover have "turns_step (new_turns 3, [Outside 2, Outside 2, Outside 1]) (\<lparr>tu_size = 3, tu_free = 1, tu_waiters = [], tu_ready = {}\<rparr>, [Holds 2, Outside 2, Outside 1])"
    using turns_step.arrives [of 0 "[Outside 2, Outside 2, Outside 1]" 2 "new_turns 3"] by (simp add: acquire_def new_turns_def)
  moreover have "turns_step (\<lparr>tu_size = 3, tu_free = 1, tu_waiters = [], tu_ready = {}\<rparr>, [Holds 2, Outside 2, Outside 1])
      (\<lparr>tu_size = 3, tu_free = 1, tu_waiters = [(1, 2)], tu_ready = {}\<rparr>, [Holds 2, Waits 2, Outside 1])"
    using turns_step.arrives [of 1 "[Holds 2, Outside 2, Outside 1]" 2 "\<lparr>tu_size = 3, tu_free = 1, tu_waiters = [], tu_ready = {}\<rparr>" False] by (simp add: acquire_def)
  ultimately show ?thesis by (meson turns_reach.step)
qed

theorem turns_within_size_witness:
  "sum_list (map held_units [Holds 2, Waits 2, Outside 1]) \<le> 3 \<and> (1 :: int) < int (snd (hd [(1 :: nat, 2)]))"
  using turns_within_size [OF sample_turns] by simp

text \<open>Those who wait are served in order.\<close>

lemma subseq_past: "x \<notin> set ys \<Longrightarrow> subseq (x # xs) (ys @ zs) \<Longrightarrow> subseq (x # xs) zs"
  by (induction ys) auto

definition ahead :: "nat \<Rightarrow> nat \<Rightarrow> turns \<Rightarrow> goroutine list \<Rightarrow> bool" where
  "ahead g h w gs \<longleftrightarrow> subseq [g, h] (map fst (tu_waiters w)) \<or> (g \<notin> fst ` set (tu_waiters w) \<and> (\<forall>n. gs ! g \<noteq> Outside n)) \<or> gs ! h = Gone"

lemma serve_waiters: "\<exists>served. tu_waiters w = served @ tu_waiters (serve w)"
proof -
  obtain free' ws' ready' where s: "serve_from (tu_free w) (tu_waiters w) (tu_ready w) = (free', ws', ready')" by (metis prod_cases3)
  from serve_from_prefix [OF this] show ?thesis by (auto simp: serve_def s)
qed

lemma ahead_serve:
  assumes "ahead g h w gs" "distinct (map fst (tu_waiters w))" "\<forall>n. gs ! g \<noteq> Outside n"
  shows "ahead g h (serve w) gs"
proof -
  obtain served where s: "tu_waiters w = served @ tu_waiters (serve w)" using serve_waiters by blast
  show ?thesis
  proof (cases "g \<in> fst ` set (tu_waiters (serve w))")
    case True
    then have out: "g \<notin> set (map fst served)" "g \<in> fst ` set (tu_waiters w)" using assms(2) by (auto simp: s)
    then have "subseq [g, h] (map fst (tu_waiters w)) \<or> gs ! h = Gone" using assms(1) by (auto simp: ahead_def)
    then show ?thesis using subseq_past [OF out(1)] by (auto simp: ahead_def s)
  qed (use assms(3) in \<open>simp add: ahead_def\<close>)
qed

lemma ahead_filter:
  assumes "ahead g h w gs" "k < length gs" "h < length gs" "\<forall>n. gs ! g \<noteq> Outside n" "g \<noteq> h"
  shows "ahead g h (w\<lparr>tu_waiters := filter (\<lambda>x. fst x \<noteq> k) (tu_waiters w)\<rparr>) (gs[k := Gone])"
proof -
  have out: "\<forall>n. gs[k := Gone] ! g \<noteq> Outside n" using assms(2,4) by (cases "k = g") auto
  consider "k = h" | "k = g" | "k \<noteq> h" "k \<noteq> g" by blast
  then show ?thesis
  proof cases
    case 3
    have f: "map fst (filter (\<lambda>x. fst x \<noteq> k) ws) = filter (\<lambda>y. y \<noteq> k) (map fst ws)" for ws :: "(nat \<times> nat) list"
      by (induction ws) auto
    have "subseq [g, h] (map fst (tu_waiters w)) \<Longrightarrow> subseq [g, h] (map fst (filter (\<lambda>x. fst x \<noteq> k) (tu_waiters w)))"
      unfolding f using 3 subseq_filter [of "[g, h]" "map fst (tu_waiters w)" "\<lambda>y. y \<noteq> k"] by auto
    then show ?thesis using assms(1) out 3 by (auto simp: ahead_def)
  qed (use assms out in \<open>auto simp: ahead_def\<close>)
qed

lemma ahead_step:
  assumes "turns_step (w, gs) (w', gs')" "turns_ok w gs" "ahead g h w gs" "g < length gs" "h < length gs" "g \<noteq> h" "\<forall>n. gs ! g \<noteq> Outside n"
  shows "ahead g h w' gs' \<and> (\<forall>n. gs' ! g \<noteq> Outside n) \<and> length gs' = length gs"
  using assms(1)
proof cases
  case (refused k n)
  then show ?thesis using assms by (auto simp: ahead_def nth_list_update)
next
  case (arrives k n got)
  then have "k \<noteq> g" using assms(7) by auto
  then show ?thesis using assms arrives by (auto simp: ahead_def acquire_def nth_list_update split: if_splits intro: list_emb_prefix)
next
  case (wakes k n)
  then show ?thesis using assms by (auto simp: ahead_def nth_list_update)
next
  case (leaves k n)
  note q = turns_okD(1) [OF assms(2)]
  have "ahead g h (w\<lparr>tu_waiters := filter (\<lambda>x. fst x \<noteq> k) (tu_waiters w)\<rparr>) gs'"
    using ahead_filter [OF assms(3) leaves(3) assms(5,7,6)] leaves by simp
  moreover have "distinct (map fst (filter (\<lambda>x. fst x \<noteq> k) (tu_waiters w)))" using queue_okD(1) [OF q] by (simp add: distinct_map_filter)
  moreover have out: "\<forall>n. gs' ! g \<noteq> Outside n" using assms(7) leaves by (auto simp: nth_list_update)
  ultimately have f: "ahead g h (serve (w\<lparr>tu_waiters := filter (\<lambda>x. fst x \<noteq> k) (tu_waiters w)\<rparr>)) gs'"
    and r: "ahead g h (w\<lparr>tu_waiters := filter (\<lambda>x. fst x \<noteq> k) (tu_waiters w)\<rparr>) gs'" and out: "\<forall>n. gs' ! g \<noteq> Outside n"
    using ahead_serve [of g h "w\<lparr>tu_waiters := filter (\<lambda>x. fst x \<noteq> k) (tu_waiters w)\<rparr>" gs'] by simp_all
  show ?thesis
  proof (cases "k \<in> tu_ready w")
    case True
    have "ahead g h (w\<lparr>tu_free := tu_free w + int n\<rparr>) gs'" using r queue_without [OF q leaves(3)] True by (simp add: ahead_def)
    from ahead_serve [OF this _ out] queue_okD(1) [OF q] show ?thesis using leaves True out by (simp add: give_up_def)
  qed (use leaves f out in \<open>simp add: give_up_def\<close>)
next
  case (finishes k n)
  note q = turns_okD(1) [OF assms(2)]
  have out: "\<forall>n. gs' ! g \<noteq> Outside n" using assms(7) finishes by (auto simp: nth_list_update)
  have "ahead g h (w\<lparr>tu_free := tu_free w + int n\<rparr>) gs'" using assms(3) out finishes by (auto simp: ahead_def nth_list_update)
  from ahead_serve [OF this _ out] queue_okD(1) [OF q] show ?thesis using finishes out by (simp add: release_def)
qed

lemma ahead_run:
  assumes "turns_step\<^sup>*\<^sup>* (w, gs) (w', gs')" "turns_ok w gs" "ahead g h w gs" "g < length gs" "h < length gs" "g \<noteq> h" "\<forall>n. gs ! g \<noteq> Outside n"
  shows "ahead g h w' gs' \<and> turns_ok w' gs' \<and> length gs' = length gs \<and> (\<forall>n. gs' ! g \<noteq> Outside n)"
proof -
  have "(case s' of (w', gs') \<Rightarrow> ahead g h w' gs' \<and> turns_ok w' gs' \<and> length gs' = length gs \<and> (\<forall>n. gs' ! g \<noteq> Outside n))"
    if "turns_step\<^sup>*\<^sup>* (w, gs) s'" for s'
    using that
  proof (induction rule: rtranclp_induct)
    case (step y z)
    obtain w1 gs1 w2 gs2 where yz: "y = (w1, gs1)" "z = (w2, gs2)" by fastforce
    have y: "ahead g h w1 gs1" "turns_ok w1 gs1" "length gs1 = length gs" "\<forall>n. gs1 ! g \<noteq> Outside n" using step.IH by (auto simp: yz)
    have "turns_ok w2 gs2" using turns_step_ok [OF step.hyps(2)] y(2) by (simp add: yz)
    moreover have "ahead g h w2 gs2 \<and> (\<forall>n. gs2 ! g \<noteq> Outside n) \<and> length gs2 = length gs1"
      using ahead_step [OF step.hyps(2) [unfolded yz] y(2,1)] assms(4-6) y(3,4) by auto
    ultimately show ?case using y(3) by (simp add: yz)
  qed (use assms in simp)
  with assms(1) show ?thesis by auto
qed

text \<open>
  C19: Nobody overtakes: of two goroutines that wait, the later is served, in any continuation, only
  once the earlier has been served or has given up, however many units each asks for.
\<close>

theorem turns_served_in_order:
  assumes "turns_reach slots weights (w, gs)" and "tu_waiters w = xs @ (g, m) # ys @ (h, n) # zs"
    and "turns_step\<^sup>*\<^sup>* (w, gs) (w', gs')" and "h \<in> tu_ready w' \<or> (\<exists>k. gs' ! h = Holds k)" "gs' ! h \<noteq> Gone"
  shows "g \<in> tu_ready w' \<or> (\<exists>k. gs' ! g = Holds k) \<or> gs' ! g = Gone"
proof -
  have ok: "turns_ok w gs" using turns_reach_ok [OF assms(1)] by auto
  note q = queue_okD [OF turns_okD(1) [OF ok]]
  have gh: "g < length gs" "h < length gs" "g \<noteq> h" "gs ! g = Waits m" using q(1,2) by (auto simp: assms(2))
  have "subseq [h] (h # map fst zs)" by simp
  then have "subseq [h] (map fst ys @ h # map fst zs)" by (rule list_emb_append2)
  then have "subseq [g, h] (g # map fst ys @ h # map fst zs)" by simp
  then have "subseq [g, h] (map fst (tu_waiters w))" unfolding assms(2) by (simp add: list_emb_append2)
  then have "ahead g h w gs" by (simp add: ahead_def)
  from ahead_run [OF assms(3) ok this gh(1-3)] gh(4) have run: "ahead g h w' gs'" "turns_ok w' gs'" "length gs' = length gs" "\<forall>n. gs' ! g \<noteq> Outside n" by auto
  note q' = queue_okD [OF turns_okD(1) [OF run(2)]]
  have "h \<notin> fst ` set (tu_waiters w')" using q'(2) assms(4) by auto
  then have "\<not> subseq [g, h] (map fst (tu_waiters w'))" by (auto dest: list_emb_set)
  then have "g \<notin> fst ` set (tu_waiters w')" using run(1) assms(5) by (simp add: ahead_def)
  then have "gs' ! g = Waits k \<Longrightarrow> g \<in> tu_ready w'" for k using q'(3) gh(1) run(3) by force
  then show ?thesis using run(4) by (cases "gs' ! g") auto
qed

theorem turns_served_in_order_witness:
  "\<exists>w'. turns_step\<^sup>*\<^sup>* (\<lparr>tu_size = 3, tu_free = 1, tu_waiters = [(1, 2), (2, 1)], tu_ready = {}\<rparr>, [Holds 2, Waits 2, Waits 1]) (w', [Gone, Waits 2, Waits 1])
     \<and> 2 \<in> tu_ready w' \<and> (1 \<in> tu_ready w' \<or> (\<exists>k. [Gone, Waits 2, Waits 1] ! 1 = Holds k) \<or> [Gone, Waits 2, Waits 1] ! 1 = Gone)"
proof -
  let ?w = "\<lparr>tu_size = 3, tu_free = 1, tu_waiters = [(1, 2), (2, 1)], tu_ready = {}\<rparr>"
  have "turns_step (\<lparr>tu_size = 3, tu_free = 1, tu_waiters = [(1, 2)], tu_ready = {}\<rparr>, [Holds 2, Waits 2, Outside 1]) (?w, [Holds 2, Waits 2, Waits 1])"
    using turns_step.arrives [of 2 "[Holds 2, Waits 2, Outside 1]" 1 "\<lparr>tu_size = 3, tu_free = 1, tu_waiters = [(1, 2)], tu_ready = {}\<rparr>" False] by (simp add: acquire_def)
  with sample_turns have r: "turns_reach 3 [2, 2, 1] (?w, [Holds 2, Waits 2, Waits 1])" by (rule turns_reach.step)
  have "turns_step (?w, [Holds 2, Waits 2, Waits 1]) (release 2 ?w, [Gone, Waits 2, Waits 1])"
    using turns_step.finishes [of 0 "[Holds 2, Waits 2, Waits 1]" 2 ?w] by simp
  then have s: "turns_step\<^sup>*\<^sup>* (?w, [Holds 2, Waits 2, Waits 1]) (release 2 ?w, [Gone, Waits 2, Waits 1])" by blast
  have ready: "tu_ready (release 2 ?w) = {1, 2}" by (auto simp: release_def serve_def)
  have q: "tu_waiters ?w = [] @ (1, 2) # [] @ (2, 1) # []" by simp
  from turns_served_in_order [OF r q s] s ready show ?thesis by (intro exI [of _ "release 2 ?w"]) simp
qed

text \<open>How far each goroutine has to go.\<close>

definition steps_left :: "goroutine \<Rightarrow> nat" where
  "steps_left x = (case x of Outside n \<Rightarrow> 3 | Waits n \<Rightarrow> 2 | Holds n \<Rightarrow> 1 | Gone \<Rightarrow> 0)"

lemma turns_step_less:
  assumes "turns_step (w, gs) (w', gs')"
  shows "sum_list (map steps_left gs') < sum_list (map steps_left gs)"
proof -
  have less: "sum_list (map steps_left (gs[g := x])) < sum_list (map steps_left gs)"
    if "g < length gs" "steps_left x < steps_left (gs ! g)" for g x
    using that by (induction gs arbitrary: g) (auto simp: nth_Cons split: nat.splits)
  show ?thesis using assms by cases (auto simp: steps_left_def intro!: less)
qed

text \<open>
  C11: No deadlock: a run takes at most three steps for each goroutine, and while some goroutine is
  not done, one of them can go on without giving up: to ask, to run once served, or to finish. When all
  are done the semaphore is whole and no one waits.
\<close>

theorem turns_drain:
  assumes "turns_reach slots weights (w, gs)"
  shows "((\<forall>x \<in> set gs. x = Gone) \<longrightarrow> tu_free w = int slots \<and> tu_waiters w = [])
    \<and> ((\<exists>x \<in> set gs. x \<noteq> Gone) \<longrightarrow>
        (\<exists>g < length gs. \<exists>n. gs ! g = Outside n \<or> gs ! g = Holds n \<or> (gs ! g = Waits n \<and> g \<in> tu_ready w)))
    \<and> ((turns_step ^^ k) (w, gs) s' \<longrightarrow> k \<le> 3 * length weights)"
proof (intro conjI impI)
  have ok: "turns_ok w gs" "tu_size w = slots" "length gs = length weights" using turns_reach_ok [OF assms] by auto
  note p = turns_okD [OF ok(1)]
  note q = queue_okD [OF p(1)]
  show "tu_free w = int slots" if "\<forall>x \<in> set gs. x = Gone"
  proof -
    have "gs ! g = Gone" if "g < length gs" for g using nth_mem [OF that] \<open>\<forall>x \<in> set gs. x = Gone\<close> by blast
    then have "taken (tu_ready w) gs = 0" by (simp add: taken_0 taken_units_def)
    then show ?thesis using p(3) ok(2) by simp
  qed
  show "tu_waiters w = []" if gone: "\<forall>x \<in> set gs. x = Gone"
  proof (rule ccontr)
    assume "tu_waiters w \<noteq> []"
    then obtain g n where "(g, n) \<in> set (tu_waiters w)" by (cases "tu_waiters w") auto
    with q(2) have "g < length gs" "gs ! g = Waits n" by auto
    with gone show False by (metis goroutine.distinct(10) nth_mem)
  qed
  show "\<exists>g < length gs. \<exists>n. gs ! g = Outside n \<or> gs ! g = Holds n \<or> (gs ! g = Waits n \<and> g \<in> tu_ready w)" if alive: "\<exists>x \<in> set gs. x \<noteq> Gone"
  proof (rule ccontr)
    assume none: "\<not> ?thesis"
    obtain g where g: "g < length gs" "gs ! g \<noteq> Gone" using alive by (auto simp: in_set_conv_nth)
    then obtain n where "gs ! g = Waits n" "g \<notin> tu_ready w" using none by (cases "gs ! g") auto
    then have ne: "tu_waiters w \<noteq> []" using q(3) g(1) by fastforce
    have "taken (tu_ready w) gs = 0" unfolding taken_0 using none by (auto simp: taken_units_def split: goroutine.splits)
    then have "tu_free w = int slots" using p(3) ok(2) by simp
    moreover obtain h m where h: "hd (tu_waiters w) = (h, m)" "(h, m) \<in> set (tu_waiters w)" using ne by (metis hd_in_set surj_pair)
    then have "m \<le> slots" using q(2,5) ok(2) by blast
    ultimately show False using p(4) ne h(1) by simp
  qed
  have bound: "sum_list (map steps_left gs) \<le> 3 * length gs" by (induction gs) (auto simp: steps_left_def split: goroutine.split)
  have "sum_list (map steps_left (snd s')) + k \<le> sum_list (map steps_left gs)" if "(turns_step ^^ k) (w, gs) s'" for k s'
    using that
  proof (induction k arbitrary: s')
    case (Suc k)
    then obtain t where "(turns_step ^^ k) (w, gs) t" "turns_step t s'" by auto
    then show ?case using Suc.IH [of t] turns_step_less [of "fst t" "snd t" "fst s'" "snd s'"] by simp
  qed simp
  then show "(turns_step ^^ k) (w, gs) s' \<Longrightarrow> k \<le> 3 * length weights" using bound ok(3) by fastforce
qed

theorem turns_drain_witness:
  "\<exists>g < length [Holds 2, Waits 2, Outside 1]. \<exists>n. [Holds 2, Waits 2, Outside 1] ! g = Outside n \<or> [Holds 2, Waits 2, Outside 1] ! g = Holds n
     \<or> ([Holds 2, Waits 2, Outside 1] ! g = Waits n \<and> g \<in> {})"
  using turns_drain [OF sample_turns] by simp

end
