(* ===== verification/AnswerQueue.thy ===== *)
theory AnswerQueue
  imports Prelude "HOL-Library.Sublist"
begin

text \<open>
  The queue that hands a call's answers to its caller (\<^verbatim>\<open>answerQueue\<close> of
  \<^verbatim>\<open>internal/native/many.go\<close>): producers append under a lock and then signal a
  channel that holds one token; a goroutine takes what is pending and hands it on, and sleeps on the
  channel when there is nothing. The steps interleave at every lock and channel operation. Shown: every
  answer is handed on once, in the order put, no signal is lost, and \<open>wait\<close> returns, after the last.
\<close>

section \<open>The steps\<close>

text \<open>
  The goroutine: before its lock, with a batch taken, waiting for the token, or ended. The caller of
  \<open>wait\<close>: not yet there, with the queue closed but not signalled, waiting for the end, or returned.
\<close>

datatype 'a queue_loop = Looking | Handing "(nat \<times> 'a) list" | Sleeping | Stops
datatype queue_wait = Open | Closing | Waiting | Returned

record 'a answer_queue =
  qu_pending :: "(nat \<times> 'a) list"
  qu_wake :: bool
  qu_closed :: bool
  qu_loop :: "'a queue_loop"
  qu_wait :: queue_wait
  qu_owed :: nat
  qu_put :: "(nat \<times> 'a) list"
  qu_handed :: "(nat \<times> 'a) list"

text \<open>
  \<open>qu_owed\<close> counts the puts that have not signalled yet; \<open>qu_put\<close> and \<open>qu_handed\<close> are what was put and handed
  on so far.
\<close>

definition new_queue :: "'a answer_queue" where
  "new_queue = \<lparr>qu_pending = [], qu_wake = False, qu_closed = False, qu_loop = Looking, qu_wait = Open, qu_owed = 0, qu_put = [], qu_handed = []\<rparr>"

text \<open>The goroutine's section under its lock.\<close>

definition look :: "'a answer_queue \<Rightarrow> 'a answer_queue" where
  "look q = q\<lparr>qu_pending := [],
     qu_loop := (if qu_pending q \<noteq> [] then Handing (qu_pending q) else if qu_closed q then Stops else Sleeping)\<rparr>"

definition enqueue :: "nat \<times> 'a \<Rightarrow> 'a answer_queue \<Rightarrow> 'a answer_queue" where
  "enqueue x q = q\<lparr>qu_pending := qu_pending q @ [x], qu_put := qu_put q @ [x], qu_owed := qu_owed q + 1\<rparr>"

definition hand :: "nat \<times> 'a \<Rightarrow> (nat \<times> 'a) list \<Rightarrow> 'a answer_queue \<Rightarrow> 'a answer_queue" where
  "hand x xs q = q\<lparr>qu_handed := qu_handed q @ [x], qu_loop := (if xs = [] then Looking else Handing xs)\<rparr>"

inductive queue_step :: "'a answer_queue \<Rightarrow> 'a answer_queue \<Rightarrow> bool" where
  looks: "qu_loop q = Looking \<Longrightarrow> queue_step q (look q)"
| hands: "qu_loop q = Handing (x # xs) \<Longrightarrow> queue_step q (hand x xs q)"
| wakes: "qu_loop q = Sleeping \<Longrightarrow> qu_wake q \<Longrightarrow> queue_step q (q\<lparr>qu_wake := False, qu_loop := Looking\<rparr>)"
| signals: "0 < qu_owed q \<Longrightarrow> queue_step q (q\<lparr>qu_owed := qu_owed q - 1, qu_wake := True\<rparr>)"
| wait_signals: "qu_wait q = Closing \<Longrightarrow> queue_step q (q\<lparr>qu_wait := Waiting, qu_wake := True\<rparr>)"
| returns: "qu_wait q = Waiting \<Longrightarrow> qu_loop q = Stops \<Longrightarrow> queue_step q (q\<lparr>qu_wait := Returned\<rparr>)"

text \<open>What the callers bring: a put, and, once nothing more is put, \<open>wait\<close>.\<close>

inductive queue_call :: "'a answer_queue \<Rightarrow> 'a answer_queue \<Rightarrow> bool" where
  puts: "qu_wait q = Open \<Longrightarrow> queue_call q (enqueue x q)"
| waits: "qu_wait q = Open \<Longrightarrow> queue_call q (q\<lparr>qu_wait := Closing, qu_closed := True\<rparr>)"

inductive queue_reach :: "'a answer_queue \<Rightarrow> bool" where
  start: "queue_reach new_queue"
| step: "queue_reach q \<Longrightarrow> queue_step q q' \<Longrightarrow> queue_reach q'"
| call: "queue_reach q \<Longrightarrow> queue_call q q' \<Longrightarrow> queue_reach q'"

section \<open>The invariant\<close>

definition in_hand :: "'a queue_loop \<Rightarrow> (nat \<times> 'a) list" where
  "in_hand l = (case l of Handing xs \<Rightarrow> xs | _ \<Rightarrow> [])"

definition queue_ok' :: "'a answer_queue \<Rightarrow> bool" where
  "queue_ok' q \<longleftrightarrow> qu_handed q @ in_hand (qu_loop q) @ qu_pending q = qu_put q
     \<and> qu_loop q \<noteq> Handing []
     \<and> (qu_closed q \<longleftrightarrow> qu_wait q \<noteq> Open)
     \<and> (qu_loop q = Stops \<longrightarrow> qu_closed q \<and> qu_pending q = [])
     \<and> (qu_loop q = Sleeping \<and> (qu_pending q \<noteq> [] \<or> qu_closed q) \<longrightarrow> qu_wake q \<or> 0 < qu_owed q \<or> qu_wait q = Closing)
     \<and> (qu_wait q = Returned \<longrightarrow> qu_loop q = Stops)"

lemma queue_reach_ok: "queue_reach q \<Longrightarrow> queue_ok' q"
proof (induction rule: queue_reach.induct)
  case (step q q')
  from step.hyps(2) step.IH show ?case
    by cases (auto simp: queue_ok'_def look_def hand_def in_hand_def split: queue_loop.splits)
next
  case (call q q')
  from call.hyps(2) call.IH show ?case
    by cases (auto simp: queue_ok'_def enqueue_def in_hand_def split: queue_loop.splits)
qed (simp add: queue_ok'_def new_queue_def in_hand_def)

text \<open>The steps a queue has left to take by itself.\<close>

definition work_left :: "'a answer_queue \<Rightarrow> nat" where
  "work_left q = 3 * length (qu_pending q) + 4 * qu_owed q + (if qu_wake q then 3 else 0)
     + (case qu_loop q of Looking \<Rightarrow> 2 | Handing xs \<Rightarrow> length xs + 2 | Sleeping \<Rightarrow> 0 | Stops \<Rightarrow> 0)
     + (case qu_wait q of Closing \<Rightarrow> 5 | Waiting \<Rightarrow> 1 | _ \<Rightarrow> 0)"

lemma queue_step_less: "queue_step q q' \<Longrightarrow> work_left q' < work_left q"
  by (cases rule: queue_step.cases) (auto simp: work_left_def look_def hand_def split: queue_wait.splits)

section \<open>Properties\<close>

text \<open>
  C14: Whatever the interleaving of the producers, the goroutine and the caller: what was handed on is
  the beginning of what was put, in its order; once \<open>wait\<close> has returned it is all of it. Without
  further calls the queue takes finitely many steps, and when it can take none, everything put has been
  handed on, and \<open>wait\<close>, if it was called, has returned.
\<close>

theorem queue_hands_all:
  assumes "queue_reach q"
  shows "prefix (qu_handed q) (qu_put q) \<and> (qu_wait q = Returned \<longrightarrow> qu_handed q = qu_put q)
    \<and> ((queue_step ^^ k) q q' \<longrightarrow> k \<le> work_left q)
    \<and> ((\<forall>q'. \<not> queue_step q q') \<longrightarrow> qu_handed q = qu_put q \<and> qu_wait q \<in> {Open, Returned})"
proof (intro conjI impI)
  have ok: "queue_ok' q" by (rule queue_reach_ok [OF assms])
  show "prefix (qu_handed q) (qu_put q)" using ok by (auto simp: queue_ok'_def intro: prefixI [OF sym])
  show "qu_handed q = qu_put q" if "qu_wait q = Returned" using ok that by (auto simp: queue_ok'_def in_hand_def)
  have "work_left q' + k \<le> work_left q" if "(queue_step ^^ k) q q'" for k q'
    using that
  proof (induction k arbitrary: q')
    case (Suc k)
    then obtain t where "(queue_step ^^ k) q t" "queue_step t q'" by auto
    then show ?case using Suc.IH [of t] queue_step_less [of t q'] by simp
  qed simp
  then show "(queue_step ^^ k) q q' \<Longrightarrow> k \<le> work_left q" by fastforce
  assume stuck: "\<forall>q'. \<not> queue_step q q'"
  have no: "qu_loop q \<noteq> Looking" "qu_loop q \<noteq> Handing (x # xs)" "\<not> (qu_loop q = Sleeping \<and> qu_wake q)"
      "\<not> 0 < qu_owed q" "qu_wait q \<noteq> Closing" "\<not> (qu_wait q = Waiting \<and> qu_loop q = Stops)" for x xs
    using stuck looks [of q] hands [of q x xs] wakes [of q] signals [of q] wait_signals [of q] returns [of q] by auto
  have "qu_loop q = Sleeping \<or> qu_loop q = Stops"
  proof (cases "qu_loop q")
    case (Handing xs)
    then show ?thesis using no(2) ok by (cases xs) (auto simp: queue_ok'_def)
  qed (use no(1) in auto)
  then show "qu_handed q = qu_put q" "qu_wait q \<in> {Open, Returned}"
    using ok no(3-6) by (cases "qu_wait q"; auto simp: queue_ok'_def in_hand_def)+
qed

lemma sample_queue: "queue_reach \<lparr>qu_pending = [], qu_wake = False, qu_closed = True, qu_loop = Stops, qu_wait = Returned, qu_owed = 0,
    qu_put = [(1, True)], qu_handed = [(1, True)]\<rparr>"
proof -
  let ?q = "\<lambda>ps wk cl lp wt ow hs. \<lparr>qu_pending = ps, qu_wake = wk, qu_closed = cl, qu_loop = lp, qu_wait = wt, qu_owed = ow,
    qu_put = [(1 :: nat, True)], qu_handed = hs\<rparr>"
  have "queue_reach (look new_queue)" by (rule queue_reach.step [OF queue_reach.start looks]) (simp add: new_queue_def)
  then have "queue_reach (enqueue (1, True) (look new_queue))" by (rule queue_reach.call [OF _ puts]) (simp add: look_def new_queue_def)
  then have "queue_reach (?q [(1, True)] False False Sleeping Open 1 [])" by (simp add: look_def new_queue_def enqueue_def)
  from queue_reach.step [OF this signals] have "queue_reach (?q [(1, True)] True False Sleeping Open 0 [])" by simp
  from queue_reach.step [OF this wakes] have "queue_reach (?q [(1, True)] False False Looking Open 0 [])" by simp
  from queue_reach.step [OF this looks] have "queue_reach (?q [] False False (Handing [(1, True)]) Open 0 [])" by (simp add: look_def)
  from queue_reach.step [OF this hands] have "queue_reach (?q [] False False Looking Open 0 [(1, True)])" by (simp add: hand_def)
  from queue_reach.step [OF this looks] have "queue_reach (?q [] False False Sleeping Open 0 [(1, True)])" by (simp add: look_def)
  from queue_reach.call [OF this waits] have "queue_reach (?q [] False True Sleeping Closing 0 [(1, True)])" by simp
  from queue_reach.step [OF this wait_signals] have "queue_reach (?q [] True True Sleeping Waiting 0 [(1, True)])" by simp
  from queue_reach.step [OF this wakes] have "queue_reach (?q [] False True Looking Waiting 0 [(1, True)])" by simp
  from queue_reach.step [OF this looks] have "queue_reach (?q [] False True Stops Waiting 0 [(1, True)])" by (simp add: look_def)
  from queue_reach.step [OF this returns] show ?thesis by simp
qed

theorem queue_hands_all_witness:
  "\<exists>q. queue_reach q \<and> qu_wait q = Returned \<and> qu_put q = [(1, True)] \<and> qu_handed q = qu_put q"
proof (intro exI conjI)
  show "queue_reach \<lparr>qu_pending = [], qu_wake = False, qu_closed = True, qu_loop = Stops, qu_wait = Returned, qu_owed = 0,
      qu_put = [(1, True)], qu_handed = [(1, True)]\<rparr>" by (rule sample_queue)
qed (use queue_hands_all [OF sample_queue, of 0] in simp_all)

end
