(* ===== verification/ManyPlan.thy ===== *)
theory ManyPlan
  imports AggCounts NativeRules
begin

text \<open>
  How a call of many queries is split into scans (\<^verbatim>\<open>AnswerMany\<close>, \<^verbatim>\<open>alone\<close>,
  \<^verbatim>\<open>rulesKey\<close>, \<^verbatim>\<open>prepare\<close> of \<^verbatim>\<open>internal/native/many.go\<close>,
  \<^verbatim>\<open>hasEver\<close> of \<^verbatim>\<open>ever.go\<close>): the queries answered alone, those refused, and
  the rest by project, table class and rules, in chunks of bounded size. The quoting of
  \<^verbatim>\<open>fmt\<close>'s \<open>%q\<close> is a parameter (\<open>lb_quote\<close>).
\<close>

section \<open>Which queries share a scan\<close>

definition any_ever :: "raw_filter list \<Rightarrow> bool" where
  "any_ever fs \<longleftrightarrow> (\<exists>f \<in> set fs. rf_op f = ''ever'' \<or> rf_op f = ''never'')"

fun metric_ever :: "metric \<Rightarrow> bool" where
  "metric_ever (Metric op x column ofs named rnd wh num den) \<longleftrightarrow> any_ever wh
     \<or> (case num of None \<Rightarrow> False | Some m \<Rightarrow> metric_ever m) \<or> (case den of None \<Rightarrow> False | Some m \<Rightarrow> metric_ever m)"

definition has_ever :: "query \<Rightarrow> bool" where
  "has_ever q \<longleftrightarrow> any_ever (q_where q) \<or> (\<exists>m \<in> set (q_metrics q). metric_ever m)"

definition alone :: "query \<Rightarrow> bool" where
  "alone q \<longleftrightarrow> q_kind q \<in> {''retention'', ''attributes'', ''funnel'', ''paths''} \<or> q_table q = ''identities'' \<or> has_ever q"

definition action_name :: "action \<Rightarrow> string" where
  "action_name a = (case a of Rename \<Rightarrow> ''rename'' | Block \<Rightarrow> ''block'')"

text \<open>\<open>fmt\<close>'s \<open>%q\<close> of each, with spaces; \<open>strings.Join\<close>.\<close>

fun join_with :: "string \<Rightarrow> string list \<Rightarrow> string" where
  "join_with sep [] = []"
| "join_with sep [x] = x"
| "join_with sep (x # y # ys) = x @ sep @ join_with sep (y # ys)"

definition quoted :: "(string \<Rightarrow> string) \<Rightarrow> string list \<Rightarrow> string" where
  "quoted quote xs = join_with '' '' (map quote xs)"

definition event_parts :: "event_rule \<Rightarrow> string list" where
  "event_parts r = [er_family r, er_name r, action_name (er_action r), er_to r]"

definition attr_parts :: "attr_rule \<Rightarrow> string list" where
  "attr_parts r = [ar_key r, action_name (ar_action r), ar_to r]"

definition rules_key :: "(string \<Rightarrow> string) \<Rightarrow> int \<Rightarrow> event_rule list \<Rightarrow> attr_rule list \<Rightarrow> string" where
  "rules_key quote project events attrs =
     join_with '';'' (sort (map (\<lambda>r. quoted quote (event_parts r)) (filter (\<lambda>r. er_project r = project) events)))
     @ ''|'' @ join_with '';'' (sort (map (\<lambda>r. quoted quote (attr_parts r)) (filter (\<lambda>r. ar_project r = project) attrs)))"

section \<open>The requests\<close>

record request =
  rq_query :: query
  rq_project :: int
  rq_from :: int
  rq_to :: int
  rq_events :: "event_rule list"
  rq_attrs :: "attr_rule list"

text \<open>One aggregation a shared scan feeds, and a request prepared for one.\<close>

record feeding =
  fe_spec :: agg_spec
  fe_fam :: string
  fe_ids :: "string list"

record prepared =
  pr_index :: nat
  pr_sessions :: bool
  pr_scan :: query_scan
  pr_feeds :: "feeding list"
  pr_heavy :: nat

definition spec_heavy :: "'f lib \<Rightarrow> engine_bounds \<Rightarrow> query_scan \<Rightarrow> agg_spec \<Rightarrow> bool" where
  "spec_heavy L e s sp = (case new_agg (lb_quote L) (agg_options_of e s sp) of Inr (rs, a) \<Rightarrow> heavy a | Inl x \<Rightarrow> False)"

definition prepare :: "'f lib \<Rightarrow> (string \<Rightarrow> bool) \<Rightarrow> engine_bounds \<Rightarrow> nat \<Rightarrow> request \<Rightarrow> compile_error + prepared" where
  "prepare L den_first e i r =
     (let sessions = (q_table (rq_query r) = ''sessions'') in
      and_then (compile_query (lb_show L) den_first (rq_query r) (rq_from r) (rq_to r)) (\<lambda>s.
        let specs = agg_specs (rq_query r) (rq_from r) (rq_to r) in
        Inr \<lparr>pr_index = i, pr_sessions = sessions, pr_scan = s,
             pr_feeds = map (\<lambda>sp. \<lparr>fe_spec = sp, fe_fam = (if sessions then [] else table_family (rq_query r)),
                                  fe_ids = (if sessions then [] else identity_columns_of s (sp_dims sp))\<rparr>) specs,
             pr_heavy = length (filter (spec_heavy L e s) specs)\<rparr>))"

record scan_key =
  sk_project :: int
  sk_sessions :: bool
  sk_rules :: string

definition key_of :: "(string \<Rightarrow> string) \<Rightarrow> request \<Rightarrow> scan_key" where
  "key_of quote r = (let sessions = (q_table (rq_query r) = ''sessions'') in
     \<lparr>sk_project = rq_project r, sk_sessions = sessions, sk_rules = (if sessions then [] else rules_key quote (rq_project r) (rq_events r) (rq_attrs r))\<rparr>)"

section \<open>The split\<close>

text \<open>The plans by key, in the order the keys are met.\<close>

fun add_plan :: "scan_key \<Rightarrow> prepared \<Rightarrow> (scan_key \<times> prepared list) list \<Rightarrow> (scan_key \<times> prepared list) list" where
  "add_plan k p [] = [(k, [p])]"
| "add_plan k p ((k', ps) # plans) = (if k = k' then (k', ps @ [p]) # plans else (k', ps) # add_plan k p plans)"

record split_call =
  sc_alone :: "nat list"
  sc_refused :: "(nat \<times> compile_error) list"
  sc_plans :: "(scan_key \<times> prepared list) list"

fun split_requests :: "'f lib \<Rightarrow> (string \<Rightarrow> bool) \<Rightarrow> engine_bounds \<Rightarrow> nat \<Rightarrow> request list \<Rightarrow> split_call \<Rightarrow> split_call" where
  "split_requests L den_first e i [] c = c"
| "split_requests L den_first e i (r # rs) c =
     split_requests L den_first e (i + 1) rs
       (if alone (rq_query r) then c\<lparr>sc_alone := sc_alone c @ [i]\<rparr>
        else case prepare L den_first e i r of
            Inl err \<Rightarrow> c\<lparr>sc_refused := sc_refused c @ [(i, err)]\<rparr>
          | Inr p \<Rightarrow> c\<lparr>sc_plans := add_plan (key_of (lb_quote L) r) p (sc_plans c)\<rparr>)"

definition max_consumers :: nat where "max_consumers = 32"

text \<open>A chunk with its heavy aggregations.\<close>

definition flush :: "prepared list \<Rightarrow> nat \<Rightarrow> (prepared list \<times> nat) list" where
  "flush chunk hv = (if chunk = [] then [] else [(chunk, hv)])"

fun chunks_from :: "nat \<Rightarrow> prepared list \<Rightarrow> prepared list \<Rightarrow> nat \<Rightarrow> nat \<Rightarrow> (prepared list \<times> nat) list" where
  "chunks_from slots [] chunk n hv = flush chunk hv"
| "chunks_from slots (p # ps) chunk n hv =
     (if n + length (pr_feeds p) > max_consumers \<or> hv + pr_heavy p > slots
      then flush chunk hv @ chunks_from slots ps [p] (length (pr_feeds p)) (pr_heavy p)
      else chunks_from slots ps (chunk @ [p]) (n + length (pr_feeds p)) (hv + pr_heavy p))"

definition scans_of :: "'f lib \<Rightarrow> (string \<Rightarrow> bool) \<Rightarrow> engine_bounds \<Rightarrow> nat \<Rightarrow> request list \<Rightarrow> split_call \<times> (scan_key \<times> prepared list \<times> nat) list" where
  "scans_of L den_first e slots rs =
     (let c = split_requests L den_first e 0 rs \<lparr>sc_alone = [], sc_refused = [], sc_plans = []\<rparr>
      in (c, concat (map (\<lambda>(k, ps). map (Pair k) (chunks_from slots ps [] 0 0)) (sc_plans c))))"

section \<open>Each request is in one place\<close>

definition plan_indices :: "(scan_key \<times> prepared list) list \<Rightarrow> nat list" where
  "plan_indices plans = concat (map (\<lambda>(k, ps). map pr_index ps) plans)"

lemma add_plan_indices: "mset (plan_indices (add_plan k p plans)) = add_mset (pr_index p) (mset (plan_indices plans))"
  by (induction k p plans rule: add_plan.induct) (auto simp: plan_indices_def)

lemma prepare_index: "prepare L den_first e i r = Inr p \<Longrightarrow> pr_index p = i"
  by (auto simp: prepare_def Let_def and_then_Inr)

lemma split_indices:
  "mset (sc_alone (split_requests L den_first e i rs c)) + mset (map fst (sc_refused (split_requests L den_first e i rs c)))
     + mset (plan_indices (sc_plans (split_requests L den_first e i rs c)))
   = mset (sc_alone c) + mset (map fst (sc_refused c)) + mset (plan_indices (sc_plans c)) + mset [i..<i + length rs]"
proof (induction L den_first e i rs c rule: split_requests.induct)
  case (2 L den_first e i r rs c)
  have upt: "mset [i..<Suc (i + length rs)] = add_mset i (mset [Suc i..<Suc (i + length rs)])"
    using upt_rec [of i "Suc (i + length rs)"] by (simp del: upt_Suc mset_upt)
  consider "alone (rq_query r)" | err where "\<not> alone (rq_query r)" "prepare L den_first e i r = Inl err"
    | p where "\<not> alone (rq_query r)" "prepare L den_first e i r = Inr p" by (cases "prepare L den_first e i r") auto
  then show ?case
  proof cases
    case 3
    then show ?thesis using 2 prepare_index [OF 3(2)] by (simp add: add_plan_indices upt del: upt_Suc mset_upt)
  qed (use 2 in \<open>simp_all add: upt del: upt_Suc mset_upt\<close>)
qed simp

text \<open>A plan's requests share its key, and each is the request of its index, prepared.\<close>

definition plan_of :: "'f lib \<Rightarrow> (string \<Rightarrow> bool) \<Rightarrow> engine_bounds \<Rightarrow> nat \<Rightarrow> request list \<Rightarrow> scan_key \<Rightarrow> prepared \<Rightarrow> bool" where
  "plan_of L den_first e i rs k p \<longleftrightarrow> i \<le> pr_index p \<and> pr_index p < i + length rs \<and> \<not> alone (rq_query (rs ! (pr_index p - i)))
     \<and> prepare L den_first e (pr_index p) (rs ! (pr_index p - i)) = Inr p \<and> key_of (lb_quote L) (rs ! (pr_index p - i)) = k"

lemma add_plan_members:
  "(k', ps) \<in> set (add_plan k p plans) \<Longrightarrow> x \<in> set ps \<Longrightarrow> (x = p \<and> k' = k) \<or> (\<exists>ps'. (k', ps') \<in> set plans \<and> x \<in> set ps')"
  by (induction k p plans arbitrary: ps rule: add_plan.induct) (auto split: if_splits)

lemma split_plans:
  "(k, ps) \<in> set (sc_plans (split_requests L den_first e i rs c)) \<Longrightarrow> p \<in> set ps \<Longrightarrow>
   (\<exists>ps'. (k, ps') \<in> set (sc_plans c) \<and> p \<in> set ps') \<or> plan_of L den_first e i rs k p"
proof (induction L den_first e i rs c arbitrary: ps rule: split_requests.induct)
  case (2 L den_first e i r rs c)
  let ?c = "if alone (rq_query r) then c\<lparr>sc_alone := sc_alone c @ [i]\<rparr>
        else case prepare L den_first e i r of
            Inl err \<Rightarrow> c\<lparr>sc_refused := sc_refused c @ [(i, err)]\<rparr>
          | Inr p \<Rightarrow> c\<lparr>sc_plans := add_plan (key_of (lb_quote L) r) p (sc_plans c)\<rparr>"
  have "sc_plans (split_requests L den_first e i (r # rs) c) = sc_plans (split_requests L den_first e (i + 1) rs ?c)" by simp
  with "2.IH" [of ps] "2.prems" consider (now) ps' where "(k, ps') \<in> set (sc_plans ?c)" "p \<in> set ps'"
    | (later) "plan_of L den_first e (i + 1) rs k p" by auto
  then show ?case
  proof cases
    case now
    show ?thesis
    proof (cases "alone (rq_query r) \<or> (\<exists>err. prepare L den_first e i r = Inl err)")
      case False
      then obtain x where x: "\<not> alone (rq_query r)" "prepare L den_first e i r = Inr x" by (cases "prepare L den_first e i r") auto
      from now have "(p = x \<and> k = key_of (lb_quote L) r) \<or> (\<exists>ps'. (k, ps') \<in> set (sc_plans c) \<and> p \<in> set ps')"
        by (simp add: x) (rule add_plan_members)
      then show ?thesis using x prepare_index [OF x(2)] by (auto simp: plan_of_def)
    next
      case True
      then have "sc_plans ?c = sc_plans c" by auto
      then show ?thesis using now by auto
    qed
  next
    case later
    then have "i + 1 \<le> pr_index p" by (simp add: plan_of_def)
    then have "pr_index p - i = Suc (pr_index p - (i + 1))" by arith
    then show ?thesis using later by (simp add: plan_of_def)
  qed
qed auto

text \<open>The chunks of a plan.\<close>

definition chunk_ok :: "nat \<Rightarrow> prepared list \<times> nat \<Rightarrow> bool" where
  "chunk_ok slots c \<longleftrightarrow> fst c \<noteq> [] \<and> snd c = sum_list (map pr_heavy (fst c))
     \<and> (length (fst c) = 1 \<or> sum_list (map (\<lambda>p. length (pr_feeds p)) (fst c)) \<le> max_consumers \<and> snd c \<le> slots)"

lemma chunks_ok:
  assumes "n = sum_list (map (\<lambda>p. length (pr_feeds p)) chunk)" "hv = sum_list (map pr_heavy chunk)"
    and "chunk = [] \<or> length chunk = 1 \<or> n \<le> max_consumers \<and> hv \<le> slots"
  shows "(\<forall>c \<in> set (chunks_from slots ps chunk n hv). chunk_ok slots c) \<and> concat (map fst (chunks_from slots ps chunk n hv)) = chunk @ ps"
  using assms
proof (induction slots ps chunk n hv rule: chunks_from.induct)
  case (1 slots chunk n hv)
  then show ?case by (auto simp: flush_def chunk_ok_def)
next
  case (2 slots p ps chunk n hv)
  let ?next = "chunks_from slots ps [p] (length (pr_feeds p)) (pr_heavy p)"
  show ?case
  proof (cases "n + length (pr_feeds p) > max_consumers \<or> hv + pr_heavy p > slots")
    case True
    then have "chunks_from slots (p # ps) chunk n hv = flush chunk hv @ ?next" by simp
    moreover have "\<forall>c \<in> set (flush chunk hv). chunk_ok slots c"
      using "2.prems" by (cases "chunk = []") (simp_all add: flush_def chunk_ok_def)
    moreover have "concat (map fst (flush chunk hv)) = chunk" by (simp add: flush_def)
    moreover have "(\<forall>c \<in> set ?next. chunk_ok slots c) \<and> concat (map fst ?next) = [p] @ ps"
      by (rule "2.IH"(1) [OF True]) simp_all
    ultimately show ?thesis by (simp add: ball_Un)
  next
    case False
    then have e: "chunks_from slots (p # ps) chunk n hv = chunks_from slots ps (chunk @ [p]) (n + length (pr_feeds p)) (hv + pr_heavy p)" by simp
    show ?thesis unfolding e
      using "2.IH"(2) [OF False] "2.prems"(1,2) False by simp
  qed
qed

text \<open>
  C18: Splitting a call loses no request and takes none twice: each index is answered alone, refused, or
  in one chunk of one scan. The requests of a chunk, none of which is answered alone, read one
  project, one table class and, the events', rules of one key; and a chunk has at most 32
  aggregations and no more heavy ones than there are turns, unless it is a single request.
\<close>

theorem requests_split:
  assumes "scans_of L den_first e slots rs = (c, scans)"
  shows "mset (sc_alone c) + mset (map fst (sc_refused c)) + mset (concat (map (\<lambda>(k, ps, hv). map pr_index ps) scans)) = mset [0..<length rs]
    \<and> (\<forall>(k, ps, hv) \<in> set scans. chunk_ok slots (ps, hv) \<and> (\<forall>p \<in> set ps. plan_of L den_first e 0 rs k p))"
proof -
  have c: "c = split_requests L den_first e 0 rs \<lparr>sc_alone = [], sc_refused = [], sc_plans = []\<rparr>"
    and scans: "scans = concat (map (\<lambda>(k, ps). map (Pair k) (chunks_from slots ps [] 0 0)) (sc_plans c))"
    using assms by (auto simp: scans_of_def Let_def)
  note chunks = chunks_ok [of 0 "[]" 0 slots, simplified]
  have "concat (map (\<lambda>(k, ps, hv). map pr_index ps) (map (Pair k) (chunks_from slots ps [] 0 0))) = map pr_index ps" for k :: scan_key and ps
  proof -
    have "concat (map (\<lambda>(k, ps, hv). map pr_index ps) (map (Pair k) cs)) = map pr_index (concat (map fst cs))" for cs :: "(prepared list \<times> nat) list"
      by (induction cs) auto
    then show ?thesis using chunks by simp
  qed
  then have "concat (map (\<lambda>(k, ps, hv). map pr_index ps) (concat (map (\<lambda>(k, ps). map (Pair k) (chunks_from slots ps [] 0 0)) plans))) = plan_indices plans" for plans
    unfolding plan_indices_def by (induction plans) (simp_all add: split_def)
  then have "concat (map (\<lambda>(k, ps, hv). map pr_index ps) scans) = plan_indices (sc_plans c)" unfolding scans .
  moreover have "mset (sc_alone c) + mset (map fst (sc_refused c)) + mset (plan_indices (sc_plans c)) = mset [0..<length rs]"
    unfolding c split_indices by (simp add: plan_indices_def)
  moreover have "chunk_ok slots (ps, hv) \<and> (\<forall>p \<in> set ps. plan_of L den_first e 0 rs k p)" if ins: "(k, ps, hv) \<in> set scans" for k ps hv
  proof -
    obtain all where all: "(k, all) \<in> set (sc_plans c)" "(ps, hv) \<in> set (chunks_from slots all [] 0 0)" using ins by (auto simp: scans)
    have "set ps \<subseteq> set (concat (map fst (chunks_from slots all [] 0 0)))" using all(2) by force
    then have "set ps \<subseteq> set all" using chunks by simp
    then have "plan_of L den_first e 0 rs k p" if "p \<in> set ps" for p
      using split_plans [of k all L den_first e 0 rs "\<lparr>sc_alone = [], sc_refused = [], sc_plans = []\<rparr>" p] all(1) that unfolding c by auto
    with chunks all(2) show ?thesis by blast
  qed
  ultimately show ?thesis by auto
qed

section \<open>Rules with one key\<close>

text \<open>What the code relies on of \<open>%q\<close>: a quoted text starts with a quotation mark and ends by itself.\<close>

definition quotes :: "(string \<Rightarrow> string) \<Rightarrow> bool" where
  "quotes quote \<longleftrightarrow> (\<forall>s. quote s \<noteq> [] \<and> hd (quote s) = CHR ''\"'') \<and> (\<forall>s t r r'. quote s @ r = quote t @ r' \<longrightarrow> s = t \<and> r = r')"

lemma quotes_inj: "quotes quote \<Longrightarrow> quote s @ r = quote t @ r' \<longleftrightarrow> s = t \<and> r = r'"
  unfolding quotes_def by blast

lemma quoted_simps:
  "quoted quote [x] = quote x" "quoted quote (x # y # ys) = quote x @ '' '' @ quoted quote (y # ys)"
  by (simp_all add: quoted_def)

lemma quoted_inj: "quotes quote \<Longrightarrow> length xs = length ys \<Longrightarrow> xs \<noteq> [] \<Longrightarrow> quoted quote xs @ r = quoted quote ys @ r' \<longleftrightarrow> xs = ys \<and> r = r'"
proof (induction xs arbitrary: ys)
  case (Cons x xs)
  then obtain y ys' where y: "ys = y # ys'" "length xs = length ys'" by (cases ys) auto
  show ?case
  proof (cases xs)
    case Nil
    then show ?thesis using y quotes_inj [OF Cons.prems(1)] by (simp add: quoted_simps)
  next
    case (Cons x1 xs1)
    then obtain y1 ys1 where y1: "ys' = y1 # ys1" using y(2) by (cases ys') auto
    from Cons.IH [OF Cons.prems(1) y(2)] Cons have "quoted quote xs @ r = quoted quote ys' @ r' \<longleftrightarrow> xs = ys' \<and> r = r'" by simp
    then show ?thesis using quotes_inj [OF Cons.prems(1)] by (simp add: y y1 Cons quoted_simps)
  qed
qed simp

text \<open>Items joined by semicolons, up to their end or a bar.\<close>

definition ends_items :: "string \<Rightarrow> bool" where
  "ends_items t \<longleftrightarrow> t = [] \<or> hd t = CHR ''|''"

lemma joined_inj:
  assumes q: "\<And>x y r r'. item x \<Longrightarrow> item y \<Longrightarrow> x @ r = y @ r' \<longleftrightarrow> x = y \<and> r = r'" "\<And>x. item x \<Longrightarrow> x \<noteq> [] \<and> hd x = CHR ''\"''"
    and t: "ends_items t" "ends_items t'" and all: "\<forall>x \<in> set xs. item x" "\<forall>y \<in> set ys. item y"
  shows "join_with '';'' xs @ t = join_with '';'' ys @ t' \<longleftrightarrow> xs = ys \<and> t = t'"
proof -
  have start: "x @ r \<noteq> t" if "ends_items t" "item x" for x r t
  proof
    assume "x @ r = t"
    then have "t \<noteq> [] \<and> hd t = CHR ''\"''" using q(2) [OF that(2)] by (metis Nil_is_append_conv hd_append2)
    with that(1) show False by (simp add: ends_items_def)
  qed
  have sep: "'';'' @ r \<noteq> t" if "ends_items t" for r t using that by (auto simp: ends_items_def)
  have first: "join_with '';'' (x # xs) @ t = x @ (if xs = [] then t else '';'' @ join_with '';'' xs @ t)" for x xs t
    by (cases xs) auto
  show ?thesis
    using all
  proof (induction xs arbitrary: ys)
    case Nil
    show ?case
    proof (cases ys)
      case (Cons y ys')
      show ?thesis unfolding Cons first using start [OF t(1)] Nil Cons by fastforce
    qed simp
  next
    case (Cons x xs)
    show ?case
    proof (cases ys)
      case Nil
      show ?thesis unfolding Nil first using start [OF t(2)] Cons.prems by simp
    next
      case (Cons y ys')
      have xy: "item x" "item y" using Cons.prems Cons by auto
      have rest: "join_with '';'' xs @ t = join_with '';'' ys' @ t' \<longleftrightarrow> xs = ys' \<and> t = t'" using Cons.IH [of ys'] Cons.prems Cons by simp
      have "(if xs = [] then t else '';'' @ join_with '';'' xs @ t) = (if ys' = [] then t' else '';'' @ join_with '';'' ys' @ t') \<longleftrightarrow> xs = ys' \<and> t = t'"
        using rest sep [OF t(1), of "join_with '';'' ys' @ t'"] sep [OF t(2), of "join_with '';'' xs @ t"] by (cases "xs = []"; cases "ys' = []") auto
      then show ?thesis unfolding Cons first q(1) [OF xy] by auto
    qed
  qed
qed

lemma sort_mset: "sort xs = sort ys \<longleftrightarrow> mset xs = mset ys"
  by (metis mset_sort sorted_list_of_multiset_mset)

lemma items_key:
  assumes quote: "quotes quote" and n: "\<And>r. length (parts r) = Suc n" and t: "ends_items t" "ends_items t'"
  shows "join_with '';'' (sort (map (\<lambda>r. quoted quote (parts r)) rs)) @ t = join_with '';'' (sort (map (\<lambda>r. quoted quote (parts r)) rs')) @ t'
    \<longleftrightarrow> mset (map parts rs) = mset (map parts rs') \<and> t = t'"
proof -
  define item where "item s \<longleftrightarrow> (\<exists>p. length p = Suc n \<and> s = quoted quote p)" for s
  have told: "x @ r = y @ r' \<longleftrightarrow> x = y \<and> r = r'" if "item x" "item y" for x y r r'
  proof -
    obtain p p' where "length p = Suc n" "length p' = Suc n" "x = quoted quote p" "y = quoted quote p'" using \<open>item x\<close> \<open>item y\<close> by (auto simp: item_def)
    then show ?thesis using quoted_inj [OF quote, of p p'] by (cases p) auto
  qed
  have start: "x \<noteq> [] \<and> hd x = CHR ''\"''" if x: "item x" for x
  proof -
    obtain a p where "x = quoted quote (a # p)" using x by (auto simp: item_def length_Suc_conv)
    moreover have "quote a \<noteq> [] \<and> hd (quote a) = CHR ''\"''" using quote unfolding quotes_def by blast
    ultimately show ?thesis by (cases p) (simp_all add: quoted_simps)
  qed
  have all: "\<forall>x \<in> set (sort (map (\<lambda>r. quoted quote (parts r)) rs)). item x" for rs using n by (auto simp: item_def)
  have inj: "quoted quote p = quoted quote p' \<longleftrightarrow> p = p'" if "length p = Suc n" "length p' = Suc n" for p p'
    using quoted_inj [OF quote, of p p' "[]" "[]"] that by (cases p) auto
  have "mset (map (\<lambda>r. quoted quote (parts r)) rs) = mset (map (\<lambda>r. quoted quote (parts r)) rs') \<longleftrightarrow> mset (map parts rs) = mset (map parts rs')"
  proof
    assume "mset (map (\<lambda>r. quoted quote (parts r)) rs) = mset (map (\<lambda>r. quoted quote (parts r)) rs')"
    then have "image_mset (quoted quote) (mset (map parts rs)) = image_mset (quoted quote) (mset (map parts rs'))" by (simp add: multiset.map_comp comp_def)
    then show "mset (map parts rs) = mset (map parts rs')" by (rule multiset.inj_map_strong [rotated]) (use n inj in auto)
  next
    assume "mset (map parts rs) = mset (map parts rs')"
    then have "image_mset (quoted quote) (mset (map parts rs)) = image_mset (quoted quote) (mset (map parts rs'))" by simp
    then show "mset (map (\<lambda>r. quoted quote (parts r)) rs) = mset (map (\<lambda>r. quoted quote (parts r)) rs')" by (simp add: multiset.map_comp comp_def)
  qed
  moreover have "join_with '';'' (sort (map (\<lambda>r. quoted quote (parts r)) rs)) @ t = join_with '';'' (sort (map (\<lambda>r. quoted quote (parts r)) rs')) @ t'
      \<longleftrightarrow> sort (map (\<lambda>r. quoted quote (parts r)) rs) = sort (map (\<lambda>r. quoted quote (parts r)) rs') \<and> t = t'"
    by (rule joined_inj [of item]) (use told start t all in blast)+
  ultimately show ?thesis by (simp only: sort_mset)
qed

text \<open>
  C21: Two queries of the events get one scan key, by which \<open>split\<close> groups the queries of a call,
  exactly when they are of one project and its own rules are the same, in whatever order. The
  queries of one key may still be cut into several scans, by their consumers and the free turns
  (\<open>chunks_from\<close>).
\<close>

theorem one_key_iff_same_rules:
  assumes "quotes quote" "q_table (rq_query r) \<noteq> ''sessions''" "q_table (rq_query r') \<noteq> ''sessions''"
  shows "key_of quote r = key_of quote r' \<longleftrightarrow> rq_project r = rq_project r'
    \<and> mset (map event_parts (filter (\<lambda>x. er_project x = rq_project r) (rq_events r)))
      = mset (map event_parts (filter (\<lambda>x. er_project x = rq_project r') (rq_events r')))
    \<and> mset (map attr_parts (filter (\<lambda>x. ar_project x = rq_project r) (rq_attrs r)))
      = mset (map attr_parts (filter (\<lambda>x. ar_project x = rq_project r') (rq_attrs r')))"
proof -
  have "rules_key quote p ev ats = rules_key quote p' ev' ats'
    \<longleftrightarrow> mset (map event_parts (filter (\<lambda>x. er_project x = p) ev)) = mset (map event_parts (filter (\<lambda>x. er_project x = p') ev'))
      \<and> mset (map attr_parts (filter (\<lambda>x. ar_project x = p) ats)) = mset (map attr_parts (filter (\<lambda>x. ar_project x = p') ats'))" for p p' ev ev' ats ats'
    unfolding rules_key_def
    by (subst items_key [OF assms(1), where n = 3], simp_all add: event_parts_def ends_items_def)
      (insert items_key [OF assms(1), of attr_parts 2 "[]" "[]"], simp add: attr_parts_def ends_items_def)
  then show ?thesis using assms(2,3) by (auto simp: key_of_def Let_def)
qed

text \<open>A quoting as \<^verbatim>\<open>strconv.Quote\<close>'s of printable text.\<close>

definition escaped :: "string \<Rightarrow> string" where
  "escaped s = concat (map (\<lambda>c. if c = CHR ''\"'' \<or> c = CHR 0x5C then [CHR 0x5C, c] else [c]) s)"

definition sample_quote :: "string \<Rightarrow> string" where
  "sample_quote s = CHR ''\"'' # escaped s @ ''\"''"

lemma escaped_simps: "escaped [] = []" "escaped (c # s) = (if c = CHR ''\"'' \<or> c = CHR 0x5C then [CHR 0x5C, c] else [c]) @ escaped s"
  by (simp_all add: escaped_def)

lemma sample_quotes: "quotes sample_quote"
proof -
  have told: "escaped s @ CHR ''\"'' # r = escaped t @ CHR ''\"'' # r' \<Longrightarrow> s = t \<and> r = r'" for s t r r'
  proof (induction s arbitrary: t)
    case Nil
    then show ?case by (cases t) (auto simp: escaped_simps split: if_splits)
  next
    case (Cons c s)
    show ?case
    proof (cases t)
      case Nil
      then show ?thesis using Cons.prems by (auto simp: escaped_simps split: if_splits)
    next
      case t: (Cons d t')
      have "c = d" using Cons.prems unfolding t escaped_simps by (auto split: if_splits)
      moreover from this have "escaped s @ CHR ''\"'' # r = escaped t' @ CHR ''\"'' # r'" using Cons.prems unfolding t escaped_simps by simp
      ultimately show ?thesis using Cons.IH unfolding t by blast
    qed
  qed
  show ?thesis unfolding quotes_def
  proof (intro conjI allI impI)
    fix s t r r' assume "sample_quote s @ r = sample_quote t @ r'"
    then have e: "escaped s @ CHR ''\"'' # r = escaped t @ CHR ''\"'' # r'" by (simp add: sample_quote_def)
    from told [OF e] show "s = t" by (elim conjE)
    from told [OF e] show "r = r'" by (elim conjE)
  qed (simp_all add: sample_quote_def)
qed

definition sample_request :: "event_rule list \<Rightarrow> query \<Rightarrow> request" where
  "sample_request rules q = \<lparr>rq_query = q, rq_project = 1, rq_from = 100, rq_to = 102, rq_events = rules, rq_attrs = []\<rparr>"

definition sample_rules :: "event_rule list" where
  "sample_rules = [\<lparr>er_project = 1, er_family = ''views'', er_name = ''/a'', er_action = Block, er_to = []\<rparr>,
     \<lparr>er_project = 1, er_family = ''product'', er_name = ''buy'', er_action = Rename, er_to = ''purchase''\<rparr>]"

theorem one_key_iff_same_rules_witness:
  "key_of sample_quote (sample_request sample_rules by_path) = key_of sample_quote (sample_request (rev sample_rules) by_path)
   \<and> key_of sample_quote (sample_request sample_rules by_path) \<noteq> key_of sample_quote (sample_request (tl sample_rules) by_path)"
proof -
  have t: "q_table (rq_query (sample_request rs by_path)) \<noteq> ''sessions''" for rs by (simp add: sample_request_def by_path_def)
  show ?thesis unfolding one_key_iff_same_rules [OF sample_quotes t t]
    by (simp add: sample_request_def sample_rules_def event_parts_def)
qed

section \<open>No id set is left unfilled\<close>

text \<open>A filter, and those it reads, without ids to collect first.\<close>

fun no_ids :: "cfilter \<Rightarrow> bool" and all_no_ids :: "cfilter list \<Rightarrow> bool" where
  "no_ids (CFilter c None inner over ids t op strs str ints num) = (ids = None)"
| "no_ids (CFilter c (Some fs) inner over ids t op strs str ints num) = (ids = None \<and> all_no_ids fs)"
| "all_no_ids [] = True"
| "all_no_ids (f # fs) = (no_ids f \<and> all_no_ids fs)"

lemma all_no_ids_iff: "all_no_ids fs \<longleftrightarrow> (\<forall>f \<in> set fs. no_ids f)"
  by (induction fs) auto

lemma no_ids_plain: "compile_plain f path i = Inr c \<Longrightarrow> no_ids c"
  by (auto simp: compile_plain_def Let_def and_then_Inr split: if_splits)

lemma no_ids_one:
  "compile_from i path fs = Inr cs \<Longrightarrow> valid_any table p j fs = None \<Longrightarrow> all_no_ids cs"
  "compile_one i path f = Inr c \<Longrightarrow> valid_filter table p f = None \<Longrightarrow> rf_op f \<notin> {''ever'', ''never''} \<Longrightarrow> no_ids c"
proof (induction i path fs and i path f arbitrary: cs p j and c p rule: compile_from_compile_one.induct)
  case (2 i path f fs)
  then show ?case by (auto simp: and_then_Inr Let_def split: if_splits option.splits)
next
  case (3 i path column op vs cols any inner who over)
  have sets: "all_no_ids (map set_filter cs)" for cs by (auto simp: all_no_ids_iff set_filter_def)
  show ?case
    using 3 sets [of cols] by (auto simp: and_then_Inr Let_def dest: no_ids_plain split: if_splits option.splits)
qed simp

lemma no_ids_where:
  assumes "compile_filters fs path = Inr cs" "\<not> any_ever fs" "\<forall>i < length fs. \<exists>t p. valid_filter t p (fs ! i) = None"
  shows "\<forall>c \<in> set cs. no_ids c"
proof -
  have each: "compile_from i path fs = Inr cs \<Longrightarrow> \<not> any_ever fs \<Longrightarrow> \<forall>f \<in> set fs. \<exists>t p. valid_filter t p f = None \<Longrightarrow> \<forall>c \<in> set cs. no_ids c" for i
  proof (induction fs arbitrary: i cs)
    case (Cons f fs)
    obtain c cs' where c: "compile_one i path f = Inr c" "compile_from (i + 1) path fs = Inr cs'" "cs = c # cs'"
      using Cons.prems(1) by (auto simp: and_then_Inr)
    have "no_ids c" using no_ids_one(2) [OF c(1)] Cons.prems(2,3) by (auto simp: any_ever_def)
    moreover have "\<forall>c \<in> set cs'. no_ids c" using Cons.IH [OF c(2)] Cons.prems(2,3) by (auto simp: any_ever_def)
    ultimately show ?case by (simp add: c(3))
  qed simp
  have "\<forall>f \<in> set fs. \<exists>t p. valid_filter t p f = None" using assms(3) by (metis in_set_conv_nth)
  then show ?thesis by (rule each [OF assms(1) [unfolded compile_filters_def] assms(2)])
qed

lemma no_ids_metric:
  "valid_at kind table p side m = None \<Longrightarrow> compile_metric pth m = Inr ms \<Longrightarrow> \<not> metric_ever m \<Longrightarrow> \<forall>cs \<in> set (spec_wheres ms). \<forall>c \<in> set cs. no_ids c"
  "valid_side kind table p so = None \<Longrightarrow> so = Some m \<Longrightarrow> compile_metric pth m = Inr ms \<Longrightarrow> \<not> metric_ever m
    \<Longrightarrow> \<forall>cs \<in> set (spec_wheres ms). \<forall>c \<in> set cs. no_ids c"
proof (induction kind table p side m and kind table p so arbitrary: pth ms and m pth ms rule: valid_at_valid_side.induct)
  case (1 kind table p side op x column ofs named rnd wh num den)
  have known: "op \<in> set metric_ops" using 1(3) by (auto simp: Let_def split: if_splits)
  obtain cs where cs: "compile_filters wh (pth @ ''.where'') = Inr cs"
    using 1(4) by (cases "compile_filters wh (pth @ ''.where'')") (auto simp: Let_def)
  show ?case
  proof (cases "op = ''ratio''")
    case True
    then have "wh = []" and num: "valid_side kind table (p @ ''.num'') num = None" and den: "valid_side kind table (p @ ''.den'') den = None"
      using 1(3) known by (auto simp: Let_def split: if_splits option.splits)
    then have "cs = []" using cs by (simp add: compile_filters_def)
    obtain n d cn cd where nd: "num = Some n" "den = Some d" "compile_metric (pth @ ''.num'') n = Inr cn" "compile_metric (pth @ ''.den'') d = Inr cd"
        "ms = MetricSpec (Metric op x column ofs named rnd wh num den) cs (Some cn) (Some cd)"
      using 1(4) True cs by (auto simp: Let_def and_then_Inr split: option.splits)
    have "\<forall>cs \<in> set (spec_wheres cn). \<forall>c \<in> set cs. no_ids c" using 1(1) num True known \<open>wh = []\<close> nd 1(5) by auto
    moreover have "\<forall>cs \<in> set (spec_wheres cd). \<forall>c \<in> set cs. no_ids c" using 1(2) num den True known \<open>wh = []\<close> nd 1(5) by auto
    ultimately show ?thesis by (auto simp: nd(5) \<open>cs = []\<close>)
  next
    case False
    then have op: "valid_op kind table p (Metric op x column ofs named rnd wh num den) = None"
      using 1(3) known by (auto simp: Let_def split: if_splits option.splits)
    have ms: "ms = MetricSpec (Metric op x column ofs named rnd wh num den) cs None None"
      using 1(4) False cs by (simp add: Let_def)
    have valid: "\<forall>i < length wh. \<exists>t q. valid_filter t q (wh ! i) = None"
      using op unfolding valid_op_def Let_def first_refusal_Cons each_at_None metric.sel by blast
    have "\<not> any_ever wh" using 1(5) by simp
    from no_ids_where [OF cs this valid] show ?thesis by (simp add: ms)
  qed
next
  case (3 kind table sp s)
  then show ?case by (auto split: option.splits)
qed simp

definition scan_filters :: "query_scan \<Rightarrow> cfilter list" where
  "scan_filters s = qs_filters s @ concat (concat (map spec_wheres (qs_metrics s))) @ concat (concat (map dn_cases (qs_defs s)))"

lemma each_compiled_nth: "each_compiled f k xs = Inr ys \<Longrightarrow> y \<in> set ys \<Longrightarrow> \<exists>i < length xs. f (k + i) (xs ! i) = Inr y"
proof (induction xs arbitrary: k ys)
  case (Cons x xs)
  obtain y' ys' where y': "f k x = Inr y'" "each_compiled f (k + 1) xs = Inr ys'" "ys = y' # ys'" using Cons.prems(1) by (auto simp: and_then_Inr)
  then consider "y = y'" | "y \<in> set ys'" using Cons.prems(2) by auto
  then show ?case
  proof cases
    case 2
    from Cons.IH [OF y'(2) this] obtain i where "i < length xs" "f (k + 1 + i) (xs ! i) = Inr y" by blast
    then show ?thesis by (intro exI [of _ "Suc i"]) simp
  qed (use y' in force)
qed simp

lemma compile_query_parts:
  assumes "compile_query show den_first q from to = Inr s"
  shows "compile_filters (q_where q) ''where'' = Inr (qs_filters s)" "each_compiled compile_define 0 (q_define q) = Inr (qs_defs s)"
    and "each_compiled (\<lambda>i m. compile_metric (at_index ''metrics'' i []) m) 0 (q_metrics q) = Inr (qs_metrics s)"
  using assms by (auto simp: compile_query_def and_then_Inr bad_filter_Inr split: if_splits option.splits)

text \<open>
  C20: A query prepared for a shared scan, or any that is not answered alone, reads no id set of an
  ever or a never, in its filters, its metrics' and its defined columns': the scan that collects the ids
  first, which a shared scan does not make, is never missed.
\<close>

theorem shared_query_no_ids:
  assumes "prepare L den_first e i r = Inr p" "\<not> alone (rq_query r)" "f \<in> set (scan_filters (pr_scan p))"
  shows "no_ids f"
proof -
  let ?q = "rq_query r" and ?s = "pr_scan p"
  have s: "compile_query (lb_show L) den_first ?q (rq_from r) (rq_to r) = Inr ?s"
    using assms(1) by (auto simp: prepare_def Let_def and_then_Inr)
  then have valid: "validate (lb_show L) den_first ?q = None" by (auto simp: compile_query_def split: option.splits)
  have parts: "compile_filters (q_where ?q) ''where'' = Inr (qs_filters ?s)" "each_compiled compile_define 0 (q_define ?q) = Inr (qs_defs ?s)"
      "each_compiled (\<lambda>i m. compile_metric (at_index ''metrics'' i []) m) 0 (q_metrics ?q) = Inr (qs_metrics ?s)"
    by (rule compile_query_parts [OF s])+
  have "q_kind ?q \<in> set kinds" using validate_parts(1) [OF valid] .
  then have "q_kind ?q \<in> {''stat'', ''trend'', ''breakdown''}" using assms(2) by (auto simp: kinds_def alone_def)
  then have agg: "valid_aggregate (lb_show L) ?q = None" and defs: "valid_defines den_first ?q = None" using validate_parts [OF valid] by auto
  have ever: "\<not> any_ever (q_where ?q)" "\<forall>m \<in> set (q_metrics ?q). \<not> metric_ever m" using assms(2) by (auto simp: alone_def has_ever_def)
  from assms(3) consider "f \<in> set (qs_filters ?s)"
    | m cs where "m \<in> set (qs_metrics ?s)" "cs \<in> set (spec_wheres m)" "f \<in> set cs"
    | d cs where "d \<in> set (qs_defs ?s)" "cs \<in> set (dn_cases d)" "f \<in> set cs" by (auto simp: scan_filters_def)
  then show ?thesis
  proof cases
    case 1
    have "\<forall>i < length (q_where ?q). \<exists>t p. valid_filter t p (q_where ?q ! i) = None"
      using agg unfolding valid_aggregate_def valid_where_def Let_def first_refusal_Cons each_at_None by blast
    from no_ids_where [OF parts(1) ever(1) this] 1 show ?thesis by blast
  next
    case 2
    from each_compiled_nth [OF parts(3) 2(1)] obtain i where i: "i < length (q_metrics ?q)" "compile_metric (at_index ''metrics'' (0 + i) []) (q_metrics ?q ! i) = Inr m" by blast
    have "valid_metric (q_kind ?q) (q_table ?q) i (q_metrics ?q ! i) = None"
      using agg i(1) unfolding valid_aggregate_def Let_def first_refusal_Cons each_at_None by simp
    from no_ids_metric(1) [OF this [unfolded valid_metric_def] i(2)] ever(2) i(1) 2 show ?thesis by auto
  next
    case 3
    from each_compiled_nth [OF parts(2) 3(1)] obtain i where i: "i < length (q_define ?q)" "compile_define (0 + i) (q_define ?q ! i) = Inr d" by blast
    let ?cases = "df_cases (q_define ?q ! i)"
    obtain css where css: "each_compiled (\<lambda>j c. bad_filter (compile_filters (dc_where c) (at_index (at_index ''define'' (0 + i) ''.cases'') j ''.where''))) 0 ?cases = Inr css"
        "dn_cases d = css" using i(2) by (auto simp: compile_define_def and_then_Inr)
    from each_compiled_nth [OF css(1)] 3(2) css(2) obtain j where j: "j < length ?cases"
        "bad_filter (compile_filters (dc_where (?cases ! j)) (at_index (at_index ''define'' (0 + i) ''.cases'') (0 + j) ''.where'')) = Inr cs" by blast
    then have cf: "compile_filters (dc_where (?cases ! j)) (at_index (at_index ''define'' (0 + i) ''.cases'') (0 + j) ''.where'') = Inr cs"
    unfolding bad_filter_Inr by simp
    have vc: "valid_case (q_table ?q) (at_index (at_index ''define'' i [] @ ''.cases'') j []) (?cases ! j) = None"
      using defs i(1) j(1) unfolding valid_defines_def Let_def by simp
    then have "\<forall>k < length (dc_where (?cases ! j)). \<exists>t p. valid_filter t p (dc_where (?cases ! j) ! k) = None"
      unfolding valid_case_def Let_def first_refusal_Cons each_at_None by blast
    moreover have "\<not> any_ever (dc_where (?cases ! j))"
      using vc unfolding valid_case_def Let_def first_refusal_Cons each_at_None refuse_None any_ever_def by (metis in_set_conv_nth)
    ultimately show ?thesis using no_ids_where [OF cf] 3(3) by blast
  qed
qed

theorem shared_query_no_ids_witness:
  "\<exists>p. prepare sample_lib (\<lambda>_. False) \<lparr>eb_workers = 2, eb_groups = 100, eb_bytes = 1000\<rparr> 0 (sample_request [] by_path) = Inr p
     \<and> no_ids (CFilter ''consent'' None [] [] None TypeInt ''in'' [] [] [0, 1] 1)"
proof -
  let ?e = "\<lparr>eb_workers = 2, eb_groups = 100, eb_bytes = 1000\<rparr>"
  have "case prepare sample_lib (\<lambda>_. False) ?e 0 (sample_request [] by_path) of Inr p \<Rightarrow>
      hd (scan_filters (pr_scan p)) = CFilter ''consent'' None [] [] None TypeInt ''in'' [] [] [0, 1] 1 \<and> scan_filters (pr_scan p) \<noteq> [] | Inl x \<Rightarrow> False" by code_simp
  then obtain p where p: "prepare sample_lib (\<lambda>_. False) ?e 0 (sample_request [] by_path) = Inr p"
    "CFilter ''consent'' None [] [] None TypeInt ''in'' [] [] [0, 1] 1 \<in> set (scan_filters (pr_scan p))"
    by (auto split: sum.splits) (metis hd_in_set)
  have "\<not> alone (rq_query (sample_request [] by_path))" by code_simp
  from shared_query_no_ids [OF p(1) this p(2)] p(1) show ?thesis by blast
qed

theorem requests_split_witness:
  "\<exists>c scans. scans_of sample_lib (\<lambda>_. False) \<lparr>eb_workers = 2, eb_groups = 100, eb_bytes = 1000\<rparr> 2
       [sample_request [] (by_path\<lparr>q_kind := ''paths''\<rparr>), sample_request [] by_path, sample_request sample_rules by_path, sample_request [] by_path] = (c, scans)
     \<and> sc_alone c = [0] \<and> map (\<lambda>(k, ps, hv). map pr_index ps) scans = [[1, 3], [2]]
     \<and> mset (sc_alone c) + mset (map fst (sc_refused c)) + mset (concat (map (\<lambda>(k, ps, hv). map pr_index ps) scans)) = mset [0, 1, 2, 3]"
proof -
  let ?e = "\<lparr>eb_workers = 2, eb_groups = 100, eb_bytes = 1000\<rparr>"
  let ?rs = "[sample_request [] (by_path\<lparr>q_kind := ''paths''\<rparr>), sample_request [] by_path, sample_request sample_rules by_path, sample_request [] by_path]"
  obtain c scans where c: "scans_of sample_lib (\<lambda>_. False) ?e 2 ?rs = (c, scans)" by fastforce
  have "case scans_of sample_lib (\<lambda>_. False) ?e 2 ?rs of (c, scans) \<Rightarrow> sc_alone c = [0] \<and> map (\<lambda>(k, ps, hv). map pr_index ps) scans = [[1, 3], [2]]"
    by code_simp
  then have parts: "sc_alone c = [0]" "map (\<lambda>(k, ps, hv). map pr_index ps) scans = [[1, 3], [2]]" unfolding c by auto
  have "mset (sc_alone c) + mset (map fst (sc_refused c)) + mset (concat (map (\<lambda>(k, ps, hv). map pr_index ps) scans)) = mset [0, 1, 2, 3]"
    using conjunct1 [OF requests_split [OF c]] by (simp add: upt_rec numeral_eq_Suc)
  with c parts show ?thesis by (intro exI [of _ c] exI [of _ scans] conjI)
qed

end
