(* ===== verification/ScanPool.thy ===== *)
theory ScanPool
  imports Prelude
begin

text \<open>
  The workers of a scan (\<^verbatim>\<open>scanParallel\<close> of \<^verbatim>\<open>internal/native/scan.go\<close>): a
  goroutine offers the work items, in order, on a channel without buffer; each worker takes one, looks
  whether the scan failed or its context ended, and reads it. The first error closes a channel that stops
  the others. The steps interleave at every channel operation, and a context may end at any moment. Shown:
  a scan without error has read each item once, no item is read twice, and the scan always returns.
\<close>

section \<open>The steps\<close>

text \<open>
  The goroutine that offers: before its look at the context, in its \<open>select\<close> with an item, waiting for
  the workers after closing the channel, or returned. A worker: waiting for an item, with an item before its
  own \<open>select\<close>, reading it, or ended. Items are their indices.
\<close>

datatype pool_feed = Looks nat | Offers nat | Awaits | Answers
datatype pool_worker = Free | Took nat | Reads nat | Ends

text \<open>
  \<open>sp_error\<close> is \<open>firstErr\<close>: the channel that stops the workers is closed with the first. \<open>sp_read\<close> lists the
  reads that ended well, the last first, with their workers.
\<close>

record 'e pool =
  sp_items :: nat
  sp_feed :: pool_feed
  sp_workers :: "pool_worker list"
  sp_error :: "'e option"
  sp_ctx :: "'e option"
  sp_read :: "(nat \<times> nat) list"

definition pool_size :: "nat \<Rightarrow> int \<Rightarrow> nat" where
  "pool_size items workers = nat (max 1 (min workers (int items)))"

definition new_pool :: "nat \<Rightarrow> int \<Rightarrow> 'e pool" where
  "new_pool items workers = \<lparr>sp_items = items, sp_feed = (if items = 0 then Answers else Looks 0),
     sp_workers = (if items = 0 then [] else replicate (pool_size items workers) Free), sp_error = None, sp_ctx = None, sp_read = []\<rparr>"

text \<open>\<open>fail\<close>: the first error is kept.\<close>

definition pool_fail :: "'e \<Rightarrow> 'e pool \<Rightarrow> 'e pool" where
  "pool_fail e p = (case sp_error p of None \<Rightarrow> p\<lparr>sp_error := Some e\<rparr> | Some x \<Rightarrow> p)"

definition set_worker :: "nat \<Rightarrow> pool_worker \<Rightarrow> 'e pool \<Rightarrow> 'e pool" where
  "set_worker w x p = p\<lparr>sp_workers := (sp_workers p)[w := x]\<rparr>"

text \<open>The offering goroutine's look at the context before item \<open>k\<close>, and after the last item.\<close>

definition pool_next :: "nat \<Rightarrow> 'e pool \<Rightarrow> 'e pool" where
  "pool_next k p = (if k < sp_items p then
       (case sp_ctx p of Some e \<Rightarrow> (pool_fail e p)\<lparr>sp_feed := Awaits\<rparr> | None \<Rightarrow> p\<lparr>sp_feed := Offers k\<rparr>)
     else p\<lparr>sp_feed := Awaits\<rparr>)"

inductive pool_step :: "'e pool \<Rightarrow> 'e pool \<Rightarrow> bool" where
  looks: "sp_feed p = Looks k \<Longrightarrow> pool_step p (pool_next k p)"
| sends: "sp_feed p = Offers k \<Longrightarrow> w < length (sp_workers p) \<Longrightarrow> sp_workers p ! w = Free
    \<Longrightarrow> pool_step p ((set_worker w (Took k) p)\<lparr>sp_feed := Looks (Suc k)\<rparr>)"
| stops: "sp_feed p = Offers k \<Longrightarrow> sp_error p \<noteq> None \<Longrightarrow> pool_step p (p\<lparr>sp_feed := Awaits\<rparr>)"
| ctx_stops: "sp_feed p = Offers k \<Longrightarrow> sp_ctx p = Some e \<Longrightarrow> pool_step p ((pool_fail e p)\<lparr>sp_feed := Awaits\<rparr>)"
| worker_stops: "w < length (sp_workers p) \<Longrightarrow> sp_workers p ! w = Took k \<Longrightarrow> sp_error p \<noteq> None \<Longrightarrow> pool_step p (set_worker w Ends p)"
| worker_ctx: "w < length (sp_workers p) \<Longrightarrow> sp_workers p ! w = Took k \<Longrightarrow> sp_ctx p = Some e \<Longrightarrow> pool_step p (set_worker w Ends (pool_fail e p))"
| worker_reads: "w < length (sp_workers p) \<Longrightarrow> sp_workers p ! w = Took k \<Longrightarrow> sp_error p = None \<Longrightarrow> sp_ctx p = None
    \<Longrightarrow> pool_step p (set_worker w (Reads k) p)"
| read_well: "w < length (sp_workers p) \<Longrightarrow> sp_workers p ! w = Reads k
    \<Longrightarrow> pool_step p ((set_worker w Free p)\<lparr>sp_read := (w, k) # sp_read p\<rparr>)"
| read_fails: "w < length (sp_workers p) \<Longrightarrow> sp_workers p ! w = Reads k \<Longrightarrow> pool_step p (set_worker w Ends (pool_fail e p))"
| worker_ends: "w < length (sp_workers p) \<Longrightarrow> sp_workers p ! w = Free \<Longrightarrow> sp_feed p = Awaits \<Longrightarrow> pool_step p (set_worker w Ends p)"
| answers: "sp_feed p = Awaits \<Longrightarrow> \<forall>x \<in> set (sp_workers p). x = Ends \<Longrightarrow> pool_step p (p\<lparr>sp_feed := Answers\<rparr>)"

text \<open>The context ends.\<close>

definition ctx_ends :: "'e \<Rightarrow> 'e pool \<Rightarrow> 'e pool" where
  "ctx_ends e p = (case sp_ctx p of None \<Rightarrow> p\<lparr>sp_ctx := Some e\<rparr> | Some x \<Rightarrow> p)"

inductive pool_reach :: "nat \<Rightarrow> int \<Rightarrow> 'e pool \<Rightarrow> bool" for items workers where
  start: "pool_reach items workers (new_pool items workers)"
| step: "pool_reach items workers p \<Longrightarrow> pool_step p p' \<Longrightarrow> pool_reach items workers p'"
| ctx: "pool_reach items workers p \<Longrightarrow> pool_reach items workers (ctx_ends e p)"

section \<open>The invariant\<close>

text \<open>The items taken by workers that still have them, and those offered so far.\<close>

definition in_work :: "pool_worker \<Rightarrow> nat list" where
  "in_work x = (case x of Took k \<Rightarrow> [k] | Reads k \<Rightarrow> [k] | _ \<Rightarrow> [])"

definition works :: "pool_worker list \<Rightarrow> nat multiset" where
  "works ws = mset (concat (map in_work ws))"

definition offered :: "'e pool \<Rightarrow> nat" where
  "offered p = (case sp_feed p of Looks k \<Rightarrow> k | Offers k \<Rightarrow> k | _ \<Rightarrow> sp_items p)"

definition places :: "'e pool \<Rightarrow> nat multiset" where
  "places p = mset (map snd (sp_read p)) + works (sp_workers p)"

definition items_to :: "nat \<Rightarrow> nat multiset" where
  "items_to k = mset [0..<k]"

text \<open>
  While there is no error no item taken is lost, and no worker has ended before the channel is closed;
  with one, each item is still in at most one place.
\<close>

definition pool_ok :: "'e pool \<Rightarrow> bool" where
  "pool_ok p \<longleftrightarrow> offered p \<le> sp_items p \<and> (\<forall>k. sp_feed p = Offers k \<longrightarrow> k < sp_items p)
     \<and> places p \<subseteq># items_to (offered p)
     \<and> (sp_error p = None \<longrightarrow> places p = items_to (offered p))
     \<and> (sp_error p = None \<and> sp_feed p \<noteq> Awaits \<and> sp_feed p \<noteq> Answers \<longrightarrow> Ends \<notin> set (sp_workers p))
     \<and> (sp_feed p = Answers \<longrightarrow> (\<forall>x \<in> set (sp_workers p). x = Ends))
     \<and> (0 < sp_items p \<longrightarrow> sp_workers p \<noteq> [])"

lemma works_update:
  assumes "w < length ws"
  shows "works (ws[w := x]) + mset (in_work (ws ! w)) = works ws + mset (in_work x)"
proof -
  have "mset (ws[w := x]) + {#ws ! w#} = mset ws + {#x#}" using assms by (simp add: mset_update)
  then have "image_mset (\<lambda>x. mset (in_work x)) (mset (ws[w := x]) + {#ws ! w#}) = image_mset (\<lambda>x. mset (in_work x)) (mset ws + {#x#})" by simp
  then have "\<Sum>\<^sub># (image_mset (\<lambda>x. mset (in_work x)) (mset (ws[w := x]) + {#ws ! w#})) = \<Sum>\<^sub># (image_mset (\<lambda>x. mset (in_work x)) (mset ws + {#x#}))" by simp
  moreover have "works ys = \<Sum>\<^sub># (image_mset (\<lambda>x. mset (in_work x)) (mset ys))" for ys
    by (induction ys) (simp_all add: works_def)
  ultimately show ?thesis by (simp add: add.commute)
qed

lemma upt_part: "k \<le> n \<Longrightarrow> items_to k \<subseteq># items_to n"
  unfolding items_to_def using upt_add_eq_append [of 0 k "n - k"] by (metis le0 le_add_diff_inverse mset_append mset_subset_eq_add_left)

lemma fail_simps [simp]:
  "sp_feed (pool_fail e p) = sp_feed p" "sp_items (pool_fail e p) = sp_items p" "sp_workers (pool_fail e p) = sp_workers p"
  "sp_read (pool_fail e p) = sp_read p" "sp_ctx (pool_fail e p) = sp_ctx p" "sp_error (pool_fail e p) \<noteq> None"
  by (auto simp: pool_fail_def split: option.splits)

lemma set_worker_simps [simp]:
  "sp_feed (set_worker w x p) = sp_feed p" "sp_items (set_worker w x p) = sp_items p" "sp_error (set_worker w x p) = sp_error p"
  "sp_read (set_worker w x p) = sp_read p" "sp_ctx (set_worker w x p) = sp_ctx p" "sp_workers (set_worker w x p) = (sp_workers p)[w := x]"
  by (simp_all add: set_worker_def)

lemma pool_okD:
  assumes "pool_ok p"
  shows "offered p \<le> sp_items p" "sp_feed p = Offers k \<Longrightarrow> k < sp_items p"
    "places p \<subseteq># items_to (offered p)"
    "sp_error p = None \<Longrightarrow> places p = items_to (offered p)"
    "sp_error p = None \<Longrightarrow> sp_feed p \<noteq> Awaits \<Longrightarrow> sp_feed p \<noteq> Answers \<Longrightarrow> Ends \<notin> set (sp_workers p)"
    "sp_feed p = Answers \<Longrightarrow> (\<forall>x \<in> set (sp_workers p). x = Ends)" "0 < sp_items p \<Longrightarrow> sp_workers p \<noteq> []"
  using assms unfolding pool_ok_def by blast+

text \<open>A worker that ends, whatever it had, after an error, keeps the invariant.\<close>

lemma pool_okI:
  assumes "offered q \<le> sp_items q" "\<forall>k. sp_feed q = Offers k \<longrightarrow> k < sp_items q" "places q \<subseteq># items_to (offered q)"
    "sp_error q = None \<Longrightarrow> places q = items_to (offered q)"
    "sp_error q = None \<Longrightarrow> sp_feed q \<noteq> Awaits \<Longrightarrow> sp_feed q \<noteq> Answers \<Longrightarrow> Ends \<notin> set (sp_workers q)"
    "sp_feed q = Answers \<Longrightarrow> \<forall>x \<in> set (sp_workers q). x = Ends" "0 < sp_items q \<Longrightarrow> sp_workers q \<noteq> []"
  shows "pool_ok q"
  using assms unfolding pool_ok_def by blast

lemma places_update:
  "w < length (sp_workers p) \<Longrightarrow> sp_workers q = (sp_workers p)[w := x] \<Longrightarrow> sp_read q = sp_read p
   \<Longrightarrow> places q + mset (in_work (sp_workers p ! w)) = places p + mset (in_work x)"
  using works_update [of w "sp_workers p" x] by (simp add: places_def ac_simps)

lemma worker_gives_up:
  assumes "pool_ok p" "w < length (sp_workers p)" "sp_workers p ! w \<noteq> Ends" "sp_error q \<noteq> None"
    "sp_items q = sp_items p" "sp_feed q = sp_feed p" "sp_read q = sp_read p" "sp_workers q = (sp_workers p)[w := Ends]"
  shows "pool_ok q"
proof (rule pool_okI)
  note p = pool_okD [OF assms(1)]
  have o: "offered q = offered p" using assms(5,6) by (simp add: offered_def split: pool_feed.split)
  have "places q + mset (in_work (sp_workers p ! w)) = places p"
    using places_update [OF assms(2,8,7)] by (simp add: in_work_def)
  then have "places q \<subseteq># places p" by (metis mset_subset_eq_add_left)
  then show "places q \<subseteq># items_to (offered q)" unfolding o using p(3) by (rule subset_mset.order_trans)
  show "\<forall>x \<in> set (sp_workers q). x = Ends" if "sp_feed q = Answers"
    using p(6) that assms(2,3,6) by (metis nth_mem)
  show "offered q \<le> sp_items q" unfolding o using p(1) assms(5) by simp
qed (use pool_okD [OF assms(1)] assms in auto)

lemma worker_moves:
  assumes "pool_ok p" "w < length (sp_workers p)" "x \<noteq> Ends" "sp_workers p ! w \<noteq> Ends" "places q = places p"
    "sp_items q = sp_items p" "sp_feed q = sp_feed p" "sp_error q = sp_error p" "sp_workers q = (sp_workers p)[w := x]"
  shows "pool_ok q"
proof (rule pool_okI)
  note p = pool_okD [OF assms(1)]
  have o: "offered q = offered p" using assms(6,7) by (simp add: offered_def split: pool_feed.split)
  show "offered q \<le> sp_items q" "places q \<subseteq># items_to (offered q)" unfolding o using p(1,3) assms(5,6) by simp_all
  show "places q = items_to (offered q)" if "sp_error q = None" unfolding o using p(4) assms(5,8) that by simp
  show "\<forall>x \<in> set (sp_workers q). x = Ends" if "sp_feed q = Answers" using p(6) that assms(2,4,7) by (metis nth_mem)
  show "Ends \<notin> set (sp_workers q)" if "sp_error q = None" "sp_feed q \<noteq> Awaits" "sp_feed q \<noteq> Answers"
    using p(5) that assms(3,7,8,9) set_update_subset_insert [of "sp_workers p" w x] by auto
qed (use pool_okD [OF assms(1)] assms in auto)

lemma pool_step_ok:
  assumes "pool_step p p'" "pool_ok p"
  shows "pool_ok p'"
  using assms(1)
proof cases
  case (looks k)
  note p = pool_okD [OF assms(2)]
  have k: "offered p = k" using looks by (simp add: offered_def)
  consider (item) "k < sp_items p" "sp_ctx p = None" | (ctx) e where "k < sp_items p" "sp_ctx p = Some e" | (over) "\<not> k < sp_items p"
    by (cases "sp_ctx p") auto
  then show ?thesis
  proof cases
    case ctx
    then have "places p \<subseteq># items_to (sp_items p)" using subset_mset.order_trans [OF p(3) upt_part] p(1) by simp
    then show ?thesis using p looks ctx
      by (intro pool_okI) (auto simp: pool_next_def offered_def places_def)
  next
    case item
    then show ?thesis using p looks k by (intro pool_okI) (auto simp: pool_next_def offered_def places_def)
  next
    case over
    then have "k = sp_items p" using p(1) k by simp
    then show ?thesis using p looks k by (intro pool_okI) (auto simp: pool_next_def offered_def places_def)
  qed
next
  case (sends k w)
  note p = pool_okD [OF assms(2)]
  have k: "offered p = k" "k < sp_items p" "offered p' = Suc k" "sp_items p' = sp_items p" "sp_read p' = sp_read p"
      "sp_error p' = sp_error p" "sp_feed p' = Looks (Suc k)" using sends p(2) by (auto simp: offered_def)
  have ws: "sp_workers p' = (sp_workers p)[w := Took k]" using sends by simp
  have w: "places p' = add_mset k (places p)" "items_to (Suc k) = add_mset k (items_to k)"
    using places_update [OF sends(3) ws k(5)] sends by (simp_all add: in_work_def items_to_def)
  have "Ends \<notin> set (sp_workers p')" if "Ends \<notin> set (sp_workers p)"
    using that ws set_update_subset_insert [of "sp_workers p" w "Took k"] by auto
  then show ?thesis using p k w sends(2) ws by (intro pool_okI) auto
next
  case (stops k)
  note p = pool_okD [OF assms(2)]
  have "places p \<subseteq># items_to (sp_items p)" using subset_mset.order_trans [OF p(3) upt_part] p(1) by simp
  then show ?thesis using p stops by (intro pool_okI) (auto simp: offered_def places_def)
next
  case (ctx_stops k e)
  note p = pool_okD [OF assms(2)]
  have "places p \<subseteq># items_to (sp_items p)" using subset_mset.order_trans [OF p(3) upt_part] p(1) by simp
  then show ?thesis using p ctx_stops by (intro pool_okI) (auto simp: offered_def places_def)
next
  case (worker_stops w k)
  then show ?thesis by (intro worker_gives_up [OF assms(2)]) auto
next
  case (worker_ctx w k e)
  then show ?thesis by (intro worker_gives_up [OF assms(2), of w]) auto
next
  case (worker_reads w k)
  have "places p' = places p" using places_update [of w p p' "Reads k"] worker_reads by (simp add: in_work_def)
  with worker_reads show ?thesis by (intro worker_moves [OF assms(2), of w "Reads k"]) auto
next
  case (read_well w k)
  have "places (set_worker w Free p) + {#k#} = places p"
    using places_update [of w p "set_worker w Free p" Free] read_well by (simp add: in_work_def)
  then have "places p' = places p" using read_well by (simp add: places_def)
  with read_well show ?thesis by (intro worker_moves [OF assms(2), of w Free]) auto
next
  case (read_fails w k e)
  then show ?thesis by (intro worker_gives_up [OF assms(2), of w]) auto
next
  case (worker_ends w)
  note p = pool_okD [OF assms(2)]
  have "places p' = places p" using places_update [of w p p' Ends] worker_ends by (simp add: in_work_def)
  then show ?thesis using p worker_ends by (intro pool_okI) (auto simp: offered_def)
next
  case answers
  then show ?thesis using pool_okD [OF assms(2)] by (intro pool_okI) (auto simp: offered_def places_def)
qed

lemma ctx_ends_fields:
  "sp_feed (ctx_ends e p) = sp_feed p" "sp_items (ctx_ends e p) = sp_items p" "sp_error (ctx_ends e p) = sp_error p"
  "sp_read (ctx_ends e p) = sp_read p" "sp_workers (ctx_ends e p) = sp_workers p"
  by (simp_all add: ctx_ends_def split: option.split)

lemma pool_reach_ok: "pool_reach items workers p \<Longrightarrow> pool_ok p \<and> sp_items p = items"
proof (induction rule: pool_reach.induct)
  case start
  have "works (replicate n Free) = {#}" for n by (induction n) (simp_all add: works_def in_work_def)
  then show ?case by (simp add: new_pool_def pool_ok_def offered_def places_def items_to_def pool_size_def works_def in_work_def)
next
  case (step p p')
  from step.hyps(2) have "sp_items p' = sp_items p" by cases (auto simp: pool_next_def split: option.splits)
  with step.IH pool_step_ok [OF step.hyps(2)] show ?case by simp
next
  case (ctx p e)
  have "pool_ok (ctx_ends e p) = pool_ok p" by (simp only: pool_ok_def offered_def places_def ctx_ends_fields)
  with ctx.IH show ?case by (simp only: ctx_ends_fields)
qed

section \<open>How long it goes on\<close>

definition worker_left :: "pool_worker \<Rightarrow> nat" where
  "worker_left x = (case x of Free \<Rightarrow> 1 | Took k \<Rightarrow> 3 | Reads k \<Rightarrow> 2 | Ends \<Rightarrow> 0)"

definition pool_left :: "'e pool \<Rightarrow> nat" where
  "pool_left p = sum_list (map worker_left (sp_workers p))
     + (case sp_feed p of Looks k \<Rightarrow> 4 * (sp_items p - k) + 2 | Offers k \<Rightarrow> 4 * (sp_items p - k) + 1 | Awaits \<Rightarrow> 1 | Answers \<Rightarrow> 0)"

lemma sum_list_set: "w < length ws \<Longrightarrow> sum_list (map f (ws[w := x])) + f (ws ! w) = sum_list (map f ws) + (f x :: nat)"
  by (induction ws arbitrary: w) (auto split: nat.split simp: nth_Cons' ac_simps)

lemmas left_update = sum_list_set [where f = worker_left]

lemma pool_step_less:
  assumes "pool_step p p'" "pool_ok p"
  shows "pool_left p' < pool_left p"
  using assms(1)
proof cases
  case (looks k)
  then show ?thesis using pool_okD(1) [OF assms(2)] by (auto simp: pool_left_def pool_next_def offered_def split: option.splits)
next
  case (sends k w)
  then show ?thesis using pool_okD(2) [OF assms(2)] left_update [OF sends(3), of "Took k"] by (auto simp: pool_left_def worker_left_def)
next
  case (worker_stops w k)
  then show ?thesis using left_update [of w "sp_workers p" Ends] by (auto simp: pool_left_def worker_left_def split: pool_feed.split)
next
  case (worker_ctx w k e)
  then show ?thesis using left_update [of w "sp_workers p" Ends] by (auto simp: pool_left_def worker_left_def split: pool_feed.split)
next
  case (worker_reads w k)
  then show ?thesis using left_update [of w "sp_workers p" "Reads k"] by (auto simp: pool_left_def worker_left_def split: pool_feed.split)
next
  case (read_well w k)
  then show ?thesis using left_update [of w "sp_workers p" Free] by (auto simp: pool_left_def worker_left_def split: pool_feed.split)
next
  case (read_fails w k e)
  then show ?thesis using left_update [of w "sp_workers p" Ends] by (auto simp: pool_left_def worker_left_def split: pool_feed.split)
next
  case (worker_ends w)
  then show ?thesis using left_update [of w "sp_workers p" Ends] by (auto simp: pool_left_def worker_left_def split: pool_feed.split)
next
  case (stops k)
  then show ?thesis using pool_okD(2) [OF assms(2)] by (auto simp: pool_left_def)
next
  case (ctx_stops k e)
  then show ?thesis using pool_okD(2) [OF assms(2)] by (auto simp: pool_left_def)
qed (auto simp: pool_left_def)

text \<open>A worker that has not ended can go on, unless it waits for an item still to come.\<close>

lemma worker_can_go:
  assumes "w < length (sp_workers p)" "sp_workers p ! w \<noteq> Ends" "sp_workers p ! w = Free \<Longrightarrow> sp_feed p = Awaits \<or> (\<exists>k. sp_feed p = Offers k)"
  shows "\<exists>p'. pool_step p p'"
proof (cases "sp_workers p ! w")
  case Free
  with assms show ?thesis using pool_step.worker_ends [of w p] pool_step.sends [of p _ w] by blast
next
  case (Took k)
  consider "sp_error p \<noteq> None" | e where "sp_ctx p = Some e" | "sp_error p = None" "sp_ctx p = None" by blast
  then show ?thesis
  proof cases
    case 1
    from pool_step.worker_stops [OF assms(1) Took this] show ?thesis by blast
  next
    case 2
    from pool_step.worker_ctx [OF assms(1) Took this] show ?thesis by blast
  next
    case 3
    from pool_step.worker_reads [OF assms(1) Took this] show ?thesis by blast
  qed
next
  case (Reads k)
  from pool_step.read_well [OF assms(1) this] show ?thesis by blast
qed (use assms in simp)

lemma pool_can_go:
  assumes "pool_ok p" "sp_feed p \<noteq> Answers"
  shows "\<exists>p'. pool_step p p'"
proof (cases "sp_feed p")
  case (Looks k)
  from pool_step.looks [OF this] show ?thesis by blast
next
  case (Offers k)
  show ?thesis
  proof (cases "sp_error p = None")
    case True
    with pool_okD(5,7) [OF assms(1)] pool_okD(2) [OF assms(1) Offers] Offers have "0 < length (sp_workers p)" "Ends \<notin> set (sp_workers p)" by auto
    with Offers show ?thesis by (intro worker_can_go [of 0]) (use nth_mem in force)+
  next
    case False
    from pool_step.stops [OF Offers this] show ?thesis by blast
  qed
next
  case Awaits
  show ?thesis
  proof (cases "\<forall>x \<in> set (sp_workers p). x = Ends")
    case True
    from pool_step.answers [OF Awaits this] show ?thesis by blast
  next
    case False
    then obtain w where "w < length (sp_workers p)" "sp_workers p ! w \<noteq> Ends" by (auto simp: in_set_conv_nth)
    with Awaits show ?thesis by (intro worker_can_go [of w]) auto
  qed
qed (use assms in simp)

section \<open>Properties\<close>

text \<open>
  C13: Whatever the interleaving, and whenever the context ends: no item is read to its end twice, and
  none that is not an item; and when the scan returns without an error, each item has been read, once, by
  one worker.
\<close>

theorem pool_reads_once:
  assumes "pool_reach items workers p"
  shows "distinct (map snd (sp_read p)) \<and> set (map snd (sp_read p)) \<subseteq> {..<items}
    \<and> (sp_feed p = Answers \<and> sp_error p = None \<longrightarrow> mset (map snd (sp_read p)) = mset [0..<items])"
proof -
  have ok: "pool_ok p" "sp_items p = items" using pool_reach_ok [OF assms] by auto
  note p = pool_okD [OF ok(1)]
  have "mset (map snd (sp_read p)) \<subseteq># places p" by (simp add: places_def)
  also have "\<dots> \<subseteq># items_to items" using subset_mset.order_trans [OF p(3) upt_part] p(1) ok(2) by simp
  finally have sub: "mset (map snd (sp_read p)) \<subseteq># mset [0..<items]" by (simp add: items_to_def)
  have "distinct (map snd (sp_read p))"
  proof -
    obtain rest where "mset [0..<items] = mset (map snd (sp_read p)) + mset rest" using sub by (metis ex_mset subset_mset.le_iff_add)
    then have "mset (map snd (sp_read p) @ rest) = mset [0..<items]" by simp
    then have "distinct (map snd (sp_read p) @ rest)" by (metis distinct_upt mset_eq_imp_distinct_iff)
    then show ?thesis by simp
  qed
  moreover have "set (map snd (sp_read p)) \<subseteq> {..<items}" using set_mset_mono [OF sub] by auto
  moreover have "mset (map snd (sp_read p)) = mset [0..<items]" if "sp_feed p = Answers" "sp_error p = None"
  proof -
    have "works (sp_workers p) = {#}" using p(6) [OF that(1)] by (auto simp: works_def in_work_def)
    then show ?thesis using p(4) that ok(2) by (simp add: places_def offered_def items_to_def)
  qed
  ultimately show ?thesis by blast
qed

text \<open>
  C17: The scan always returns: from any moment on, at most so many steps follow, however the context
  and the reads end; and until it has returned, some step can be made, without waiting for the context.
\<close>

theorem pool_returns:
  assumes "pool_reach items workers p"
  shows "((pool_step ^^ k) p p' \<longrightarrow> k \<le> pool_left p) \<and> (sp_feed p \<noteq> Answers \<longrightarrow> (\<exists>p'. pool_step p p'))"
proof (intro conjI impI)
  have ok: "pool_ok p" using pool_reach_ok [OF assms] by auto
  have "pool_ok p' \<and> pool_left p' + k \<le> pool_left p" if "(pool_step ^^ k) p p'" for k p'
    using that
  proof (induction k arbitrary: p')
    case (Suc k)
    then obtain q where q: "(pool_step ^^ k) p q" "pool_step q p'" by auto
    with Suc.IH [OF q(1)] pool_step_ok [OF q(2)] pool_step_less [OF q(2)] show ?case by simp
  qed (simp add: ok)
  then show "(pool_step ^^ k) p p' \<Longrightarrow> k \<le> pool_left p" by (metis add_leD2)
  show "\<exists>p'. pool_step p p'" if "sp_feed p \<noteq> Answers"
    using pool_can_go [OF ok that] .
qed

lemma sample_pool: "pool_reach 2 1 \<lparr>sp_items = 2, sp_feed = Offers 1, sp_workers = [Free], sp_error = None, sp_ctx = None, sp_read = [(0, 0)]\<rparr>"
proof -
  let ?p = "\<lambda>f x r. \<lparr>sp_items = 2, sp_feed = f, sp_workers = [x], sp_error = None, sp_ctx = None, sp_read = r\<rparr>"
  have "pool_reach 2 1 (?p (Looks 0) Free [])" using pool_reach.start [of 2 1] by (simp add: new_pool_def pool_size_def)
  moreover have "pool_step (?p (Looks 0) Free []) (?p (Offers 0) Free [])"
    using pool_step.looks [of "?p (Looks 0) Free []" 0] by (simp add: pool_next_def)
  moreover have "pool_step (?p (Offers 0) Free []) (?p (Looks 1) (Took 0) [])"
    using pool_step.sends [of "?p (Offers 0) Free []" 0 0] by (simp add: set_worker_def)
  moreover have "pool_step (?p (Looks 1) (Took 0) []) (?p (Looks 1) (Reads 0) [])"
    using pool_step.worker_reads [of 0 "?p (Looks 1) (Took 0) []" 0] by (simp add: set_worker_def)
  moreover have "pool_step (?p (Looks 1) (Reads 0) []) (?p (Looks 1) Free [(0, 0)])"
    using pool_step.read_well [of 0 "?p (Looks 1) (Reads 0) []" 0] by (simp add: set_worker_def)
  moreover have "pool_step (?p (Looks 1) Free [(0, 0)]) (?p (Offers 1) Free [(0, 0)])"
    using pool_step.looks [of "?p (Looks 1) Free [(0, 0)]" 1] by (simp add: pool_next_def)
  ultimately show ?thesis by (meson pool_reach.step)
qed

theorem pool_reads_once_witness:
  "distinct (map snd [(0 :: nat, 0 :: nat)]) \<and> set (map snd [(0 :: nat, 0 :: nat)]) \<subseteq> {..<2}"
  using pool_reads_once [OF sample_pool] by simp

theorem pool_returns_witness:
  "\<exists>p'. pool_step \<lparr>sp_items = 2, sp_feed = Offers 1, sp_workers = [Free], sp_error = None, sp_ctx = None, sp_read = [(0, 0)]\<rparr> p'"
  using conjunct2 [OF pool_returns [OF sample_pool]] by simp

end
