(* ===== verification/SharedScan.thy ===== *)
theory SharedScan
  imports ScanPool
begin

text \<open>
  The life of a shared scan's requests (\<^verbatim>\<open>shared\<close>, \<^verbatim>\<open>leave\<close>, \<^verbatim>\<open>gone\<close>, \<^verbatim>\<open>attempt\<close>,
  \<^verbatim>\<open>checkBudget\<close> of \<^verbatim>\<open>internal/native/many.go\<close>). A request is in the scan, or has left it
  answered, or was evicted for memory, or is being finished. The scan's own goroutine, its workers and a
  function per request that runs when its context ends interleave at every section under the scan's lock
  and every answer. Shown: each request is answered exactly once, whatever fails, leaves, is evicted
  or panics, and the scan always returns; and a memory check ends, evicting the heaviest first.
\<close>

section \<open>The state\<close>

datatype req_state = ReqLive | ReqDone | ReqEvicted | ReqFinishing
datatype ('e, 'a) answered = Refused 'e | Result 'a

text \<open>
  The function of a request's context: not run, with its answer still to hand on, over, or stopped. How
  the turn ended: with an error or none, or in a panic.
\<close>

datatype 'e ctx_func = Armed | Owes 'e | Over | Stopped_func
datatype 'e outcome = Ended_with "'e option" | Panicked

text \<open>
  The scan's goroutine: in its attempts (with those left), readying the results from some request on,
  computing one, stopping the contexts' functions, handing out what is left, sweeping after a panic,
  answering the evicted alone, returned.
\<close>

datatype 'e scan_main = Scanning nat | Readying nat | Computing nat | Stopping nat "'e outcome"
  | Settling nat "'e option" "nat list" | Sweeping nat | Alone "nat list" | Done_main

text \<open>\<open>sh_owed\<close> lists the answers of requests the scan's workers took out and have not handed on yet.\<close>

record ('e, 'a) sharing =
  sh_states :: "req_state list"
  sh_res :: "'a option list"
  sh_live :: int
  sh_cancelled :: bool
  sh_answered :: "nat set"
  sh_out :: "(nat \<times> ('e, 'a) answered) list"
  sh_funcs :: "'e ctx_func list"
  sh_owed :: "(nat \<times> 'e) list"
  sh_main :: "'e scan_main"

definition new_sharing :: "nat \<Rightarrow> nat \<Rightarrow> ('e, 'a) sharing" where
  "new_sharing n attempts = \<lparr>sh_states = replicate n ReqLive, sh_res = replicate n None, sh_live = int n, sh_cancelled = False,
     sh_answered = {}, sh_out = [], sh_funcs = replicate n Armed, sh_owed = [], sh_main = Scanning attempts\<rparr>"

section \<open>The sections\<close>

text \<open>\<open>leave\<close>'s section under the lock, and whether the request was live.\<close>

definition leave :: "nat \<Rightarrow> req_state \<Rightarrow> ('e, 'a) sharing \<Rightarrow> bool \<times> ('e, 'a) sharing" where
  "leave k st s = (if sh_states s ! k \<noteq> ReqLive then (False, s)
     else (True, s\<lparr>sh_states := (sh_states s)[k := st], sh_live := sh_live s - 1, sh_cancelled := (sh_cancelled s \<or> sh_live s - 1 = 0)\<rparr>))"

text \<open>\<open>answer\<close>: a request's first answer is handed on, any later one dropped.\<close>

definition answer :: "nat \<Rightarrow> ('e, 'a) answered \<Rightarrow> ('e, 'a) sharing \<Rightarrow> ('e, 'a) sharing" where
  "answer k a s = (if k \<in> sh_answered s then s else s\<lparr>sh_answered := insert k (sh_answered s), sh_out := sh_out s @ [(k, a)]\<rparr>)"

text \<open>A request a context's function, or the scan, takes out; the answer is handed on later.\<close>

definition func_leaves :: "nat \<Rightarrow> 'e \<Rightarrow> ('e, 'a) sharing \<Rightarrow> ('e, 'a) sharing" where
  "func_leaves k e s = (case leave k ReqDone s of (took, s') \<Rightarrow> s'\<lparr>sh_funcs := (sh_funcs s)[k := (if took then Owes e else Over)]\<rparr>)"

definition scan_leaves :: "nat \<Rightarrow> 'e \<Rightarrow> ('e, 'a) sharing \<Rightarrow> ('e, 'a) sharing" where
  "scan_leaves k e s = (case leave k ReqDone s of (took, s') \<Rightarrow> if took then s'\<lparr>sh_owed := (k, e) # sh_owed s\<rparr> else s')"

text \<open>A request's result, or why it has none, after its state was set to finishing.\<close>

definition ready :: "nat \<Rightarrow> 'e + 'a \<Rightarrow> ('e, 'a) sharing \<Rightarrow> ('e, 'a) sharing" where
  "ready k r s = (case r of
      Inl e \<Rightarrow> s\<lparr>sh_states := (sh_states s)[k := ReqDone], sh_owed := (k, e) # sh_owed s\<rparr>
    | Inr a \<Rightarrow> s\<lparr>sh_res := (sh_res s)[k := Some a]\<rparr>)"

text \<open>What is left for a request once the scan ended with \<open>err\<close>; the evicted are kept for later.\<close>

definition settle_one :: "'e \<Rightarrow> nat \<Rightarrow> 'e option \<Rightarrow> nat list \<Rightarrow> ('e, 'a) sharing \<Rightarrow> ('e, 'a) sharing" where
  "settle_one unanswered k err evicted s =
     (let st = sh_states s ! k;
          s' = (if st = ReqLive \<or> st = ReqFinishing then s\<lparr>sh_states := (sh_states s)[k := ReqDone]\<rparr> else s)
      in case st of
        ReqEvicted \<Rightarrow> s'\<lparr>sh_main := Settling (Suc k) err (evicted @ [k])\<rparr>
      | ReqFinishing \<Rightarrow> (case err of
            None \<Rightarrow> (answer k (Result (the (sh_res s ! k))) s')\<lparr>sh_main := Settling (Suc k) err evicted\<rparr>
          | Some e \<Rightarrow> (answer k (Refused e) s')\<lparr>sh_main := Settling (Suc k) err evicted\<rparr>)
      | ReqLive \<Rightarrow> (let e = (case err of None \<Rightarrow> unanswered | Some e \<Rightarrow> e)
            in (answer k (Refused e) s')\<lparr>sh_main := Settling (Suc k) (Some e) evicted\<rparr>)
      | ReqDone \<Rightarrow> s'\<lparr>sh_main := Settling (Suc k) err evicted\<rparr>)"

section \<open>The steps\<close>

text \<open>
  \<open>unanswered\<close> and \<open>internal\<close> are the errors of a request left over and of a panic. The scan's goroutine
  goes on once nothing is owed: its workers have ended, and its own answers are handed on.
\<close>

inductive scan_step :: "'e \<Rightarrow> 'e \<Rightarrow> ('e, 'a) sharing \<Rightarrow> ('e, 'a) sharing \<Rightarrow> bool" for unanswered internal where
  func_runs: "k < length (sh_funcs s) \<Longrightarrow> sh_funcs s ! k = Armed \<Longrightarrow> scan_step unanswered internal s (func_leaves k e s)"
| func_answers: "k < length (sh_funcs s) \<Longrightarrow> sh_funcs s ! k = Owes e
    \<Longrightarrow> scan_step unanswered internal s ((answer k (Refused e) s)\<lparr>sh_funcs := (sh_funcs s)[k := Over]\<rparr>)"
| leaves: "sh_main s = Scanning n \<Longrightarrow> k < length (sh_states s) \<Longrightarrow> sh_states s ! k = ReqLive
    \<Longrightarrow> scan_step unanswered internal s (scan_leaves k e s)"
| evicts: "sh_main s = Scanning n \<Longrightarrow> k < length (sh_states s) \<Longrightarrow> leave k ReqEvicted s = (True, s')
    \<Longrightarrow> scan_step unanswered internal s s'"
| owed_answers: "sh_owed s = xs @ (k, e) # ys \<Longrightarrow> scan_step unanswered internal s ((answer k (Refused e) s)\<lparr>sh_owed := xs @ ys\<rparr>)"
| again: "sh_main s = Scanning (Suc n) \<Longrightarrow> sh_owed s = [] \<Longrightarrow> scan_step unanswered internal s (s\<lparr>sh_main := Scanning n\<rparr>)"
| fails: "sh_main s = Scanning n \<Longrightarrow> sh_owed s = [] \<Longrightarrow> scan_step unanswered internal s (s\<lparr>sh_main := Stopping 0 (Ended_with (Some e))\<rparr>)"
| panics: "sh_main s = Scanning n \<Longrightarrow> sh_owed s = [] \<Longrightarrow> scan_step unanswered internal s (s\<lparr>sh_main := Stopping 0 Panicked\<rparr>)"
| nobody: "sh_main s = Scanning n \<Longrightarrow> sh_owed s = [] \<Longrightarrow> \<forall>x \<in> set (sh_states s). x \<noteq> ReqLive
    \<Longrightarrow> scan_step unanswered internal s (s\<lparr>sh_main := Stopping 0 (Ended_with None)\<rparr>)"
| scanned: "sh_main s = Scanning n \<Longrightarrow> sh_owed s = [] \<Longrightarrow> scan_step unanswered internal s (s\<lparr>sh_main := Readying 0\<rparr>)"
| ready_gone: "sh_main s = Readying k \<Longrightarrow> sh_owed s = [] \<Longrightarrow> k < length (sh_states s)
    \<Longrightarrow> scan_step unanswered internal s ((scan_leaves k e s)\<lparr>sh_main := Readying (Suc k)\<rparr>)"
| ready_passes: "sh_main s = Readying k \<Longrightarrow> sh_owed s = [] \<Longrightarrow> k < length (sh_states s) \<Longrightarrow> sh_states s ! k \<noteq> ReqLive
    \<Longrightarrow> scan_step unanswered internal s (s\<lparr>sh_main := Readying (Suc k)\<rparr>)"
| ready_starts: "sh_main s = Readying k \<Longrightarrow> sh_owed s = [] \<Longrightarrow> k < length (sh_states s) \<Longrightarrow> sh_states s ! k = ReqLive
    \<Longrightarrow> scan_step unanswered internal s (s\<lparr>sh_states := (sh_states s)[k := ReqFinishing], sh_main := Computing k\<rparr>)"
| computes: "sh_main s = Computing k \<Longrightarrow> scan_step unanswered internal s ((ready k r s)\<lparr>sh_main := Readying (Suc k)\<rparr>)"
| readied: "sh_main s = Readying k \<Longrightarrow> sh_owed s = [] \<Longrightarrow> \<not> k < length (sh_states s)
    \<Longrightarrow> scan_step unanswered internal s (s\<lparr>sh_main := Stopping 0 (Ended_with None)\<rparr>)"
| stops: "sh_main s = Stopping k out \<Longrightarrow> k < length (sh_funcs s) \<Longrightarrow> sh_funcs s ! k = Armed
    \<Longrightarrow> scan_step unanswered internal s (s\<lparr>sh_funcs := (sh_funcs s)[k := Stopped_func], sh_main := Stopping (Suc k) out\<rparr>)"
| waits: "sh_main s = Stopping k out \<Longrightarrow> k < length (sh_funcs s) \<Longrightarrow> sh_funcs s ! k = Over
    \<Longrightarrow> scan_step unanswered internal s (s\<lparr>sh_main := Stopping (Suc k) out\<rparr>)"
| stopped: "sh_main s = Stopping k out \<Longrightarrow> \<not> k < length (sh_funcs s)
    \<Longrightarrow> scan_step unanswered internal s (s\<lparr>sh_main := (case out of Ended_with err \<Rightarrow> Settling 0 err [] | Panicked \<Rightarrow> Sweeping 0)\<rparr>)"
| settles: "sh_main s = Settling k err evicted \<Longrightarrow> k < length (sh_states s) \<Longrightarrow> scan_step unanswered internal s (settle_one unanswered k err evicted s)"
| settled: "sh_main s = Settling k err evicted \<Longrightarrow> \<not> k < length (sh_states s) \<Longrightarrow> scan_step unanswered internal s (s\<lparr>sh_main := Alone evicted\<rparr>)"
| sweeps: "sh_main s = Sweeping k \<Longrightarrow> k < length (sh_states s)
    \<Longrightarrow> scan_step unanswered internal s ((answer k (Refused internal) s)\<lparr>sh_main := Sweeping (Suc k)\<rparr>)"
| swept: "sh_main s = Sweeping k \<Longrightarrow> \<not> k < length (sh_states s) \<Longrightarrow> scan_step unanswered internal s (s\<lparr>sh_main := Done_main\<rparr>)"
| alone: "sh_main s = Alone (xs @ k # ys) \<Longrightarrow> scan_step unanswered internal s ((answer k a s)\<lparr>sh_main := Alone (xs @ ys)\<rparr>)"
| returns: "sh_main s = Alone [] \<Longrightarrow> scan_step unanswered internal s (s\<lparr>sh_main := Done_main\<rparr>)"

inductive scan_reach :: "'e \<Rightarrow> 'e \<Rightarrow> nat \<Rightarrow> nat \<Rightarrow> ('e, 'a) sharing \<Rightarrow> bool" for unanswered internal n attempts where
  start: "scan_reach unanswered internal n attempts (new_sharing n attempts)"
| step: "scan_reach unanswered internal n attempts s \<Longrightarrow> scan_step unanswered internal s s' \<Longrightarrow> scan_reach unanswered internal n attempts s'"

section \<open>The invariant\<close>

text \<open>
  Who is to answer request \<open>k\<close>, if it is not answered: its context's function or the scan's workers, which
  took it out, or the scan's end. Every request is in one case.
\<close>

definition owes :: "('e, 'a) sharing \<Rightarrow> nat \<Rightarrow> bool" where
  "owes s k \<longleftrightarrow> k \<in> fst ` set (sh_owed s) \<or> (\<exists>e. sh_funcs s ! k = Owes e)"

text \<open>What holds of one request in each phase.\<close>

definition left_over :: "('e, 'a) sharing \<Rightarrow> nat \<Rightarrow> bool" where
  "left_over s k \<longleftrightarrow> (if sh_states s ! k = ReqDone then (k \<in> sh_answered s) = (\<not> owes s k) else k \<notin> sh_answered s \<and> \<not> owes s k)"

definition no_owing :: "('e, 'a) sharing \<Rightarrow> bool" where
  "no_owing s \<longleftrightarrow> sh_owed s = [] \<and> (\<forall>k < length (sh_funcs s). sh_funcs s ! k = Over \<or> sh_funcs s ! k = Stopped_func)"

fun phase_ok :: "('e, 'a) sharing \<Rightarrow> 'e scan_main \<Rightarrow> bool" where
  "phase_ok s (Scanning m) \<longleftrightarrow> (\<forall>k < length (sh_states s). left_over s k \<and> sh_states s ! k \<noteq> ReqFinishing)
     \<and> sh_live s = int (length (filter (\<lambda>x. x = ReqLive) (sh_states s))) \<and> (sh_cancelled s \<longleftrightarrow> sh_states s \<noteq> [] \<and> sh_live s = 0)"
| "phase_ok s (Readying i) \<longleftrightarrow> (\<forall>k < length (sh_states s). left_over s k
     \<and> (k < i \<longrightarrow> sh_states s ! k \<noteq> ReqLive) \<and> (sh_states s ! k = ReqFinishing \<longrightarrow> k < i \<and> sh_res s ! k \<noteq> None))"
| "phase_ok s (Computing i) \<longleftrightarrow> sh_owed s = [] \<and> i < length (sh_states s) \<and> sh_states s ! i = ReqFinishing
     \<and> (\<forall>k < length (sh_states s). left_over s k \<and> (k < i \<longrightarrow> sh_states s ! k \<noteq> ReqLive)
        \<and> (sh_states s ! k = ReqFinishing \<and> k \<noteq> i \<longrightarrow> k < i \<and> sh_res s ! k \<noteq> None))"
| "phase_ok s (Stopping i out) \<longleftrightarrow> sh_owed s = [] \<and> (\<forall>k < i. k < length (sh_funcs s) \<longrightarrow> sh_funcs s ! k = Over \<or> sh_funcs s ! k = Stopped_func)
     \<and> (\<forall>k < length (sh_states s). left_over s k \<and> (sh_states s ! k = ReqFinishing \<longrightarrow> sh_res s ! k \<noteq> None)
        \<and> (out = Ended_with None \<longrightarrow> sh_states s ! k \<noteq> ReqLive))"
| "phase_ok s (Settling i err ev) \<longleftrightarrow> no_owing s \<and> distinct ev \<and> (\<forall>k \<in> set ev. k < i \<and> k < length (sh_states s) \<and> k \<notin> sh_answered s)
     \<and> (\<forall>k < length (sh_states s). (k < i \<longrightarrow> k \<in> sh_answered s \<or> k \<in> set ev)
        \<and> (i \<le> k \<longrightarrow> left_over s k \<and> (sh_states s ! k = ReqFinishing \<longrightarrow> sh_res s ! k \<noteq> None) \<and> (err = None \<longrightarrow> sh_states s ! k \<noteq> ReqLive)))"
| "phase_ok s (Sweeping i) \<longleftrightarrow> no_owing s \<and> (\<forall>k < length (sh_states s). k < i \<longrightarrow> k \<in> sh_answered s)"
| "phase_ok s (Alone ev) \<longleftrightarrow> no_owing s \<and> distinct ev \<and> (\<forall>k \<in> set ev. k < length (sh_states s) \<and> k \<notin> sh_answered s)
     \<and> (\<forall>k < length (sh_states s). k \<in> sh_answered s \<or> k \<in> set ev)"
| "phase_ok s Done_main \<longleftrightarrow> no_owing s \<and> (\<forall>k < length (sh_states s). k \<in> sh_answered s)"

definition core_ok :: "('e, 'a) sharing \<Rightarrow> bool" where
  "core_ok s \<longleftrightarrow> length (sh_funcs s) = length (sh_states s) \<and> length (sh_res s) = length (sh_states s)
     \<and> distinct (map fst (sh_out s)) \<and> fst ` set (sh_out s) = sh_answered s \<and> sh_answered s \<subseteq> {..<length (sh_states s)}
     \<and> distinct (map fst (sh_owed s)) \<and> (\<forall>k \<in> fst ` set (sh_owed s). k < length (sh_states s) \<and> sh_states s ! k = ReqDone \<and> \<not> (\<exists>e. sh_funcs s ! k = Owes e))
     \<and> (\<forall>k < length (sh_states s). (\<exists>e. sh_funcs s ! k = Owes e) \<longrightarrow> sh_states s ! k = ReqDone)"

definition sharing_ok :: "('e, 'a) sharing \<Rightarrow> bool" where
  "sharing_ok s \<longleftrightarrow> core_ok s \<and> phase_ok s (sh_main s)"

lemma core_okD:
  assumes "core_ok s"
  shows "length (sh_funcs s) = length (sh_states s)" "length (sh_res s) = length (sh_states s)" "distinct (map fst (sh_out s))"
    "fst ` set (sh_out s) = sh_answered s" "sh_answered s \<subseteq> {..<length (sh_states s)}" "distinct (map fst (sh_owed s))"
    "k \<in> fst ` set (sh_owed s) \<Longrightarrow> k < length (sh_states s) \<and> sh_states s ! k = ReqDone \<and> \<not> (\<exists>e. sh_funcs s ! k = Owes e)"
    "k < length (sh_states s) \<Longrightarrow> sh_funcs s ! k = Owes e \<Longrightarrow> sh_states s ! k = ReqDone"
  using assms unfolding core_ok_def by blast+

lemma answer_simps [simp]:
  "sh_states (answer k a s) = sh_states s" "sh_res (answer k a s) = sh_res s" "sh_live (answer k a s) = sh_live s"
  "sh_cancelled (answer k a s) = sh_cancelled s" "sh_funcs (answer k a s) = sh_funcs s" "sh_owed (answer k a s) = sh_owed s"
  "sh_main (answer k a s) = sh_main s" "sh_answered (answer k a s) = insert k (sh_answered s)"
  by (auto simp: answer_def)

lemma answer_core: "core_ok s \<Longrightarrow> k < length (sh_states s) \<Longrightarrow> core_ok (answer k a s)"
  by (auto simp: core_ok_def answer_def)

lemma core_funcs:
  assumes "core_ok s" "length fs = length (sh_states s)" "\<And>j. (\<exists>e. fs ! j = Owes e) \<longrightarrow> (\<exists>e. sh_funcs s ! j = Owes e)"
  shows "core_ok (s\<lparr>sh_funcs := fs\<rparr>)"
  unfolding core_ok_def
proof (intro conjI)
  note c = core_okD [OF assms(1)]
  show "\<forall>k \<in> fst ` set (sh_owed (s\<lparr>sh_funcs := fs\<rparr>)). k < length (sh_states (s\<lparr>sh_funcs := fs\<rparr>)) \<and> sh_states (s\<lparr>sh_funcs := fs\<rparr>) ! k = ReqDone
      \<and> \<not> (\<exists>e. sh_funcs (s\<lparr>sh_funcs := fs\<rparr>) ! k = Owes e)"
    using c(7) assms(3) by (metis sharing.ext_inject sharing.surjective sharing.update_convs(7))
  show "\<forall>k < length (sh_states (s\<lparr>sh_funcs := fs\<rparr>)). (\<exists>e. sh_funcs (s\<lparr>sh_funcs := fs\<rparr>) ! k = Owes e) \<longrightarrow> sh_states (s\<lparr>sh_funcs := fs\<rparr>) ! k = ReqDone"
    using c(8) assms(3) by simp metis
qed (use core_okD [OF assms(1)] assms(2) in simp_all)

text \<open>A request taken out, by either.\<close>

lemma leave_simps:
  "fst (leave k st s) \<longleftrightarrow> sh_states s ! k = ReqLive" "sh_res (snd (leave k st s)) = sh_res s" "sh_funcs (snd (leave k st s)) = sh_funcs s"
  "sh_answered (snd (leave k st s)) = sh_answered s" "sh_out (snd (leave k st s)) = sh_out s" "sh_owed (snd (leave k st s)) = sh_owed s"
  "sh_main (snd (leave k st s)) = sh_main s"
  "sh_states (snd (leave k st s)) = (if sh_states s ! k = ReqLive then (sh_states s)[k := st] else sh_states s)"
  by (auto simp: leave_def)

text \<open>
  What a step of a request's own keeps: each request's case, who is live and finishing, the results, and
  that nothing more is owed.
\<close>

definition live_ok :: "('e, 'a) sharing \<Rightarrow> bool" where
  "live_ok s \<longleftrightarrow> sh_live s = int (length (filter (\<lambda>x. x = ReqLive) (sh_states s))) \<and> (sh_cancelled s \<longleftrightarrow> sh_states s \<noteq> [] \<and> sh_live s = 0)"

definition quiet :: "('e, 'a) sharing \<Rightarrow> ('e, 'a) sharing \<Rightarrow> bool" where
  "quiet s s' \<longleftrightarrow> length (sh_states s') = length (sh_states s) \<and> length (sh_funcs s') = length (sh_funcs s) \<and> sh_res s' = sh_res s \<and> sh_main s' = sh_main s
     \<and> (\<forall>k < length (sh_states s). (left_over s k \<longrightarrow> left_over s' k) \<and> (sh_states s ! k \<noteq> ReqLive \<longrightarrow> sh_states s' ! k \<noteq> ReqLive)
         \<and> (sh_states s' ! k = ReqFinishing \<longleftrightarrow> sh_states s ! k = ReqFinishing))
     \<and> (\<forall>k < length (sh_funcs s). sh_funcs s ! k = Over \<or> sh_funcs s ! k = Stopped_func \<longrightarrow> sh_funcs s' ! k = sh_funcs s ! k)
     \<and> (live_ok s \<longrightarrow> live_ok s') \<and> (sh_owed s = [] \<longrightarrow> sh_owed s' = [] \<or> (\<exists>m. sh_main s = Scanning m))"

lemma quiet_phase:
  assumes "quiet s s'" "phase_ok s (sh_main s)" "\<not> no_owing s \<or> (\<exists>m. sh_main s = Scanning m)" "length (sh_funcs s) = length (sh_states s)"
  shows "phase_ok s' (sh_main s')"
proof -
  note q = assms(1) [unfolded quiet_def]
  have main: "sh_main s' = sh_main s" and len: "length (sh_states s') = length (sh_states s)" "length (sh_funcs s') = length (sh_funcs s)"
    and res: "sh_res s' = sh_res s"
    and each: "\<And>k. k < length (sh_states s) \<Longrightarrow> left_over s k \<Longrightarrow> left_over s' k"
      "\<And>k. k < length (sh_states s) \<Longrightarrow> sh_states s ! k \<noteq> ReqLive \<Longrightarrow> sh_states s' ! k \<noteq> ReqLive"
      "\<And>k. k < length (sh_states s) \<Longrightarrow> sh_states s' ! k = ReqFinishing \<longleftrightarrow> sh_states s ! k = ReqFinishing"
    and funcs: "\<And>k. k < length (sh_funcs s) \<Longrightarrow> sh_funcs s ! k = Over \<or> sh_funcs s ! k = Stopped_func \<Longrightarrow> sh_funcs s' ! k = sh_funcs s ! k"
    and live: "live_ok s \<Longrightarrow> live_ok s'" and owed: "sh_owed s = [] \<Longrightarrow> sh_owed s' = [] \<or> (\<exists>m. sh_main s = Scanning m)"
    using q by blast+
  show ?thesis
  proof (cases "sh_main s")
    case (Scanning m)
    then show ?thesis using assms(2) each live unfolding main Scanning phase_ok.simps len live_ok_def by blast
  next
    case (Readying i)
    then show ?thesis using assms(2) each unfolding main Readying phase_ok.simps len res by blast
  next
    case (Computing i)
    then have "sh_owed s' = []" using owed assms(2) by auto
    then show ?thesis using assms(2) each unfolding main Computing phase_ok.simps len res by blast
  next
    case (Stopping i out)
    then have "sh_owed s' = []" using owed assms(2) by auto
    moreover have "\<forall>k < i. k < length (sh_funcs s) \<longrightarrow> sh_funcs s' ! k = Over \<or> sh_funcs s' ! k = Stopped_func"
      using assms(2) funcs unfolding Stopping phase_ok.simps by metis
    ultimately show ?thesis using assms(2) each unfolding main Stopping phase_ok.simps len res by blast
  qed (use assms(2,3) in auto)
qed

lemma filter_leaves: "k < length xs \<Longrightarrow> xs ! k = ReqLive \<Longrightarrow> st \<noteq> ReqLive \<Longrightarrow>
    Suc (length (filter (\<lambda>x. x = ReqLive) (xs[k := st]))) = length (filter (\<lambda>x. x = ReqLive) xs)"
proof (induction xs arbitrary: k)
  case (Cons x xs)
  then show ?case by (cases k) auto
qed simp

lemma live_leaves:
  assumes "live_ok s" "k < length (sh_states s)" "st \<noteq> ReqLive"
  shows "live_ok (snd (leave k st s))"
proof (cases "sh_states s ! k = ReqLive")
  case True
  define m where "m = length (filter (\<lambda>x. x = ReqLive) ((sh_states s)[k := st]))"
  have m: "length (filter (\<lambda>x. x = ReqLive) (sh_states s)) = Suc m" using filter_leaves [OF assms(2) True assms(3)] m_def by simp
  have s': "snd (leave k st s) = s\<lparr>sh_states := (sh_states s)[k := st], sh_live := sh_live s - 1, sh_cancelled := (sh_cancelled s \<or> sh_live s - 1 = 0)\<rparr>"
    using True by (simp add: leave_def)
  have "sh_live s = 1 + int m" "\<not> sh_cancelled s" using assms(1) m by (simp_all add: live_ok_def)
  moreover have "sh_states s \<noteq> []" using assms(2) by auto
  ultimately show ?thesis unfolding s' live_ok_def by (simp add: m_def [symmetric])
qed (use assms in \<open>simp add: leave_def\<close>)

lemma quietI:
  assumes "length (sh_states s') = length (sh_states s)" "length (sh_funcs s') = length (sh_funcs s)" "sh_res s' = sh_res s" "sh_main s' = sh_main s"
    and "\<And>k. k < length (sh_states s) \<Longrightarrow> left_over s k \<Longrightarrow> left_over s' k"
    and "\<And>k. k < length (sh_states s) \<Longrightarrow> sh_states s' ! k = sh_states s ! k \<or> (sh_states s ! k = ReqLive \<and> sh_states s' ! k \<in> {ReqDone, ReqEvicted})"
    and "\<And>k. k < length (sh_funcs s) \<Longrightarrow> sh_funcs s ! k = Over \<or> sh_funcs s ! k = Stopped_func \<Longrightarrow> sh_funcs s' ! k = sh_funcs s ! k"
    and "live_ok s \<Longrightarrow> live_ok s'" "sh_owed s = [] \<Longrightarrow> sh_owed s' = [] \<or> (\<exists>m. sh_main s = Scanning m)"
  shows "quiet s s'"
  using assms(1-5,7-9) assms(6) unfolding quiet_def by fastforce

lemma func_kept: "fs ! j = c \<Longrightarrow> fs ! k \<noteq> c \<Longrightarrow> fs[k := x] ! j = c"
  by (cases "j = k") auto

lemma left_over_cong:
  "sh_states s' ! j = sh_states s ! j \<Longrightarrow> (j \<in> sh_answered s' \<longleftrightarrow> j \<in> sh_answered s) \<Longrightarrow> owes s' j = owes s j \<Longrightarrow> left_over s' j = left_over s j"
  by (simp only: left_over_def)

lemma left_over_alive: "left_over s j \<Longrightarrow> sh_states s ! j \<noteq> ReqDone \<Longrightarrow> j \<notin> sh_answered s \<and> \<not> owes s j"
  by (simp add: left_over_def)

lemma func_leaves_ok:
  assumes "core_ok s" "k < length (sh_funcs s)" "sh_funcs s ! k = Armed"
  shows "core_ok (func_leaves k e s) \<and> quiet s (func_leaves k e s)"
proof -
  note c = core_okD [OF assms(1)]
  have k: "k < length (sh_states s)" using assms(2) c(1) by simp
  show ?thesis
  proof (cases "sh_states s ! k = ReqLive")
    case True
    then have out: "k \<notin> fst ` set (sh_owed s)" using c(7) [of k] by auto
    let ?l = "snd (leave k ReqDone s)"
    have s': "func_leaves k e s = ?l\<lparr>sh_funcs := (sh_funcs s)[k := Owes e]\<rparr>" using True by (simp add: func_leaves_def leave_def)
    have st: "sh_states (func_leaves k e s) = (sh_states s)[k := ReqDone]" "sh_funcs (func_leaves k e s) = (sh_funcs s)[k := Owes e]"
      "sh_answered (func_leaves k e s) = sh_answered s" "sh_owed (func_leaves k e s) = sh_owed s" "sh_res (func_leaves k e s) = sh_res s"
      "sh_main (func_leaves k e s) = sh_main s" "sh_out (func_leaves k e s) = sh_out s" unfolding s' by (simp_all add: leave_simps True)
    have "core_ok (func_leaves k e s)" unfolding core_ok_def st
    proof (intro conjI)
      show "\<forall>j \<in> fst ` set (sh_owed s). j < length ((sh_states s)[k := ReqDone]) \<and> (sh_states s)[k := ReqDone] ! j = ReqDone \<and> \<not> (\<exists>e'. (sh_funcs s)[k := Owes e] ! j = Owes e')"
        using c(7) out by (metis length_list_update nth_list_update_neq)
      show "\<forall>j < length ((sh_states s)[k := ReqDone]). (\<exists>e'. (sh_funcs s)[k := Owes e] ! j = Owes e') \<longrightarrow> (sh_states s)[k := ReqDone] ! j = ReqDone"
      proof (intro allI impI)
        fix j assume "j < length ((sh_states s)[k := ReqDone])" "\<exists>e'. (sh_funcs s)[k := Owes e] ! j = Owes e'"
        then show "(sh_states s)[k := ReqDone] ! j = ReqDone" using c(8) [of j] k by (cases "j = k") auto
      qed
    qed (use c in simp_all)
    moreover have "live_ok (func_leaves k e s)" if "live_ok s"
      using live_leaves [OF that k, of ReqDone] by (simp add: s' live_ok_def)
    moreover have "left_over (func_leaves k e s) j" if "left_over s j" "j < length (sh_states s)" for j
    proof (cases "j = k")
      case True
      with left_over_alive [OF that(1)] \<open>sh_states s ! k = ReqLive\<close> have "k \<notin> sh_answered s" by simp
      then show ?thesis using True assms(2) k by (simp add: left_over_def owes_def st)
    next
      case False
      then have "left_over (func_leaves k e s) j = left_over s j" by (intro left_over_cong) (simp_all add: st owes_def)
      then show ?thesis using that(1) by simp
    qed
    ultimately show ?thesis
      by (intro conjI quietI) (use k assms(3) True in \<open>auto simp: st nth_list_update intro!: func_kept\<close>)
  next
    case False
    have s': "func_leaves k e s = s\<lparr>sh_funcs := (sh_funcs s)[k := Over]\<rparr>" using False by (simp add: func_leaves_def leave_def)
    have same: "(\<exists>e'. (sh_funcs s)[k := Over] ! j = Owes e') \<longleftrightarrow> (\<exists>e'. sh_funcs s ! j = Owes e')" for j
      using assms(2,3) by (cases "j = k") auto
    have "core_ok (func_leaves k e s)" using assms(1) unfolding core_ok_def s' by (simp add: same)
    moreover have "left_over (func_leaves k e s) j \<longleftrightarrow> left_over s j" for j by (simp add: left_over_def owes_def s' same)
    ultimately show ?thesis
      by (intro conjI quietI) (use assms(3) in \<open>auto simp: s' live_ok_def nth_list_update intro!: func_kept\<close>)
  qed
qed

lemma func_answers_ok:
  assumes "core_ok s" "k < length (sh_funcs s)" "sh_funcs s ! k = Owes e" "s' = (answer k (Refused e) s)\<lparr>sh_funcs := (sh_funcs s)[k := Over]\<rparr>"
  shows "core_ok s' \<and> quiet s s'"
proof -
  note c = core_okD [OF assms(1)]
  have k: "k < length (sh_states s)" "sh_states s ! k = ReqDone" using assms(2,3) c(1,8) by auto
  have out: "k \<notin> fst ` set (sh_owed s)" using c(7) [of k] assms(3) by blast
  have "core_ok (answer k (Refused e) s)" by (rule answer_core [OF assms(1) k(1)])
  moreover have "(\<exists>e'. (sh_funcs s)[k := Over] ! j = Owes e') \<longrightarrow> (\<exists>e'. sh_funcs s ! j = Owes e')" for j
    using assms(2) by (cases "j = k") auto
  ultimately have "core_ok s'" unfolding assms(4) using core_okD(1) [OF assms(1)] by (intro core_funcs) simp_all
  moreover have "left_over s' j" if "left_over s j" "j < length (sh_states s)" for j
  proof (cases "j = k")
    case False
    then have "left_over s' j = left_over s j" unfolding assms(4) by (intro left_over_cong) (simp_all add: owes_def)
    then show ?thesis using that(1) by simp
  next
    case True
    then show ?thesis using k out assms(2) unfolding assms(4) by (simp add: left_over_def owes_def)
  qed
  ultimately show ?thesis
    by (intro conjI quietI) (use assms(3) in \<open>auto simp: assms(4) live_ok_def nth_list_update intro!: func_kept\<close>)
qed

lemma owed_answers_ok:
  assumes "core_ok s" "sh_owed s = xs @ (k, e) # ys" "s' = (answer k (Refused e) s)\<lparr>sh_owed := xs @ ys\<rparr>"
  shows "core_ok s' \<and> quiet s s'"
proof -
  note c = core_okD [OF assms(1)]
  have k: "k < length (sh_states s)" "sh_states s ! k = ReqDone" "\<not> (\<exists>e. sh_funcs s ! k = Owes e)" using c(7) [of k] by (auto simp: assms(2))
  have out: "k \<notin> fst ` set (xs @ ys)" "distinct (map fst (xs @ ys))" using c(6) by (auto simp: assms(2))
  have "core_ok (answer k (Refused e) s)" by (rule answer_core [OF assms(1) k(1)])
  then have "core_ok s'" using out(2) unfolding core_ok_def assms(3) by (auto simp: assms(2))
  moreover have "left_over s' j" if "left_over s j" "j < length (sh_states s)" for j
  proof (cases "j = k")
    case False
    then have "j \<in> fst ` set (sh_owed s) \<longleftrightarrow> j \<in> fst ` set (xs @ ys)" by (auto simp: assms(2))
    then have "left_over s' j = left_over s j" using False unfolding assms(3) by (intro left_over_cong) (simp_all add: owes_def)
    then show ?thesis using that(1) by simp
  next
    case True
    then show ?thesis using k out(1) unfolding left_over_def owes_def assms(3) by simp
  qed
  ultimately show ?thesis
    by (intro conjI quietI) (auto simp: assms(2,3) live_ok_def)
qed

lemma scan_leaves_core:
  assumes "core_ok s" "k < length (sh_states s)" "sh_states s ! k = ReqLive"
  shows "core_ok (scan_leaves k e s)" "sh_states (scan_leaves k e s) = (sh_states s)[k := ReqDone]" "sh_funcs (scan_leaves k e s) = sh_funcs s"
      "sh_answered (scan_leaves k e s) = sh_answered s" "sh_owed (scan_leaves k e s) = (k, e) # sh_owed s" "sh_res (scan_leaves k e s) = sh_res s"
      "sh_main (scan_leaves k e s) = sh_main s" "\<And>j. left_over s j \<Longrightarrow> left_over (scan_leaves k e s) j" "live_ok s \<Longrightarrow> live_ok (scan_leaves k e s)"
proof -
  note c = core_okD [OF assms(1)]
  let ?l = "snd (leave k ReqDone s)"
  have s': "scan_leaves k e s = ?l\<lparr>sh_owed := (k, e) # sh_owed s\<rparr>" using assms(3) by (simp add: scan_leaves_def leave_def)
  show st: "sh_states (scan_leaves k e s) = (sh_states s)[k := ReqDone]" "sh_funcs (scan_leaves k e s) = sh_funcs s"
      "sh_answered (scan_leaves k e s) = sh_answered s" "sh_owed (scan_leaves k e s) = (k, e) # sh_owed s" "sh_res (scan_leaves k e s) = sh_res s"
      "sh_main (scan_leaves k e s) = sh_main s" unfolding s' by (simp_all add: leave_simps assms(3))
  have out: "sh_out (scan_leaves k e s) = sh_out s" unfolding s' by (simp add: leave_simps)
  have no: "k \<notin> fst ` set (sh_owed s)" "\<not> (\<exists>e. sh_funcs s ! k = Owes e)" using c(7) [of k] c(8) [OF assms(2)] assms(3) by auto
  show "core_ok (scan_leaves k e s)" unfolding core_ok_def st out
  proof (intro conjI)
    show "\<forall>j \<in> fst ` set ((k, e) # sh_owed s). j < length ((sh_states s)[k := ReqDone]) \<and> (sh_states s)[k := ReqDone] ! j = ReqDone \<and> \<not> (\<exists>e. sh_funcs s ! j = Owes e)"
    proof (intro ballI)
      fix j assume "j \<in> fst ` set ((k, e) # sh_owed s)"
      then show "j < length ((sh_states s)[k := ReqDone]) \<and> (sh_states s)[k := ReqDone] ! j = ReqDone \<and> \<not> (\<exists>e. sh_funcs s ! j = Owes e)"
        using c(7) [of j] no assms(2) by (cases "j = k") auto
    qed
    show "\<forall>j < length ((sh_states s)[k := ReqDone]). (\<exists>e. sh_funcs s ! j = Owes e) \<longrightarrow> (sh_states s)[k := ReqDone] ! j = ReqDone"
    proof (intro allI impI)
      fix j assume "j < length ((sh_states s)[k := ReqDone])" "\<exists>e. sh_funcs s ! j = Owes e"
      then show "(sh_states s)[k := ReqDone] ! j = ReqDone" using c(8) [of j] assms(2) by (cases "j = k") auto
    qed
  qed (use c no in simp_all)
  show "left_over (scan_leaves k e s) j" if "left_over s j" for j
  proof (cases "j = k")
    case True
    with left_over_alive [OF that] assms(3) have "k \<notin> sh_answered s" by simp
    then show ?thesis using True assms(2) by (simp add: left_over_def owes_def st)
  next
    case False
    then have "left_over (scan_leaves k e s) j = left_over s j" by (intro left_over_cong) (simp_all add: st owes_def)
    then show ?thesis using that by simp
  qed
  show "live_ok (scan_leaves k e s)" if "live_ok s"
    using live_leaves [OF that assms(2), of ReqDone] by (simp add: s' live_ok_def)
qed

text \<open>The scan's goroutine, readying the results.\<close>

lemma sharing_okI: "core_ok s \<Longrightarrow> phase_ok s (sh_main s) \<Longrightarrow> sharing_ok s"
  by (simp add: sharing_ok_def)

lemma left_over_main [simp]: "left_over (s\<lparr>sh_main := m\<rparr>) k = left_over s k" "owes (s\<lparr>sh_main := m\<rparr>) k = owes s k"
  "core_ok (s\<lparr>sh_main := m\<rparr>) = core_ok s" "no_owing (s\<lparr>sh_main := m\<rparr>) = no_owing s"
  by (simp_all add: left_over_def owes_def core_ok_def no_owing_def)

lemma phase_main: "phase_ok (s\<lparr>sh_main := m\<rparr>) m' = phase_ok s m'"
  by (cases m') simp_all

lemma readying_gone:
  assumes "core_ok s" "phase_ok s (Readying k)" "k < length (sh_states s)"
  shows "core_ok (scan_leaves k e s) \<and> phase_ok (scan_leaves k e s) (Readying (Suc k))"
proof (cases "sh_states s ! k = ReqLive")
  case True
  note l = scan_leaves_core [OF assms(1,3) True]
  show ?thesis
  proof
    show "phase_ok (scan_leaves k e s) (Readying (Suc k))" unfolding phase_ok.simps
    proof (intro allI impI conjI)
      fix j assume j: "j < length (sh_states (scan_leaves k e s))"
      then have j': "j < length (sh_states s)" by (simp add: l(2))
      note p = assms(2) [unfolded phase_ok.simps, rule_format, OF j']
      show "left_over (scan_leaves k e s) j" using l(8) p by blast
      show "sh_states (scan_leaves k e s) ! j \<noteq> ReqLive" if "j < Suc k"
        using that p j' by (cases "j = k") (auto simp: l(2))
      assume "sh_states (scan_leaves k e s) ! j = ReqFinishing"
      then have "sh_states s ! j = ReqFinishing" using j' by (cases "j = k") (auto simp: l(2))
      with p show "j < Suc k" "sh_res (scan_leaves k e s) ! j \<noteq> None" by (auto simp: l(6))
    qed
  qed (rule l(1))
next
  case False
  then have "scan_leaves k e s = s" by (simp add: scan_leaves_def leave_def)
  then show ?thesis using assms False by (auto simp: less_Suc_eq)
qed

lemma readying_starts:
  assumes "core_ok s" "phase_ok s (Readying k)" "k < length (sh_states s)" "sh_states s ! k = ReqLive" "sh_owed s = []"
  shows "core_ok (s\<lparr>sh_states := (sh_states s)[k := ReqFinishing]\<rparr>) \<and> phase_ok (s\<lparr>sh_states := (sh_states s)[k := ReqFinishing]\<rparr>) (Computing k)"
proof -
  let ?s = "s\<lparr>sh_states := (sh_states s)[k := ReqFinishing]\<rparr>"
  note c = core_okD [OF assms(1)]
  have no: "sh_states s ! j = ReqDone \<Longrightarrow> j \<noteq> k" for j using assms(4) by auto
  have "core_ok ?s" unfolding core_ok_def
  proof (intro conjI)
    show "\<forall>j < length (sh_states ?s). (\<exists>e. sh_funcs ?s ! j = Owes e) \<longrightarrow> sh_states ?s ! j = ReqDone"
      using c(8) no by fastforce
  qed (use c assms(5) in simp_all)
  moreover have "phase_ok ?s (Computing k)" unfolding phase_ok.simps
  proof (intro conjI allI impI)
    fix j assume "j < length (sh_states ?s)"
    then have j': "j < length (sh_states s)" by simp
    note p = assms(2) [unfolded phase_ok.simps, rule_format, OF j']
    show "left_over ?s j"
    proof (cases "j = k")
      case True
      then show ?thesis using left_over_alive [of s k] p assms(3,4) by (simp add: left_over_def owes_def)
    next
      case False
      then have "left_over ?s j = left_over s j" by (intro left_over_cong) (simp_all add: owes_def)
      then show ?thesis using p by simp
    qed
    show "sh_states ?s ! j \<noteq> ReqLive" if "j < k" using that p by auto
    assume "sh_states ?s ! j = ReqFinishing \<and> j \<noteq> k"
    then show "j < k" "sh_res ?s ! j \<noteq> None" using p by auto
  qed (use assms(3,5) in simp_all)
  ultimately show ?thesis ..
qed

lemma computing_ready:
  assumes "core_ok s" "phase_ok s (Computing k)"
  shows "core_ok (ready k r s) \<and> phase_ok (ready k r s) (Readying (Suc k))"
proof -
  note c = core_okD [OF assms(1)]
  have k: "k < length (sh_states s)" "sh_states s ! k = ReqFinishing" "sh_owed s = []" and left: "left_over s k" using assms(2) by auto
  have none: "\<not> (\<exists>e. sh_funcs s ! k = Owes e)" "k \<notin> sh_answered s" using c(8) [OF k(1)] left_over_alive [OF left] k(2) by auto
  show ?thesis
  proof (cases r)
    case (Inl e)
    then have s': "ready k r s = s\<lparr>sh_states := (sh_states s)[k := ReqDone], sh_owed := [(k, e)]\<rparr>" by (simp add: ready_def k(3))
    have "core_ok (ready k r s)" unfolding core_ok_def s'
    proof (intro conjI)
      show "\<forall>j < length (sh_states (s\<lparr>sh_states := (sh_states s)[k := ReqDone], sh_owed := [(k, e)]\<rparr>)).
          (\<exists>e'. sh_funcs (s\<lparr>sh_states := (sh_states s)[k := ReqDone], sh_owed := [(k, e)]\<rparr>) ! j = Owes e')
          \<longrightarrow> sh_states (s\<lparr>sh_states := (sh_states s)[k := ReqDone], sh_owed := [(k, e)]\<rparr>) ! j = ReqDone"
      proof (intro allI impI)
        fix j assume "j < length (sh_states (s\<lparr>sh_states := (sh_states s)[k := ReqDone], sh_owed := [(k, e)]\<rparr>))"
          "\<exists>e'. sh_funcs (s\<lparr>sh_states := (sh_states s)[k := ReqDone], sh_owed := [(k, e)]\<rparr>) ! j = Owes e'"
        then show "sh_states (s\<lparr>sh_states := (sh_states s)[k := ReqDone], sh_owed := [(k, e)]\<rparr>) ! j = ReqDone"
          using c(8) [of j] k(1) by (cases "j = k") auto
      qed
    qed (use c k none in simp_all)
    moreover have "phase_ok (ready k r s) (Readying (Suc k))" unfolding phase_ok.simps
    proof (intro allI impI conjI)
      fix j assume "j < length (sh_states (ready k r s))"
      then have j': "j < length (sh_states s)" by (simp add: s')
      then have p: "left_over s j" "j < k \<longrightarrow> sh_states s ! j \<noteq> ReqLive" "sh_states s ! j = ReqFinishing \<and> j \<noteq> k \<longrightarrow> j < k \<and> sh_res s ! j \<noteq> None"
        using assms(2) by auto
      show "left_over (ready k r s) j"
      proof (cases "j = k")
        case True
        then show ?thesis using none k by (simp add: s' left_over_def owes_def)
      next
        case False
        then have "left_over (ready k r s) j = left_over s j" by (intro left_over_cong) (simp_all add: s' owes_def k(3))
        then show ?thesis using p(1) by simp
      qed
      show "sh_states (ready k r s) ! j \<noteq> ReqLive" if "j < Suc k" using that p(2) j' by (cases "j = k") (auto simp: s')
      assume "sh_states (ready k r s) ! j = ReqFinishing"
      then show "j < Suc k" "sh_res (ready k r s) ! j \<noteq> None" using p(3) j' by (cases "j = k"; auto simp: s')+
    qed
    ultimately show ?thesis ..
  next
    case (Inr a)
    then have s': "ready k r s = s\<lparr>sh_res := (sh_res s)[k := Some a]\<rparr>" by (simp add: ready_def)
    have l: "left_over (ready k r s) j = left_over s j" for j by (simp add: left_over_def owes_def s')
    have "core_ok (ready k r s)" using assms(1) by (simp add: core_ok_def s')
    moreover have "phase_ok (ready k r s) (Readying (Suc k))" unfolding phase_ok.simps l
    proof (intro allI impI conjI)
      fix j assume "j < length (sh_states (ready k r s))"
      then have j': "j < length (sh_states s)" by (simp add: s')
      then have p: "left_over s j" "j < k \<longrightarrow> sh_states s ! j \<noteq> ReqLive" "sh_states s ! j = ReqFinishing \<and> j \<noteq> k \<longrightarrow> j < k \<and> sh_res s ! j \<noteq> None"
        using assms(2) by auto
      show "left_over s j" by (rule p(1))
      show "sh_states (ready k r s) ! j \<noteq> ReqLive" if "j < Suc k" using that p(2) k(2) by (cases "j = k") (auto simp: s')
      assume "sh_states (ready k r s) ! j = ReqFinishing"
      then show "j < Suc k" "sh_res (ready k r s) ! j \<noteq> None" using p(3) j' c(2) by (cases "j = k"; auto simp: s')+
    qed
    ultimately show ?thesis ..
  qed
qed

text \<open>Its end.\<close>

lemma settling_one:
  assumes "core_ok s" "phase_ok s (Settling k err ev)" "k < length (sh_states s)"
  shows "core_ok (settle_one unanswered k err ev s) \<and> phase_ok (settle_one unanswered k err ev s) (sh_main (settle_one unanswered k err ev s))"
proof -
  note c = core_okD [OF assms(1)]
  have no: "no_owing s" and dist: "distinct ev" and ev: "\<And>j. j \<in> set ev \<Longrightarrow> j < k \<and> j < length (sh_states s) \<and> j \<notin> sh_answered s"
    and past: "\<And>j. j < k \<Longrightarrow> j \<in> sh_answered s \<or> j \<in> set ev"
    and later: "\<And>j. j < length (sh_states s) \<Longrightarrow> k \<le> j \<Longrightarrow> left_over s j \<and> (sh_states s ! j = ReqFinishing \<longrightarrow> sh_res s ! j \<noteq> None) \<and> (err = None \<longrightarrow> sh_states s ! j \<noteq> ReqLive)"
    using assms(2,3) by auto
  have owes: "\<not> owes s j" if "j < length (sh_states s)" for j
    using no that c(1) unfolding no_owing_def owes_def by fastforce
  have left: "left_over s k" using later [OF assms(3)] by simp
  have settled: "core_ok (answer k a (s\<lparr>sh_states := (sh_states s)[k := ReqDone]\<rparr>))
      \<and> phase_ok (answer k a (s\<lparr>sh_states := (sh_states s)[k := ReqDone]\<rparr>)) (Settling (Suc k) err' ev)"
    if st: "sh_states s ! k \<noteq> ReqDone" and err': "err' = None \<longrightarrow> err = None" for a err'
  proof
    let ?s = "s\<lparr>sh_states := (sh_states s)[k := ReqDone]\<rparr>"
    have "core_ok ?s" unfolding core_ok_def
    proof (intro conjI)
      show "\<forall>j < length (sh_states ?s). (\<exists>e. sh_funcs ?s ! j = Owes e) \<longrightarrow> sh_states ?s ! j = ReqDone"
        using owes by (auto simp: owes_def)
    qed (use c no in \<open>simp_all add: no_owing_def\<close>)
    then show "core_ok (answer k a ?s)" by (intro answer_core) (simp_all add: assms(3))
    have other: "left_over (answer k a ?s) j = left_over s j" if "j \<noteq> k" for j
      using that by (intro left_over_cong) (simp_all add: owes_def)
    have "k \<notin> set ev" using ev by blast
    then show "phase_ok (answer k a ?s) (Settling (Suc k) err' ev)" unfolding phase_ok.simps
      using no dist ev past later err' other assms(3) by (auto simp: no_owing_def less_Suc_eq)
  qed
  have kept: "phase_ok (s\<lparr>sh_main := m\<rparr>) (Settling (Suc k) err (if b then ev @ [k] else ev))"
    if "if b then k \<notin> sh_answered s else k \<in> sh_answered s" for b m
    unfolding phase_ok.simps using no dist ev past later assms(3) that by (auto simp: less_Suc_eq split: if_splits)
  show ?thesis
  proof (cases "sh_states s ! k")
    case ReqDone
    then have "k \<in> sh_answered s" using left owes [OF assms(3)] by (simp add: left_over_def)
    then show ?thesis using kept [of False] assms(1) ReqDone by (simp add: settle_one_def Let_def)
  next
    case ReqEvicted
    then have "k \<notin> sh_answered s" using left_over_alive [OF left] by simp
    then show ?thesis using kept [of True] assms(1) ReqEvicted by (simp add: settle_one_def Let_def)
  next
    case ReqFinishing
    then show ?thesis using settled [of err] by (cases err) (simp_all add: settle_one_def Let_def phase_main del: phase_ok.simps)
  next
    case ReqLive
    then show ?thesis using settled [of "Some e" for e] by (simp add: settle_one_def Let_def phase_main del: phase_ok.simps)
  qed
qed

lemma no_owing_quiet: "no_owing s \<Longrightarrow> k < length (sh_funcs s) \<Longrightarrow> sh_funcs s ! k \<noteq> Armed \<and> (\<forall>e. sh_funcs s ! k \<noteq> Owes e)"
  by (auto simp: no_owing_def)

lemma evicted_ok:
  assumes "core_ok s" "k < length (sh_states s)" "leave k ReqEvicted s = (True, s')"
  shows "core_ok s' \<and> quiet s s'"
proof -
  note c = core_okD [OF assms(1)]
  have s': "s' = snd (leave k ReqEvicted s)" and live: "sh_states s ! k = ReqLive" using assms(3) by (auto simp: leave_def split: if_splits)
  have st: "sh_states s' = (sh_states s)[k := ReqEvicted]" "sh_funcs s' = sh_funcs s" "sh_owed s' = sh_owed s" "sh_res s' = sh_res s"
    "sh_answered s' = sh_answered s" "sh_main s' = sh_main s" "sh_out s' = sh_out s" by (simp_all add: s' leave_simps live)
  have alive: "\<not> owes s k" using c(7) [of k] c(8) [OF assms(2)] live by (auto simp: owes_def)
  have still: "(sh_states s)[k := ReqEvicted] ! j = ReqDone" if "sh_states s ! j = ReqDone" for j
    using that live by (cases "j = k") auto
  have "core_ok s'" unfolding core_ok_def st
  proof (intro conjI)
    show "\<forall>j \<in> fst ` set (sh_owed s). j < length ((sh_states s)[k := ReqEvicted]) \<and> (sh_states s)[k := ReqEvicted] ! j = ReqDone \<and> \<not> (\<exists>e. sh_funcs s ! j = Owes e)"
      using c(7) still by simp
    show "\<forall>j < length ((sh_states s)[k := ReqEvicted]). (\<exists>e. sh_funcs s ! j = Owes e) \<longrightarrow> (sh_states s)[k := ReqEvicted] ! j = ReqDone"
      using c(8) still by auto
  qed (use c in simp_all)
  moreover have "left_over s' j" if "left_over s j" for j
  proof (cases "j = k")
    case True
    with left_over_alive [OF that] live have "k \<notin> sh_answered s" by simp
    then show ?thesis using True alive assms(2) by (simp add: left_over_def owes_def st)
  next
    case False
    then have "left_over s' j = left_over s j" by (intro left_over_cong) (simp_all add: st owes_def)
    then show ?thesis using that by simp
  qed
  moreover have "live_ok s'" if "live_ok s" using live_leaves [OF that assms(2), of ReqEvicted] by (simp add: s')
  ultimately show ?thesis
    by (intro conjI quietI) (use live assms(2) in \<open>auto simp: st nth_list_update\<close>)
qed

lemma own_step:
  assumes "sharing_ok s" "core_ok s' \<and> quiet s s'" "\<not> no_owing s \<or> (\<exists>m. sh_main s = Scanning m)"
  shows "sharing_ok s'"
  using assms quiet_phase [of s s'] core_okD(1) [of s] by (simp add: sharing_ok_def)

lemma main_step:
  assumes "core_ok t \<and> phase_ok t m"
  shows "sharing_ok (t\<lparr>sh_main := m\<rparr>)"
  using assms by (simp add: sharing_ok_def phase_main)

lemma left_scanning:
  assumes "core_ok s" "k < length (sh_states s)" "sh_states s ! k = ReqLive" "sh_main s = Scanning m"
  shows "quiet s (scan_leaves k e s)"
proof -
  note l = scan_leaves_core [OF assms(1-3)]
  show ?thesis by (rule quietI) (use l assms in \<open>auto simp: nth_list_update\<close>)
qed

text \<open>The end of the attempts, and the functions stopped.\<close>

lemma stopping_starts:
  assumes "phase_ok s (sh_main s)" "sh_owed s = []"
    and "(\<exists>m. sh_main s = Scanning m \<and> (out = Ended_with None \<longrightarrow> (\<forall>x \<in> set (sh_states s). x \<noteq> ReqLive)))
      \<or> (\<exists>k. sh_main s = Readying k \<and> \<not> k < length (sh_states s))"
  shows "phase_ok s (Stopping 0 out)"
proof -
  have "left_over s k \<and> (sh_states s ! k = ReqFinishing \<longrightarrow> sh_res s ! k \<noteq> None) \<and> (out = Ended_with None \<longrightarrow> sh_states s ! k \<noteq> ReqLive)"
    if "k < length (sh_states s)" for k
    using assms that by (auto simp: in_set_conv_nth)
  then show ?thesis using assms(2) by simp
qed

lemma stopping_over:
  assumes "phase_ok s (Stopping k out)" "\<not> k < length (sh_funcs s)" "length (sh_funcs s) = length (sh_states s)"
  shows "phase_ok s (case out of Ended_with err \<Rightarrow> Settling 0 err [] | Panicked \<Rightarrow> Sweeping 0)"
proof -
  have "no_owing s" using assms by (auto simp: no_owing_def)
  with assms show ?thesis by (cases out) auto
qed

lemma stopping_next:
  assumes "phase_ok s (Stopping k out)" "sh_funcs s ! k = Over" "k < length (sh_funcs s)"
  shows "phase_ok s (Stopping (Suc k) out)"
  using assms by (auto simp: less_Suc_eq)

lemma stopping_stops:
  assumes "core_ok s" "phase_ok s (Stopping k out)" "sh_funcs s ! k = Armed" "k < length (sh_funcs s)" "t = s\<lparr>sh_funcs := (sh_funcs s)[k := Stopped_func]\<rparr>"
  shows "core_ok t \<and> phase_ok t (Stopping (Suc k) out)"
proof -
  have same: "(\<exists>e. (sh_funcs s)[k := Stopped_func] ! j = Owes e) = (\<exists>e. sh_funcs s ! j = Owes e)" for j
    using assms(3,4) by (cases "j = k") auto
  have "core_ok t" unfolding assms(5) by (intro core_funcs) (use core_okD(1) [OF assms(1)] assms(1) same in simp_all)
  moreover have "left_over t j = left_over s j" for j by (intro left_over_cong) (simp_all add: assms(5) owes_def same)
  moreover have "(sh_funcs s)[k := Stopped_func] ! j = Over \<or> (sh_funcs s)[k := Stopped_func] ! j = Stopped_func" if "j < Suc k" "j < length (sh_funcs s)" for j
    using assms(2,4) that by (cases "j = k") auto
  ultimately show ?thesis using assms(2) by (simp add: assms(5))
qed

lemma sweeping_one:
  assumes "core_ok s" "phase_ok s (Sweeping k)" "k < length (sh_states s)"
  shows "core_ok (answer k a s) \<and> phase_ok (answer k a s) (Sweeping (Suc k))"
  using answer_core [OF assms(1,3)] assms(2) by (auto simp: no_owing_def less_Suc_eq)

lemma alone_one:
  assumes "core_ok s" "phase_ok s (Alone (xs @ k # ys))"
  shows "core_ok (answer k a s) \<and> phase_ok (answer k a s) (Alone (xs @ ys))"
proof -
  have "k < length (sh_states s)" using assms(2) by auto
  then show ?thesis using answer_core [OF assms(1)] assms(2) by (auto simp: no_owing_def)
qed

lemma scan_step_ok:
  assumes "scan_step unanswered internal s s'" "sharing_ok s"
  shows "sharing_ok s'"
proof -
  have c: "core_ok s" and p: "phase_ok s (sh_main s)" using assms(2) by (simp_all add: sharing_ok_def)
  note len = core_okD(1) [OF c]
  show ?thesis
    using assms(1)
  proof cases
    case (func_runs k e)
    with no_owing_quiet [of s k] show ?thesis using own_step [OF assms(2) func_leaves_ok [OF c]] by blast
  next
    case (func_answers k e)
    with no_owing_quiet [of s k] show ?thesis using own_step [OF assms(2) func_answers_ok [OF c func_answers(2,3,1)]] by blast
  next
    case (leaves n k e)
    show ?thesis unfolding leaves(1)
      by (rule own_step [OF assms(2) conjI [OF scan_leaves_core(1) [OF c leaves(3,4)] left_scanning [OF c leaves(3,4,2)]]]) (use leaves in simp)
  next
    case (evicts n k)
    show ?thesis by (rule own_step [OF assms(2) evicted_ok [OF c evicts(2,3)]]) (use evicts in simp)
  next
    case (owed_answers xs k e ys)
    show ?thesis by (rule own_step [OF assms(2) owed_answers_ok [OF c owed_answers(2,1)]]) (simp add: no_owing_def owed_answers(2))
  next
    case (again n)
    show ?thesis unfolding again(1) by (rule main_step) (use c p again in simp)
  next
    case (fails n e)
    show ?thesis unfolding fails(1) by (rule main_step) (use c stopping_starts [OF p, of "Ended_with (Some e)"] fails in simp)
  next
    case (panics n)
    show ?thesis unfolding panics(1) by (rule main_step) (use c stopping_starts [OF p, of Panicked] panics in simp)
  next
    case (nobody n)
    show ?thesis unfolding nobody(1) by (rule main_step) (use c stopping_starts [OF p, of "Ended_with None"] nobody in simp)
  next
    case (scanned n)
    show ?thesis unfolding scanned(1) by (rule main_step) (use c p scanned in simp)
  next
    case (ready_gone k e)
    show ?thesis unfolding ready_gone(1) by (rule main_step, rule readying_gone) (use c p ready_gone in simp_all)
  next
    case (ready_passes k)
    show ?thesis unfolding ready_passes(1) by (rule main_step) (use c p ready_passes in \<open>auto simp: less_Suc_eq\<close>)
  next
    case (ready_starts k)
    have "s' = (s\<lparr>sh_states := (sh_states s)[k := ReqFinishing]\<rparr>)\<lparr>sh_main := Computing k\<rparr>" using ready_starts(1) by simp
    then show ?thesis using main_step [OF readying_starts [OF c _ ready_starts(4,5,3)]] p ready_starts(2) by simp
  next
    case (computes k r)
    show ?thesis unfolding computes(1) by (rule main_step, rule computing_ready [OF c]) (use p computes in simp)
  next
    case (readied k)
    show ?thesis unfolding readied(1) by (rule main_step) (use c stopping_starts [OF p, of "Ended_with None"] readied in simp)
  next
    case (stops k out)
    have s': "s' = (s\<lparr>sh_funcs := (sh_funcs s)[k := Stopped_func]\<rparr>)\<lparr>sh_main := Stopping (Suc k) out\<rparr>" using stops(1) by simp
    show ?thesis unfolding s' by (rule main_step, rule stopping_stops [OF c _ stops(4,3) refl]) (use p stops(2) in simp)
  next
    case (waits k out)
    show ?thesis unfolding waits(1) by (rule main_step, rule conjI [OF c], rule stopping_next) (use p waits in simp_all)
  next
    case (stopped k out)
    show ?thesis unfolding stopped(1) by (rule main_step, rule conjI [OF c], rule stopping_over) (use p stopped len in simp_all)
  next
    case (settles k err evicted)
    show ?thesis unfolding settles(1) sharing_ok_def by (rule settling_one [OF c]) (use p settles in simp_all)
  next
    case (settled k err evicted)
    show ?thesis unfolding settled(1) by (rule main_step) (use c p settled in simp)
  next
    case (sweeps k)
    show ?thesis unfolding sweeps(1) by (rule main_step, rule sweeping_one [OF c]) (use p sweeps in simp_all)
  next
    case (swept k)
    show ?thesis unfolding swept(1) by (rule main_step) (use c p swept in simp)
  next
    case (alone xs k ys a)
    show ?thesis unfolding alone(1) by (rule main_step, rule alone_one [OF c]) (use p alone in simp)
  next
    case returns
    show ?thesis unfolding returns(1) by (rule main_step) (use c p returns in simp)
  qed
qed

lemma new_sharing_ok: "sharing_ok (new_sharing n attempts)"
  by (auto simp: sharing_ok_def core_ok_def new_sharing_def left_over_def owes_def)

lemma scan_step_length: "scan_step unanswered internal s s' \<Longrightarrow> length (sh_states s') = length (sh_states s)"
  by (cases rule: scan_step.cases)
    (auto simp: func_leaves_def scan_leaves_def leave_def ready_def settle_one_def Let_def split: if_splits sum.splits req_state.splits option.splits)

lemma scan_reach_ok: "scan_reach unanswered internal n attempts s \<Longrightarrow> sharing_ok s \<and> length (sh_states s) = n"
proof (induction rule: scan_reach.induct)
  case start
  show ?case by (simp add: new_sharing_ok) (simp add: new_sharing_def)
next
  case (step s s')
  with scan_step_ok scan_step_length show ?case by metis
qed

section \<open>Its end is reached\<close>

text \<open>A function is stopped once, so the wait for one that has run never blocks.\<close>

definition stops_ok :: "('e, 'a) sharing \<Rightarrow> bool" where
  "stops_ok s \<longleftrightarrow> (\<forall>k < length (sh_funcs s). sh_funcs s ! k = Stopped_func \<longrightarrow>
     (case sh_main s of Scanning m \<Rightarrow> False | Readying i \<Rightarrow> False | Computing i \<Rightarrow> False | Stopping i out \<Rightarrow> k < i | _ \<Rightarrow> True))"

definition func_left :: "'e ctx_func \<Rightarrow> nat" where
  "func_left x = (case x of Armed \<Rightarrow> 2 | Owes e \<Rightarrow> 1 | _ \<Rightarrow> 0)"

definition state_left :: "req_state \<Rightarrow> nat" where
  "state_left x = (if x = ReqLive then 2 else 0)"

definition main_left :: "nat \<Rightarrow> 'e scan_main \<Rightarrow> nat" where
  "main_left n m = (case m of Scanning a \<Rightarrow> 5 + 6 * n + a | Readying k \<Rightarrow> 4 + 3 * n + 3 * (n - k) | Computing k \<Rightarrow> 3 + 3 * n + 3 * (n - k)
     | Stopping k out \<Rightarrow> 3 + 2 * n + (n - k) | Settling k err ev \<Rightarrow> 2 + 2 * (n - k) + length ev | Sweeping k \<Rightarrow> 1 + (n - k)
     | Alone ev \<Rightarrow> 1 + length ev | Done_main \<Rightarrow> 0)"

definition scan_left :: "('e, 'a) sharing \<Rightarrow> nat" where
  "scan_left s = sum_list (map func_left (sh_funcs s)) + length (sh_owed s) + sum_list (map state_left (sh_states s))
     + main_left (length (sh_states s)) (sh_main s)"

lemmas func_set = sum_list_set [where f = func_left]
lemmas state_set = sum_list_set [where f = state_left]

lemma left_main: "scan_left (t\<lparr>sh_main := m\<rparr>) + main_left (length (sh_states t)) (sh_main t) = scan_left t + main_left (length (sh_states t)) m"
  by (simp add: scan_left_def)

lemma scan_leaves_left: "k < length (sh_states s) \<Longrightarrow> scan_left (scan_leaves k e s) \<le> scan_left s
    \<and> (sh_states s ! k = ReqLive \<longrightarrow> scan_left (scan_leaves k e s) < scan_left s)"
  using state_set [of k "sh_states s" ReqDone] by (auto simp: scan_leaves_def leave_def scan_left_def state_left_def)

lemma scan_step_less:
  assumes "scan_step unanswered internal s s'" "sharing_ok s"
  shows "scan_left s' < scan_left s"
  using assms(1)
proof cases
  case (func_runs k e)
  have "k < length (sh_states s)" using func_runs assms(2) by (simp add: sharing_ok_def core_ok_def)
  then show ?thesis using func_runs func_set [of k "sh_funcs s" "Owes e"] func_set [of k "sh_funcs s" Over] state_set [of k "sh_states s" ReqDone]
    by (auto simp: func_leaves_def leave_def scan_left_def func_left_def state_left_def)
next
  case (func_answers k e)
  then show ?thesis using func_set [of k "sh_funcs s" Over] by (auto simp: scan_left_def func_left_def)
next
  case (leaves n k e)
  then show ?thesis using scan_leaves_left [of k s e] by simp
next
  case (evicts n k)
  then show ?thesis using state_set [of k "sh_states s" ReqEvicted] by (auto simp: leave_def scan_left_def state_left_def split: if_splits)
next
  case (ready_gone k e)
  have main: "sh_main (scan_leaves k e s) = sh_main s" "length (sh_states (scan_leaves k e s)) = length (sh_states s)"
    by (auto simp: scan_leaves_def leave_def)
  from left_main [where t = "scan_leaves k e s" and m = "Readying (Suc k)"] have "scan_left s' + 3 * (length (sh_states s) - k) = scan_left (scan_leaves k e s) + 3 * (length (sh_states s) - Suc k)"
    unfolding ready_gone(1) by (simp add: main ready_gone(2) main_left_def)
  moreover have "length (sh_states s) - k = Suc (length (sh_states s) - Suc k)" using ready_gone(4) by simp
  ultimately show ?thesis using conjunct1 [OF scan_leaves_left [OF ready_gone(4), of e]] by linarith
next
  case (ready_starts k)
  then show ?thesis using state_set [of k "sh_states s" ReqFinishing] by (auto simp: scan_left_def state_left_def main_left_def)
next
  case (computes k r)
  then have k: "k < length (sh_states s)" using assms(2) by (simp add: sharing_ok_def)
  then show ?thesis using computes state_set [OF k, of ReqDone] by (cases r) (auto simp: ready_def scan_left_def state_left_def main_left_def)
next
  case (stops k out)
  have "k < length (sh_states s)" using stops assms(2) by (simp add: sharing_ok_def core_ok_def)
  then show ?thesis using stops func_set [of k "sh_funcs s" Stopped_func] by (auto simp: scan_left_def func_left_def main_left_def)
next
  case (waits k out)
  have "k < length (sh_states s)" using waits assms(2) by (simp add: sharing_ok_def core_ok_def)
  then show ?thesis using waits by (simp add: scan_left_def main_left_def)
next
  case (stopped k out)
  then show ?thesis by (cases out) (simp_all add: scan_left_def main_left_def)
next
  case (settles k err evicted)
  then show ?thesis using state_set [of k "sh_states s" ReqDone]
    by (auto simp: settle_one_def Let_def scan_left_def main_left_def state_left_def split: req_state.split option.split)
qed (auto simp: scan_left_def main_left_def)

lemma scan_step_stops:
  assumes "scan_step unanswered internal s s'" "stops_ok s"
  shows "stops_ok s'"
  using assms(1)
proof cases
  case (func_runs k e)
  then have "sh_funcs s' ! j = Stopped_func \<Longrightarrow> sh_funcs s ! j = Stopped_func" for j
    by (cases "j = k") (auto simp: func_leaves_def leave_def split: if_splits)
  moreover have "sh_main s' = sh_main s" "length (sh_funcs s') = length (sh_funcs s)" using func_runs by (auto simp: func_leaves_def leave_def)
  ultimately show ?thesis using assms(2) by (simp add: stops_ok_def)
next
  case (func_answers k e)
  then have "sh_funcs s' ! j = Stopped_func \<Longrightarrow> sh_funcs s ! j = Stopped_func" for j by (cases "j = k") auto
  then show ?thesis using assms(2) func_answers by (simp add: stops_ok_def)
next
  case (leaves n k e)
  then show ?thesis using assms(2) by (auto simp: stops_ok_def scan_leaves_def leave_def)
next
  case (evicts n k)
  then show ?thesis using assms(2) by (auto simp: stops_ok_def leave_def split: if_splits)
next
  case (ready_gone k e)
  then show ?thesis using assms(2) by (auto simp: stops_ok_def scan_leaves_def leave_def)
next
  case (computes k r)
  then show ?thesis using assms(2) by (auto simp: stops_ok_def ready_def split: sum.splits)
next
  case (stops k out)
  then show ?thesis using assms(2) by (auto simp: stops_ok_def nth_list_update less_Suc_eq)
next
  case (settles k err evicted)
  then show ?thesis using assms(2)
    by (auto simp: stops_ok_def settle_one_def Let_def split: req_state.split option.split)
next
  case (stopped k out)
  then show ?thesis using assms(2) by (auto simp: stops_ok_def split: outcome.split)
qed (use assms(2) in \<open>auto simp: stops_ok_def less_Suc_eq\<close>)

lemma scan_reach_stops: "scan_reach unanswered internal n attempts s \<Longrightarrow> stops_ok s"
proof (induction rule: scan_reach.induct)
  case start
  show ?case by (simp add: stops_ok_def new_sharing_def)
next
  case (step s s')
  with scan_step_stops show ?case by metis
qed

text \<open>The scan's goroutine, a worker with an answer, or a function that has run can always go on.\<close>

lemma scan_can_go:
  assumes "sharing_ok s" "stops_ok s" "sh_main s \<noteq> Done_main"
  shows "\<exists>s'. scan_step unanswered internal s s'"
proof (cases "sh_owed s")
  case (Cons x xs)
  obtain k e where "x = (k, e)" by force
  with Cons scan_step.owed_answers [of s "[]" k e xs] show ?thesis by auto
next
  case Nil
  have len: "length (sh_funcs s) = length (sh_states s)" using assms(1) by (simp add: sharing_ok_def core_ok_def)
  show ?thesis
  proof (cases "sh_main s")
    case (Scanning m)
    then show ?thesis using scan_step.panics [of s m] Nil by blast
  next
    case (Readying k)
    then show ?thesis using scan_step.ready_gone [of s k] scan_step.readied [of s k] Nil by blast
  next
    case (Computing k)
    then show ?thesis using scan_step.computes [of s k] by blast
  next
    case (Stopping k out)
    show ?thesis
    proof (cases "k < length (sh_funcs s)")
      case True
      have "sh_funcs s ! k \<noteq> Stopped_func" using assms(2) Stopping True by (auto simp: stops_ok_def)
      then show ?thesis using scan_step.stops [of s k out] scan_step.waits [of s k out] scan_step.func_answers [of k s] Stopping True
        by (cases "sh_funcs s ! k") blast+
    next
      case False
      then show ?thesis using scan_step.stopped [of s k out] Stopping by blast
    qed
  next
    case (Settling k err ev)
    then show ?thesis using scan_step.settles [of s k err ev] scan_step.settled [of s k err ev] by blast
  next
    case (Sweeping k)
    then show ?thesis using scan_step.sweeps [of s k] scan_step.swept [of s k] by blast
  next
    case (Alone ev)
    show ?thesis
    proof (cases ev)
      case Nil
      with Alone scan_step.returns [of s] show ?thesis by blast
    next
      case (Cons k ks)
      with Alone scan_step.alone [of s "[]" k ks] show ?thesis by auto
    qed
  qed (use assms(3) in simp)
qed

section \<open>Properties\<close>

text \<open>
  C12: Whatever fails, is evicted, leaves with its context or panics, in any interleaving: no request of a
  shared scan is answered twice, and when the scan has returned each has been answered. The error
  for a query left unanswered is never used: a scan that ended well has no request live.
\<close>

theorem requests_answered_once:
  assumes "scan_reach unanswered internal n attempts s"
  shows "distinct (map fst (sh_out s)) \<and> set (map fst (sh_out s)) \<subseteq> {..<n}
    \<and> (sh_main s = Done_main \<longrightarrow> set (map fst (sh_out s)) = {..<n})
    \<and> (\<forall>k ev. sh_main s = Settling k None ev \<longrightarrow> (\<forall>j < n. k \<le> j \<longrightarrow> sh_states s ! j \<noteq> ReqLive))"
proof -
  have ok: "core_ok s" "phase_ok s (sh_main s)" "length (sh_states s) = n" using scan_reach_ok [OF assms] by (auto simp: sharing_ok_def)
  note c = core_okD [OF ok(1)]
  have "set (map fst (sh_out s)) = sh_answered s" using c(4) by simp
  moreover have "sh_answered s = {..<n}" if "sh_main s = Done_main" using ok(2,3) c(5) that by auto
  moreover have "sh_states s ! j \<noteq> ReqLive" if "sh_main s = Settling k None ev" "j < n" "k \<le> j" for j k ev using ok(2,3) that by auto
  ultimately show ?thesis using c(3,5) ok(3) by auto
qed

text \<open>
  C15: While a shared scan reads, it is stopped exactly when no request of it is live; and however its
  requests and their contexts end, it takes a bounded number of steps and can always go on until it
  has returned.
\<close>

theorem shared_scan_returns:
  assumes "scan_reach unanswered internal n attempts s" "0 < n"
  shows "(\<forall>m. sh_main s = Scanning m \<longrightarrow> (sh_cancelled s \<longleftrightarrow> ReqLive \<notin> set (sh_states s)))
    \<and> (sh_main s \<noteq> Done_main \<longrightarrow> (\<exists>s'. scan_step unanswered internal s s'))
    \<and> ((scan_step unanswered internal ^^ k) s s' \<longrightarrow> k \<le> scan_left s)
    \<and> scan_left (new_sharing n attempts) = 10 * n + attempts + 5"
proof (intro conjI)
  have ok: "sharing_ok s" "length (sh_states s) = n" using scan_reach_ok [OF assms(1)] by auto
  show "\<forall>m. sh_main s = Scanning m \<longrightarrow> (sh_cancelled s \<longleftrightarrow> ReqLive \<notin> set (sh_states s))"
  proof (intro allI impI)
    fix m assume "sh_main s = Scanning m"
    then have "sh_cancelled s \<longleftrightarrow> sh_states s \<noteq> [] \<and> length (filter (\<lambda>x. x = ReqLive) (sh_states s)) = 0" using ok(1) by (simp add: sharing_ok_def)
    then show "sh_cancelled s \<longleftrightarrow> ReqLive \<notin> set (sh_states s)" using assms(2) ok(2) by (auto simp: filter_empty_conv)
  qed
  show "sh_main s \<noteq> Done_main \<longrightarrow> (\<exists>s'. scan_step unanswered internal s s')"
    using scan_can_go [OF ok(1) scan_reach_stops [OF assms(1)]] by blast
  have "sharing_ok s' \<and> scan_left s' + k \<le> scan_left s" if "(scan_step unanswered internal ^^ k) s s'" for k s'
    using that
  proof (induction k arbitrary: s')
    case (Suc k)
    then obtain t where t: "(scan_step unanswered internal ^^ k) s t" "scan_step unanswered internal t s'" by auto
    with Suc.IH [OF t(1)] scan_step_ok [OF t(2)] scan_step_less [OF t(2)] show ?case by simp
  qed (simp add: ok)
  then show "(scan_step unanswered internal ^^ k) s s' \<longrightarrow> k \<le> scan_left s" by (metis add_leD2)
  show "scan_left (new_sharing n attempts) = 10 * n + attempts + 5"
    by (simp add: scan_left_def new_sharing_def func_left_def state_left_def main_left_def sum_list_replicate)
qed

lemma sample_scan:
  "\<exists>s. scan_reach ''left'' ''bug'' 2 9 (s :: (string, nat) sharing) \<and> sh_out s = [(0, Refused ''gone'')] \<and> sh_main s = Readying 0"
proof -
  let ?s0 = "new_sharing 2 9 :: (string, nat) sharing"
  let ?s1 = "scan_leaves 0 ''gone'' ?s0"
  let ?s2 = "(answer 0 (Refused ''gone'') ?s1)\<lparr>sh_owed := []\<rparr>"
  have s0: "scan_reach ''left'' ''bug'' 2 9 ?s0" by (rule scan_reach.start)
  have "scan_step ''left'' ''bug'' ?s0 ?s1" by (rule scan_step.leaves) (simp_all add: new_sharing_def)
  with s0 have s1: "scan_reach ''left'' ''bug'' 2 9 ?s1" by (rule scan_reach.step)
  have l: "sh_owed ?s1 = [] @ (0, ''gone'') # []" "sh_main ?s1 = Scanning 9" "sh_answered ?s1 = {}" "sh_out ?s1 = []"
    by (simp_all add: scan_leaves_def leave_def new_sharing_def)
  have "scan_step ''left'' ''bug'' ?s1 ?s2" using scan_step.owed_answers [OF l(1)] by simp
  with s1 have s2: "scan_reach ''left'' ''bug'' 2 9 ?s2" by (rule scan_reach.step)
  have "scan_step ''left'' ''bug'' ?s2 (?s2\<lparr>sh_main := Readying 0\<rparr>)" by (rule scan_step.scanned [where n = 9]) (use l(2) in simp_all)
  with s2 have "scan_reach ''left'' ''bug'' 2 9 (?s2\<lparr>sh_main := Readying 0\<rparr>)" by (rule scan_reach.step)
  then show ?thesis by (intro exI [of _ "?s2\<lparr>sh_main := Readying 0\<rparr>"]) (simp add: answer_def l)
qed

theorem requests_answered_once_witness:
  "\<exists>s. scan_reach ''left'' ''bug'' 2 9 (s :: (string, nat) sharing) \<and> sh_out s = [(0, Refused ''gone'')]
     \<and> distinct (map fst (sh_out s)) \<and> set (map fst (sh_out s)) \<subseteq> {..<2}"
  using sample_scan requests_answered_once [where unanswered = "''left''" and internal = "''bug''" and n = 2 and attempts = 9] by blast

theorem shared_scan_returns_witness:
  "\<exists>s s'. scan_reach ''left'' ''bug'' 2 9 (s :: (string, nat) sharing) \<and> sh_main s = Readying 0 \<and> scan_step ''left'' ''bug'' s s'"
proof -
  obtain s :: "(string, nat) sharing" where s: "scan_reach ''left'' ''bug'' 2 9 s" "sh_main s = Readying 0" using sample_scan by blast
  from conjunct1 [OF conjunct2 [OF shared_scan_returns [OF s(1)]]] s(2) have "\<exists>s'. scan_step ''left'' ''bug'' s s'" by simp
  with s show ?thesis by blast
qed

end
