(* ===== verification/ScanBudget.thy ===== *)
theory ScanBudget
  imports SharedScan
begin

text \<open>
  The memory check of a shared scan (\<^verbatim>\<open>checkBudget\<close> of \<^verbatim>\<open>internal/native/many.go\<close>): while the
  aggregations of all requests hold more than the scan may, the request that holds the most is evicted,
  its aggregations dropped. Shown: the check ends, below the limit or with nothing left to drop, and evicts
  only live requests, none lighter than one that stays.
\<close>

section \<open>The memory check\<close>

text \<open>
  A request's aggregations: whether each is still held, its bytes, and of those the views' of gap days and
  the identities', which are counted once for the scan. A snapshot of the counters the workers add to.
\<close>

record consumer =
  cn_held :: bool
  cn_bytes :: int
  cn_derived :: int
  cn_ids :: int

definition held_bytes :: "consumer list \<Rightarrow> int" where
  "held_bytes cs = sum_list (map (\<lambda>c. if cn_held c then cn_bytes c - cn_derived c - cn_ids c else 0) cs)"

definition ids_bytes :: "consumer list list \<Rightarrow> int" where
  "ids_bytes css = foldl max 0 (map cn_ids (filter cn_held (concat css)))"

text \<open>The first of the requests that hold the most.\<close>

fun heaviest_from :: "nat \<Rightarrow> (nat \<times> int) option \<Rightarrow> consumer list list \<Rightarrow> (nat \<times> int) option" where
  "heaviest_from k most [] = most"
| "heaviest_from k most (cs # css) = heaviest_from (Suc k)
     (case most of None \<Rightarrow> Some (k, held_bytes cs) | Some (i, n) \<Rightarrow> if held_bytes cs > n then Some (k, held_bytes cs) else most) css"

definition scan_total :: "int \<Rightarrow> consumer list list \<Rightarrow> int" where
  "scan_total derived css = derived + sum_list (map held_bytes css) + ids_bytes css"

definition budget_limit :: "nat \<Rightarrow> int \<Rightarrow> int" where
  "budget_limit turns max_bytes = int turns * max_bytes"

definition drop_held :: "nat \<Rightarrow> consumer list list \<Rightarrow> consumer list list" where
  "drop_held k css = css[k := map (\<lambda>c. c\<lparr>cn_held := False\<rparr>) (css ! k)]"

partial_function (option) budget_loop ::
    "int \<Rightarrow> int \<Rightarrow> ('e, 'a) sharing \<Rightarrow> consumer list list \<Rightarrow> (('e, 'a) sharing \<times> consumer list list) option" where
  "budget_loop limit derived s css = (case heaviest_from 0 None css of
       None \<Rightarrow> Some (s, css)
     | Some (k, n) \<Rightarrow> if scan_total derived css \<le> limit \<or> n \<le> 0 then Some (s, css)
         else if fst (leave k ReqEvicted s) then budget_loop limit derived (snd (leave k ReqEvicted s)) (drop_held k css)
         else budget_loop limit derived s css)"

lemma heaviest_from_spec:
  "(\<And>i n. most = Some (i, n) \<Longrightarrow> P i n) \<Longrightarrow> (\<And>j. j < length css \<Longrightarrow> P (k + j) (held_bytes (css ! j))) \<Longrightarrow> heaviest_from k most css = Some (i, n)
   \<Longrightarrow> P i n \<and> (\<forall>cs \<in> set css. held_bytes cs \<le> n) \<and> (\<forall>i' n'. most = Some (i', n') \<longrightarrow> n' \<le> n)"
proof (induction k most css rule: heaviest_from.induct)
  case (2 k most cs css)
  let ?most = "case most of None \<Rightarrow> Some (k, held_bytes cs) | Some (i, n) \<Rightarrow> if held_bytes cs > n then Some (k, held_bytes cs) else most"
  have "P k (held_bytes cs)" using "2.prems"(2) [of 0] by simp
  then have "P i n \<and> (\<forall>cs \<in> set css. held_bytes cs \<le> n) \<and> (\<forall>i' n'. ?most = Some (i', n') \<longrightarrow> n' \<le> n)"
    using "2.prems" by (intro "2.IH") (auto split: option.splits if_splits dest: "2.prems"(2) [of "Suc _", simplified])
  then show ?case by (cases most) (auto split: if_splits)
qed auto

lemma heaviest_None: "heaviest_from k most css = None \<longleftrightarrow> most = None \<and> css = []"
  by (induction k most css rule: heaviest_from.induct) (auto split: option.splits)

lemma heaviest:
  assumes "heaviest_from 0 None css = Some (k, n)"
  shows "k < length css \<and> n = held_bytes (css ! k)" "\<forall>cs \<in> set css. held_bytes cs \<le> n"
  using heaviest_from_spec [of None "\<lambda>i n. i < length css \<and> n = held_bytes (css ! i)" css 0 k n] assms by auto

lemma held_dropped: "\<forall>c \<in> set cs. \<not> cn_held c \<Longrightarrow> held_bytes cs = 0"
  unfolding held_bytes_def by (induction cs) auto

definition left_dropped :: "('e, 'a) sharing \<Rightarrow> consumer list list \<Rightarrow> bool" where
  "left_dropped s css \<longleftrightarrow> length css = length (sh_states s) \<and> (\<forall>k < length css. sh_states s ! k \<noteq> ReqLive \<longrightarrow> (\<forall>c \<in> set (css ! k). \<not> cn_held c))"

text \<open>What the check has done: some live requests are evicted, each holding no less than those that stay.\<close>

definition evicted_to :: "('e, 'a) sharing \<Rightarrow> consumer list list \<Rightarrow> ('e, 'a) sharing \<Rightarrow> consumer list list \<Rightarrow> bool" where
  "evicted_to s css s' css' \<longleftrightarrow> length (sh_states s') = length (sh_states s) \<and> length css' = length css
     \<and> (\<forall>k < length css. (sh_states s' ! k = sh_states s ! k \<and> css' ! k = css ! k)
         \<or> (sh_states s ! k = ReqLive \<and> sh_states s' ! k = ReqEvicted \<and> 0 < held_bytes (css ! k)
            \<and> (\<forall>j < length css. sh_states s' ! j = ReqLive \<longrightarrow> held_bytes (css ! j) \<le> held_bytes (css ! k))))"

lemma evict_heaviest:
  assumes "left_dropped s css" "heaviest_from 0 None css = Some (k, n)" "0 < n" "s1 = snd (leave k ReqEvicted s)" "css1 = drop_held k css"
  shows "fst (leave k ReqEvicted s)" "k < length css" "sh_states s ! k = ReqLive" "sh_states s1 = (sh_states s)[k := ReqEvicted]"
    "left_dropped s1 css1" "length (filter (\<lambda>x. x = ReqLive) (sh_states s1)) < length (filter (\<lambda>x. x = ReqLive) (sh_states s))"
proof -
  note h = heaviest [OF assms(2)]
  have len: "length css = length (sh_states s)" using assms(1) by (simp add: left_dropped_def)
  show k: "k < length css" using h(1) by simp
  show live: "sh_states s ! k = ReqLive"
  proof (rule ccontr)
    assume "sh_states s ! k \<noteq> ReqLive"
    with assms(1) k have "held_bytes (css ! k) = 0" by (intro held_dropped) (simp add: left_dropped_def)
    with h(1) assms(3) show False by simp
  qed
  show "fst (leave k ReqEvicted s)" by (simp add: leave_simps live)
  show st: "sh_states s1 = (sh_states s)[k := ReqEvicted]" by (simp add: assms(4) leave_simps live)
  show "left_dropped s1 css1" using assms(1) k len unfolding left_dropped_def st assms(5) drop_held_def by (auto simp: nth_list_update)
  show "length (filter (\<lambda>x. x = ReqLive) (sh_states s1)) < length (filter (\<lambda>x. x = ReqLive) (sh_states s))"
    using filter_leaves [of k "sh_states s" ReqEvicted] k len live unfolding st by simp
qed

lemma evicted_to_refl: "left_dropped s css \<Longrightarrow> evicted_to s css s css"
  by (simp add: evicted_to_def)

lemma evicted_to_first:
  assumes "evicted_to s1 css1 s' css'" "s1 = snd (leave k ReqEvicted s)" "css1 = drop_held k css" "left_dropped s css"
    and "heaviest_from 0 None css = Some (k, n)" "0 < n"
  shows "evicted_to s css s' css'"
proof -
  note h = heaviest [OF assms(5)]
  note e = evict_heaviest [OF assms(4,5,6,2,3)]
  have len: "length css1 = length css" "length css = length (sh_states s)" using assms(4) by (simp_all add: assms(3) drop_held_def left_dropped_def)
  have lens: "length (sh_states s') = length (sh_states s)" "length css' = length css" using assms(1) len by (simp_all add: evicted_to_def e(4))
  have each: "(sh_states s' ! j = sh_states s1 ! j \<and> css' ! j = css1 ! j) \<or> (sh_states s1 ! j = ReqLive \<and> sh_states s' ! j = ReqEvicted \<and> 0 < held_bytes (css1 ! j)
      \<and> (\<forall>i < length css. sh_states s' ! i = ReqLive \<longrightarrow> held_bytes (css1 ! i) \<le> held_bytes (css1 ! j)))" if "j < length css" for j
    using assms(1) len that unfolding evicted_to_def by auto
  have at_k: "sh_states s1 ! k = ReqEvicted" using e(2,4) len by simp
  then have k: "sh_states s' ! k = ReqEvicted" using each [OF e(2)] by auto
  have other: "sh_states s1 ! j = sh_states s ! j" "css1 ! j = css ! j" if "j \<noteq> k" for j using that by (simp_all add: e(4) assms(3) drop_held_def)
  have "held_bytes (css ! i) \<le> held_bytes (css ! k)" if "i < length css" for i using h that by simp
  moreover have "(sh_states s' ! j = sh_states s ! j \<and> css' ! j = css ! j) \<or> (sh_states s ! j = ReqLive \<and> sh_states s' ! j = ReqEvicted \<and> 0 < held_bytes (css ! j)
      \<and> (\<forall>i < length css. sh_states s' ! i = ReqLive \<longrightarrow> held_bytes (css ! i) \<le> held_bytes (css ! j)))" if "j < length css" "j \<noteq> k" for j
    using each [OF that(1)] other [OF that(2)] other(2) k by (metis req_state.distinct(3))
  ultimately have "(sh_states s' ! j = sh_states s ! j \<and> css' ! j = css ! j) \<or> (sh_states s ! j = ReqLive \<and> sh_states s' ! j = ReqEvicted \<and> 0 < held_bytes (css ! j)
      \<and> (\<forall>i < length css. sh_states s' ! i = ReqLive \<longrightarrow> held_bytes (css ! i) \<le> held_bytes (css ! j)))" if "j < length css" for j
    using that e(3) k h(1) assms(6) by (cases "j = k") auto
  then show ?thesis using lens by (simp add: evicted_to_def)
qed

lemma budget_loop_ends:
  assumes "left_dropped s css"
  shows "\<exists>s' css'. budget_loop limit derived s css = Some (s', css') \<and> left_dropped s' css' \<and> evicted_to s css s' css'
    \<and> (scan_total derived css' \<le> limit \<or> (\<forall>cs \<in> set css'. held_bytes cs \<le> 0))
    \<and> (scan_total derived css \<le> limit \<longrightarrow> s' = s \<and> css' = css)"
  using assms
proof (induction "length (filter (\<lambda>x. x = ReqLive) (sh_states s))" arbitrary: s css rule: less_induct)
  case less
  show ?case
  proof (cases "heaviest_from 0 None css")
    case None
    then have "css = []" by (simp add: heaviest_None)
    then show ?thesis using less.prems None by (subst budget_loop.simps) (simp add: evicted_to_refl)
  next
    case (Some kn)
    then obtain k n where h: "heaviest_from 0 None css = Some (k, n)" by (cases kn) auto
    show ?thesis
    proof (cases "scan_total derived css \<le> limit \<or> n \<le> 0")
      case True
      then have "budget_loop limit derived s css = Some (s, css)" by (subst budget_loop.simps) (simp add: h)
      moreover have "\<forall>cs \<in> set css. held_bytes cs \<le> 0" if "n \<le> 0" using heaviest(2) [OF h] that by force
      ultimately show ?thesis using True less.prems by (auto simp: evicted_to_refl)
    next
      case False
      then have n: "0 < n" by simp
      note e = evict_heaviest [OF less.prems h n refl refl]
      have loop: "budget_loop limit derived s css = budget_loop limit derived (snd (leave k ReqEvicted s)) (drop_held k css)"
        by (subst budget_loop.simps) (use False e(1) in \<open>simp add: h\<close>)
      from less.hyps [OF e(6,5)] obtain s' css' where "budget_loop limit derived (snd (leave k ReqEvicted s)) (drop_held k css) = Some (s', css')"
        "left_dropped s' css'" "evicted_to (snd (leave k ReqEvicted s)) (drop_held k css) s' css'"
        "scan_total derived css' \<le> limit \<or> (\<forall>cs \<in> set css'. held_bytes cs \<le> 0)" by blast
      with loop False evicted_to_first [OF _ refl refl less.prems h n] show ?thesis by auto
    qed
  qed
qed

text \<open>
  C16: The memory check of a shared scan always ends. It does nothing while the aggregations, with the
  gap days' views and the identities counted once, are within the limit; otherwise it leaves them within
  it, or holding nothing that eviction could free. It evicts only requests that are live and hold
  something, none that holds less than one it leaves live.
\<close>

theorem budget_check_evicts:
  assumes "left_dropped s css"
  shows "\<exists>s' css'. budget_loop (budget_limit turns max_bytes) derived s css = Some (s', css')
    \<and> (scan_total derived css \<le> budget_limit turns max_bytes \<longrightarrow> s' = s \<and> css' = css)
    \<and> (scan_total derived css' \<le> budget_limit turns max_bytes \<or> (\<forall>cs \<in> set css'. held_bytes cs \<le> 0))
    \<and> (\<forall>k < length css. (sh_states s' ! k = sh_states s ! k \<and> css' ! k = css ! k)
         \<or> (sh_states s ! k = ReqLive \<and> sh_states s' ! k = ReqEvicted \<and> 0 < held_bytes (css ! k)
            \<and> (\<forall>j < length css. sh_states s' ! j = ReqLive \<longrightarrow> held_bytes (css ! j) \<le> held_bytes (css ! k))))"
  using budget_loop_ends [OF assms] unfolding evicted_to_def by blast

definition sample_consumers :: "consumer list list" where
  "sample_consumers = [[\<lparr>cn_held = True, cn_bytes = 40, cn_derived = 0, cn_ids = 5\<rparr>],
     [\<lparr>cn_held = True, cn_bytes = 70, cn_derived = 0, cn_ids = 5\<rparr>, \<lparr>cn_held = True, cn_bytes = 20, cn_derived = 0, cn_ids = 5\<rparr>]]"

theorem budget_check_evicts_witness:
  "\<exists>s' css'. budget_loop (budget_limit 1 100) 0 (new_sharing 2 9 :: (string, nat) sharing) sample_consumers = Some (s', css')
    \<and> (scan_total 0 css' \<le> 100 \<or> (\<forall>cs \<in> set css'. held_bytes cs \<le> 0)) \<and> 100 < scan_total 0 sample_consumers"
proof -
  have d: "left_dropped (new_sharing 2 9 :: (string, nat) sharing) sample_consumers"
    by (simp add: left_dropped_def new_sharing_def sample_consumers_def less_Suc_eq numeral_2_eq_2)
  have l: "budget_limit 1 100 = 100" by (simp add: budget_limit_def)
  have "100 < scan_total 0 sample_consumers" by code_simp
  then show ?thesis using budget_check_evicts [OF d, of 1 100 0] unfolding l by blast
qed

end
