(* ===== verification/ScanPlan.thy ===== *)
theory ScanPlan
  imports AggAnswer
begin

text \<open>
  What a scan reads of the Parquet files (\<^verbatim>\<open>internal/native/scan.go\<close>, \<^verbatim>\<open>parquet.go\<close>,
  \<^verbatim>\<open>files.go\<close>, and \<^verbatim>\<open>feedGroup\<close> of \<^verbatim>\<open>many.go\<close>): the files whose name may overlap the
  days asked for, the row groups whose statistics do not exclude them, the columns, and the rows. The
  footer, the statistics and the decoded column of a row group are parameters: what the Parquet reader
  gives. Shown: the statistics never lose a row, and reading a group for many queries at once gives each
  the batch it would have read alone.
\<close>

section \<open>What the statistics say\<close>

record chunk_stats =
  st_min_value :: "string option"
  st_max_value :: "string option"
  st_min :: "string option"
  st_max :: "string option"
  st_nulls :: int

record group_stats =
  gs_fam :: bool
  gs_fam_min :: string
  gs_fam_max :: string
  gs_fam_nulls :: int
  gs_day :: bool
  gs_day_min :: int
  gs_day_max :: int
  gs_day_nulls :: int

definition no_stats :: group_stats where
  "no_stats = \<lparr>gs_fam = False, gs_fam_min = [], gs_fam_max = [], gs_fam_nulls = 0, gs_day = False, gs_day_min = 0, gs_day_max = 0, gs_day_nulls = 0\<rparr>"

definition min_max :: "chunk_stats list \<Rightarrow> int \<Rightarrow> (string \<times> string \<times> int) option" where
  "min_max columns i = (if i < 0 \<or> i \<ge> int (length columns) then None
     else let st = columns ! nat i in
       case (st_min_value st, st_max_value st) of (Some lo, Some hi) \<Rightarrow> Some (lo, hi, st_nulls st)
       | _ \<Rightarrow> (case (st_min st, st_max st) of (Some lo, Some hi) \<Rightarrow> Some (lo, hi, st_nulls st) | _ \<Rightarrow> None))"

text \<open>Four bytes, the lowest first, as a signed 32-bit integer.\<close>

definition le_int32 :: "string \<Rightarrow> int" where
  "le_int32 bs = (let n = of_char (bs ! 0) + 256 * of_char (bs ! 1) + 65536 * of_char (bs ! 2) + 16777216 * of_char (bs ! 3)
     in if n < 2147483648 then n else n - 4294967296)"

definition stats_of :: "chunk_stats list \<Rightarrow> int \<Rightarrow> int \<Rightarrow> group_stats" where
  "stats_of columns fam_idx day_idx =
     (let g = (case min_max columns fam_idx of None \<Rightarrow> no_stats
        | Some (lo, hi, nulls) \<Rightarrow> no_stats\<lparr>gs_fam := True, gs_fam_min := lo, gs_fam_max := hi, gs_fam_nulls := nulls\<rparr>)
      in case min_max columns day_idx of None \<Rightarrow> g
        | Some (lo, hi, nulls) \<Rightarrow> if length lo = 4 \<and> length hi = 4
            then g\<lparr>gs_day := True, gs_day_nulls := nulls, gs_day_min := le_int32 lo, gs_day_max := le_int32 hi\<rparr> else g)"

definition family_checks :: string where "family_checks = ''checks''"

definition decide :: "group_stats \<Rightarrow> string \<Rightarrow> int \<Rightarrow> int \<Rightarrow> bool \<times> bool" where
  "decide g family from to =
     (if family \<noteq> [] \<and> gs_fam g \<and>
         (if family = not_checks then gs_fam_nulls g = 0 \<and> gs_fam_min g = family_checks \<and> gs_fam_max g = family_checks
          else family < gs_fam_min g \<or> gs_fam_max g < family) then (False, False)
      else if gs_day g \<and> (gs_day_max g < from \<or> to < gs_day_min g) then (False, False)
      else let fam_all =
          (if family = [] then True
           else if family = not_checks then gs_fam g \<and> (gs_fam_max g < family_checks \<or> family_checks < gs_fam_min g)
           else gs_fam g \<and> gs_fam_nulls g = 0 \<and> gs_fam_min g = family \<and> gs_fam_max g = family)
        in (True, fam_all \<and> gs_day g \<and> gs_day_nulls g = 0 \<and> from \<le> gs_day_min g \<and> gs_day_max g \<le> to))"

definition may_hold :: "group_stats \<Rightarrow> string list \<Rightarrow> bool" where
  "may_hold g families \<longleftrightarrow> \<not> gs_fam g \<or> (\<exists>f \<in> set families. gs_fam_min g \<le> f \<and> f \<le> gs_fam_max g)"

section \<open>What a file's name says\<close>

definition month_of_name :: "string \<Rightarrow> string option" where
  "month_of_name name = (if length name = 15 \<and> list_all is_digit (take 4 name) \<and> name ! 4 = CHR ''-'' \<and> list_all is_digit (take 2 (drop 5 name))
       \<and> drop 7 name = ''.parquet'' then Some (take 7 name) else None)"

definition day_of_name :: "string \<Rightarrow> string option" where
  "day_of_name name = (if 11 \<le> length name \<and> list_all is_digit (take 4 name) \<and> name ! 4 = CHR ''-'' \<and> list_all is_digit (take 2 (drop 5 name))
       \<and> name ! 7 = CHR ''-'' \<and> list_all is_digit (take 2 (drop 8 name)) \<and> name ! 10 = CHR ''.'' then Some (take 10 name) else None)"

text \<open>The last day of the month that starts on day \<open>first\<close>.\<close>

definition month_end :: "int \<Rightarrow> int" where
  "month_end first = (case civil_of first of (y, m, d) \<Rightarrow> (if m = 12 then epoch_day (y + 1) 1 1 else epoch_day y (m + 1) 1) - 1)"

definition overlaps :: "string \<Rightarrow> int \<Rightarrow> int \<Rightarrow> bool" where
  "overlaps name from to = (case month_of_name name of
       Some m \<Rightarrow> (case parse_day (m @ ''-01'') of None \<Rightarrow> True | Some first \<Rightarrow> \<not> month_end first < from \<and> \<not> to < first)
     | None \<Rightarrow> (case day_of_name name of
           Some d \<Rightarrow> (case parse_day d of None \<Rightarrow> True | Some day \<Rightarrow> \<not> day < from \<and> \<not> to < day)
         | None \<Rightarrow> True))"

text \<open>A project's files, with their base names, and the gaps of its sessions files.\<close>

definition files_in :: "(string \<Rightarrow> string) \<Rightarrow> string list \<times> string list \<Rightarrow> int \<Rightarrow> int \<Rightarrow> string list \<times> string list" where
  "files_in base files from to = (filter (\<lambda>p. overlaps (base p) from to) (fst files), filter (\<lambda>p. overlaps (base p) from to) (snd files))"

definition session_gaps :: "int \<Rightarrow> int \<Rightarrow> (int \<times> int) list \<Rightarrow> int list" where
  "session_gaps from to gaps = concat (map (\<lambda>(a, b). [max a from..min b to]) gaps)"

section \<open>Columns and rows\<close>

definition add_new :: "string list \<Rightarrow> string \<Rightarrow> string list" where
  "add_new out n = (if n \<in> set out then out else out @ [n])"

definition prefix_of :: "string \<Rightarrow> string option" where
  "prefix_of w = (if w \<noteq> [] \<and> last w = CHR ''*'' then Some (butlast w) else None)"

definition expansion :: "(string \<Rightarrow> string) \<Rightarrow> string list \<Rightarrow> string \<Rightarrow> string list" where
  "expansion low file_cols w = (case prefix_of w of
       Some p \<Rightarrow> filter (\<lambda>c. take (length p) c = p) file_cols
     | None \<Rightarrow> (case resolve_name low w file_cols of (n, ok) \<Rightarrow> [if ok then n else w]))"

definition expand_cols :: "(string \<Rightarrow> string) \<Rightarrow> string list \<Rightarrow> string list \<Rightarrow> string list" where
  "expand_cols low file_cols want = foldl (\<lambda>out w. foldl add_new out (expansion low file_cols w)) [] want"

definition filter_sel :: "'f batch \<Rightarrow> string \<Rightarrow> int \<Rightarrow> int \<Rightarrow> nat list" where
  "filter_sel b family from to =
     (let fam = the (map_of (b_cols b) ''family''); day = the (map_of (b_cols b) ''day'')
      in filter (\<lambda>i. (family = [] \<or> (let f = the (c_idx fam) ! i in
             \<not> ((f < 0 \<and> family \<noteq> not_checks) \<or> (0 \<le> f \<and> \<not> fam_match family (c_dict fam ! nat f)))))
           \<and> \<not> is_null day i \<and> from \<le> the (c_ints day) ! i \<and> the (c_ints day) ! i \<le> to) [0..<b_n b])"

definition filter_batch :: "'f batch \<Rightarrow> string \<Rightarrow> int \<Rightarrow> int \<Rightarrow> 'f batch" where
  "filter_batch b family from to = (let sel = filter_sel b family from to in
     if length sel = b_n b then b else \<lparr>b_n = length sel, b_cols = map (\<lambda>(k, c). (k, take_rows c sel)) (b_cols b)\<rparr>)"

definition finish_batch :: "'f batch \<Rightarrow> string list \<Rightarrow> bool \<Rightarrow> string \<Rightarrow> int \<Rightarrow> int \<Rightarrow> 'f batch" where
  "finish_batch b requested all family from to =
     (let b = (if all then b else filter_batch b family from to) in
      if length (b_cols b) \<noteq> length requested then b\<lparr>b_cols := filter (\<lambda>(k, c). k \<in> set requested) (b_cols b)\<rparr> else b)"

section \<open>A row group\<close>

text \<open>A file's columns in order, and of a row group its rows and what the reader decodes of a column.\<close>

record 'f row_group =
  rg_cols :: "string list"
  rg_rows :: nat
  rg_chunk :: "string \<Rightarrow> string + 'f column"

definition read_col :: "'f \<Rightarrow> 'f row_group \<Rightarrow> string \<Rightarrow> string + 'f column" where
  "read_col zero g n = (if n \<in> set (rg_cols g) then rg_chunk g n else Inr (null_column zero n (rg_rows g)))"

fun read_cols :: "'f \<Rightarrow> 'f row_group \<Rightarrow> string list \<Rightarrow> string + (string \<times> 'f column) list" where
  "read_cols zero g [] = Inr []"
| "read_cols zero g (n # ns) = and_then (read_col zero g n)
     (\<lambda>c. and_then (read_cols zero g ns) (\<lambda>cs. Inr ((n, c) # cs)))"

definition read_group :: "'f \<Rightarrow> 'f row_group \<Rightarrow> string list \<Rightarrow> string + 'f batch" where
  "read_group zero g read = and_then (read_cols zero g read) (\<lambda>cs. Inr \<lparr>b_n = rg_rows g, b_cols = cs\<rparr>)"

text \<open>Read for one query.\<close>

definition read_alone :: "(string \<Rightarrow> string) \<Rightarrow> 'f \<Rightarrow> 'f row_group \<Rightarrow> bool \<Rightarrow> string list \<Rightarrow> string \<Rightarrow> int \<Rightarrow> int \<Rightarrow> string + 'f batch" where
  "read_alone low zero g all cols family from to =
     (let requested = expand_cols low (rg_cols g) cols;
          read = (if all then requested else expand_cols low [] (requested @ [''day''] @ (if family \<noteq> [] then [''family''] else [])))
      in and_then (read_group zero g read) (\<lambda>b. Inr (finish_batch b requested all family from to)))"

text \<open>
  Read for the live consumers of a shared scan, and one of them fed. A picked column that was not read
  makes the batch hold a nil pointer (\<open>None\<close>), which taking its rows, or the first reader of that
  column, follows: a panic.
\<close>

record live_use =
  lu_all :: bool
  lu_read :: "string list"
  lu_fam :: string
  lu_from :: int
  lu_to :: int

definition shared_columns :: "(string \<Rightarrow> string) \<Rightarrow> string list \<Rightarrow> live_use list \<Rightarrow> string list" where
  "shared_columns low file_cols lives =
     (let union = foldl add_new [] (concat (map lu_read lives));
          day = (\<exists>l \<in> set lives. \<not> lu_all l); famly = (\<exists>l \<in> set lives. \<not> lu_all l \<and> lu_fam l \<noteq> []);
          read = expand_cols low file_cols union
      in if day then expand_cols low [] (read @ [''day''] @ (if famly then [''family''] else [])) else read)"

definition pick_cols :: "'f batch \<Rightarrow> string list \<Rightarrow> 'f batch option" where
  "pick_cols b names = (if set names \<subseteq> set (map fst (b_cols b))
     then Some \<lparr>b_n = b_n b, b_cols = map (\<lambda>n. (n, the (map_of (b_cols b) n))) names\<rparr> else None)"

definition feed_one :: "(string \<Rightarrow> string) \<Rightarrow> string list \<Rightarrow> 'f batch \<Rightarrow> live_use \<Rightarrow> 'f batch option" where
  "feed_one low file_cols b l =
     (let requested = expand_cols low file_cols (lu_read l) in
      map_option (\<lambda>cb.
        let cols = (if lu_all l then b_cols cb else AList.update ''day'' (the (map_of (b_cols b) ''day'')) (b_cols cb));
            cols = (if lu_all l \<or> lu_fam l = [] then cols else AList.update ''family'' (the (map_of (b_cols b) ''family'')) cols)
        in finish_batch (cb\<lparr>b_cols := cols\<rparr>) requested (lu_all l) (lu_fam l) (lu_from l) (lu_to l)) (pick_cols b requested))"

definition feed_group :: "(string \<Rightarrow> string) \<Rightarrow> 'f \<Rightarrow> 'f row_group \<Rightarrow> live_use list \<Rightarrow> string + ('f batch option) list" where
  "feed_group low zero g lives = (if lives = [] then Inr []
     else and_then (read_group zero g (shared_columns low (rg_cols g) lives)) (\<lambda>b. Inr (map (feed_one low (rg_cols g) b) lives)))"

section \<open>The statistics lose no row\<close>

text \<open>What the scan asks of a row: its day in the range, its family the one asked for.\<close>

definition scan_passes :: "string \<Rightarrow> int \<Rightarrow> int \<Rightarrow> string option \<Rightarrow> int option \<Rightarrow> bool" where
  "scan_passes family from to f d \<longleftrightarrow> (case d of None \<Rightarrow> False | Some x \<Rightarrow> from \<le> x \<and> x \<le> to)
     \<and> (family = [] \<or> (case f of None \<Rightarrow> family = not_checks | Some x \<Rightarrow> fam_match family x))"

text \<open>Statistics that hold of a group's rows: the bounds of the values, and how many are null.\<close>

definition stats_true :: "group_stats \<Rightarrow> nat \<Rightarrow> (nat \<Rightarrow> string option) \<Rightarrow> (nat \<Rightarrow> int option) \<Rightarrow> bool" where
  "stats_true g n fam day \<longleftrightarrow>
     (gs_fam g \<longrightarrow> gs_fam_nulls g = int (card {i. i < n \<and> fam i = None}) \<and> (\<forall>i < n. \<forall>x. fam i = Some x \<longrightarrow> gs_fam_min g \<le> x \<and> x \<le> gs_fam_max g))
     \<and> (gs_day g \<longrightarrow> gs_day_nulls g = int (card {i. i < n \<and> day i = None}) \<and> (\<forall>i < n. \<forall>x. day i = Some x \<longrightarrow> gs_day_min g \<le> x \<and> x \<le> gs_day_max g))"

lemma no_nulls: "int (card {i. i < n \<and> f i = None}) = 0 \<Longrightarrow> i < (n :: nat) \<Longrightarrow> \<exists>x. f i = Some x"
proof -
  assume n: "int (card {i. i < n \<and> f i = None}) = 0" "i < n"
  have "finite {i. i < n \<and> f i = None}" by simp
  then have "{i. i < n \<and> f i = None} = {}" using n(1) by simp
  then show ?thesis using n(2) by auto
qed

lemma stats_trueD:
  assumes "stats_true g n fam day" "i < n"
  shows "gs_fam g \<Longrightarrow> fam i = Some x \<Longrightarrow> gs_fam_min g \<le> x \<and> x \<le> gs_fam_max g" "gs_fam g \<Longrightarrow> gs_fam_nulls g = 0 \<Longrightarrow> \<exists>x. fam i = Some x"
    "gs_day g \<Longrightarrow> day i = Some y \<Longrightarrow> gs_day_min g \<le> y \<and> y \<le> gs_day_max g" "gs_day g \<Longrightarrow> gs_day_nulls g = 0 \<Longrightarrow> \<exists>y. day i = Some y"
  using assms no_nulls [of n fam i] no_nulls [of n day i] unfolding stats_true_def by auto

lemma decide_drops:
  assumes "stats_true g n fam day" "i < n" "\<not> fst (decide g family from to)"
  shows "\<not> scan_passes family from to (fam i) (day i)"
proof -
  note t = stats_trueD [OF assms(1,2)]
  from assms(3) consider
      (checks) "family = not_checks" "gs_fam g" "gs_fam_nulls g = 0" "gs_fam_min g = family_checks" "gs_fam_max g = family_checks"
    | (family) "family \<noteq> []" "family \<noteq> not_checks" "gs_fam g" "family < gs_fam_min g \<or> gs_fam_max g < family"
    | (day) "gs_day g" "gs_day_max g < from \<or> to < gs_day_min g"
    by (auto simp: decide_def Let_def split: if_splits)
  then show ?thesis
  proof cases
    case checks
    then obtain x where x: "fam i = Some x" using t(2) by blast
    then have "x = family_checks" using t(1) [OF checks(2) x] checks(4,5) by (auto intro: order_antisym)
    then show ?thesis using x checks(1) by (simp add: scan_passes_def fam_match_def family_checks_def not_checks_def)
  next
    case family
    have "x \<noteq> family" if "fam i = Some x" for x using t(1) [OF family(3) that] family(4) by auto
    then show ?thesis using family(1,2) by (auto simp: scan_passes_def fam_match_def split: option.splits)
  next
    case day
    have "\<not> (from \<le> y \<and> y \<le> to)" if "day i = Some y" for y using t(3) [OF day(1) that] day(2) by auto
    then show ?thesis by (auto simp: scan_passes_def split: option.splits)
  qed
qed

lemma decide_keeps_all:
  assumes "stats_true g n fam day" "i < n" "snd (decide g family from to)"
  shows "scan_passes family from to (fam i) (day i)"
proof -
  note t = stats_trueD [OF assms(1,2)]
  from assms(3) have day: "gs_day g" "gs_day_nulls g = 0" "from \<le> gs_day_min g" "gs_day_max g \<le> to"
    and fam: "family = [] \<or> (family = not_checks \<and> gs_fam g \<and> (gs_fam_max g < family_checks \<or> family_checks < gs_fam_min g))
      \<or> (family \<noteq> not_checks \<and> gs_fam g \<and> gs_fam_nulls g = 0 \<and> gs_fam_min g = family \<and> gs_fam_max g = family)"
    by (auto simp: decide_def Let_def split: if_splits)
  obtain y where y: "day i = Some y" using t(4) day by blast
  have "from \<le> y \<and> y \<le> to" using t(3) [OF day(1) y] day(3,4) by simp
  moreover have "family = [] \<or> (case fam i of None \<Rightarrow> family = not_checks | Some x \<Rightarrow> fam_match family x)"
    using fam
  proof (elim disjE)
    assume c: "family = not_checks \<and> gs_fam g \<and> (gs_fam_max g < family_checks \<or> family_checks < gs_fam_min g)"
    have "x \<noteq> family_checks" if "fam i = Some x" for x using t(1) [OF _ that] c by auto
    then show ?thesis using c by (auto simp: fam_match_def family_checks_def not_checks_def split: option.split)
  next
    assume c: "family \<noteq> not_checks \<and> gs_fam g \<and> gs_fam_nulls g = 0 \<and> gs_fam_min g = family \<and> gs_fam_max g = family"
    then obtain x where x: "fam i = Some x" using t(2) by blast
    then have "x = family" using t(1) [OF _ x] c by (auto intro: order_antisym)
    then show ?thesis using x c by (simp add: fam_match_def)
  qed simp
  ultimately show ?thesis using y by (simp add: scan_passes_def)
qed

section \<open>Names\<close>

lemma add_new_set [simp]: "set (add_new out n) = insert n (set out)"
  by (auto simp: add_new_def)

lemma add_new_distinct: "distinct out \<Longrightarrow> distinct (add_new out n)"
  by (simp add: add_new_def)

lemma fold_add_new: "set (foldl add_new out ns) = set out \<union> set ns" "distinct out \<Longrightarrow> distinct (foldl add_new out ns)"
  by (induction ns arbitrary: out) (auto simp: add_new_distinct)

lemma expand_cols_set: "set (expand_cols low file_cols want) = (\<Union>w \<in> set want. set (expansion low file_cols w))"
  and expand_cols_distinct: "distinct (expand_cols low file_cols want)"
proof -
  have "set (foldl (\<lambda>out w. foldl add_new out (expansion low file_cols w)) out want) = set out \<union> (\<Union>w \<in> set want. set (expansion low file_cols w))
      \<and> (distinct out \<longrightarrow> distinct (foldl (\<lambda>out w. foldl add_new out (expansion low file_cols w)) out want))" for out
    by (induction want arbitrary: out) (auto simp: fold_add_new)
  from this [of "[]"] show "set (expand_cols low file_cols want) = (\<Union>w \<in> set want. set (expansion low file_cols w))" "distinct (expand_cols low file_cols want)"
    unfolding expand_cols_def by simp_all
qed

text \<open>No column of the file is named like a pattern; the names a scan adds are not.\<close>

definition no_star :: "string \<Rightarrow> bool" where
  "no_star n \<longleftrightarrow> prefix_of n = None"

lemma expansion_plain: "no_star w \<Longrightarrow> expansion low [] w = [w]"
  by (simp add: expansion_def no_star_def resolve_name_def)

lemma expand_plain: "\<forall>w \<in> set want. no_star w \<Longrightarrow> set (expand_cols low [] want) = set want"
  by (auto simp: expand_cols_set expansion_plain)

lemma expansion_no_star: "\<forall>c \<in> set file_cols. no_star c \<Longrightarrow> n \<in> set (expansion low file_cols w) \<Longrightarrow> no_star n"
proof -
  assume files: "\<forall>c \<in> set file_cols. no_star c" and n: "n \<in> set (expansion low file_cols w)"
  show ?thesis
  proof (cases "prefix_of w")
    case None
    obtain m ok where r: "resolve_name low w file_cols = (m, ok)" by force
    have "ok \<Longrightarrow> m \<in> set file_cols" using resolve_name_spec [of low w file_cols m ok] r by (auto split: if_splits)
    with n None files r show ?thesis by (auto simp: expansion_def no_star_def split: if_splits)
  next
    case (Some p)
    with n files show ?thesis by (auto simp: expansion_def)
  qed
qed

lemma plain_names: "no_star ''day''" "no_star ''family''"
  by (simp_all add: no_star_def prefix_of_def)

section \<open>A group read for one query and for many\<close>

definition col_of :: "'f \<Rightarrow> 'f row_group \<Rightarrow> string \<Rightarrow> 'f column" where
  "col_of zero g n = (case read_col zero g n of Inr c \<Rightarrow> c | Inl e \<Rightarrow> no_column)"

definition cols_readable :: "'f \<Rightarrow> 'f row_group \<Rightarrow> string set \<Rightarrow> bool" where
  "cols_readable zero g ns \<longleftrightarrow> (\<forall>n \<in> ns. \<exists>c. read_col zero g n = Inr c)"

lemma read_cols_Inr: "read_cols zero g ns = Inr cs \<longleftrightarrow> cols_readable zero g (set ns) \<and> cs = map (\<lambda>n. (n, col_of zero g n)) ns"
proof (induction ns arbitrary: cs)
  case (Cons n ns)
  show ?case
  proof (cases "read_col zero g n")
    case (Inl e)
    then show ?thesis by (auto simp: cols_readable_def)
  next
    case (Inr c)
    then have "col_of zero g n = c" by (simp add: col_of_def)
    then show ?thesis using Inr Cons.IH by (auto simp: and_then_Inr cols_readable_def)
  qed
qed (auto simp: cols_readable_def)

lemma read_group_Inr: "read_group zero g ns = Inr b \<longleftrightarrow> cols_readable zero g (set ns) \<and> b = \<lparr>b_n = rg_rows g, b_cols = map (\<lambda>n. (n, col_of zero g n)) ns\<rparr>"
  by (auto simp: read_group_def and_then_Inr read_cols_Inr)

text \<open>A batch that holds, of the group, at least the columns \<open>ns\<close>.\<close>

definition holds_cols :: "'f \<Rightarrow> 'f row_group \<Rightarrow> 'f batch \<Rightarrow> string set \<Rightarrow> bool" where
  "holds_cols zero g b ns \<longleftrightarrow> b_n b = rg_rows g \<and> distinct (map fst (b_cols b)) \<and> ns \<subseteq> fst ` set (b_cols b)
     \<and> (\<forall>n c. map_of (b_cols b) n = Some c \<longrightarrow> c = col_of zero g n)"

lemma holds_colsD:
  assumes "holds_cols zero g b ns" "n \<in> ns"
  shows "map_of (b_cols b) n = Some (col_of zero g n)"
proof -
  obtain c where "map_of (b_cols b) n = Some c" using assms by (metis domD dom_map_of_conv_image_fst holds_cols_def subsetD)
  then show ?thesis using assms(1) by (auto simp: holds_cols_def)
qed

text \<open>The rows a scan keeps of a group, and the batch it hands on, whatever else was read.\<close>

definition kept_rows_of :: "'f \<Rightarrow> 'f row_group \<Rightarrow> bool \<Rightarrow> string \<Rightarrow> int \<Rightarrow> int \<Rightarrow> nat list" where
  "kept_rows_of zero g all family from to = (if all then [0..<rg_rows g]
     else filter_sel \<lparr>b_n = rg_rows g, b_cols = [(''day'', col_of zero g ''day''), (''family'', col_of zero g ''family'')]\<rparr> family from to)"

definition kept_col :: "'f row_group \<Rightarrow> nat list \<Rightarrow> 'f column \<Rightarrow> 'f column" where
  "kept_col g sel c = (if length sel = rg_rows g then c else take_rows c sel)"

lemma kept_same: "length sel = rg_rows g \<Longrightarrow> map_option (kept_col g sel) x = x"
  by (cases x) (simp_all add: kept_col_def)

lemma map_of_take: "map_of (map (\<lambda>(k, c). (k, f c)) xs) n = map_option f (map_of xs n)"
  by (induction xs) auto

lemma map_of_kept: "map_of (filter (\<lambda>(k, c). k \<in> ns) xs) n = (if n \<in> ns then map_of xs n else None)"
  by (induction xs) auto

lemma filter_sel_of:
  assumes "holds_cols zero g b ns" "''day'' \<in> ns" "family \<noteq> [] \<longrightarrow> ''family'' \<in> ns"
  shows "filter_sel b family from to = kept_rows_of zero g False family from to"
proof -
  have day: "map_of (b_cols b) ''day'' = Some (col_of zero g ''day'')" by (rule holds_colsD [OF assms(1,2)])
  have n: "b_n b = rg_rows g" using assms(1) by (simp add: holds_cols_def)
  show ?thesis
  proof (cases "family = []")
    case True
    then show ?thesis by (simp add: filter_sel_def kept_rows_of_def day n Let_def)
  next
    case False
    then have "map_of (b_cols b) ''family'' = Some (col_of zero g ''family'')" using holds_colsD [OF assms(1)] assms(3) by simp
    then show ?thesis by (simp add: filter_sel_def kept_rows_of_def day n Let_def)
  qed
qed

lemma finish_holds:
  assumes "holds_cols zero g b ns" "set requested \<subseteq> ns" "distinct requested"
    and "\<not> all \<longrightarrow> ''day'' \<in> ns \<and> (family \<noteq> [] \<longrightarrow> ''family'' \<in> ns)" "sel = kept_rows_of zero g all family from to"
  shows "b_n (finish_batch b requested all family from to) = length sel"
    "map_of (b_cols (finish_batch b requested all family from to)) n = (if n \<in> set requested then Some (kept_col g sel (col_of zero g n)) else None)"
    "distinct (map fst (b_cols (finish_batch b requested all family from to)))"
proof -
  let ?b = "if all then b else filter_batch b family from to"
  have b: "b_n b = rg_rows g" "distinct (map fst (b_cols b))" "set requested \<subseteq> fst ` set (b_cols b)"
    using assms(1,2) by (auto simp: holds_cols_def)
  have sel: "filter_sel b family from to = sel" if "\<not> all" using filter_sel_of [OF assms(1)] assms(4,5) that by simp
  have all: "sel = [0..<rg_rows g]" if all using that assms(5) by (simp add: kept_rows_of_def)
  have "b_n ?b = length sel \<and> map_of (b_cols ?b) n = map_option (kept_col g sel) (map_of (b_cols b) n) \<and> map fst (b_cols ?b) = map fst (b_cols b)" for n
  proof (cases "all \<or> length sel = b_n b")
    case True
    then have "?b = b" "length sel = rg_rows g" using sel all b(1) by (auto simp: filter_batch_def Let_def)
    then show ?thesis using b(1) by (simp add: kept_same)
  next
    case False
    then have b': "?b = \<lparr>b_n = length sel, b_cols = map (\<lambda>(k, c). (k, take_rows c sel)) (b_cols b)\<rparr>" using sel by (simp add: filter_batch_def Let_def)
    have "kept_col g sel = (\<lambda>c. take_rows c sel)" using False b(1) by (auto simp: kept_col_def)
    then show ?thesis unfolding b' by (simp add: map_of_take) (simp add: split_def)
  qed
  then have n': "b_n ?b = length sel" and cols: "map_of (b_cols ?b) n = map_option (kept_col g sel) (map_of (b_cols b) n)"
    and keys: "map fst (b_cols ?b) = map fst (b_cols b)" for n by blast+
  have len: "length (b_cols ?b) = length (b_cols b)" using arg_cong [OF keys, of length] by simp
  have req: "map_of (b_cols ?b) n = Some (kept_col g sel (col_of zero g n))" if "n \<in> set requested" for n
    using holds_colsD [OF assms(1), of n] assms(2) that by (auto simp: cols)
  show "b_n (finish_batch b requested all family from to) = length sel"
    using n' by (simp add: finish_batch_def Let_def split: if_splits)
  have none: "map_of (b_cols ?b) n = None" if "length (b_cols b) = length requested" "n \<notin> set requested" for n
  proof -
    have "card (set requested) = length requested" "card (fst ` set (b_cols b)) = length (b_cols b)"
      using assms(3) b(2) distinct_card [of requested] distinct_card [of "map fst (b_cols b)"] by auto
    then have "fst ` set (b_cols b) = set requested" using b(3) that(1) by (metis card_subset_eq finite_imageI finite_set)
    then have "map_of (b_cols b) n = None" using that(2) by (simp add: map_of_eq_None_iff)
    then show ?thesis by (simp add: cols)
  qed
  show "map_of (b_cols (finish_batch b requested all family from to)) n = (if n \<in> set requested then Some (kept_col g sel (col_of zero g n)) else None)"
    unfolding finish_batch_def Let_def len using req none [of n] by (auto simp: map_of_kept)
  have "distinct (map fst (b_cols ?b))" using keys b(2) by simp
  moreover have "distinct (map fst xs) \<Longrightarrow> distinct (map fst (filter P xs))" for xs :: "(string \<times> 'a column) list" and P
    by (simp add: distinct_map_filter)
  ultimately show "distinct (map fst (b_cols (finish_batch b requested all family from to)))"
    unfolding finish_batch_def Let_def len by simp
qed

lemma picked_holds: "distinct ns \<Longrightarrow> holds_cols zero g \<lparr>b_n = rg_rows g, b_cols = map (\<lambda>n. (n, col_of zero g n)) ns\<rparr> (set ns)"
proof -
  assume d: "distinct ns"
  have "map_of (map (\<lambda>n. (n, col_of zero g n)) ns) n = (if n \<in> set ns then Some (col_of zero g n) else None)" for n
    by (induction ns) auto
  then show ?thesis using d by (auto simp: holds_cols_def comp_def image_image split: if_splits)
qed

lemma update_holds: "holds_cols zero g b ns \<Longrightarrow> holds_cols zero g (b\<lparr>b_cols := AList.update n (col_of zero g n) (b_cols b)\<rparr>) (insert n ns)"
  by (auto simp: holds_cols_def distinct_update update_conv' dom_update split: if_splits)

text \<open>What one query alone gets.\<close>

lemma alone_reads:
  assumes "\<forall>c \<in> set (rg_cols g). no_star c" "sel = kept_rows_of zero g all family from to" "requested = expand_cols low (rg_cols g) cols"
    and "cols_readable zero g (set requested \<union> (if all then {} else {''day''} \<union> (if family = [] then {} else {''family''})))"
  shows "\<exists>b. read_alone low zero g all cols family from to = Inr b \<and> b_n b = length sel \<and> distinct (map fst (b_cols b))
    \<and> (\<forall>n. map_of (b_cols b) n = (if n \<in> set requested then Some (kept_col g sel (col_of zero g n)) else None))"
proof -
  let ?read = "if all then requested else expand_cols low [] (requested @ [''day''] @ (if family \<noteq> [] then [''family''] else []))"
  have plain: "no_star n" if "n \<in> set requested" for n using that expansion_no_star [OF assms(1)] by (auto simp: assms(3) expand_cols_set)
  have "\<forall>n \<in> set (requested @ [''day''] @ (if family \<noteq> [] then [''family''] else [])). no_star n" using plain plain_names by auto
  from expand_plain [OF this] have read: "set ?read = set requested \<union> (if all then {} else {''day''} \<union> (if family = [] then {} else {''family''}))"
    "distinct ?read" using expand_cols_distinct assms(3) by auto
  let ?b = "\<lparr>b_n = rg_rows g, b_cols = map (\<lambda>n. (n, col_of zero g n)) ?read\<rparr>"
  have "read_group zero g ?read = Inr ?b" using assms(4) by (simp only: read_group_Inr read(1) simp_thms)
  then have "read_alone low zero g all cols family from to = Inr (finish_batch ?b requested all family from to)"
    unfolding read_alone_def Let_def assms(3) [symmetric] by simp
  moreover have d: "distinct requested" using expand_cols_distinct assms(3) by simp
  note f = finish_holds [OF picked_holds [OF read(2)] _ d _ assms(2)]
  have sub: "set requested \<subseteq> set ?read" "\<not> all \<longrightarrow> ''day'' \<in> set ?read \<and> (family \<noteq> [] \<longrightarrow> ''family'' \<in> set ?read)" unfolding read(1) by auto
  ultimately show ?thesis using f(1) [OF sub] f(2) [OF sub] f(3) [OF sub] by blast
qed

text \<open>What a consumer of a shared scan gets.\<close>

lemma shared_columns_set:
  assumes "\<forall>c \<in> set (rg_cols g). no_star c"
  shows "set (shared_columns low (rg_cols g) lives) = (\<Union>l \<in> set lives. set (expand_cols low (rg_cols g) (lu_read l)))
      \<union> (if \<exists>l \<in> set lives. \<not> lu_all l then {''day''} else {}) \<union> (if \<exists>l \<in> set lives. \<not> lu_all l \<and> lu_fam l \<noteq> [] then {''family''} else {})"
    "distinct (shared_columns low (rg_cols g) lives)"
proof -
  let ?union = "foldl add_new [] (concat (map lu_read lives))"
  have read: "set (expand_cols low (rg_cols g) ?union) = (\<Union>l \<in> set lives. set (expand_cols low (rg_cols g) (lu_read l)))"
    by (auto simp: expand_cols_set fold_add_new)
  have plain: "no_star n" if "n \<in> set (expand_cols low (rg_cols g) ?union)" for n using that expansion_no_star [OF assms] by (auto simp: expand_cols_set)
  have plain_F: "\<forall>n \<in> set (expand_cols low (rg_cols g) ?union @ [''day''] @ (if F then [''family''] else [])). no_star n" for F using plain plain_names by auto
  have e: "set (expand_cols low [] (expand_cols low (rg_cols g) ?union @ [''day''] @ (if F then [''family''] else [])))
      = (\<Union>l \<in> set lives. set (expand_cols low (rg_cols g) (lu_read l))) \<union> {''day''} \<union> (if F then {''family''} else {})" for F unfolding expand_plain [OF plain_F] set_append read by auto
  let ?D = "\<exists>l \<in> set lives. \<not> lu_all l" and ?F = "\<exists>l \<in> set lives. \<not> lu_all l \<and> lu_fam l \<noteq> []"
  show "set (shared_columns low (rg_cols g) lives) = (\<Union>l \<in> set lives. set (expand_cols low (rg_cols g) (lu_read l)))
      \<union> (if ?D then {''day''} else {}) \<union> (if ?F then {''family''} else {})"
  proof (cases ?D)
    case True
    then have "shared_columns low (rg_cols g) lives = expand_cols low [] (expand_cols low (rg_cols g) ?union @ [''day''] @ (if ?F then [''family''] else []))"
      unfolding shared_columns_def Let_def by (simp only: if_True)
    then show ?thesis using True by (simp only: e if_True)
  next
    case False
    then have "\<not> ?F" by blast
    with False show ?thesis unfolding shared_columns_def Let_def by (simp only: if_False read Un_empty_right)
  qed
  show "distinct (shared_columns low (rg_cols g) lives)" unfolding shared_columns_def Let_def by (simp add: expand_cols_distinct)
qed

lemma consumer_fed:
  assumes "\<forall>c \<in> set (rg_cols g). no_star c" "l \<in> set lives" "sel = kept_rows_of zero g (lu_all l) (lu_fam l) (lu_from l) (lu_to l)"
    and "requested = expand_cols low (rg_cols g) (lu_read l)"
    and "b = \<lparr>b_n = rg_rows g, b_cols = map (\<lambda>n. (n, col_of zero g n)) (shared_columns low (rg_cols g) lives)\<rparr>"
  shows "\<exists>cb. feed_one low (rg_cols g) b l = Some cb \<and> b_n cb = length sel
    \<and> (\<forall>n. map_of (b_cols cb) n = (if n \<in> set requested then Some (kept_col g sel (col_of zero g n)) else None))"
proof -
  note s = shared_columns_set [OF assms(1), of low lives]
  have h: "holds_cols zero g b (set (shared_columns low (rg_cols g) lives))" unfolding assms(5) by (rule picked_holds [OF s(2)])
  have sub: "set requested \<subseteq> set (shared_columns low (rg_cols g) lives)" using assms(2,4) by (auto simp: s(1))
  have keys: "fst ` set (b_cols b) = set (shared_columns low (rg_cols g) lives)" by (simp add: assms(5) image_image)
  have d: "distinct requested" using expand_cols_distinct assms(4) by simp
  let ?cb = "\<lparr>b_n = rg_rows g, b_cols = map (\<lambda>n. (n, col_of zero g n)) requested\<rparr>"
  have "map (\<lambda>n. (n, the (map_of (b_cols b) n))) requested = map (\<lambda>n. (n, col_of zero g n)) requested"
    using holds_colsD [OF h] sub by auto
  then have p: "pick_cols b requested = Some ?cb" using sub keys by (simp add: pick_cols_def assms(5))
  let ?cols = "if lu_all l then b_cols ?cb else AList.update ''day'' (the (map_of (b_cols b) ''day'')) (b_cols ?cb)"
  let ?cols' = "if lu_all l \<or> lu_fam l = [] then ?cols else AList.update ''family'' (the (map_of (b_cols b) ''family'')) ?cols"
  have f: "feed_one low (rg_cols g) b l = Some (finish_batch (?cb\<lparr>b_cols := ?cols'\<rparr>) requested (lu_all l) (lu_fam l) (lu_from l) (lu_to l))"
    unfolding feed_one_def Let_def assms(4) [symmetric] p by simp
  let ?ns = "set requested \<union> (if lu_all l then {} else {''day''}) \<union> (if lu_all l \<or> lu_fam l = [] then {} else {''family''})"
  have cb: "holds_cols zero g ?cb (set requested)" by (rule picked_holds [OF d])
  have day: "the (map_of (b_cols b) ''day'') = col_of zero g ''day''" if "\<not> lu_all l"
  proof -
    have "''day'' \<in> set (shared_columns low (rg_cols g) lives)" unfolding s(1) using that assms(2) by auto
    from holds_colsD [OF h this] show ?thesis by simp
  qed
  have fam: "the (map_of (b_cols b) ''family'') = col_of zero g ''family''" if "\<not> lu_all l" "lu_fam l \<noteq> []"
  proof -
    have "''family'' \<in> set (shared_columns low (rg_cols g) lives)" unfolding s(1) using that assms(2) by auto
    from holds_colsD [OF h this] show ?thesis by simp
  qed
  have "holds_cols zero g (?cb\<lparr>b_cols := ?cols'\<rparr>) ?ns"
  proof (cases "lu_all l")
    case True
    then show ?thesis using cb by simp
  next
    case False
    note u = update_holds [OF cb, of "''day''"]
    show ?thesis
    proof (cases "lu_fam l = []")
      case True
      then show ?thesis using u False day by (simp add: insert_commute)
    next
      case fam': False
      then show ?thesis using update_holds [OF u, of "''family''"] False day fam by (simp add: insert_commute)
    qed
  qed
  note g = finish_holds [OF this _ d _ assms(3)]
  have "set requested \<subseteq> ?ns" "\<not> lu_all l \<longrightarrow> ''day'' \<in> ?ns \<and> (lu_fam l \<noteq> [] \<longrightarrow> ''family'' \<in> ?ns)" by auto
  from g(1) [OF this] g(2) [OF this] f show ?thesis by blast
qed

section \<open>Properties\<close>

text \<open>The family and the day of a row, as the filter reads them.\<close>

definition fam_at :: "'f batch \<Rightarrow> nat \<Rightarrow> string option" where
  "fam_at b i = (let c = the (map_of (b_cols b) ''family''); f = the (c_idx c) ! i in if f < 0 then None else Some (c_dict c ! nat f))"

definition day_at :: "'f batch \<Rightarrow> nat \<Rightarrow> int option" where
  "day_at b i = (let c = the (map_of (b_cols b) ''day'') in if is_null c i then None else Some (the (c_ints c) ! i))"

lemma filter_sel_rows: "filter_sel b family from to = filter (\<lambda>i. scan_passes family from to (fam_at b i) (day_at b i)) [0..<b_n b]"
  by (auto simp: filter_sel_def scan_passes_def fam_at_def day_at_def Let_def intro!: filter_cong)

text \<open>
  C5: The statistics of a row group lose no row and let none in. When they are true of its rows (the
  bounds hold of the values, nulls left out, and the nulls are counted), a group they exclude has no row
  the filter would keep, and a group they say is wholly in is one the filter would leave as it is.
\<close>

theorem groups_decided_right:
  assumes "stats_true g (b_n b) (fam_at b) (day_at b)"
  shows "(\<not> fst (decide g family from to) \<longrightarrow> b_n (filter_batch b family from to) = 0)
    \<and> (snd (decide g family from to) \<longrightarrow> filter_batch b family from to = b)"
proof -
  have "filter_sel b family from to = []" if "\<not> fst (decide g family from to)"
    unfolding filter_sel_rows filter_empty_conv using decide_drops [OF assms _ that] by simp
  moreover have "filter_sel b family from to = [0..<b_n b]" if "snd (decide g family from to)"
    unfolding filter_sel_rows filter_id_conv using decide_keeps_all [OF assms _ that] by simp
  ultimately show ?thesis by (auto simp: filter_batch_def Let_def)
qed

text \<open>Two rows, of views, on the days 10 and 12, and a third with no family on day 11.\<close>

definition sample_group :: "int batch" where
  "sample_group = \<lparr>b_n = 3, b_cols = [(''family'', no_column\<lparr>c_dict := [''views''], c_idx := Some [0, 0, - 1]\<rparr>),
     (''day'', no_column\<lparr>c_ints := Some [10, 12, 11]\<rparr>)]\<rparr>"

definition sample_stats :: group_stats where
  "sample_stats = \<lparr>gs_fam = True, gs_fam_min = ''views'', gs_fam_max = ''views'', gs_fam_nulls = 1,
     gs_day = True, gs_day_min = 10, gs_day_max = 12, gs_day_nulls = 0\<rparr>"

theorem groups_decided_right_witness:
  "decide sample_stats ''product'' 10 12 = (False, False) \<and> b_n (filter_batch sample_group ''product'' 10 12) = 0
    \<and> decide sample_stats not_checks 5 12 = (True, True) \<and> filter_batch sample_group not_checks 5 12 = sample_group
    \<and> decide sample_stats ''views'' 5 12 = (True, False) \<and> b_n (filter_batch sample_group ''views'' 5 12) = 2"
proof -
  have fam: "fam_at sample_group 0 = Some ''views''" "fam_at sample_group 1 = Some ''views''" "fam_at sample_group 2 = None" by code_simp+
  have day: "day_at sample_group 0 = Some 10" "day_at sample_group 1 = Some 12" "day_at sample_group 2 = Some 11" by code_simp+
  have three: "i < b_n sample_group \<longleftrightarrow> i = 0 \<or> i = 1 \<or> i = 2" for i by (auto simp: sample_group_def)
  have "{i. i < b_n sample_group \<and> fam_at sample_group i = None} = {2}" "{i. i < b_n sample_group \<and> day_at sample_group i = None} = {}"
    using fam day by (auto simp: three)
  then have "stats_true sample_stats (b_n sample_group) (fam_at sample_group) (day_at sample_group)"
    using fam day by (auto simp: stats_true_def sample_stats_def three)
  note right = groups_decided_right [OF this]
  have d: "decide sample_stats ''product'' 10 12 = (False, False)" "decide sample_stats not_checks 5 12 = (True, True)"
    "decide sample_stats ''views'' 5 12 = (True, False)" "b_n (filter_batch sample_group ''views'' 5 12) = 2" by code_simp+
  then show ?thesis using right [of "''product''" 10 12] right [of not_checks 5 12] by simp
qed

text \<open>
  C6: Reading a row group once for many queries gives each of them the batch it would have read alone:
  as many rows, and every column the same, whatever the others read, over whatever days and family. (No
  column of the file ends in a star, which is how a scan names a prefix: see \<open>starred_column_lost\<close>.)
\<close>

theorem shared_read_as_alone:
  assumes "\<forall>c \<in> set (rg_cols g). no_star c" and "feed_group low zero g lives = Inr bs" and "k < length lives"
  shows "\<exists>cb b. bs ! k = Some cb \<and> b_n cb = b_n b \<and> map_of (b_cols cb) = map_of (b_cols b)
    \<and> read_alone low zero g (lu_all (lives ! k)) (lu_read (lives ! k)) (lu_fam (lives ! k)) (lu_from (lives ! k)) (lu_to (lives ! k)) = Inr b"
proof -
  let ?l = "lives ! k" let ?read = "shared_columns low (rg_cols g) lives"
  let ?sel = "kept_rows_of zero g (lu_all ?l) (lu_fam ?l) (lu_from ?l) (lu_to ?l)"
  let ?req = "expand_cols low (rg_cols g) (lu_read ?l)"
  let ?b = "\<lparr>b_n = rg_rows g, b_cols = map (\<lambda>n. (n, col_of zero g n)) ?read\<rparr>"
  have l: "?l \<in> set lives" and ne: "lives \<noteq> []" using assms(3) by auto
  from assms(2) ne have r: "cols_readable zero g (set ?read)" and bs: "bs = map (feed_one low (rg_cols g) ?b) lives"
    by (auto simp: feed_group_def and_then_Inr read_group_Inr)
  obtain cb where cb: "feed_one low (rg_cols g) ?b ?l = Some cb" "b_n cb = length ?sel"
    "\<forall>n. map_of (b_cols cb) n = (if n \<in> set ?req then Some (kept_col g ?sel (col_of zero g n)) else None)"
    using consumer_fed [OF assms(1) l refl refl refl, of low zero] by blast
  have "set ?req \<union> (if lu_all ?l then {} else {''day''} \<union> (if lu_fam ?l = [] then {} else {''family''})) \<subseteq> set ?read"
    unfolding shared_columns_set(1) [OF assms(1)] using l by auto
  then have "cols_readable zero g (set ?req \<union> (if lu_all ?l then {} else {''day''} \<union> (if lu_fam ?l = [] then {} else {''family''})))"
    using r unfolding cols_readable_def by blast
  from alone_reads [OF assms(1) refl refl this] obtain b where b: "read_alone low zero g (lu_all ?l) (lu_read ?l) (lu_fam ?l) (lu_from ?l) (lu_to ?l) = Inr b"
    "b_n b = length ?sel" "\<forall>n. map_of (b_cols b) n = (if n \<in> set ?req then Some (kept_col g ?sel (col_of zero g n)) else None)" by blast
  have "map_of (b_cols cb) = map_of (b_cols b)" using cb(3) b(3) by (simp add: fun_eq_iff)
  then show ?thesis using bs assms(3) cb(1,2) b(1,2) by (intro exI [of _ cb] exI [of _ b]) simp
qed

text \<open>Of those rows, two queries: one of any day, for the host the file lacks, and one of the views of days 11 to 20.\<close>

definition sample_rg :: "int row_group" where
  "sample_rg = \<lparr>rg_cols = [''Path'', ''family'', ''day''], rg_rows = 3, rg_chunk = (\<lambda>n.
     if n = ''day'' then Inr (no_column\<lparr>c_ints := Some [10, 12, 11]\<rparr>)
     else Inr (no_column\<lparr>c_dict := [''views''], c_idx := Some [0, 0, - 1]\<rparr>))\<rparr>"

definition sample_lives :: "live_use list" where
  "sample_lives = [\<lparr>lu_all = True, lu_read = [''host''], lu_fam = [], lu_from = 0, lu_to = 99\<rparr>,
     \<lparr>lu_all = False, lu_read = [''path''], lu_fam = ''views'', lu_from = 11, lu_to = 20\<rparr>]"

theorem shared_read_as_alone_witness:
  "\<exists>bs cb b. feed_group ascii_low 0 sample_rg sample_lives = Inr bs \<and> bs ! 1 = Some cb \<and> b_n cb = 1
    \<and> read_alone ascii_low 0 sample_rg False [''path''] ''views'' 11 20 = Inr b \<and> map_of (b_cols cb) = map_of (b_cols b)"
proof -
  let ?bs = "projr (feed_group ascii_low 0 sample_rg sample_lives)"
  have bs: "feed_group ascii_low 0 sample_rg sample_lives = Inr ?bs" by code_simp
  have plain: "\<forall>c \<in> set (rg_cols sample_rg). no_star c" by (simp add: sample_rg_def no_star_def prefix_of_def)
  have one: "map_option b_n (?bs ! 1) = Some 1" by code_simp
  have l: "sample_lives ! 1 = \<lparr>lu_all = False, lu_read = [''path''], lu_fam = ''views'', lu_from = 11, lu_to = 20\<rparr>"
    "1 < length sample_lives" by (simp_all add: sample_lives_def)
  from shared_read_as_alone [OF plain bs l(2)] one show ?thesis unfolding l(1) using bs by auto
qed

text \<open>
  A column whose name ends in a star (an attribute's key may) is lost once the read columns are expanded
  a second time: read for one query alone, a group that is not wholly in the range comes without it (the
  query then reads it as NULL), though a group that is comes with it; read for many, one of which is not
  wholly in, the query that asked for it is handed a nil column.
\<close>

lemma expand_empty_no_star: "n \<in> set (expand_cols low [] ns) \<Longrightarrow> no_star n"
  using expansion_no_star [of "[]" n low] by (auto simp: expand_cols_set)

lemma finish_keys: "fst ` set (b_cols (finish_batch b requested all family from to)) \<subseteq> fst ` set (b_cols b)"
  by (auto simp: finish_batch_def filter_batch_def Let_def image_iff split: if_splits) (metis fst_conv)+

theorem starred_column_lost:
  assumes "c \<in> set (expand_cols low (rg_cols g) cols)" and "\<not> no_star c"
  shows "(read_alone low zero g False cols family from to = Inr b \<longrightarrow> map_of (b_cols b) c = None)
    \<and> (read_alone low zero g True cols family from to = Inr b \<longrightarrow> map_of (b_cols b) c = Some (col_of zero g c))
    \<and> (k < length lives \<and> lu_read (lives ! k) = cols \<and> (\<exists>l \<in> set lives. \<not> lu_all l) \<and> feed_group low zero g lives = Inr bs
        \<longrightarrow> bs ! k = None)"
proof (intro conjI impI)
  have not_read: "c \<notin> set (expand_cols low [] ns)" for ns using expand_empty_no_star assms(2) by blast
  show "map_of (b_cols b) c = None" if r: "read_alone low zero g False cols family from to = Inr b"
  proof -
    obtain ns where "fst ` set (b_cols b) \<subseteq> set (expand_cols low [] ns)"
      using r finish_keys by (fastforce simp: read_alone_def Let_def and_then_Inr read_group_Inr)
    then show ?thesis using not_read [of ns] by (auto simp: map_of_eq_None_iff)
  qed
  show "map_of (b_cols b) c = Some (col_of zero g c)" if r: "read_alone low zero g True cols family from to = Inr b"
  proof -
    have "b = \<lparr>b_n = rg_rows g, b_cols = map (\<lambda>n. (n, col_of zero g n)) (expand_cols low (rg_cols g) cols)\<rparr>"
      using r by (auto simp: read_alone_def Let_def and_then_Inr read_group_Inr finish_batch_def)
    then show ?thesis using assms(1) picked_holds [OF expand_cols_distinct] holds_colsD by fastforce
  qed
  show "bs ! k = None" if s: "k < length lives \<and> lu_read (lives ! k) = cols \<and> (\<exists>l \<in> set lives. \<not> lu_all l) \<and> feed_group low zero g lives = Inr bs"
  proof -
    let ?read = "shared_columns low (rg_cols g) lives"
    let ?b = "\<lparr>b_n = rg_rows g, b_cols = map (\<lambda>n. (n, col_of zero g n)) ?read\<rparr>"
    have bs: "bs = map (feed_one low (rg_cols g) ?b) lives"
    proof -
      have "lives \<noteq> []" using s by auto
      then show ?thesis using s by (auto simp: feed_group_def and_then_Inr read_group_Inr)
    qed
    have "c \<notin> set ?read" using s not_read unfolding shared_columns_def Let_def by simp
    then have "pick_cols ?b (expand_cols low (rg_cols g) cols) = None" using assms(1) by (auto simp: pick_cols_def)
    then show ?thesis using bs s by (simp add: feed_one_def)
  qed
qed

end
