(* ===== verification/Spec2Isabelle.thy ===== *)
theory Spec2Isabelle
  imports DashPlace WidgetPlace RunnerSafety MonitorSchedule DaySets NativeFilter NativeRules Sessions Funnel Paths Retention QueryValidate RetentionMemo GroupTable AggNumbers Turns AnswerQueue ManyPlan ScanBudget ScanPlan
begin

text \<open>
  A verification development for twillingate, a self-hosted analytics server in Go: events come in
  over HTTP, are logged and merged into Parquet files per project and day, and are read back by the
  native query engine; dashboards, their widgets, forms and availability monitors live in SQLite.

  \<^bold>\<open>How the parts interact.\<close> An operation of \<^verbatim>\<open>internal/reporting\<close> reads the dashboards of an
  owner, computes sort keys (\<^verbatim>\<open>internal/shared/sortkey\<close>) and writes rows of the store, retrying when
  another writer took a key. The monitor runner (\<^verbatim>\<open>internal/monitor\<close>) reads and writes the monitors'
  tables from many goroutines, beside the operator's writes of monitors and projects. A query of the
  native engine (\<^verbatim>\<open>internal/native\<close>) is validated and compiled, waits for its turn, and is answered
  alone or shares a scan with others; a scan picks files and row groups, reads column batches, applies
  the project's event and attribute rules, filters rows, and aggregates them in parts that are merged
  into the answer, with distinct ids in hash tables and sketches. Funnels, paths, retention and
  sessions walk the rows in their own ways.

  \<^bold>\<open>Theories.\<close>
  \<^item> \<open>Prelude\<close>: results with an error, byte order on strings, decimals, Go's division, index loops.
  \<^item> \<open>Sortkey\<close>: \<^verbatim>\<open>sortkey.go\<close>, whole. Keys lie strictly between their neighbours; spreads ascend;
    \<open>Between\<close> fails only on what is no gap, and says which.
  \<^item> \<open>DashOrder\<close>, \<open>DashTables\<close>, \<open>DashPlace\<close>, \<open>WidgetPlace\<close>: \<^verbatim>\<open>internal/reporting/order.go\<close>,
    \<^verbatim>\<open>place.go\<close>, the update, rename and create operations, and the tables of
    \<^verbatim>\<open>internal/store/sqlite/reporting.go\<close> they use. Groups stay contiguous, keys unique, and a
    refused operation changes nothing.
  \<^item> \<open>MonitorTables\<close>, \<open>MonitorRunner\<close>, \<open>RunnerSafety\<close>, \<open>MonitorSchedule\<close>:
    \<^verbatim>\<open>internal/store/sqlite/monitors.go\<close>, the writes of projects of \<^verbatim>\<open>registry.go\<close> beside it, and
    \<^verbatim>\<open>internal/monitor/monitor.go\<close> as an inductive step relation over the runner's tasks, pools, locks
    and tables; invariants of every reachable state, that tasks drain, what is still recorded after
    shutdown, and that every slot is served once. A step is one access to shared state: \<open>keep\<close>'s look
    at the shutdown and its append are two.
  \<^item> \<open>HllSketch\<close>, \<open>DaySets\<close>: \<^verbatim>\<open>internal/shared/hll/hll.go\<close> and \<^verbatim>\<open>internal/native/sets.go\<close>. The locale
    \<open>union_counter\<close> states what a counter of distinct ids promises; the sketch and the engine's
    counter are its interpretations.
  \<^item> \<open>NativeBatch\<close>, \<open>NativeColumns\<close>, \<open>NativeFilter\<close>, \<open>NativeRules\<close>: \<^verbatim>\<open>batch.go\<close>, \<^verbatim>\<open>columns.go\<close>,
    \<^verbatim>\<open>filter.go\<close>, \<^verbatim>\<open>ever.go\<close>, \<^verbatim>\<open>rules.go\<close> of \<^verbatim>\<open>internal/native\<close>. Working on dictionaries is working row
    by row; ever and never select by the ids of the events their where takes.
  \<^item> \<open>QueryValidate\<close>: \<^verbatim>\<open>query.go\<close>, \<^verbatim>\<open>validate.go\<close> and every kind's validation, and \<open>compileQuery\<close>. An
    accepted query's answer has distinct columns; when it compiles.
  \<^item> \<open>ScanPlan\<close>: \<^verbatim>\<open>scan.go\<close>, \<^verbatim>\<open>files.go\<close>, the reading of \<^verbatim>\<open>parquet.go\<close> and \<open>feedGroup\<close> of \<^verbatim>\<open>many.go\<close>:
    which files, row groups, columns and rows a scan reads. Statistics lose no row, and a group read
    for many queries gives each what it would have read alone.
  \<^item> \<open>GroupTable\<close>, \<open>AggCells\<close>, \<open>AggParts\<close>, \<open>AggMerge\<close>, \<open>AggCounts\<close>, \<open>AggNumbers\<close>, \<open>AggAnswer\<close>:
    \<^verbatim>\<open>aggregate.go\<close>, \<^verbatim>\<open>merged.go\<close>, \<^verbatim>\<open>latest.go\<close> and the answers of \<^verbatim>\<open>engine.go\<close>: groups as codes of
    dimension values, the workers' partials, their merge, and stat, trend and breakdown. The locale
    \<open>cell_counter\<close> states what one cell of an array promises of the rows it was given, and is
    interpreted by the row counts (\<open>counts\<close>) and by the integer sums, minima and maxima (\<open>ints\<close>):
    however the rows are split over workers, the merged cell is that of all of them.
  \<^item> \<open>Turns\<close>, \<open>AnswerQueue\<close>, \<open>ManyPlan\<close>, \<open>ScanPool\<close>, \<open>SharedScan\<close>, \<open>ScanBudget\<close>: \<^verbatim>\<open>many.go\<close>, with the
    turns of \<^verbatim>\<open>engine.go\<close> and \<open>scanParallel\<close> of \<^verbatim>\<open>scan.go\<close>, as step relations over all interleavings:
    turns never exceed their size and are served in order, each answer is handed out once, a call is
    split by scan key, each request of a shared scan is answered once, workers read each item once and
    return, and the memory check evicts the heaviest and ends.
  \<^item> \<open>Sessions\<close>: \<^verbatim>\<open>internal/archive/sessions.go\<close>. The cut is the declared-id and half-hour rule.
  \<^item> \<open>Funnel\<close>, \<open>Paths\<close>, \<open>Retention\<close>, \<open>RetentionMemo\<close>: \<^verbatim>\<open>funnel.go\<close>, \<^verbatim>\<open>paths.go\<close>, \<^verbatim>\<open>retention.go\<close> and
    \<^verbatim>\<open>retention_memo.go\<close>. Greedy counting is the existence of a sequence of events; paths are cut as
    sessions are; retention counts the actors by the days they were active.

  \<^bold>\<open>Conventions.\<close> Go strings are byte lists; an error is the left of a sum, a nil pointer or slice
  \<open>None\<close>; a map is an association list in any order of its keys, or a function; a machine integer is a
  word where it wraps and an integer where it stays in range; floats are opaque with named operations.
  What the code does not hold itself is a parameter: the public suffix list, the case folding of
  \<^verbatim>\<open>strings.EqualFold\<close> and \<^verbatim>\<open>strings.ToLower\<close>, the sketch's estimate, what the Parquet reader decodes,
  the arithmetic of floats and \<^verbatim>\<open>strconv.Quote\<close> (the records \<open>float_ops\<close> and \<open>lib\<close> gather those of the
  engine). Loops are recursive functions with their termination proved; the probe of the
  open-addressing table, which would not end on a full table, is a partial function shown to return
  because the table never is full. No function runs on fuel.

  \<^bold>\<open>Not modelled.\<close> Opening files and decoding Parquet pages and log lines, HTTP handlers, OAuth, SQL
  text run by SQLite and DuckDB, the web client and the SDK, configuration and the command line: they
  are input and output around the logic above, or call libraries whose code is not in the repository.
  Of the engine the attributes kind, the joins of identities, the cache of the share totals and the
  bytes an aggregation charges are left out; the memory check is over one snapshot of the counters,
  which the code reads one by one, and the first error of a pool and the closing of its channel are
  one step.
\<close>

end
